(* ===== verification/Lix_Prelude.thy ===== *)
theory Lix_Prelude
  imports Main "HOL-Library.Word" "HOL-Library.Char_ord" "HOL-Library.List_Lexorder"
    "HOL-Library.Sublist"
begin

text \<open>
  What the component theories share: the exceptions of the C++ code as values, the result type
  and its sequencing, bytes and characters, the library's collections of simplification rules,
  the two codec interfaces (a total encoder with its decoder, and a writer with a reader that
  returns the unread rest), and the ordered containers \<^verbatim>\<open>std::set\<close> and \<^verbatim>\<open>std::map\<close> as
  strictly ascending lists.

  A \<^verbatim>\<open>std::string\<close> is a \<^typ>\<open>string\<close> (a list of 8-bit characters), a
  \<^verbatim>\<open>std::vector<uint8_t>\<close> a list of 8-bit words. An iterator into a string, or a string view
  whose prefix is removed step by step, is the suffix that is still to be read.
  The order on strings is the one of \<^verbatim>\<open>std::string::operator<\<close>: lexicographic by unsigned
  character value.
\<close>

unbundle bit_operations_syntax

section \<open>Collections of simplification rules\<close>

named_theorems result_simps \<open>sequencing of results\<close>
named_theorems codec_simps \<open>reading back what was written\<close>
named_theorems container_simps \<open>std::set and std::map as ascending lists\<close>

section \<open>Exceptions as values\<close>

text \<open>
  One constructor per exception class that the modelled code throws; the argument is the format
  string of the message. A failed \<^verbatim>\<open>assert\<close> and undefined behaviour are values too.
\<close>

datatype error =
    Error string
  | UsageError string
  | BadHash string
  | BadStorePath string
  | FormatError string
  | SerialisationError string
  | EndOfFile string
  | UnimplementedError string
  | InvalidPath string
  | AssertionFailed string
  | OutOfRange string
  | UndefinedBehaviour string
  | BuildError string
  | PathInUse string
  | SQLiteError string
  | ParseError string
  | UndefinedVarError string
  | EvalError string
  | TypeError string
  | AssertionError string
  | InfiniteRecursionError string
  | ThrownError string
  | Abort string
  | MissingArgumentError string

type_synonym 'a result = "error + 'a"

definition bindr :: "'a result \<Rightarrow> ('a \<Rightarrow> 'b result) \<Rightarrow> 'b result" where
  "bindr m f = (case m of Inl e \<Rightarrow> Inl e | Inr x \<Rightarrow> f x)"

lemma bindr_simps [simp, result_simps]:
  "bindr (Inl e) f = Inl e"
  "bindr (Inr x) f = f x"
  by (simp_all add: bindr_def)

lemma bindr_eq_Inr_iff [result_simps]:
  "bindr m f = Inr y \<longleftrightarrow> (\<exists>x. m = Inr x \<and> f x = Inr y)"
  by (cases m) auto

lemma bindr_eq_Inl_iff:
  "bindr m f = Inl e \<longleftrightarrow> m = Inl e \<or> (\<exists>x. m = Inr x \<and> f x = Inl e)"
  by (cases m) auto

lemma bindr_assoc: "bindr (bindr m f) g = bindr m (\<lambda>x. bindr (f x) g)"
  by (cases m) auto

lemma bindr_cong [fundef_cong]:
  "m = m' \<Longrightarrow> (\<And>x. m' = Inr x \<Longrightarrow> f x = f' x) \<Longrightarrow> bindr m f = bindr m' f'"
  by (cases m') auto

text \<open>A \<^verbatim>\<open>catch\<close> clause that rewrites the exception and throws it again.\<close>

definition catchr :: "(error \<Rightarrow> error) \<Rightarrow> 'a result \<Rightarrow> 'a result" where
  "catchr h m = (case m of Inl e \<Rightarrow> Inl (h e) | Inr x \<Rightarrow> Inr x)"

lemma catchr_simps [simp, result_simps]:
  "catchr h (Inl e) = Inl (h e)"
  "catchr h (Inr x) = Inr x"
  "catchr h m = Inr x \<longleftrightarrow> m = Inr x"
  by (auto simp: catchr_def split: sum.splits)

fun mapr :: "('a \<Rightarrow> 'b result) \<Rightarrow> 'a list \<Rightarrow> 'b list result" where
  "mapr f [] = Inr []"
| "mapr f (x # xs) = bindr (f x) (\<lambda>y. bindr (mapr f xs) (\<lambda>ys. Inr (y # ys)))"

lemma mapr_cong [fundef_cong]:
  "xs = ys \<Longrightarrow> (\<And>x. x \<in> set ys \<Longrightarrow> f x = g x) \<Longrightarrow> mapr f xs = mapr g ys"
proof (induction ys arbitrary: xs)
  case (Cons y ys)
  have "mapr f ys = mapr g ys" using Cons.IH [OF refl] Cons.prems(2) by simp
  then show ?case using Cons.prems by simp
qed simp

lemma mapr_eq_Inr: "mapr f xs = Inr ys \<Longrightarrow> length ys = length xs \<and> (\<forall>i < length xs. f (xs ! i) = Inr (ys ! i))"
proof (induction xs arbitrary: ys)
  case (Cons x xs)
  obtain z zs where z: "f x = Inr z" "mapr f xs = Inr zs" "ys = z # zs" using Cons.prems by (auto simp: bindr_eq_Inr_iff)
  show ?case using z(1,3) Cons.IH [OF z(2)] by (auto simp: nth_Cons split: nat.splits)
qed simp

lemma mapr_set: "mapr f xs = Inr ys \<Longrightarrow> y \<in> set ys \<Longrightarrow> \<exists>x \<in> set xs. f x = Inr y"
  by (induction xs arbitrary: ys) (auto simp: bindr_eq_Inr_iff)

lemma mapr_Inr: "(\<And>x. x \<in> set xs \<Longrightarrow> f x = Inr (g x)) \<Longrightarrow> mapr f xs = Inr (map g xs)"
  by (induction xs) auto

lemma mapr_length: "mapr f xs = Inr ys \<Longrightarrow> length ys = length xs"
  by (induction xs arbitrary: ys) (auto simp: bindr_eq_Inr_iff)

section \<open>Bytes and characters\<close>

type_synonym byte = "8 word"

definition byte_of_char :: "char \<Rightarrow> byte" where
  "byte_of_char c = word_of_nat (of_char c)"

definition char_of_byte :: "byte \<Rightarrow> char" where
  "char_of_byte w = char_of (unat w)"

lemma char_of_byte_of_char [simp]: "char_of_byte (byte_of_char c) = c"
  by (simp add: char_of_byte_def byte_of_char_def unat_of_nat)

lemma unat_byte_less: "unat (w :: byte) < 256"
proof -
  have "unat w < 2 ^ LENGTH(8)" by (rule unsigned_less)
  then show ?thesis by simp
qed

lemma byte_of_char_of_byte [simp]: "byte_of_char (char_of_byte w) = w"
  using unat_byte_less [of w] by (simp add: char_of_byte_def byte_of_char_def)

lemma inj_byte_of_char: "inj byte_of_char"
  by (metis char_of_byte_of_char injI)

lemma inj_char_of_byte: "inj char_of_byte"
  by (metis byte_of_char_of_byte injI)

lemma byte_of_char_eq_iff [simp]: "byte_of_char c = byte_of_char d \<longleftrightarrow> c = d"
  by (metis char_of_byte_of_char)

lemma map_char_of_byte_of_char [simp]: "map char_of_byte (map byte_of_char s) = s"
  by (simp add: comp_def)

lemma map_byte_of_char_of_byte [simp]: "map byte_of_char (map char_of_byte bs) = bs"
  by (simp add: comp_def)

lemma bit_and_low [simp]:
  "bit ((w :: 'a::len word) AND 0xff) i \<longleftrightarrow> i < 8 \<and> bit w i"
  "bit (w AND 0x3f) i \<longleftrightarrow> i < 6 \<and> bit w i"
  "bit (w AND 0x1f) i \<longleftrightarrow> i < 5 \<and> bit w i"
  "bit (w AND 0x0f) i \<longleftrightarrow> i < 4 \<and> bit w i"
proof -
  have masks: "0xff = (mask 8 :: 'a word)" "0x3f = (mask 6 :: 'a word)"
      "0x1f = (mask 5 :: 'a word)" "0x0f = (mask 4 :: 'a word)"
    by (simp_all add: mask_eq_exp_minus_1)
  show "bit (w AND 0xff) i \<longleftrightarrow> i < 8 \<and> bit w i" "bit (w AND 0x3f) i \<longleftrightarrow> i < 6 \<and> bit w i"
      "bit (w AND 0x1f) i \<longleftrightarrow> i < 5 \<and> bit w i" "bit (w AND 0x0f) i \<longleftrightarrow> i < 4 \<and> bit w i"
    unfolding masks by (auto simp: bit_and_iff bit_mask_iff dest: bit_imp_le_length)
qed

lemma unat_and_low:
  "unat ((w :: 32 word) AND 0x3f) < 64"
  "unat (w AND 0x1f) < 32"
  "unat ((b :: byte) AND 0x0f) < 16"
proof -
  have "w AND 0x3f \<le> 0x3f" "w AND 0x1f \<le> 0x1f" "b AND 0x0f \<le> 0x0f"
    by (simp_all add: word_and_le1)
  then show "unat (w AND 0x3f) < 64" "unat (w AND 0x1f) < 32" "unat (b AND 0x0f) < 16"
    by (simp_all add: word_le_nat_alt)
qed

section \<open>Lists\<close>

lemma dropWhile_takeWhile_append:
  "(\<forall>x \<in> set xs. P x) \<Longrightarrow> takeWhile P (xs @ ys) = xs @ takeWhile P ys"
  "(\<forall>x \<in> set xs. P x) \<Longrightarrow> dropWhile P (xs @ ys) = dropWhile P ys"
  by (induction xs) auto

lemma length_dropWhile_less [termination_simp]:
  "length (dropWhile P xs) \<le> length xs"
  by (rule length_dropWhile_le)

lemma prefix_drop_eq: "prefix xs zs \<Longrightarrow> zs = xs @ drop (length xs) zs"
  by (auto simp: prefix_def)

section \<open>Codecs\<close>

text \<open>
  The contract of an encoder and its decoder: every well-formed value reads back as itself.
  What a client gets from it is that no two well-formed values share an encoding.
\<close>

locale codec =
  fixes enc :: "'a \<Rightarrow> 'b"
    and dec :: "'b \<Rightarrow> 'a result"
    and ok :: "'a \<Rightarrow> bool"
  assumes dec_enc: "ok x \<Longrightarrow> dec (enc x) = Inr x"
begin

lemma enc_inj: "ok x \<Longrightarrow> ok y \<Longrightarrow> enc x = enc y \<Longrightarrow> x = y"
  by (metis dec_enc sum.inject(2))

lemma enc_inj_on: "inj_on enc {x. ok x}"
  by (auto intro!: inj_onI enc_inj)

lemma mapr_dec_enc: "(\<forall>x \<in> set xs. ok x) \<Longrightarrow> mapr dec (map enc xs) = Inr xs"
  by (induction xs) (auto simp: dec_enc)

end

text \<open>
  The contract of a writer and a reader on a stream: reading consumes exactly what was written
  and leaves the rest. It makes the written values self-delimiting, so any sequence of them
  reads back.
\<close>

locale wire =
  fixes put :: "'a \<Rightarrow> 'c list"
    and get :: "'c list \<Rightarrow> ('a \<times> 'c list) result"
    and ok :: "'a \<Rightarrow> bool"
  assumes get_put: "ok x \<Longrightarrow> get (put x @ rest) = Inr (x, rest)"
begin

lemma prefix_free:
  assumes "ok x" and "ok y" and "put x @ r = put y @ r'"
  shows "x = y \<and> r = r'"
proof -
  have "Inr (x, r) = (Inr (y, r') :: ('a \<times> 'c list) result)"
    using get_put [OF assms(1), of r] get_put [OF assms(2), of r'] assms(3) by metis
  then show ?thesis by simp
qed

end

sublocale wire \<subseteq> whole: codec put "\<lambda>s. bindr (get s) (\<lambda>(x, r). Inr x)" ok
proof unfold_locales
  fix x
  assume "ok x"
  from get_put [OF this, of "[]"] show "bindr (get (put x)) (\<lambda>(x, r). Inr x) = Inr x" by simp
qed

section \<open>Ordered containers\<close>

text \<open>
  \<^verbatim>\<open>std::set<T>\<close> is the list of its elements in ascending order, \<^verbatim>\<open>std::map<K, V>\<close> the list of
  its pairs with ascending keys: the order in which the code iterates over them.
\<close>

type_synonym 'a oset = "'a list"
type_synonym ('k, 'v) omap = "('k \<times> 'v) list"

definition oset_ok :: "'a::linorder oset \<Rightarrow> bool" where
  "oset_ok xs = sorted_wrt (<) xs"

definition omap_ok :: "('k::linorder, 'v) omap \<Rightarrow> bool" where
  "omap_ok m = sorted_wrt (<) (map fst m)"

fun oset_insert :: "'a::linorder \<Rightarrow> 'a oset \<Rightarrow> 'a oset" where
  "oset_insert x [] = [x]"
| "oset_insert x (y # ys) =
     (if x < y then x # y # ys else if x = y then y # ys else y # oset_insert x ys)"

definition oset_of :: "'a::linorder list \<Rightarrow> 'a oset" where
  "oset_of xs = fold oset_insert xs []"

fun omap_assign :: "'k::linorder \<Rightarrow> 'v \<Rightarrow> ('k, 'v) omap \<Rightarrow> ('k, 'v) omap" where
  "omap_assign k v [] = [(k, v)]"
| "omap_assign k v ((k', v') # m) =
     (if k < k' then (k, v) # (k', v') # m
      else if k = k' then (k, v) # m
      else (k', v') # omap_assign k v m)"

fun omap_emplace :: "'k::linorder \<Rightarrow> 'v \<Rightarrow> ('k, 'v) omap \<Rightarrow> ('k, 'v) omap" where
  "omap_emplace k v [] = [(k, v)]"
| "omap_emplace k v ((k', v') # m) =
     (if k < k' then (k, v) # (k', v') # m
      else if k = k' then (k', v') # m
      else (k', v') # omap_emplace k v m)"

fun omap_erase :: "'k::linorder \<Rightarrow> ('k, 'v) omap \<Rightarrow> ('k, 'v) omap" where
  "omap_erase k [] = []"
| "omap_erase k ((k', v') # m) = (if k = k' then m else (k', v') # omap_erase k m)"

lemma oset_ok_simps [simp, container_simps]:
  "oset_ok []"
  "oset_ok (x # xs) \<longleftrightarrow> (\<forall>y \<in> set xs. x < y) \<and> oset_ok xs"
  by (auto simp: oset_ok_def)

lemma omap_ok_simps [simp, container_simps]:
  "omap_ok []"
  "omap_ok ((k, v) # m) \<longleftrightarrow> (\<forall>k' \<in> fst ` set m. k < k') \<and> omap_ok m"
  by (auto simp: omap_ok_def)

lemma set_oset_insert [simp, container_simps]: "set (oset_insert x xs) = insert x (set xs)"
  by (induction xs) auto

lemma oset_ok_insert [simp, container_simps]: "oset_ok xs \<Longrightarrow> oset_ok (oset_insert x xs)"
  by (induction xs) auto

lemma set_fold_oset_insert: "set (fold oset_insert xs acc) = set xs \<union> set acc"
  by (induction xs arbitrary: acc) auto

lemma oset_ok_fold: "oset_ok acc \<Longrightarrow> oset_ok (fold oset_insert xs acc)"
  by (induction xs arbitrary: acc) auto

lemma set_oset_of [simp, container_simps]: "set (oset_of xs) = set xs"
  by (simp add: oset_of_def set_fold_oset_insert)

lemma oset_ok_oset_of [simp, container_simps]: "oset_ok (oset_of xs)"
  by (simp add: oset_of_def oset_ok_fold)

lemma oset_ok_distinct: "oset_ok xs \<Longrightarrow> distinct xs"
  by (induction xs) auto

lemma oset_eq_iff: "oset_ok xs \<Longrightarrow> oset_ok ys \<Longrightarrow> set xs = set ys \<Longrightarrow> xs = ys"
  unfolding oset_ok_def by (metis strict_sorted_equal)

lemma oset_insert_last:
  "oset_ok (xs @ [x]) \<Longrightarrow> oset_insert x xs = xs @ [x]"
  by (induction xs) (auto simp: oset_ok_def sorted_wrt_append)

lemma oset_of_sorted: "oset_ok xs \<Longrightarrow> oset_of xs = xs"
  by (rule oset_eq_iff) auto

lemma fst_omap_assign [container_simps]:
  "fst ` set (omap_assign k v m) = insert k (fst ` set m)"
  by (induction k v m rule: omap_assign.induct) auto

lemma fst_omap_emplace [container_simps]:
  "fst ` set (omap_emplace k v m) = insert k (fst ` set m)"
  by (induction k v m rule: omap_emplace.induct) auto

lemma fst_omap_erase [container_simps]:
  "omap_ok m \<Longrightarrow> fst ` set (omap_erase k m) = fst ` set m - {k}"
  by (induction k m rule: omap_erase.induct) auto

lemma omap_ok_assign [simp, container_simps]: "omap_ok m \<Longrightarrow> omap_ok (omap_assign k v m)"
  by (induction k v m rule: omap_assign.induct) (auto simp: fst_omap_assign)

lemma omap_ok_emplace [simp, container_simps]: "omap_ok m \<Longrightarrow> omap_ok (omap_emplace k v m)"
  by (induction k v m rule: omap_emplace.induct) (auto simp: fst_omap_emplace)

lemma omap_ok_erase [simp, container_simps]: "omap_ok m \<Longrightarrow> omap_ok (omap_erase k m)"
  by (induction k m rule: omap_erase.induct) (auto simp: fst_omap_erase)

lemma map_of_omap_assign [container_simps]:
  "omap_ok m \<Longrightarrow> map_of (omap_assign k v m) = (map_of m)(k \<mapsto> v)"
  by (induction k v m rule: omap_assign.induct) auto

lemma map_of_None_below: "\<forall>k' \<in> fst ` set m. k < k' \<Longrightarrow> map_of m (k::'k::linorder) = None"
  by (auto simp: map_of_eq_None_iff)

lemma map_of_None_below_trans:
  "\<forall>x \<in> set m. k' < fst x \<Longrightarrow> k < k' \<Longrightarrow> map_of m (k::'k::linorder) = None"
  by (force simp: map_of_eq_None_iff)

lemma map_of_omap_emplace [container_simps]:
  "omap_ok m \<Longrightarrow>
   map_of (omap_emplace k v m) = (if map_of m k = None then (map_of m)(k \<mapsto> v) else map_of m)"
  by (induction k v m rule: omap_emplace.induct) (auto simp: map_of_None_below_trans)

lemma map_of_omap_erase [container_simps]:
  "omap_ok m \<Longrightarrow> map_of (omap_erase k m) = (map_of m)(k := None)"
  by (induction k m rule: omap_erase.induct) (auto simp: fun_eq_iff map_of_None_below)

lemma omap_emplace_last:
  "omap_ok (m @ [(k, v)]) \<Longrightarrow> omap_emplace k v m = m @ [(k, v)]"
  by (induction k v m rule: omap_emplace.induct) (auto simp: omap_ok_def sorted_wrt_append)

lemma omap_assign_last:
  "omap_ok (m @ [(k, v)]) \<Longrightarrow> omap_assign k v m = m @ [(k, v)]"
  by (induction k v m rule: omap_assign.induct) (auto simp: omap_ok_def sorted_wrt_append)

text \<open>
  The interface a client of \<^verbatim>\<open>std::map\<close> relies on, and what follows from it: a sequence of
  \<^verbatim>\<open>insert_or_assign\<close> calls keeps the last value of each key, a sequence of \<^verbatim>\<open>emplace\<close> calls
  the first.
\<close>

locale std_map =
  fixes empty :: "'m"
    and assign :: "'k \<Rightarrow> 'v \<Rightarrow> 'm \<Rightarrow> 'm"
    and emplace :: "'k \<Rightarrow> 'v \<Rightarrow> 'm \<Rightarrow> 'm"
    and erase :: "'k \<Rightarrow> 'm \<Rightarrow> 'm"
    and find :: "'m \<Rightarrow> 'k \<Rightarrow> 'v option"
    and inv :: "'m \<Rightarrow> bool"
  assumes inv_empty: "inv empty"
    and inv_assign: "inv m \<Longrightarrow> inv (assign k v m)"
    and inv_emplace: "inv m \<Longrightarrow> inv (emplace k v m)"
    and inv_erase: "inv m \<Longrightarrow> inv (erase k m)"
    and find_empty: "find empty k = None"
    and find_assign: "inv m \<Longrightarrow> find (assign k v m) = (find m)(k \<mapsto> v)"
    and find_emplace: "inv m \<Longrightarrow> find (emplace k v m) = (if find m k = None then (find m)(k \<mapsto> v) else find m)"
    and find_erase: "inv m \<Longrightarrow> find (erase k m) = (find m)(k := None)"
begin

lemma assign_all:
  "inv m \<Longrightarrow> inv (fold (\<lambda>(k, v). assign k v) kvs m)
     \<and> find (fold (\<lambda>(k, v). assign k v) kvs m) = find m ++ map_of (rev kvs)"
proof (induction kvs arbitrary: m)
  case Nil
  then show ?case by simp
next
  case (Cons kv kvs)
  obtain k v where kv: "kv = (k, v)" by fastforce
  have "inv (assign k v m)" using Cons.prems by (rule inv_assign)
  from Cons.IH [OF this] show ?case
    by (simp add: kv find_assign [OF Cons.prems] fun_eq_iff map_add_def split: option.split)
qed

lemma emplace_all:
  "inv m \<Longrightarrow> inv (fold (\<lambda>(k, v). emplace k v) kvs m)
     \<and> find (fold (\<lambda>(k, v). emplace k v) kvs m) = map_of kvs ++ find m"
proof (induction kvs arbitrary: m)
  case Nil
  then show ?case by simp
next
  case (Cons kv kvs)
  obtain k v where kv: "kv = (k, v)" by fastforce
  have "inv (emplace k v m)" using Cons.prems by (rule inv_emplace)
  from Cons.IH [OF this] show ?case
    by (auto simp: kv find_emplace [OF Cons.prems] fun_eq_iff map_add_def split: option.split)
qed

end

interpretation omap: std_map "[]" omap_assign omap_emplace omap_erase map_of omap_ok
  by unfold_locales (auto simp: container_simps)

lemma omap_eq_iff:
  assumes "omap_ok m" and "omap_ok m'" and "map_of m = map_of m'"
  shows "m = m'"
proof -
  have d: "distinct (map fst m)" "distinct (map fst m')"
    using assms by (auto simp: omap_ok_def strict_sorted_iff)
  have s: "set m = set m'"
    using map_of_inject_set [OF d] assms(3) by simp
  show ?thesis
  proof (rule map_sorted_distinct_set_unique [where f = fst])
    show "inj_on fst (set m \<union> set m')"
      using d(1) s by (simp add: distinct_map)
  qed (use assms(1,2) d s in \<open>auto simp: omap_ok_def strict_sorted_iff\<close>)
qed

end
