(* ===== verification/Lix_Strings.thy ===== *)
theory Lix_Strings
  imports Lix_Prelude
begin

text \<open>
  The string utilities of \<^verbatim>\<open>src/lix/libutil/strings.cc\<close>, \<^verbatim>\<open>strings.hh\<close> and \<^verbatim>\<open>split.hh\<close>:
  tokenising and joining, trimming, replacement, the escapings, lines and indentation.
  Character classification is the one of the C locale.
\<close>

section \<open>Character classes\<close>

definition char_between :: "char \<Rightarrow> char \<Rightarrow> char \<Rightarrow> bool" where
  "char_between lo hi c = (lo \<le> c \<and> c \<le> hi)"

definition isdigit :: "char \<Rightarrow> bool" where
  "isdigit c = char_between (CHR ''0'') (CHR ''9'') c"

definition isalpha :: "char \<Rightarrow> bool" where
  "isalpha c = (char_between (CHR ''a'') (CHR ''z'') c \<or> char_between (CHR ''A'') (CHR ''Z'') c)"

definition isprint :: "char \<Rightarrow> bool" where
  "isprint c = (32 \<le> (of_char c :: nat) \<and> (of_char c :: nat) < 127)"

definition tolower :: "char \<Rightarrow> char" where
  "tolower c = (if char_between (CHR ''A'') (CHR ''Z'') c then char_of ((of_char c :: nat) + 32) else c)"

definition toupper :: "char \<Rightarrow> char" where
  "toupper c = (if char_between (CHR ''a'') (CHR ''z'') c then char_of ((of_char c :: nat) - 32) else c)"

definition whitespaceChars :: string where
  "whitespaceChars = [CHR '' '', CHR 0x0A, CHR 0x0D, CHR 0x09]"

section \<open>Splitting and joining\<close>

text \<open>
  \<^verbatim>\<open>tokenizeString\<close>: skip separators, take the characters up to the next separator, repeat.
\<close>

function tokenizeString :: "string \<Rightarrow> string \<Rightarrow> string list" where
  "tokenizeString s separators =
     (let rest = dropWhile (\<lambda>c. c \<in> set separators) s
      in if rest = [] then []
         else takeWhile (\<lambda>c. c \<notin> set separators) rest
              # tokenizeString (dropWhile (\<lambda>c. c \<notin> set separators) rest) separators)"
  by pat_completeness auto
termination
proof (relation "measure (\<lambda>(s, _). length s)", goal_cases)
  case (2 s separators rest)
  then obtain c cs where rest: "rest = c # cs" by (meson neq_Nil_conv)
  with 2 have "c \<notin> set separators"
    by (metis hd_dropWhile list.distinct(1) list.sel(1))
  then have "length (dropWhile (\<lambda>c. c \<notin> set separators) rest) \<le> length cs"
    using rest length_dropWhile_le [of _ cs] by simp
  moreover have "length rest \<le> length s"
    using 2(1) by (simp add: length_dropWhile_le)
  ultimately show ?case using rest by simp
qed simp

declare tokenizeString.simps [simp del]

definition tokenizeStringSet :: "string \<Rightarrow> string \<Rightarrow> string oset" where
  "tokenizeStringSet s separators = oset_of (tokenizeString s separators)"

definition partitionString :: "string \<Rightarrow> char \<Rightarrow> string \<times> string option" where
  "partitionString s separator =
     (case dropWhile (\<lambda>c. c \<noteq> separator) s of
        [] \<Rightarrow> (s, None)
      | _ # rest \<Rightarrow> (takeWhile (\<lambda>c. c \<noteq> separator) s, Some rest))"

text \<open>
  The loop keeps the result so far, and writes the separator whenever that is not empty.
\<close>

fun concatStringsSep_loop :: "string \<Rightarrow> string \<Rightarrow> string list \<Rightarrow> string" where
  "concatStringsSep_loop sep s [] = s"
| "concatStringsSep_loop sep s (i # ss) =
     concatStringsSep_loop sep ((if length s \<noteq> 0 then s @ sep else s) @ i) ss"

definition concatStringsSep :: "string \<Rightarrow> string list \<Rightarrow> string" where
  "concatStringsSep sep ss = concatStringsSep_loop sep [] ss"

definition concatMapStringsSep :: "string \<Rightarrow> 'a list \<Rightarrow> ('a \<Rightarrow> string) \<Rightarrow> string" where
  "concatMapStringsSep separator iterable fn = concatStringsSep separator (map fn iterable)"

definition quoteStrings :: "string list \<Rightarrow> string list" where
  "quoteStrings c = map (\<lambda>s. CHR 0x27 # s @ [CHR 0x27]) c"

text \<open>
  \<^verbatim>\<open>splitPrefixTo\<close> and \<^verbatim>\<open>splitPrefix\<close> change their string argument: the model returns its new
  value beside the result.
\<close>

definition splitPrefixTo :: "string \<Rightarrow> char \<Rightarrow> string option \<times> string" where
  "splitPrefixTo s separator =
     (case dropWhile (\<lambda>c. c \<noteq> separator) s of
        [] \<Rightarrow> (None, s)
      | _ # rest \<Rightarrow> (Some (takeWhile (\<lambda>c. c \<noteq> separator) s), rest))"

definition splitPrefix :: "string \<Rightarrow> string \<Rightarrow> bool \<times> string" where
  "splitPrefix s p = (if prefix p s then (True, drop (length p) s) else (False, s))"

section \<open>Trimming, case, replacement\<close>

definition chomp :: "string \<Rightarrow> string" where
  "chomp s = rev (dropWhile (\<lambda>c. c \<in> set whitespaceChars) (rev s))"

definition trim :: "string \<Rightarrow> string \<Rightarrow> string" where
  "trim s whitespace =
     rev (dropWhile (\<lambda>c. c \<in> set whitespace)
       (rev (dropWhile (\<lambda>c. c \<in> set whitespace) s)))"

definition toLower :: "string \<Rightarrow> string" where
  "toLower s = map tolower s"

text \<open>
  The search for \<^verbatim>\<open>from\<close> restarts behind each inserted \<^verbatim>\<open>to\<close>, so what was inserted is never
  searched again.
\<close>

function replaceStrings_loop :: "string \<Rightarrow> string \<Rightarrow> string \<Rightarrow> string" where
  "replaceStrings_loop res from to =
     (case res of
        [] \<Rightarrow> []
      | c # cs \<Rightarrow>
          if from \<noteq> [] \<and> prefix from res
          then to @ replaceStrings_loop (drop (length from) res) from to
          else c # replaceStrings_loop cs from to)"
  by pat_completeness auto
termination
  by (relation "measure (\<lambda>(res, _, _). length res)") (auto simp: neq_Nil_conv)

declare replaceStrings_loop.simps [simp del]

definition replaceStrings :: "string \<Rightarrow> string \<Rightarrow> string \<Rightarrow> string" where
  "replaceStrings res from to = (if from = [] then res else replaceStrings_loop res from to)"

section \<open>Escaping\<close>

fun shellEscape_loop :: "string \<Rightarrow> string" where
  "shellEscape_loop [] = []"
| "shellEscape_loop (i # s) =
     (if i = CHR 0x27 then [CHR 0x27, CHR 0x5C, CHR 0x27, CHR 0x27] else [i]) @ shellEscape_loop s"

definition shellEscape :: "string \<Rightarrow> string" where
  "shellEscape s = CHR 0x27 # shellEscape_loop s @ [CHR 0x27]"

definition hexDigit :: "nat \<Rightarrow> char" where
  "hexDigit n = ''0123456789abcdef'' ! n"

text \<open>A character that is not printable becomes the text \<open>'$'\xNN''\<close>.\<close>

fun bashEscape_loop :: "string \<Rightarrow> string" where
  "bashEscape_loop [] = []"
| "bashEscape_loop (i # s) =
     (if \<not> isprint i
      then [CHR 0x27, CHR ''$'', CHR 0x27, CHR 0x5C, CHR ''x'',
            hexDigit (of_char i div 16), hexDigit (of_char i mod 16), CHR 0x27, CHR 0x27]
      else if i = CHR 0x27 then [CHR 0x27, CHR 0x5C, CHR 0x27, CHR 0x27]
      else [i]) @ bashEscape_loop s"

definition bashEscape :: "string \<Rightarrow> string" where
  "bashEscape s = CHR 0x27 # bashEscape_loop s @ [CHR 0x27]"

definition escapeNul :: "string \<Rightarrow> string" where
  "escapeNul s =
     replaceStrings (replaceStrings s [CHR 0x5C] [CHR 0x5C, CHR 0x5C])
       [CHR 0x00] [CHR 0x5C, CHR ''0'']"

fun unescapeNul_loop :: "bool \<Rightarrow> string \<Rightarrow> string" where
  "unescapeNul_loop inSequence [] = []"
| "unescapeNul_loop inSequence (c # s) =
     (if inSequence then (if c = CHR ''0'' then CHR 0x00 else c) # unescapeNul_loop False s
      else if c = CHR 0x5C then unescapeNul_loop True s
      else c # unescapeNul_loop False s)"

definition unescapeNul :: "string \<Rightarrow> string" where
  "unescapeNul s = unescapeNul_loop False s"

section \<open>Lines\<close>

text \<open>
  \<^verbatim>\<open>stripIndentation\<close>: the first loop computes \<^verbatim>\<open>minIndent\<close> from the characters, the second
  drops that many characters from every line.
\<close>

fun minIndent_loop :: "nat \<Rightarrow> nat \<Rightarrow> bool \<Rightarrow> string \<Rightarrow> nat" where
  "minIndent_loop minIndent curIndent atStartOfLine [] = minIndent"
| "minIndent_loop minIndent curIndent atStartOfLine (c # s) =
     (if atStartOfLine \<and> c = CHR '' '' then minIndent_loop minIndent (curIndent + 1) True s
      else if c = CHR 0x0A
        then minIndent_loop (if atStartOfLine then max minIndent curIndent else minIndent) 0 True s
      else if atStartOfLine then minIndent_loop (min minIndent curIndent) curIndent False s
      else minIndent_loop minIndent curIndent False s)"

function stripLines_loop :: "nat \<Rightarrow> string \<Rightarrow> string" where
  "stripLines_loop minIndent s =
     (if s = [] then []
      else (let line = takeWhile (\<lambda>c. c \<noteq> CHR 0x0A) s
            in (if length line > minIndent then drop minIndent line else [])
               @ [CHR 0x0A] @ stripLines_loop minIndent (drop (length line + 1) s)))"
  by pat_completeness auto
termination
  by (relation "measure (\<lambda>(_, s). length s)") auto

declare stripLines_loop.simps [simp del]

definition stripIndentation :: "string \<Rightarrow> string" where
  "stripIndentation s = stripLines_loop (minIndent_loop 10000 0 True s) s"

definition getLine :: "string \<Rightarrow> string \<times> string" where
  "getLine s =
     (case dropWhile (\<lambda>c. c \<noteq> CHR 0x0A) s of
        [] \<Rightarrow> (s, [])
      | _ # rest \<Rightarrow>
          (let line = takeWhile (\<lambda>c. c \<noteq> CHR 0x0A) s
           in (if line \<noteq> [] \<and> last line = CHR 0x0D then butlast line else line, rest)))"

section \<open>Integers\<close>

text \<open>
  \<^verbatim>\<open>string2Int<N>\<close> calls \<^verbatim>\<open>boost::lexical_cast<N>\<close>, which is a parameter: \<^verbatim>\<open>None\<close> is its
  \<^verbatim>\<open>bad_lexical_cast\<close> exception. \<open>is_signed\<close> stands for \<^verbatim>\<open>std::numeric_limits<N>::is_signed\<close>.
\<close>

definition string2Int :: "(string \<Rightarrow> int option) \<Rightarrow> bool \<Rightarrow> string \<Rightarrow> int option" where
  "string2Int lexical_cast is_signed s =
     (if take 1 s = ''-'' \<and> \<not> is_signed then None else lexical_cast s)"

text \<open>
  The unit prefix; \<open>wrap\<close> reduces a product to the range of \<^verbatim>\<open>N\<close>, as the multiplication of the
  machine type does.
\<close>

definition string2IntWithUnitPrefix ::
    "(string \<Rightarrow> int option) \<Rightarrow> bool \<Rightarrow> (int \<Rightarrow> int) \<Rightarrow> string \<Rightarrow> int result" where
  "string2IntWithUnitPrefix lexical_cast is_signed wrap s =
     bindr
       (if s \<noteq> [] \<and> isalpha (toupper (last s))
        then (let u = toupper (last s)
              in if u = CHR ''K'' then Inr (2 ^ 10, butlast s)
                 else if u = CHR ''M'' then Inr (2 ^ 20, butlast s)
                 else if u = CHR ''G'' then Inr (2 ^ 30, butlast s)
                 else if u = CHR ''T'' then Inr (2 ^ 40, butlast s)
                 else Inl (UsageError ''invalid unit specifier''))
        else Inr (1, s))
       (\<lambda>(multiplier, digits).
          case string2Int lexical_cast is_signed digits of
            Some n \<Rightarrow> Inr (wrap (n * wrap multiplier))
          | None \<Rightarrow> Inl (UsageError ''is not an integer''))"

section \<open>Lemmas\<close>

subsection \<open>Tokenising and joining\<close>

lemma tokenizeString_Nil [simp]: "tokenizeString [] seps = []"
  by (simp add: tokenizeString.simps)

lemma tokenizeString_skip:
  "c \<in> set seps \<Longrightarrow> tokenizeString (c # s) seps = tokenizeString s seps"
  by (subst (1 2) tokenizeString.simps) simp

lemma tokenizeString_token:
  assumes "t \<noteq> []" and "\<forall>c \<in> set t. c \<notin> set seps" and "r \<noteq> [] \<longrightarrow> hd r \<in> set seps"
  shows "tokenizeString (t @ r) seps = t # tokenizeString r seps"
proof -
  have drop_t: "dropWhile (\<lambda>c. c \<in> set seps) (t @ r) = t @ r"
    using assms(1,2) by (cases t) auto
  have take_t: "takeWhile (\<lambda>c. c \<notin> set seps) (t @ r) = t"
    using assms(2,3) by (cases r) (auto simp: takeWhile_append2)
  have rest: "dropWhile (\<lambda>c. c \<notin> set seps) (t @ r) = r"
    using assms(2,3) by (cases r) (auto simp: dropWhile_append2)
  show ?thesis
    using assms(1) by (subst tokenizeString.simps) (simp add: drop_t take_t rest)
qed

lemma tokenizeString_tokens:
  "concat (tokenizeString s seps) = filter (\<lambda>c. c \<notin> set seps) s
   \<and> (\<forall>t \<in> set (tokenizeString s seps). t \<noteq> [] \<and> (\<forall>c \<in> set t. c \<notin> set seps))"
proof (induction "length s" arbitrary: s rule: less_induct)
  case less
  show ?case
  proof (cases s)
    case Nil
    then show ?thesis by simp
  next
    case (Cons c cs)
    show ?thesis
    proof (cases "c \<in> set seps")
      case True
      then show ?thesis using less [of cs] Cons by (simp add: tokenizeString_skip)
    next
      case False
      define t where "t = takeWhile (\<lambda>c. c \<notin> set seps) s"
      define r where "r = dropWhile (\<lambda>c. c \<notin> set seps) s"
      have s: "s = t @ r" by (simp add: t_def r_def)
      have t: "t \<noteq> []" "\<forall>c \<in> set t. c \<notin> set seps"
        using False Cons by (auto simp: t_def dest: set_takeWhileD)
      have r: "r \<noteq> [] \<longrightarrow> hd r \<in> set seps"
        using hd_dropWhile [of "\<lambda>c. c \<notin> set seps" s] by (auto simp: r_def)
      have "length r < length s" using s t(1) by simp
      from less [OF this] show ?thesis
        using t s r by (simp add: tokenizeString_token filter_id_conv)
    qed
  qed
qed

text \<open>
  The joined string in closed form: empty strings at the front of the list vanish together with
  their separators.
\<close>

fun join_with :: "string \<Rightarrow> string list \<Rightarrow> string" where
  "join_with sep [] = []"
| "join_with sep (x # xs) = x @ concat (map (\<lambda>y. sep @ y) xs)"

lemma concatStringsSep_loop_nonempty:
  "s \<noteq> [] \<Longrightarrow> concatStringsSep_loop sep s ss = s @ concat (map (\<lambda>y. sep @ y) ss)"
  by (induction ss arbitrary: s) auto

lemma concatStringsSep_join:
  "concatStringsSep sep ss = join_with sep (dropWhile (\<lambda>s. s = []) ss)"
proof (induction ss)
  case (Cons x xs)
  then show ?case
    by (cases "x = []") (auto simp: concatStringsSep_def concatStringsSep_loop_nonempty)
qed (simp add: concatStringsSep_def)

lemma concatStringsSep_nonempty:
  "\<forall>x \<in> set xs. x \<noteq> [] \<Longrightarrow> concatStringsSep sep xs = join_with sep xs"
  unfolding concatStringsSep_join by (cases xs) auto

lemma tokenizeString_concat_seps:
  assumes "\<forall>t \<in> set ts. t \<noteq> [] \<and> c \<notin> set t"
  shows "tokenizeString (concat (map (\<lambda>y. c # y) ts)) [c] = ts"
  using assms
proof (induction ts)
  case (Cons t ts)
  have hd: "concat (map (\<lambda>y. c # y) ts) \<noteq> [] \<longrightarrow> hd (concat (map (\<lambda>y. c # y) ts)) = c"
    by (cases ts) auto
  have "tokenizeString (t @ concat (map (\<lambda>y. c # y) ts)) [c]
      = t # tokenizeString (concat (map (\<lambda>y. c # y) ts)) [c]"
    by (rule tokenizeString_token) (use Cons.prems hd in auto)
  with Cons show ?case by (simp add: tokenizeString_skip)
qed simp

lemma tokenizeString_join:
  assumes "\<forall>t \<in> set ts. t \<noteq> [] \<and> c \<notin> set t"
  shows "tokenizeString (concatStringsSep [c] ts) [c] = ts"
proof (cases ts)
  case (Cons t ts')
  have "tokenizeString (join_with [c] ts) [c] = tokenizeString (c # join_with [c] ts) [c]"
    by (simp add: tokenizeString_skip)
  also have "c # join_with [c] ts = concat (map (\<lambda>y. c # y) ts)"
    unfolding Cons by (induction ts') auto
  finally show ?thesis
    using assms by (simp add: concatStringsSep_nonempty tokenizeString_concat_seps)
qed (simp add: concatStringsSep_def)

lemma splitPrefixTo_append:
  "c \<notin> set p \<Longrightarrow> splitPrefixTo (p @ c # r) c = (Some p, r)"
  by (simp add: splitPrefixTo_def takeWhile_append dropWhile_append)

lemma splitPrefixTo_None: "c \<notin> set s \<Longrightarrow> splitPrefixTo s c = (None, s)"
proof -
  assume "c \<notin> set s"
  then have "dropWhile (\<lambda>d. d \<noteq> c) s = []" by (auto simp: dropWhile_eq_Nil_conv)
  then show ?thesis by (simp add: splitPrefixTo_def del: dropWhile_eq_Nil_conv)
qed

lemma splitPrefix_append [simp]: "splitPrefix (p @ r) p = (True, r)"
  by (simp add: splitPrefix_def)

subsection \<open>Replacement and escaping\<close>

lemma replaceStrings_loop_simps:
  "replaceStrings_loop [] from to = []"
  "replaceStrings_loop (c # cs) from to =
     (if from \<noteq> [] \<and> prefix from (c # cs)
      then to @ replaceStrings_loop (drop (length from) (c # cs)) from to
      else c # replaceStrings_loop cs from to)"
  by (subst replaceStrings_loop.simps, simp)+

lemma replaceStrings_loop_single:
  "replaceStrings_loop s [c] to = concat (map (\<lambda>d. if d = c then to else [d]) s)"
  by (induction s) (auto simp: replaceStrings_loop_simps)

lemma replaceStrings_loop_id:
  "from \<noteq> [] \<Longrightarrow> \<not> sublist from s \<Longrightarrow> replaceStrings_loop s from to = s"
proof (induction s)
  case (Cons c s)
  then have "\<not> prefix from (c # s)" "\<not> sublist from s"
    by (auto simp: sublist_Cons_right)
  with Cons show ?case by (simp add: replaceStrings_loop_simps)
qed (simp add: replaceStrings_loop_simps)

lemma escapeNul_char:
  "escapeNul s = concat (map (\<lambda>c. if c = CHR 0x5C then [CHR 0x5C, CHR 0x5C]
      else if c = CHR 0x00 then [CHR 0x5C, CHR ''0''] else [c]) s)"
  unfolding escapeNul_def replaceStrings_def
  by (induction s) (simp_all add: replaceStrings_loop_single)

lemma unescapeNul_escapeNul: "unescapeNul (escapeNul s) = s"
  unfolding escapeNul_char unescapeNul_def by (induction s) auto

interpretation escapeNul: codec escapeNul "\<lambda>s. Inr (unescapeNul s)" "\<lambda>_. True"
  by unfold_locales (simp add: unescapeNul_escapeNul)

subsection \<open>Lines\<close>

lemma getLine_split:
  "getLine (l @ CHR 0x0A # r) = (if l \<noteq> [] \<and> last l = CHR 0x0D then butlast l else l, r)"
  if "CHR 0x0A \<notin> set l"
  using that by (simp add: getLine_def takeWhile_append dropWhile_append)

section \<open>Properties\<close>

text \<open>splitting a string at a separator undoes joining: for any list of non-empty words that do not
  contain the separator, \<^verbatim>\<open>tokenizeString\<close> of \<^verbatim>\<open>concatStringsSep\<close> of the words is the list.\<close>

theorem tokenize_concat_roundtrip:
  assumes "\<forall>t \<in> set ts. t \<noteq> [] \<and> c \<notin> set t"
  shows "tokenizeString (concatStringsSep [c] ts) [c] = ts"
  using assms by (rule tokenizeString_join)

theorem tokenize_concat_roundtrip_witness:
  "tokenizeString (concatStringsSep '':'' [''usr'', ''lib'']) '':'' = [''usr'', ''lib'']"
  using tokenize_concat_roundtrip [of "[''usr'', ''lib'']" "CHR '':''"] by simp

text \<open>\<^verbatim>\<open>unescapeNul\<close> inverts \<^verbatim>\<open>escapeNul\<close> on every string, and the escaped string holds no NUL
  byte.\<close>

theorem escapeNul_roundtrip:
  "unescapeNul (escapeNul s) = s \<and> CHR 0x00 \<notin> set (escapeNul s)"
  by (simp add: unescapeNul_escapeNul) (auto simp: escapeNul_char split: if_splits)

text \<open>The separator is left out as long as nothing has been written: leading empty strings disappear.\<close>

lemma concatStringsSep_drops_leading_empty:
  "concatStringsSep '','' ['''', ''a''] = ''a''"
  by (simp add: concatStringsSep_def)

text \<open>A line of blanks longer than the indentation of the text raises the indentation that is
  removed, and text is lost.\<close>

lemma stripIndentation_loses_text:
  "stripIndentation (''  foo'' @ [CHR 0x0A] @ ''      '' @ [CHR 0x0A]) = [CHR 0x0A, CHR 0x0A]"
  by code_simp

end
