(* ===== verification/Lix_Base_Encoding.thy ===== *)
theory Lix_Base_Encoding
  imports Lix_Prelude
begin

text \<open>
  The base-64, base-32 and base-16 codecs of \<^verbatim>\<open>src/lix/libutil/strings.cc\<close> and their size
  functions (\<^verbatim>\<open>strings.hh\<close>). The accumulators keep the widths of the code: a 32-bit
  \<^verbatim>\<open>int\<close>/\<^verbatim>\<open>unsigned int\<close> that is never masked, so old bits move out at the top.
\<close>

section \<open>Base 64\<close>

definition base64Chars :: string where
  "base64Chars = ''ABCDEFGHIJKLMNOPQRSTUVWXYZabcdefghijklmnopqrstuvwxyz0123456789+/''"

text \<open>The inner loop \<^verbatim>\<open>while (nbits >= 6)\<close>: the characters it pushes and the bits left.\<close>

fun base64Emit :: "32 word \<Rightarrow> nat \<Rightarrow> string \<times> nat" where
  "base64Emit data nbits =
     (if nbits < 6 then ([], nbits)
      else (let nbits' = nbits - 6; (cs, n) = base64Emit data nbits'
            in (base64Chars ! unat (signed_drop_bit nbits' data AND 0x3f) # cs, n)))"

declare base64Emit.simps [simp del]

fun base64Encode_loop :: "32 word \<Rightarrow> nat \<Rightarrow> string \<Rightarrow> string" where
  "base64Encode_loop data nbits [] =
     (if nbits \<noteq> 0 then [base64Chars ! unat (push_bit (6 - nbits) data AND 0x3f)] else [])"
| "base64Encode_loop data nbits (c # s) =
     (let data' = push_bit 8 data OR ucast (byte_of_char c);
          (cs, n) = base64Emit data' (nbits + 8)
      in cs @ base64Encode_loop data' n s)"

function base64Pad :: "string \<Rightarrow> string" where
  "base64Pad res = (if length res mod 4 \<noteq> 0 then base64Pad (res @ ''='') else res)"
  by pat_completeness auto
termination
  by (relation "measure (\<lambda>res. (4 - length res mod 4) mod 4)") (auto simp: mod_Suc)

declare base64Pad.simps [simp del]

definition base64Encode :: "string \<Rightarrow> string" where
  "base64Encode s = base64Pad (base64Encode_loop 0 0 s)"

definition base64DecodeChars :: "char \<Rightarrow> nat option" where
  "base64DecodeChars c = map_of (zip base64Chars [0..<64]) c"

fun base64Decode_loop :: "32 word \<Rightarrow> nat \<Rightarrow> string \<Rightarrow> string result" where
  "base64Decode_loop d bits [] = Inr []"
| "base64Decode_loop d bits (c # s) =
     (if c = CHR ''='' then Inr []
      else if c = CHR 0x0A then base64Decode_loop d bits s
      else case base64DecodeChars c of
        None \<Rightarrow> Inl (Error ''invalid character in Base64 string'')
      | Some digit \<Rightarrow>
          (let bits = bits + 6; d = push_bit 6 d OR word_of_nat digit
           in if bits \<ge> 8
              then bindr (base64Decode_loop d (bits - 8) s)
                (\<lambda>res. Inr (char_of_byte (ucast (drop_bit (bits - 8) d AND 0xff)) # res))
              else base64Decode_loop d bits s))"

definition base64Decode :: "string \<Rightarrow> string result" where
  "base64Decode s = base64Decode_loop 0 0 s"

definition base64Size :: "nat \<Rightarrow> nat" where
  "base64Size input = (4 * input div 3 + 3) div 4 * 4"

section \<open>Base 32\<close>

definition base32Chars :: string where
  "base32Chars = ''0123456789abcdfghijklmnpqrsvwxyz''"

definition base32Size :: "nat \<Rightarrow> nat" where
  "base32Size input = (if input > 0 then (input * 8 - 1) div 5 + 1 else 0)"

text \<open>The digit at position \<open>n\<close>: five bits that may span two bytes.\<close>

definition base32Digit :: "byte list \<Rightarrow> nat \<Rightarrow> 32 word" where
  "base32Digit s n =
     (let b = n * 5; i = b div 8; j = b mod 8;
          curChar = ucast (s ! i) :: 32 word;
          second = (if i \<ge> length s - 1 then 0 else push_bit (8 - j) (ucast (s ! (i + 1))))
      in drop_bit j curChar OR second)"

definition base32Encode :: "byte list \<Rightarrow> string" where
  "base32Encode s =
     (if s = [] then []
      else (let len = (length s * 8 - 1) div 5 + 1
            in map (\<lambda>n. base32Chars ! unat (base32Digit s n AND 0x1f)) (rev [0..<len])))"

definition base32EncodeStr :: "string \<Rightarrow> string" where
  "base32EncodeStr s = base32Encode (map byte_of_char s)"

definition base32DigitOf :: "char \<Rightarrow> nat option" where
  "base32DigitOf c = map_of (zip base32Chars [0..<32]) c"

text \<open>The loop runs over the characters from the last to the first; \<open>n\<close> counts them.\<close>

fun base32Decode_loop :: "byte list \<Rightarrow> nat \<Rightarrow> string \<Rightarrow> byte list result" where
  "base32Decode_loop res n [] = Inr res"
| "base32Decode_loop res n (c # cs) =
     (case base32DigitOf c of
        None \<Rightarrow> Inl (Error ''invalid character in base-32 string'')
      | Some k \<Rightarrow>
          (let digit = word_of_nat k :: 64 word; b = n * 5; i = b div 8; j = b mod 8;
               res = res[i := res ! i OR ucast (push_bit j digit)]
           in if i < length res - 1
              then base32Decode_loop
                     (res[i + 1 := res ! (i + 1) OR ucast (drop_bit (8 - j) digit)]) (n + 1) cs
              else if drop_bit (8 - j) digit \<noteq> 0
                then Inl (Error ''invalid base-32 string'')
              else base32Decode_loop res (n + 1) cs))"

definition base32Decode :: "string \<Rightarrow> byte list result" where
  "base32Decode s =
     (if s = [] then Inr []
      else base32Decode_loop (replicate ((length s - 1) * 5 div 8 + 1) 0) 0 (rev s))"

section \<open>Base 16\<close>

definition base16Chars :: string where
  "base16Chars = ''0123456789abcdef''"

definition base16Size :: "nat \<Rightarrow> nat" where
  "base16Size input = input * 2"

definition base16Encode :: "byte list \<Rightarrow> string" where
  "base16Encode bytes =
     concat (map (\<lambda>b. [base16Chars ! unat (drop_bit 4 b), base16Chars ! unat (b AND 0x0f)]) bytes)"

definition parseHexDigit :: "char \<Rightarrow> nat result" where
  "parseHexDigit c =
     (if CHR ''0'' \<le> c \<and> c \<le> CHR ''9'' then Inr (of_char c - of_char (CHR ''0''))
      else if CHR ''A'' \<le> c \<and> c \<le> CHR ''F'' then Inr (of_char c - of_char (CHR ''A'') + 10)
      else if CHR ''a'' \<le> c \<and> c \<le> CHR ''f'' then Inr (of_char c - of_char (CHR ''a'') + 10)
      else Inl (Error ''invalid base-16 string''))"

fun base16Decode_loop :: "string \<Rightarrow> byte list result" where
  "base16Decode_loop (c1 # c2 # s) =
     bindr (parseHexDigit c1) (\<lambda>h. bindr (parseHexDigit c2) (\<lambda>l.
       bindr (base16Decode_loop s) (\<lambda>res.
         Inr ((push_bit 4 (word_of_nat h) OR word_of_nat l) # res))))"
| "base16Decode_loop _ = Inr []"

definition base16Decode :: "string \<Rightarrow> byte list result" where
  "base16Decode s =
     (if length s mod 2 \<noteq> 0 then Inl (Error ''invalid base-16 string'') else base16Decode_loop s)"

section \<open>Digits and their characters\<close>

lemma base64Chars_facts:
  "length base64Chars = 64" "distinct base64Chars"
  "CHR ''='' \<notin> set base64Chars" "CHR 0x0A \<notin> set base64Chars"
  by (simp_all add: base64Chars_def)

lemma base32Chars_facts:
  "length base32Chars = 32" "distinct base32Chars"
  by (simp_all add: base32Chars_def)

lemma base64DecodeChars_nth [simp]: "k < 64 \<Longrightarrow> base64DecodeChars (base64Chars ! k) = Some k"
  unfolding base64DecodeChars_def
  by (subst map_of_zip_nth) (simp_all add: base64Chars_facts)

lemma base32DigitOf_nth [simp]: "k < 32 \<Longrightarrow> base32DigitOf (base32Chars ! k) = Some k"
  unfolding base32DigitOf_def
  by (subst map_of_zip_nth) (simp_all add: base32Chars_facts)

lemma base64Chars_nth_special:
  "k < 64 \<Longrightarrow> base64Chars ! k \<noteq> CHR ''=''"
  "k < 64 \<Longrightarrow> base64Chars ! k \<noteq> CHR 0x0A"
  by (metis base64Chars_facts nth_mem)+

section \<open>Base 64 reads back\<close>

lemma base64Decode_digit:
  "base64Decode_loop d bits (base64Chars ! unat ((v :: 32 word) AND 0x3f) # s) =
     (let d = push_bit 6 d OR (v AND 0x3f)
      in if bits + 6 \<ge> 8
         then bindr (base64Decode_loop d (bits + 6 - 8) s)
           (\<lambda>res. Inr (char_of_byte (ucast (drop_bit (bits + 6 - 8) d AND 0xff)) # res))
         else base64Decode_loop d (bits + 6) s)"
  using unat_and_low(1) [of v] by (simp add: base64Chars_nth_special Let_def)

lemma base64Emit_steps:
  "base64Emit w 8 = ([base64Chars ! unat (signed_drop_bit 2 w AND 0x3f)], 2)"
  "base64Emit w 10 = ([base64Chars ! unat (signed_drop_bit 4 w AND 0x3f)], 4)"
  "base64Emit w 12 = ([base64Chars ! unat (signed_drop_bit 6 w AND 0x3f),
      base64Chars ! unat (signed_drop_bit 0 w AND 0x3f)], 0)"
  by (simp_all add: base64Emit.simps)

lemma char_of_accumI:
  assumes "m \<le> 6"
    and "\<And>i. i < 8 \<Longrightarrow>
      (if i + m < 6 then bit v (i + m) else bit d (i + m - 6)) = bit (byte_of_char c) i"
  shows "char_of_byte (ucast (drop_bit m (push_bit 6 d OR (v AND 0x3f) :: 32 word) AND 0xff)) = c"
proof -
  have "bit (ucast (drop_bit m (push_bit 6 d OR (v AND 0x3f)) AND 0xff) :: byte) i
      = (if i + m < 6 then bit v (i + m) else bit d (i + m - 6))" if "i < 8" for i
    using that assms(1) unfolding bit_ucast_iff bit_and_low bit_drop_bit_eq o_def bit_or_iff
      bit_push_bit_iff
    by (auto simp: add.commute)
  then have "ucast (drop_bit m (push_bit 6 d OR (v AND 0x3f)) AND 0xff) = byte_of_char c"
    using assms(2) by (intro bit_word_eqI) auto
  then show ?thesis by simp
qed

lemmas bit_shift_simps = bit_or_iff bit_push_bit_iff bit_drop_bit_eq bit_ucast_iff
  bit_signed_drop_bit_iff

lemma base64_reads_back:
  assumes pad: "set pad \<subseteq> {CHR ''=''}"
  shows "base64Decode_loop d 0 (base64Encode_loop data 0 s @ pad) = Inr s"
    and "(\<And>i. i < 2 \<Longrightarrow> bit data i = bit (byte_of_char c) i) \<Longrightarrow>
         (\<And>i. 2 \<le> i \<Longrightarrow> i < 8 \<Longrightarrow> bit d (i - 2) = bit (byte_of_char c) i) \<Longrightarrow>
         base64Decode_loop d 6 (base64Encode_loop data 2 s @ pad) = Inr (c # s)"
    and "(\<And>i. i < 4 \<Longrightarrow> bit data i = bit (byte_of_char c) i) \<Longrightarrow>
         (\<And>i. 4 \<le> i \<Longrightarrow> i < 8 \<Longrightarrow> bit d (i - 4) = bit (byte_of_char c) i) \<Longrightarrow>
         base64Decode_loop d 4 (base64Encode_loop data 4 s @ pad) = Inr (c # s)"
proof (induction s arbitrary: d data c)
  case Nil
  have stop: "base64Decode_loop d n pad = Inr []" for d n
    using pad by (cases pad) auto
  {
    case 1
    show ?case using stop by simp
  next
    case 2
    have "char_of_byte (ucast (drop_bit 4 (push_bit 6 d OR (push_bit 4 data AND 0x3f)) AND 0xff)) = c"
      by (rule char_of_accumI) (use 2 in \<open>auto simp: bit_shift_simps dest: bit_imp_le_length\<close>)
    then show ?case by (simp add: base64Decode_digit stop Let_def del: base64Decode_loop.simps)
  next
    case 3
    have "char_of_byte (ucast (drop_bit 2 (push_bit 6 d OR (push_bit 2 data AND 0x3f)) AND 0xff)) = c"
      by (rule char_of_accumI) (use 3 in \<open>auto simp: bit_shift_simps dest: bit_imp_le_length\<close>)
    then show ?case by (simp add: base64Decode_digit stop Let_def del: base64Decode_loop.simps)
  }
next
  case (Cons x s)
  {
    case 1
    let ?w = "push_bit 8 data OR ucast (byte_of_char x) :: 32 word"
    have "base64Decode_loop (push_bit 6 d OR (signed_drop_bit 2 ?w AND 0x3f)) 6
        (base64Encode_loop ?w 2 s @ pad) = Inr (x # s)"
      by (rule Cons.IH(2)) (auto simp: bit_shift_simps dest!: le_Suc_ex)
    then show ?case by (simp add: base64Emit_steps base64Decode_digit Let_def del: base64Decode_loop.simps)
  next
    case 2
    let ?w = "push_bit 8 data OR ucast (byte_of_char x) :: 32 word"
    have "char_of_byte (ucast (drop_bit 4 (push_bit 6 d OR (signed_drop_bit 4 ?w AND 0x3f)) AND 0xff)) = c"
      by (rule char_of_accumI) (use 2 in \<open>auto simp: bit_shift_simps dest: bit_imp_le_length\<close>)
    moreover have "base64Decode_loop (push_bit 6 d OR (signed_drop_bit 4 ?w AND 0x3f)) 4
        (base64Encode_loop ?w 4 s @ pad) = Inr (x # s)"
      by (rule Cons.IH(3)) (auto simp: bit_shift_simps dest!: le_Suc_ex)
    ultimately show ?case by (simp add: base64Emit_steps base64Decode_digit Let_def del: base64Decode_loop.simps)
  next
    case 3
    let ?w = "push_bit 8 data OR ucast (byte_of_char x) :: 32 word"
    let ?d = "push_bit 6 d OR (signed_drop_bit 6 ?w AND 0x3f)"
    have "char_of_byte (ucast (drop_bit 2 ?d AND 0xff)) = c"
      by (rule char_of_accumI) (use 3 in \<open>auto simp: bit_shift_simps dest: bit_imp_le_length\<close>)
    moreover have "char_of_byte (ucast (drop_bit 0 (push_bit 6 ?d OR (signed_drop_bit 0 ?w AND 0x3f)) AND 0xff)) = x"
      by (rule char_of_accumI) (auto simp: bit_shift_simps)
    ultimately show ?case
      by (simp add: base64Emit_steps base64Decode_digit Let_def Cons.IH(1)
          del: base64Decode_loop.simps)
  }
qed

lemma base64Pad_shape: "\<exists>k. base64Pad r = r @ replicate k (CHR ''='')"
proof (induction r rule: base64Pad.induct)
  case (1 r)
  show ?case
  proof (cases "length r mod 4 = 0")
    case True
    then show ?thesis by (subst base64Pad.simps) (simp add: exI [of _ 0])
  next
    case False
    with 1 obtain k where "base64Pad (r @ ''='') = (r @ ''='') @ replicate k (CHR ''='')" by blast
    then have "base64Pad r = r @ replicate (Suc k) (CHR ''='')"
      using False by (subst base64Pad.simps) simp
    then show ?thesis ..
  qed
qed

lemma base64Decode_base64Encode: "base64Decode (base64Encode s) = Inr s"
proof -
  obtain k where "base64Encode s = base64Encode_loop 0 0 s @ replicate k (CHR ''='')"
    using base64Pad_shape unfolding base64Encode_def by blast
  then show ?thesis
    by (simp add: base64Decode_def base64_reads_back(1) set_replicate_conv_if)
qed

interpretation base64: codec base64Encode base64Decode "\<lambda>_. True"
  by unfold_locales (simp add: base64Decode_base64Encode)

subsection \<open>Length and alphabet\<close>

lemma base64Emit_length: "length (fst (base64Emit w n)) = n div 6 \<and> snd (base64Emit w n) = n mod 6"
proof (induction w n rule: base64Emit.induct)
  case (1 w n)
  show ?case
  proof (cases "n < 6")
    case True
    then show ?thesis by (simp add: base64Emit.simps)
  next
    case False
    with 1 [OF False refl] show ?thesis
      by (subst (1 2) base64Emit.simps) (auto simp: Let_def split_beta le_div_geq le_mod_geq)
  qed
qed

lemma base64Encode_loop_length:
  "n < 6 \<Longrightarrow> length (base64Encode_loop w n s) = (n + 8 * length s + 5) div 6"
proof (induction s arbitrary: w n)
  case Nil
  then show ?case by (cases "n = 0") auto
next
  case (Cons c s)
  let ?w = "push_bit 8 w OR ucast (byte_of_char c) :: 32 word"
  have "length (base64Encode_loop ?w ((n + 8) mod 6) s) = ((n + 8) mod 6 + 8 * length s + 5) div 6"
    by (rule Cons.IH) simp
  moreover have "(n + 8) div 6 + ((n + 8) mod 6 + 8 * length s + 5) div 6
      = (n + 8 * length (c # s) + 5) div 6"
  proof -
    have "n + 8 * length (c # s) + 5 = (n + 8) div 6 * 6 + ((n + 8) mod 6 + 8 * length s + 5)"
      using div_mult_mod_eq [of "n + 8" 6] by simp
    then show ?thesis by (metis add.commute div_mult_self1 zero_neq_numeral)
  qed
  ultimately show ?case
    using base64Emit_length [of ?w "n + 8"] by (simp add: Let_def split_beta)
qed

lemma base64Pad_length: "length (base64Pad r) = (length r + 3) div 4 * 4"
proof (induction r rule: base64Pad.induct)
  case (1 r)
  show ?case
  proof (cases "length r mod 4 = 0")
    case True
    then show ?thesis by (subst base64Pad.simps) (simp, presburger)
  next
    case False
    then have "(length r + 1 + 3) div 4 = (length r + 3) div 4" by presburger
    with 1 False show ?thesis by (subst base64Pad.simps) simp
  qed
qed

lemma base64Encode_length: "length (base64Encode s) = base64Size (length s)"
proof -
  have "((8 * k + 5) div 6 + 3) div 4 = (4 * k div 3 + 3) div 4" for k :: nat
  proof -
    obtain q r where k: "k = 3 * q + r" and "r < 3"
      by (metis mod_less_divisor mult_div_mod_eq zero_less_numeral)
    then consider "r = 0" | "r = 1" | "r = 2" by linarith
    then show ?thesis unfolding k
    proof cases
      case 1
      have "(24 * q + 5) div 6 = 4 * q" by (simp add: div_nat_eqI)
      then show "((8 * (3 * q + r) + 5) div 6 + 3) div 4 = (4 * (3 * q + r) div 3 + 3) div 4"
        using 1 by simp
    next
      case 2
      have "(24 * q + 13) div 6 = 4 * q + 2" "(12 * q + 4) div 3 = 4 * q + 1"
        by (simp_all add: div_nat_eqI)
      then show "((8 * (3 * q + r) + 5) div 6 + 3) div 4 = (4 * (3 * q + r) div 3 + 3) div 4"
        using 2 by (simp add: algebra_simps)
    next
      case 3
      have "(24 * q + 21) div 6 = 4 * q + 3" "(12 * q + 8) div 3 = 4 * q + 2"
        by (simp_all add: div_nat_eqI)
      then show "((8 * (3 * q + r) + 5) div 6 + 3) div 4 = (4 * (3 * q + r) div 3 + 3) div 4"
        using 3 by (simp add: algebra_simps)
    qed
  qed
  then show ?thesis
    by (simp add: base64Encode_def base64Pad_length base64Encode_loop_length base64Size_def)
qed

lemma base64Emit_chars: "set (fst (base64Emit w n)) \<subseteq> set base64Chars"
proof (induction w n rule: base64Emit.induct)
  case (1 w n)
  show ?case
  proof (cases "n < 6")
    case False
    have "base64Chars ! unat (v AND 0x3f) \<in> set base64Chars" for v :: "32 word"
      using unat_and_low(1) [of v] by (simp add: base64Chars_facts)
    with 1 [OF False refl] False show ?thesis
      by (subst base64Emit.simps) (auto simp: Let_def split_beta)
  qed (simp add: base64Emit.simps)
qed

lemma base64Encode_loop_chars: "set (base64Encode_loop w n s) \<subseteq> set base64Chars"
proof (induction s arbitrary: w n)
  case Nil
  have "base64Chars ! unat (v AND 0x3f) \<in> set base64Chars" for v :: "32 word"
    using unat_and_low(1) [of v] by (simp add: base64Chars_facts)
  then show ?case by auto
next
  case (Cons c s)
  then show ?case using base64Emit_chars by (fastforce simp: Let_def split_beta)
qed

lemma base64Encode_chars: "set (base64Encode s) \<subseteq> insert (CHR ''='') (set base64Chars)"
  unfolding base64Encode_def
  using base64Pad_shape [of "base64Encode_loop 0 0 s"] base64Encode_loop_chars [of 0 0 s] by auto

section \<open>Base 32 reads back\<close>

text \<open>Both directions compare the bits of a byte list, read from the low end.\<close>

definition stream_bit :: "byte list \<Rightarrow> nat \<Rightarrow> bool" where
  "stream_bit bs p = (p < 8 * length bs \<and> bit (bs ! (p div 8)) (p mod 8))"

lemma stream_bit_eqI:
  assumes "length as = length bs" and "\<And>p. p < 8 * length bs \<Longrightarrow> stream_bit as p = stream_bit bs p"
  shows "as = bs"
proof (rule nth_equalityI [OF assms(1)])
  fix i
  assume i: "i < length as"
  show "as ! i = bs ! i"
  proof (rule bit_word_eqI)
    fix b :: nat
    assume "b < LENGTH(8)"
    then have "(8 * i + b) div 8 = i" "(8 * i + b) mod 8 = b" "8 * i + b < 8 * length bs"
      using i assms(1) by auto
    then show "bit (as ! i) b = bit (bs ! i) b"
      using assms(2) [of "8 * i + b"] assms(1) by (simp add: stream_bit_def)
  qed
qed

lemma stream_bit_update:
  assumes "i < length bs" and "p < 8 * length bs"
  shows "stream_bit (bs[i := bs ! i OR w]) p \<longleftrightarrow>
    stream_bit bs p \<or> (p div 8 = i \<and> bit w (p mod 8))"
  using assms by (auto simp: stream_bit_def nth_list_update bit_or_iff)

lemma base32Digit_bit:
  assumes "5 * n < 8 * length bs" and "t < 5"
  shows "bit (base32Digit bs n) t = stream_bit bs (5 * n + t)"
proof -
  define i where "i = n * 5 div 8"
  define j where "j = n * 5 mod 8"
  have n: "n * 5 = 8 * i + j" and j: "j < 8" by (simp_all add: i_def j_def)
  have i: "i < length bs" using assms(1) n by linarith
  show ?thesis
  proof (cases "j + t < 8")
    case True
    then have "(5 * n + t) div 8 = i" "(5 * n + t) mod 8 = j + t"
      using n by (simp_all add: mult.commute [of 5] div_nat_eqI mod_nat_eqI)
    moreover have "5 * n + t < 8 * length bs" using True n i by (simp add: mult.commute)
    ultimately show ?thesis
      using True j by (auto simp: base32Digit_def Let_def i_def [symmetric] j_def [symmetric]
          stream_bit_def bit_or_iff bit_drop_bit_eq bit_push_bit_iff bit_ucast_iff)
  next
    case False
    then have d: "(5 * n + t) div 8 = i + 1" "(5 * n + t) mod 8 = j + t - 8"
      using n j assms(2) by (simp_all add: mult.commute div_nat_eqI mod_nat_eqI)
    have "5 * n + t < 8 * length bs \<longleftrightarrow> i + 1 < length bs"
      using False n j assms(2) by (simp add: mult.commute) linarith
    then show ?thesis
      using False j assms(2) i d by (auto simp: base32Digit_def Let_def i_def [symmetric]
          j_def [symmetric] stream_bit_def bit_or_iff bit_drop_bit_eq bit_push_bit_iff bit_ucast_iff
          add.commute [of t j] dest: bit_imp_le_length)
  qed
qed

lemma base32DigitOf_Some:
  "base32DigitOf c = Some k \<Longrightarrow> k < 32 \<and> c = base32Chars ! k"
  unfolding base32DigitOf_def
  by (drule map_of_SomeD) (auto simp: set_zip base32Chars_facts)

lemma bit_small_nat: "k < 32 \<Longrightarrow> bit (k :: nat) t \<Longrightarrow> t < 5"
proof (rule ccontr)
  assume "k < 32" and bit: "bit k t" and "\<not> t < 5"
  then have "(2::nat) ^ 5 \<le> 2 ^ t" by (intro power_increasing) auto
  with \<open>k < 32\<close> have "k div 2 ^ t = 0" by simp
  with bit show False by (simp add: bit_iff_odd)
qed

lemma bit_digit: "k < 32 \<Longrightarrow> bit (word_of_nat k :: 64 word) t \<longleftrightarrow> bit k t"
  using bit_small_nat [of k t] by (auto simp: bit_of_nat_iff)

text \<open>
  The state after \<open>n\<close> digits \<open>ds\<close>: the low \<open>5 * n\<close> bits are those of the digits, all others
  are clear.
\<close>

definition base32_inv :: "nat list \<Rightarrow> nat \<Rightarrow> byte list \<Rightarrow> bool" where
  "base32_inv ds n res = (\<forall>p < 8 * length res.
     stream_bit res p \<longleftrightarrow> p < 5 * n \<and> bit (ds ! (p div 5)) (p mod 5))"

definition base32_step :: "byte list \<Rightarrow> nat \<Rightarrow> nat \<Rightarrow> byte list" where
  "base32_step res n k =
     (let digit = word_of_nat k :: 64 word; i = n * 5 div 8; j = n * 5 mod 8;
          res = res[i := res ! i OR ucast (push_bit j digit)]
      in if i < length res - 1
         then res[i + 1 := res ! (i + 1) OR ucast (drop_bit (8 - j) digit)] else res)"

definition base32_spill :: "byte list \<Rightarrow> nat \<Rightarrow> nat \<Rightarrow> bool" where
  "base32_spill res n k =
     (\<not> n * 5 div 8 < length res - 1 \<and> drop_bit (8 - n * 5 mod 8) (word_of_nat k :: 64 word) \<noteq> 0)"

lemma base32Decode_loop_step:
  "base32DigitOf c = Some k \<Longrightarrow> base32Decode_loop res n (c # cs) =
     (if base32_spill res n k then Inl (Error ''invalid base-32 string'')
      else base32Decode_loop (base32_step res n k) (n + 1) cs)"
  by (simp add: base32_spill_def base32_step_def Let_def)

lemma length_base32_step [simp]: "length (base32_step res n k) = length res"
  by (simp add: base32_step_def Let_def)

lemma stream_bit_base32_step:
  assumes "k < 32" and "5 * n < 8 * length res" and "p < 8 * length res"
  shows "stream_bit (base32_step res n k) p \<longleftrightarrow>
    stream_bit res p \<or> (5 * n \<le> p \<and> p < 5 * n + 5 \<and> bit k (p - 5 * n))"
proof -
  define i where "i = n * 5 div 8"
  define j where "j = n * 5 mod 8"
  have n: "5 * n = 8 * i + j" and j: "j < 8" by (simp_all add: i_def j_def mult.commute)
  have i: "i < length res" using assms(2) n by linarith
  let ?d = "word_of_nat k :: 64 word"
  have low: "(p div 8 = i \<and> bit (ucast (push_bit j ?d) :: byte) (p mod 8)) \<longleftrightarrow>
      (p div 8 = i \<and> 5 * n \<le> p \<and> bit k (p - 5 * n))"
  proof (cases "p div 8 = i")
    case True
    then have p: "p = 8 * i + p mod 8" by auto
    then have "p - 5 * n = p mod 8 - j" "5 * n \<le> p \<longleftrightarrow> j \<le> p mod 8" using n by linarith+
    then show ?thesis using True assms(1) j
      by (auto simp: bit_ucast_iff bit_push_bit_iff bit_digit)
  qed simp
  have high: "(p div 8 = i + 1 \<and> bit (ucast (drop_bit (8 - j) ?d) :: byte) (p mod 8)) \<longleftrightarrow>
      (p div 8 = i + 1 \<and> bit k (p - 5 * n))"
  proof (cases "p div 8 = i + 1")
    case True
    then have p: "p = 8 * i + 8 + p mod 8" by (metis add_mult_distrib2 div_mod_decomp mult.commute mult.right_neutral)
    then have "p - 5 * n = 8 - j + p mod 8" using n j by linarith
    then show ?thesis using True assms(1)
      by (auto simp: bit_ucast_iff bit_drop_bit_eq bit_digit)
  qed simp
  have near: "p div 8 = i \<or> p div 8 = i + 1" if "5 * n \<le> p" "p < 5 * n + 5"
    using that n j by auto
  have bound: "bit k (p - 5 * n) \<Longrightarrow> p - 5 * n < 5"
    using bit_small_nat [OF assms(1)] .
  have over: "5 * n \<le> p" if "p div 8 = i + 1" using that n j by auto
  have "stream_bit (base32_step res n k) p \<longleftrightarrow> stream_bit res p
      \<or> (p div 8 = i \<and> bit (ucast (push_bit j ?d) :: byte) (p mod 8))
      \<or> (p div 8 = i + 1 \<and> bit (ucast (drop_bit (8 - j) ?d) :: byte) (p mod 8))"
  proof (cases "i < length res - 1")
    case True
    let ?r = "res[i := res ! i OR ucast (push_bit j ?d)]"
    have "base32_step res n k = ?r[i + 1 := ?r ! (i + 1) OR ucast (drop_bit (8 - j) ?d)]"
      using True by (simp add: base32_step_def Let_def i_def [symmetric] j_def [symmetric])
    then show ?thesis
      using stream_bit_update [of "i + 1" ?r p] stream_bit_update [OF i assms(3)] True assms(3)
      by simp
  next
    case False
    then have "p div 8 \<noteq> i + 1" using assms(3) i by auto
    with False show ?thesis using i assms(3)
      by (auto simp: base32_step_def Let_def i_def [symmetric] j_def [symmetric] stream_bit_update)
  qed
  then show ?thesis unfolding low high using near bound over by auto
qed

lemma base32_inv_step:
  assumes "base32_inv ds n res" and "ds ! n < 32" and "5 * n < 8 * length res"
  shows "base32_inv ds (n + 1) (base32_step res n (ds ! n))"
  unfolding base32_inv_def
proof (intro allI impI)
  fix p
  assume p: "p < 8 * length (base32_step res n (ds ! n))"
  have mid: "p div 5 = n \<and> p mod 5 = p - 5 * n" if "5 * n \<le> p" "p < 5 * n + 5"
    using that by (auto simp: div_nat_eqI mod_nat_eqI)
  have "stream_bit res p \<longleftrightarrow> p < 5 * n \<and> bit (ds ! (p div 5)) (p mod 5)"
    using assms(1) p by (simp add: base32_inv_def)
  then show "stream_bit (base32_step res n (ds ! n)) p \<longleftrightarrow>
      p < 5 * (n + 1) \<and> bit (ds ! (p div 5)) (p mod 5)"
    using stream_bit_base32_step [OF assms(2,3), of p] p mid by (auto simp: not_less)
qed

lemma base32_spill_iff:
  assumes "k < 32" and "5 * n < 8 * length res"
  shows "base32_spill res n k \<longleftrightarrow> (\<exists>t < 5. 8 * length res \<le> 5 * n + t \<and> bit k t)"
proof -
  define i where "i = n * 5 div 8"
  define j where "j = n * 5 mod 8"
  have n: "5 * n = 8 * i + j" and j: "j < 8" by (simp_all add: i_def j_def mult.commute)
  have i: "i < length res" using assms(2) n by linarith
  have "drop_bit (8 - j) (word_of_nat k :: 64 word) \<noteq> 0 \<longleftrightarrow> (\<exists>t. bit k (8 - j + t))"
  proof
    assume "\<exists>t. bit k (8 - j + t)"
    then obtain t where "bit (drop_bit (8 - j) (word_of_nat k :: 64 word)) t"
      using assms(1) by (auto simp: bit_drop_bit_eq bit_digit)
    then show "drop_bit (8 - j) (word_of_nat k :: 64 word) \<noteq> 0" by force
  qed (use assms(1) in \<open>auto simp: bit_eq_iff bit_drop_bit_eq bit_digit\<close>)
  moreover have "(\<exists>t. bit k (8 - j + t)) \<longleftrightarrow> (\<exists>t < 5. 8 \<le> j + t \<and> bit k t)"
  proof
    assume "\<exists>t < 5. 8 \<le> j + t \<and> bit k t"
    then obtain t where "8 \<le> j + t" "bit k (8 - j + (t - (8 - j)))" by auto
    then show "\<exists>t. bit k (8 - j + t)" by blast
  next
    assume "\<exists>t. bit k (8 - j + t)"
    then obtain t where "bit k (8 - j + t)" ..
    with bit_small_nat [OF assms(1) this] j show "\<exists>t < 5. 8 \<le> j + t \<and> bit k t"
      by (intro exI [of _ "8 - j + t"]) auto
  qed
  moreover have "\<not> 8 * length res \<le> 5 * n + t" if "i < length res - 1" "t < 5" for t
    using that n j by auto
  moreover have "8 * length res \<le> 5 * n + t \<longleftrightarrow> 8 \<le> j + t" if "\<not> i < length res - 1" for t
    using that n i by auto
  ultimately show ?thesis
    unfolding base32_spill_def i_def [symmetric] j_def [symmetric] by blast
qed

lemma base32Decode_loop_ok:
  assumes "base32_inv ds n res" and "n \<le> length ds" and "\<forall>d \<in> set ds. d < 32"
    and "5 * length ds < 8 * length res + 5"
    and "\<And>m t. n \<le> m \<Longrightarrow> m < length ds \<Longrightarrow> t < 5 \<Longrightarrow> 8 * length res \<le> 5 * m + t \<Longrightarrow> \<not> bit (ds ! m) t"
  shows "\<exists>res'. base32Decode_loop res n (map (\<lambda>d. base32Chars ! d) (drop n ds)) = Inr res'
    \<and> length res' = length res \<and> base32_inv ds (length ds) res'"
  using assms
proof (induction "length ds - n" arbitrary: n res)
  case 0
  then show ?case by auto
next
  case (Suc x)
  then have n: "n < length ds" by simp
  then have d: "drop n ds = ds ! n # drop (n + 1) ds" and k: "ds ! n < 32"
    using Suc.prems(3) by (simp_all add: Cons_nth_drop_Suc)
  have in_range: "5 * n < 8 * length res" using n Suc.prems(4) by linarith
  have no_spill: "\<not> base32_spill res n (ds ! n)"
    using base32_spill_iff [OF k in_range] Suc.prems(5) [of n] n by auto
  have "\<exists>res'. base32Decode_loop (base32_step res n (ds ! n)) (n + 1)
        (map (\<lambda>d. base32Chars ! d) (drop (n + 1) ds)) = Inr res'
      \<and> length res' = length (base32_step res n (ds ! n)) \<and> base32_inv ds (length ds) res'"
  proof (rule Suc.hyps(1))
    show "x = length ds - (n + 1)" using Suc.hyps(2) by simp
    show "base32_inv ds (n + 1) (base32_step res n (ds ! n))"
      by (rule base32_inv_step [OF Suc.prems(1) k in_range])
  qed (use Suc.prems n in auto)
  then show ?case
    using base32Decode_loop_step [OF base32DigitOf_nth [OF k], of res n] no_spill by (simp add: d)
qed

lemma base32Size_facts:
  assumes "L > 0"
  shows "base32Size L > 0" "(base32Size L - 1) * 5 div 8 + 1 = L"
    "5 * base32Size L < 8 * L + 5" "8 * L \<le> 5 * base32Size L"
proof -
  define q where "q = (8 * L - 1) div 5"
  have q: "base32Size L = q + 1" using assms by (simp add: base32Size_def q_def mult.commute)
  have lo: "8 * L - 5 \<le> 5 * q" and hi: "5 * q \<le> 8 * L - 1"
    unfolding q_def using assms by simp_all
  then have "5 * q div 8 = L - 1" using assms by (intro div_nat_eqI) auto
  then show "(base32Size L - 1) * 5 div 8 + 1 = L" using assms q by (simp add: mult.commute)
  show "base32Size L > 0" "5 * base32Size L < 8 * L + 5" "8 * L \<le> 5 * base32Size L"
    using q lo hi assms by auto
qed

lemma base32Encode_length: "length (base32Encode bs) = base32Size (length bs)"
  by (cases bs) (auto simp: base32Encode_def base32Size_def)

definition base32_digits :: "byte list \<Rightarrow> nat list" where
  "base32_digits bs = map (\<lambda>n. unat (base32Digit bs n AND 0x1f)) [0..<base32Size (length bs)]"

lemma base32Encode_digits:
  "base32Encode bs = rev (map (\<lambda>d. base32Chars ! d) (base32_digits bs))"
  by (cases "bs = []") (auto simp: base32Encode_def base32_digits_def base32Size_def rev_map)

lemma base32_digits_bit:
  assumes "m < base32Size (length bs)" and "t < 5"
  shows "bit (base32_digits bs ! m) t = stream_bit bs (5 * m + t)"
proof -
  have "length bs > 0" using assms(1) by (cases bs) (auto simp: base32Size_def)
  then have "5 * m < 8 * length bs"
    using base32Size_facts(3) [of "length bs"] assms(1) by linarith
  then show ?thesis
    using assms base32Digit_bit [of m bs t]
    by (simp add: base32_digits_def bit_unsigned_iff)
qed

lemma base32_digits_less: "d \<in> set (base32_digits bs) \<Longrightarrow> d < 32"
  using unat_and_low(2) by (auto simp: base32_digits_def)

lemma base32_inv_init: "base32_inv ds 0 (replicate L 0)"
  by (simp add: base32_inv_def stream_bit_def)

lemma base32Decode_base32Encode: "base32Decode (base32Encode bs) = Inr bs"
proof (cases "bs = []")
  case True
  then show ?thesis by (simp add: base32Encode_def base32Decode_def)
next
  case False
  let ?L = "length bs" and ?ds = "base32_digits bs"
  have L: "?L > 0" using False by simp
  have len: "length ?ds = base32Size ?L" by (simp add: base32_digits_def)
  have "\<exists>res'. base32Decode_loop (replicate ?L 0) 0 (map (\<lambda>d. base32Chars ! d) (drop 0 ?ds)) = Inr res'
    \<and> length res' = length (replicate ?L (0 :: byte)) \<and> base32_inv ?ds (length ?ds) res'"
  proof (rule base32Decode_loop_ok [OF base32_inv_init])
    show "5 * length ?ds < 8 * length (replicate ?L 0) + 5"
      using base32Size_facts(3) [OF L] len by simp
    show "\<not> bit (?ds ! m) t"
      if "m < length ?ds" "t < 5" "8 * length (replicate ?L 0) \<le> 5 * m + t" for m t
      using that len base32_digits_bit [of m bs t] by (simp add: stream_bit_def)
  qed (use base32_digits_less in auto)
  then obtain res where res: "base32Decode_loop (replicate ?L 0) 0 (map (\<lambda>d. base32Chars ! d) ?ds) = Inr res"
    and l: "length res = ?L" and inv: "base32_inv ?ds (base32Size ?L) res"
    using len by auto
  have "res = bs"
  proof (rule stream_bit_eqI [OF l])
    fix p
    assume p: "p < 8 * ?L"
    then have "p < 5 * base32Size ?L" using base32Size_facts(4) [OF L] by simp
    moreover from this have "p div 5 < base32Size ?L" by auto
    ultimately show "stream_bit res p = stream_bit bs p"
      using inv p l base32_digits_bit [of "p div 5" bs "p mod 5"] by (simp add: base32_inv_def)
  qed
  moreover have "base32Encode bs \<noteq> []"
    using base32Encode_length [of bs] base32Size_facts(1) [OF L] by auto
  ultimately show ?thesis
    using res base32Size_facts(2) [OF L]
    by (simp add: base32Decode_def base32Encode_length) (simp add: base32Encode_digits)
qed

interpretation base32: codec base32Encode base32Decode "\<lambda>_. True"
  by unfold_locales (simp add: base32Decode_base32Encode)

subsection \<open>What base-32 decoding accepts\<close>

lemma base32Decode_loop_digits:
  assumes "base32Decode_loop res n cs = Inr res'" and "5 * (n + length cs) < 8 * length res + 5"
  shows "\<exists>ks. cs = map (\<lambda>d. base32Chars ! d) ks \<and> (\<forall>k \<in> set ks. k < 32)
    \<and> (\<forall>m < length ks. \<forall>t < 5. 8 * length res \<le> 5 * (n + m) + t \<longrightarrow> \<not> bit (ks ! m) t)"
  using assms
proof (induction cs arbitrary: res n)
  case Nil
  then show ?case by simp
next
  case (Cons c cs)
  then obtain k where dig: "base32DigitOf c = Some k" by (cases "base32DigitOf c") auto
  then have k: "k < 32" and c: "c = base32Chars ! k" using base32DigitOf_Some by auto
  have range: "5 * n < 8 * length res" using Cons.prems(2) by simp
  have no_spill: "\<not> base32_spill res n k"
    and rest: "base32Decode_loop (base32_step res n k) (n + 1) cs = Inr res'"
    using Cons.prems(1) unfolding base32Decode_loop_step [OF dig] by (auto split: if_splits)
  have "\<exists>ks. cs = map (\<lambda>d. base32Chars ! d) ks \<and> (\<forall>k \<in> set ks. k < 32)
    \<and> (\<forall>m < length ks. \<forall>t < 5. 8 * length (base32_step res n k) \<le> 5 * (n + 1 + m) + t \<longrightarrow> \<not> bit (ks ! m) t)"
    by (rule Cons.IH [OF rest]) (use Cons.prems(2) in simp)
  then obtain ks where ks: "cs = map (\<lambda>d. base32Chars ! d) ks" "\<forall>k \<in> set ks. k < 32"
    "\<forall>m < length ks. \<forall>t < 5. 8 * length res \<le> 5 * (n + 1 + m) + t \<longrightarrow> \<not> bit (ks ! m) t"
    by auto
  have "\<forall>m < length (k # ks). \<forall>t < 5. 8 * length res \<le> 5 * (n + m) + t \<longrightarrow> \<not> bit ((k # ks) ! m) t"
  proof (intro allI impI)
    fix m t
    assume "m < length (k # ks)" "t < 5" "8 * length res \<le> 5 * (n + m) + t"
    then show "\<not> bit ((k # ks) ! m) t"
      using no_spill base32_spill_iff [OF k range] ks(3) by (cases m) auto
  qed
  then show ?case using c k ks(1,2) by (intro exI [of _ "k # ks"]) auto
qed

lemma base32Encode_base32Decode:
  assumes dec: "base32Decode s = Inr bs" and size: "length s = base32Size (length bs)"
  shows "base32Encode bs = s"
proof (cases "s = []")
  case True
  then show ?thesis using dec by (simp add: base32Decode_def base32Encode_def)
next
  case False
  let ?L = "length bs"
  have L: "?L > 0" using False size by (cases bs) (auto simp: base32Size_def)
  have loop: "base32Decode_loop (replicate ?L 0) 0 (rev s) = Inr bs"
    using dec False unfolding base32Decode_def size base32Size_facts(2) [OF L] by simp
  have "\<exists>ks. rev s = map (\<lambda>d. base32Chars ! d) ks \<and> (\<forall>k \<in> set ks. k < 32)
    \<and> (\<forall>m < length ks. \<forall>t < 5. 8 * length (replicate ?L (0 :: byte)) \<le> 5 * (0 + m) + t \<longrightarrow> \<not> bit (ks ! m) t)"
    by (rule base32Decode_loop_digits [OF loop]) (use size base32Size_facts(3) [OF L] in simp)
  then obtain ks where ks: "rev s = map (\<lambda>d. base32Chars ! d) ks" "\<forall>k \<in> set ks. k < 32"
    and clear: "\<And>m t. m < length ks \<Longrightarrow> t < 5 \<Longrightarrow> 8 * ?L \<le> 5 * m + t \<Longrightarrow> \<not> bit (ks ! m) t"
    by auto
  have len: "length ks = base32Size ?L" using ks(1) size by (metis length_map length_rev)
  have "\<exists>res'. base32Decode_loop (replicate ?L 0) 0 (map (\<lambda>d. base32Chars ! d) (drop 0 ks)) = Inr res'
    \<and> length res' = length (replicate ?L (0 :: byte)) \<and> base32_inv ks (length ks) res'"
    by (rule base32Decode_loop_ok [OF base32_inv_init])
      (use ks(2) len base32Size_facts(3) [OF L] clear in auto)
  then have inv: "base32_inv ks (length ks) bs" using loop ks(1) by auto
  have "base32_digits bs = ks"
  proof (rule nth_equalityI)
    show "length (base32_digits bs) = length ks" using len by (simp add: base32_digits_def)
    fix m
    assume "m < length (base32_digits bs)"
    then have m: "m < base32Size ?L" by (simp add: base32_digits_def)
    show "base32_digits bs ! m = ks ! m"
    proof (rule bit_eqI)
      fix t
      have "bit (base32_digits bs ! m) t \<longleftrightarrow> t < 5 \<and> stream_bit bs (5 * m + t)"
        using base32_digits_bit [OF m, of t] bit_small_nat [of "base32_digits bs ! m" t]
          base32_digits_less [of "base32_digits bs ! m" bs] m by (auto simp: base32_digits_def)
      also have "\<dots> \<longleftrightarrow> t < 5 \<and> bit (ks ! m) t"
        using inv clear [of m t] m len
        by (cases "5 * m + t < 8 * ?L") (auto simp: base32_inv_def stream_bit_def)
      also have "\<dots> \<longleftrightarrow> bit (ks ! m) t"
        using bit_small_nat [of "ks ! m" t] ks(2) m len by auto
      finally show "bit (base32_digits bs ! m) t \<longleftrightarrow> bit (ks ! m) t" .
    qed
  qed
  then show ?thesis using ks(1) by (simp add: base32Encode_digits flip: ks(1))
qed

section \<open>Base 16 reads back\<close>

lemma parseHexDigit_nth: "k < 16 \<Longrightarrow> parseHexDigit (base16Chars ! k) = Inr k"
proof -
  have "\<forall>k \<in> set [0..<16]. parseHexDigit (base16Chars ! k) = Inr k" by code_simp
  then show "k < 16 \<Longrightarrow> parseHexDigit (base16Chars ! k) = Inr k" by simp
qed

lemma base16_nibbles:
  "push_bit 4 (drop_bit 4 b) OR (b AND 0x0f) = (b :: byte)"
  by (rule bit_word_eqI) (auto simp: bit_or_iff bit_push_bit_iff bit_drop_bit_eq)

lemma base16Encode_subset: "set (base16Encode bs) \<subseteq> set base16Chars"
proof -
  have len: "length base16Chars = 16" by (simp add: base16Chars_def)
  have dig: "base16Chars ! unat (b AND 0x0f) \<in> set base16Chars" for b :: byte
    using unat_and_low(3) [of b] by (simp add: len)
  have "unat (drop_bit 4 b :: byte) < 16" for b
    using unat_byte_less [of b] by (simp add: drop_bit_eq_div unat_div)
  then have dig': "base16Chars ! unat (drop_bit 4 b :: byte) \<in> set base16Chars" for b
    by (simp add: len)
  show ?thesis unfolding base16Encode_def by (induction bs) (auto simp: dig dig')
qed

lemma base16Encode_length: "length (base16Encode bs) = base16Size (length bs)"
  by (induction bs) (auto simp: base16Encode_def base16Size_def)

lemma base16Decode_loop_encode: "base16Decode_loop (base16Encode bs) = Inr bs"
proof (induction bs)
  case (Cons b bs)
  have "unat (drop_bit 4 b) < 16"
    using unat_byte_less [of b] by (simp add: drop_bit_eq_div unat_div less_mult_imp_div_less)
  with Cons show ?case
    by (simp add: base16Encode_def parseHexDigit_nth unat_and_low base16_nibbles)
qed (simp add: base16Encode_def)

lemma base16Decode_base16Encode: "base16Decode (base16Encode bs) = Inr bs"
  by (simp add: base16Decode_def base16Decode_loop_encode base16Encode_length base16Size_def)

interpretation base16: codec base16Encode base16Decode "\<lambda>_. True"
  by unfold_locales (simp add: base16Decode_base16Encode)

section \<open>Properties\<close>

text \<open>base-64 decoding inverts base-64 encoding, and the encoding of \<open>n\<close> bytes has the length that
  \<^verbatim>\<open>base64Size\<close> computes.\<close>

theorem base64_roundtrip:
  "base64Decode (base64Encode s) = Inr s \<and> length (base64Encode s) = base64Size (length s)"
  by (simp add: base64Decode_base64Encode base64Encode_length)

text \<open>Nix's base-32 decoding inverts the encoding, and the encoding has the length that
  \<^verbatim>\<open>base32Size\<close> computes.\<close>

theorem base32_roundtrip:
  "base32Decode (base32Encode bs) = Inr bs \<and> length (base32Encode bs) = base32Size (length bs)"
  by (simp add: base32Decode_base32Encode base32Encode_length)

text \<open>base-32 is canonical: a string of the right length that decodes is the encoding of the
  bytes it decodes to, so no two hash parts of store paths name the same hash.\<close>

theorem base32_canonical:
  assumes "base32Decode s = Inr bs" and "length s = base32Size (length bs)"
  shows "base32Encode bs = s"
  using assms by (rule base32Encode_base32Decode)

theorem base32_canonical_witness:
  "base32Decode ''7z'' = Inr [0xff] \<and> length ''7z'' = base32Size (length [0xff :: byte])
   \<and> base32Encode [0xff] = ''7z''"
proof -
  have 1: "base32Decode ''7z'' = Inr [0xff]" by code_simp
  have 2: "length ''7z'' = base32Size (length [0xff :: byte])" by code_simp
  show ?thesis using base32_canonical [OF 1 2] 1 2 by simp
qed

text \<open>base-16 decoding inverts the encoding, and the encoding has the length that
  \<^verbatim>\<open>base16Size\<close> computes.\<close>

theorem base16_roundtrip:
  "base16Decode (base16Encode bs) = Inr bs \<and> length (base16Encode bs) = base16Size (length bs)"
  by (simp add: base16Decode_base16Encode base16Encode_length)

end
