(* ===== verification/Lix_Hash.thy ===== *)
theory Lix_Hash
  imports Lix_Strings Lix_Base_Encoding
begin

text \<open>
  Hashes (\<^verbatim>\<open>src/lix/libutil/hash.cc\<close>, \<^verbatim>\<open>hash.hh\<close>): their types and textual formats, the
  parsers that tell the formats apart by length and prefix, and the compression of a hash by
  cyclic exclusive-or. The digest functions come from OpenSSL and are a parameter.
\<close>

section \<open>Data\<close>

datatype HashType = MD5 | SHA1 | SHA256 | SHA512

datatype HashFormat = Base64 | Base32 | Base16 | SRI

record Hash =
  hash_data :: "byte list"
  hash_type :: HashType

fun regularHashSize :: "HashType \<Rightarrow> nat" where
  "regularHashSize MD5 = 16"
| "regularHashSize SHA1 = 20"
| "regularHashSize SHA256 = 32"
| "regularHashSize SHA512 = 64"

definition zeroHash :: "nat \<Rightarrow> HashType \<Rightarrow> Hash" where
  "zeroHash hashSize type = \<lparr>hash_data = replicate hashSize 0, hash_type = type\<rparr>"

fun showHashType :: "HashType \<Rightarrow> string" where
  "showHashType MD5 = ''md5''"
| "showHashType SHA1 = ''sha1''"
| "showHashType SHA256 = ''sha256''"
| "showHashType SHA512 = ''sha512''"

definition parseHashTypeOpt :: "string \<Rightarrow> HashType option" where
  "parseHashTypeOpt s =
     (if s = ''md5'' then Some MD5
      else if s = ''sha1'' then Some SHA1
      else if s = ''sha256'' then Some SHA256
      else if s = ''sha512'' then Some SHA512
      else None)"

definition parseHashType :: "string \<Rightarrow> HashType result" where
  "parseHashType s =
     (case parseHashTypeOpt s of
        Some h \<Rightarrow> Inr h
      | None \<Rightarrow> Inl (UsageError ''unknown hash algorithm''))"

section \<open>Printing\<close>

definition to_string :: "Hash \<Rightarrow> HashFormat \<Rightarrow> bool \<Rightarrow> string" where
  "to_string h format includeType =
     (if format = SRI \<or> includeType
      then showHashType (hash_type h) @ (if format = SRI then ''-'' else '':'') else [])
     @ (case format of
          Base16 \<Rightarrow> base16Encode (hash_data h)
        | Base32 \<Rightarrow> base32EncodeStr (map char_of_byte (hash_data h))
        | Base64 \<Rightarrow> base64Encode (map char_of_byte (hash_data h))
        | SRI \<Rightarrow> base64Encode (map char_of_byte (hash_data h)))"

definition to_sri :: "Hash \<Rightarrow> string" where
  "to_sri h = showHashType (hash_type h) @ ''-'' @ base64Encode (map char_of_byte (hash_data h))"

definition to_base32 :: "Hash \<Rightarrow> string" where
  "to_base32 h = showHashType (hash_type h) @ '':'' @ base32EncodeStr (map char_of_byte (hash_data h))"

definition to_base16 :: "Hash \<Rightarrow> string" where
  "to_base16 h = showHashType (hash_type h) @ '':'' @ base16Encode (hash_data h)"

section \<open>Parsing\<close>

text \<open>The private constructor \<^verbatim>\<open>Hash(rest, type, isSRI)\<close>.\<close>

definition hashOfRest :: "string \<Rightarrow> HashType \<Rightarrow> bool \<Rightarrow> Hash result" where
  "hashOfRest rest type isSRI =
     (let size = regularHashSize type;
          mk = (\<lambda>bytes. \<lparr>hash_data = bytes, hash_type = type\<rparr>)
      in if \<not> isSRI \<and> length rest = base16Size size
         then (case base16Decode rest of
                 Inl _ \<Rightarrow> Inl (BadHash ''invalid base-16 hash'')
               | Inr d \<Rightarrow> Inr (mk d))
         else if \<not> isSRI \<and> length rest = base32Size size
         then bindr (base32Decode rest) (\<lambda>d. Inr (mk (take size d)))
         else if isSRI \<or> length rest = base64Size size
         then bindr (base64Decode rest) (\<lambda>d.
                if length d \<noteq> size then Inl (BadHash ''invalid hash'')
                else Inr (mk (map byte_of_char d)))
         else Inl (BadHash ''hash has wrong length for hash type''))"

definition parseSRI :: "string \<Rightarrow> Hash result" where
  "parseSRI original =
     (case splitPrefixTo original (CHR ''-'') of
        (None, _) \<Rightarrow> Inl (BadHash ''hash is not SRI'')
      | (Some hashRaw, rest) \<Rightarrow>
          bindr (parseHashType hashRaw) (\<lambda>parsedType. hashOfRest rest parsedType True))"

text \<open>The third component is the string with the prefix removed.\<close>

definition getParsedTypeAndSRI :: "string \<Rightarrow> (HashType option \<times> bool \<times> string) result" where
  "getParsedTypeAndSRI rest =
     (case splitPrefixTo rest (CHR '':'') of
        (Some hashRaw, rest') \<Rightarrow> bindr (parseHashType hashRaw) (\<lambda>t. Inr (Some t, False, rest'))
      | (None, _) \<Rightarrow>
          (case splitPrefixTo rest (CHR ''-'') of
             (Some hashRaw, rest') \<Rightarrow> bindr (parseHashType hashRaw) (\<lambda>t. Inr (Some t, True, rest'))
           | (None, _) \<Rightarrow> Inr (None, False, rest)))"

definition parseAnyPrefixed :: "string \<Rightarrow> Hash result" where
  "parseAnyPrefixed original =
     bindr (getParsedTypeAndSRI original) (\<lambda>(optParsedType, isSRI, rest).
       case optParsedType of
         None \<Rightarrow> Inl (BadHash ''hash does not include a type'')
       | Some t \<Rightarrow> hashOfRest rest t isSRI)"

definition parseAny :: "string \<Rightarrow> HashType option \<Rightarrow> Hash result" where
  "parseAny original optType =
     bindr (getParsedTypeAndSRI original) (\<lambda>(optParsedType, isSRI, rest).
       case (optParsedType, optType) of
         (None, None) \<Rightarrow>
           Inl (BadHash ''hash does not include a type, nor is the type otherwise known from context'')
       | (Some p, Some t) \<Rightarrow>
           if p \<noteq> t then Inl (BadHash ''hash should have type'') else hashOfRest rest p isSRI
       | (Some p, None) \<Rightarrow> hashOfRest rest p isSRI
       | (None, Some t) \<Rightarrow> hashOfRest rest t isSRI)"

definition parseNonSRIUnprefixed :: "string \<Rightarrow> HashType \<Rightarrow> Hash result" where
  "parseNonSRIUnprefixed s type = hashOfRest s type False"

definition newHashAllowEmpty :: "string \<Rightarrow> HashType option \<Rightarrow> Hash result" where
  "newHashAllowEmpty hashStr ht =
     (if hashStr = []
      then (case ht of
              None \<Rightarrow> Inl (BadHash ''empty hash requires explicit hash type'')
            | Some t \<Rightarrow> Inr (zeroHash (regularHashSize t) t))
      else parseAny hashStr ht)"

section \<open>Digests and compression\<close>

text \<open>
  \<open>digest\<close> stands for OpenSSL's message digests: the bytes of the digest of a whole input.
\<close>

definition hashString :: "(HashType \<Rightarrow> string \<Rightarrow> byte list) \<Rightarrow> HashType \<Rightarrow> string \<Rightarrow> Hash" where
  "hashString digest ht s = \<lparr>hash_data = digest ht s, hash_type = ht\<rparr>"

fun compressHash_loop :: "nat \<Rightarrow> nat \<Rightarrow> byte list \<Rightarrow> byte list \<Rightarrow> byte list" where
  "compressHash_loop newSize idx h [] = h"
| "compressHash_loop newSize idx h (c # cs) =
     compressHash_loop newSize (idx + 1) (h[idx mod newSize := h ! (idx mod newSize) XOR c]) cs"

definition compressHash :: "Hash \<Rightarrow> nat \<Rightarrow> Hash result" where
  "compressHash hash newSize =
     (if newSize = 0 \<and> hash_data hash \<noteq> [] then Inl (UndefinedBehaviour ''modulo by zero'')
      else Inr \<lparr>hash_data = compressHash_loop newSize 0 (replicate newSize 0) (hash_data hash),
                hash_type = hash_type hash\<rparr>)"

text \<open>\<^verbatim>\<open>operator==\<close> and \<^verbatim>\<open>operator<=>\<close>: the type is not compared.\<close>

definition hash_eq :: "Hash \<Rightarrow> Hash \<Rightarrow> bool" where
  "hash_eq a b = (hash_data a = hash_data b)"

definition hash_less :: "Hash \<Rightarrow> Hash \<Rightarrow> bool" where
  "hash_less a b =
     (if length (hash_data a) = length (hash_data b) then hash_data a < hash_data b
      else length (hash_data a) < length (hash_data b))"

section \<open>Every format reads back\<close>

definition hash_ok :: "Hash \<Rightarrow> bool" where
  "hash_ok h = (length (hash_data h) = regularHashSize (hash_type h))"

lemma parseHashType_show [simp]: "parseHashType (showHashType t) = Inr t"
  by (cases t) (simp_all add: parseHashType_def parseHashTypeOpt_def)

lemma showHashType_chars: "CHR '':'' \<notin> set (showHashType t)" "CHR ''-'' \<notin> set (showHashType t)"
  by (cases t; simp)+

lemma no_separators_base64: "CHR '':'' \<notin> set (base64Encode s)" "CHR ''-'' \<notin> set (base64Encode s)"
  using base64Encode_chars [of s] by (auto simp: base64Chars_def)

lemma hash_sizes_distinct:
  "base32Size (regularHashSize t) \<noteq> base16Size (regularHashSize t)"
  "base64Size (regularHashSize t) \<noteq> base16Size (regularHashSize t)"
  "base64Size (regularHashSize t) \<noteq> base32Size (regularHashSize t)"
  by (cases t; simp add: base16Size_def base32Size_def base64Size_def)+

lemma hash_fields: "\<lparr>hash_data = hash_data h, hash_type = hash_type h\<rparr> = (h :: Hash)"
  by simp

lemma hashOfRest_base16:
  "hash_ok h \<Longrightarrow> hashOfRest (base16Encode (hash_data h)) (hash_type h) False = Inr h"
  by (simp add: hashOfRest_def base16Encode_length hash_ok_def base16Decode_base16Encode)

lemma hashOfRest_base32:
  "hash_ok h \<Longrightarrow> hashOfRest (base32Encode (hash_data h)) (hash_type h) False = Inr h"
  by (simp add: hashOfRest_def base32Encode_length hash_ok_def base32Decode_base32Encode
      hash_sizes_distinct)

lemma hashOfRest_base64:
  "hash_ok h \<Longrightarrow> hashOfRest (base64Encode (map char_of_byte (hash_data h))) (hash_type h) isSRI = Inr h"
  using hash_sizes_distinct [of "hash_type h"]
  by (auto simp: hashOfRest_def base64Encode_length hash_ok_def base64Decode_base64Encode Let_def
      comp_def)

lemmas hashOfRest_simps = hashOfRest_base16 hashOfRest_base32 hashOfRest_base64

lemma getParsedTypeAndSRI_colon [simp]:
  "getParsedTypeAndSRI (showHashType t @ CHR '':'' # rest) = Inr (Some t, False, rest)"
  by (simp add: getParsedTypeAndSRI_def splitPrefixTo_append showHashType_chars)

lemma getParsedTypeAndSRI_dash:
  "CHR '':'' \<notin> set rest \<Longrightarrow>
   getParsedTypeAndSRI (showHashType t @ CHR ''-'' # rest) = Inr (Some t, True, rest)"
  by (simp add: getParsedTypeAndSRI_def splitPrefixTo_None splitPrefixTo_append showHashType_chars)

lemma getParsedTypeAndSRI_none:
  "CHR '':'' \<notin> set rest \<Longrightarrow> CHR ''-'' \<notin> set rest \<Longrightarrow>
   getParsedTypeAndSRI rest = Inr (None, False, rest)"
  by (simp add: getParsedTypeAndSRI_def splitPrefixTo_None)

lemma getParsedTypeAndSRI_to_string:
  "getParsedTypeAndSRI (to_string h format True) =
     Inr (Some (hash_type h), format = SRI,
       case format of
          Base16 \<Rightarrow> base16Encode (hash_data h)
        | Base32 \<Rightarrow> base32Encode (hash_data h)
        | Base64 \<Rightarrow> base64Encode (map char_of_byte (hash_data h))
        | SRI \<Rightarrow> base64Encode (map char_of_byte (hash_data h)))"
  by (cases format)
    (simp_all add: to_string_def base32EncodeStr_def getParsedTypeAndSRI_dash no_separators_base64
      comp_def)

lemma parseAny_to_string:
  assumes "hash_ok h" and "optType = None \<or> optType = Some (hash_type h)"
  shows "parseAny (to_string h format True) optType = Inr h"
  using assms
  by (cases format) (auto simp: parseAny_def getParsedTypeAndSRI_to_string hashOfRest_simps)

interpretation hash_format: codec "\<lambda>h. to_string h format True" "\<lambda>s. parseAny s None" hash_ok
  for format
  by unfold_locales (simp add: parseAny_to_string)

lemma parseAny_wrong_type:
  assumes "t \<noteq> hash_type h"
  shows "parseAny (to_string h format True) (Some t) = Inl (BadHash ''hash should have type'')"
  using assms by (simp add: parseAny_def getParsedTypeAndSRI_to_string)

section \<open>Every parsed hash has the size of its type\<close>

lemma base16Decode_loop_length:
  "base16Decode_loop s = Inr bs \<Longrightarrow> length bs = length s div 2"
  by (induction s arbitrary: bs rule: base16Decode_loop.induct) (auto simp: bindr_eq_Inr_iff)

lemma base32Decode_loop_length: "base32Decode_loop res n cs = Inr bs \<Longrightarrow> length bs = length res"
  by (induction cs arbitrary: res n) (auto simp: Let_def split: option.splits if_splits)

lemma base32Decode_length:
  "base32Decode s = Inr bs \<Longrightarrow> s \<noteq> [] \<Longrightarrow> length bs = (length s - 1) * 5 div 8 + 1"
  unfolding base32Decode_def by (auto dest!: base32Decode_loop_length)

lemma regularHashSize_pos: "regularHashSize t > 0"
  by (cases t) auto

lemma hashOfRest_ok: "hashOfRest rest t isSRI = Inr h \<Longrightarrow> hash_ok h \<and> hash_type h = t"
proof -
  assume parsed: "hashOfRest rest t isSRI = Inr h"
  have b16: "length d = regularHashSize t"
    if "length rest = base16Size (regularHashSize t)" "base16Decode rest = Inr d" for d
    using that base16Decode_loop_length [of rest d]
    by (auto simp: base16Decode_def base16Size_def split: if_splits)
  have b32: "length d = regularHashSize t"
    if "length rest = base32Size (regularHashSize t)" "base32Decode rest = Inr d" for d
  proof -
    have "rest \<noteq> []" using that(1) base32Size_facts(1) [OF regularHashSize_pos [of t]] by auto
    from base32Decode_length [OF that(2) this] show ?thesis
      using that(1) base32Size_facts(2) [OF regularHashSize_pos [of t]] by simp
  qed
  show ?thesis
    using parsed b16 b32
    by (auto simp: hashOfRest_def hash_ok_def Let_def bindr_eq_Inr_iff split: if_splits sum.splits)
qed

lemma parseAny_ok: "parseAny s t = Inr h \<Longrightarrow> hash_ok h \<and> (\<forall>t'. t = Some t' \<longrightarrow> hash_type h = t')"
  by (auto simp: parseAny_def bindr_eq_Inr_iff split: option.splits if_splits dest!: hashOfRest_ok)

lemma parseAnyPrefixed_eq:
  "parseAnyPrefixed s = Inr h \<Longrightarrow> parseAny s None = Inr h"
  by (auto simp: parseAny_def parseAnyPrefixed_def bindr_eq_Inr_iff split: option.splits)

lemma parseAnyPrefixed_base16: "hash_ok h \<Longrightarrow> parseAnyPrefixed (to_base16 h) = Inr h"
  by (simp add: parseAnyPrefixed_def to_base16_def hashOfRest_base16)

lemma parseAnyPrefixed_base32: "hash_ok h \<Longrightarrow> parseAnyPrefixed (to_base32 h) = Inr h"
  by (simp add: parseAnyPrefixed_def to_base32_def base32EncodeStr_def comp_def hashOfRest_base32)

lemma parseSRI_to_sri: "hash_ok h \<Longrightarrow> parseSRI (to_sri h) = Inr h"
  by (simp add: parseSRI_def to_sri_def splitPrefixTo_append showHashType_chars hashOfRest_simps)

section \<open>Compression\<close>

lemma length_compressHash_loop [simp]: "length (compressHash_loop n idx h cs) = length h"
  by (induction n idx h cs rule: compressHash_loop.induct) auto

lemma compressHash_loop_nth:
  assumes "i < n" and "length h = n"
  shows "compressHash_loop n idx h cs ! i =
    foldl (XOR) (h ! i) (map snd (filter (\<lambda>(k, c). k mod n = i) (enumerate idx cs)))"
  using assms
proof (induction n idx h cs rule: compressHash_loop.induct)
  case (2 n idx h c cs)
  have "idx mod n < n" using 2(2) by simp
  with 2 show ?case by (auto simp: nth_list_update)
qed simp

lemma compressHash_bytes:
  assumes "0 < newSize" and "compressHash h newSize = Inr h'"
  shows "length (hash_data h') = newSize \<and> hash_type h' = hash_type h
    \<and> (\<forall>i < newSize. hash_data h' ! i =
         foldl (XOR) 0 (map snd (filter (\<lambda>(k, c). k mod newSize = i) (enumerate 0 (hash_data h)))))"
  using assms by (auto simp: compressHash_def compressHash_loop_nth)

section \<open>Properties\<close>

text \<open>a hash printed with its type in any of the four formats is read back by \<^verbatim>\<open>Hash::parseAny\<close>, whether
  or not the expected type is given.\<close>

theorem hash_print_parse:
  assumes "hash_ok h" and "optType = None \<or> optType = Some (hash_type h)"
  shows "parseAny (to_string h format True) optType = Inr h"
  using assms by (rule parseAny_to_string)

theorem hash_print_parse_witness:
  "hash_ok (zeroHash 16 MD5) \<and> parseAny (to_string (zeroHash 16 MD5) SRI True) None = Inr (zeroHash 16 MD5)"
proof -
  have "hash_ok (zeroHash 16 MD5)" by code_simp
  then show ?thesis using hash_print_parse [of "zeroHash 16 MD5" None SRI] by simp
qed

text \<open>whatever \<^verbatim>\<open>Hash::parseAny\<close> accepts has the number of bytes of its type, and the type that the
  caller asked for.\<close>

theorem hash_parse_sound:
  assumes "parseAny s t = Inr h"
  shows "length (hash_data h) = regularHashSize (hash_type h) \<and> (\<forall>t'. t = Some t' \<longrightarrow> hash_type h = t')"
  using parseAny_ok [OF assms] by (simp add: hash_ok_def)

theorem hash_parse_sound_witness:
  "parseAny (to_string (zeroHash 20 SHA1) Base32 True) (Some SHA1) = Inr (zeroHash 20 SHA1)
   \<and> length (hash_data (zeroHash 20 SHA1)) = 20"
proof -
  have "hash_ok (zeroHash 20 SHA1)" by code_simp
  moreover have "hash_type (zeroHash 20 SHA1) = SHA1" by code_simp
  ultimately have p: "parseAny (to_string (zeroHash 20 SHA1) Base32 True) (Some SHA1) = Inr (zeroHash 20 SHA1)"
    by (intro parseAny_to_string) simp_all
  show ?thesis using hash_parse_sound [OF p] p \<open>hash_type (zeroHash 20 SHA1) = SHA1\<close> by simp
qed

text \<open>a printed hash is rejected with \<^verbatim>\<open>BadHash\<close> when another type is expected.\<close>

theorem hash_type_mismatch:
  assumes "t \<noteq> hash_type h"
  shows "parseAny (to_string h format True) (Some t) = Inl (BadHash ''hash should have type'')"
  using assms by (rule parseAny_wrong_type)

theorem hash_type_mismatch_witness:
  "MD5 \<noteq> hash_type (zeroHash 32 SHA256) \<and>
   parseAny (to_string (zeroHash 32 SHA256) Base16 True) (Some MD5) = Inl (BadHash ''hash should have type'')"
proof -
  have "MD5 \<noteq> hash_type (zeroHash 32 SHA256)" by code_simp
  then show ?thesis using hash_type_mismatch by blast
qed

text \<open>\<^verbatim>\<open>compressHash\<close> yields a hash of the requested size in which byte \<open>i\<close> is the exclusive or of all
  bytes of the hash at positions congruent to \<open>i\<close>.\<close>

theorem compressHash_xor:
  assumes "0 < newSize" and "compressHash h newSize = Inr h'"
  shows "length (hash_data h') = newSize \<and> hash_type h' = hash_type h
    \<and> (\<forall>i < newSize. hash_data h' ! i =
         foldl (XOR) 0 (map snd (filter (\<lambda>(k, c). k mod newSize = i) (enumerate 0 (hash_data h)))))"
  using assms by (rule compressHash_bytes)

theorem compressHash_xor_witness:
  "compressHash \<lparr>hash_data = [1, 2, 4], hash_type = MD5\<rparr> 2 = Inr \<lparr>hash_data = [5, 2], hash_type = MD5\<rparr>
   \<and> length (hash_data \<lparr>hash_data = [5, 2], hash_type = MD5\<rparr>) = 2"
proof -
  have c: "compressHash \<lparr>hash_data = [1, 2, 4], hash_type = MD5\<rparr> 2 = Inr \<lparr>hash_data = [5, 2], hash_type = MD5\<rparr>"
    by code_simp
  show ?thesis using compressHash_xor [OF _ c] c by simp
qed

end
