(* ===== verification/Lix_Canon_Path.thy ===== *)
theory Lix_Canon_Path
  imports Lix_Strings
begin

text \<open>
  Lexical path handling: \<^verbatim>\<open>canonPath\<close>, \<^verbatim>\<open>absPath\<close>, \<^verbatim>\<open>dirOf\<close>, \<^verbatim>\<open>baseNameOf\<close> and the
  directory tests of \<^verbatim>\<open>src/lix/libutil/file-system.cc\<close>, and the class \<^verbatim>\<open>CanonPath\<close>
  (\<^verbatim>\<open>canon-path.cc\<close>, \<^verbatim>\<open>canon-path.hh\<close>).

  The file system that \<^verbatim>\<open>isLink\<close> and \<^verbatim>\<open>readLink\<close> consult is a parameter \<open>lookup\<close>: an error of
  \<^verbatim>\<open>lstat\<close>, or whether the path is a symbolic link and to what.
\<close>

abbreviation slash :: char where
  "slash \<equiv> CHR ''/''"

section \<open>Paths as strings\<close>

text \<open>The part of \<open>s\<close> before its last slash, which must exist (\<^verbatim>\<open>s.erase(s.rfind('/'))\<close>).\<close>

definition before_last_slash :: "string \<Rightarrow> string" where
  "before_last_slash s = rev (tl (dropWhile (\<lambda>c. c \<noteq> slash) (rev s)))"

definition after_last_slash :: "string \<Rightarrow> string" where
  "after_last_slash s = rev (takeWhile (\<lambda>c. c \<noteq> slash) (rev s))"

definition dirOf :: "string \<Rightarrow> string" where
  "dirOf path =
     (if slash \<notin> set path then ''.''
      else if before_last_slash path = [] then ''/''
      else before_last_slash path)"

text \<open>
  \<^verbatim>\<open>baseNameOf\<close>: trailing slashes are skipped, but never the first character.
\<close>

fun strip_trailing_slashes :: "string \<Rightarrow> string" where
  "strip_trailing_slashes [] = []"
| "strip_trailing_slashes (c # cs) = c # rev (dropWhile (\<lambda>c. c = slash) (rev cs))"

definition baseNameOf :: "string \<Rightarrow> string" where
  "baseNameOf path =
     (if path = [] then [] else after_last_slash (strip_trailing_slashes path))"

definition isInDir :: "string \<Rightarrow> string \<Rightarrow> bool" where
  "isInDir path dir =
     (take 1 path = ''/'' \<and> take (length dir) path = dir
      \<and> length path \<ge> length dir + 2 \<and> path ! length dir = slash)"

definition isDirOrInDir :: "string \<Rightarrow> string \<Rightarrow> bool" where
  "isDirOrInDir path dir = (path = dir \<or> isInDir path dir)"

definition maxFollow :: nat where
  "maxFollow = 1024"

text \<open>
  The loop of \<^verbatim>\<open>canonPath\<close>: \<open>s\<close> is the output so far, \<open>path\<close> the unread rest, \<open>followCount\<close>
  the symbolic links followed. Its termination needs the limit: a link may make the rest longer.
\<close>

function canonPath_loop ::
    "(string \<Rightarrow> string option result) \<Rightarrow> bool \<Rightarrow> string \<Rightarrow> string \<Rightarrow> nat \<Rightarrow> string result" where
  "canonPath_loop lookup resolveSymlinks s path followCount =
     (let path = dropWhile (\<lambda>c. c = slash) path
      in if path = [] then Inr s
         else if path = ''.'' \<or> take 2 path = ''./''
         then canonPath_loop lookup resolveSymlinks s (drop 1 path) followCount
         else if path = ''..'' \<or> take 3 path = ''../''
         then canonPath_loop lookup resolveSymlinks
                (if s \<noteq> [] then before_last_slash s else s) (drop 2 path) followCount
         else (let s = s @ slash # takeWhile (\<lambda>c. c \<noteq> slash) path;
                   path = dropWhile (\<lambda>c. c \<noteq> slash) path
               in case (if resolveSymlinks then lookup s else Inr None) of
                    Inl e \<Rightarrow> Inl e
                  | Inr None \<Rightarrow> canonPath_loop lookup resolveSymlinks s path followCount
                  | Inr (Some target) \<Rightarrow>
                      if followCount + 1 \<ge> maxFollow
                      then Inl (Error ''infinite symlink recursion in path'')
                      else (let temp = target @ path
                            in if temp \<noteq> [] \<and> hd temp = slash
                               then canonPath_loop lookup resolveSymlinks [] temp (followCount + 1)
                               else canonPath_loop lookup resolveSymlinks
                                      (if dirOf s = ''/'' then [] else dirOf s) temp
                                      (followCount + 1))))"
  by pat_completeness auto
termination
proof (relation "measures [\<lambda>(_, _, _, _, n). maxFollow - n, \<lambda>(_, _, _, path, _). length path]",
    goal_cases)
  case (2 lookup resolve s path n rest)
  have "0 < length rest" "length rest \<le> length path"
    using 2(1,2) length_dropWhile_le [of "\<lambda>c. c = slash" path] by (simp_all only: length_greater_0_conv not_False_eq_True)
  then show ?case by (cases rest) auto
next
  case (3 lookup resolve s path n rest)
  have "0 < length rest" "length rest \<le> length path"
    using 3(1,2) length_dropWhile_le [of "\<lambda>c. c = slash" path] by (simp_all only: length_greater_0_conv not_False_eq_True)
  then show ?case by (cases rest) auto
next
  case (4 lookup resolve s path n rest)
  have "hd rest \<noteq> slash" using 4(1,2) hd_dropWhile [of "\<lambda>c. c = slash" path] by simp
  then have "length (dropWhile (\<lambda>c. c \<noteq> slash) rest) < length rest"
    using 4(2) length_dropWhile_le [of "\<lambda>c. c \<noteq> slash" "tl rest"] by (cases rest) auto
  then show ?case using 4 length_dropWhile_le [of "\<lambda>c. c = slash" path] by simp
qed (auto simp: maxFollow_def)

declare canonPath_loop.simps [simp del]

definition canonPath :: "(string \<Rightarrow> string option result) \<Rightarrow> string \<Rightarrow> bool \<Rightarrow> string result" where
  "canonPath lookup path resolveSymlinks =
     (if path = [] \<or> hd path \<noteq> slash then Inl (Error ''not an absolute path'')
      else bindr (canonPath_loop lookup resolveSymlinks [] path 0)
             (\<lambda>s. Inr (if s = [] then ''/'' else s)))"

text \<open>\<open>cwd\<close> is the value of \<^verbatim>\<open>getCwd\<close>, used when no directory is given.\<close>

definition absPath ::
    "(string \<Rightarrow> string option result) \<Rightarrow> string \<Rightarrow> string \<Rightarrow> string option \<Rightarrow> bool \<Rightarrow> string result" where
  "absPath lookup cwd path dir resolveSymlinks =
     canonPath lookup
       (if path = [] \<or> hd path \<noteq> slash
        then (case dir of
                None \<Rightarrow> concatStringsSep [] [cwd, ''/'', path]
              | Some d \<Rightarrow> concatStringsSep [] [d, ''/'', path])
        else path)
       resolveSymlinks"

section \<open>The class CanonPath\<close>

record CanonPath =
  cpath :: string

definition no_links :: "string \<Rightarrow> string option result" where
  "no_links s = Inr None"

definition canonPathOf :: "string \<Rightarrow> CanonPath result" where
  "canonPathOf raw = bindr (absPath no_links [] raw (Some ''/'') False) (\<lambda>p. Inr \<lparr>cpath = p\<rparr>)"

definition canonPathUnder :: "string \<Rightarrow> CanonPath \<Rightarrow> CanonPath result" where
  "canonPathUnder raw root =
     bindr (absPath no_links [] raw (Some (cpath root)) False) (\<lambda>p. Inr \<lparr>cpath = p\<rparr>)"

definition isRoot :: "CanonPath \<Rightarrow> bool" where
  "isRoot p = (length (cpath p) \<le> 1)"

definition rel :: "CanonPath \<Rightarrow> string" where
  "rel p = drop 1 (cpath p)"

definition cp_parent :: "CanonPath \<Rightarrow> CanonPath option" where
  "cp_parent p =
     (if isRoot p then None
      else Some \<lparr>cpath = take (max 1 (length (before_last_slash (cpath p)))) (cpath p)\<rparr>)"

definition cp_baseName :: "CanonPath \<Rightarrow> string option" where
  "cp_baseName p = (if isRoot p then None else Some (after_last_slash (cpath p)))"

definition cp_extend :: "CanonPath \<Rightarrow> CanonPath \<Rightarrow> CanonPath" where
  "cp_extend p x =
     (if isRoot x then p
      else if isRoot p then \<lparr>cpath = cpath p @ rel x\<rparr>
      else \<lparr>cpath = cpath p @ cpath x\<rparr>)"

definition cp_push :: "CanonPath \<Rightarrow> string \<Rightarrow> CanonPath result" where
  "cp_push p c =
     (if slash \<in> set c then Inl (AssertionFailed ''c.find(slash) == c.npos'')
      else if c = ''.'' \<or> c = ''..'' then Inl (AssertionFailed ''c is not . or ..'')
      else Inr \<lparr>cpath = (if \<not> isRoot p then cpath p @ ''/'' else cpath p) @ c\<rparr>)"

text \<open>The iterator: the components from \<open>remaining\<close> on, until nothing is left.\<close>

function cp_iterate :: "string \<Rightarrow> string list" where
  "cp_iterate remaining =
     (if remaining = [] then []
      else takeWhile (\<lambda>c. c \<noteq> slash) remaining
           # (case dropWhile (\<lambda>c. c \<noteq> slash) remaining of
                [] \<Rightarrow> []
              | _ # rest \<Rightarrow> cp_iterate rest))"
  by pat_completeness auto
termination
proof (relation "measure length", goal_cases)
  case (2 remaining c rest)
  then show ?case using length_dropWhile_le [of "\<lambda>c. c \<noteq> slash" remaining] by simp
qed simp

declare cp_iterate.simps [simp del]

definition cp_components :: "CanonPath \<Rightarrow> string list" where
  "cp_components p = cp_iterate (rel p)"

text \<open>
  \<^verbatim>\<open>operator<\<close> compares values of type \<^verbatim>\<open>char\<close>, whose signedness depends on the platform.
\<close>

definition char_value :: "bool \<Rightarrow> char \<Rightarrow> int" where
  "char_value sgnd c = (if sgnd then sint (byte_of_char c) else uint (byte_of_char c))"

fun cp_less_loop :: "bool \<Rightarrow> string \<Rightarrow> string \<Rightarrow> bool" where
  "cp_less_loop sgnd [] js = (js \<noteq> [])"
| "cp_less_loop sgnd (i # is) [] = False"
| "cp_less_loop sgnd (i # is) (j # js) =
     (let ci = (if i = slash then 0 else char_value sgnd i);
          cj = (if j = slash then 0 else char_value sgnd j)
      in if ci < cj then True else if ci > cj then False else cp_less_loop sgnd is js)"

definition cp_less :: "bool \<Rightarrow> CanonPath \<Rightarrow> CanonPath \<Rightarrow> bool" where
  "cp_less sgnd p x = cp_less_loop sgnd (cpath p) (cpath x)"

section \<open>Canonical paths\<close>

text \<open>
  The specification works on lists of components: \<open>norm_comps\<close> drops \<open>.\<close> and lets \<open>..\<close>
  delete the component before it, \<open>render\<close> writes the list as a path.
\<close>

definition render :: "string list \<Rightarrow> string" where
  "render cs = concat (map (\<lambda>c. slash # c) cs)"

definition render_path :: "string list \<Rightarrow> string" where
  "render_path cs = (if cs = [] then ''/'' else render cs)"

fun norm_comps :: "string list \<Rightarrow> string list \<Rightarrow> string list" where
  "norm_comps st [] = st"
| "norm_comps st (c # cs) =
     (if c = ''.'' then norm_comps st cs
      else if c = ''..'' then norm_comps (butlast st) cs
      else norm_comps (st @ [c]) cs)"

definition comp_ok :: "string \<Rightarrow> bool" where
  "comp_ok c = (c \<noteq> [] \<and> slash \<notin> set c \<and> c \<noteq> ''.'' \<and> c \<noteq> ''..'')"

definition canonical :: "string \<Rightarrow> bool" where
  "canonical p =
     (let cs = tokenizeString p ''/'' in list_all comp_ok cs \<and> p = render_path cs)"

lemma render_simps [simp]:
  "render [] = []" "render (c # cs) = slash # c @ render cs" "render (as @ bs) = render as @ render bs"
  by (simp_all add: render_def)

lemma render_eq_Nil [simp]: "render cs = [] \<longleftrightarrow> cs = []"
  by (cases cs) auto

lemma hd_render: "cs \<noteq> [] \<Longrightarrow> hd (render cs) = slash"
  by (cases cs) auto

lemma render_not_root: "list_all comp_ok cs \<Longrightarrow> render cs \<noteq> ''/''"
  by (cases cs) (auto simp: comp_ok_def)

lemma list_all_butlast: "list_all P xs \<Longrightarrow> list_all P (butlast xs)"
  by (auto simp: list_all_iff dest: in_set_butlastD)

lemma comp_ok_slash: "comp_ok c \<Longrightarrow> slash \<notin> set c"
  by (simp add: comp_ok_def)

lemma last_slash_simps:
  assumes "slash \<notin> set c"
  shows "before_last_slash (p @ slash # c) = p" "after_last_slash (p @ slash # c) = c"
  using assms by (simp_all add: before_last_slash_def after_last_slash_def takeWhile_append dropWhile_append)

lemma before_last_slash_render:
  assumes "list_all comp_ok cs" and "cs \<noteq> []"
  shows "before_last_slash (render cs) = render (butlast cs)"
proof -
  obtain as c where cs: "cs = as @ [c]" using assms(2) by (metis rev_exhaust)
  then show ?thesis using assms(1) by (simp add: last_slash_simps comp_ok_slash)
qed

lemma dirOf_render:
  assumes "list_all comp_ok cs" and "cs \<noteq> []"
  shows "(if dirOf (render cs) = ''/'' then [] else dirOf (render cs)) = render (butlast cs)"
proof -
  have "slash \<in> set (render cs)" using assms(2) by (cases cs) auto
  moreover have "render (butlast cs) \<noteq> ''/''"
    using assms(1) by (intro render_not_root list_all_butlast)
  ultimately show ?thesis using before_last_slash_render [OF assms] by (simp add: dirOf_def)
qed

lemma tokenizeString_render:
  "list_all comp_ok cs \<Longrightarrow> tokenizeString (render cs) ''/'' = cs"
proof (induction cs)
  case (Cons c cs)
  have "tokenizeString (c @ render cs) ''/'' = c # tokenizeString (render cs) ''/''"
    by (rule tokenizeString_token) (use Cons.prems hd_render in \<open>auto simp: comp_ok_def\<close>)
  with Cons show ?case by (simp add: tokenizeString_skip)
qed simp

lemma tokenizeString_render_path:
  "list_all comp_ok cs \<Longrightarrow> tokenizeString (render_path cs) ''/'' = cs"
  by (simp add: render_path_def tokenizeString_render tokenizeString_skip)

lemma canonical_render_path: "list_all comp_ok cs \<Longrightarrow> canonical (render_path cs)"
  by (simp add: canonical_def tokenizeString_render_path)

lemma canonicalE:
  assumes "canonical p"
  obtains cs where "list_all comp_ok cs" "p = render_path cs"
  using assms unfolding canonical_def by (metis (full_types))

lemma canonical_starts_with_slash: "canonical p \<Longrightarrow> p \<noteq> [] \<and> hd p = slash"
  by (elim canonicalE) (auto simp: render_path_def hd_render)

section \<open>canonPath implements the specification\<close>

text \<open>One round of the loop, by the component at its front.\<close>

lemma next_component:
  assumes "path = dropWhile (\<lambda>c. c = slash) raw" and "path \<noteq> []"
  obtains t r where "path = t @ r" "t \<noteq> []" "slash \<notin> set t" "r \<noteq> [] \<longrightarrow> hd r = slash"
    "tokenizeString raw ''/'' = t # tokenizeString r ''/''"
    "t = takeWhile (\<lambda>c. c \<noteq> slash) path" "r = dropWhile (\<lambda>c. c \<noteq> slash) path"
proof -
  define t where "t = takeWhile (\<lambda>c. c \<noteq> slash) path"
  define r where "r = dropWhile (\<lambda>c. c \<noteq> slash) path"
  have split: "path = t @ r" by (simp add: t_def r_def)
  have "hd path \<noteq> slash" using assms hd_dropWhile [of "\<lambda>c. c = slash" raw] by auto
  then have t: "t \<noteq> []" using assms(2) by (cases path) (auto simp: t_def)
  have ts: "slash \<notin> set t" by (auto simp: t_def dest: set_takeWhileD)
  have r: "r \<noteq> [] \<longrightarrow> hd r = slash"
    using hd_dropWhile [of "\<lambda>c. c \<noteq> slash" path] by (auto simp: r_def)
  have "tokenizeString raw ''/'' = tokenizeString path ''/''"
    using assms by (subst (1 2) tokenizeString.simps) (simp add: dropWhile_idem)
  also have "\<dots> = t # tokenizeString r ''/''"
    unfolding split by (rule tokenizeString_token) (use t ts r in auto)
  finally show thesis using that split t ts r t_def r_def by blast
qed

lemma dot_cases:
  assumes "slash \<notin> set t" and "t \<noteq> []" and "r \<noteq> [] \<longrightarrow> hd r = slash"
  shows "(t @ r = ''.'' \<or> take 2 (t @ r) = ''./'') \<longleftrightarrow> t = ''.''"
    and "(t @ r = ''..'' \<or> take 3 (t @ r) = ''../'') \<longleftrightarrow> t = ''..''"
proof -
  obtain a t' where t: "t = a # t'" using assms(2) by (cases t) auto
  show "(t @ r = ''.'' \<or> take 2 (t @ r) = ''./'') \<longleftrightarrow> t = ''.''"
    using assms t by (cases t'; cases r) (auto simp: numeral_2_eq_2)
  show "(t @ r = ''..'' \<or> take 3 (t @ r) = ''../'') \<longleftrightarrow> t = ''..''"
  proof (cases t')
    case Nil
    then show ?thesis using assms t by (cases r; cases "tl r") (auto simp: numeral_3_eq_3)
  next
    case (Cons b t'')
    then show ?thesis using assms t by (cases t''; cases r) (auto simp: numeral_3_eq_3)
  qed
qed

lemma canonPath_loop_step:
  assumes "path = dropWhile (\<lambda>c. c = slash) raw" and "path \<noteq> []"
    and "path = t @ r" "t \<noteq> []" "slash \<notin> set t" "r \<noteq> [] \<longrightarrow> hd r = slash"
    and "t = takeWhile (\<lambda>c. c \<noteq> slash) path" "r = dropWhile (\<lambda>c. c \<noteq> slash) path"
  shows "canonPath_loop lookup res s raw n =
    (if t = ''.'' then canonPath_loop lookup res s r n
     else if t = ''..''
     then canonPath_loop lookup res (if s \<noteq> [] then before_last_slash s else s) r n
     else (case (if res then lookup (s @ slash # t) else Inr None) of
             Inl e \<Rightarrow> Inl e
           | Inr None \<Rightarrow> canonPath_loop lookup res (s @ slash # t) r n
           | Inr (Some target) \<Rightarrow>
               if n + 1 \<ge> maxFollow then Inl (Error ''infinite symlink recursion in path'')
               else if target @ r \<noteq> [] \<and> hd (target @ r) = slash
               then canonPath_loop lookup res [] (target @ r) (n + 1)
               else canonPath_loop lookup res
                 (if dirOf (s @ slash # t) = ''/'' then [] else dirOf (s @ slash # t))
                 (target @ r) (n + 1)))"
proof -
  note dots = dot_cases [OF assms(5,4,6)]
  have drops: "t = ''.'' \<Longrightarrow> drop 1 path = r" "t = ''..'' \<Longrightarrow> drop 2 path = r"
    using assms(3) by auto
  show ?thesis
    unfolding canonPath_loop.simps [of lookup res s raw n] Let_def assms(1) [symmetric]
    using assms(2) dots drops
    by (simp only: assms(3) [symmetric] assms(7) [symmetric] assms(8) [symmetric] if_False
        not_False_eq_True if_True split: if_split) simp
qed

lemma canonPath_loop_end:
  "dropWhile (\<lambda>c. c = slash) raw = [] \<Longrightarrow> canonPath_loop lookup res s raw n = Inr s"
  by (subst canonPath_loop.simps) simp

lemma list_all_norm_comps:
  "list_all comp_ok st \<Longrightarrow> \<forall>c \<in> set cs. c \<noteq> [] \<and> slash \<notin> set c \<Longrightarrow> list_all comp_ok (norm_comps st cs)"
  by (induction st cs rule: norm_comps.induct) (auto simp: comp_ok_def list_all_butlast)

lemma tokens_slash_free: "t \<in> set (tokenizeString s ''/'') \<Longrightarrow> t \<noteq> [] \<and> slash \<notin> set t"
  using tokenizeString_tokens [of s "''/''"] by auto

lemma canonPath_loop_refines:
  assumes "list_all comp_ok st"
  shows "canonPath_loop lookup False (render st) raw n =
    Inr (render (norm_comps st (tokenizeString raw ''/'')))"
  using assms
proof (induction "length raw" arbitrary: raw st rule: less_induct)
  case less
  define path where "path = dropWhile (\<lambda>c. c = slash) raw"
  show ?case
  proof (cases "path = []")
    case True
    then have "tokenizeString raw ''/'' = []"
      unfolding path_def by (subst tokenizeString.simps) simp
    with True show ?thesis unfolding path_def by (simp add: canonPath_loop_end)
  next
    case False
    obtain t r where n: "path = t @ r" "t \<noteq> []" "slash \<notin> set t" "r \<noteq> [] \<longrightarrow> hd r = slash"
      "tokenizeString raw ''/'' = t # tokenizeString r ''/''"
      "t = takeWhile (\<lambda>c. c \<noteq> slash) path" "r = dropWhile (\<lambda>c. c \<noteq> slash) path"
      using next_component [OF path_def False] by blast
    have shorter: "length r < length raw"
      using n(1,2) length_dropWhile_le [of "\<lambda>c. c = slash" raw] unfolding path_def by (cases t) auto
    note step = canonPath_loop_step [OF path_def False n(1-4) n(6,7), of lookup False "render st"]
    have pop: "(if render st \<noteq> [] then before_last_slash (render st) else render st) = render (butlast st)"
      using less.prems by (simp add: before_last_slash_render)
    have push: "render st @ slash # t = render (st @ [t])" by simp
    have "t \<noteq> ''.'' \<Longrightarrow> t \<noteq> ''..'' \<Longrightarrow> list_all comp_ok (st @ [t])"
      using less.prems n(2,3) by (simp add: comp_ok_def)
    then show ?thesis
      unfolding step pop push n(5)
      using less.hyps [OF shorter less.prems] less.hyps [OF shorter list_all_butlast [OF less.prems]]
        less.hyps [OF shorter, of "st @ [t]"] by auto
  qed
qed

lemma canonPath_refines:
  "path \<noteq> [] \<Longrightarrow> hd path = slash \<Longrightarrow>
   canonPath lookup path False = Inr (render_path (norm_comps [] (tokenizeString path ''/'')))"
  using canonPath_loop_refines [of "[]" lookup path 0]
  by (simp add: canonPath_def render_path_def)

lemma norm_comps_canonical: "list_all comp_ok (st @ cs) \<Longrightarrow> norm_comps st cs = st @ cs"
  by (induction st cs rule: norm_comps.induct) (auto simp: comp_ok_def)

lemma canonPath_id: "canonical p \<Longrightarrow> canonPath lookup p False = Inr p"
proof -
  assume c: "canonical p"
  then obtain cs where cs: "list_all comp_ok cs" "p = render_path cs" by (rule canonicalE)
  have "canonPath lookup p False = Inr (render_path (norm_comps [] (tokenizeString p ''/'')))"
    using canonical_starts_with_slash [OF c] by (intro canonPath_refines) auto
  also have "norm_comps [] (tokenizeString p ''/'') = cs"
    using cs norm_comps_canonical [of "[]" cs] by (simp add: tokenizeString_render_path)
  finally show ?thesis using cs by simp
qed

text \<open>
  With links the result is still canonical, whatever the file system answers: each round keeps
  the output a rendering of well-formed components.
\<close>

lemma canonPath_loop_canonical:
  assumes "list_all comp_ok st" and "canonPath_loop lookup res (render st) raw n = Inr p"
  shows "\<exists>cs. list_all comp_ok cs \<and> p = render cs"
  using assms
proof (induction "(maxFollow - n, length raw)" arbitrary: raw st n
    rule: wf_induct_rule [OF wf_lex_prod [OF wf_less_than wf_less_than]])
  case 1
  define path where "path = dropWhile (\<lambda>c. c = slash) raw"
  show ?case
  proof (cases "path = []")
    case True
    then show ?thesis using 1(2,3) unfolding path_def by (auto simp: canonPath_loop_end)
  next
    case False
    obtain t r where n: "path = t @ r" "t \<noteq> []" "slash \<notin> set t" "r \<noteq> [] \<longrightarrow> hd r = slash"
      "t = takeWhile (\<lambda>c. c \<noteq> slash) path" "r = dropWhile (\<lambda>c. c \<noteq> slash) path"
      using next_component [OF path_def False] by blast
    have shorter: "length r < length raw"
      using n(1,2) length_dropWhile_le [of "\<lambda>c. c = slash" raw] unfolding path_def by (cases t) auto
    have push: "render st @ slash # t = render (st @ [t])" by simp
    have pop: "(if render st \<noteq> [] then before_last_slash (render st) else render st) = render (butlast st)"
      using 1(2) by (simp add: before_last_slash_render)
    have ok: "t \<noteq> ''.'' \<Longrightarrow> t \<noteq> ''..'' \<Longrightarrow> list_all comp_ok (st @ [t])"
      using 1(2) n(2,3) by (simp add: comp_ok_def)
    have dir: "t \<noteq> ''.'' \<Longrightarrow> t \<noteq> ''..'' \<Longrightarrow>
        (if dirOf (render (st @ [t])) = ''/'' then [] else dirOf (render (st @ [t]))) = render st"
      using dirOf_render [OF ok] by (simp only: butlast_snoc snoc_eq_iff_butlast) simp
    have shorter_IH: "list_all comp_ok st' \<Longrightarrow>
        canonPath_loop lookup res (render st') r n = Inr p \<Longrightarrow> ?thesis" for st'
      using 1(1) [of n r st'] shorter by auto
    have follow_IH: "n + 1 < maxFollow \<Longrightarrow> list_all comp_ok st' \<Longrightarrow>
        canonPath_loop lookup res (render st') raw' (n + 1) = Inr p \<Longrightarrow> ?thesis" for st' raw'
    proof -
      assume "n + 1 < maxFollow"
      then have "maxFollow - (n + 1) < maxFollow - n" by linarith
      then show "list_all comp_ok st' \<Longrightarrow>
          canonPath_loop lookup res (render st') raw' (n + 1) = Inr p \<Longrightarrow> ?thesis"
        using 1(1) [of "n + 1" raw' st'] by auto
    qed
    note run = 1(3) [unfolded canonPath_loop_step [OF path_def False n(1-6)] pop push]
    show ?thesis
    proof (cases "t = ''.'' \<or> t = ''..''")
      case True
      then show ?thesis
        using run shorter_IH [of st] shorter_IH [of "butlast st"] 1(2) list_all_butlast
        by (auto split: if_splits)
    next
      case False
      then show ?thesis
        using run ok dir shorter_IH [of "st @ [t]"] follow_IH [of "[]"] follow_IH [of st] 1(2)
        by (auto simp del: render_simps(2,3) split: sum.splits option.splits if_splits)
    qed
  qed
qed

lemma canonPath_canonical: "canonPath lookup path res = Inr p \<Longrightarrow> canonical p"
proof -
  assume "canonPath lookup path res = Inr p"
  then obtain s where s: "canonPath_loop lookup res [] path 0 = Inr s" "p = (if s = [] then ''/'' else s)"
    unfolding canonPath_def by (cases "canonPath_loop lookup res [] path 0") (auto split: if_splits)
  then obtain cs where "list_all comp_ok cs" "s = render cs"
    using canonPath_loop_canonical [of "[]" lookup res path 0] by auto
  with s(2) have "p = render_path cs" by (simp add: render_path_def)
  with canonical_render_path [OF \<open>list_all comp_ok cs\<close>] show "canonical p" by simp
qed

section \<open>The operations of CanonPath on components\<close>

text \<open>
  The contract of a canonical path: it is determined by its components, and each operation acts
  on them as its name says. What follows from the contract alone is proved once.
\<close>

locale path_ops =
  fixes inv :: "'p \<Rightarrow> bool"
    and comps :: "'p \<Rightarrow> string list"
    and extend :: "'p \<Rightarrow> 'p \<Rightarrow> 'p"
    and push :: "'p \<Rightarrow> string \<Rightarrow> 'p result"
    and parent :: "'p \<Rightarrow> 'p option"
    and base :: "'p \<Rightarrow> string option"
  assumes comps_inj: "inv p \<Longrightarrow> inv q \<Longrightarrow> comps p = comps q \<Longrightarrow> p = q"
    and comps_ok: "inv p \<Longrightarrow> list_all comp_ok (comps p)"
    and extend_inv: "inv p \<Longrightarrow> inv q \<Longrightarrow> inv (extend p q)"
    and extend_comps: "inv p \<Longrightarrow> inv q \<Longrightarrow> comps (extend p q) = comps p @ comps q"
    and push_comps: "inv p \<Longrightarrow> comp_ok c \<Longrightarrow> \<exists>q. push p c = Inr q \<and> inv q \<and> comps q = comps p @ [c]"
    and parent_comps: "inv p \<Longrightarrow> (case parent p of None \<Rightarrow> comps p = []
          | Some q \<Rightarrow> comps p \<noteq> [] \<and> inv q \<and> comps q = butlast (comps p))"
    and base_comps: "inv p \<Longrightarrow> base p = (if comps p = [] then None else Some (last (comps p)))"
begin

lemma extend_assoc:
  "inv p \<Longrightarrow> inv q \<Longrightarrow> inv r \<Longrightarrow> extend (extend p q) r = extend p (extend q r)"
  by (rule comps_inj) (simp_all add: extend_inv extend_comps)

lemma parent_push:
  assumes "inv p" and "comp_ok c"
  shows "\<exists>q. push p c = Inr q \<and> parent q = Some p \<and> base q = Some c"
proof -
  obtain q where q: "push p c = Inr q" "inv q" "comps q = comps p @ [c]"
    using push_comps [OF assms] by blast
  obtain r where r: "parent q = Some r" "inv r" "comps r = comps p"
    using parent_comps [OF q(2)] q(3) by (cases "parent q") auto
  have "r = p" using comps_inj [OF r(2) assms(1) r(3)] .
  then show ?thesis using q r base_comps [OF q(2)] by simp
qed

lemma push_parent:
  assumes "inv p" and "parent p = Some q"
  shows "\<exists>c. base p = Some c \<and> push q c = Inr p"
proof -
  have ne: "comps p \<noteq> []" and q: "inv q" "comps q = butlast (comps p)"
    using parent_comps [OF assms(1)] assms(2) by auto
  have c: "comp_ok (last (comps p))"
    using comps_ok [OF assms(1)] ne by (simp add: list_all_iff)
  obtain p' where p': "push q (last (comps p)) = Inr p'" "inv p'" "comps p' = comps p"
    using push_comps [OF q(1) c] q(2) ne by auto
  have "p' = p" using comps_inj [OF p'(2) assms(1) p'(3)] .
  then show ?thesis using p'(1) base_comps [OF assms(1)] ne by simp
qed

end

definition cp_inv :: "CanonPath \<Rightarrow> bool" where
  "cp_inv p = canonical (cpath p)"

definition cp_comps :: "CanonPath \<Rightarrow> string list" where
  "cp_comps p = tokenizeString (cpath p) ''/''"

lemma cp_invE:
  assumes "cp_inv p"
  obtains cs where "list_all comp_ok cs" "p = \<lparr>cpath = render_path cs\<rparr>" "cp_comps p = cs"
  using assms unfolding cp_inv_def
  by (elim canonicalE) (metis CanonPath.cases CanonPath.select_convs(1) cp_comps_def tokenizeString_render_path)

lemma cp_inv_render: "list_all comp_ok cs \<Longrightarrow> cp_inv \<lparr>cpath = render_path cs\<rparr>"
  by (simp add: cp_inv_def canonical_render_path)

lemma cp_comps_render: "list_all comp_ok cs \<Longrightarrow> cp_comps \<lparr>cpath = render_path cs\<rparr> = cs"
  by (simp add: cp_comps_def tokenizeString_render_path)

lemma isRoot_render: "list_all comp_ok cs \<Longrightarrow> isRoot \<lparr>cpath = render_path cs\<rparr> \<longleftrightarrow> cs = []"
  by (cases cs) (auto simp: isRoot_def render_path_def comp_ok_def)

lemma cp_extend_render:
  "list_all comp_ok cs \<Longrightarrow> list_all comp_ok ds \<Longrightarrow>
   cp_extend \<lparr>cpath = render_path cs\<rparr> \<lparr>cpath = render_path ds\<rparr> = \<lparr>cpath = render_path (cs @ ds)\<rparr>"
  by (cases ds; cases cs) (auto simp: cp_extend_def isRoot_def rel_def render_path_def comp_ok_def)

lemma cp_push_render:
  "list_all comp_ok cs \<Longrightarrow> comp_ok c \<Longrightarrow>
   cp_push \<lparr>cpath = render_path cs\<rparr> c = Inr \<lparr>cpath = render_path (cs @ [c])\<rparr>"
  by (cases cs) (auto simp: cp_push_def isRoot_def render_path_def comp_ok_def)

lemma cp_parent_render:
  assumes "list_all comp_ok cs" and "cs \<noteq> []"
  shows "cp_parent \<lparr>cpath = render_path cs\<rparr> = Some \<lparr>cpath = render_path (butlast cs)\<rparr>"
proof -
  obtain as c where cs: "cs = as @ [c]" using assms(2) by (metis rev_exhaust)
  then have "before_last_slash (render as @ slash # c) = render as"
    using assms(1) by (simp add: last_slash_simps comp_ok_slash)
  moreover have "max 1 (length (render as)) = (if as = [] then 1 else length (render as))"
    by (cases as) auto
  ultimately show ?thesis using assms
    by (auto simp: cp_parent_def isRoot_render cs) (auto simp: render_path_def)
qed

lemma cp_baseName_render:
  assumes "list_all comp_ok cs" and "cs \<noteq> []"
  shows "cp_baseName \<lparr>cpath = render_path cs\<rparr> = Some (last cs)"
proof -
  obtain as c where cs: "cs = as @ [c]" using assms(2) by (metis rev_exhaust)
  then show ?thesis using assms
    by (auto simp: cp_baseName_def isRoot_def render_path_def last_slash_simps comp_ok_def)
qed

lemma cp_root_simps:
  "cp_parent \<lparr>cpath = render_path []\<rparr> = None" "cp_baseName \<lparr>cpath = render_path []\<rparr> = None"
  by (simp_all add: cp_parent_def cp_baseName_def isRoot_def render_path_def)

lemmas cp_render_simps = cp_root_simps cp_extend_render cp_push_render cp_parent_render cp_baseName_render
  cp_inv_render cp_comps_render isRoot_render

interpretation canonPath: path_ops cp_inv cp_comps cp_extend cp_push cp_parent cp_baseName
proof unfold_locales
  fix p q
  assume "cp_inv p" "cp_inv q"
  then show "cp_inv (cp_extend p q)" "cp_comps (cp_extend p q) = cp_comps p @ cp_comps q"
    by (auto elim!: cp_invE simp: cp_render_simps)
  assume "cp_comps p = cp_comps q"
  with \<open>cp_inv p\<close> \<open>cp_inv q\<close> show "p = q" by (auto elim!: cp_invE)
next
  fix p
  assume inv: "cp_inv p"
  then show "list_all comp_ok (cp_comps p)" by (auto elim!: cp_invE)
  show "\<exists>q. cp_push p c = Inr q \<and> cp_inv q \<and> cp_comps q = cp_comps p @ [c]"
    if "comp_ok c" for c
    using inv that by (auto elim!: cp_invE simp: cp_render_simps)
  show "case cp_parent p of None \<Rightarrow> cp_comps p = []
      | Some q \<Rightarrow> cp_comps p \<noteq> [] \<and> cp_inv q \<and> cp_comps q = butlast (cp_comps p)"
    using inv
    by (elim cp_invE, cases "cp_comps p = []")
      (auto simp: cp_render_simps list_all_butlast)
  show "cp_baseName p = (if cp_comps p = [] then None else Some (last (cp_comps p)))"
    using inv
    by (elim cp_invE, cases "cp_comps p = []") (auto simp: cp_render_simps)
qed

lemma canonPathOf_total: "\<exists>p. canonPathOf raw = Inr p \<and> cp_inv p"
proof -
  define q where "q = (if raw = [] \<or> hd raw \<noteq> slash then concatStringsSep [] [''/'', ''/'', raw] else raw)"
  have "q \<noteq> []" "hd q = slash" by (auto simp: concatStringsSep_def q_def)
  then obtain p where p: "canonPath no_links q False = Inr p"
    by (simp add: canonPath_refines)
  moreover have "canonPathOf raw = bindr (canonPath no_links q False) (\<lambda>p. Inr \<lparr>cpath = p\<rparr>)"
    by (simp add: canonPathOf_def absPath_def q_def)
  ultimately show ?thesis
    using canonPath_canonical [OF p] by (simp add: cp_inv_def)
qed

lemma cp_iterate_simps:
  "cp_iterate [] = []"
  "c \<noteq> [] \<Longrightarrow> slash \<notin> set c \<Longrightarrow> cp_iterate c = [c]"
  "slash \<notin> set c \<Longrightarrow> cp_iterate (c @ slash # r) = c # cp_iterate r"
proof -
  show "cp_iterate [] = []" by (simp add: cp_iterate.simps)
  show "cp_iterate c = [c]" if "c \<noteq> []" "slash \<notin> set c"
  proof -
    have "takeWhile (\<lambda>d. d \<noteq> slash) c = c" "dropWhile (\<lambda>d. d \<noteq> slash) c = []"
      using that(2) by (auto simp: takeWhile_eq_all_conv)
    then show ?thesis
      using that(1) by (subst cp_iterate.simps) (simp del: dropWhile_eq_Nil_conv takeWhile_eq_all_conv)
  qed
  show "cp_iterate (c @ slash # r) = c # cp_iterate r" if "slash \<notin> set c"
    using that by (subst cp_iterate.simps) (simp add: takeWhile_append dropWhile_append)
qed

lemma cp_iterate_render:
  "list_all comp_ok (c # cs) \<Longrightarrow> cp_iterate (c @ render cs) = c # cs"
  by (induction cs arbitrary: c) (auto simp: cp_iterate_simps comp_ok_def)

lemma cp_components_comps: "cp_inv p \<Longrightarrow> cp_components p = cp_comps p"
proof (elim cp_invE)
  fix cs
  assume "list_all comp_ok cs" "p = \<lparr>cpath = render_path cs\<rparr>" "cp_comps p = cs"
  then show ?thesis
    using cp_iterate_render
    by (cases cs) (auto simp: cp_components_def rel_def render_path_def cp_iterate_simps)
qed

section \<open>The order of paths\<close>

lemma char_value_unsigned_eq: "char_value False c = char_value False d \<longleftrightarrow> c = d"
  using word_uint_eq_iff [of "byte_of_char c" "byte_of_char d"] by (simp add: char_value_def)

lemma char_value_unsigned_pos: "c \<noteq> CHR 0x00 \<Longrightarrow> 0 < char_value False c"
proof -
  assume "c \<noteq> CHR 0x00"
  moreover have "byte_of_char (CHR 0x00) = 0" by (simp add: byte_of_char_def)
  ultimately have "byte_of_char c \<noteq> 0" by (metis byte_of_char_eq_iff)
  then have "uint (byte_of_char c) \<noteq> 0" by (simp add: word_uint_eq_iff)
  moreover have "0 \<le> uint (byte_of_char c)" by (rule unsigned_greater_eq)
  ultimately have "0 < uint (byte_of_char c)" by linarith
  then show ?thesis by (simp add: char_value_def)
qed

text \<open>
  With unsigned characters a directory is followed directly by its children: whatever comes
  after the directory without lying below it comes after everything below it.
\<close>

lemma cp_less_loop_children:
  assumes "cp_less_loop False p x" and "\<not> prefix (p @ ''/'') x"
    and "CHR 0x00 \<notin> set p" and "CHR 0x00 \<notin> set x"
  shows "cp_less_loop False (p @ slash # r) x"
  using assms
proof (induction p arbitrary: x)
  case Nil
  then obtain c cs where "x = c # cs" "c \<noteq> slash" "c \<noteq> CHR 0x00" by (cases x) auto
  then show ?case using char_value_unsigned_pos [of c] by simp
next
  case (Cons i p)
  obtain j y where x: "x = j # y" using Cons.prems(1) by (cases x) simp_all
  have "i \<noteq> CHR 0x00" "j \<noteq> CHR 0x00" using Cons.prems(3,4) x by fastforce+
  then have pos: "0 < char_value False i" "0 < char_value False j"
    by (simp_all add: char_value_unsigned_pos)
  show ?case
  proof (cases "i = j")
    case True
    have "cp_less_loop False (p @ slash # r) y"
      using Cons.prems x True by (intro Cons.IH) (simp_all split: if_splits)
    then show ?thesis using x True by simp
  next
    case False
    define ci where "ci = (if i = slash then 0 else char_value False i)"
    define cj where "cj = (if j = slash then 0 else char_value False j)"
    have step: "cp_less_loop False (i # q) (j # y) =
        (if ci < cj then True else if ci > cj then False else cp_less_loop False q y)" for q
      by (simp add: ci_def cj_def Let_def)
    have "ci \<noteq> cj" using False pos char_value_unsigned_eq [of i j] by (auto simp: ci_def cj_def)
    then have "ci < cj" using Cons.prems(1) x step [of p] by (auto split: if_splits)
    then show ?thesis using x step [of "p @ slash # r"] by simp
  qed
qed

section \<open>Properties\<close>

text \<open>C36: \<^verbatim>\<open>canonPath\<close> without symlink resolution succeeds on every absolute path and computes the path of its
  components with \<open>.\<close> dropped and \<open>..\<close> deleting the component before it.\<close>

theorem canonPath_normalises:
  assumes "path \<noteq> []" and "hd path = slash"
  shows "canonPath lookup path False = Inr (render_path (norm_comps [] (tokenizeString path ''/'')))"
  using assms by (rule canonPath_refines)

theorem canonPath_normalises_witness:
  "''/a//./b/../c'' \<noteq> [] \<and> hd ''/a//./b/../c'' = slash \<and> canonPath no_links ''/a//./b/../c'' False = Inr ''/a/c''"
proof -
  have p: "''/a//./b/../c'' \<noteq> []" "hd ''/a//./b/../c'' = slash" by simp_all
  have "render_path (norm_comps [] (tokenizeString ''/a//./b/../c'' ''/'')) = ''/a/c''" by code_simp
  then show ?thesis using canonPath_normalises [OF p, of no_links] p by simp
qed

text \<open>C37: whatever \<^verbatim>\<open>canonPath\<close> returns is canonical, also when it follows symlinks of an arbitrary file
  system: it starts with a slash, has no empty component, no \<open>.\<close> and no \<open>..\<close>.\<close>

theorem canonPath_result_canonical:
  assumes "canonPath lookup path res = Inr p"
  shows "canonical p"
  using assms by (rule canonPath_canonical)

theorem canonPath_result_canonical_witness:
  "canonPath (\<lambda>s. Inr (if s = ''/l'' then Some ''x/../y'' else None)) ''/l/z'' True = Inr ''/y/z'' \<and> canonical ''/y/z''"
proof -
  have c: "canonPath (\<lambda>s. Inr (if s = ''/l'' then Some ''x/../y'' else None)) ''/l/z'' True = Inr ''/y/z''" by code_simp
  show ?thesis using canonPath_result_canonical [OF c] c by simp
qed

text \<open>pushing a component on a \<^verbatim>\<open>CanonPath\<close> and taking the parent and the base name gives the path and the
  component back, and every path but the root is its parent with its base name pushed.\<close>

theorem cp_push_parent:
  assumes "cp_inv p"
  shows "(\<forall>c. comp_ok c \<longrightarrow> (\<exists>q. cp_push p c = Inr q \<and> cp_parent q = Some p \<and> cp_baseName q = Some c))
    \<and> (\<forall>q. cp_parent p = Some q \<longrightarrow> (\<exists>c. cp_baseName p = Some c \<and> cp_push q c = Inr p))"
  using assms canonPath.parent_push canonPath.push_parent by blast

theorem cp_push_parent_witness:
  "cp_inv \<lparr>cpath = ''/nix''\<rparr> \<and> comp_ok ''store'' \<and>
   (\<exists>q. cp_push \<lparr>cpath = ''/nix''\<rparr> ''store'' = Inr q \<and> cp_parent q = Some \<lparr>cpath = ''/nix''\<rparr>)"
proof -
  have c: "cp_inv \<lparr>cpath = ''/nix''\<rparr>" "comp_ok ''store''" by code_simp+
  show ?thesis using cp_push_parent [OF c(1)] c by blast
qed

text \<open>with unsigned characters a directory is directly followed by its children in the order of
  \<^verbatim>\<open>CanonPath\<close>: what comes after a directory and not below it comes after everything below it.\<close>

theorem cp_children_follow:
  assumes "cp_less False p x" and "\<not> prefix (cpath p @ ''/'') (cpath x)"
    and "CHR 0x00 \<notin> set (cpath p)" and "CHR 0x00 \<notin> set (cpath x)"
  shows "cp_less False \<lparr>cpath = cpath p @ slash # r\<rparr> x"
  using assms cp_less_loop_children by (simp add: cp_less_def)

theorem cp_children_follow_witness:
  "cp_less False \<lparr>cpath = ''/foo''\<rparr> \<lparr>cpath = ''/foo!''\<rparr> \<and> cp_less False \<lparr>cpath = ''/foo/bar''\<rparr> \<lparr>cpath = ''/foo!''\<rparr>"
proof -
  have l: "cp_less False \<lparr>cpath = ''/foo''\<rparr> \<lparr>cpath = ''/foo!''\<rparr>" by code_simp
  have n: "\<not> prefix (cpath \<lparr>cpath = ''/foo''\<rparr> @ ''/'') (cpath \<lparr>cpath = ''/foo!''\<rparr>)"
    "CHR 0x00 \<notin> set (cpath \<lparr>cpath = ''/foo''\<rparr>)" "CHR 0x00 \<notin> set (cpath \<lparr>cpath = ''/foo!''\<rparr>)" by simp_all
  show ?thesis using cp_children_follow [OF l n, of "''bar''"] l by simp
qed

text \<open>With signed characters, as on x86, a byte above 127 comes before the slash: the example of the
  header comment fails for such a name.\<close>

lemma cp_signed_children:
  "cp_less True \<lparr>cpath = ''/foo'' @ [CHR 0xE9]\<rparr> \<lparr>cpath = ''/foo/bar''\<rparr>
   \<and> cp_less True \<lparr>cpath = ''/foo''\<rparr> \<lparr>cpath = ''/foo'' @ [CHR 0xE9]\<rparr>"
  by code_simp

text \<open>Pushing an empty component on a path other than the root breaks the invariant of the class.\<close>

lemma cp_push_empty:
  "cp_push \<lparr>cpath = ''/nix''\<rparr> [] = Inr \<lparr>cpath = ''/nix/''\<rparr> \<and> \<not> cp_inv \<lparr>cpath = ''/nix/''\<rparr>"
  by code_simp

end
