(* ===== verification/Lix_Io_Buffer.thy ===== *)
theory Lix_Io_Buffer
  imports Lix_Prelude
begin

text \<open>
  The ring buffer of \<^verbatim>\<open>libutil/io-buffer.{hh,cc}\<close> and the buffered streams on top of it:
  \<^verbatim>\<open>BufferedSink\<close> and \<^verbatim>\<open>BufferedSource\<close> of \<^verbatim>\<open>libutil/serialise.cc\<close> and the buffered streams of
  \<^verbatim>\<open>libutil/async-io.cc\<close>.

  The array of the buffer is a list, allocated on the first call of \<^verbatim>\<open>getWriteBuffer\<close>; a span
  into it is an offset and a length. The buffer is shown to implement a bounded byte queue. The
  stream below a buffered stream is a parameter: the state it keeps and the function that
  writes to it or reads from it.
\<close>

section \<open>The ring buffer\<close>

record IoBuffer =
  bufSize :: nat
  bufBegin :: nat
  bufUsed :: nat
  buffer :: "string option"

definition newIoBuffer :: "nat \<Rightarrow> IoBuffer" where
  "newIoBuffer n = \<lparr>bufSize = n, bufBegin = 0, bufUsed = 0, buffer = None\<rparr>"

text \<open>The cells of the array; a span of length 0 over no array has no cells.\<close>

definition cells :: "IoBuffer \<Rightarrow> string" where
  "cells b = (case buffer b of None \<Rightarrow> [] | Some cs \<Rightarrow> cs)"

definition getReadBuffer :: "IoBuffer \<Rightarrow> string" where
  "getReadBuffer b =
     (let used = min (bufSize b - bufBegin b) (bufUsed b)
      in take used (drop (bufBegin b) (cells b)))"

definition consumed :: "nat \<Rightarrow> IoBuffer \<Rightarrow> IoBuffer result" where
  "consumed n b =
     (if \<not> n \<le> bufUsed b then Inl (AssertionFailed ''size <= bufUsed'')
      else if bufSize b = 0 then Inl (UndefinedBehaviour ''% bufSize'')
      else let b1 = b\<lparr>bufBegin := (bufBegin b + n) mod bufSize b, bufUsed := bufUsed b - n\<rparr>
           in Inr (if bufUsed b1 = 0 then b1\<lparr>bufBegin := 0\<rparr> else b1))"

text \<open>\<open>getWriteBuffer\<close> returns the buffer, whose array it may allocate, and the span.\<close>

definition getWriteBuffer :: "IoBuffer \<Rightarrow> (IoBuffer \<times> nat \<times> nat) result" where
  "getWriteBuffer b =
     (if bufSize b = 0 then Inl (UndefinedBehaviour ''% bufSize'')
      else let b1 = (if buffer b = None then b\<lparr>buffer := Some (replicate (bufSize b) (CHR 0x00))\<rparr> else b);
          bufEnd = (bufBegin b + bufUsed b) mod bufSize b;
          free = min (bufSize b - bufEnd) (bufSize b - bufUsed b)
      in Inr (b1, bufEnd, free))"

definition added :: "nat \<Rightarrow> IoBuffer \<Rightarrow> IoBuffer result" where
  "added n b =
     (if n \<le> bufSize b - bufUsed b then Inr (b\<lparr>bufUsed := bufUsed b + n\<rparr>)
      else Inl (AssertionFailed ''size <= bufSize - bufUsed''))"

text \<open>The \<^verbatim>\<open>memcpy\<close> of a client into the write span.\<close>

definition memcpy_into :: "nat \<Rightarrow> string \<Rightarrow> IoBuffer \<Rightarrow> IoBuffer" where
  "memcpy_into off data b =
     b\<lparr>buffer := Some (take off (cells b) @ data @ drop (off + length data) (cells b))\<rparr>"

section \<open>The buffer as a bounded queue of bytes\<close>

definition io_ok :: "IoBuffer \<Rightarrow> bool" where
  "io_ok b \<longleftrightarrow> 0 < bufSize b \<and> bufBegin b < bufSize b \<and> bufUsed b \<le> bufSize b \<and>
     (case buffer b of None \<Rightarrow> bufUsed b = 0 | Some cs \<Rightarrow> length cs = bufSize b)"

definition io_contents :: "IoBuffer \<Rightarrow> string" where
  "io_contents b =
     map (\<lambda>i. cells b ! ((bufBegin b + i) mod bufSize b)) [0..<bufUsed b]"

lemma length_io_contents [simp]: "length (io_contents b) = bufUsed b"
  by (simp add: io_contents_def)

lemma io_contents_empty_iff [simp]: "io_contents b = [] \<longleftrightarrow> bufUsed b = 0"
  by (simp add: io_contents_def)

lemma io_cells_length: "io_ok b \<Longrightarrow> bufUsed b > 0 \<Longrightarrow> length (cells b) = bufSize b"
  by (auto simp: io_ok_def cells_def split: option.splits)

lemma newIoBuffer_ok:
  "0 < n \<Longrightarrow> io_ok (newIoBuffer n)" "io_contents (newIoBuffer n) = []"
  by (simp_all add: newIoBuffer_def io_ok_def)

lemma getReadBuffer_prefix:
  assumes "io_ok b"
  shows "getReadBuffer b = take (bufSize b - bufBegin b) (io_contents b)"
proof (cases "bufUsed b = 0")
  case True
  then show ?thesis by (simp add: getReadBuffer_def io_contents_def)
next
  case False
  with assms have len: "length (cells b) = bufSize b" by (simp add: io_cells_length)
  show ?thesis
  proof (rule nth_equalityI)
    show "length (getReadBuffer b) = length (take (bufSize b - bufBegin b) (io_contents b))"
      using assms len by (simp add: getReadBuffer_def io_ok_def)
  next
    fix i
    assume "i < length (getReadBuffer b)"
    then have "bufBegin b + i < bufSize b" "i < bufUsed b"
      using assms len by (auto simp: getReadBuffer_def io_ok_def)
    then show "getReadBuffer b ! i = take (bufSize b - bufBegin b) (io_contents b) ! i"
      using assms len by (simp add: getReadBuffer_def io_ok_def io_contents_def)
  qed
qed

lemma getReadBuffer_nonempty:
  "io_ok b \<Longrightarrow> bufUsed b > 0 \<Longrightarrow> getReadBuffer b \<noteq> []"
  using length_io_contents [of b] by (auto simp: getReadBuffer_prefix io_ok_def)

lemma getReadBuffer_all: "io_ok b \<Longrightarrow> bufBegin b = 0 \<Longrightarrow> getReadBuffer b = io_contents b"
  by (simp add: getReadBuffer_prefix io_ok_def)

lemma consumed_drop:
  assumes "io_ok b" and "n \<le> bufUsed b"
  obtains b' where "consumed n b = Inr b'" "io_ok b'" "io_contents b' = drop n (io_contents b)"
    "bufSize b' = bufSize b" "bufUsed b' = bufUsed b - n" "n = bufUsed b \<Longrightarrow> bufBegin b' = 0"
proof -
  define b1 where "b1 = b\<lparr>bufBegin := (bufBegin b + n) mod bufSize b, bufUsed := bufUsed b - n\<rparr>"
  define b' where "b' = (if bufUsed b1 = 0 then b1\<lparr>bufBegin := 0\<rparr> else b1)"
  have "consumed n b = Inr b'" using assms by (simp add: consumed_def b'_def b1_def io_ok_def Let_def)
  moreover have "io_ok b'"
    using assms by (auto simp: io_ok_def b'_def b1_def split: option.splits)
  moreover have "io_contents b' = drop n (io_contents b)"
  proof (cases "bufUsed b1 = 0")
    case True
    then show ?thesis using assms by (simp add: b'_def b1_def io_contents_def)
  next
    case False
    then have "bufSize b' = bufSize b" "cells b' = cells b" "bufUsed b' = bufUsed b - n"
        "bufBegin b' = (bufBegin b + n) mod bufSize b"
      by (simp_all add: b'_def b1_def cells_def)
    then show ?thesis
      by (intro nth_equalityI) (simp_all add: io_contents_def mod_add_left_eq add.assoc less_diff_conv add.commute [of n])
  qed
  ultimately show ?thesis using that by (simp add: b'_def b1_def)
qed

lemma ring_index_neq:
  assumes "i < used" "k < free" "used + free \<le> (m::nat)" "e = (q + used) mod m" "e + free \<le> m"
  shows "(q + i) mod m \<noteq> e + k"
proof
  assume eq: "(q + i) mod m = e + k"
  have "e + k < m" using assms by linarith
  then have "(q + i) mod m = (q + used + k) mod m"
    using eq assms(4) by (metis mod_add_left_eq mod_less)
  then have "m dvd used + k - i"
    using mod_eq_dvd_iff_nat [of "q + i" "q + used + k" m] assms(1) by simp
  moreover have "0 < used + k - i" "used + k - i < m" using assms by linarith+
  ultimately show False using dvd_imp_le [of m "used + k - i"] by simp
qed

lemma write_append:
  assumes ok: "io_ok b" and gw: "getWriteBuffer b = Inr (b1, off, free)" and len: "length data \<le> free"
  obtains b' where "added (length data) (memcpy_into off data b1) = Inr b'" "io_ok b'"
    "io_contents b' = io_contents b @ data" "bufSize b' = bufSize b" "bufBegin b' = bufBegin b"
    "bufUsed b' = bufUsed b + length data"
proof -
  have b1: "bufSize b1 = bufSize b" "bufBegin b1 = bufBegin b" "bufUsed b1 = bufUsed b"
      "length (cells b1) = bufSize b" "bufUsed b > 0 \<Longrightarrow> cells b1 = cells b"
    and off: "off = (bufBegin b + bufUsed b) mod bufSize b"
    and free: "free \<le> bufSize b - off" "free \<le> bufSize b - bufUsed b"
    using ok gw by (auto simp: getWriteBuffer_def io_ok_def cells_def Let_def split: if_splits option.splits)
  define b2 where "b2 = memcpy_into off data b1"
  define b' where "b' = b2\<lparr>bufUsed := bufUsed b2 + length data\<rparr>"
  have size: "0 < bufSize b" "off < bufSize b" using ok off by (auto simp: io_ok_def)
  have "bufUsed b \<le> bufSize b" using ok by (simp add: io_ok_def)
  then have fits: "bufUsed b + length data \<le> bufSize b" "off + length data \<le> bufSize b"
    using len free size by linarith+
  have cs: "cells b' = take off (cells b1) @ data @ drop (off + length data) (cells b1)"
    by (simp add: b'_def b2_def memcpy_into_def cells_def)
  have f: "bufSize b' = bufSize b" "bufBegin b' = bufBegin b" "bufUsed b' = bufUsed b + length data"
    by (simp_all add: b'_def b2_def memcpy_into_def b1)
  have "added (length data) (memcpy_into off data b1) = Inr b'"
    using len free b1 by (simp add: added_def b'_def b2_def memcpy_into_def)
  moreover have "io_ok b'"
  proof -
    have "buffer b' = Some (cells b')" by (simp add: b'_def b2_def memcpy_into_def cells_def)
    moreover have "length (cells b') = bufSize b" using cs b1(4) size len free by simp
    ultimately show ?thesis using ok f fits(1) by (simp add: io_ok_def)
  qed
  moreover have "io_contents b' = io_contents b @ data"
  proof (rule nth_equalityI)
    show "length (io_contents b') = length (io_contents b @ data)" using f by simp
  next
    fix i
    assume i: "i < length (io_contents b')"
    show "io_contents b' ! i = (io_contents b @ data) ! i"
    proof (cases "i < bufUsed b")
      case True
      define j where "j = (bufBegin b + i) mod bufSize b"
      have neq: "j \<noteq> off + k" if "k < length data" for k
        unfolding j_def using ring_index_neq [OF True that fits(1) off fits(2)] by simp
      have "j < off \<or> off + length data \<le> j" using neq [of "j - off"] by linarith
      then have "cells b' ! j = cells b1 ! j"
        using b1(4) size fits by (auto simp: cs nth_append)
      then show ?thesis using True f b1(5) by (simp add: io_contents_def j_def nth_append)
    next
      case False
      then obtain k where k: "i = bufUsed b + k" "k < length data"
        using i f by (auto simp: not_less le_iff_add)
      have "(bufBegin b + i) mod bufSize b = off + k"
      proof -
        have "off + k < bufSize b" using k fits by linarith
        then have "(off + k) mod bufSize b = off + k" by simp
        then show ?thesis using k(1) off by (simp add: mod_add_left_eq add.assoc)
      qed
      then show ?thesis using k f b1(4) size i by (simp add: io_contents_def cs nth_append)
    qed
  qed
  ultimately show ?thesis using that f by simp
qed

text \<open>
  The contract of a buffer that its clients rely on: it holds a sequence of bytes, a write puts
  bytes at its end, a read sees a prefix and takes bytes off the front.
\<close>

locale byte_queue =
  fixes contents :: "'b \<Rightarrow> string"
    and capacity :: "'b \<Rightarrow> nat"
    and room :: "'b \<Rightarrow> ('b \<times> nat \<times> nat) result"
    and store :: "nat \<Rightarrow> string \<Rightarrow> 'b \<Rightarrow> 'b"
    and commit :: "nat \<Rightarrow> 'b \<Rightarrow> 'b result"
    and front :: "'b \<Rightarrow> string"
    and discard :: "nat \<Rightarrow> 'b \<Rightarrow> 'b result"
    and inv :: "'b \<Rightarrow> bool"
  assumes bounded: "inv b \<Longrightarrow> length (contents b) \<le> capacity b"
    and room_some: "inv b \<Longrightarrow> length (contents b) < capacity b \<Longrightarrow>
      \<exists>b1 off free. room b = Inr (b1, off, free) \<and> 0 < free"
    and room_all: "inv b \<Longrightarrow> contents b = [] \<Longrightarrow>
      \<exists>b1 off free. room b = Inr (b1, off, free) \<and> 0 < free"
    and append_bytes: "inv b \<Longrightarrow> room b = Inr (b1, off, free) \<Longrightarrow> length d \<le> free \<Longrightarrow>
      \<exists>b'. commit (length d) (store off d b1) = Inr b' \<and> inv b' \<and> contents b' = contents b @ d
        \<and> capacity b' = capacity b"
    and front_prefix: "inv b \<Longrightarrow> prefix (front b) (contents b)"
    and front_some: "inv b \<Longrightarrow> contents b \<noteq> [] \<Longrightarrow> front b \<noteq> []"
    and discard: "inv b \<Longrightarrow> n \<le> length (contents b) \<Longrightarrow>
      \<exists>b'. discard n b = Inr b' \<and> inv b' \<and> contents b' = drop n (contents b)
        \<and> capacity b' = capacity b"
begin

lemma read_front:
  assumes "inv b" and "n \<le> length (front b)"
  shows "\<exists>b'. discard n b = Inr b' \<and> inv b' \<and> take n (front b) @ contents b' = contents b
    \<and> capacity b' = capacity b"
proof -
  obtain r where r: "contents b = front b @ r" using front_prefix [OF assms(1)] by (auto simp: prefix_def)
  with assms(2) have "n \<le> length (contents b)" by simp
  from discard [OF assms(1) this] obtain b' where
    b': "discard n b = Inr b'" "inv b'" "contents b' = drop n (contents b)" "capacity b' = capacity b"
    by blast
  have "take n (front b) = take n (contents b)" using r assms(2) by simp
  then have "take n (front b) @ contents b' = contents b" using b'(3) by simp
  then show ?thesis using b' by blast
qed

end

lemma getWriteBuffer_some:
  assumes "io_ok b" and "bufUsed b < bufSize b"
  shows "\<exists>b1 off free. getWriteBuffer b = Inr (b1, off, free) \<and> 0 < free"
  using assms by (auto simp: getWriteBuffer_def Let_def io_ok_def)

interpretation io_buffer: byte_queue io_contents bufSize getWriteBuffer memcpy_into added
  getReadBuffer consumed io_ok
proof unfold_locales
  fix b
  assume ok: "io_ok b"
  show "length (io_contents b) \<le> bufSize b" using ok by (simp add: io_ok_def)
  show "\<exists>b1 off free. getWriteBuffer b = Inr (b1, off, free) \<and> 0 < free"
    if "length (io_contents b) < bufSize b" using that ok by (simp add: getWriteBuffer_some)
  show "\<exists>b1 off free. getWriteBuffer b = Inr (b1, off, free) \<and> 0 < free" if "io_contents b = []"
    using that ok by (simp add: getWriteBuffer_some io_ok_def)
  show "prefix (getReadBuffer b) (io_contents b)"
    using ok by (simp add: getReadBuffer_prefix take_is_prefix)
  show "getReadBuffer b \<noteq> []" if "io_contents b \<noteq> []"
    using that ok getReadBuffer_nonempty by auto
next
  fix b b1 off free and d :: string
  assume "io_ok b" and "getWriteBuffer b = Inr (b1, off, free)" and "length d \<le> free"
  then show "\<exists>b'. added (length d) (memcpy_into off d b1) = Inr b' \<and> io_ok b'
      \<and> io_contents b' = io_contents b @ d \<and> bufSize b' = bufSize b"
    by (rule write_append) blast
next
  fix b n
  assume "io_ok b" and "n \<le> length (io_contents b)"
  then have "n \<le> bufUsed b" by simp
  with \<open>io_ok b\<close> show "\<exists>b'. consumed n b = Inr b' \<and> io_ok b' \<and> io_contents b' = drop n (io_contents b)
      \<and> bufSize b' = bufSize b"
    by (rule consumed_drop) blast
qed

section \<open>Properties\<close>

text \<open>the ring buffer is a bounded queue: data that fits the span returned by \<^verbatim>\<open>getWriteBuffer\<close> and is then
  committed by \<^verbatim>\<open>added\<close> appears at the end of the contents, around the end of the array too, no assertion
  fails and the invariant holds again.\<close>

theorem io_buffer_write:
  assumes "io_ok b" and "getWriteBuffer b = Inr (b1, off, free)" and "length data \<le> free"
  shows "\<exists>b'. added (length data) (memcpy_into off data b1) = Inr b' \<and> io_ok b'
    \<and> io_contents b' = io_contents b @ data"
  using io_buffer.append_bytes [OF assms] by blast

theorem io_buffer_write_witness:
  "\<exists>b'. added 2 (memcpy_into 0 ''xy'' \<lparr>bufSize = 4, bufBegin = 2, bufUsed = 2, buffer = Some ''..ab''\<rparr>) = Inr b'
    \<and> io_contents b' = ''abxy''"
proof -
  let ?b = "\<lparr>bufSize = 4, bufBegin = 2, bufUsed = 2, buffer = Some ''..ab''\<rparr>"
  have b: "io_ok ?b" "getWriteBuffer ?b = Inr (?b, 0, 2)" "length ''xy'' \<le> 2" by code_simp+
  have "io_contents ?b = ''ab''" by code_simp
  then show ?thesis using io_buffer_write [OF b] by (auto simp: numeral_2_eq_2)
qed

text \<open>consuming \<open>n\<close> of the buffered bytes removes exactly the first \<open>n\<close> bytes of the contents, and the
  span that \<^verbatim>\<open>getReadBuffer\<close> returns is a prefix of the contents that is empty only if the buffer is.\<close>

theorem io_buffer_read:
  assumes "io_ok b" and "n \<le> bufUsed b"
  shows "(\<exists>b'. consumed n b = Inr b' \<and> io_ok b' \<and> io_contents b' = drop n (io_contents b))
    \<and> prefix (getReadBuffer b) (io_contents b) \<and> (getReadBuffer b = [] \<longrightarrow> bufUsed b = 0)"
  using io_buffer.discard [OF assms(1), of n] io_buffer.front_prefix [OF assms(1)]
    io_buffer.front_some [OF assms(1)] assms(2) by auto

theorem io_buffer_read_witness:
  "\<exists>b'. consumed 3 \<lparr>bufSize = 4, bufBegin = 2, bufUsed = 4, buffer = Some ''xyab''\<rparr> = Inr b' \<and> io_contents b' = ''y''"
proof -
  let ?b = "\<lparr>bufSize = 4, bufBegin = 2, bufUsed = 4, buffer = Some ''xyab''\<rparr>"
  have b: "io_ok ?b" "3 \<le> bufUsed ?b" by code_simp+
  have "io_contents ?b = ''abxy''" by code_simp
  then show ?thesis using io_buffer_read [OF b] by auto
qed

end
