(* ===== verification/Lix_Streams.thy ===== *)
theory Lix_Streams
  imports Lix_Io_Buffer
begin

text \<open>
  Sinks and sources of \<^verbatim>\<open>libutil/serialise.{hh,cc}\<close> and the buffered streams of
  \<^verbatim>\<open>libutil/async-io.cc\<close>. The stream below a buffered stream, a virtual function in the code, is
  a parameter: its state and the function that writes to it or reads from it. A coroutine
  generator is the list of the chunks it yields. What an exception leaves behind in a stream
  is not modelled: after an error the stream is not used again.
\<close>

section \<open>Buffered sinks\<close>

definition sink_flush ::
  "(string \<Rightarrow> 'w \<Rightarrow> 'w result) \<Rightarrow> IoBuffer \<times> 'w \<Rightarrow> (IoBuffer \<times> 'w) result" where
  "sink_flush writeUnbuffered = (\<lambda>(b, w).
     if bufUsed b > 0 then
       let from = getReadBuffer b
       in bindr (writeUnbuffered from w) (\<lambda>w'.
          bindr (consumed (length from) b) (\<lambda>b'. Inr (b', w')))
     else Inr (b, w))"

lemma getWriteBuffer_free_pos:
  "getWriteBuffer b = Inr (b1, off, free) \<Longrightarrow> bufUsed b < bufSize b \<Longrightarrow> 0 < free"
  by (auto simp: getWriteBuffer_def Let_def split: if_splits)

function sink_write ::
  "(string \<Rightarrow> 'w \<Rightarrow> 'w result) \<Rightarrow> string \<Rightarrow> IoBuffer \<times> 'w \<Rightarrow> (IoBuffer \<times> 'w) result" where
  "sink_write writeUnbuffered data (b, w) =
     (if data = [] then Inr (b, w)
      else if bufUsed b + length data \<ge> bufSize b then
        bindr (sink_flush writeUnbuffered (b, w)) (\<lambda>(b', w').
        bindr (writeUnbuffered data w') (\<lambda>w''. Inr (b', w'')))
      else
        bindr (getWriteBuffer b) (\<lambda>(b1, off, free).
        let n = min (length data) free
        in bindr (added n (memcpy_into off (take n data) b1)) (\<lambda>b2.
           bindr (if bufUsed b2 = bufSize b2 then sink_flush writeUnbuffered (b2, w)
                  else Inr (b2, w)) (\<lambda>(b3, w3).
           sink_write writeUnbuffered (drop n data) (b3, w3)))))"
  by pat_completeness auto

termination
  by (relation "measure (\<lambda>(_, d, _). length d)")
     (auto dest!: getWriteBuffer_free_pos)

declare sink_write.simps [simp del]

section \<open>Sources\<close>

text \<open>
  \<^verbatim>\<open>Source::operator()\<close> calls \<^verbatim>\<open>read\<close> until the buffer is filled. A \<^verbatim>\<open>read\<close> that returns 0 bytes
  again and again keeps the loop running: then the value is \<open>None\<close>.
\<close>

partial_function (option) source_fill ::
  "(nat \<Rightarrow> 's \<Rightarrow> (string \<times> 's) result) \<Rightarrow> nat \<Rightarrow> string \<Rightarrow> 's \<Rightarrow> (string \<times> 's) result option" where
  [code]: "source_fill read len acc s =
     (if len = 0 then Some (Inr (acc, s))
      else case read len s of
        Inl e \<Rightarrow> Some (Inl e)
      | Inr (d, s') \<Rightarrow> source_fill read (len - length d) (acc @ d) s')"

definition source_call ::
  "(nat \<Rightarrow> 's \<Rightarrow> (string \<times> 's) result) \<Rightarrow> nat \<Rightarrow> 's \<Rightarrow> (string \<times> 's) result option" where
  "source_call read len s = source_fill read len [] s"

definition drainBufSize :: nat where
  "drainBufSize = 8192"

fun is_EndOfFile :: "error \<Rightarrow> bool" where
  "is_EndOfFile (EndOfFile m) = True"
| "is_EndOfFile _ = False"

text \<open>\<^verbatim>\<open>Source::drain\<close> collects in a \<^verbatim>\<open>StringSink\<close> until the source throws \<^verbatim>\<open>EndOfFile\<close>.\<close>

partial_function (option) source_drain_loop ::
  "(nat \<Rightarrow> 's \<Rightarrow> (string \<times> 's) result) \<Rightarrow> string \<Rightarrow> 's \<Rightarrow> string result option" where
  [code]: "source_drain_loop read sink s =
     (case read drainBufSize s of
        Inl e \<Rightarrow> Some (if is_EndOfFile e then Inr sink else Inl e)
      | Inr (d, s') \<Rightarrow> source_drain_loop read (sink @ d) s')"

definition source_drain ::
  "(nat \<Rightarrow> 's \<Rightarrow> (string \<times> 's) result) \<Rightarrow> 's \<Rightarrow> string result option" where
  "source_drain read s = source_drain_loop read [] s"

definition buffered_read ::
  "(nat \<Rightarrow> 's \<Rightarrow> (string \<times> 's) result) \<Rightarrow> nat \<Rightarrow> IoBuffer \<times> 's \<Rightarrow> (string \<times> IoBuffer \<times> 's) result" where
  "buffered_read readUnbuffered len = (\<lambda>(b, s).
     bindr (if bufUsed b = 0 then
              bindr (getWriteBuffer b) (\<lambda>(b1, off, free).
              bindr (readUnbuffered free s) (\<lambda>(d, s').
              bindr (added (length d) (memcpy_into off d b1)) (\<lambda>b2. Inr (b2, s'))))
            else Inr (b, s)) (\<lambda>(b, s).
     let from = getReadBuffer b;
         n = min len (length from)
     in bindr (consumed n b) (\<lambda>b'. Inr (take n from, b', s))))"

definition buffered_hasData :: "IoBuffer \<times> 's \<Rightarrow> bool" where
  "buffered_hasData = (\<lambda>(b, s). bufUsed b > 0)"

text \<open>A \<^verbatim>\<open>StringSource\<close> is the part of its string from position \<^verbatim>\<open>pos\<close> on.\<close>

definition StringSource_read :: "nat \<Rightarrow> string \<Rightarrow> (string \<times> string) result" where
  "StringSource_read len s =
     (if s = [] then Inl (EndOfFile ''end of string reached'')
      else Inr (take len s, drop len s))"

text \<open>A \<^verbatim>\<open>GeneratorSource\<close> is the chunks still to be yielded and what is left of the last one.\<close>

fun GeneratorSource_read ::
  "nat \<Rightarrow> string list \<times> string \<Rightarrow> (string \<times> string list \<times> string) result" where
  "GeneratorSource_read len ([], []) = Inl (EndOfFile ''coroutine has finished'')"
| "GeneratorSource_read len (next # g, []) = GeneratorSource_read len (g, next)"
| "GeneratorSource_read len (g, c # buf) =
     Inr (take len (c # buf), g, drop len (c # buf))"

text \<open>A \<^verbatim>\<open>TeeSource\<close> copies what it reads to a sink.\<close>

definition TeeSource_read ::
  "(nat \<Rightarrow> 's \<Rightarrow> (string \<times> 's) result) \<Rightarrow> (string \<Rightarrow> 'w \<Rightarrow> 'w result) \<Rightarrow>
   nat \<Rightarrow> 's \<times> 'w \<Rightarrow> (string \<times> 's \<times> 'w) result" where
  "TeeSource_read orig sink len = (\<lambda>(s, w).
     bindr (orig len s) (\<lambda>(d, s'). bindr (sink d w) (\<lambda>w'. Inr (d, s', w'))))"

definition StringSink_write :: "string \<Rightarrow> string \<Rightarrow> string result" where
  "StringSink_write data s = Inr (s @ data)"

text \<open>\<^verbatim>\<open>sink << generator\<close> writes the chunks of the generator in turn.\<close>

fun sink_generator :: "(string \<Rightarrow> 'w \<Rightarrow> 'w result) \<Rightarrow> string list \<Rightarrow> 'w \<Rightarrow> 'w result" where
  "sink_generator sink [] w = Inr w"
| "sink_generator sink (c # g) w = bindr (sink c w) (\<lambda>w'. sink_generator sink g w')"

section \<open>Asynchronous buffered output\<close>

definition async_flush ::
  "(string \<Rightarrow> 'w \<Rightarrow> 'w result) \<Rightarrow> IoBuffer \<times> 'w \<Rightarrow> (IoBuffer \<times> 'w) result" where
  "async_flush writeFull = (\<lambda>(b, w).
     let unsent = getReadBuffer b
     in if unsent \<noteq> [] then
          bindr (writeFull unsent w) (\<lambda>w'.
          bindr (consumed (length unsent) b) (\<lambda>b'. Inr (b', w')))
        else Inr (b, w))"

definition async_write ::
  "(string \<Rightarrow> 'w \<Rightarrow> 'w result) \<Rightarrow> (string \<Rightarrow> 'w \<Rightarrow> (nat \<times> 'w) result) \<Rightarrow>
   string \<Rightarrow> IoBuffer \<times> 'w \<Rightarrow> (nat \<times> IoBuffer \<times> 'w) result" where
  "async_write writeFull innerWrite src = (\<lambda>(b, w).
     if length src > bufSize b then
       bindr (async_flush writeFull (b, w)) (\<lambda>(b', w').
       bindr (innerWrite src w') (\<lambda>(n, w''). Inr (n, b', w'')))
     else
       bindr (getWriteBuffer b) (\<lambda>(b1, _, free).
       bindr (if length src > free then async_flush writeFull (b1, w) else Inr (b1, w)) (\<lambda>(b2, w2).
       bindr (getWriteBuffer b2) (\<lambda>(b3, off, _).
       bindr (added (length src) (memcpy_into off src b3)) (\<lambda>b4.
       Inr (length src, b4, w2))))))"

section \<open>A buffered sink passes every byte on, in order\<close>

text \<open>
  A sink below a buffered sink: \<open>seen\<close> is the bytes that have arrived in it. The buffer starts at
  offset 0 and every flush empties it, so the ring never wraps and a flush sends all of it.
\<close>

definition sink_ok :: "IoBuffer \<Rightarrow> bool" where
  "sink_ok b \<longleftrightarrow> io_ok b \<and> bufBegin b = 0 \<and> bufUsed b < bufSize b"

lemma sink_ok_new: "0 < n \<Longrightarrow> sink_ok (newIoBuffer n)"
  by (simp add: sink_ok_def newIoBuffer_ok) (simp add: newIoBuffer_def)

locale byte_sink =
  fixes wr :: "string \<Rightarrow> 'w \<Rightarrow> 'w result"
    and seen :: "'w \<Rightarrow> string"
  assumes wr_seen: "wr d w = Inr w' \<Longrightarrow> seen w' = seen w @ d"
begin

lemma flush_seen:
  assumes ok: "io_ok b" "bufBegin b = 0" and fl: "sink_flush wr (b, w) = Inr (b', w')"
  shows "io_ok b' \<and> bufBegin b' = 0 \<and> bufUsed b' = 0 \<and> bufSize b' = bufSize b
    \<and> seen w' = seen w @ io_contents b"
proof (cases "bufUsed b = 0")
  case True
  then show ?thesis using ok fl by (auto simp: sink_flush_def)
next
  case False
  have "bufUsed b \<le> bufUsed b" by simp
  then obtain b1 where b1: "consumed (bufUsed b) b = Inr b1" "io_ok b1"
      "bufSize b1 = bufSize b" "bufUsed b1 = bufUsed b - bufUsed b" "bufBegin b1 = 0"
    by (rule consumed_drop [OF ok(1)]) blast
  have "getReadBuffer b = io_contents b" using ok by (rule getReadBuffer_all)
  then have "wr (io_contents b) w = Inr w'" "b' = b1"
    using fl False b1(1) by (auto simp: sink_flush_def bindr_eq_Inr_iff)
  then show ?thesis using b1 wr_seen by simp
qed

lemma write_seen:
  "sink_ok b \<Longrightarrow> sink_write wr d (b, w) = Inr (b', w') \<Longrightarrow>
   sink_ok b' \<and> bufSize b' = bufSize b \<and> seen w' @ io_contents b' = seen w @ io_contents b @ d"
proof (induction d arbitrary: b w rule: length_induct)
  case (1 d)
  have ok: "io_ok b" "bufBegin b = 0" "bufUsed b < bufSize b" using "1.prems" by (simp_all add: sink_ok_def)
  consider "d = []" | "d \<noteq> []" "bufSize b \<le> bufUsed b + length d"
    | "d \<noteq> []" "bufUsed b + length d < bufSize b" by linarith
  then show ?case
  proof cases
    case 1
    then show ?thesis using "1.prems" by (simp add: sink_write.simps)
  next
    case 2
    obtain w1 where w1: "sink_flush wr (b, w) = Inr (b', w1)" "wr d w1 = Inr w'"
      using "1.prems"(2) 2 by (auto simp: sink_write.simps [of wr d] bindr_eq_Inr_iff)
    then show ?thesis
      using flush_seen [OF ok(1,2) w1(1)] wr_seen [OF w1(2)] ok(3) by (simp add: sink_ok_def)
  next
    case 3
    obtain b1 off free where gw: "getWriteBuffer b = Inr (b1, off, free)"
      using getWriteBuffer_some [OF ok(1,3)] by blast
    define n where "n = min (length d) free"
    have "length (take n d) \<le> free" by (simp add: n_def)
    then obtain b2 where b2: "added (length (take n d)) (memcpy_into off (take n d) b1) = Inr b2" "io_ok b2"
        "io_contents b2 = io_contents b @ take n d" "bufSize b2 = bufSize b" "bufBegin b2 = bufBegin b"
        "bufUsed b2 = bufUsed b + length (take n d)"
      by (rule write_append [OF ok(1) gw]) blast
    have len: "length (take n d) = n" by (simp add: n_def)
    have less: "bufUsed b2 < bufSize b2" using b2 3 len by (simp add: n_def)
    then have ok2: "sink_ok b2" using b2 ok by (simp add: sink_ok_def)
    have "sink_write wr (drop n d) (b2, w) = Inr (b', w')"
      using "1.prems"(2) 3 gw b2(1) len less
      by (simp add: sink_write.simps [of wr d] n_def Let_def)
    moreover have "length (drop n d) < length d"
      using 3 getWriteBuffer_free_pos [OF gw ok(3)] by (simp add: n_def)
    ultimately have "sink_ok b' \<and> bufSize b' = bufSize b2
        \<and> seen w' @ io_contents b' = seen w @ io_contents b2 @ drop n d"
      using "1.IH" ok2 by blast
    then show ?thesis using b2 by simp
  qed
qed

end

text \<open>If the sink below never fails, no assertion of the buffer fails either.\<close>

locale total_sink = byte_sink +
  assumes wr_total: "\<exists>w'. wr d w = Inr w'"
begin

lemma flush_total:
  assumes "io_ok b"
  shows "\<exists>b' w'. sink_flush wr (b, w) = Inr (b', w')"
proof -
  have "length (getReadBuffer b) \<le> bufUsed b" using assms by (simp add: getReadBuffer_prefix)
  then obtain b1 where b1: "consumed (length (getReadBuffer b)) b = Inr b1"
    by (rule consumed_drop [OF assms]) blast
  obtain w1 where w1: "wr (getReadBuffer b) w = Inr w1" using wr_total by blast
  show ?thesis by (simp add: sink_flush_def b1 w1 Let_def)
qed

lemma write_total: "sink_ok b \<Longrightarrow> \<exists>b' w'. sink_write wr d (b, w) = Inr (b', w')"
proof (induction d arbitrary: b w rule: length_induct)
  case (1 d)
  have ok: "io_ok b" "bufBegin b = 0" "bufUsed b < bufSize b" using "1.prems" by (simp_all add: sink_ok_def)
  show ?case
  proof (cases "d \<noteq> [] \<and> bufUsed b + length d < bufSize b")
    case True
    obtain b1 off free where gw: "getWriteBuffer b = Inr (b1, off, free)"
      using getWriteBuffer_some [OF ok(1,3)] by blast
    define n where "n = min (length d) free"
    have "length (take n d) \<le> free" by (simp add: n_def)
    then obtain b2 where b2: "added (length (take n d)) (memcpy_into off (take n d) b1) = Inr b2" "io_ok b2"
        "bufSize b2 = bufSize b" "bufBegin b2 = bufBegin b" "bufUsed b2 = bufUsed b + length (take n d)"
      by (rule write_append [OF ok(1) gw]) blast
    have len: "length (take n d) = n" by (simp add: n_def)
    have "n \<le> length d" by (simp add: n_def)
    then have less: "bufUsed b2 < bufSize b2" using b2(3,5) len conjunct2 [OF True] by linarith
    then have "sink_ok b2" using b2 ok by (simp add: sink_ok_def)
    moreover have "length (drop n d) < length d"
      using True getWriteBuffer_free_pos [OF gw ok(3)] by (simp add: n_def)
    ultimately have "\<exists>b' w'. sink_write wr (drop n d) (b2, w) = Inr (b', w')" using "1.IH" by blast
    then show ?thesis
      using True gw b2(1) len less by (simp add: sink_write.simps [of wr d] n_def Let_def)
  next
    case False
    obtain b1 w1 where fl: "sink_flush wr (b, w) = Inr (b1, w1)" using flush_total [OF ok(1)] by blast
    obtain w2 where "wr d w1 = Inr w2" using wr_total by blast
    then show ?thesis using False fl by (auto simp: sink_write.simps [of wr d])
  qed
qed

lemma write_flush_seen:
  assumes "sink_ok b"
  shows "\<exists>b' w' b'' w''. sink_write wr d (b, w) = Inr (b', w') \<and> sink_flush wr (b', w') = Inr (b'', w'')
    \<and> seen w'' = seen w @ io_contents b @ d \<and> bufUsed b'' = 0"
proof -
  obtain b' w' where w: "sink_write wr d (b, w) = Inr (b', w')" using write_total assms by blast
  from write_seen [OF assms w]
  have b': "io_ok b'" "bufBegin b' = 0" "seen w' @ io_contents b' = seen w @ io_contents b @ d"
    by (simp_all add: sink_ok_def)
  obtain b'' w'' where f: "sink_flush wr (b', w') = Inr (b'', w'')" using flush_total [OF b'(1)] by blast
  show ?thesis using w f flush_seen [OF b'(1,2) f] b'(3) by auto
qed

end

interpretation string_sink: total_sink StringSink_write "\<lambda>s. s"
  by unfold_locales (auto simp: StringSink_write_def)

section \<open>Sources deliver the bytes they hold\<close>

text \<open>
  The contract of \<^verbatim>\<open>Source::read\<close>: \<open>left\<close> is what is still to be read; a read returns a non-empty
  prefix of it of at most the requested length, and \<^verbatim>\<open>EndOfFile\<close> when nothing is left.
\<close>

locale byte_source =
  fixes rd :: "nat \<Rightarrow> 's \<Rightarrow> (string \<times> 's) result"
    and left :: "'s \<Rightarrow> string"
    and inv :: "'s \<Rightarrow> bool"
  assumes rd_some: "inv s \<Longrightarrow> left s \<noteq> [] \<Longrightarrow> 0 < len \<Longrightarrow>
      \<exists>d s'. rd len s = Inr (d, s') \<and> d \<noteq> [] \<and> length d \<le> len \<and> left s = d @ left s' \<and> inv s'"
    and rd_end: "inv s \<Longrightarrow> left s = [] \<Longrightarrow> 0 < len \<Longrightarrow> \<exists>m. rd len s = Inl (EndOfFile m)"
begin

lemma fill_exact:
  "inv s \<Longrightarrow> len \<le> length (left s) \<Longrightarrow>
   \<exists>s'. source_fill rd len acc s = Some (Inr (acc @ take len (left s), s')) \<and> inv s' \<and> left s' = drop len (left s)"
proof (induction len arbitrary: acc s rule: less_induct)
  case (less len)
  show ?case
  proof (cases "len = 0")
    case True
    then show ?thesis using less.prems by (simp add: source_fill.simps)
  next
    case False
    then have "left s \<noteq> []" using less.prems by auto
    from rd_some [OF less.prems(1) this] False
    obtain d s1 where d: "rd len s = Inr (d, s1)" "d \<noteq> []" "length d \<le> len" "left s = d @ left s1" "inv s1"
      by blast
    have "len - length d < len" using d False by (cases d) auto
    moreover have "len - length d \<le> length (left s1)" using d less.prems by simp
    ultimately obtain s' where
      "source_fill rd (len - length d) (acc @ d) s1 = Some (Inr ((acc @ d) @ take (len - length d) (left s1), s'))"
      "inv s'" "left s' = drop (len - length d) (left s1)"
      using less.IH [of "len - length d" s1 "acc @ d"] d(5) by blast
    then show ?thesis using False d by (simp add: source_fill.simps [of rd len])
  qed
qed

lemma fill_short:
  "inv s \<Longrightarrow> length (left s) < len \<Longrightarrow> \<exists>m. source_fill rd len acc s = Some (Inl (EndOfFile m))"
proof (induction len arbitrary: acc s rule: less_induct)
  case (less len)
  show ?case
  proof (cases "left s = []")
    case True
    then show ?thesis
      using less.prems rd_end [OF less.prems(1) True, of len] by (auto simp: source_fill.simps [of rd len])
  next
    case False
    from rd_some [OF less.prems(1) this, of len] less.prems
    obtain d s1 where d: "rd len s = Inr (d, s1)" "d \<noteq> []" "length d \<le> len" "left s = d @ left s1" "inv s1"
      by auto
    have "len - length d < len" using d less.prems by (cases d) auto
    moreover have "length (left s1) < len - length d" using d less.prems by simp
    ultimately obtain m where "source_fill rd (len - length d) (acc @ d) s1 = Some (Inl (EndOfFile m))"
      using less.IH d(5) by blast
    then show ?thesis using less.prems d by (simp add: source_fill.simps [of rd len])
  qed
qed

lemma drain_all: "inv s \<Longrightarrow> source_drain_loop rd acc s = Some (Inr (acc @ left s))"
proof (induction "length (left s)" arbitrary: acc s rule: less_induct)
  case less
  have pos: "0 < drainBufSize" by (simp add: drainBufSize_def)
  show ?case
  proof (cases "left s = []")
    case True
    then show ?thesis
      using rd_end [OF less.prems True pos] by (auto simp: source_drain_loop.simps [of rd])
  next
    case False
    from rd_some [OF less.prems this pos]
    obtain d s1 where d: "rd drainBufSize s = Inr (d, s1)" "d \<noteq> []" "left s = d @ left s1" "inv s1" by blast
    then have "source_drain_loop rd (acc @ d) s1 = Some (Inr ((acc @ d) @ left s1))"
      by (intro less.hyps) (cases d, simp_all)
    then show ?thesis using d by (simp add: source_drain_loop.simps [of rd])
  qed
qed

end

interpretation string_source: byte_source StringSource_read "\<lambda>s. s" "\<lambda>_. True"
  by unfold_locales (auto simp: StringSource_read_def)

lemma GeneratorSource_read_some:
  "concat g @ buf \<noteq> [] \<or> buf @ concat g \<noteq> [] \<Longrightarrow> 0 < len \<Longrightarrow>
   \<exists>d g' buf'. GeneratorSource_read len (g, buf) = Inr (d, g', buf') \<and> d \<noteq> [] \<and> length d \<le> len
     \<and> buf @ concat g = d @ buf' @ concat g'"
proof (induction len "(g, buf)" arbitrary: g buf rule: GeneratorSource_read.induct)
  case (3 len g c buf)
  then show ?case by (cases len) auto
qed auto

lemma GeneratorSource_read_end:
  "buf @ concat g = [] \<Longrightarrow> \<exists>m. GeneratorSource_read len (g, buf) = Inl (EndOfFile m)"
  by (induction len "(g, buf)" arbitrary: g buf rule: GeneratorSource_read.induct) auto

interpretation generator_source: byte_source GeneratorSource_read
  "\<lambda>(g, buf). buf @ concat g" "\<lambda>_. True"
proof unfold_locales
  fix s :: "string list \<times> string" and len :: nat
  obtain g buf where s: "s = (g, buf)" by fastforce
  show "\<exists>d s'. GeneratorSource_read len s = Inr (d, s') \<and> d \<noteq> [] \<and> length d \<le> len
      \<and> (case s of (g, buf) \<Rightarrow> buf @ concat g) = d @ (case s' of (g, buf) \<Rightarrow> buf @ concat g) \<and> True"
    if "(case s of (g, buf) \<Rightarrow> buf @ concat g) \<noteq> []" "0 < len"
    using GeneratorSource_read_some [of g buf len] that s by fastforce
  show "\<exists>m. GeneratorSource_read len s = Inl (EndOfFile m)"
    if "(case s of (g, buf) \<Rightarrow> buf @ concat g) = []"
    using GeneratorSource_read_end [of buf g len] that s by simp
qed

text \<open>A buffered source over a source is again a source: the buffer loses and reorders nothing.\<close>

lemma buffered_read_buffer:
  assumes "io_ok b" and "bufUsed b > 0" and "0 < len"
  shows "\<exists>d b'. buffered_read ru len (b, s) = Inr (d, b', s) \<and> d \<noteq> [] \<and> length d \<le> len
    \<and> io_ok b' \<and> io_contents b = d @ io_contents b'"
proof -
  define n where "n = min len (length (getReadBuffer b))"
  have "n \<le> length (getReadBuffer b)" by (simp add: n_def)
  from io_buffer.read_front [OF assms(1) this] obtain b' where
    b': "consumed n b = Inr b'" "io_ok b'" "take n (getReadBuffer b) @ io_contents b' = io_contents b"
    by blast
  have "0 < n" using assms getReadBuffer_nonempty by (simp add: n_def)
  then have "take n (getReadBuffer b) \<noteq> []" using assms getReadBuffer_nonempty by simp
  moreover have "buffered_read ru len (b, s) = Inr (take n (getReadBuffer b), b', s)"
    using assms(2) b'(1) by (simp add: buffered_read_def n_def Let_def)
  ultimately show ?thesis using b' by (auto simp: n_def)
qed

locale buffered_source = byte_source
begin

lemma buffered_refill:
  assumes "io_ok b" and "bufUsed b = 0" and "inv s" and "left s \<noteq> []"
  shows "\<exists>b' s'. buffered_read rd len (b, s) = buffered_read rd len (b', s') \<and> io_ok b' \<and> bufUsed b' > 0
    \<and> inv s' \<and> left s = io_contents b' @ left s'"
proof -
  obtain b1 off free where gw: "getWriteBuffer b = Inr (b1, off, free)" "0 < free"
    using getWriteBuffer_some [OF assms(1)] assms(1,2) by (auto simp: io_ok_def)
  from rd_some [OF assms(3,4) gw(2)] obtain d s' where
    d: "rd free s = Inr (d, s')" "d \<noteq> []" "length d \<le> free" "left s = d @ left s'" "inv s'" by blast
  from d(3) obtain b' where
    b': "added (length d) (memcpy_into off d b1) = Inr b'" "io_ok b'" "io_contents b' = io_contents b @ d"
      "bufUsed b' = bufUsed b + length d"
    by (rule write_append [OF assms(1) gw(1)]) blast
  have "buffered_read rd len (b, s) = buffered_read rd len (b', s')"
    using assms(2) gw d b' by (simp add: buffered_read_def)
  moreover have "io_contents b = []" using assms(2) by simp
  then have "left s = io_contents b' @ left s'" using b'(3) d(4) by simp
  moreover have "bufUsed b' > 0" using b'(4) d(2) by simp
  ultimately show ?thesis using b'(2) d(5) by blast
qed

lemma buffered_end:
  assumes "io_ok b" and "bufUsed b = 0" and "inv s" and "left s = []"
  shows "\<exists>m. buffered_read rd len (b, s) = Inl (EndOfFile m)"
proof -
  obtain b1 off free where gw: "getWriteBuffer b = Inr (b1, off, free)" "0 < free"
    using getWriteBuffer_some [OF assms(1)] assms(1,2) by (auto simp: io_ok_def)
  then show ?thesis using rd_end [OF assms(3,4) gw(2)] assms(2) by (auto simp: buffered_read_def)
qed

end

sublocale buffered_source \<subseteq> buffered: byte_source "buffered_read rd"
  "\<lambda>(b, s). io_contents b @ left s" "\<lambda>(b, s). io_ok b \<and> inv s"
proof unfold_locales
  fix bs and len :: nat
  assume inv: "case bs of (b, s) \<Rightarrow> io_ok b \<and> inv s"
  obtain b s where bs: "bs = (b, s)" by fastforce
  from inv have ok: "io_ok b" "inv s" using bs by simp_all
  show "\<exists>d bs'. buffered_read rd len bs = Inr (d, bs') \<and> d \<noteq> [] \<and> length d \<le> len \<and>
      (case bs of (b, s) \<Rightarrow> io_contents b @ left s) = d @ (case bs' of (b, s) \<Rightarrow> io_contents b @ left s) \<and>
      (case bs' of (b, s) \<Rightarrow> io_ok b \<and> inv s)"
    if ne: "(case bs of (b, s) \<Rightarrow> io_contents b @ left s) \<noteq> []" and "0 < len"
  proof -
    obtain b1 s1 where b1: "buffered_read rd len (b, s) = buffered_read rd len (b1, s1)" "io_ok b1"
        "bufUsed b1 > 0" "inv s1" "io_contents b @ left s = io_contents b1 @ left s1"
      using ok ne bs buffered_refill [OF ok(1) _ ok(2), of len] by (cases "bufUsed b = 0") auto
    from buffered_read_buffer [OF b1(2,3) \<open>0 < len\<close>, of rd s1] obtain d b2 where
      "buffered_read rd len (b1, s1) = Inr (d, b2, s1)" "d \<noteq> []" "length d \<le> len" "io_ok b2"
      "io_contents b1 = d @ io_contents b2" by blast
    then show ?thesis using b1 bs by auto
  qed
  show "\<exists>m. buffered_read rd len bs = Inl (EndOfFile m)"
    if "(case bs of (b, s) \<Rightarrow> io_contents b @ left s) = []"
    using that bs buffered_end [OF ok(1) _ ok(2)] by simp
qed

interpretation string_source: buffered_source StringSource_read "\<lambda>s. s" "\<lambda>_. True" ..

interpretation generator_source: buffered_source GeneratorSource_read
  "\<lambda>(g, buf). buf @ concat g" "\<lambda>_. True" ..

lemma source_call_string:
  "source_call StringSource_read len s =
     (if len \<le> length s then Some (Inr (take len s, drop len s))
      else Some (Inl (EndOfFile ''end of string reached'')))"
proof (cases "len \<le> length s")
  case True
  then show ?thesis
    using string_source.fill_exact [of len s "[]"] by (auto simp: source_call_def)
next
  case False
  have "source_fill StringSource_read len acc s = Some (Inl (EndOfFile ''end of string reached''))" for acc
    using False by (simp add: source_fill.simps [of _ len] StringSource_read_def source_fill.simps [of _ _ _ "[]"])
  then show ?thesis using False by (simp add: source_call_def)
qed

section \<open>Properties\<close>

text \<open>C38: whatever is written to a \<^verbatim>\<open>BufferedSink\<close> over a sink that does not fail arrives below it in full
  and in order once it is flushed, behind what was buffered before, and no assertion of the ring buffer fails.\<close>

theorem buffered_sink_delivers:
  assumes "sink_ok b"
  shows "\<exists>b' w' b'' w''. sink_write StringSink_write d (b, w) = Inr (b', w')
    \<and> sink_flush StringSink_write (b', w') = Inr (b'', w'') \<and> w'' = w @ io_contents b @ d \<and> bufUsed b'' = 0"
  using string_sink.write_flush_seen [OF assms] by simp

theorem buffered_sink_delivers_witness:
  "sink_ok (newIoBuffer 4) \<and> (\<exists>b' w' b'' w''. sink_write StringSink_write ''abc'' (newIoBuffer 4, ''x'') = Inr (b', w')
    \<and> sink_flush StringSink_write (b', w') = Inr (b'', w'') \<and> w'' = ''xabc'')"
proof -
  have ok: "sink_ok (newIoBuffer 4)" by code_simp
  show ?thesis using buffered_sink_delivers [OF ok, of "''abc''" "''x''"] ok by (auto simp: newIoBuffer_ok)
qed

text \<open>C39: \<^verbatim>\<open>Source::operator()\<close> on a \<^verbatim>\<open>BufferedSource\<close> over a generator delivers exactly the requested number of
  bytes if they are there, buffered bytes first, and throws \<^verbatim>\<open>EndOfFile\<close> otherwise: the buffer loses, repeats
  and reorders nothing, however the generator cuts its output into chunks.\<close>

theorem buffered_source_exact:
  assumes "io_ok b"
  shows "if len \<le> length (io_contents b @ buf @ concat g)
    then \<exists>b' g' buf'. source_call (buffered_read GeneratorSource_read) len (b, g, buf) =
        Some (Inr (take len (io_contents b @ buf @ concat g), b', g', buf'))
      \<and> io_ok b' \<and> io_contents b' @ buf' @ concat g' = drop len (io_contents b @ buf @ concat g)
    else \<exists>m. source_call (buffered_read GeneratorSource_read) len (b, g, buf) = Some (Inl (EndOfFile m))"
  using generator_source.buffered.fill_exact [of "(b, g, buf)" len "[]"]
    generator_source.buffered.fill_short [of "(b, g, buf)" len "[]"] assms
  by (auto simp: source_call_def split: if_splits)

theorem buffered_source_exact_witness:
  "io_ok (newIoBuffer 2) \<and> (\<exists>b' g' buf'. source_call (buffered_read GeneratorSource_read) 3
     (newIoBuffer 2, [''ab'', '''', ''cd''], []) = Some (Inr (''abc'', b', g', buf')))"
proof -
  have ok: "io_ok (newIoBuffer 2)" by code_simp
  show ?thesis using buffered_source_exact [OF ok, of 3 "[]" "[''ab'', '''', ''cd'']"] ok
    by (auto simp: newIoBuffer_ok)
qed

end
