(* ===== verification/Lix_Serialise.thy ===== *)
theory Lix_Serialise
  imports Lix_Streams
begin

text \<open>
  The wire format of \<^verbatim>\<open>libutil/serialise.{hh,cc}\<close>: 64-bit little-endian integers, strings with
  their length and padding to eight bytes, lists and sets of strings, errors, and the framed
  streams of \<^verbatim>\<open>serialise.hh\<close> and \<^verbatim>\<open>async-io.cc\<close>.

  Every reader exists twice in the code, over a \<^verbatim>\<open>Source\<close> and over an \<^verbatim>\<open>AsyncInputStream\<close>; the two
  differ only in how they obtain an exact number of bytes and which exception they throw when
  the stream ends. The readers here take that operation as their first argument: \<open>source_bytes\<close>
  is \<^verbatim>\<open>Source::operator()\<close> on a \<^verbatim>\<open>StringSource\<close>, \<open>async_bytes\<close> the checked \<^verbatim>\<open>readRange\<close>.
  A failing allocation of a huge string is not modelled.
\<close>

type_synonym 's bytes_of = "nat \<Rightarrow> 's \<Rightarrow> (string \<times> 's) result"

section \<open>Writing\<close>

definition putNum :: "64 word \<Rightarrow> string" where
  "putNum n =
     [char_of_byte (ucast (n AND 0xff)),
      char_of_byte (ucast (drop_bit 8 n AND 0xff)),
      char_of_byte (ucast (drop_bit 16 n AND 0xff)),
      char_of_byte (ucast (drop_bit 24 n AND 0xff)),
      char_of_byte (ucast (drop_bit 32 n AND 0xff)),
      char_of_byte (ucast (drop_bit 40 n AND 0xff)),
      char_of_byte (ucast (drop_bit 48 n AND 0xff)),
      char_of_byte (ucast (drop_bit 56 n) AND 0xff)]"

definition padding :: "nat \<Rightarrow> string" where
  "padding unpadded =
     replicate (if unpadded mod 8 \<noteq> 0 then 8 - unpadded mod 8 else 0) (CHR 0x00)"

definition writePadding :: "nat \<Rightarrow> (string \<Rightarrow> 'w \<Rightarrow> 'w result) \<Rightarrow> 'w \<Rightarrow> 'w result" where
  "writePadding len sink w =
     (if len mod 8 \<noteq> 0 then sink (replicate (8 - len mod 8) (CHR 0x00)) w else Inr w)"

definition putString :: "string \<Rightarrow> string" where
  "putString s = putNum (word_of_nat (length s)) @ s @ padding (length s)"

definition putStrings :: "string list \<Rightarrow> string" where
  "putStrings ss = putNum (word_of_nat (length ss)) @ concat (map putString ss)"

definition putStringSet :: "string oset \<Rightarrow> string" where
  "putStringSet ss = putNum (word_of_nat (length ss)) @ concat (map putString ss)"

text \<open>What is sent of an error: its verbosity level, its message and the hints of its traces.\<close>

record ErrorInfo =
  level :: nat
  msg :: string
  traces :: "string list"

definition putError :: "ErrorInfo \<Rightarrow> string" where
  "putError info =
     putString ''Error'' @
     putNum (word_of_nat (level info)) @
     putString ''Error'' @
     putString (msg info) @
     putNum 0 @
     putNum (word_of_nat (length (traces info))) @
     concat (map (\<lambda>hint. putNum 0 @ putString hint) (traces info))"

section \<open>Reading\<close>

fun readLittleEndian_loop :: "nat \<Rightarrow> string \<Rightarrow> 64 word \<Rightarrow> 64 word" where
  "readLittleEndian_loop i [] x = x"
| "readLittleEndian_loop i (p # ps) x =
     readLittleEndian_loop (i + 1) ps (x OR push_bit (i * 8) (ucast (byte_of_char p)))"

definition readLittleEndian :: "string \<Rightarrow> 64 word" where
  "readLittleEndian p = readLittleEndian_loop 0 p 0"

definition source_bytes :: "string bytes_of" where
  "source_bytes len s =
     (case source_call StringSource_read len s of
        Some r \<Rightarrow> r
      | None \<Rightarrow> Inl (UndefinedBehaviour ''endless loop''))"

definition async_bytes :: "string bytes_of" where
  "async_bytes len s =
     (if len \<le> length s then Inr (take len s, drop len s)
      else Inl (SerialisationError ''stream ended unexpectedly''))"

text \<open>\<open>tmax\<close> is \<^verbatim>\<open>std::numeric_limits<T>::max()\<close>.\<close>

definition readNum :: "'s bytes_of \<Rightarrow> nat \<Rightarrow> 's \<Rightarrow> (nat \<times> 's) result" where
  "readNum src tmax s =
     bindr (src 8 s) (\<lambda>(buf, s').
     let n = readLittleEndian buf
     in if unat n > tmax
        then Inl (SerialisationError ''serialised integer %d is too large for type %s'')
        else Inr (unat n, s'))"

definition max_bool :: nat where "max_bool = 1"
definition max_unsigned :: nat where "max_unsigned = 2 ^ 32 - 1"
definition max_size :: nat where "max_size = 2 ^ 64 - 1"

definition readBool :: "'s bytes_of \<Rightarrow> 's \<Rightarrow> (bool \<times> 's) result" where
  "readBool src s = bindr (readNum src max_size s) (\<lambda>(n, s'). Inr (n \<noteq> 0, s'))"

definition readPadding :: "'s bytes_of \<Rightarrow> nat \<Rightarrow> 's \<Rightarrow> 's result" where
  "readPadding src len s =
     (if len mod 8 \<noteq> 0 then
        bindr (src (8 - len mod 8) s) (\<lambda>(zero, s').
        if \<exists>c \<in> set zero. c \<noteq> CHR 0x00 then Inl (SerialisationError ''non-zero padding'')
        else Inr s')
      else Inr s)"

definition readString :: "'s bytes_of \<Rightarrow> nat \<Rightarrow> 's \<Rightarrow> (string \<times> 's) result" where
  "readString src max_len s =
     bindr (readNum src max_size s) (\<lambda>(len, s1).
     if len > max_len then Inl (SerialisationError ''string is too long'')
     else
       bindr (src len s1) (\<lambda>(res, s2).
       bindr (readPadding src len s2) (\<lambda>s3. Inr (res, s3))))"

fun readStrings_loop :: "'s bytes_of \<Rightarrow> nat \<Rightarrow> 's \<Rightarrow> (string list \<times> 's) result" where
  "readStrings_loop src 0 s = Inr ([], s)"
| "readStrings_loop src (Suc count) s =
     bindr (readString src max_size s) (\<lambda>(x, s1).
     bindr (readStrings_loop src count s1) (\<lambda>(xs, s2). Inr (x # xs, s2)))"

definition readStrings :: "'s bytes_of \<Rightarrow> 's \<Rightarrow> (string list \<times> 's) result" where
  "readStrings src s = bindr (readNum src max_size s) (\<lambda>(count, s1). readStrings_loop src count s1)"

definition readStringSet :: "'s bytes_of \<Rightarrow> 's \<Rightarrow> (string oset \<times> 's) result" where
  "readStringSet src s = bindr (readStrings src s) (\<lambda>(ss, s'). Inr (oset_of ss, s'))"

fun readTraces :: "'s bytes_of \<Rightarrow> nat \<Rightarrow> 's \<Rightarrow> (string list \<times> 's) result" where
  "readTraces src 0 s = Inr ([], s)"
| "readTraces src (Suc n) s =
     bindr (readNum src max_size s) (\<lambda>(havePos, s1).
     if havePos \<noteq> 0 then Inl (AssertionFailed ''havePos == 0'')
     else
       bindr (readString src max_size s1) (\<lambda>(hint, s2).
       bindr (readTraces src n s2) (\<lambda>(hints, s3). Inr (hint # hints, s3))))"

definition readError :: "'s bytes_of \<Rightarrow> 's \<Rightarrow> (ErrorInfo \<times> 's) result" where
  "readError src s =
     bindr (readString src max_size s) (\<lambda>(type, s1).
     if type \<noteq> ''Error'' then Inl (AssertionFailed ''type == Error'')
     else
       bindr (readNum src max_unsigned s1) (\<lambda>(lvl, s2).
       bindr (readString src max_size s2) (\<lambda>(_, s3).
       bindr (readString src max_size s3) (\<lambda>(m, s4).
       bindr (readNum src max_size s4) (\<lambda>(havePos, s5).
       if havePos \<noteq> 0 then Inl (AssertionFailed ''havePos == 0'')
       else
         bindr (readNum src max_size s5) (\<lambda>(nrTraces, s6).
         bindr (readTraces src nrTraces s6) (\<lambda>(hints, s7).
         Inr (\<lparr>level = lvl mod 2 ^ 8, msg = m, traces = hints\<rparr>, s7))))))))"

section \<open>Framed streams\<close>

text \<open>
  \<^verbatim>\<open>AsyncFramedOutputStream\<close> writes each chunk behind its length and a zero at the end;
  \<^verbatim>\<open>FramedSource\<close> and \<^verbatim>\<open>AsyncFramedInputStream\<close> read it back.
\<close>

definition framed_write :: "string \<Rightarrow> string" where
  "framed_write chunk = putNum (word_of_nat (length chunk)) @ chunk"

definition framed_finish :: string where
  "framed_finish = putNum 0"

record 's FramedSource =
  framed_from :: 's
  framed_eof :: bool
  framed_pending :: string

definition framed_read ::
  "'s bytes_of \<Rightarrow> nat \<Rightarrow> 's FramedSource \<Rightarrow> (string \<times> 's FramedSource) result" where
  "framed_read src len f =
     (if framed_eof f then Inl (EndOfFile ''reached end of FramedSource'')
      else
        bindr (if framed_pending f = [] then
                 bindr (readNum src max_unsigned (framed_from f)) (\<lambda>(n, s1).
                 if n = 0 then Inr (f\<lparr>framed_from := s1, framed_eof := True\<rparr>)
                 else bindr (src n s1) (\<lambda>(d, s2). Inr (f\<lparr>framed_from := s2, framed_pending := d\<rparr>)))
               else Inr f) (\<lambda>f'.
        if framed_eof f' then Inr ([], f')
        else Inr (take len (framed_pending f'), f'\<lparr>framed_pending := drop len (framed_pending f')\<rparr>)))"

text \<open>
  \<^verbatim>\<open>AsyncFramedInputStream::finish\<close> and the destructor of \<^verbatim>\<open>FramedSource\<close>: skip the frames up to and
  including the terminating zero.
\<close>

partial_function (option) framed_skip_loop :: "'s bytes_of \<Rightarrow> 's \<Rightarrow> 's result option" where
  [code]: "framed_skip_loop src s =
     (case readNum src max_unsigned s of
        Inl e \<Rightarrow> Some (Inl e)
      | Inr (n, s1) \<Rightarrow>
          if n = 0 then Some (Inr s1)
          else case src n s1 of
            Inl e \<Rightarrow> Some (Inl e)
          | Inr (d, s2) \<Rightarrow> framed_skip_loop src s2)"

definition framed_skip :: "'s bytes_of \<Rightarrow> 's FramedSource \<Rightarrow> 's FramedSource result option" where
  "framed_skip src f =
     (if framed_eof f then Some (Inr f)
      else case framed_skip_loop src (framed_from f) of
        None \<Rightarrow> None
      | Some (Inl e) \<Rightarrow> Some (Inl e)
      | Some (Inr s) \<Rightarrow> Some (Inr (f\<lparr>framed_from := s, framed_eof := True\<rparr>)))"

section \<open>Integers and padding\<close>

lemma length_putNum [simp]: "length (putNum n) = 8"
  by (simp add: putNum_def)

lemma bit_byte_of_word:
  "bit (ucast (ucast (drop_bit k n AND 0xff) :: 8 word) :: 64 word) i \<longleftrightarrow>
   i < 8 \<and> bit (n :: 64 word) (k + i)"
  "bit (ucast (ucast (n AND 0xff) :: 8 word) :: 64 word) i \<longleftrightarrow> i < 8 \<and> bit n i"
  by (auto simp: bit_ucast_iff bit_drop_bit_eq ac_simps dest: bit_imp_le_length)

lemma readLittleEndian_putNum: "readLittleEndian (putNum n) = n"
proof (rule bit_word_eqI)
  fix i
  assume "i < LENGTH(64)"
  then have i: "i < 64" by simp
  have last: "(ucast (drop_bit 56 n) AND 0xff :: 8 word) = ucast (drop_bit 56 n AND 0xff)"
    by (rule bit_word_eqI) (auto simp: bit_ucast_iff bit_and_iff)
  have bits: "bit (readLittleEndian (putNum n)) i \<longleftrightarrow>
      i < 8 \<and> bit n i \<or> 8 \<le> i \<and> i - 8 < 8 \<and> bit n (8 + (i - 8)) \<or>
      16 \<le> i \<and> i - 16 < 8 \<and> bit n (16 + (i - 16)) \<or> 24 \<le> i \<and> i - 24 < 8 \<and> bit n (24 + (i - 24)) \<or>
      32 \<le> i \<and> i - 32 < 8 \<and> bit n (32 + (i - 32)) \<or> 40 \<le> i \<and> i - 40 < 8 \<and> bit n (40 + (i - 40)) \<or>
      48 \<le> i \<and> i - 48 < 8 \<and> bit n (48 + (i - 48)) \<or> 56 \<le> i \<and> i - 56 < 8 \<and> bit n (56 + (i - 56))"
    unfolding readLittleEndian_def putNum_def last using i
    by (simp only: readLittleEndian_loop.simps byte_of_char_of_byte bit_or_iff bit_push_bit_iff
        bit_byte_of_word) (simp add: bit_drop_bit_eq)
  define j k where "j = i mod 8" and "k = i div 8"
  have eq: "i = 8 * k + j" "j < 8" and "k < 8" using i by (auto simp: j_def k_def)
  then have "k = 0 \<or> k = 1 \<or> k = 2 \<or> k = 3 \<or> k = 4 \<or> k = 5 \<or> k = 6 \<or> k = 7" by arith
  with eq consider "i = j" | "i = 8 + j" | "i = 16 + j" | "i = 24 + j" | "i = 32 + j" | "i = 40 + j"
    | "i = 48 + j" | "i = 56 + j" by auto
  then show "bit (readLittleEndian (putNum n)) i \<longleftrightarrow> bit n i"
    unfolding bits by cases (use \<open>j < 8\<close> in simp_all)
qed

lemma bit_push_byte: "bit (push_bit (k * 8) (ucast (p :: 8 word)) :: 64 word) i \<longleftrightarrow>
        i < 64 \<and> k * 8 \<le> i \<and> i - k * 8 < 8 \<and> bit p (i - k * 8)"
proof (cases "bit p (i - k * 8)")
  case True
  then have "i - k * 8 < 8" using bit_imp_le_length [of p "i - k * 8"] by simp
  moreover from this have "i - k * 8 < 64" by linarith
  ultimately show ?thesis using True by (simp only: bit_push_bit_iff bit_ucast_iff) (simp add: conj_commute)
next
  case False
  then show ?thesis by (simp only: bit_push_bit_iff bit_ucast_iff) simp
qed

lemma bit_readLittleEndian_loop:
  "bit (readLittleEndian_loop k ps x) i \<longleftrightarrow>
   bit x i \<or> i < 64 \<and> k \<le> i div 8 \<and> i div 8 < k + length ps \<and> bit (byte_of_char (ps ! (i div 8 - k))) (i mod 8)"
proof (induction ps arbitrary: k x)
  case Nil
  then show ?case by auto
next
  case (Cons p ps)
  have step: "bit (x OR push_bit (k * 8) (ucast (byte_of_char p))) i \<longleftrightarrow>
      bit x i \<or> i < 64 \<and> i div 8 = k \<and> bit (byte_of_char p) (i mod 8)"
  proof -
    have "bit (push_bit (k * 8) (ucast (byte_of_char p)) :: 64 word) i \<longleftrightarrow>
        i < 64 \<and> k * 8 \<le> i \<and> i - k * 8 < 8 \<and> bit (byte_of_char p) (i - k * 8)"
      by (rule bit_push_byte)
    also have "\<dots> \<longleftrightarrow> i < 64 \<and> i div 8 = k \<and> bit (byte_of_char p) (i mod 8)"
    proof -
      have sub: "i div 8 = k \<Longrightarrow> i - k * 8 = i mod 8"
        using minus_div_mult_eq_mod [of i 8] by simp
      have "k * 8 \<le> i \<and> i - k * 8 < 8 \<longleftrightarrow> i div 8 = k"
      proof
        assume "k * 8 \<le> i \<and> i - k * 8 < 8"
        then have "k * 8 \<le> i" "i < k * 8 + 8" by (auto simp: less_diff_conv2)
        then have "8 * k \<le> i" "i < 8 * Suc k" by (simp_all add: mult.commute)
        then show "i div 8 = k" by (rule div_nat_eqI)
      next
        assume "i div 8 = k"
        then show "k * 8 \<le> i \<and> i - k * 8 < 8"
          using div_times_less_eq_dividend [of i 8] sub by simp
      qed
      then show ?thesis using sub by (cases "i div 8 = k") auto
    qed
    finally show ?thesis by (simp add: bit_or_iff)
  qed
  consider "i div 8 < k" | "i div 8 = k" | m where "i div 8 = Suc k + m"
    by (metis add_Suc less_imp_Suc_add linorder_neqE_nat)
  then show ?case
    unfolding readLittleEndian_loop.simps Cons.IH step by cases auto
qed

lemma putNum_readLittleEndian:
  assumes "length buf = 8"
  shows "putNum (readLittleEndian buf) = buf"
proof -
  have byte: "ucast (drop_bit (8 * k) (readLittleEndian buf) AND 0xff) = byte_of_char (buf ! k)"
    if "k < 8" for k
  proof (rule bit_word_eqI)
    fix i
    assume "i < LENGTH(8)"
    then have "i < 8" by simp
    then show "bit (ucast (drop_bit (8 * k) (readLittleEndian buf) AND 0xff) :: 8 word) i \<longleftrightarrow>
        bit (byte_of_char (buf ! k)) i"
      using that assms
      by (simp add: bit_ucast_iff bit_drop_bit_eq readLittleEndian_def bit_readLittleEndian_loop)
  qed
  have last: "(ucast (drop_bit 56 n) AND 0xff :: 8 word) = ucast (drop_bit 56 n AND 0xff)" for n :: "64 word"
    by (rule bit_word_eqI) (auto simp: bit_ucast_iff bit_and_iff)
  have "putNum (readLittleEndian buf) = map (\<lambda>k. buf ! k) [0, 1, 2, 3, 4, 5, 6, 7]"
    using byte [of 0] byte [of 1] byte [of 2] byte [of 3] byte [of 4] byte [of 5] byte [of 6] byte [of 7]
    by (simp add: putNum_def last)
  also have "\<dots> = map (\<lambda>k. buf ! k) [0..<8]" by (simp add: upt_rec numeral_eq_Suc)
  also have "\<dots> = buf" using assms by (metis map_nth)
  finally show ?thesis .
qed

section \<open>Reading what was written\<close>

text \<open>
  The laws a reader needs of the stream below it: asking for as many bytes as a chunk has returns
  the chunk and leaves the rest, and nothing is returned that was not in the stream. Both
  streams of the code satisfy them. They make the format canonical: what a reader accepts is
  byte for byte what the writer writes for the value it returns.
\<close>

locale exact_bytes =
  fixes src :: "string bytes_of"
  assumes src_append: "src (length d) (d @ r) = Inr (d, r)"
    and src_exact: "src n s = Inr (d, r) \<Longrightarrow> s = d @ r \<and> length d = n"
begin

lemma readNum_canonical:
  assumes "readNum src tmax s = Inr (n, r)"
  shows "s = putNum (word_of_nat n) @ r \<and> n \<le> tmax \<and> n \<le> max_size"
proof -
  obtain buf where buf: "src 8 s = Inr (buf, r)" "n = unat (readLittleEndian buf)" "n \<le> tmax"
    using assms by (auto simp: readNum_def bindr_eq_Inr_iff Let_def split: if_splits)
  from src_exact [OF buf(1)] have "s = buf @ r" "length buf = 8" by simp_all
  moreover have "n \<le> max_size"
  proof -
    have "unat (readLittleEndian buf) < 2 ^ LENGTH(64)" by (rule unsigned_less)
    then show ?thesis using buf(2) by (simp add: max_size_def)
  qed
  ultimately show ?thesis using buf by (simp add: putNum_readLittleEndian)
qed

lemma readPadding_canonical:
  assumes "readPadding src len s = Inr r"
  shows "s = padding len @ r"
proof (cases "len mod 8 = 0")
  case True
  then show ?thesis using assms by (simp add: readPadding_def padding_def)
next
  case False
  then obtain z where z: "src (8 - len mod 8) s = Inr (z, r)" "\<forall>c \<in> set z. c = CHR 0x00"
    using assms by (auto simp: readPadding_def bindr_eq_Inr_iff split: if_splits)
  from src_exact [OF z(1)] have "s = z @ r" "length z = 8 - len mod 8" by simp_all
  moreover have "z = replicate (length z) (CHR 0x00)" using z(2) by (simp add: replicate_length_same)
  ultimately show ?thesis using False by (simp add: padding_def)
qed

lemma readString_canonical:
  assumes "readString src max_len s = Inr (x, r)"
  shows "s = putString x @ r \<and> length x \<le> max_len \<and> length x \<le> max_size"
proof -
  obtain len s1 s2 where st: "readNum src max_size s = Inr (len, s1)" "len \<le> max_len"
      "src len s1 = Inr (x, s2)" "readPadding src len s2 = Inr r"
    using assms by (auto simp: readString_def bindr_eq_Inr_iff split: if_splits)
  show ?thesis
    using readNum_canonical [OF st(1)] src_exact [OF st(3)] readPadding_canonical [OF st(4)] st(2)
    by (auto simp: putString_def)
qed

lemma src_append_eq: "n = length d \<Longrightarrow> src n (d @ r) = Inr (d, r)"
  by (simp add: src_append)

lemma readNum_putNum: "unat n \<le> tmax \<Longrightarrow> readNum src tmax (putNum n @ r) = Inr (unat n, r)"
  using src_append [of "putNum n" r] by (simp add: readNum_def readLittleEndian_putNum Let_def)

lemma readNum_too_large:
  "tmax < unat n \<Longrightarrow> \<exists>m. readNum src tmax (putNum n @ r) = Inl (SerialisationError m)"
  using src_append [of "putNum n" r] by (simp add: readNum_def readLittleEndian_putNum Let_def)

lemma readNum_of_nat:
  "k \<le> tmax \<Longrightarrow> tmax \<le> max_size \<Longrightarrow> readNum src tmax (putNum (word_of_nat k) @ r) = Inr (k, r)"
  using readNum_putNum [of "word_of_nat k" tmax r] by (simp add: unat_of_nat max_size_def)

lemma readPadding_padding: "readPadding src len (padding len @ r) = Inr r"
  using src_append [of "padding len" r] by (auto simp: readPadding_def padding_def)

lemma readString_putString:
  assumes "length x \<le> max_size" and "length x \<le> max_len"
  shows "readString src max_len (putString x @ r) = Inr (x, r)"
  using assms readNum_of_nat [of "length x" max_size "x @ padding (length x) @ r"]
  by (simp add: readString_def putString_def src_append readPadding_padding)

lemma readString_too_long:
  assumes "length x \<le> max_size" and "max_len < length x"
  shows "readString src max_len (putString x @ r) = Inl (SerialisationError ''string is too long'')"
  using assms readNum_of_nat [of "length x" max_size "x @ padding (length x) @ r"]
  by (simp add: readString_def putString_def)

lemma readStrings_loop_put:
  "\<forall>x \<in> set xs. length x \<le> max_size \<Longrightarrow>
   readStrings_loop src (length xs) (concat (map putString xs) @ r) = Inr (xs, r)"
  by (induction xs) (auto simp: readString_putString)

lemma readStrings_putStrings:
  "length xs \<le> max_size \<Longrightarrow> \<forall>x \<in> set xs. length x \<le> max_size \<Longrightarrow>
   readStrings src (putStrings xs @ r) = Inr (xs, r)"
  using readNum_of_nat [of "length xs" max_size "concat (map putString xs) @ r"]
  by (simp add: readStrings_def putStrings_def readStrings_loop_put)

lemma readStringSet_putStringSet:
  assumes "oset_ok xs" and "length xs \<le> max_size" and "\<forall>x \<in> set xs. length x \<le> max_size"
  shows "readStringSet src (putStringSet xs @ r) = Inr (xs, r)"
  using readStrings_putStrings [OF assms(2,3), of r] oset_of_sorted [OF assms(1)]
  by (simp add: readStringSet_def putStringSet_def putStrings_def)

lemma readTraces_put:
  "\<forall>x \<in> set xs. length x \<le> max_size \<Longrightarrow>
   readTraces src (length xs) (concat (map (\<lambda>hint. putNum 0 @ putString hint) xs) @ r) = Inr (xs, r)"
  by (induction xs) (auto simp: readString_putString readNum_putNum)

lemma readError_putError:
  assumes "level info < 2 ^ 8" and "length (msg info) \<le> max_size"
    and "length (traces info) \<le> max_size" and "\<forall>x \<in> set (traces info). length x \<le> max_size"
  shows "readError src (putError info @ r) = Inr (info, r)"
proof -
  have e: "length ''Error'' \<le> max_size" by (simp add: max_size_def)
  have l: "level info \<le> max_unsigned" "max_unsigned \<le> max_size"
    using assms(1) by (simp_all add: max_unsigned_def max_size_def)
  have z: "unat (0 :: 64 word) \<le> max_size" by simp
  note put = readString_putString [OF e e] readNum_of_nat [OF l] readNum_putNum [OF z]
    readString_putString [OF assms(2) assms(2)] readNum_of_nat [OF assms(3) order_refl]
    readTraces_put [OF assms(4)]
  show ?thesis
    using assms(1) by (simp only: readError_def putError_def append_assoc put bindr_simps case_prod_conv) simp
qed

end

text \<open>
  Frames: a chunk can be sent if it is not empty, since a zero length ends the stream, and if its
  length fits the 32 bits that the reader accepts.
\<close>

definition frame_ok :: "string \<Rightarrow> bool" where
  "frame_ok c \<longleftrightarrow> c \<noteq> [] \<and> length c \<le> max_unsigned"

context exact_bytes
begin

lemma readNum_frame:
  "frame_ok c \<Longrightarrow> readNum src max_unsigned (framed_write c @ r) = Inr (length c, c @ r)"
  using readNum_of_nat [of "length c" max_unsigned "c @ r"]
  by (simp add: frame_ok_def framed_write_def max_unsigned_def max_size_def)

lemma readNum_finish: "readNum src max_unsigned (framed_finish @ r) = Inr (0, r)"
  using readNum_putNum [of 0 max_unsigned r] by (simp add: framed_finish_def)

lemma framed_read_pending:
  "p \<noteq> [] \<Longrightarrow> framed_read src len \<lparr>framed_from = s, framed_eof = False, framed_pending = p\<rparr> =
     Inr (take len p, \<lparr>framed_from = s, framed_eof = False, framed_pending = drop len p\<rparr>)"
  by (simp add: framed_read_def)

lemma framed_read_next:
  "frame_ok c \<Longrightarrow>
   framed_read src len \<lparr>framed_from = framed_write c @ s, framed_eof = False, framed_pending = []\<rparr> =
     Inr (take len c, \<lparr>framed_from = s, framed_eof = False, framed_pending = drop len c\<rparr>)"
  by (auto simp: framed_read_def readNum_frame src_append frame_ok_def)

lemma framed_read_finish:
  "framed_read src len \<lparr>framed_from = framed_finish @ s, framed_eof = False, framed_pending = []\<rparr> =
     Inr ([], \<lparr>framed_from = s, framed_eof = True, framed_pending = []\<rparr>)"
  by (simp add: framed_read_def readNum_finish)

lemma framed_drain:
  "\<forall>c \<in> set cs. frame_ok c \<Longrightarrow>
   source_drain_loop (framed_read src) acc
     \<lparr>framed_from = concat (map framed_write cs) @ framed_finish @ r, framed_eof = False, framed_pending = p\<rparr> =
   Some (Inr (acc @ p @ concat cs))"
proof (induction "length (p @ concat cs)" arbitrary: acc p cs rule: less_induct)
  case less
  have pos: "0 < drainBufSize" by (simp add: drainBufSize_def)
  let ?k = drainBufSize
  show ?case
  proof (cases p)
    case (Cons x xs)
    then have "length (drop ?k p @ concat cs) < length (p @ concat cs)" using pos by simp
    from less.hyps [OF this less.prems, of "acc @ take ?k p"] Cons show ?thesis
      by (simp add: source_drain_loop.simps [of _ acc] framed_read_pending)
  next
    case Nil
    show ?thesis
    proof (cases cs)
      case (Cons c cs')
      then have c: "frame_ok c" "\<forall>c \<in> set cs'. frame_ok c" "c \<noteq> []"
        using less.prems by (auto simp: frame_ok_def)
      have "length (drop ?k c @ concat cs') < length (p @ concat cs)" using Cons Nil pos c(3) by simp
      from less.hyps [OF this c(2), of "acc @ take ?k c"] Cons Nil show ?thesis
        by (simp add: source_drain_loop.simps [of _ acc] framed_read_next [OF c(1)])
    next
      case Nil
      with \<open>p = []\<close> show ?thesis
        by (simp add: source_drain_loop.simps [of _ acc] framed_read_finish)
           (simp add: source_drain_loop.simps [of _ acc] framed_read_def)
    qed
  qed
qed

lemma framed_skip_frames:
  "\<forall>c \<in> set cs. frame_ok c \<Longrightarrow>
   framed_skip_loop src (concat (map framed_write cs) @ framed_finish @ r) = Some (Inr r)"
proof (induction cs)
  case Nil
  then show ?case by (simp add: framed_skip_loop.simps [of src] readNum_finish)
next
  case (Cons c cs)
  then have "c \<noteq> []" by (simp add: frame_ok_def)
  then show ?case
    using Cons by (simp add: framed_skip_loop.simps [of src "framed_write c @ _"] readNum_frame src_append)
qed

end

interpretation source_bytes: exact_bytes source_bytes
  by unfold_locales (auto simp: source_bytes_def source_call_string split: if_splits)

interpretation async_bytes: exact_bytes async_bytes
  by unfold_locales (auto simp: async_bytes_def split: if_splits)

text \<open>Each pair of a writer and a reader is a self-delimiting format.\<close>

sublocale exact_bytes \<subseteq> strings: wire putString "readString src max_size" "\<lambda>x. length x \<le> max_size"
  by unfold_locales (simp add: readString_putString)

sublocale exact_bytes \<subseteq> string_lists: wire putStrings "readStrings src"
  "\<lambda>xs. length xs \<le> max_size \<and> (\<forall>x \<in> set xs. length x \<le> max_size)"
  by unfold_locales (simp add: readStrings_putStrings)

sublocale exact_bytes \<subseteq> string_sets: wire putStringSet "readStringSet src"
  "\<lambda>xs. oset_ok xs \<and> length xs \<le> max_size \<and> (\<forall>x \<in> set xs. length x \<le> max_size)"
  by unfold_locales (simp add: readStringSet_putStringSet)

section \<open>Properties\<close>

text \<open>a list of strings written to the wire is read back, over the synchronous and over the
  asynchronous stream, and exactly its bytes are consumed.\<close>

theorem strings_wire_roundtrip:
  assumes "length xs \<le> max_size" and "\<forall>x \<in> set xs. length x \<le> max_size"
  shows "readStrings source_bytes (putStrings xs @ r) = Inr (xs, r)
    \<and> readStrings async_bytes (putStrings xs @ r) = Inr (xs, r)"
  using source_bytes.readStrings_putStrings [OF assms] async_bytes.readStrings_putStrings [OF assms] by simp

theorem strings_wire_roundtrip_witness:
  "readStrings source_bytes (putStrings [''ab'', ''c''] @ ''rest'') = Inr ([''ab'', ''c''], ''rest'')"
  using strings_wire_roundtrip [of "[''ab'', ''c'']" "''rest''"] by (simp add: max_size_def)

text \<open>the wire format of strings is canonical: whatever \<^verbatim>\<open>readString\<close> accepts is byte for byte what is
  written for the string it returns, and the limit is respected.\<close>

theorem string_wire_canonical:
  assumes "readString source_bytes max_len s = Inr (x, r)"
  shows "s = putString x @ r \<and> length x \<le> max_len"
  using source_bytes.readString_canonical [OF assms] by simp

theorem string_wire_canonical_witness:
  "readString source_bytes 5 (putString ''nar'' @ ''!'') = Inr (''nar'', ''!'')
   \<and> putString ''nar'' @ ''!'' = putString ''nar'' @ ''!'' \<and> length ''nar'' \<le> 5"
proof -
  have r: "readString source_bytes 5 (putString ''nar'' @ ''!'') = Inr (''nar'', ''!'')"
    by (rule source_bytes.readString_putString) (simp_all add: max_size_def)
  show ?thesis using string_wire_canonical [OF r] r by simp
qed

text \<open>an error sent over the wire is read back with its level, message and traces.\<close>

theorem error_wire_roundtrip:
  assumes "level info < 2 ^ 8" and "length (msg info) \<le> max_size"
    and "length (traces info) \<le> max_size" and "\<forall>x \<in> set (traces info). length x \<le> max_size"
  shows "readError source_bytes (putError info @ r) = Inr (info, r)"
  using assms by (rule source_bytes.readError_putError)

theorem error_wire_roundtrip_witness:
  "readError source_bytes (putError \<lparr>level = 0, msg = ''failed'', traces = [''while'']\<rparr> @ ''x'') =
   Inr (\<lparr>level = 0, msg = ''failed'', traces = [''while'']\<rparr>, ''x'')"
  using error_wire_roundtrip [of "\<lparr>level = 0, msg = ''failed'', traces = [''while'']\<rparr>" "''x''"]
  by (simp add: max_size_def)

text \<open>chunks written as frames are read back in order by draining a \<^verbatim>\<open>FramedSource\<close>, as long as no chunk is
  empty or longer than 32 bits can say; and skipping the frames leaves the stream behind the end marker.\<close>

theorem framed_roundtrip:
  assumes "\<forall>c \<in> set cs. frame_ok c"
  shows "source_drain (framed_read source_bytes)
      \<lparr>framed_from = concat (map framed_write cs) @ framed_finish @ r, framed_eof = False, framed_pending = []\<rparr> =
      Some (Inr (concat cs))
    \<and> framed_skip_loop source_bytes (concat (map framed_write cs) @ framed_finish @ r) = Some (Inr r)"
  using source_bytes.framed_drain [OF assms, of "[]" r "[]"] source_bytes.framed_skip_frames [OF assms, of r]
  by (simp add: source_drain_def)

theorem framed_roundtrip_witness:
  "frame_ok ''ab'' \<and> frame_ok ''c'' \<and>
   framed_skip_loop source_bytes (framed_write ''ab'' @ framed_write ''c'' @ framed_finish @ ''z'') = Some (Inr ''z'')"
proof -
  have "frame_ok ''ab''" "frame_ok ''c''" by (simp_all add: frame_ok_def max_unsigned_def)
  then show ?thesis using framed_roundtrip [of "[''ab'', ''c'']" "''z''"] by simp
qed

end
