(* ===== verification/Lix_Archive.thy ===== *)
theory Lix_Archive
  imports Lix_Serialise
begin

text \<open>
  The Nix archive format of \<^verbatim>\<open>libutil/archive.{hh,cc}\<close>: \<^verbatim>\<open>nar::dump\<close>, the parser with its
  synchronous and asynchronous drivers, and the index of an archive.

  A \<^verbatim>\<open>nar::Entry\<close> is a tree whose leaves are of a type \<open>'f\<close>: for the archive itself the header and
  contents of a file, for the index its offset and size. The generators of the code are run to
  exhaustion by every consumer, so a generator of entries is the list of the entries and the
  parser is a function from the input to the tree and the unread rest. What a consumer makes of
  a file when its header has been read is the argument \<open>mk\<close>: it is given the input from the
  contents on, which determines the position in the stream.

  An exception thrown by a generator that another one yields to is not caught by the outer one
  (see \<^verbatim>\<open>generator.hh\<close>), so the handler in \<^verbatim>\<open>parseRoot\<close> rewraps the errors of the version tag only.
\<close>

section \<open>Entries\<close>

record nar_File =
  executable :: bool
  file_size :: nat
  file_contents :: string

record index_File =
  index_executable :: bool
  index_offset :: nat
  index_size :: nat

datatype 'f Entry =
    File 'f
  | Symlink string
  | Directory "(string \<times> 'f Entry) list"

definition narVersionMagic1 :: string where
  "narVersionMagic1 = ''nix-archive-1''"

definition caseHackSuffix :: string where
  "caseHackSuffix = ''~nix~case~hack~''"

section \<open>Writing an archive\<close>

definition dumpFile :: "nar_File \<Rightarrow> string" where
  "dumpFile f =
     putString ''type'' @ putString ''regular'' @
     (if executable f then putString ''executable'' @ putString [] else []) @
     putString ''contents'' @ putNum (word_of_nat (file_size f)) @ file_contents f @ padding (file_size f)"

definition dumpSymlink :: "string \<Rightarrow> string" where
  "dumpSymlink t =
     putString ''type'' @ putString ''symlink'' @ putString ''target'' @ putString t"

text \<open>The size of a tree counts the entries of its directories.\<close>

fun esize :: "'f Entry + (string \<times> 'f Entry) list \<Rightarrow> nat" where
  "esize (Inl e) = 2 * size_Entry (\<lambda>_. 0) e + 1"
| "esize (Inr es) = 2 * size_list (size_prod (\<lambda>_. 0) (size_Entry (\<lambda>_. 0))) es"

function dumpSingle :: "nar_File Entry \<Rightarrow> string"
  and dumpEntries :: "(string \<times> nar_File Entry) list \<Rightarrow> string" where
  "dumpSingle (File f) = dumpFile f"
| "dumpSingle (Symlink t) = dumpSymlink t"
| "dumpSingle (Directory es) = putString ''type'' @ putString ''directory'' @ dumpEntries es"
| "dumpEntries [] = []"
| "dumpEntries ((name, i) # es) =
     putString ''entry'' @ putString ''('' @ putString ''name'' @ putString name @
     putString ''node'' @ putString ''('' @ dumpSingle i @ putString '')'' @ putString '')'' @
     dumpEntries es"
  by pat_completeness auto
termination
  by (relation "measure esize") auto

definition dump :: "nar_File Entry \<Rightarrow> string" where
  "dump nar = putString narVersionMagic1 @ putString ''('' @ dumpSingle nar @ putString '')''"

definition dumpString :: "string \<Rightarrow> string" where
  "dumpString s =
     putString narVersionMagic1 @ putString ''('' @ putString ''type'' @ putString ''regular'' @
     putString ''contents'' @ putString s @ putString '')''"

section \<open>The parser\<close>

text \<open>
  The driver feeds the parser's buffer: \<^verbatim>\<open>SyncParser\<close> from a \<^verbatim>\<open>Source\<close>, \<^verbatim>\<open>AsyncParser\<close> from an
  \<^verbatim>\<open>AsyncInputStream\<close>. The flag selects the driver.
\<close>

definition badArchive :: "string \<Rightarrow> error" where
  "badArchive s = SerialisationError (''bad archive: '' @ s)"

definition feed :: "bool \<Rightarrow> string bytes_of" where
  "feed sync n s =
     (if sync then source_bytes n s
      else if n \<le> length s then Inr (take n s, drop n s)
      else Inl (badArchive ''unexpected end of nar encountered''))"

definition narStringLimit :: nat where
  "narStringLimit = 1048576"

text \<open>\<^verbatim>\<open>READ_STRING_LIMITED\<close>; \<open>wrap\<close> is what the enclosing handler does to the parser's own errors.\<close>

definition readStringLimited ::
  "bool \<Rightarrow> (error \<Rightarrow> error) \<Rightarrow> nat \<Rightarrow> string \<Rightarrow> (string \<times> string) result" where
  "readStringLimited sync wrap limit s =
     bindr (feed sync 8 s) (\<lambda>(buf, s1).
     bindr (catchr wrap (readNum source_bytes max_size buf)) (\<lambda>(len, _).
     if len > limit
     then Inl (wrap (SerialisationError ''found malformed string tag. input may be a compressed NAR, which cannot be read directly''))
     else
       bindr (feed sync (len + (8 - len mod 8) mod 8) s1) (\<lambda>(more, s2).
       bindr (catchr wrap (readString source_bytes limit (buf @ more))) (\<lambda>(str, _).
       Inr (str, s2)))))"

definition readTag :: "bool \<Rightarrow> string \<Rightarrow> (string \<times> string) result" where
  "readTag sync s = readStringLimited sync (\<lambda>e. e) narStringLimit s"

definition expect :: "bool \<Rightarrow> string \<Rightarrow> string \<Rightarrow> string \<Rightarrow> string result" where
  "expect sync raw kind s =
     bindr (readTag sync s) (\<lambda>(t, s1).
     if t \<noteq> raw then Inl (badArchive (''expected '' @ kind @ '' tag'')) else Inr s1)"

definition readU64 :: "bool \<Rightarrow> string \<Rightarrow> (nat \<times> string) result" where
  "readU64 sync s =
     bindr (feed sync 8 s) (\<lambda>(buf, s1).
     bindr (readNum source_bytes max_size buf) (\<lambda>(n, _). Inr (n, s1)))"

definition readFilePadding :: "bool \<Rightarrow> nat \<Rightarrow> string \<Rightarrow> string result" where
  "readFilePadding sync n s =
     (if n mod 8 \<noteq> 0 then
        bindr (feed sync (8 - n mod 8) s) (\<lambda>(buf, s1).
        bindr (readPadding source_bytes n buf) (\<lambda>_. Inr s1))
      else Inr s)"

text \<open>The file name check of the directory reader.\<close>

definition nameValid :: "string \<Rightarrow> bool" where
  "nameValid name \<longleftrightarrow>
     \<not> (name = [] \<or> name = ''.'' \<or> name = ''..'' \<or> CHR ''/'' \<in> set name \<or> CHR 0x00 \<in> set name
        \<or> sublist caseHackSuffix name)"

definition parseRegular ::
  "bool \<Rightarrow> (string \<Rightarrow> bool \<Rightarrow> nat \<Rightarrow> string \<Rightarrow> 'f) \<Rightarrow> string \<Rightarrow> ('f \<times> string) result" where
  "parseRegular sync mk s =
     bindr (readTag sync s) (\<lambda>(t, s1).
     let exec = (t = ''executable'')
     in bindr (if exec then
                 bindr (readTag sync s1) (\<lambda>(v, s2).
                 if v \<noteq> [] then Inl (badArchive ''executable marker has non-empty value'')
                 else readTag sync s2)
               else Inr (t, s1)) (\<lambda>(contentsOrFlag, s3).
        if contentsOrFlag = ''contents'' then
          bindr (readU64 sync s3) (\<lambda>(n, s4).
          bindr (feed sync n s4) (\<lambda>(contents, s5).
          bindr (readFilePadding sync n s5) (\<lambda>s6.
          Inr (mk s4 exec n contents, s6))))
        else Inl (badArchive ''file without contents found'')))"

lemma feed_shorter: "feed sync n s = Inr (d, r) \<Longrightarrow> s = d @ r \<and> length d = n"
  by (auto simp: feed_def source_bytes_def source_call_string split: if_splits)

lemma readStringLimited_shorter:
  "readStringLimited sync wrap limit s = Inr (x, r) \<Longrightarrow> length r < length s"
  by (auto simp: readStringLimited_def bindr_eq_Inr_iff split: if_splits dest!: feed_shorter)

lemma readTag_shorter: "readTag sync s = Inr (x, r) \<Longrightarrow> length r < length s"
  unfolding readTag_def by (rule readStringLimited_shorter)

lemma expect_shorter: "expect sync raw kind s = Inr r \<Longrightarrow> length r < length s"
  by (auto simp: expect_def bindr_eq_Inr_iff split: if_splits dest!: readTag_shorter)

lemma readFilePadding_shorter: "readFilePadding sync n s = Inr r \<Longrightarrow> length r \<le> length s"
  by (auto simp: readFilePadding_def bindr_eq_Inr_iff split: if_splits dest!: feed_shorter)

text \<open>
  \<^verbatim>\<open>Parser::parse\<close> and the reader of a directory. The test that the input has become shorter
  makes the recursion well-founded; it never fails (\<open>parseEntry_shorter\<close> below).
\<close>

function (sequential) parseEntry ::
  "bool \<Rightarrow> (string \<Rightarrow> bool \<Rightarrow> nat \<Rightarrow> string \<Rightarrow> 'f) \<Rightarrow> string \<Rightarrow> ('f Entry \<times> string) result"
  and parseDirectory ::
  "bool \<Rightarrow> (string \<Rightarrow> bool \<Rightarrow> nat \<Rightarrow> string \<Rightarrow> 'f) \<Rightarrow> string \<Rightarrow> string \<Rightarrow>
   ((string \<times> 'f Entry) list \<times> string) result" where
  "parseEntry sync mk s =
     bindr (expect sync ''('' ''open'' s) (\<lambda>s1.
     bindr (expect sync ''type'' ''type'' s1) (\<lambda>s2.
     bindr (readTag sync s2) (\<lambda>(t, s3).
     if t = ''regular'' then
       bindr (parseRegular sync mk s3) (\<lambda>(f, s4).
       bindr (expect sync '')'' ''close'' s4) (\<lambda>s5. Inr (File f, s5)))
     else if t = ''directory'' then
       bindr (parseDirectory sync mk [] s3) (\<lambda>(es, s4). Inr (Directory es, s4))
     else if t = ''symlink'' then
       bindr (expect sync ''target'' ''target'' s3) (\<lambda>s4.
       bindr (readTag sync s4) (\<lambda>(target, s5).
       bindr (expect sync '')'' ''close'' s5) (\<lambda>s6. Inr (Symlink target, s6))))
     else Inl (badArchive (''unknown file type '' @ t)))))"
| "parseDirectory sync mk prevName s =
     bindr (readTag sync s) (\<lambda>(t, s1).
     if t = '')'' then Inr ([], s1)
     else if t \<noteq> ''entry'' then Inl (badArchive ''expected entry tag'')
     else
       bindr (expect sync ''('' ''open'' s1) (\<lambda>s2.
       bindr (expect sync ''name'' ''name'' s2) (\<lambda>s3.
       bindr (readTag sync s3) (\<lambda>(name, s4).
       if \<not> nameValid name then Inl (Error ''NAR contains invalid file name %1%'')
       else if name \<le> prevName then Inl (Error ''NAR directory is not sorted'')
       else
         bindr (expect sync ''node'' ''node'' s4) (\<lambda>s5.
         bindr (parseEntry sync mk s5) (\<lambda>(e, s6).
         if \<not> length s6 < length s5 then Inl (UndefinedBehaviour ''no progress'')
         else
           bindr (expect sync '')'' ''close'' s6) (\<lambda>s7.
           bindr (parseDirectory sync mk name s7) (\<lambda>(es, s8). Inr ((name, e) # es, s8)))))))))"
  by pat_completeness auto
termination
  by (relation "measure (\<lambda>x. case x of Inl (_, _, s) \<Rightarrow> length s | Inr (_, _, _, s) \<Rightarrow> length s)")
     (auto dest!: readTag_shorter expect_shorter)

declare parseEntry.simps [simp del] parseDirectory.simps [simp del]

definition wrapRoot :: "error \<Rightarrow> error" where
  "wrapRoot e =
     (case e of
        SerialisationError m \<Rightarrow> badArchive ''input doesn't look like a Nix archive (%s)''
      | _ \<Rightarrow> e)"

definition parseRoot ::
  "bool \<Rightarrow> (string \<Rightarrow> bool \<Rightarrow> nat \<Rightarrow> string \<Rightarrow> 'f) \<Rightarrow> string \<Rightarrow> ('f Entry \<times> string) result" where
  "parseRoot sync mk s =
     bindr (readStringLimited sync wrapRoot (length narVersionMagic1) s) (\<lambda>(version, s1).
     if version \<noteq> narVersionMagic1 then Inl (wrapRoot (SerialisationError ''bad NAR version tag''))
     else parseEntry sync mk s1)"

text \<open>What the consumers make of a file: \<^verbatim>\<open>nar::parse\<close> keeps it, the indexer notes where it lies.\<close>

definition mkFile :: "string \<Rightarrow> bool \<Rightarrow> nat \<Rightarrow> string \<Rightarrow> nar_File" where
  "mkFile s exec n contents = \<lparr>executable = exec, file_size = n, file_contents = contents\<rparr>"

definition parseNar :: "bool \<Rightarrow> string \<Rightarrow> (nar_File Entry \<times> string) result" where
  "parseNar sync s = parseRoot sync mkFile s"

text \<open>
  The code counts the bytes that were read in a wrapper around the source. The number of bytes read is the length of the whole
  input less the length of what remains.
\<close>

definition mkIndexFile :: "nat \<Rightarrow> string \<Rightarrow> bool \<Rightarrow> nat \<Rightarrow> string \<Rightarrow> index_File" where
  "mkIndexFile end_pos s exec n contents =
     \<lparr>index_executable = exec, index_offset = end_pos - length s, index_size = n\<rparr>"

definition createIndex :: "bool \<Rightarrow> string \<Rightarrow> (index_File Entry \<times> string) result" where
  "createIndex sync s = parseRoot sync (mkIndexFile (length s)) s"

text \<open>\<^verbatim>\<open>copyNAR\<close> parses an archive and writes it again.\<close>

definition copyNAR :: "string \<Rightarrow> (string \<times> string) result" where
  "copyNAR s =
     bindr (parseNar True s) (\<lambda>(item, r).
     Inr (putString narVersionMagic1 @ putString ''('' @ dumpSingle item @ putString '')'', r))"

section \<open>Tags\<close>

interpretation feed: exact_bytes "feed sync" for sync
  by unfold_locales
     (auto simp: feed_def source_bytes.src_append dest: source_bytes.src_exact split: if_splits)

lemma length_padding: "length (padding n) = (8 - n mod 8) mod 8"
  by (cases "n mod 8 = 0") (auto simp: padding_def)

lemma readNum_source_putNum:
  "n \<le> max_size \<Longrightarrow> readNum source_bytes max_size (putNum (word_of_nat n)) = Inr (n, [])"
  using source_bytes.readNum_of_nat [of n max_size "[]"] by simp

lemma readStringLimited_put:
  assumes "length x \<le> limit" and "limit \<le> max_size"
  shows "readStringLimited sync wrap limit (putString x @ r) = Inr (x, r)"
proof -
  let ?n = "putNum (word_of_nat (length x))"
  have "length x \<le> max_size" using assms by simp
  note x = readNum_source_putNum [OF this] source_bytes.readString_putString [OF this assms(1), of "[]"]
  have "feed sync 8 (?n @ x @ padding (length x) @ r) = Inr (?n, x @ padding (length x) @ r)"
    using feed.src_append [of sync ?n] by simp
  moreover have "feed sync (length x + (8 - length x mod 8) mod 8) (x @ padding (length x) @ r) =
      Inr (x @ padding (length x), r)"
    using feed.src_append [of sync "x @ padding (length x)" r] by (simp add: length_padding)
  ultimately show ?thesis
    using x assms(1) by (simp add: readStringLimited_def putString_def)
qed

lemma readStringLimited_canonical:
  assumes "readStringLimited sync wrap limit s = Inr (x, r)"
  shows "s = putString x @ r \<and> length x \<le> limit"
proof -
  obtain buf s1 len q more q2 where st: "feed sync 8 s = Inr (buf, s1)"
      "readNum source_bytes max_size buf = Inr (len, q)" "len \<le> limit"
      "feed sync (len + (8 - len mod 8) mod 8) s1 = Inr (more, r)"
      "readString source_bytes limit (buf @ more) = Inr (x, q2)"
    using assms by (auto simp: readStringLimited_def bindr_eq_Inr_iff split: if_splits)
  note f = feed.src_exact [OF st(1)] feed.src_exact [OF st(4)]
  note n = source_bytes.readNum_canonical [OF st(2)] source_bytes.readString_canonical [OF st(5)]
  have buf: "buf = putNum (word_of_nat len)" using n(1) f(1) by auto
  have "putNum (word_of_nat (length x)) = take 8 (buf @ more)" using n(2) by (simp add: putString_def)
  also have "\<dots> = putNum (word_of_nat len)" using buf by simp
  finally have "readLittleEndian (putNum (word_of_nat (length x))) = readLittleEndian (putNum (word_of_nat len))"
    by simp
  then have "(word_of_nat (length x) :: 64 word) = word_of_nat len" by (simp add: readLittleEndian_putNum)
  then have "unat (word_of_nat (length x) :: 64 word) = unat (word_of_nat len :: 64 word)" by simp
  then have "length x = len" using n by (simp add: unat_of_nat max_size_def)
  then have "length (buf @ more) = length (putString x)"
    using f buf by (simp add: putString_def length_padding)
  then have "q2 = []" using n(2) by simp
  then show ?thesis using n(2) f st(3) by auto
qed

lemma readTag_put: "length x \<le> narStringLimit \<Longrightarrow> readTag sync (putString x @ r) = Inr (x, r)"
  unfolding readTag_def
  by (rule readStringLimited_put) (simp_all add: narStringLimit_def max_size_def)

lemma readTag_canonical:
  "readTag sync s = Inr (x, r) \<Longrightarrow> s = putString x @ r \<and> length x \<le> narStringLimit"
  unfolding readTag_def by (rule readStringLimited_canonical)

lemma expect_put: "length raw \<le> narStringLimit \<Longrightarrow> expect sync raw kind (putString raw @ r) = Inr r"
  by (simp add: expect_def readTag_put)

lemma expect_canonical: "expect sync raw kind s = Inr r \<Longrightarrow> s = putString raw @ r"
  by (auto simp: expect_def bindr_eq_Inr_iff split: if_splits dest!: readTag_canonical)

lemma readU64_put: "n \<le> max_size \<Longrightarrow> readU64 sync (putNum (word_of_nat n) @ r) = Inr (n, r)"
  using feed.src_append [of sync "putNum (word_of_nat n)" r]
  by (simp add: readU64_def readNum_source_putNum)

lemma readU64_canonical:
  assumes "readU64 sync s = Inr (n, r)"
  shows "s = putNum (word_of_nat n) @ r \<and> n \<le> max_size"
proof -
  obtain buf q where st: "feed sync 8 s = Inr (buf, r)" "readNum source_bytes max_size buf = Inr (n, q)"
    using assms by (auto simp: readU64_def bindr_eq_Inr_iff)
  show ?thesis using feed.src_exact [OF st(1)] source_bytes.readNum_canonical [OF st(2)] by auto
qed

lemma readFilePadding_eq: "readFilePadding sync n s = Inr r \<longleftrightarrow> s = padding n @ r"
proof
  assume a: "readFilePadding sync n s = Inr r"
  show "s = padding n @ r"
  proof (cases "n mod 8 = 0")
    case True
    then show ?thesis using a by (simp add: readFilePadding_def padding_def)
  next
    case False
    then obtain buf q where st: "feed sync (8 - n mod 8) s = Inr (buf, r)"
        "readPadding source_bytes n buf = Inr q"
      using a by (auto simp: readFilePadding_def bindr_eq_Inr_iff)
    have buf: "buf = padding n @ q" "length buf = 8 - n mod 8" "s = buf @ r"
      using source_bytes.readPadding_canonical [OF st(2)] feed.src_exact [OF st(1)] by auto
    moreover have "length (padding n) = length buf" using False buf(2) by (simp add: length_padding)
    ultimately show ?thesis by (metis append_Nil2 append_eq_append_conv)
  qed
next
  assume s: "s = padding n @ r"
  show "readFilePadding sync n s = Inr r"
  proof (cases "n mod 8 = 0")
    case True
    then show ?thesis using s by (simp add: readFilePadding_def padding_def)
  next
    case False
    then have "feed sync (8 - n mod 8) s = Inr (padding n, r)"
      using feed.src_append [of sync "padding n" r] s by (simp add: length_padding)
    then show ?thesis
      using False source_bytes.readPadding_padding [of n "[]"] by (simp add: readFilePadding_def)
  qed
qed

section \<open>The parser never goes back\<close>

lemma putString_nonempty [simp]: "putString x \<noteq> []"
  by (simp add: putString_def putNum_def)

lemma readTag_strict: "readTag sync s = Inr (t, r) \<Longrightarrow> strict_suffix r s"
  by (auto dest!: readTag_canonical simp: strict_suffix_def suffix_def)

lemma expect_strict: "expect sync raw kind s = Inr r \<Longrightarrow> strict_suffix r s"
  by (auto dest!: expect_canonical simp: strict_suffix_def suffix_def)

lemmas strict_trans = suffix_order.less_trans

lemma parseRegular_strict: "parseRegular sync mk s = Inr (f, r) \<Longrightarrow> strict_suffix r s"
proof -
  assume a: "parseRegular sync mk s = Inr (f, r)"
  have tail: "strict_suffix r s3" if "readU64 sync s3 = Inr (n, s4)" "feed sync n s4 = Inr (c, s5)"
      "readFilePadding sync n s5 = Inr r" for s3 n s4 c s5
    using readU64_canonical [OF that(1)] feed.src_exact [OF that(2)] that(3)
    by (auto simp: readFilePadding_eq strict_suffix_def suffix_def putNum_def)
  show ?thesis
    using a
    by (auto simp: parseRegular_def bindr_eq_Inr_iff Let_def split: if_splits dest!: readTag_strict tail
        intro: strict_trans)
qed

lemma parseEntry_strict:
  "parseEntry sync mk s = Inr (e, r) \<Longrightarrow> strict_suffix r s"
  "parseDirectory sync mk prev s = Inr (es, r) \<Longrightarrow> strict_suffix r s"
proof (induction sync mk s and sync mk prev s arbitrary: e r and es r rule: parseEntry_parseDirectory.induct)
  case (1 sync mk s)
  obtain s1 s2 s3 t where st: "expect sync ''('' ''open'' s = Inr s1" "expect sync ''type'' ''type'' s1 = Inr s2"
      "readTag sync s2 = Inr (t, s3)"
    using "1.prems" by (auto simp: parseEntry.simps [of sync mk s] bindr_eq_Inr_iff)
  have less: "strict_suffix s3 s"
    using st by (meson expect_strict readTag_strict strict_trans)
  show ?case
  proof (cases "t = ''directory''")
    case True
    then obtain es where "parseDirectory sync mk [] s3 = Inr (es, r)"
      using "1.prems" st by (auto simp: parseEntry.simps [of sync mk s] bindr_eq_Inr_iff)
    then have "strict_suffix r s3" using "1.IH" st True by auto
    then show ?thesis using less by (rule strict_trans)
  next
    case False
    then have "strict_suffix r s3"
      using "1.prems" st by (auto simp: parseEntry.simps [of sync mk s] bindr_eq_Inr_iff split: if_splits
        dest!: expect_strict readTag_strict parseRegular_strict intro: strict_trans)
    then show ?thesis using less by (rule strict_trans)
  qed
next
  case (2 sync mk prev s)
  obtain t s1 where t: "readTag sync s = Inr (t, s1)"
    using "2.prems" by (auto simp: parseDirectory.simps [of sync mk prev s] bindr_eq_Inr_iff)
  have less: "strict_suffix s1 s" using t by (rule readTag_strict)
  show ?case
  proof (cases "t = '')''")
    case True
    then show ?thesis using "2.prems" t less by (simp add: parseDirectory.simps [of sync mk prev s])
  next
    case False
    then obtain s2 s3 s4 s5 s6 s7 name e es' where st: "t = ''entry''" "expect sync ''('' ''open'' s1 = Inr s2"
        "expect sync ''name'' ''name'' s2 = Inr s3" "readTag sync s3 = Inr (name, s4)" "nameValid name"
        "\<not> name \<le> prev" "expect sync ''node'' ''node'' s4 = Inr s5" "parseEntry sync mk s5 = Inr (e, s6)"
        "length s6 < length s5" "expect sync '')'' ''close'' s6 = Inr s7"
        "parseDirectory sync mk name s7 = Inr (es', r)"
      using "2.prems" t by (auto simp: parseDirectory.simps [of sync mk prev s] bindr_eq_Inr_iff split: if_splits)
    have r: "strict_suffix r s7"
      using "2.IH"(2) [OF t refl False _ st(2) st(3) st(4) refl _ st(6) st(7) st(8) refl _ st(10) st(11)] st
      by simp
    have e: "strict_suffix s6 s5"
      using "2.IH"(1) [OF t refl False _ st(2) st(3) st(4) refl _ st(6) st(7) st(8)] st by simp
    note steps = st(2,3,7,10) [THEN expect_strict]
    show ?thesis
      by (rule strict_trans [OF r strict_trans [OF steps(4) strict_trans [OF e strict_trans [OF steps(3)
          strict_trans [OF readTag_strict [OF st(4)] strict_trans [OF steps(2) strict_trans [OF steps(1) less]]]]]]])
  qed
qed

lemma parseEntry_shorter: "parseEntry sync mk s = Inr (e, r) \<Longrightarrow> length r < length s"
  using parseEntry_strict(1) suffix_length_less by blast

lemma parseDirectory_eq:
  "parseDirectory sync mk prevName s =
     bindr (readTag sync s) (\<lambda>(t, s1).
     if t = '')'' then Inr ([], s1)
     else if t \<noteq> ''entry'' then Inl (badArchive ''expected entry tag'')
     else
       bindr (expect sync ''('' ''open'' s1) (\<lambda>s2.
       bindr (expect sync ''name'' ''name'' s2) (\<lambda>s3.
       bindr (readTag sync s3) (\<lambda>(name, s4).
       if \<not> nameValid name then Inl (Error ''NAR contains invalid file name %1%'')
       else if name \<le> prevName then Inl (Error ''NAR directory is not sorted'')
       else
         bindr (expect sync ''node'' ''node'' s4) (\<lambda>s5.
         bindr (parseEntry sync mk s5) (\<lambda>(e, s6).
         bindr (expect sync '')'' ''close'' s6) (\<lambda>s7.
         bindr (parseDirectory sync mk name s7) (\<lambda>(es, s8). Inr ((name, e) # es, s8)))))))))"
  by (subst parseDirectory.simps) (auto intro!: bindr_cong simp: parseEntry_shorter split: prod.splits)

section \<open>An archive reads back as the tree it was made of\<close>

text \<open>
  The trees that an archive can hold: the names of a directory are valid and strictly ascending,
  the declared size of a file is the length of its contents, and strings keep to the parser's
  limit.
\<close>

definition file_ok :: "nar_File \<Rightarrow> bool" where
  "file_ok f \<longleftrightarrow> file_size f = length (file_contents f) \<and> file_size f \<le> max_size"

function entry_ok :: "nar_File Entry \<Rightarrow> bool"
  and entries_ok :: "string \<Rightarrow> (string \<times> nar_File Entry) list \<Rightarrow> bool" where
  "entry_ok (File f) = file_ok f"
| "entry_ok (Symlink t) = (length t \<le> narStringLimit)"
| "entry_ok (Directory es) = entries_ok [] es"
| "entries_ok prev [] = True"
| "entries_ok prev ((name, e) # es) =
     (nameValid name \<and> prev < name \<and> length name \<le> narStringLimit \<and> entry_ok e \<and> entries_ok name es)"
  by pat_completeness auto
termination
  by (relation "measure (\<lambda>x. case x of Inl e \<Rightarrow> esize (Inl e) | Inr (_, es) \<Rightarrow> esize (Inr es))") auto

lemma tags_short:
  "length ''('' \<le> narStringLimit" "length '')'' \<le> narStringLimit" "length ''type'' \<le> narStringLimit"
  "length ''regular'' \<le> narStringLimit" "length ''directory'' \<le> narStringLimit"
  "length ''symlink'' \<le> narStringLimit" "length ''executable'' \<le> narStringLimit"
  "length ''contents'' \<le> narStringLimit" "length ''target'' \<le> narStringLimit"
  "length ''entry'' \<le> narStringLimit" "length ''name'' \<le> narStringLimit" "length ''node'' \<le> narStringLimit"
  "length ([] :: string) \<le> narStringLimit"
  by (simp_all add: narStringLimit_def)

lemmas put_tags = tags_short [THEN readTag_put] tags_short [THEN expect_put]

definition fileBody :: "nar_File \<Rightarrow> string" where
  "fileBody f =
     (if executable f then putString ''executable'' @ putString [] else []) @
     putString ''contents'' @ putNum (word_of_nat (file_size f)) @ file_contents f @ padding (file_size f)"

lemma dumpFile_body: "dumpFile f = putString ''type'' @ putString ''regular'' @ fileBody f"
  by (simp add: dumpFile_def fileBody_def)

lemma parseRegular_put:
  assumes "file_ok f"
  shows "parseRegular sync mkFile (fileBody f @ r) = Inr (f, r)"
proof -
  have n: "file_size f \<le> max_size" "length (file_contents f) = file_size f"
    using assms by (simp_all add: file_ok_def)
  have c: "feed sync (file_size f) (file_contents f @ q) = Inr (file_contents f, q)" for q
    using feed.src_append [of sync "file_contents f" q] n by simp
  have p: "readFilePadding sync (file_size f) (padding (file_size f) @ r) = Inr r"
    by (simp add: readFilePadding_eq)
  have m: "mkFile q (executable f) (file_size f) (file_contents f) = f" for q
    by (simp add: mkFile_def)
  show ?thesis
  proof (cases "executable f")
    case True
    then show ?thesis
      using m by (simp add: parseRegular_def fileBody_def put_tags readU64_put [OF n(1)] c p Let_def)
  next
    case False
    then show ?thesis
      using m by (simp add: parseRegular_def fileBody_def put_tags readU64_put [OF n(1)] c p Let_def)
  qed
qed

lemma parseEntry_dump:
  "entry_ok e \<Longrightarrow>
   parseEntry sync mkFile (putString ''('' @ dumpSingle e @ putString '')'' @ r) = Inr (e, r)"
  "entries_ok prev es \<Longrightarrow>
   parseDirectory sync mkFile prev (dumpEntries es @ putString '')'' @ r) = Inr (es, r)"
proof (induction e and es arbitrary: r and prev r rule: dumpSingle_dumpEntries.induct)
  case (1 f)
  then show ?case
    by (simp add: parseEntry.simps [of sync] dumpFile_body put_tags parseRegular_put)
next
  case (2 t)
  then show ?case
    by (simp add: parseEntry.simps [of sync] dumpSymlink_def put_tags readTag_put)
next
  case (3 es)
  then show ?case by (simp add: parseEntry.simps [of sync] put_tags)
next
  case 4
  then show ?case by (simp add: parseDirectory_eq [of sync] put_tags)
next
  case (5 name e es)
  then show ?case
    by (simp add: parseDirectory_eq [of sync _ prev] put_tags readTag_put not_le)
qed

lemma parseNar_dump: "entry_ok e \<Longrightarrow> parseNar sync (dump e @ r) = Inr (e, r)"
  using readStringLimited_put [of narVersionMagic1 "length narVersionMagic1"]
  by (simp add: parseNar_def parseRoot_def dump_def parseEntry_dump narVersionMagic1_def max_size_def)

section \<open>Every accepted archive is canonical\<close>

lemma parseRegular_canonical:
  assumes "parseRegular sync mk s = Inr (f, r)"
  obtains g q where "file_ok g" "s = fileBody g @ r" "f = mk q (executable g) (file_size g) (file_contents g)"
    "q = file_contents g @ padding (file_size g) @ r"
proof -
  obtain t s1 where t: "readTag sync s = Inr (t, s1)"
    using assms by (auto simp: parseRegular_def bindr_eq_Inr_iff)
  define ex where "ex = (t = ''executable'')"
  obtain s3 where s3: "s = (if ex then putString ''executable'' @ putString [] else []) @ putString ''contents'' @ s3"
      and rest: "bindr (readU64 sync s3) (\<lambda>(n, s4). bindr (feed sync n s4) (\<lambda>(contents, s5).
        bindr (readFilePadding sync n s5) (\<lambda>s6. Inr (mk s4 ex n contents, s6)))) = Inr (f, r)"
  proof (cases ex)
    case True
    then obtain s2 s3 where "readTag sync s1 = Inr ([], s2)" "readTag sync s2 = Inr (''contents'', s3)"
        "bindr (readU64 sync s3) (\<lambda>(n, s4). bindr (feed sync n s4) (\<lambda>(contents, s5).
          bindr (readFilePadding sync n s5) (\<lambda>s6. Inr (mk s4 ex n contents, s6)))) = Inr (f, r)"
      using assms t by (auto simp: parseRegular_def ex_def bindr_assoc
          bindr_eq_Inr_iff [of "readTag _ _"] split: if_splits)
    then show ?thesis using that [of s3] t True by (auto simp: ex_def dest!: readTag_canonical)
  next
    case False
    then have "t = ''contents''" "bindr (readU64 sync s1) (\<lambda>(n, s4). bindr (feed sync n s4) (\<lambda>(contents, s5).
          bindr (readFilePadding sync n s5) (\<lambda>s6. Inr (mk s4 ex n contents, s6)))) = Inr (f, r)"
      using assms t by (auto simp: parseRegular_def ex_def split: if_splits)
    then show ?thesis using that [of s1] t False by (auto dest!: readTag_canonical)
  qed
  from rest obtain n s4 contents s5 where
    st: "readU64 sync s3 = Inr (n, s4)" "feed sync n s4 = Inr (contents, s5)"
      "readFilePadding sync n s5 = Inr r" "f = mk s4 ex n contents"
    by (auto simp: bindr_eq_Inr_iff)
  let ?g = "\<lparr>executable = ex, file_size = n, file_contents = contents\<rparr>"
  have "s3 = putNum (word_of_nat n) @ s4" "n \<le> max_size" "s4 = contents @ s5" "length contents = n"
      "s5 = padding n @ r"
    using readU64_canonical [OF st(1)] feed.src_exact [OF st(2)] st(3) by (simp_all add: readFilePadding_eq)
  then show ?thesis using that [of ?g s4] s3 st(4) by (simp add: file_ok_def fileBody_def)
qed

lemma parseEntry_canonical:
  "parseEntry sync mkFile s = Inr (e, r) \<Longrightarrow>
   entry_ok e \<and> s = putString ''('' @ dumpSingle e @ putString '')'' @ r"
  "parseDirectory sync mkFile prev s = Inr (es, r) \<Longrightarrow>
   entries_ok prev es \<and> s = dumpEntries es @ putString '')'' @ r"
proof (induction sync "mkFile :: _ \<Rightarrow> _ \<Rightarrow> _ \<Rightarrow> _ \<Rightarrow> nar_File" s and
    sync "mkFile :: _ \<Rightarrow> _ \<Rightarrow> _ \<Rightarrow> _ \<Rightarrow> nar_File" prev s
    arbitrary: e r and es r rule: parseEntry_parseDirectory.induct)
  case (1 sync s)
  obtain s1 s2 s3 t where st: "expect sync ''('' ''open'' s = Inr s1" "expect sync ''type'' ''type'' s1 = Inr s2"
      "readTag sync s2 = Inr (t, s3)"
    using "1.prems" by (auto simp: parseEntry.simps [of sync _ s] bindr_eq_Inr_iff)
  have s: "s = putString ''('' @ putString ''type'' @ putString t @ s3"
    using st by (auto dest!: expect_canonical readTag_canonical)
  consider "t = ''regular''" | "t = ''directory''" | "t = ''symlink''"
    using "1.prems" st by (auto simp: parseEntry.simps [of sync _ s] split: if_splits)
  then show ?case
  proof cases
    case 1
    then obtain f s4 where f: "parseRegular sync mkFile s3 = Inr (f, s4)" "expect sync '')'' ''close'' s4 = Inr r"
        "e = File f"
      using "1.prems" st by (auto simp: parseEntry.simps [of sync _ s] bindr_eq_Inr_iff)
    from f(1) obtain g q where "file_ok g" "s3 = fileBody g @ s4"
        "f = mkFile q (executable g) (file_size g) (file_contents g)"
      by (rule parseRegular_canonical)
    then have "f = g" "s3 = fileBody g @ s4" "file_ok g" by (simp_all add: mkFile_def)
    then show ?thesis
      using s 1 f(3) expect_canonical [OF f(2)] by (simp add: dumpFile_body)
  next
    case 2
    then obtain es where es: "parseDirectory sync mkFile [] s3 = Inr (es, r)" "e = Directory es"
      using "1.prems" st by (auto simp: parseEntry.simps [of sync _ s] bindr_eq_Inr_iff)
    have "entries_ok [] es \<and> s3 = dumpEntries es @ putString '')'' @ r"
      by (rule "1.hyps" [OF st(1,2,3) refl _ 2 es(1)]) (simp add: 2)
    then show ?thesis using s 2 es(2) by simp
  next
    case 3
    then obtain s4 s5 target where "expect sync ''target'' ''target'' s3 = Inr s4"
        "readTag sync s4 = Inr (target, s5)" "expect sync '')'' ''close'' s5 = Inr r" "e = Symlink target"
      using "1.prems" st by (auto simp: parseEntry.simps [of sync _ s] bindr_eq_Inr_iff)
    then show ?thesis using s 3 by (auto simp: dumpSymlink_def dest!: expect_canonical readTag_canonical)
  qed
next
  case (2 sync prev s)
  obtain t s1 where t: "readTag sync s = Inr (t, s1)"
    using "2.prems" by (auto simp: parseDirectory.simps [of sync _ prev s] bindr_eq_Inr_iff)
  have s: "s = putString t @ s1" using t by (auto dest!: readTag_canonical)
  show ?case
  proof (cases "t = '')''")
    case True
    then have "es = []" "r = s1" using "2.prems" t by (simp_all add: parseDirectory.simps [of sync _ prev s])
    then show ?thesis using s True by simp
  next
    case False
    then obtain s2 s3 s4 s5 s6 s7 name e es' where st: "t = ''entry''" "expect sync ''('' ''open'' s1 = Inr s2"
        "expect sync ''name'' ''name'' s2 = Inr s3" "readTag sync s3 = Inr (name, s4)" "nameValid name"
        "\<not> name \<le> prev" "expect sync ''node'' ''node'' s4 = Inr s5" "parseEntry sync mkFile s5 = Inr (e, s6)"
        "length s6 < length s5" "expect sync '')'' ''close'' s6 = Inr s7"
        "parseDirectory sync mkFile name s7 = Inr (es', r)" "es = (name, e) # es'"
      using "2.prems" t
      by (auto simp: parseDirectory.simps [of sync _ prev s] bindr_eq_Inr_iff split: if_splits)
    have e: "entry_ok e \<and> s5 = putString ''('' @ dumpSingle e @ putString '')'' @ s6"
      using "2.hyps"(1) [OF t refl False _ st(2,3,4) refl _ st(6,7,8)] st(1,5) by simp
    have es: "entries_ok name es' \<and> s7 = dumpEntries es' @ putString '')'' @ r"
      using "2.hyps"(2) [OF t refl False _ st(2,3,4) refl _ st(6,7,8) refl _ st(10,11)] st(1,5,9) by simp
    have "s1 = putString ''('' @ putString ''name'' @ putString name @ putString ''node'' @ s5"
      "s6 = putString '')'' @ s7" "length name \<le> narStringLimit"
      using st(2,3,4,7,10) by (auto dest!: expect_canonical readTag_canonical)
    then show ?thesis using s st(1,5,6,12) e es by (simp add: not_le)
  qed
qed

lemma parseNar_canonical:
  assumes "parseNar sync s = Inr (e, r)"
  shows "entry_ok e \<and> s = dump e @ r"
proof -
  obtain s1 where "readStringLimited sync wrapRoot (length narVersionMagic1) s = Inr (narVersionMagic1, s1)"
      "parseEntry sync mkFile s1 = Inr (e, r)"
    using assms by (auto simp: parseNar_def parseRoot_def bindr_eq_Inr_iff split: if_splits)
  then show ?thesis
    using readStringLimited_canonical parseEntry_canonical(1) by (fastforce simp: dump_def)
qed

section \<open>The index points at the contents\<close>

lemma readTag_suffix: "readTag sync s = Inr (t, r) \<Longrightarrow> suffix s S \<Longrightarrow> suffix r S"
  by (auto dest!: readTag_canonical simp: suffix_def)

lemma expect_suffix: "expect sync raw kind s = Inr r \<Longrightarrow> suffix s S \<Longrightarrow> suffix r S"
  by (auto dest!: expect_canonical simp: suffix_def)

text \<open>
  Two consumers that agree, up to \<open>h\<close>, on what they make of a file of the archive \<open>S\<close> get the same
  tree up to \<open>h\<close>, the same rest and the same errors.
\<close>

definition consumers_agree ::
  "string \<Rightarrow> ('f \<Rightarrow> 'g) \<Rightarrow> (string \<Rightarrow> bool \<Rightarrow> nat \<Rightarrow> string \<Rightarrow> 'f) \<Rightarrow>
   (string \<Rightarrow> bool \<Rightarrow> nat \<Rightarrow> string \<Rightarrow> 'g) \<Rightarrow> bool" where
  "consumers_agree S h mk mk' \<longleftrightarrow>
     (\<forall>q x n c r. suffix q S \<longrightarrow> q = c @ r \<longrightarrow> n = length c \<longrightarrow> mk' q x n c = h (mk q x n c))"

lemma parseRegular_agree:
  assumes agree: "consumers_agree S h mk mk'" and suf: "suffix s S"
  shows "parseRegular sync mk' s = bindr (parseRegular sync mk s) (\<lambda>(f, r). Inr (h f, r))"
proof -
  have leaf: "mk' s4 x n c = h (mk s4 x n c)"
    if "suffix s3 S" "readU64 sync s3 = Inr (n, s4)" "feed sync n s4 = Inr (c, s5)" for s3 n s4 c s5 x
  proof -
    have "suffix s4 S" using that readU64_canonical [OF that(2)] by (auto simp: suffix_def)
    then show ?thesis using agree feed.src_exact [OF that(3)] by (auto simp: consumers_agree_def)
  qed
  have tag: "suffix s1 S" if "readTag sync s = Inr (t, s1)" for t s1 using that suf by (rule readTag_suffix)
  show ?thesis
    unfolding parseRegular_def bindr_assoc
    by (intro bindr_cong [OF refl])
       (auto simp: Let_def bindr_assoc split: if_splits intro!: bindr_cong [OF refl] dest!: tag,
        (meson leaf readTag_suffix)+)
qed

lemma parseEntry_agree:
  "consumers_agree S h mk mk' \<Longrightarrow> suffix s S \<Longrightarrow>
   parseEntry sync mk' s = bindr (parseEntry sync mk s) (\<lambda>(e, r). Inr (map_Entry h e, r))"
  "consumers_agree S h mk mk' \<Longrightarrow> suffix s S \<Longrightarrow>
   parseDirectory sync mk' prev s =
   bindr (parseDirectory sync mk prev s) (\<lambda>(es, r). Inr (map (\<lambda>(n, e). (n, map_Entry h e)) es, r))"
proof (induction sync mk s and sync mk prev s rule: parseEntry_parseDirectory.induct)
  case (1 sync mk s)
  show ?case
    unfolding parseEntry.simps [of sync _ s] bindr_assoc
  proof (intro bindr_cong [OF refl], clarify)
    fix s1 s2 t s3
    assume st: "expect sync ''('' ''open'' s = Inr s1" "expect sync ''type'' ''type'' s1 = Inr s2"
      "readTag sync s2 = Inr (t, s3)"
    have suf: "suffix s3 S"
      using readTag_suffix [OF st(3) expect_suffix [OF st(2) expect_suffix [OF st(1) "1.prems"(2)]]] .
    have "t = ''directory'' \<Longrightarrow> parseDirectory sync mk' [] s3 =
        bindr (parseDirectory sync mk [] s3) (\<lambda>(es, r). Inr (map (\<lambda>(n, e). (n, map_Entry h e)) es, r))"
      using "1.IH" [OF st refl] "1.prems"(1) suf by simp
    then show "(if t = ''regular'' then bindr (parseRegular sync mk' s3) (\<lambda>(f, s4).
          bindr (expect sync '')'' ''close'' s4) (\<lambda>s5. Inr (File f, s5)))
        else if t = ''directory'' then
          bindr (parseDirectory sync mk' [] s3) (\<lambda>(es, s4). Inr (Directory es, s4))
        else if t = ''symlink'' then bindr (expect sync ''target'' ''target'' s3) (\<lambda>s4.
          bindr (readTag sync s4) (\<lambda>(target, s5).
          bindr (expect sync '')'' ''close'' s5) (\<lambda>s6. Inr (Symlink target, s6))))
        else Inl (badArchive (''unknown file type '' @ t))) =
      bindr (if t = ''regular'' then bindr (parseRegular sync mk s3) (\<lambda>(f, s4).
          bindr (expect sync '')'' ''close'' s4) (\<lambda>s5. Inr (File f, s5)))
        else if t = ''directory'' then
          bindr (parseDirectory sync mk [] s3) (\<lambda>(es, s4). Inr (Directory es, s4))
        else if t = ''symlink'' then bindr (expect sync ''target'' ''target'' s3) (\<lambda>s4.
          bindr (readTag sync s4) (\<lambda>(target, s5).
          bindr (expect sync '')'' ''close'' s5) (\<lambda>s6. Inr (Symlink target, s6))))
        else Inl (badArchive (''unknown file type '' @ t))) (\<lambda>(e, r). Inr (map_Entry h e, r))"
      by (auto simp: bindr_assoc parseRegular_agree [OF "1.prems"(1) suf] map_prod_def id_def
          intro!: bindr_cong [OF refl])
  qed
next
  case (2 sync mk prev s)
  have step: "bindr (parseEntry sync mk' s5) (\<lambda>(e, s6). bindr (expect sync '')'' ''close'' s6) (\<lambda>s7.
        bindr (parseDirectory sync mk' name s7) (\<lambda>(es, s8). Inr ((name, e) # es, s8)))) =
      bindr (parseEntry sync mk s5) (\<lambda>(e, s6). bindr (expect sync '')'' ''close'' s6) (\<lambda>s7.
        bindr (parseDirectory sync mk name s7) (\<lambda>(es, s8).
        Inr ((name, map_Entry h e) # map (\<lambda>(n, e). (n, map_Entry h e)) es, s8))))"
    if t: "readTag sync s = Inr (t, s1)" "t \<noteq> '')''" "\<not> t \<noteq> ''entry''"
      and st: "expect sync ''('' ''open'' s1 = Inr s2" "expect sync ''name'' ''name'' s2 = Inr s3"
        "readTag sync s3 = Inr (name, s4)" "\<not> \<not> nameValid name" "\<not> name \<le> prev"
        "expect sync ''node'' ''node'' s4 = Inr s5"
    for t s1 s2 s3 name s4 s5
  proof -
    have suf: "suffix s5 S"
      using "2.prems"(2) t(1) st(1,2,3,6) by (meson readTag_suffix expect_suffix)
    have e: "parseEntry sync mk' s5 = bindr (parseEntry sync mk s5) (\<lambda>(e, r). Inr (map_Entry h e, r))"
      by (rule "2.IH"(1) [OF t(1) refl t(2,3) st(1,2,3) refl st(4,5,6) "2.prems"(1) suf])
    have es: "parseDirectory sync mk' name s7 =
        bindr (parseDirectory sync mk name s7) (\<lambda>(es, r). Inr (map (\<lambda>(n, e). (n, map_Entry h e)) es, r))"
      if "parseEntry sync mk s5 = Inr (e, s6)" "expect sync '')'' ''close'' s6 = Inr s7" for e s6 s7
    proof (rule "2.IH"(2) [OF t(1) refl t(2,3) st(1,2,3) refl st(4,5,6) that(1) refl _ that(2) "2.prems"(1)])
      show "\<not> \<not> length s6 < length s5" using parseEntry_shorter [OF that(1)] by simp
      have "suffix s6 s5" using parseEntry_strict(1) [OF that(1)] by (simp add: strict_suffix_def)
      then show "suffix s7 S" using suf that(2) by (meson expect_suffix suffix_order.trans)
    qed
    show ?thesis
      unfolding e bindr_assoc
      by (rule bindr_cong [OF refl], clarify, simp, rule bindr_cong [OF refl])
         (auto simp: es bindr_assoc intro!: bindr_cong [OF refl])
  qed
  show ?case
    unfolding parseDirectory_eq [of sync _ prev s] bindr_assoc
    by (intro bindr_cong [OF refl])
       (auto simp: bindr_assoc step split: if_splits intro!: bindr_cong [OF refl])
qed

text \<open>Reading the file that an index entry points at, as \<^verbatim>\<open>nar-accessor.cc\<close> does.\<close>

definition fetchFile :: "string \<Rightarrow> index_File \<Rightarrow> nar_File" where
  "fetchFile nar f =
     \<lparr>executable = index_executable f, file_size = index_size f,
      file_contents = take (index_size f) (drop (index_offset f) nar)\<rparr>"

lemma index_agree: "consumers_agree S (fetchFile S) (mkIndexFile (length S)) mkFile"
  by (auto simp: consumers_agree_def fetchFile_def mkIndexFile_def mkFile_def suffix_def)

lemma createIndex_fetch:
  "parseNar sync s = bindr (createIndex sync s) (\<lambda>(i, r). Inr (map_Entry (fetchFile s) i, r))"
proof -
  have "parseEntry sync mkFile s1 =
      bindr (parseEntry sync (mkIndexFile (length s)) s1) (\<lambda>(i, r). Inr (map_Entry (fetchFile s) i, r))"
    if "readStringLimited sync wrapRoot (length narVersionMagic1) s = Inr (v, s1)" for v s1
    using that by (intro parseEntry_agree(1) [OF index_agree]) (auto dest!: readStringLimited_canonical simp: suffix_def)
  then show ?thesis
    unfolding parseNar_def createIndex_def parseRoot_def bindr_assoc
    by (intro bindr_cong [OF refl]) auto
qed

section \<open>Properties\<close>

text \<open>A small tree for the concrete instances below.\<close>

definition example_tree :: "nar_File Entry" where
  "example_tree = Directory
     [(''bin'', File \<lparr>executable = True, file_size = 2, file_contents = ''hi''\<rparr>), (''lib'', Symlink ''bin'')]"

lemma nameValid_short:
  "length name < length caseHackSuffix \<Longrightarrow>
   nameValid name \<longleftrightarrow> name \<noteq> [] \<and> name \<noteq> ''.'' \<and> name \<noteq> ''..'' \<and> CHR ''/'' \<notin> set name \<and> CHR 0x00 \<notin> set name"
  by (auto simp: nameValid_def dest: sublist_length_le)

lemma example_tree_ok: "entry_ok example_tree"
proof -
  have "''bin'' < ''lib''" by code_simp
  then show ?thesis
    by (simp add: example_tree_def file_ok_def narStringLimit_def max_size_def nameValid_short caseHackSuffix_def)
qed

text \<open>C7: an archive written by \<^verbatim>\<open>nar::dump\<close> for a well-formed tree is parsed back to the same tree, by the
  synchronous and by the asynchronous parser, and nothing behind it is consumed.\<close>

theorem nar_roundtrip:
  assumes "entry_ok e"
  shows "parseNar sync (dump e @ r) = Inr (e, r)"
  using assms by (rule parseNar_dump)

theorem nar_roundtrip_witness:
  "entry_ok example_tree \<and> parseNar True (dump example_tree @ ''rest'') = Inr (example_tree, ''rest'')"
  using nar_roundtrip [OF example_tree_ok] example_tree_ok by simp

text \<open>C6: the archive format is canonical: whatever the parser accepts is byte for byte the dump of the tree it
  returns, the names in every directory are valid and strictly ascending, and sizes match contents.\<close>

theorem nar_canonical:
  assumes "parseNar sync s = Inr (e, r)"
  shows "entry_ok e \<and> s = dump e @ r"
  using assms by (rule parseNar_canonical)

theorem nar_canonical_witness:
  "parseNar False (dump example_tree) = Inr (example_tree, []) \<and> entry_ok example_tree"
proof -
  have p: "parseNar False (dump example_tree) = Inr (example_tree, [])"
    using parseNar_dump [OF example_tree_ok, of False "[]"] by simp
  show ?thesis using nar_canonical [OF p] p by simp
qed

text \<open>C35: the index of an archive agrees with the archive: it exists for the same inputs and with the same
  errors, and reading the bytes at the offset and size of each file gives the file that the parser returns.\<close>

theorem nar_index_fetch:
  "parseNar sync s = bindr (createIndex sync s) (\<lambda>(i, r). Inr (map_Entry (fetchFile s) i, r))"
  by (rule createIndex_fetch)

text \<open>copying an archive through \<^verbatim>\<open>copyNAR\<close> reproduces exactly the bytes it consumes.\<close>

theorem copyNAR_identity:
  assumes "copyNAR s = Inr (t, r)"
  shows "s = t @ r"
  using assms by (auto simp: copyNAR_def bindr_eq_Inr_iff dump_def dest!: parseNar_canonical)

theorem copyNAR_identity_witness:
  "copyNAR (dump example_tree @ ''x'') = Inr (dump example_tree, ''x'')
   \<and> dump example_tree @ ''x'' = dump example_tree @ ''x''"
proof -
  have c: "copyNAR (dump example_tree @ ''x'') = Inr (dump example_tree, ''x'')"
    by (simp add: copyNAR_def parseNar_dump [OF example_tree_ok]) (simp add: dump_def)
  show ?thesis using copyNAR_identity [OF c] c by simp
qed

text \<open>The dump of a string is the archive of a single file that is not executable.\<close>

lemma dumpString_file:
  "dumpString s = dump (File \<lparr>executable = False, file_size = length s, file_contents = s\<rparr>)"
  by (simp add: dumpString_def dump_def dumpFile_def putString_def)

end
