(* ===== verification/Lix_References.thy ===== *)
theory Lix_References
  imports Lix_Base_Encoding Lix_Streams
begin

text \<open>
  \<^verbatim>\<open>libutil/references.cc\<close>: the scanner that finds the hash parts of store paths in a stream
  (\<^verbatim>\<open>search\<close> and \<^verbatim>\<open>RefScanSink\<close>) and the source that rewrites strings in a stream
  (\<^verbatim>\<open>RewritingSource\<close>, used by \<^verbatim>\<open>Rewriter\<close> of \<^verbatim>\<open>strings.cc\<close> and \<^verbatim>\<open>computeHashModulo\<close>).

  The scanner is shown to find exactly the references that occur in the whole stream, however it
  is cut into fragments.
\<close>

section \<open>Scanning for references\<close>

definition refLength :: nat where
  "refLength = 32"

definition isBase32 :: "char \<Rightarrow> bool" where
  "isBase32 c \<longleftrightarrow> c \<in> set base32Chars"

text \<open>The inner loop runs from the end of the window: the last position that is not base-32.\<close>

definition lastNonBase32 :: "string \<Rightarrow> nat option" where
  "lastNonBase32 w =
     (case dropWhile isBase32 (rev w) of [] \<Rightarrow> None | r \<Rightarrow> Some (length r - 1))"

definition oset_erase :: "'a \<Rightarrow> 'a oset \<Rightarrow> 'a oset" where
  "oset_erase x xs = removeAll x xs"

function search :: "string \<Rightarrow> string oset \<Rightarrow> string oset \<Rightarrow> string oset \<times> string oset" where
  "search s hashes seen =
     (if length s < refLength then (hashes, seen)
      else case lastNonBase32 (take refLength s) of
        Some j \<Rightarrow> search (drop (j + 1) s) hashes seen
      | None \<Rightarrow>
          let ref = take refLength s
          in if ref \<in> set hashes then search (drop 1 s) (oset_erase ref hashes) (oset_insert ref seen)
             else search (drop 1 s) hashes seen)"
  by pat_completeness auto
termination
  by (relation "measure (\<lambda>(s, _, _). length s)") (auto simp: refLength_def)

declare search.simps [simp del]

record RefScanSink =
  hashes :: "string oset"
  seen :: "string oset"
  tail :: string

definition newRefScanSink :: "string oset \<Rightarrow> RefScanSink" where
  "newRefScanSink hs = \<lparr>hashes = hs, seen = [], tail = []\<rparr>"

definition refScan :: "string \<Rightarrow> RefScanSink \<Rightarrow> RefScanSink" where
  "refScan data sink =
     (let tailLen = min (length data) refLength;
          s = tail sink @ take tailLen data;
          (hashes1, seen1) = search s (hashes sink) (seen sink);
          (hashes2, seen2) = search data hashes1 seen1;
          rest = refLength - tailLen;
          tail1 = (if rest < length (tail sink) then drop (length (tail sink) - rest) (tail sink)
                   else tail sink)
      in \<lparr>hashes = hashes2, seen = seen2, tail = tail1 @ drop (length data - tailLen) data\<rparr>)"

text \<open>\<^verbatim>\<open>scanForReferences\<close> feeds the fragments of a stream in turn.\<close>

definition refScanAll :: "string list \<Rightarrow> RefScanSink \<Rightarrow> RefScanSink" where
  "refScanAll frags sink = fold refScan frags sink"

section \<open>The scanner finds what occurs\<close>

text \<open>A reference occurs in a string: it is a contiguous part of base-32 characters of full length.\<close>

definition isRef :: "string \<Rightarrow> bool" where
  "isRef r \<longleftrightarrow> length r = refLength \<and> (\<forall>c \<in> set r. isBase32 c)"

definition refs_in :: "string \<Rightarrow> string set" where
  "refs_in s = {r. isRef r \<and> sublist r s}"

lemma refLength_pos [simp]: "0 < refLength"
  by (simp add: refLength_def)

lemma refs_in_short: "length s < refLength \<Longrightarrow> refs_in s = {}"
  using sublist_length_le by (fastforce simp: refs_in_def isRef_def)

lemma lastNonBase32_None: "lastNonBase32 w = None \<longleftrightarrow> (\<forall>c \<in> set w. isBase32 c)"
  by (auto simp: lastNonBase32_def split: list.splits)
     (metis dropWhile_eq_Nil_conv list.distinct(1) set_rev)

lemma lastNonBase32_Some:
  assumes "lastNonBase32 w = Some j"
  shows "j < length w \<and> \<not> isBase32 (w ! j)"
proof -
  obtain c r where cr: "dropWhile isBase32 (rev w) = c # r" "j = length r"
    using assms by (auto simp: lastNonBase32_def split: list.splits)
  obtain p where p: "rev w = p @ c # r" using cr(1) by (metis takeWhile_dropWhile_id)
  then have "w = rev r @ c # rev p" by (metis append.assoc append_Cons append_Nil rev.simps(2) rev_append rev_swap)
  moreover have "\<not> isBase32 c" using cr(1) by (metis hd_dropWhile list.distinct(1) list.sel(1))
  ultimately show ?thesis using cr(2) by (simp add: nth_append)
qed

lemma sublist_Cons_iff: "sublist r (c # s) \<longleftrightarrow> prefix r (c # s) \<or> sublist r s"
  by (simp add: sublist_Cons_right)

text \<open>No reference starts before a character that is not base-32 and reaches over it.\<close>

lemma refs_in_skip:
  assumes "j < refLength" "j < length s" "\<not> isBase32 (s ! j)"
  shows "refs_in s = refs_in (drop (j + 1) s)"
  using assms
proof (induction j arbitrary: s)
  case 0
  then obtain c s' where s: "s = c # s'" by (cases s) auto
  have "\<not> prefix r s" if "isRef r" for r
    using that 0 s by (cases r) (auto simp: isRef_def)
  then show ?case using s by (auto simp: refs_in_def sublist_Cons_iff)
next
  case (Suc j)
  then obtain c s' where s: "s = c # s'" by (cases s) auto
  have "\<not> prefix r s" if "isRef r" for r
  proof
    assume "prefix r s"
    then have "r ! Suc j = s ! Suc j" using that Suc.prems(1) by (auto simp: prefix_def isRef_def nth_append)
    then show False using that Suc.prems by (metis isRef_def nth_mem)
  qed
  then have "refs_in s = refs_in s'" using s by (auto simp: refs_in_def sublist_Cons_iff)
  also have "\<dots> = refs_in (drop (j + 1) s')" using Suc.prems s by (intro Suc.IH) auto
  finally show ?case using s by simp
qed

lemma refs_in_step:
  assumes "\<forall>c \<in> set (take refLength s). isBase32 c" "refLength \<le> length s"
  shows "refs_in s = insert (take refLength s) (refs_in (drop 1 s))"
proof -
  obtain c s' where s: "s = c # s'" using assms(2) by (cases s) (auto simp: refLength_def)
  have ref: "isRef (take refLength s)" using assms by (auto simp: isRef_def)
  have "prefix r s \<longleftrightarrow> r = take refLength s" if "isRef r" for r
    using that assms(2) by (auto simp: prefix_def isRef_def) (metis append_take_drop_id)
  then show ?thesis using s ref by (auto simp: refs_in_def sublist_Cons_iff)
qed

lemma search_spec:
  "search s hs sn = (hs', sn') \<Longrightarrow> set hs' = set hs - refs_in s \<and> set sn' = set sn \<union> (set hs \<inter> refs_in s)"
proof (induction s hs sn arbitrary: hs' sn' rule: search.induct)
  case (1 s hs sn)
  show ?case
  proof (cases "length s < refLength")
    case True
    then show ?thesis using "1.prems" by (simp add: search.simps [of s] refs_in_short)
  next
    case False
    show ?thesis
    proof (cases "lastNonBase32 (take refLength s)")
      case (Some j)
      from lastNonBase32_Some [OF this] have "j < refLength" "j < length s" "\<not> isBase32 (s ! j)" by auto
      then have "refs_in s = refs_in (drop (j + 1) s)" by (rule refs_in_skip)
      moreover have "search (drop (j + 1) s) hs sn = (hs', sn')"
        using "1.prems" False Some by (simp add: search.simps [of s])
      ultimately show ?thesis using "1.IH"(3) [OF False Some] by simp
    next
      case None
      then have refs: "refs_in s = insert (take refLength s) (refs_in (drop 1 s))"
        using False by (intro refs_in_step) (simp_all add: lastNonBase32_None)
      show ?thesis
      proof (cases "take refLength s \<in> set hs")
        case True
        then have "search (drop 1 s) (oset_erase (take refLength s) hs) (oset_insert (take refLength s) sn) = (hs', sn')"
          using "1.prems" False None by (simp add: search.simps [of s] Let_def)
        from "1.IH"(1) [OF False None refl True this] show ?thesis
          using True by (auto simp: refs oset_erase_def)
      next
        case f: False
        then have "search (drop 1 s) hs sn = (hs', sn')"
          using "1.prems" False None by (simp add: search.simps [of s] Let_def)
        from "1.IH"(2) [OF False None refl f this] show ?thesis using f by (auto simp: refs)
      qed
    qed
  qed
qed

text \<open>
  A reference in the stream either ends within the first \<open>refLength\<close> characters of the new fragment,
  then it lies in the tail and that part, or it starts in the fragment.
\<close>

definition last_chars :: "nat \<Rightarrow> string \<Rightarrow> string" where
  "last_chars n s = drop (length s - n) s"

lemma last_chars_append: "\<exists>p. s = p @ last_chars n s" and length_last_chars: "length (last_chars n s) = min n (length s)"
  by (metis append_take_drop_id last_chars_def) (simp add: last_chars_def)

lemma refs_in_append:
  "refs_in (s @ d) = refs_in s \<union> refs_in (last_chars refLength s @ take refLength d) \<union> refs_in d"
proof (intro set_eqI iffI)
  fix r
  assume "r \<in> refs_in (s @ d)"
  then obtain p q where r: "isRef r" "s @ d = p @ r @ q" by (auto simp: refs_in_def sublist_def)
  consider a' where "s = p @ r @ a'" | b' where "d = b' @ r @ q"
    | a b where "s = p @ a" "r = a @ b" "d = b @ q"
    using r(2) by (auto simp: append_eq_append_conv2)
  then show "r \<in> refs_in s \<union> refs_in (last_chars refLength s @ take refLength d) \<union> refs_in d"
  proof cases
    case (3 a b)
    then have "length a \<le> refLength" "length b \<le> refLength" using r(1) by (auto simp: isRef_def)
    then have "suffix a (last_chars refLength s)" "prefix b (take refLength d)"
      using 3 by (auto simp: last_chars_def suffix_def prefix_def)
    then obtain u v where "last_chars refLength s = u @ a" "take refLength d = b @ v"
      by (auto simp: suffix_def prefix_def)
    then have "last_chars refLength s @ take refLength d = u @ r @ v" using 3(2) by simp
    then show ?thesis using r(1) by (auto simp: refs_in_def sublist_def)
  qed (use r(1) in \<open>auto simp: refs_in_def sublist_def\<close>)
next
  fix r
  assume "r \<in> refs_in s \<union> refs_in (last_chars refLength s @ take refLength d) \<union> refs_in d"
  moreover have "sublist (last_chars refLength s @ take refLength d) (s @ d)"
  proof -
    obtain p where "s = p @ last_chars refLength s" using last_chars_append by blast
    then have "s @ d = p @ (last_chars refLength s @ take refLength d) @ drop refLength d"
      by (metis append.assoc append_take_drop_id)
    then show ?thesis unfolding sublist_def by blast
  qed
  ultimately show "r \<in> refs_in (s @ d)"
    by (auto simp: refs_in_def intro: sublist_order.order_trans sublist_append_leftI sublist_append_rightI)
qed

lemma refScan_tail:
  assumes "tail sink = last_chars refLength s"
  shows "tail (refScan d sink) = last_chars refLength (s @ d)"
proof -
  define t where "t = tail sink"
  have t: "t = last_chars refLength s" using assms by (simp add: t_def)
  have "tail (refScan d sink) =
      (if refLength - min (length d) refLength < length t
       then drop (length t - (refLength - min (length d) refLength)) t else t) @
      drop (length d - min (length d) refLength) d"
    by (simp add: refScan_def t_def Let_def split: prod.splits)
  also have "\<dots> = last_chars refLength (s @ d)"
  proof (cases "length d \<le> refLength")
    case True
    then have "length s - refLength = length s + length d - refLength"
      if "\<not> refLength - length d < length s - (length s - refLength)"
      using that by linarith
    then show ?thesis using True by (auto simp: t last_chars_def min_def)
  next
    case False
    then show ?thesis by (auto simp: t last_chars_def min_def)
  qed
  finally show ?thesis .
qed

text \<open>The invariant of the sink: what it has seen of the hashes \<open>H\<close> after the stream \<open>s\<close>.\<close>

definition scan_inv :: "string set \<Rightarrow> string \<Rightarrow> RefScanSink \<Rightarrow> bool" where
  "scan_inv H s sink \<longleftrightarrow>
     tail sink = last_chars refLength s \<and> set (hashes sink) = H - refs_in s \<and> set (seen sink) = H \<inter> refs_in s"

lemma scan_inv_new: "scan_inv (set hs) [] (newRefScanSink hs)"
  by (simp add: scan_inv_def newRefScanSink_def last_chars_def refs_in_short)

lemma scan_inv_step:
  assumes "scan_inv H s sink"
  shows "scan_inv H (s @ d) (refScan d sink)"
proof -
  have tl: "tail sink = last_chars refLength s" and h: "set (hashes sink) = H - refs_in s"
    and n: "set (seen sink) = H \<inter> refs_in s" using assms by (simp_all add: scan_inv_def)
  define x where "x = tail sink @ take (min (length d) refLength) d"
  obtain h1 n1 where 1: "search x (hashes sink) (seen sink) = (h1, n1)" by fastforce
  obtain h2 n2 where 2: "search d h1 n1 = (h2, n2)" by fastforce
  have r: "hashes (refScan d sink) = h2" "seen (refScan d sink) = n2"
    using 1 2 by (simp_all add: refScan_def x_def Let_def)
  have x: "x = last_chars refLength s @ take refLength d" using tl by (simp add: x_def min_def)
  show ?thesis
  proof -
    have u: "refs_in (s @ d) = refs_in s \<union> refs_in x \<union> refs_in d" unfolding x by (rule refs_in_append)
    have "set h2 = H - refs_in s - refs_in x - refs_in d"
      using search_spec [OF 1] search_spec [OF 2] h by simp
    then have "set h2 = H - refs_in (s @ d)" unfolding u by auto
    moreover have "set n2 = (H \<inter> refs_in s) \<union> ((H - refs_in s) \<inter> refs_in x) \<union> ((H - refs_in s - refs_in x) \<inter> refs_in d)"
      using search_spec [OF 1] search_spec [OF 2] h n by simp
    then have "set n2 = H \<inter> refs_in (s @ d)" unfolding u by auto
    ultimately show ?thesis by (simp add: scan_inv_def r refScan_tail [OF tl])
  qed
qed

lemma scan_inv_all: "scan_inv H s sink \<Longrightarrow> scan_inv H (s @ concat frags) (refScanAll frags sink)"
proof (induction frags arbitrary: s sink)
  case (Cons d frags)
  from Cons.IH [OF scan_inv_step [OF Cons.prems, of d]] show ?case by (simp add: refScanAll_def)
qed (simp add: refScanAll_def)

section \<open>Rewriting a stream\<close>

text \<open>
  The state of a \<^verbatim>\<open>RewritingSource\<close>; the source it reads from becomes \<open>None\<close> at the end of the file.
  The buffer is rewritten in place; the position \<^verbatim>\<open>j\<close> of the loop splits it into the part before
  it and the part from it on.
\<close>

record 's RewritingSource =
  rw_inner :: "'s option"
  rw_rewrites :: "(string, string) omap"
  rw_buffered :: string
  rw_unreturned :: string

definition maxRewriteSize :: "(string, string) omap \<Rightarrow> nat" where
  "maxRewriteSize rewrites = foldl (\<lambda>r (k, v). max r (length k)) 0 rewrites"

text \<open>\<^verbatim>\<open>initials\<close> is sorted and without duplicates: a set of characters.\<close>

definition initials :: "(string, string) omap \<Rightarrow> char oset" where
  "initials rewrites = oset_of (map (\<lambda>(k, v). hd k) rewrites)"

definition newRewritingSource :: "(string, string) omap \<Rightarrow> 's \<Rightarrow> 's RewritingSource result" where
  "newRewritingSource rewrites inner =
     (if \<exists>(k, v) \<in> set rewrites. k = [] then Inl (AssertionFailed ''!k.empty()'')
      else Inr \<lparr>rw_inner = Some inner, rw_rewrites = rewrites, rw_buffered = [], rw_unreturned = []\<rparr>)"

text \<open>The constructor without \<^verbatim>\<open>may_change_size\<close>.\<close>

definition newFixedRewritingSource :: "(string, string) omap \<Rightarrow> 's \<Rightarrow> 's RewritingSource result" where
  "newFixedRewritingSource rewrites inner =
     bindr (newRewritingSource rewrites inner) (\<lambda>src.
     if \<exists>(k, v) \<in> set rewrites. length k \<noteq> length v
     then Inl (AssertionFailed ''from.size() == to.size()'') else Inr src)"

partial_function (option) rewriting_fill ::
  "(nat \<Rightarrow> 's \<Rightarrow> (string \<times> 's) result) \<Rightarrow> nat \<Rightarrow> nat \<Rightarrow> 's option \<Rightarrow> string \<Rightarrow>
   ('s option \<times> string) result option" where
  [code]: "rewriting_fill rd maxSize len inner buffered =
     (case inner of
        None \<Rightarrow> Some (Inr (None, buffered))
      | Some s \<Rightarrow>
          if length buffered < max (2 * maxSize) len then
            case rd (min (2 * maxSize) len) s of
              Inr (d, s') \<Rightarrow> rewriting_fill rd maxSize len (Some s') (buffered @ d)
            | Inl e \<Rightarrow>
                if is_EndOfFile e then rewriting_fill rd maxSize len None buffered
                else Some (Inl e)
          else Some (Inr (inner, buffered)))"

fun findRewrite :: "(string, string) omap \<Rightarrow> string \<Rightarrow> (string \<times> string) option" where
  "findRewrite [] rest = None"
| "findRewrite ((k, v) # rewrites) rest = (if prefix k rest then Some (k, v) else findRewrite rewrites rest)"

lemma findRewrite_Some: "findRewrite rw rest = Some (k, v) \<Longrightarrow> (k, v) \<in> set rw \<and> prefix k rest"
  by (induction rw rest rule: findRewrite.induct) (auto split: if_splits)

text \<open>
  The loop of \<^verbatim>\<open>read\<close>. Keys are never empty, which the constructor asserts; the test for it here
  makes the recursion well-founded.
  The bound \<^verbatim>\<open>buffered.size() - reserved\<close> of the loop is unsigned: when the buffer has become shorter
  than the reserved part it wraps around and lies above every position.
\<close>

definition belowReserved :: "nat \<Rightarrow> nat \<Rightarrow> nat \<Rightarrow> bool" where
  "belowReserved j n reserved \<longleftrightarrow> (if n < reserved then True else j < n - reserved)"

function rewriting_loop :: "(string, string) omap \<Rightarrow> nat \<Rightarrow> string \<Rightarrow> string \<Rightarrow> string" where
  "rewriting_loop rw reserved done rest =
     (let skipped = takeWhile (\<lambda>c. c \<notin> set (initials rw)) rest;
          done1 = done @ skipped;
          rest1 = drop (length skipped) rest
      in if rest1 = [] \<or> \<not> belowReserved (length done1) (length done + length rest) reserved
         then done @ rest
         else case findRewrite rw rest1 of
           Some (k, v) \<Rightarrow>
             if k = [] then done @ rest
             else rewriting_loop rw reserved (done1 @ v) (drop (length k) rest1)
         | None \<Rightarrow> rewriting_loop rw reserved (done1 @ [hd rest1]) (tl rest1))"
  by pat_completeness auto
termination
  by (relation "measure (\<lambda>(_, _, _, rest). length rest)")
     (auto dest!: findRewrite_Some prefix_length_le simp: less_diff_conv neq_Nil_conv)

declare rewriting_loop.simps [simp del]

definition rewriting_read ::
  "(nat \<Rightarrow> 's \<Rightarrow> (string \<times> 's) result) \<Rightarrow> nat \<Rightarrow> 's RewritingSource \<Rightarrow>
   (string \<times> 's RewritingSource) result option" where
  "rewriting_read rd len r =
     (let ret = (\<lambda>r'. Some (Inr (take len (rw_unreturned r'), r'\<lparr>rw_unreturned := drop len (rw_unreturned r')\<rparr>)))
      in if rw_rewrites r = [] then
           (case rw_inner r of
              None \<Rightarrow> Some (Inl (UndefinedBehaviour ''inner''))
            | Some s \<Rightarrow> Some (bindr (rd len s) (\<lambda>(d, s'). Inr (d, r\<lparr>rw_inner := Some s'\<rparr>))))
         else if rw_unreturned r \<noteq> [] then ret r
         else
           case rewriting_fill rd (maxRewriteSize (rw_rewrites r)) len (rw_inner r) (rw_buffered r) of
             None \<Rightarrow> None
           | Some (Inl e) \<Rightarrow> Some (Inl e)
           | Some (Inr (inner, buffered)) \<Rightarrow>
               if buffered = [] \<and> inner = None then Some (Inl (EndOfFile ''rewritten source exhausted''))
               else
                 let reserved = (if inner = None then 0 else maxRewriteSize (rw_rewrites r));
                     rewritten = rewriting_loop (rw_rewrites r) reserved [] buffered;
                     n = length rewritten
                 in if n < reserved then Some (Inl (OutOfRange ''rewritten.substr''))
                    else ret (r\<lparr>rw_inner := inner, rw_buffered := drop (n - reserved) rewritten,
                               rw_unreturned := take (n - reserved) rewritten\<rparr>))"

text \<open>A fill that does not end, over a source that keeps returning nothing, is an endless loop.\<close>

definition RewritingSource_read ::
  "(nat \<Rightarrow> 's \<Rightarrow> (string \<times> 's) result) \<Rightarrow> nat \<Rightarrow> 's RewritingSource \<Rightarrow> (string \<times> 's RewritingSource) result" where
  "RewritingSource_read rd len r =
     (case rewriting_read rd len r of Some x \<Rightarrow> x | None \<Rightarrow> Inl (UndefinedBehaviour ''endless loop''))"

text \<open>\<^verbatim>\<open>Rewriter::operator()\<close> drains a rewriting source over a string.\<close>

definition rewriteStrings :: "string \<Rightarrow> (string, string) omap \<Rightarrow> string result option" where
  "rewriteStrings s rewrites =
     (case newRewritingSource rewrites s of
        Inl e \<Rightarrow> Some (Inl e)
      | Inr src \<Rightarrow> source_drain (RewritingSource_read StringSource_read) src)"

section \<open>Rewriting within one window\<close>

text \<open>
  What the documentation of \<^verbatim>\<open>Rewriter\<close> promises: from left to right, the first key in the order of
  the map that matches at a position is replaced, and its replacement is not looked at again.
\<close>

function rewrite_all :: "(string, string) omap \<Rightarrow> string \<Rightarrow> string" where
  "rewrite_all rw s =
     (if s = [] then []
      else case findRewrite rw s of
        Some (k, v) \<Rightarrow> if k = [] then s else v @ rewrite_all rw (drop (length k) s)
      | None \<Rightarrow> hd s # rewrite_all rw (tl s))"
  by pat_completeness auto
termination
  by (relation "measure (\<lambda>(_, s). length s)")
     (auto dest!: findRewrite_Some prefix_length_le simp: less_diff_conv neq_Nil_conv)

declare rewrite_all.simps [simp del]

definition keys_ok :: "(string, string) omap \<Rightarrow> bool" where
  "keys_ok rw \<longleftrightarrow> (\<forall>(k, v) \<in> set rw. k \<noteq> [])"

lemma keys_ok_findRewrite: "keys_ok rw \<Longrightarrow> findRewrite rw s = Some (k, v) \<Longrightarrow> k \<noteq> [] \<and> prefix k s"
  by (auto simp: keys_ok_def dest!: findRewrite_Some)

lemma findRewrite_initial:
  assumes "keys_ok rw" and "c \<notin> set (initials rw)"
  shows "findRewrite rw (c # s) = None"
proof (cases "findRewrite rw (c # s)")
  case (Some kv)
  obtain k v where kv: "kv = (k, v)" by fastforce
  from Some kv have "(k, v) \<in> set rw" "prefix k (c # s)" by (auto dest!: findRewrite_Some)
  moreover have "k \<noteq> []" using keys_ok_findRewrite assms(1) Some kv by blast
  ultimately have "hd k = c" by (cases k) auto
  then have "c \<in> set (initials rw)" using \<open>(k, v) \<in> set rw\<close> by (force simp: initials_def)
  then show ?thesis using assms(2) by simp
qed

lemma rewrite_all_skip:
  "keys_ok rw \<Longrightarrow> \<forall>c \<in> set p. c \<notin> set (initials rw) \<Longrightarrow> rewrite_all rw (p @ s) = p @ rewrite_all rw s"
  by (induction p) (simp_all add: rewrite_all.simps [of rw "_ # _"] findRewrite_initial)

lemma rewriting_loop_all:
  "keys_ok rw \<Longrightarrow> rewriting_loop rw 0 d rest = d @ rewrite_all rw rest"
proof (induction rw "0 :: nat" d rest rule: rewriting_loop.induct)
  case (1 rw d rest)
  define p where "p = takeWhile (\<lambda>c. c \<notin> set (initials rw)) rest"
  define rest1 where "rest1 = drop (length p) rest"
  have "rest1 = dropWhile (\<lambda>c. c \<notin> set (initials rw)) rest"
    unfolding rest1_def p_def by (simp only: dropWhile_eq_drop)
  then have rest: "rest = p @ rest1" unfolding p_def by (simp only: takeWhile_dropWhile_id)
  have p: "\<forall>c \<in> set p. c \<notin> set (initials rw)" by (auto simp: p_def dest: set_takeWhileD)
  have all: "rewrite_all rw rest = p @ rewrite_all rw rest1"
    unfolding rest using "1.prems" p by (rule rewrite_all_skip)
  show ?case
  proof (cases "rest1 = []")
    case True
    then have "rewriting_loop rw 0 d rest = d @ rest"
      by (simp add: rewriting_loop.simps [of rw 0 d rest] p_def rest1_def Let_def)
    then show ?thesis using all True rest by (simp add: rewrite_all.simps)
  next
    case False
    then have below: "belowReserved (length (d @ p)) (length d + length rest) 0"
      using rest by (cases rest1) (simp_all add: belowReserved_def)
    note unf = rewriting_loop.simps [of rw 0 d rest, folded p_def, unfolded Let_def, folded rest1_def]
    show ?thesis
    proof (cases "findRewrite rw rest1")
      case None
      then have "rewriting_loop rw 0 d rest = rewriting_loop rw 0 ((d @ p) @ [hd rest1]) (tl rest1)"
        using False below by (simp add: unf)
      also have "\<dots> = ((d @ p) @ [hd rest1]) @ rewrite_all rw (tl rest1)"
        using "1.hyps"(1) [OF p_def refl rest1_def _ None "1.prems"] False below by simp
      finally show ?thesis using all None False by (simp add: rewrite_all.simps [of rw rest1])
    next
      case (Some kv)
      obtain k v where kv: "kv = (k, v)" by fastforce
      then have k: "k \<noteq> []" using keys_ok_findRewrite "1.prems" Some by blast
      have "rewriting_loop rw 0 d rest = rewriting_loop rw 0 ((d @ p) @ v) (drop (length k) rest1)"
        using False below Some kv k by (simp add: unf)
      also have "\<dots> = ((d @ p) @ v) @ rewrite_all rw (drop (length k) rest1)"
        using "1.hyps"(2) [OF p_def refl rest1_def _ Some kv [symmetric] k "1.prems"] False below by simp
      finally show ?thesis using all Some kv k False by (simp add: rewrite_all.simps [of rw rest1])
    qed
  qed
qed

lemma StringSource_read_simps:
  "StringSource_read n [] = Inl (EndOfFile ''end of string reached'')"
  "s \<noteq> [] \<Longrightarrow> StringSource_read n s = Inr (take n s, drop n s)"
  by (simp_all add: StringSource_read_def)

lemma rewriting_fill_string:
  "0 < m \<Longrightarrow> 0 < len \<Longrightarrow> length (buf @ s) < max (2 * m) len \<Longrightarrow>
   rewriting_fill StringSource_read m len (Some s) buf = Some (Inr (None, buf @ s))"
proof (induction s arbitrary: buf rule: length_induct)
  case (1 s)
  show ?case
  proof (cases "s = []")
    case True
    then show ?thesis using "1.prems"
      by (simp add: rewriting_fill.simps [of _ _ _ "Some []"] rewriting_fill.simps [of _ _ _ None] StringSource_read_simps)
  next
    case False
    let ?n = "min (2 * m) len"
    have "length (drop ?n s) < length s" using False "1.prems" by simp
    moreover have "length ((buf @ take ?n s) @ drop ?n s) < max (2 * m) len" using "1.prems" by simp
    ultimately have "rewriting_fill StringSource_read m len (Some (drop ?n s)) (buf @ take ?n s) =
        Some (Inr (None, (buf @ take ?n s) @ drop ?n s))"
      using "1.IH" "1.prems"(1,2) by blast
    then show ?thesis using "1.prems" False
      by (simp add: rewriting_fill.simps [of _ _ _ "Some s"] StringSource_read_simps)
  qed
qed

lemma maxRewriteSize_pos:
  assumes "keys_ok rw" and "rw \<noteq> []"
  shows "0 < maxRewriteSize rw"
proof -
  have mono: "r \<le> foldl (\<lambda>r (k, v). max r (length k)) r xs" for r :: nat and xs :: "(string \<times> string) list"
  proof (induction xs arbitrary: r)
    case (Cons kv xs)
    have "r \<le> max r (length (fst kv))" by simp
    also have "\<dots> \<le> foldl (\<lambda>r (k, v). max r (length k)) (max r (length (fst kv))) xs" by (rule Cons.IH)
    finally show ?case by (cases kv) simp
  qed simp
  obtain k v rw' where rw: "rw = (k, v) # rw'" using assms(2) by (cases rw) auto
  then have "0 < length k" using assms(1) by (simp add: keys_ok_def)
  also have "\<dots> \<le> maxRewriteSize rw" using mono [of "max 0 (length k)" rw'] by (simp add: rw maxRewriteSize_def)
  finally show ?thesis .
qed

text \<open>Once the inner source is exhausted, the rest of the rewritten string is returned piece by piece.\<close>

definition rest_source :: "(string, string) omap \<Rightarrow> string \<Rightarrow> 's RewritingSource" where
  "rest_source rw u = \<lparr>rw_inner = None, rw_rewrites = rw, rw_buffered = [], rw_unreturned = u\<rparr>"

lemma drain_rest:
  "rw \<noteq> [] \<Longrightarrow>
   source_drain_loop (RewritingSource_read rd) acc (rest_source rw u) = Some (Inr (acc @ u))"
proof (induction u arbitrary: acc rule: length_induct)
  case (1 u)
  show ?case
  proof (cases "u = []")
    case True
    then show ?thesis using "1.prems"
      by (simp add: source_drain_loop.simps [of _ acc] RewritingSource_read_def rewriting_read_def
          rest_source_def rewriting_fill.simps [of _ _ _ None])
  next
    case False
    have "RewritingSource_read rd drainBufSize (rest_source rw u) =
        Inr (take drainBufSize u, rest_source rw (drop drainBufSize u))"
      using "1.prems" False by (simp add: RewritingSource_read_def rewriting_read_def rest_source_def)
    moreover have "length (drop drainBufSize u) < length u" using False by (simp add: drainBufSize_def)
    ultimately show ?thesis using "1.IH" "1.prems" by (simp add: source_drain_loop.simps [of _ acc])
  qed
qed

lemma rewriteStrings_window:
  assumes keys: "keys_ok rw" and short: "length s < drainBufSize"
  shows "rewriteStrings s rw = Some (Inr (rewrite_all rw s))"
proof -
  have new: "newRewritingSource rw s =
      Inr \<lparr>rw_inner = Some s, rw_rewrites = rw, rw_buffered = [], rw_unreturned = []\<rparr>" (is "_ = Inr ?src")
    using keys by (auto simp: newRewritingSource_def keys_ok_def)
  show ?thesis
  proof (cases "rw = []")
    case True
    have "rewrite_all [] x = x" for x
      by (induction x) (simp_all add: rewrite_all.simps [of _ "[]"] rewrite_all.simps [of _ "_ # _"])
    moreover have "source_drain_loop (RewritingSource_read StringSource_read) acc
        \<lparr>rw_inner = Some x, rw_rewrites = [], rw_buffered = [], rw_unreturned = []\<rparr> = Some (Inr (acc @ x))" for acc x
    proof (induction x arbitrary: acc rule: length_induct)
      case (1 x)
      then show ?case
        by (cases "x = []") (simp_all add: source_drain_loop.simps [of _ acc] RewritingSource_read_def
            rewriting_read_def StringSource_read_simps drainBufSize_def)
    qed
    ultimately show ?thesis using True new by (simp add: rewriteStrings_def source_drain_def)
  next
    case False
    have len: "length ([] @ s) < max (2 * maxRewriteSize rw) drainBufSize" using short by simp
    have fill: "rewriting_fill StringSource_read (maxRewriteSize rw) drainBufSize (Some s) [] = Some (Inr (None, s))"
      using rewriting_fill_string [OF maxRewriteSize_pos [OF keys False] _ len] by (simp add: drainBufSize_def)
    show ?thesis
    proof (cases "s = []")
      case True
      then show ?thesis using new False fill
        by (simp add: rewriteStrings_def source_drain_def source_drain_loop.simps [of _ "[]"]
            RewritingSource_read_def rewriting_read_def rewrite_all.simps [of _ "[]"])
    next
      case s: False
      have "RewritingSource_read StringSource_read drainBufSize ?src =
          Inr (take drainBufSize (rewrite_all rw s), rest_source rw (drop drainBufSize (rewrite_all rw s)))"
        using False s fill
        by (simp add: RewritingSource_read_def rewriting_read_def rewriting_loop_all [OF keys] rest_source_def Let_def)
      then show ?thesis
        using new drain_rest [OF False, of StringSource_read] by (simp add: rewriteStrings_def source_drain_def source_drain_loop.simps [of _ "[]"])
    qed
  qed
qed

section \<open>Properties\<close>

text \<open>C8: the reference scanner is exact and does not depend on how the stream is cut into fragments: after
  any sequence of fragments it has seen those of the wanted hashes that occur in their concatenation.\<close>

theorem refscan_exact:
  "set (seen (refScanAll frags (newRefScanSink hs))) = {h \<in> set hs. isRef h \<and> sublist h (concat frags)}"
  using scan_inv_all [OF scan_inv_new, of hs frags] by (auto simp: scan_inv_def refs_in_def)

text \<open>C40: \<^verbatim>\<open>Rewriter\<close> keeps its promise on strings shorter than one window: it returns, and the result replaces from
  left to right the first key that matches and never rewrites a replacement.\<close>

theorem rewriter_correct:
  assumes "\<forall>(k, v) \<in> set rw. k \<noteq> []" and "length s < drainBufSize"
  shows "rewriteStrings s rw = Some (Inr (rewrite_all rw s))"
  using assms by (intro rewriteStrings_window) (simp_all add: keys_ok_def)

theorem rewriter_correct_witness:
  "rewriteStrings ''abcde'' [(''a'', ''b''), (''b'', ''c''), (''e'', ''b'')] = Some (Inr ''bccdb'')"
proof -
  have "rewrite_all [(''a'', ''b''), (''b'', ''c''), (''e'', ''b'')] ''abcde'' = ''bccdb''" by code_simp
  then show ?thesis
    using rewriter_correct [of "[(''a'', ''b''), (''b'', ''c''), (''e'', ''b'')]" "''abcde''"]
    by (simp add: drainBufSize_def)
qed

text \<open>
  Beyond one window the promise is broken. A replacement that reaches into the part of the buffer
  kept for the next round is scanned again there: reading four bytes at a time, the stream
  \<open>xabbxxxx\<close> under \<open>ab \<mapsto> ba\<close> yields \<open>xbba\<close> and not \<open>xbab\<close>.
\<close>

lemma rewriting_source_rescans:
  "map_option (map_sum id fst) (source_call (RewritingSource_read StringSource_read) 4
     \<lparr>rw_inner = Some ''xabbxxxx'', rw_rewrites = [(''ab'', ''ba'')], rw_buffered = [], rw_unreturned = []\<rparr>) =
   Some (Inr ''xbba'') \<and> take 4 (rewrite_all [(''ab'', ''ba'')] ''xabbxxxx'') = ''xbab''"
  by code_simp

text \<open>
  Replacements that shrink the buffer below the kept part make the unsigned bound of the loop wrap
  around, and the \<^verbatim>\<open>substr\<close> that follows throws.
\<close>

lemma rewriting_source_shrinks:
  "RewritingSource_read StringSource_read 8
     \<lparr>rw_inner = Some ''caaaaaaaxxxx'', rw_rewrites = [(''aaaa'', ''''), (''c'', '''')], rw_buffered = [],
      rw_unreturned = []\<rparr> = Inl (OutOfRange ''rewritten.substr'')"
  by code_simp

end
