(* ===== verification/Lix_Topo_Sort.thy ===== *)
theory Lix_Topo_Sort
  imports Lix_Prelude
begin

text \<open>
  \<^verbatim>\<open>libutil/topo-sort.hh\<close>: the depth-first topological sort that orders derivations and store
  paths so that references come after what refers to them. The recursion of \<^verbatim>\<open>dfsVisit\<close> carries
  fuel for its depth; the number of items plus one is enough (\<open>dfsVisit_fuel\<close>), so the value
  \<open>None\<close> for missing fuel never appears in the result of \<open>topoSort\<close>.
\<close>

datatype 'a Cycle = Cycle 'a "'a option"

record 'a dfs =
  sorted :: "'a list"
  visited :: "'a oset"
  parents :: "'a oset"

section \<open>The sort\<close>

fun dfsChildren ::
  "('a \<Rightarrow> 'a option \<Rightarrow> 'a dfs \<Rightarrow> ('a Cycle + 'a dfs) option) \<Rightarrow> 'a oset \<Rightarrow> 'a \<Rightarrow> 'a list \<Rightarrow> 'a dfs \<Rightarrow>
   ('a Cycle + 'a dfs) option" where
  "dfsChildren visit items path [] st = Some (Inr st)"
| "dfsChildren visit items path (i # references) st =
     (if i \<noteq> path \<and> i \<in> set items then
        (case visit i (Some path) st of
           Some (Inr st') \<Rightarrow> dfsChildren visit items path references st'
         | r \<Rightarrow> r)
      else dfsChildren visit items path references st)"

fun dfsVisit ::
  "nat \<Rightarrow> 'a::linorder oset \<Rightarrow> ('a \<Rightarrow> 'a oset) \<Rightarrow> 'a \<Rightarrow> 'a option \<Rightarrow> 'a dfs \<Rightarrow> ('a Cycle + 'a dfs) option" where
  "dfsVisit 0 items getChildren path parent st = None"
| "dfsVisit (Suc n) items getChildren path parent st =
     (if path \<in> set (parents st) then Some (Inl (Cycle path parent))
      else if path \<in> set (visited st) then Some (Inr st)
      else
        let st1 = st\<lparr>visited := oset_insert path (visited st), parents := oset_insert path (parents st)\<rparr>
        in case dfsChildren (dfsVisit n items getChildren) items path (getChildren path) st1 of
             Some (Inr st2) \<Rightarrow>
               Some (Inr (st2\<lparr>sorted := sorted st2 @ [path], parents := removeAll path (parents st2)\<rparr>))
           | r \<Rightarrow> r)"

fun dfsRoots ::
  "nat \<Rightarrow> 'a::linorder oset \<Rightarrow> ('a \<Rightarrow> 'a oset) \<Rightarrow> 'a list \<Rightarrow> 'a dfs \<Rightarrow> ('a Cycle + 'a dfs) option" where
  "dfsRoots n items getChildren [] st = Some (Inr st)"
| "dfsRoots n items getChildren (i # is) st =
     (case dfsVisit n items getChildren i None st of
        Some (Inr st') \<Rightarrow> dfsRoots n items getChildren is st'
      | r \<Rightarrow> r)"

definition topoSort :: "'a::linorder oset \<Rightarrow> ('a \<Rightarrow> 'a oset) \<Rightarrow> ('a Cycle + 'a list) option" where
  "topoSort items getChildren =
     (case dfsRoots (Suc (length items)) items getChildren items \<lparr>sorted = [], visited = [], parents = []\<rparr> of
        None \<Rightarrow> None
      | Some (Inl c) \<Rightarrow> Some (Inl c)
      | Some (Inr st) \<Rightarrow> Some (Inr (rev (sorted st))))"

section \<open>Invariant of the search\<close>

text \<open>The references that the sort follows.\<close>

definition edges :: "'a oset \<Rightarrow> ('a \<Rightarrow> 'a oset) \<Rightarrow> ('a \<times> 'a) set" where
  "edges items getChildren = {(x, y). y \<in> set (getChildren x) \<and> y \<noteq> x \<and> y \<in> set items}"

text \<open>Every element comes before the elements it refers to.\<close>

fun references_after :: "('a \<times> 'a) set \<Rightarrow> 'a list \<Rightarrow> bool" where
  "references_after E [] = True"
| "references_after E (x # xs) = (E `` {x} \<subseteq> set xs \<and> references_after E xs)"

definition dfs_inv :: "('a \<times> 'a) set \<Rightarrow> 'a::linorder oset \<Rightarrow> 'a dfs \<Rightarrow> bool" where
  "dfs_inv E items st \<longleftrightarrow>
     distinct (sorted st) \<and> set (visited st) = set (sorted st) \<union> set (parents st)
     \<and> set (sorted st) \<inter> set (parents st) = {} \<and> set (visited st) \<subseteq> set items
     \<and> references_after E (rev (sorted st))"

text \<open>What a visit that succeeds has done.\<close>

definition dfs_done :: "('a \<times> 'a) set \<Rightarrow> 'a::linorder oset \<Rightarrow> 'a set \<Rightarrow> 'a dfs \<Rightarrow> 'a dfs \<Rightarrow> bool" where
  "dfs_done E items xs st st' \<longleftrightarrow>
     dfs_inv E items st' \<and> set (visited st) \<subseteq> set (visited st') \<and> set (sorted st) \<subseteq> set (sorted st')
     \<and> set (parents st') = set (parents st) \<and> xs \<subseteq> set (sorted st')"

text \<open>
  The contract of a visit: it succeeds with \<open>dfs_done\<close>, or reports a cycle that exists, and it has
  enough fuel if the fuel exceeds the number of items not visited.
\<close>

fun outcome_ok ::
  "('a \<times> 'a) set \<Rightarrow> 'a::linorder oset \<Rightarrow> 'a set \<Rightarrow> 'a dfs \<Rightarrow> ('a Cycle + 'a dfs) option \<Rightarrow> bool" where
  "outcome_ok E items xs st None = False"
| "outcome_ok E items xs st (Some (Inl (Cycle x p))) =
     ((\<exists>y. p = Some y \<and> (y, x) \<in> E) \<and> (x, x) \<in> E\<^sup>+)"
| "outcome_ok E items xs st (Some (Inr st')) = dfs_done E items xs st st'"

definition visit_ok ::
  "'a::linorder oset \<Rightarrow> ('a \<Rightarrow> 'a oset) \<Rightarrow> nat \<Rightarrow>
   ('a \<Rightarrow> 'a option \<Rightarrow> 'a dfs \<Rightarrow> ('a Cycle + 'a dfs) option) \<Rightarrow> bool" where
  "visit_ok items gc n visit \<longleftrightarrow>
     (\<forall>path parent st.
        path \<in> set items \<longrightarrow> dfs_inv (edges items gc) items st \<longrightarrow>
        card (set items - set (visited st)) < n \<longrightarrow>
        (case parent of None \<Rightarrow> parents st = []
         | Some p \<Rightarrow> (p, path) \<in> edges items gc \<and> (\<forall>q \<in> set (parents st). (q, p) \<in> (edges items gc)\<^sup>*)) \<longrightarrow>
        outcome_ok (edges items gc) items {path} st (visit path parent st))"

lemma card_unvisited_mono:
  "set (visited st) \<subseteq> set (visited st') \<Longrightarrow>
   card (set items - set (visited st')) \<le> card (set items - set (visited st))"
  by (intro card_mono) auto

lemma outcome_chain:
  assumes "dfs_done E items xs st st1" and "outcome_ok E items ys st1 r"
  shows "outcome_ok E items (xs \<union> ys) st r"
  using assms(2,1) by (cases "(E, items, ys, st1, r)" rule: outcome_ok.cases) (auto simp: dfs_done_def)

lemma dfsChildren_ok:
  assumes visit: "visit_ok items gc n visit"
    and "dfs_inv (edges items gc) items st" "card (set items - set (visited st)) < n"
    and "\<forall>q \<in> set (parents st). (q, path) \<in> (edges items gc)\<^sup>*"
    and "set refs \<subseteq> set (gc path)"
  shows "outcome_ok (edges items gc) items {y \<in> set refs. y \<noteq> path \<and> y \<in> set items} st
    (dfsChildren visit items path refs st)"
  using assms(2-5)
proof (induction refs arbitrary: st)
  case Nil
  then show ?case by (simp add: dfs_done_def)
next
  case (Cons i refs)
  let ?rest = "{y \<in> set refs. y \<noteq> path \<and> y \<in> set items}"
  show ?case
  proof (cases "i \<noteq> path \<and> i \<in> set items")
    case False
    then have "{y \<in> set (i # refs). y \<noteq> path \<and> y \<in> set items} = ?rest" by auto
    moreover have "outcome_ok (edges items gc) items ?rest st (dfsChildren visit items path refs st)"
      using Cons.prems by (intro Cons.IH) auto
    ultimately show ?thesis using False by (simp only: dfsChildren.simps if_False)
  next
    case True
    then have e: "(path, i) \<in> edges items gc" using Cons.prems(4) by (auto simp: edges_def)
    have v: "outcome_ok (edges items gc) items {i} st (visit i (Some path) st)"
      using visit True Cons.prems(1-3) e unfolding visit_ok_def by simp
    have set: "{y \<in> set (i # refs). y \<noteq> path \<and> y \<in> set items} = {i} \<union> ?rest" using True by auto
    show ?thesis
    proof (cases "\<exists>st1. visit i (Some path) st = Some (Inr st1)")
      case False
      then show ?thesis using v True
        by (cases "(edges items gc, items, {i}, st, visit i (Some path) st)" rule: outcome_ok.cases) auto
    next
      case inr: True
      then obtain st1 where st1: "visit i (Some path) st = Some (Inr st1)" by blast
      then have d: "dfs_done (edges items gc) items {i} st st1" using v by simp
      then have "card (set items - set (visited st1)) < n"
        using Cons.prems(2) card_unvisited_mono [of st st1 items] by (auto simp: dfs_done_def)
      then have "outcome_ok (edges items gc) items ?rest st1 (dfsChildren visit items path refs st1)"
        using d Cons.prems(3,4) by (intro Cons.IH) (auto simp: dfs_done_def)
      from outcome_chain [OF d this] show ?thesis using True st1 set by simp
    qed
  qed
qed

lemma dfsVisit_fuel: "visit_ok items gc n (dfsVisit n items gc)"
proof (induction n)
  case 0
  then show ?case by (simp add: visit_ok_def)
next
  case (Suc n)
  let ?E = "edges items gc"
  show ?case
    unfolding visit_ok_def
  proof (intro allI impI)
    fix path parent and st :: "'a dfs"
    assume path: "path \<in> set items" and inv: "dfs_inv ?E items st"
      and fuel: "card (set items - set (visited st)) < Suc n"
      and par: "case parent of None \<Rightarrow> parents st = []
        | Some p \<Rightarrow> (p, path) \<in> ?E \<and> (\<forall>q \<in> set (parents st). (q, p) \<in> ?E\<^sup>*)"
    consider "path \<in> set (parents st)" | "path \<notin> set (parents st)" "path \<in> set (visited st)"
      | "path \<notin> set (parents st)" "path \<notin> set (visited st)" by blast
    then show "outcome_ok ?E items {path} st (dfsVisit (Suc n) items gc path parent st)"
    proof cases
      case 1
      then obtain p where p: "parent = Some p" "(p, path) \<in> ?E" "(path, p) \<in> ?E\<^sup>*"
        using par by (cases parent) auto
      then have "(path, path) \<in> ?E\<^sup>+" by (meson rtrancl_into_trancl1)
      then show ?thesis using 1 p by simp
    next
      case 2
      then have "path \<in> set (sorted st)" using inv by (auto simp: dfs_inv_def)
      then show ?thesis using 2 inv by (simp add: dfs_done_def)
    next
      case 3
      define st1 where
        "st1 = st\<lparr>visited := oset_insert path (visited st), parents := oset_insert path (parents st)\<rparr>"
      have inv1: "dfs_inv ?E items st1" using inv path 3 by (auto simp: dfs_inv_def st1_def)
      have "set items - set (visited st1) = (set items - set (visited st)) - {path}" by (auto simp: st1_def)
      then have "card (set items - set (visited st1)) < n"
        using fuel path 3 card_Suc_Diff1 [of "set items - set (visited st)" path] by simp
      moreover have "\<forall>q \<in> set (parents st1). (q, path) \<in> ?E\<^sup>*"
        using par by (cases parent) (auto simp: st1_def intro: rtrancl.rtrancl_into_rtrancl)
      ultimately have c: "outcome_ok ?E items {y \<in> set (gc path). y \<noteq> path \<and> y \<in> set items} st1
          (dfsChildren (dfsVisit n items gc) items path (gc path) st1)"
        using Suc.IH inv1 by (intro dfsChildren_ok) auto
      have img: "{y \<in> set (gc path). y \<noteq> path \<and> y \<in> set items} = ?E `` {path}" by (auto simp: edges_def)
      show ?thesis
      proof (cases "\<exists>st2. dfsChildren (dfsVisit n items gc) items path (gc path) st1 = Some (Inr st2)")
        case False
        then show ?thesis using c 3
          by (cases "(?E, items, {y \<in> set (gc path). y \<noteq> path \<and> y \<in> set items}, st1,
              dfsChildren (dfsVisit n items gc) items path (gc path) st1)" rule: outcome_ok.cases)
             (auto simp: st1_def)
      next
        case True
        then obtain st2 where st2: "dfsChildren (dfsVisit n items gc) items path (gc path) st1 = Some (Inr st2)"
          by blast
        let ?st3 = "st2\<lparr>sorted := sorted st2 @ [path], parents := removeAll path (parents st2)\<rparr>"
        from st2 c have d: "dfs_done ?E items (?E `` {path}) st1 st2" by (simp add: img)
        then have "dfs_done ?E items {path} st ?st3"
          using 3 inv by (auto simp: dfs_done_def dfs_inv_def st1_def)
        then show ?thesis using st2 3 by (simp add: st1_def [symmetric] Let_def)
      qed
    qed
  qed
qed

lemma dfsRoots_ok:
  assumes "dfs_inv (edges items gc) items st" and "parents st = []"
    and "card (set items - set (visited st)) < n" and "set is \<subseteq> set items"
  shows "outcome_ok (edges items gc) items (set is) st (dfsRoots n items gc is st)"
  using assms
proof (induction "is" arbitrary: st)
  case Nil
  then show ?case by (simp add: dfs_done_def)
next
  case (Cons i "is")
  let ?E = "edges items gc"
  have v: "outcome_ok ?E items {i} st (dfsVisit n items gc i None st)"
    using dfsVisit_fuel [of items gc n] Cons.prems unfolding visit_ok_def by simp
  show ?case
  proof (cases "\<exists>st1. dfsVisit n items gc i None st = Some (Inr st1)")
    case False
    then show ?thesis using v
      by (cases "(?E, items, {i}, st, dfsVisit n items gc i None st)" rule: outcome_ok.cases) auto
  next
    case True
    then obtain st1 where st1: "dfsVisit n items gc i None st = Some (Inr st1)" by blast
    then have d: "dfs_done ?E items {i} st st1" using v by simp
    then have "card (set items - set (visited st1)) < n"
      using Cons.prems(3) card_unvisited_mono [of st st1 items] by (auto simp: dfs_done_def)
    then have "outcome_ok ?E items (set is) st1 (dfsRoots n items gc is st1)"
      using d Cons.prems by (intro Cons.IH) (auto simp: dfs_done_def)
    from outcome_chain [OF d this] show ?thesis using st1 by simp
  qed
qed

lemma topoSort_outcome:
  "outcome_ok (edges items gc) items (set items) \<lparr>sorted = [], visited = [], parents = []\<rparr>
     (dfsRoots (Suc (length items)) items gc items \<lparr>sorted = [], visited = [], parents = []\<rparr>)"
proof (rule dfsRoots_ok)
  show "card (set items - set (visited \<lparr>sorted = [], visited = [], parents = []\<rparr>)) < Suc (length items)"
    by (simp add: card_length le_imp_less_Suc)
qed (simp_all add: dfs_inv_def)

section \<open>Properties\<close>

text \<open>C20: the topological sort always returns. If it returns a list, the list is a permutation of the items
  in which every item comes before the other items it refers to; if it reports a cycle, the reported item
  refers to itself through the reported parent by references within the items.\<close>

theorem topoSort_correct:
  "case topoSort items getChildren of
     None \<Rightarrow> False
   | Some (Inr xs) \<Rightarrow> distinct xs \<and> set xs = set items \<and> references_after (edges items getChildren) xs
   | Some (Inl (Cycle x p)) \<Rightarrow>
       (\<exists>y. p = Some y \<and> (y, x) \<in> edges items getChildren) \<and> (x, x) \<in> (edges items getChildren)\<^sup>+"
  using topoSort_outcome [of items getChildren]
  by (cases rule: outcome_ok.elims(2)) (auto simp: topoSort_def dfs_done_def dfs_inv_def)

text \<open>on references without cycles the topological sort returns a list.\<close>

theorem topoSort_acyclic:
  assumes "acyclic (edges items getChildren)"
  shows "\<exists>xs. topoSort items getChildren = Some (Inr xs)"
  using topoSort_outcome [of items getChildren]
  using assms
  by (cases rule: outcome_ok.elims(2)) (auto simp: topoSort_def acyclic_def)

theorem topoSort_acyclic_witness:
  "acyclic (edges [1, 2, 3 :: nat] (\<lambda>n. if n = 1 then [2, 3] else [])) \<and>
   (\<exists>xs. topoSort [1, 2, 3 :: nat] (\<lambda>n. if n = 1 then [2, 3] else []) = Some (Inr xs))"
proof -
  have "edges [1, 2, 3 :: nat] (\<lambda>n. if n = 1 then [2, 3] else []) \<subseteq> {(x, y). x < y}"
    by (auto simp: edges_def split: if_splits)
  moreover have "acyclic {(x, y :: nat). x < y}" by (rule wf_acyclic [OF wf_less])
  ultimately show ?thesis using topoSort_acyclic acyclic_subset by blast
qed

end
