(* ===== verification/Lix_Names.thy ===== *)
theory Lix_Names
  imports Lix_Strings "HOL-Library.Product_Lexorder"
begin

text \<open>
  Derivation names and versions, \<^verbatim>\<open>libstore/names.{hh,cc}\<close>. The regular expressions that
  \<^verbatim>\<open>DrvName::matches\<close> uses and \<^verbatim>\<open>boost::lexical_cast\<close> behind \<^verbatim>\<open>string2Int<int>\<close> are parameters:
  \<open>regex_match\<close> and \<open>toInt\<close>. The order of versions is shown to be the order of a key for each
  component, so it is a total preorder.
\<close>

section \<open>Names\<close>

record DrvName =
  fullName :: string
  drv_name :: string
  version :: string
  hits :: nat

text \<open>The loop looks for the first dash that is followed by something other than a letter.\<close>

fun drvName_split :: "string \<Rightarrow> string \<Rightarrow> (string \<times> string) option" where
  "drvName_split pre (a # b # s) =
     (if a = CHR ''-'' \<and> \<not> isalpha b then Some (pre, b # s) else drvName_split (pre @ [a]) (b # s))"
| "drvName_split pre s = None"

definition newDrvName :: "string \<Rightarrow> DrvName" where
  "newDrvName s =
     (case drvName_split [] s of
        Some (n, v) \<Rightarrow> \<lparr>fullName = s, drv_name = n, version = v, hits = 0\<rparr>
      | None \<Rightarrow> \<lparr>fullName = s, drv_name = s, version = [], hits = 0\<rparr>)"

definition drvName_matches :: "(string \<Rightarrow> string \<Rightarrow> bool) \<Rightarrow> DrvName \<Rightarrow> DrvName \<Rightarrow> bool" where
  "drvName_matches regex_match d n =
     (if drv_name d \<noteq> ''*'' \<and> \<not> regex_match (drv_name d) (drv_name n) then False
      else if version d \<noteq> [] \<and> version d \<noteq> version n then False
      else True)"

definition drvNamesFromArgs :: "string list \<Rightarrow> DrvName list" where
  "drvNamesFromArgs opArgs = map newDrvName opArgs"

section \<open>Versions\<close>

definition isSeparator :: "char \<Rightarrow> bool" where
  "isSeparator c \<longleftrightarrow> c = CHR ''.'' \<or> c = CHR ''-''"

definition nextComponent :: "string \<Rightarrow> string \<times> string" where
  "nextComponent p =
     (let p1 = dropWhile isSeparator p
      in case p1 of
           [] \<Rightarrow> ([], [])
         | c # _ \<Rightarrow>
             let part = (if isdigit c then isdigit else (\<lambda>c. \<not> isdigit c \<and> \<not> isSeparator c))
             in (takeWhile part p1, dropWhile part p1))"

definition componentsLT :: "(string \<Rightarrow> int option) \<Rightarrow> string \<Rightarrow> string \<Rightarrow> bool" where
  "componentsLT toInt c1 c2 =
     (let n1 = toInt c1; n2 = toInt c2
      in if n1 \<noteq> None \<and> n2 \<noteq> None then the n1 < the n2
         else if c1 = [] \<and> n2 \<noteq> None then True
         else if c1 = ''pre'' \<and> c2 \<noteq> ''pre'' then True
         else if c2 = ''pre'' then False
         else if n2 \<noteq> None then True
         else if n1 \<noteq> None then False
         else c1 < c2)"

datatype ordering = Less | Equal | Greater

lemma nextComponent_rest:
  "length (snd (nextComponent p)) \<le> length p"
  "p \<noteq> [] \<Longrightarrow> length (snd (nextComponent p)) < length p"
proof -
  have le: "length (dropWhile isSeparator p) \<le> length p" by (rule length_dropWhile_le)
  have less: "length (snd (nextComponent p)) < length (dropWhile isSeparator p)" if "dropWhile isSeparator p \<noteq> []"
  proof -
    obtain c r where c: "dropWhile isSeparator p = c # r" using \<open>dropWhile isSeparator p \<noteq> []\<close> by (cases "dropWhile isSeparator p") auto
    have "\<not> isSeparator c" using hd_dropWhile [of isSeparator p] c by simp
    then show ?thesis
      using c length_dropWhile_le [of isdigit r] length_dropWhile_le [of "\<lambda>c. \<not> isdigit c \<and> \<not> isSeparator c" r]
      by (auto simp: nextComponent_def Let_def)
  qed
  have none: "nextComponent p = ([], [])" if "dropWhile isSeparator p = []"
    using that by (simp only: nextComponent_def Let_def list.case)
  show "length (snd (nextComponent p)) \<le> length p"
    using le less none by (cases "dropWhile isSeparator p = []") (simp_all only:, simp_all)
  show "p \<noteq> [] \<Longrightarrow> length (snd (nextComponent p)) < length p"
    using le less none by (cases "dropWhile isSeparator p = []") (simp_all only:, simp_all)
qed

function compareVersions :: "(string \<Rightarrow> int option) \<Rightarrow> string \<Rightarrow> string \<Rightarrow> ordering" where
  "compareVersions toInt p1 p2 =
     (if p1 = [] \<and> p2 = [] then Equal
      else
        let c1 = fst (nextComponent p1); r1 = snd (nextComponent p1);
            c2 = fst (nextComponent p2); r2 = snd (nextComponent p2)
        in if componentsLT toInt c1 c2 then Less
           else if componentsLT toInt c2 c1 then Greater
           else compareVersions toInt r1 r2)"
  by pat_completeness auto
termination
proof (relation "measure (\<lambda>(_, p1, p2). length p1 + length p2)", goal_cases)
  case (2 toInt p1 p2)
  then show ?case
    using nextComponent_rest [of p1] nextComponent_rest [of p2] by (cases "p1 = []") auto
qed simp

declare compareVersions.simps [simp del]

lemma nextComponent_Nil [simp]: "nextComponent [] = ([], [])"
  by (simp add: nextComponent_def)

text \<open>
  The rank of a component: \<^verbatim>\<open>pre\<close> comes first, then every other word, in the order of strings, then
  the numbers.
\<close>

definition componentKey :: "(string \<Rightarrow> int option) \<Rightarrow> string \<Rightarrow> nat \<times> string \<times> int" where
  "componentKey toInt c =
     (if c = ''pre'' then (0, [], 0)
      else case toInt c of None \<Rightarrow> (1, c, 0) | Some n \<Rightarrow> (2, [], n))"

lemma componentsLT_key:
  assumes "toInt ''pre'' = None"
  shows "componentsLT toInt c1 c2 \<longleftrightarrow> componentKey toInt c1 < componentKey toInt c2"
  using assms by (auto simp: componentsLT_def componentKey_def split: option.splits)

lemma compareVersions_unfold:
  assumes "toInt ''pre'' = None"
  shows "compareVersions toInt p1 p2 =
     (let k1 = componentKey toInt (fst (nextComponent p1));
          k2 = componentKey toInt (fst (nextComponent p2))
      in if k1 < k2 then Less else if k2 < k1 then Greater
         else compareVersions toInt (snd (nextComponent p1)) (snd (nextComponent p2)))"
proof (cases "p1 = [] \<and> p2 = []")
  case True
  then show ?thesis by (simp add: compareVersions.simps [of toInt "[]" "[]"])
next
  case False
  then show ?thesis
    by (subst compareVersions.simps) (auto simp: componentsLT_key [of toInt, OF assms] Let_def)
qed

lemma compareVersions_refl:
  assumes "toInt ''pre'' = None"
  shows "compareVersions toInt v v = Equal"
proof (induction v rule: length_induct)
  case (1 v)
  show ?case
  proof (cases "v = []")
    case True
    then show ?thesis by (simp add: compareVersions.simps)
  next
    case False
    then have "compareVersions toInt (snd (nextComponent v)) (snd (nextComponent v)) = Equal"
      using 1 nextComponent_rest(2) by blast
    then show ?thesis
      by (subst compareVersions_unfold [of toInt, OF assms]) simp
  qed
qed

fun flipOrdering :: "ordering \<Rightarrow> ordering" where
  "flipOrdering Less = Greater"
| "flipOrdering Equal = Equal"
| "flipOrdering Greater = Less"

lemma compareVersions_flip:
  assumes "toInt ''pre'' = None"
  shows "compareVersions toInt b a = flipOrdering (compareVersions toInt a b)"
proof (induction "length a + length b" arbitrary: a b rule: less_induct)
  case less
  show ?case
  proof (cases "a = [] \<and> b = []")
    case True
    then show ?thesis by (simp add: compareVersions_refl [of toInt, OF assms])
  next
    case False
    then have "length (snd (nextComponent a)) + length (snd (nextComponent b)) < length a + length b"
      using nextComponent_rest [of a] nextComponent_rest [of b] by (cases "a = []") auto
    note IH = less [OF this]
    show ?thesis
      by (subst (1 2) compareVersions_unfold [of toInt, OF assms]) (use IH in \<open>auto simp: Let_def\<close>)
  qed
qed

lemma compareVersions_trans:
  assumes "toInt ''pre'' = None"
    and "compareVersions toInt a b \<noteq> Greater" "compareVersions toInt b c \<noteq> Greater"
  shows "compareVersions toInt a c \<noteq> Greater"
  using assms(2,3)
proof (induction "length a + length b + length c" arbitrary: a b c rule: less_induct)
  case less
  show ?case
  proof (cases "a = [] \<and> b = [] \<and> c = []")
    case True
    then show ?thesis by (simp add: compareVersions_refl [of toInt, OF assms(1)])
  next
    case False
    let ?k = "\<lambda>v. componentKey toInt (fst (nextComponent v))" and ?r = "\<lambda>v. snd (nextComponent v)"
    have len: "length (?r a) + length (?r b) + length (?r c) < length a + length b + length c"
      using False nextComponent_rest [of a] nextComponent_rest [of b] nextComponent_rest [of c]
      by (cases "a = []"; cases "b = []") auto
    note IH = less.hyps [OF len]
    note unf = compareVersions_unfold [of toInt, OF assms(1)]
    have ab: "?k a < ?k b \<or> (?k a = ?k b \<and> compareVersions toInt (?r a) (?r b) \<noteq> Greater)"
      using less.prems(1) unf [of a b] by (auto simp: Let_def split: if_splits)
    have bc: "?k b < ?k c \<or> (?k b = ?k c \<and> compareVersions toInt (?r b) (?r c) \<noteq> Greater)"
      using less.prems(2) unf [of b c] by (auto simp: Let_def split: if_splits)
    have "?k a < ?k c \<or> (?k a = ?k c \<and> compareVersions toInt (?r a) (?r c) \<noteq> Greater)"
    proof (cases "?k a = ?k b \<and> ?k b = ?k c")
      case True
      then show ?thesis using ab bc IH by simp
    next
      case False
      have "?k a \<le> ?k b" "?k b \<le> ?k c" using ab bc by (auto simp only: less_imp_le order_refl)
      then have "?k a \<le> ?k c" by (rule order_trans)
      moreover have "?k a \<noteq> ?k c" using \<open>?k a \<le> ?k b\<close> \<open>?k b \<le> ?k c\<close> False by force
      ultimately show ?thesis by simp
    qed
    then show ?thesis using unf [of a c] by (elim disjE) (simp_all add: Let_def)
  qed
qed

section \<open>What the name and the version are\<close>

lemma drvName_split_Some:
  "drvName_split pre s = Some (n, v) \<Longrightarrow>
     \<exists>m. n = pre @ m \<and> s = m @ ''-'' @ v \<and> v \<noteq> [] \<and> \<not> isalpha (hd v)
       \<and> (\<forall>i. Suc i < length m + 1 \<longrightarrow> m ! i = CHR ''-'' \<longrightarrow> isalpha ((m @ ''-'') ! Suc i))"
proof (induction pre s rule: drvName_split.induct)
  case (1 pre a b s)
  show ?case
  proof (cases "a = CHR ''-'' \<and> \<not> isalpha b")
    case True
    then show ?thesis using "1.prems" by auto
  next
    case False
    obtain m where m: "n = (pre @ [a]) @ m" "b # s = m @ ''-'' @ v" "v \<noteq> []" "\<not> isalpha (hd v)"
      "\<forall>i. Suc i < length m + 1 \<longrightarrow> m ! i = CHR ''-'' \<longrightarrow> isalpha ((m @ ''-'') ! Suc i)"
      using "1.IH" [OF False] "1.prems" False by auto
    have first: "b = (m @ ''-'') ! 0" using m(2) by (cases m) auto
    have "(a # m) ! i = CHR ''-'' \<longrightarrow> isalpha (((a # m) @ ''-'') ! Suc i)" if "Suc i < length (a # m) + 1" for i
      using that m(5) first False by (cases i) auto
    then show ?thesis using m by (intro exI [of _ "a # m"]) auto
  qed
qed auto

lemma drvName_split_None:
  "drvName_split pre s = None \<Longrightarrow>
     \<forall>i. Suc i < length s \<longrightarrow> s ! i = CHR ''-'' \<longrightarrow> isalpha (s ! Suc i)"
proof (induction pre s rule: drvName_split.induct)
  case (1 pre a b s)
  then have *: "\<not> (a = CHR ''-'' \<and> \<not> isalpha b)" by (auto split: if_splits)
  with 1 have "\<forall>i. Suc i < length (b # s) \<longrightarrow> (b # s) ! i = CHR ''-'' \<longrightarrow> isalpha ((b # s) ! Suc i)"
    by (simp del: length_Cons)
  then show ?case using * by (auto simp: nth_Cons split: nat.splits)
qed auto

definition versionDash :: "string \<Rightarrow> nat \<Rightarrow> bool" where
  "versionDash s i \<longleftrightarrow> Suc i < length s \<and> s ! i = CHR ''-'' \<and> \<not> isalpha (s ! Suc i)"

text \<open>A derivation name is split at its first dash that is followed by something other than a
  letter: the name is what stands before, the version what follows, and together they are the
  whole string. Without such a dash the version is empty and the name is the whole string.\<close>

theorem drvName_first_dash:
  "fullName (newDrvName s) = s \<and>
   ((version (newDrvName s) = [] \<and> drv_name (newDrvName s) = s \<and> (\<nexists>i. versionDash s i)) \<or>
    (s = drv_name (newDrvName s) @ ''-'' @ version (newDrvName s)
     \<and> versionDash s (length (drv_name (newDrvName s)))
     \<and> (\<nexists>i. i < length (drv_name (newDrvName s)) \<and> versionDash s i)))"
proof (cases "drvName_split [] s")
  case None
  then show ?thesis using drvName_split_None [OF None] by (auto simp: newDrvName_def versionDash_def)
next
  case (Some nv)
  then obtain n v where nv: "drvName_split [] s = Some (n, v)" by (cases nv) auto
  then have s: "s = n @ ''-'' @ v" "v \<noteq> []" "\<not> isalpha (hd v)"
    and less: "\<forall>i. Suc i < length n + 1 \<longrightarrow> n ! i = CHR ''-'' \<longrightarrow> isalpha ((n @ ''-'') ! Suc i)"
    using drvName_split_Some [OF nv] by auto
  have "\<not> versionDash s i" if i: "i < length n" for i
  proof -
    have nth: "s ! i = n ! i" "s ! Suc i = (n @ ''-'') ! Suc i" using i s(1) by (auto simp: nth_append)
    show ?thesis using less i unfolding versionDash_def nth by auto
  qed
  moreover have "versionDash s (length n)"
    using s by (cases v) (auto simp: versionDash_def nth_append)
  ultimately show ?thesis using nv s(1) by (auto simp: newDrvName_def)
qed

section \<open>The order of versions\<close>

text \<open>C33: \<open>compareVersions\<close> terminates and is a total preorder: a version is equal to itself,
  swapping the arguments flips the answer, and being at most is transitive. The reader of integers
  is only assumed not to take the word \<^verbatim>\<open>pre\<close> for a number.\<close>

theorem compareVersions_order:
  assumes "toInt ''pre'' = None"
  shows "compareVersions toInt a a = Equal
    \<and> compareVersions toInt b a = flipOrdering (compareVersions toInt a b)
    \<and> (compareVersions toInt a b \<noteq> Greater \<longrightarrow> compareVersions toInt b c \<noteq> Greater
        \<longrightarrow> compareVersions toInt a c \<noteq> Greater)"
  using compareVersions_refl [of toInt a, OF assms] compareVersions_flip [of toInt b a, OF assms]
    compareVersions_trans [of toInt a b c, OF assms] by blast

definition decimalInt :: "string \<Rightarrow> int option" where
  "decimalInt s = (if s \<noteq> [] \<and> list_all isdigit s
     then Some (foldl (\<lambda>n c. 10 * n + (of_char c - 48)) 0 s) else None)"

theorem compareVersions_order_witness:
  "compareVersions decimalInt ''2.3pre1'' ''2.3'' = Less
   \<and> compareVersions decimalInt ''2.3'' ''2.3.1'' = Less
   \<and> compareVersions decimalInt ''2.3pre1'' ''2.3.1'' \<noteq> Greater"
proof -
  have pre: "decimalInt ''pre'' = None" by code_simp
  have c: "compareVersions decimalInt ''2.3pre1'' ''2.3'' = Less"
    "compareVersions decimalInt ''2.3'' ''2.3.1'' = Less" by code_simp+
  show ?thesis
    using compareVersions_order [of decimalInt "''2.3pre1''" "''2.3''" "''2.3.1''", OF pre] c by simp
qed

end
