(* ===== verification/Lix_Store_Path.thy ===== *)
theory Lix_Store_Path
  imports Lix_Hash Lix_Canon_Path
begin

text \<open>
  Store paths, \<^verbatim>\<open>libstore/path.{hh,cc}\<close>: the class \<^verbatim>\<open>StorePath\<close> and the operations of \<^verbatim>\<open>Store\<close> that parse and
  print store paths. The store directory, a setting of the store, is an argument.
\<close>

section \<open>The class\<close>

datatype StorePath = StorePath (baseName: string)

text \<open>Store paths are ordered by \<^verbatim>\<open>operator<\<close>, the order of their base names.\<close>

instantiation StorePath :: linorder
begin

definition less_StorePath :: "StorePath \<Rightarrow> StorePath \<Rightarrow> bool" where
  "less_StorePath p q \<longleftrightarrow> baseName p < baseName q"

definition less_eq_StorePath :: "StorePath \<Rightarrow> StorePath \<Rightarrow> bool" where
  "less_eq_StorePath p q \<longleftrightarrow> baseName p \<le> baseName q"

instance
  by standard (auto simp: less_StorePath_def less_eq_StorePath_def intro: StorePath.expand)

end

definition HASH_PART_LEN :: nat where
  "HASH_PART_LEN = 32"

definition MAX_PATH_LEN :: nat where
  "MAX_PATH_LEN = 211"

definition drvExtension :: string where
  "drvExtension = ''.drv''"

definition nameChar :: "char \<Rightarrow> bool" where
  "nameChar c \<longleftrightarrow>
     char_between (CHR ''0'') (CHR ''9'') c \<or> char_between (CHR ''a'') (CHR ''z'') c
     \<or> char_between (CHR ''A'') (CHR ''Z'') c
     \<or> c = CHR ''+'' \<or> c = CHR ''-'' \<or> c = CHR ''.'' \<or> c = CHR ''_'' \<or> c = CHR ''?'' \<or> c = CHR ''=''"

definition checkName :: "string \<Rightarrow> unit result" where
  "checkName name =
     (if name = [] then Inl (BadStorePath ''store path has an empty name'')
      else if length name > MAX_PATH_LEN then Inl (BadStorePath ''store path has a name longer than %d characters'')
      else if name ! 0 = CHR ''.'' \<and> length name = 1 then Inl (BadStorePath ''store path has invalid name'')
      else if name ! 0 = CHR ''.'' \<and> name ! 1 = CHR ''-''
      then Inl (BadStorePath ''first dash-separated component must not be .'')
      else if name ! 0 = CHR ''.'' \<and> name ! 1 = CHR ''.'' \<and> length name = 2
      then Inl (BadStorePath ''store path has invalid name'')
      else if name ! 0 = CHR ''.'' \<and> name ! 1 = CHR ''.'' \<and> name ! 2 = CHR ''-''
      then Inl (BadStorePath ''first dash-separated component must not be ..'')
      else if \<exists>c \<in> set name. \<not> nameChar c then Inl (BadStorePath ''store path contains illegal character'')
      else Inr ())"

definition sp_name :: "StorePath \<Rightarrow> string" where
  "sp_name p = drop (HASH_PART_LEN + 1) (baseName p)"

definition hashPart :: "StorePath \<Rightarrow> string" where
  "hashPart p = take HASH_PART_LEN (baseName p)"

definition hashChar :: "char \<Rightarrow> bool" where
  "hashChar c \<longleftrightarrow>
     \<not> (c = CHR ''e'' \<or> c = CHR ''o'' \<or> c = CHR ''u'' \<or> c = CHR ''t''
        \<or> \<not> (char_between (CHR ''0'') (CHR ''9'') c \<or> char_between (CHR ''a'') (CHR ''z'') c))"

definition newStorePath :: "string \<Rightarrow> StorePath result" where
  "newStorePath base =
     (if length base < HASH_PART_LEN + 1 then Inl (BadStorePath ''too short to be a valid store path'')
      else if \<exists>c \<in> set (hashPart (StorePath base)). \<not> hashChar c
      then Inl (BadStorePath ''store path contains illegal base-32 character'')
      else bindr (checkName (sp_name (StorePath base))) (\<lambda>_. Inr (StorePath base)))"

definition storePathOfHash :: "Hash \<Rightarrow> string \<Rightarrow> StorePath result" where
  "storePathOfHash h name =
     (let p = StorePath (base32Encode (hash_data h) @ ''-'' @ name)
      in if base32Size (length (hash_data h)) \<noteq> HASH_PART_LEN
         then Inl (AssertionFailed ''base32Size(hash) == HASH_PART_LEN'')
         else bindr (checkName (sp_name p)) (\<lambda>_. Inr p))"

definition isDerivation :: "StorePath \<Rightarrow> bool" where
  "isDerivation p \<longleftrightarrow> suffix drvExtension (sp_name p)"

section \<open>Parsing and printing in a store\<close>

definition parseStorePath :: "string \<Rightarrow> string \<Rightarrow> StorePath result" where
  "parseStorePath storeDir path =
     bindr (canonPath no_links path False) (\<lambda>p.
     if dirOf p \<noteq> storeDir then Inl (BadStorePath ''path is not in the Nix store'')
     else newStorePath (baseNameOf p))"

definition maybeParseStorePath :: "string \<Rightarrow> string \<Rightarrow> StorePath option result" where
  "maybeParseStorePath storeDir path =
     (if path = [] \<or> hd path \<noteq> slash then Inr None
      else bindr (canonPath no_links path False) (\<lambda>p.
        if dirOf p \<noteq> storeDir then Inr None
        else case parseStorePath storeDir path of
          Inl e \<Rightarrow> Inr None
        | Inr sp \<Rightarrow> Inr (Some sp)))"

definition isStorePath :: "string \<Rightarrow> string \<Rightarrow> bool result" where
  "isStorePath storeDir path =
     bindr (maybeParseStorePath storeDir path) (\<lambda>sp. Inr (sp \<noteq> None))"

definition printStorePath :: "string \<Rightarrow> StorePath \<Rightarrow> string" where
  "printStorePath storeDir p = (storeDir @ ''/'') @ baseName p"

definition parseStorePathSet :: "string \<Rightarrow> string oset \<Rightarrow> StorePath oset result" where
  "parseStorePathSet storeDir paths = bindr (mapr (parseStorePath storeDir) paths) (\<lambda>sps. Inr (oset_of sps))"

definition printStorePathSet :: "string \<Rightarrow> StorePath oset \<Rightarrow> string oset" where
  "printStorePathSet storeDir paths = oset_of (map (printStorePath storeDir) paths)"

text \<open>\<^verbatim>\<open>std::hash<StorePath>\<close>: the first eight bytes of the hash part.\<close>

definition storePathHashBytes :: "StorePath \<Rightarrow> byte list result" where
  "storePathHashBytes p =
     bindr (parseNonSRIUnprefixed (hashPart p) SHA1) (\<lambda>h. Inr (take 8 (hash_data h)))"

section \<open>Valid names\<close>

text \<open>
  The grammar that the code checks: between 1 and \<open>MAX_PATH_LEN\<close> of the allowed characters, and the
  part before the first dash is neither \<open>.\<close> nor \<open>..\<close>.
\<close>

definition name_ok :: "string \<Rightarrow> bool" where
  "name_ok name \<longleftrightarrow>
     name \<noteq> [] \<and> length name \<le> MAX_PATH_LEN \<and> (\<forall>c \<in> set name. nameChar c)
     \<and> takeWhile (\<lambda>c. c \<noteq> CHR ''-'') name \<notin> {''.'', ''..''}"

lemma hashChar_base32: "hashChar c \<longleftrightarrow> c \<in> set base32Chars"
proof -
  have "\<forall>c. hashChar c \<longleftrightarrow> c \<in> set base32Chars" by code_simp
  then show ?thesis by blast
qed

lemma dot_prefix_iff:
  assumes "name \<noteq> []"
  shows "takeWhile (\<lambda>c. c \<noteq> CHR ''-'') name \<in> {''.'', ''..''} \<longleftrightarrow>
    name ! 0 = CHR ''.'' \<and> (length name = 1 \<or> name ! 1 = CHR ''-''
      \<or> name ! 1 = CHR ''.'' \<and> (length name = 2 \<or> name ! 2 = CHR ''-''))"
proof (cases name)
  case (Cons a r)
  then show ?thesis
  proof (cases r)
    case (Cons b r')
    then show ?thesis using \<open>name = a # r\<close> by (cases r') auto
  qed auto
qed (use assms in simp)

lemma checkName_iff: "checkName name = Inr () \<longleftrightarrow> name_ok name"
proof (cases "name = []")
  case True
  then show ?thesis by (simp add: checkName_def name_ok_def)
next
  case False
  show ?thesis
    unfolding checkName_def name_ok_def dot_prefix_iff [OF False] using False by auto
qed

definition path_ok :: "string \<Rightarrow> bool" where
  "path_ok base \<longleftrightarrow>
     HASH_PART_LEN < length base \<and> (\<forall>c \<in> set (take HASH_PART_LEN base). c \<in> set base32Chars)
     \<and> name_ok (drop (HASH_PART_LEN + 1) base)"

lemma newStorePath_iff: "newStorePath base = Inr p \<longleftrightarrow> path_ok base \<and> p = StorePath base"
  using checkName_iff [of "drop (HASH_PART_LEN + 1) base"]
  by (auto simp: newStorePath_def path_ok_def hashPart_def sp_name_def hashChar_base32 bindr_eq_Inr_iff)

section \<open>Parsing what was printed\<close>

lemma strip_no_trailing: "b \<noteq> [] \<Longrightarrow> slash \<notin> set b \<Longrightarrow> strip_trailing_slashes (p @ slash # b) = p @ slash # b"
  by (cases b rule: rev_cases; cases p) auto

lemma baseNameOf_append: "b \<noteq> [] \<Longrightarrow> slash \<notin> set b \<Longrightarrow> baseNameOf (p @ slash # b) = b"
  by (simp add: baseNameOf_def strip_no_trailing last_slash_simps)

lemma dirOf_append: "slash \<notin> set b \<Longrightarrow> dirOf (p @ slash # b) = (if p = [] then ''/'' else p)"
  by (simp add: dirOf_def last_slash_simps)

lemma canonPath_child:
  assumes "list_all comp_ok cs" and "comp_ok b"
  shows "canonPath no_links ((render_path cs @ ''/'') @ b) False = Inr (render cs @ slash # b)"
proof -
  have ok: "list_all comp_ok (cs @ [b])" using assms by simp
  have "tokenizeString ((render_path cs @ ''/'') @ b) ''/'' = cs @ [b]"
  proof (cases "cs = []")
    case True
    have "tokenizeString (render [b]) ''/'' = [b]" using assms(2) by (intro tokenizeString_render) simp
    then show ?thesis using True by (simp add: render_path_def tokenizeString_skip)
  next
    case False
    then have "(render_path cs @ ''/'') @ b = render (cs @ [b])" by (simp add: render_path_def)
    then show ?thesis using tokenizeString_render [OF ok] by simp
  qed
  moreover have "(render_path cs @ ''/'') @ b \<noteq> []" "hd ((render_path cs @ ''/'') @ b) = slash"
    by (cases cs; simp add: render_path_def)+
  ultimately have "canonPath no_links ((render_path cs @ ''/'') @ b) False = Inr (render_path (norm_comps [] (cs @ [b])))"
    using canonPath_refines [of "(render_path cs @ ''/'') @ b" no_links] by simp
  also have "norm_comps [] (cs @ [b]) = cs @ [b]" using norm_comps_canonical [of "[]" "cs @ [b]"] ok by simp
  finally show ?thesis by (simp add: render_path_def)
qed

lemma path_ok_comp:
  assumes "path_ok base" and "base ! HASH_PART_LEN \<noteq> slash"
  shows "comp_ok base"
proof -
  have len: "HASH_PART_LEN < length base" using assms(1) by (simp add: path_ok_def)
  have "base = take HASH_PART_LEN base @ base ! HASH_PART_LEN # drop (HASH_PART_LEN + 1) base"
    using id_take_nth_drop [OF len] by simp
  moreover have "slash \<notin> set (take HASH_PART_LEN base)"
    using assms(1) by (auto simp: path_ok_def base32Chars_def)
  moreover have "\<not> nameChar slash" by code_simp
  then have "slash \<notin> set (drop (HASH_PART_LEN + 1) base)"
    using assms(1) by (auto simp: path_ok_def name_ok_def)
  ultimately have "slash \<notin> set base" using assms(2) by (metis Un_iff list.set_cases set_ConsD set_append)
  moreover have "2 < length base" using len by (simp add: HASH_PART_LEN_def)
  ultimately show ?thesis by (auto simp: comp_ok_def)
qed

lemma parseStorePath_print:
  assumes "canonical storeDir" and "path_ok (baseName p)" and "baseName p ! HASH_PART_LEN \<noteq> slash"
  shows "parseStorePath storeDir (printStorePath storeDir p) = Inr p"
proof -
  obtain cs where cs: "list_all comp_ok cs" "storeDir = render_path cs" using assms(1) by (rule canonicalE)
  have b: "comp_ok (baseName p)" using assms(2,3) by (rule path_ok_comp)
  then have b': "baseName p \<noteq> []" "slash \<notin> set (baseName p)" by (auto simp: comp_ok_def)
  have "(if render cs = [] then ''/'' else render cs) = storeDir" using cs by (simp add: render_path_def)
  then show ?thesis
    using canonPath_child [OF cs(1) b] cs(2) b' assms(2)
    by (simp add: parseStorePath_def printStorePath_def dirOf_append baseNameOf_append newStorePath_iff)
qed

lemma parseStorePath_valid:
  assumes "parseStorePath storeDir path = Inr p"
  shows "path_ok (baseName p)"
  using assms by (auto simp: parseStorePath_def bindr_eq_Inr_iff newStorePath_iff split: if_splits)

lemma after_last_slash_free: "slash \<notin> set (after_last_slash s)"
  by (auto simp: after_last_slash_def dest: set_takeWhileD)

lemma parseStorePath_separator:
  assumes "parseStorePath storeDir path = Inr p"
  shows "baseName p ! HASH_PART_LEN \<noteq> slash"
proof -
  obtain q where "baseName p = baseNameOf q" "path_ok (baseName p)"
    using assms by (auto simp: parseStorePath_def bindr_eq_Inr_iff newStorePath_iff split: if_splits)
  moreover from this have "HASH_PART_LEN < length (baseName p)" by (simp add: path_ok_def)
  moreover have "slash \<notin> set (baseNameOf q)"
    using after_last_slash_free [of "strip_trailing_slashes q"] by (simp add: baseNameOf_def)
  ultimately show ?thesis by (metis nth_mem)
qed

lemma base32Encode_chars: "set (base32Encode bs) \<subseteq> set base32Chars"
proof
  fix c
  assume "c \<in> set (base32Encode bs)"
  then obtain d where d: "d \<in> set (base32_digits bs)" "c = base32Chars ! d" by (auto simp: base32Encode_digits)
  have "d < length base32Chars" using base32_digits_less [OF d(1)] by (simp add: base32Chars_facts)
  then show "c \<in> set base32Chars" using d(2) by simp
qed

lemma storePathOfHash_ok:
  assumes "storePathOfHash h name = Inr p"
  shows "path_ok (baseName p) \<and> baseName p ! HASH_PART_LEN = CHR ''-'' \<and> sp_name p = name
    \<and> base32Decode (hashPart p) = Inr (hash_data h)"
proof -
  have p: "p = StorePath (base32Encode (hash_data h) @ ''-'' @ name)"
    and len: "length (base32Encode (hash_data h)) = HASH_PART_LEN" and nm: "name_ok (sp_name p)"
    using assms checkName_iff [of "sp_name p"]
    by (auto simp: storePathOfHash_def Let_def bindr_eq_Inr_iff base32Encode_length split: if_splits)
  have "sp_name p = name" "hashPart p = base32Encode (hash_data h)"
    using p len by (simp_all add: sp_name_def hashPart_def)
  then show ?thesis
    using p len nm base32Encode_chars [of "hash_data h"]
    by (auto simp: path_ok_def nth_append sp_name_def hashPart_def base32Decode_base32Encode)
qed

text \<open>A well-formed store path: valid, and the hash part is followed by a dash, as in every path that is made from a hash.\<close>

definition sp_ok :: "StorePath \<Rightarrow> bool" where
  "sp_ok p \<longleftrightarrow> path_ok (baseName p) \<and> baseName p ! HASH_PART_LEN = CHR ''-''"

lemma sp_ok_chars: "sp_ok p \<Longrightarrow> c \<in> set (baseName p) \<Longrightarrow> nameChar c"
proof -
  assume p: "sp_ok p" and c: "c \<in> set (baseName p)"
  have len: "HASH_PART_LEN < length (baseName p)" using p by (simp add: sp_ok_def path_ok_def)
  have "baseName p = take HASH_PART_LEN (baseName p) @ CHR ''-'' # drop (HASH_PART_LEN + 1) (baseName p)"
    using id_take_nth_drop [OF len] p by (simp add: sp_ok_def)
  then have "set (baseName p) = set (take HASH_PART_LEN (baseName p)) \<union>
      insert (CHR ''-'') (set (drop (HASH_PART_LEN + 1) (baseName p)))"
    by (metis list.simps(15) set_append)
  with c consider "c \<in> set (take HASH_PART_LEN (baseName p))" | "c = CHR ''-''"
    | "c \<in> set (drop (HASH_PART_LEN + 1) (baseName p))" by blast
  then show ?thesis
  proof cases
    case 1
    then have "c \<in> set base32Chars" using p unfolding sp_ok_def path_ok_def by blast
    moreover have "\<forall>c. c \<in> set base32Chars \<longrightarrow> nameChar c" by code_simp
    ultimately show ?thesis by blast
  next
    case 2
    then show ?thesis by (simp add: nameChar_def)
  next
    case 3
    then show ?thesis using p unfolding sp_ok_def path_ok_def name_ok_def by blast
  qed
qed

lemma parse_sp_ok:
  "canonical storeDir \<Longrightarrow> sp_ok p \<Longrightarrow> parseStorePath storeDir (printStorePath storeDir p) = Inr p"
  by (rule parseStorePath_print) (auto simp: sp_ok_def)

lemma maybeParse_sp_ok:
  assumes "canonical storeDir" and "sp_ok p"
  shows "maybeParseStorePath storeDir (printStorePath storeDir p) = Inr (Some p)"
proof -
  obtain cs where "storeDir = render_path cs" using assms(1) by (rule canonicalE)
  then have "printStorePath storeDir p \<noteq> []" "hd (printStorePath storeDir p) = slash"
    by (cases cs; simp add: render_path_def printStorePath_def)+
  then show ?thesis using parse_sp_ok [OF assms]
    by (auto simp: maybeParseStorePath_def parseStorePath_def bindr_eq_Inr_iff split: if_splits)
qed

lemma storePathOfHash_sp_ok: "storePathOfHash h name = Inr p \<Longrightarrow> sp_ok p"
  using storePathOfHash_ok by (simp add: sp_ok_def)

interpretation store_path: codec "printStorePath storeDir" "parseStorePath storeDir"
  "\<lambda>p. canonical storeDir \<and> path_ok (baseName p) \<and> baseName p ! HASH_PART_LEN \<noteq> slash" for storeDir
  by unfold_locales (simp add: parseStorePath_print)

section \<open>Properties\<close>

text \<open>the checks of the constructor accept exactly the base names of the grammar: 32 base-32 characters, one
  character, and a name of 1 to 211 allowed characters whose part before the first dash is not \<open>.\<close> or \<open>..\<close>.\<close>

theorem store_path_grammar:
  "newStorePath base = Inr p \<longleftrightarrow> path_ok base \<and> p = StorePath base"
  by (rule newStorePath_iff)

text \<open>printing a store path in a store with a canonical directory and parsing the result gives the store
  path back, provided the character behind the hash part is not a slash; and every path that parsing returns
  satisfies this.\<close>

theorem store_path_roundtrip:
  assumes "canonical storeDir"
  shows "(path_ok (baseName p) \<and> baseName p ! HASH_PART_LEN \<noteq> slash \<longrightarrow>
      parseStorePath storeDir (printStorePath storeDir p) = Inr p)
    \<and> (parseStorePath storeDir path = Inr q \<longrightarrow>
      parseStorePath storeDir (printStorePath storeDir q) = Inr q)"
  using assms parseStorePath_print parseStorePath_valid parseStorePath_separator by blast

definition example_path :: StorePath where
  "example_path = StorePath ''ffffffffffffffffffffffffffffffff-x''"

theorem store_path_roundtrip_witness:
  "canonical ''/nix/store'' \<and> path_ok (baseName example_path) \<and>
   parseStorePath ''/nix/store'' ''/nix/store/ffffffffffffffffffffffffffffffff-x'' = Inr example_path"
proof -
  have c: "canonical ''/nix/store''" by code_simp
  have p: "path_ok (baseName example_path)" "baseName example_path ! HASH_PART_LEN \<noteq> slash" by code_simp+
  have "printStorePath ''/nix/store'' example_path = ''/nix/store/ffffffffffffffffffffffffffffffff-x''" by code_simp
  then show ?thesis using store_path_roundtrip [OF c, of example_path] c p by simp
qed

text \<open>a store path made from a hash and a name is valid, has the name as its name, a dash as separator, and
  its hash part decodes to the hash.\<close>

theorem store_path_of_hash:
  assumes "storePathOfHash h name = Inr p"
  shows "path_ok (baseName p) \<and> baseName p ! HASH_PART_LEN = CHR ''-'' \<and> sp_name p = name
    \<and> base32Decode (hashPart p) = Inr (hash_data h)"
  using assms by (rule storePathOfHash_ok)

theorem store_path_of_hash_witness:
  "storePathOfHash (zeroHash 20 SHA1) ''x'' = Inr (StorePath ''00000000000000000000000000000000-x'')
   \<and> sp_name (StorePath ''00000000000000000000000000000000-x'') = ''x''"
proof -
  have p: "storePathOfHash (zeroHash 20 SHA1) ''x'' = Inr (StorePath ''00000000000000000000000000000000-x'')"
    by code_simp
  show ?thesis using store_path_of_hash [OF p] p by simp
qed

text \<open>The constructor does not look at the character behind the hash part.\<close>

lemma store_path_separator_unchecked:
  "newStorePath ''ffffffffffffffffffffffffffffffff/x'' = Inr (StorePath ''ffffffffffffffffffffffffffffffff/x'')"
  by code_simp

end
