(* ===== verification/Lix_Outputs_Spec.thy ===== *)
theory Lix_Outputs_Spec
  imports Lix_Store_Path
begin

text \<open>
  Output specifications and derived paths, \<^verbatim>\<open>libstore/outputs-spec.{hh,cc}\<close> and
  \<^verbatim>\<open>libstore/derived-path.{hh,cc}\<close>. The regular expression of an output specification,
  \<^verbatim>\<open>(\*)|(NAME(?:(,NAME))*)\<close> with the negative lookahead of \<^verbatim>\<open>path-regex.hh\<close> in \<^verbatim>\<open>NAME\<close>, is written out as a
  recogniser. Conversions to and from JSON are not modelled.
\<close>

section \<open>Output specifications\<close>

datatype OutputsSpec = All | Names "string oset"

text \<open>The constructor of \<^verbatim>\<open>Names\<close> asserts that the set is not empty.\<close>

definition newNames :: "string oset \<Rightarrow> OutputsSpec result" where
  "newNames s = (if s = [] then Inl (AssertionFailed ''!empty()'') else Inr (Names s))"

fun os_contains :: "OutputsSpec \<Rightarrow> string \<Rightarrow> bool" where
  "os_contains All outputName \<longleftrightarrow> True"
| "os_contains (Names outputNames) outputName \<longleftrightarrow> outputName \<in> set outputNames"

text \<open>The lookahead \<^verbatim>\<open>(?!\.\.?(-|$))\<close> at the start of a name looks at the rest of the whole input.\<close>

definition deniedName :: "string \<Rightarrow> bool" where
  "deniedName s \<longleftrightarrow> s = ''.'' \<or> s = ''..'' \<or> prefix ''.-'' s \<or> prefix ''..-'' s"

lemma dropWhile_Cons_less: "dropWhile P s = c # r \<Longrightarrow> length r < length s"
  using length_dropWhile_le [of P s] by simp

function namesRegex :: "string \<Rightarrow> bool" where
  "namesRegex s =
     (\<not> deniedName s \<and> takeWhile nameChar s \<noteq> [] \<and>
      (case dropWhile nameChar s of
         [] \<Rightarrow> True
       | c # r \<Rightarrow> c = CHR '','' \<and> namesRegex r))"
  by pat_completeness auto
termination
  by (relation "measure length") (auto dest: dropWhile_Cons_less)

declare namesRegex.simps [simp del]

definition os_parseOpt :: "string \<Rightarrow> OutputsSpec option result" where
  "os_parseOpt s =
     (if s = ''*'' then Inr (Some All)
      else if namesRegex s then bindr (newNames (tokenizeStringSet s '','')) (\<lambda>n. Inr (Some n))
      else Inr None)"

definition os_parse :: "string \<Rightarrow> OutputsSpec result" where
  "os_parse s = bindr (os_parseOpt s) (\<lambda>spec. case spec of
       None \<Rightarrow> Inl (Error ''invalid outputs specifier'')
     | Some spec \<Rightarrow> Inr spec)"

fun os_to_string :: "OutputsSpec \<Rightarrow> string" where
  "os_to_string All = ''*''"
| "os_to_string (Names outputNames) = concatStringsSep '','' outputNames"

fun os_union :: "OutputsSpec \<Rightarrow> OutputsSpec \<Rightarrow> OutputsSpec" where
  "os_union All that = All"
| "os_union (Names theseNames) All = All"
| "os_union (Names theseNames) (Names thoseNames) = Names (fold oset_insert thoseNames theseNames)"

fun os_isSubsetOf :: "OutputsSpec \<Rightarrow> OutputsSpec \<Rightarrow> bool" where
  "os_isSubsetOf this All \<longleftrightarrow> True"
| "os_isSubsetOf All (Names thoseNames) \<longleftrightarrow> False"
| "os_isSubsetOf (Names theseNames) (Names thoseNames) \<longleftrightarrow> (\<forall>o1 \<in> set theseNames. o1 \<in> set thoseNames)"

section \<open>Extended output specifications\<close>

datatype ExtendedOutputsSpec = Default | Explicit OutputsSpec

text \<open>\<^verbatim>\<open>s.rfind(c)\<close>: the parts of the string before and behind the last \<open>c\<close>.\<close>

definition rsplit :: "char \<Rightarrow> string \<Rightarrow> (string \<times> string) option" where
  "rsplit c s =
     (if c \<notin> set s then None
      else Some (rev (tl (dropWhile (\<lambda>x. x \<noteq> c) (rev s))), rev (takeWhile (\<lambda>x. x \<noteq> c) (rev s))))"

definition eos_parseOpt :: "string \<Rightarrow> (string \<times> ExtendedOutputsSpec) option result" where
  "eos_parseOpt s =
     (case rsplit (CHR ''^'') s of
        None \<Rightarrow> Inr (Some (s, Default))
      | Some (pre, out) \<Rightarrow> bindr (os_parseOpt out) (\<lambda>specOpt. Inr (case specOpt of
            None \<Rightarrow> None
          | Some spec \<Rightarrow> Some (pre, Explicit spec))))"

definition eos_parse :: "string \<Rightarrow> (string \<times> ExtendedOutputsSpec) result" where
  "eos_parse s = bindr (eos_parseOpt s) (\<lambda>spec. case spec of
       None \<Rightarrow> Inl (Error ''invalid extended outputs specifier'')
     | Some spec \<Rightarrow> Inr spec)"

fun eos_to_string :: "ExtendedOutputsSpec \<Rightarrow> string" where
  "eos_to_string Default = []"
| "eos_to_string (Explicit outputSpec) = ''^'' @ os_to_string outputSpec"

section \<open>Derived paths\<close>

datatype SingleDerivedPath = SOpaque StorePath | SBuilt StorePath string

datatype DerivedPath = Opaque StorePath | Built StorePath OutputsSpec

fun dp_to_string :: "string \<Rightarrow> DerivedPath \<Rightarrow> string" where
  "dp_to_string storeDir (Opaque path) = printStorePath storeDir path"
| "dp_to_string storeDir (Built drvPath outputs) = printStorePath storeDir drvPath @ ''^'' @ os_to_string outputs"

fun dp_to_string_legacy :: "string \<Rightarrow> DerivedPath \<Rightarrow> string" where
  "dp_to_string_legacy storeDir (Built drvPath outputs) = printStorePath storeDir drvPath @ ''!'' @ os_to_string outputs"
| "dp_to_string_legacy storeDir (Opaque path) = printStorePath storeDir path"

definition parseDerivedPath :: "string \<Rightarrow> string \<Rightarrow> char \<Rightarrow> DerivedPath result" where
  "parseDerivedPath storeDir s separator =
     (case rsplit separator s of
        None \<Rightarrow> bindr (parseStorePath storeDir s) (\<lambda>p. Inr (Opaque p))
      | Some (pre, out) \<Rightarrow>
          bindr (parseStorePath storeDir pre) (\<lambda>drv.
          bindr (os_parse out) (\<lambda>outputs.
          if \<not> isDerivation drv then Inl (InvalidPath ''cannot use output selection on non-derivation store path'')
          else Inr (Built drv outputs))))"

definition parseLegacy :: "string \<Rightarrow> string \<Rightarrow> DerivedPath result" where
  "parseLegacy storeDir s = parseDerivedPath storeDir s (CHR ''!'')"

fun fromSingle :: "SingleDerivedPath \<Rightarrow> DerivedPath" where
  "fromSingle (SOpaque o1) = Opaque o1"
| "fromSingle (SBuilt drvPath output) = Built drvPath (Names [output])"

fun getBaseStorePath :: "DerivedPath \<Rightarrow> StorePath" where
  "getBaseStorePath (Built drvPath outputs) = drvPath"
| "getBaseStorePath (Opaque path) = path"

section \<open>Reading back\<close>

definition outputName_ok :: "string \<Rightarrow> bool" where
  "outputName_ok n \<longleftrightarrow> n \<noteq> [] \<and> (\<forall>c \<in> set n. nameChar c) \<and> \<not> deniedName n"

fun os_ok :: "OutputsSpec \<Rightarrow> bool" where
  "os_ok All \<longleftrightarrow> True"
| "os_ok (Names ns) \<longleftrightarrow> ns \<noteq> [] \<and> oset_ok ns \<and> (\<forall>n \<in> set ns. outputName_ok n)"

lemma separators_not_nameChar [simp]:
  "\<not> nameChar (CHR '','')" "\<not> nameChar (CHR ''!'')" "\<not> nameChar (CHR ''^'')" "\<not> nameChar (CHR ''*'')"
  by code_simp+

lemma deniedName_append:
  assumes "outputName_ok n"
  shows "\<not> deniedName (n @ CHR '','' # r)"
proof -
  obtain a n' where n: "n = a # n'" using assms by (cases n) (auto simp: outputName_ok_def)
  show ?thesis
  proof (cases n')
    case Nil
    then show ?thesis using n by (auto simp: deniedName_def)
  next
    case (Cons b n'')
    then show ?thesis using n assms by (cases n'') (auto simp: outputName_ok_def deniedName_def)
  qed
qed

lemma namesRegex_name: "outputName_ok n \<Longrightarrow> namesRegex n"
proof -
  assume n: "outputName_ok n"
  then have "dropWhile nameChar n = []" "takeWhile nameChar n = n" by (auto simp: outputName_ok_def)
  then show ?thesis using n by (subst namesRegex.simps) (simp only: outputName_ok_def list.case simp_thms)
qed

lemma namesRegex_Cons: "outputName_ok n \<Longrightarrow> namesRegex r \<Longrightarrow> namesRegex (n @ CHR '','' # r)"
  by (subst namesRegex.simps)
    (use deniedName_append [of n r] in \<open>auto simp: outputName_ok_def takeWhile_append dropWhile_append\<close>)

lemma namesRegex_join:
  "ns \<noteq> [] \<Longrightarrow> \<forall>n \<in> set ns. outputName_ok n \<Longrightarrow> namesRegex (join_with '','' ns)"
proof (induction ns)
  case (Cons n ns)
  then show ?case
  proof (cases ns)
    case Nil
    then show ?thesis using Cons.prems by (simp add: namesRegex_name)
  next
    case (Cons m ms)
    then have "join_with '','' (n # ns) = n @ CHR '','' # join_with '','' ns" by simp
    then show ?thesis using Cons Cons.IH Cons.prems by (simp add: namesRegex_Cons)
  qed
qed simp

lemma os_parse_to_string:
  assumes "os_ok spec"
  shows "os_parse (os_to_string spec) = Inr spec"
proof (cases spec)
  case All
  then show ?thesis by (simp add: os_parse_def os_parseOpt_def)
next
  case (Names ns)
  have ns: "ns \<noteq> []" "oset_ok ns" "\<forall>n \<in> set ns. outputName_ok n" using assms Names by auto
  then have ne: "\<forall>n \<in> set ns. n \<noteq> [] \<and> CHR '','' \<notin> set n"
    using separators_not_nameChar(1) by (metis outputName_ok_def)
  let ?s = "concatStringsSep '','' ns"
  have join: "?s = join_with '','' ns" using ne by (intro concatStringsSep_nonempty) auto
  have regex: "namesRegex ?s" using ns by (simp add: join namesRegex_join)
  have "?s \<noteq> ''*''" using regex by (auto simp: namesRegex.simps [of "''*''"])
  moreover have "tokenizeStringSet ?s '','' = ns"
    using ne ns(2) by (simp add: tokenizeStringSet_def tokenizeString_join oset_of_sorted)
  ultimately show ?thesis
    using regex ns(1) Names by (simp add: os_parse_def os_parseOpt_def newNames_def)
qed

lemma namesRegex_chars: "namesRegex s \<Longrightarrow> c \<in> set s \<Longrightarrow> nameChar c \<or> c = CHR '',''"
proof (induction s rule: namesRegex.induct)
  case (1 s)
  have split: "s = takeWhile nameChar s @ dropWhile nameChar s" by simp
  consider "c \<in> set (takeWhile nameChar s)" | "c \<in> set (dropWhile nameChar s)"
    using "1.prems"(2) split by (metis Un_iff set_append)
  then show ?case
  proof cases
    case 2
    then obtain d r where r: "dropWhile nameChar s = d # r" by (cases "dropWhile nameChar s") auto
    then have d: "d = CHR '',''" "namesRegex r"
      using "1.prems"(1) namesRegex.simps [of s] by auto
    show ?thesis using "1.IH" [OF r d(2)] 2 d(1) r "1.prems"(1) namesRegex.simps [of s] by auto
  qed (auto dest: set_takeWhileD)
qed

lemma namesRegex_token:
  assumes "namesRegex s"
  shows "tokenizeString s '','' \<noteq> []"
proof -
  have "takeWhile nameChar s \<noteq> []" using assms namesRegex.simps [of s] by blast
  then obtain c r where s: "s = c # r" "nameChar c" by (cases s) (auto split: if_splits)
  then have "c \<in> set (filter (\<lambda>c. c \<notin> set '','') s)" by auto
  moreover have "concat (tokenizeString s '','') = filter (\<lambda>c. c \<notin> set '','') s"
    using tokenizeString_tokens [of s "'',''"] by blast
  ultimately show ?thesis by (metis concat.simps(1) empty_iff list.set(1))
qed

lemma os_parseOpt_sound:
  "\<exists>spec. os_parseOpt s = Inr spec \<and>
     (\<forall>ns. spec = Some (Names ns) \<longrightarrow> ns \<noteq> [] \<and> oset_ok ns \<and> (\<forall>n \<in> set ns. n \<noteq> [] \<and> (\<forall>c \<in> set n. nameChar c)))"
proof (cases "s \<noteq> ''*'' \<and> namesRegex s")
  case True
  let ?ns = "tokenizeStringSet s '',''"
  have sub: "\<forall>n \<in> set ?ns. n \<noteq> [] \<and> CHR '','' \<notin> set n"
    using tokenizeString_tokens [of s "'',''"] by (auto simp: tokenizeStringSet_def)
  have "set n \<subseteq> set s" if "n \<in> set ?ns" for n
  proof -
    have "set n \<subseteq> set (concat (tokenizeString s '',''))" using that by (auto simp: tokenizeStringSet_def)
    then show ?thesis using tokenizeString_tokens [of s "'',''"] by auto
  qed
  then have "\<forall>n \<in> set ?ns. \<forall>c \<in> set n. nameChar c"
    using sub namesRegex_chars True by blast
  moreover have "?ns \<noteq> []"
    using namesRegex_token [of s] True by (metis set_empty set_oset_of tokenizeStringSet_def)
  moreover have "oset_ok ?ns" by (simp add: tokenizeStringSet_def)
  ultimately show ?thesis using True sub by (auto simp: os_parseOpt_def newNames_def)
qed (auto simp: os_parseOpt_def)

lemma rsplit_append: "c \<notin> set b \<Longrightarrow> rsplit c (a @ c # b) = Some (a, b)"
  by (simp add: rsplit_def takeWhile_append dropWhile_append)

lemma os_to_string_chars:
  assumes "os_ok spec"
  shows "CHR ''!'' \<notin> set (os_to_string spec) \<and> CHR ''^'' \<notin> set (os_to_string spec)"
proof (cases spec)
  case (Names ns)
  have ne: "\<forall>n \<in> set ns. n \<noteq> []" and ch: "\<forall>n \<in> set ns. \<forall>c \<in> set n. nameChar c"
    using assms Names by (auto simp: outputName_ok_def)
  have "set (os_to_string spec) \<subseteq> insert (CHR '','') (\<Union>n \<in> set ns. set n)"
    using ne Names by (cases ns) (auto simp: concatStringsSep_nonempty)
  moreover have "CHR ''!'' \<notin> (\<Union>n \<in> set ns. set n)" "CHR ''^'' \<notin> (\<Union>n \<in> set ns. set n)"
    using ch separators_not_nameChar by blast+
  ultimately show ?thesis by blast
qed simp

lemma eos_parse_to_string:
  assumes "os_ok spec"
  shows "eos_parse (pre @ eos_to_string (Explicit spec)) = Inr (pre, Explicit spec)"
proof -
  have "rsplit (CHR ''^'') (pre @ CHR ''^'' # os_to_string spec) = Some (pre, os_to_string spec)"
    using os_to_string_chars [OF assms] by (intro rsplit_append) blast
  moreover have "os_parseOpt (os_to_string spec) = Inr (Some spec)"
    using os_parse_to_string [OF assms] os_parseOpt_sound [of "os_to_string spec"]
    by (auto simp: os_parse_def split: option.splits)
  ultimately show ?thesis by (simp add: eos_parse_def eos_parseOpt_def)
qed

text \<open>
  The derived paths that can be read back: valid store paths whose hash part is followed by a dash; outputs are
  selected from derivations only.
\<close>

fun dp_ok :: "DerivedPath \<Rightarrow> bool" where
  "dp_ok (Opaque p) \<longleftrightarrow> sp_ok p"
| "dp_ok (Built p spec) \<longleftrightarrow> sp_ok p \<and> isDerivation p \<and> os_ok spec"

lemma sp_ok_no_bang: "sp_ok p \<Longrightarrow> CHR ''!'' \<notin> set (baseName p)"
  using sp_ok_chars separators_not_nameChar(2) by blast

section \<open>Properties\<close>

text \<open>Printing an output specification and parsing it gives it back, alone and behind any prefix and a caret; and
  whatever string is parsed, the assertion in the constructor of \<^verbatim>\<open>Names\<close> does not fail.\<close>

theorem outputs_spec_roundtrip:
  assumes "os_ok spec"
  shows "os_parse (os_to_string spec) = Inr spec
    \<and> eos_parse (pre @ eos_to_string (Explicit spec)) = Inr (pre, Explicit spec)
    \<and> os_parseOpt s \<noteq> Inl e"
  using os_parse_to_string [OF assms] eos_parse_to_string [OF assms] os_parseOpt_sound [of s] by auto

theorem outputs_spec_roundtrip_witness:
  "os_ok (Names [''dev'', ''out'']) \<and> eos_parse ''/x^dev,out'' = Inr (''/x'', Explicit (Names [''dev'', ''out'']))"
proof -
  have ok: "os_ok (Names [''dev'', ''out''])" by code_simp
  show ?thesis
    using outputs_spec_roundtrip [OF ok, of "''/x''"] ok by (simp add: concatStringsSep_def)
qed

text \<open>Output specifications are a lattice of sets of names: membership in a union is membership in one of the two,
  and one specification is a subset of another exactly if everything it contains is in the other.\<close>

theorem outputs_spec_sets:
  "(os_contains (os_union a b) n \<longleftrightarrow> os_contains a n \<or> os_contains b n)
   \<and> (os_isSubsetOf a b \<longleftrightarrow> {n. os_contains a n} \<subseteq> {n. os_contains b n})"
proof -
  have inf: "\<exists>n. n \<notin> set ns" for ns :: "string list"
    using ex_new_if_finite [of "set ns"] infinite_UNIV_listI [where 'a = char] by blast
  show ?thesis
  proof (cases b)
    case All
    then show ?thesis by (cases a) auto
  next
    case (Names ns)
    then show ?thesis using inf [of ns] by (cases a) (auto simp: set_fold_oset_insert subset_iff)
  qed
qed

text \<open>A derived path printed in the legacy syntax is parsed back, in a store whose canonical directory has no
  exclamation mark; selecting outputs of a path that is not a derivation is an error.\<close>

theorem derived_path_roundtrip:
  assumes "canonical storeDir" and "CHR ''!'' \<notin> set storeDir"
  shows "(dp_ok dp \<longrightarrow> parseLegacy storeDir (dp_to_string_legacy storeDir dp) = Inr dp)
    \<and> (sp_ok p \<and> \<not> isDerivation p \<and> os_ok spec \<longrightarrow>
        parseLegacy storeDir (dp_to_string_legacy storeDir (Built p spec))
          = Inl (InvalidPath ''cannot use output selection on non-derivation store path''))"
proof -
  have opaque: "rsplit (CHR ''!'') (printStorePath storeDir q) = None" if "sp_ok q" for q
    using sp_ok_no_bang [OF that] assms(2) by (simp add: rsplit_def printStorePath_def)
  have built: "rsplit (CHR ''!'') (printStorePath storeDir q @ CHR ''!'' # os_to_string sp)
      = Some (printStorePath storeDir q, os_to_string sp)" if "os_ok sp" for q sp
    using os_to_string_chars [OF that] by (intro rsplit_append) blast
  have "dp_ok dp \<longrightarrow> parseLegacy storeDir (dp_to_string_legacy storeDir dp) = Inr dp"
    by (cases dp) (auto simp: parseLegacy_def parseDerivedPath_def opaque built parse_sp_ok assms(1) os_parse_to_string)
  then show ?thesis
    by (auto simp: parseLegacy_def parseDerivedPath_def built parse_sp_ok assms(1) os_parse_to_string)
qed

definition example_drv :: StorePath where
  "example_drv = StorePath ''ffffffffffffffffffffffffffffffff-x.drv''"

theorem derived_path_roundtrip_witness:
  "canonical ''/nix/store'' \<and> dp_ok (Built example_drv All)
   \<and> parseLegacy ''/nix/store'' ''/nix/store/ffffffffffffffffffffffffffffffff-x.drv!*'' = Inr (Built example_drv All)"
proof -
  have c: "canonical ''/nix/store''" and b: "CHR ''!'' \<notin> set ''/nix/store''" and d: "dp_ok (Built example_drv All)"
    by code_simp+
  have "dp_to_string_legacy ''/nix/store'' (Built example_drv All)
      = ''/nix/store/ffffffffffffffffffffffffffffffff-x.drv!*''" by code_simp
  then show ?thesis using derived_path_roundtrip [OF c b, of "Built example_drv All"] c d by simp
qed

text \<open>The lookahead sees the end of the whole input only, so a dot is a name if a comma follows it.\<close>

lemma outputs_spec_dot: "os_parse ''.,a'' = Inr (Names [''.'', ''a''])" "os_parse ''a,.'' = Inl (Error ''invalid outputs specifier'')"
  by code_simp+

end
