(* ===== verification/Lix_Content_Address.thy ===== *)
theory Lix_Content_Address
  imports Lix_Store_Path
begin

text \<open>
  Content addresses, \<^verbatim>\<open>libstore/content-address.{hh,cc}\<close>, and the computation of store paths from them in
  \<^verbatim>\<open>libstore/store-api.cc\<close>. The message digests of OpenSSL are the parameter \<open>digest\<close>; no property assumes more
  of it than that it is a function: where equal paths should mean equal contents, the alternative
  is that two strings, those that the comment on store paths documents for the two inputs, are different and have the
  same compressed digest.
\<close>

section \<open>Data\<close>

datatype FileIngestionMethod = Flat | Recursive

datatype ContentAddressMethod = TextIngestion | FileIngestion FileIngestionMethod

record ContentAddress =
  ca_method :: ContentAddressMethod
  ca_hash :: Hash

record StoreReferences =
  others :: "StorePath oset"
  self :: bool

record TextInfo =
  ti_hash :: Hash
  ti_references :: "StorePath oset"

record FixedOutputInfo =
  foi_method :: FileIngestionMethod
  foi_hash :: Hash
  foi_references :: StoreReferences

datatype ContentAddressWithReferences = Text TextInfo | Fixed FixedOutputInfo

section \<open>Rendering and parsing\<close>

fun makeFileIngestionPrefix :: "FileIngestionMethod \<Rightarrow> string" where
  "makeFileIngestionPrefix Flat = []"
| "makeFileIngestionPrefix Recursive = ''r:''"

fun renderPrefix :: "ContentAddressMethod \<Rightarrow> string" where
  "renderPrefix TextIngestion = ''text:''"
| "renderPrefix (FileIngestion m2) = makeFileIngestionPrefix m2"

text \<open>The second component is the string view that the prefix was removed from.\<close>

definition parsePrefix :: "string \<Rightarrow> ContentAddressMethod \<times> string" where
  "parsePrefix m =
     (case splitPrefix m ''r:'' of
        (True, m) \<Rightarrow> (FileIngestion Recursive, m)
      | (False, m) \<Rightarrow>
          (case splitPrefix m ''text:'' of
             (True, m) \<Rightarrow> (TextIngestion, m)
           | (False, m) \<Rightarrow> (FileIngestion Flat, m)))"

fun cam_render :: "ContentAddressMethod \<Rightarrow> HashType \<Rightarrow> string" where
  "cam_render TextIngestion ht = ''text:'' @ showHashType ht"
| "cam_render (FileIngestion fim) ht = ''fixed:'' @ makeFileIngestionPrefix fim @ showHashType ht"

definition ca_render :: "ContentAddress \<Rightarrow> string" where
  "ca_render ca =
     (case ca_method ca of
        TextIngestion \<Rightarrow> ''text:''
      | FileIngestion method \<Rightarrow> ''fixed:'' @ makeFileIngestionPrefix method)
     @ to_base32 (ca_hash ca)"

definition parseCaHashType :: "string \<Rightarrow> (HashType \<times> string) result" where
  "parseCaHashType rest =
     (case splitPrefixTo rest (CHR '':'') of
        (None, _) \<Rightarrow> Inl (UsageError ''content address hash must be in form <algo>:<hash>'')
      | (Some hashTypeRaw, rest) \<Rightarrow> bindr (parseHashType hashTypeRaw) (\<lambda>t. Inr (t, rest)))"

definition parseContentAddressMethodPrefix :: "string \<Rightarrow> (ContentAddressMethod \<times> HashType \<times> string) result" where
  "parseContentAddressMethodPrefix rest =
     (case splitPrefixTo rest (CHR '':'') of
        (None, _) \<Rightarrow> Inl (UsageError ''not a content address because it is not in the form <prefix>:<rest>'')
      | (Some pre, rest) \<Rightarrow>
          if pre = ''text'' then
            bindr (parseCaHashType rest) (\<lambda>(hashType, rest). Inr (TextIngestion, hashType, rest))
          else if pre = ''fixed'' then
            (let (isRec, rest) = splitPrefix rest ''r:'';
                 method = (if isRec then Recursive else Flat)
             in bindr (parseCaHashType rest) (\<lambda>(hashType, rest). Inr (FileIngestion method, hashType, rest)))
          else Inl (UsageError ''content address prefix is unrecognized''))"

definition ca_parse :: "string \<Rightarrow> ContentAddress result" where
  "ca_parse rawCa =
     bindr (parseContentAddressMethodPrefix rawCa) (\<lambda>(caMethod, hashType, rest).
     bindr (parseNonSRIUnprefixed rest hashType) (\<lambda>h. Inr \<lparr>ca_method = caMethod, ca_hash = h\<rparr>))"

definition cam_parse :: "string \<Rightarrow> (ContentAddressMethod \<times> HashType) result" where
  "cam_parse caMethod =
     bindr (parseContentAddressMethodPrefix (caMethod @ '':'')) (\<lambda>(m, t, _). Inr (m, t))"

definition ca_parseOpt :: "string \<Rightarrow> ContentAddress option result" where
  "ca_parseOpt rawCaOpt =
     (if rawCaOpt = [] then Inr None else bindr (ca_parse rawCaOpt) (\<lambda>ca. Inr (Some ca)))"

definition renderContentAddress :: "ContentAddress option \<Rightarrow> string" where
  "renderContentAddress ca = (case ca of Some ca \<Rightarrow> ca_render ca | None \<Rightarrow> [])"

definition printMethodAlgo :: "ContentAddress \<Rightarrow> string" where
  "printMethodAlgo ca = renderPrefix (ca_method ca) @ showHashType (hash_type (ca_hash ca))"

section \<open>References\<close>

definition refs_empty :: "StoreReferences \<Rightarrow> bool" where
  "refs_empty r \<longleftrightarrow> \<not> self r \<and> others r = []"

definition refs_size :: "StoreReferences \<Rightarrow> nat" where
  "refs_size r = (if self r then 1 else 0) + length (others r)"

definition noRefs :: StoreReferences where
  "noRefs = \<lparr>others = [], self = False\<rparr>"

definition withoutRefs :: "ContentAddress \<Rightarrow> ContentAddressWithReferences" where
  "withoutRefs ca =
     (case ca_method ca of
        TextIngestion \<Rightarrow> Text \<lparr>ti_hash = ca_hash ca, ti_references = []\<rparr>
      | FileIngestion method \<Rightarrow> Fixed \<lparr>foi_method = method, foi_hash = ca_hash ca, foi_references = noRefs\<rparr>)"

definition fromPartsOpt ::
    "ContentAddressMethod \<Rightarrow> Hash \<Rightarrow> StoreReferences \<Rightarrow> ContentAddressWithReferences option" where
  "fromPartsOpt method hash refs =
     (case method of
        TextIngestion \<Rightarrow>
          if self refs then None else Some (Text \<lparr>ti_hash = hash, ti_references = others refs\<rparr>)
      | FileIngestion m2 \<Rightarrow> Some (Fixed \<lparr>foi_method = m2, foi_hash = hash, foi_references = refs\<rparr>))"

fun getMethod :: "ContentAddressWithReferences \<Rightarrow> ContentAddressMethod" where
  "getMethod (Text th) = TextIngestion"
| "getMethod (Fixed fsh) = FileIngestion (foi_method fsh)"

fun getHash :: "ContentAddressWithReferences \<Rightarrow> Hash" where
  "getHash (Text th) = ti_hash th"
| "getHash (Fixed fsh) = foi_hash fsh"

section \<open>Store paths\<close>

type_synonym digest = "HashType \<Rightarrow> string \<Rightarrow> byte list"

definition makeStorePath :: "digest \<Rightarrow> string \<Rightarrow> string \<Rightarrow> string \<Rightarrow> string \<Rightarrow> StorePath result" where
  "makeStorePath digest storeDir type hash name =
     (let s = type @ '':'' @ hash @ '':'' @ storeDir @ '':'' @ name
      in bindr (compressHash (hashString digest SHA256 s) 20) (\<lambda>h. storePathOfHash h name))"

definition makeStorePathOfHash :: "digest \<Rightarrow> string \<Rightarrow> string \<Rightarrow> Hash \<Rightarrow> string \<Rightarrow> StorePath result" where
  "makeStorePathOfHash digest storeDir type hash name = makeStorePath digest storeDir type (to_base16 hash) name"

definition outputPathName :: "string \<Rightarrow> string \<Rightarrow> string" where
  "outputPathName drvName outputName =
     (if outputName \<noteq> ''out'' then (drvName @ ''-'') @ outputName else drvName)"

definition makeOutputPath :: "digest \<Rightarrow> string \<Rightarrow> string \<Rightarrow> Hash \<Rightarrow> string \<Rightarrow> StorePath result" where
  "makeOutputPath digest storeDir i hash name =
     makeStorePathOfHash digest storeDir (''output:'' @ i) hash (outputPathName name i)"

definition makeType :: "string \<Rightarrow> string \<Rightarrow> StoreReferences \<Rightarrow> string" where
  "makeType storeDir type references =
     fold (\<lambda>i t. (t @ '':'') @ printStorePath storeDir i) (others references) type
     @ (if self references then '':self'' else [])"

definition makeFixedOutputPath :: "digest \<Rightarrow> string \<Rightarrow> string \<Rightarrow> FixedOutputInfo \<Rightarrow> StorePath result" where
  "makeFixedOutputPath digest storeDir name info =
     (if hash_type (foi_hash info) = SHA256 \<and> foi_method info = Recursive then
        makeStorePathOfHash digest storeDir (makeType storeDir ''source'' (foi_references info)) (foi_hash info) name
      else if \<not> refs_empty (foi_references info) then
        Inl (Error ''fixed output derivation is not allowed to refer to other store paths'')
      else
        makeStorePathOfHash digest storeDir ''output:out''
          (hashString digest SHA256
            (''fixed:out:'' @ makeFileIngestionPrefix (foi_method info) @ to_base16 (foi_hash info) @ '':''))
          name)"

definition makeTextPath :: "digest \<Rightarrow> string \<Rightarrow> string \<Rightarrow> TextInfo \<Rightarrow> StorePath result" where
  "makeTextPath digest storeDir name info =
     (if hash_type (ti_hash info) \<noteq> SHA256 then Inl (AssertionFailed ''info.hash.type == HashType::SHA256'')
      else makeStorePathOfHash digest storeDir
             (makeType storeDir ''text'' \<lparr>others = ti_references info, self = False\<rparr>) (ti_hash info) name)"

definition makeFixedOutputPathFromCA ::
    "digest \<Rightarrow> string \<Rightarrow> string \<Rightarrow> ContentAddressWithReferences \<Rightarrow> StorePath result" where
  "makeFixedOutputPathFromCA digest storeDir name ca =
     (case ca of
        Text ti \<Rightarrow> makeTextPath digest storeDir name ti
      | Fixed foi \<Rightarrow> makeFixedOutputPath digest storeDir name foi)"

definition computeStorePathForText :: "digest \<Rightarrow> string \<Rightarrow> string \<Rightarrow> string \<Rightarrow> StorePath oset \<Rightarrow> StorePath result" where
  "computeStorePathForText digest storeDir name s references =
     makeTextPath digest storeDir name \<lparr>ti_hash = hashString digest SHA256 s, ti_references = references\<rparr>"

section \<open>Paths into the store\<close>

definition isInStore :: "string \<Rightarrow> string \<Rightarrow> bool" where
  "isInStore storeDir path = isInDir path storeDir"

definition toStorePath :: "string \<Rightarrow> string \<Rightarrow> (StorePath \<times> string) result" where
  "toStorePath storeDir path =
     (if \<not> isInStore storeDir path then Inl (Error ''path is not in the Nix store'')
      else let k = length storeDir + 1;
               base = takeWhile (\<lambda>c. c \<noteq> slash) (drop k path);
               rest = dropWhile (\<lambda>c. c \<noteq> slash) (drop k path)
           in if rest = [] then bindr (parseStorePath storeDir path) (\<lambda>p. Inr (p, []))
              else bindr (parseStorePath storeDir (take k path @ base)) (\<lambda>p. Inr (p, rest)))"

text \<open>
  The loop of \<^verbatim>\<open>followLinksToStore\<close> has no bound on the number of links, so it may run forever.
  \<open>lookup\<close> answers \<^verbatim>\<open>isLink\<close> and \<^verbatim>\<open>readLink\<close>, \<open>cwd\<close> is the current directory.
\<close>

partial_function (option) followLinks_loop ::
    "(string \<Rightarrow> string option result) \<Rightarrow> string \<Rightarrow> string \<Rightarrow> string \<Rightarrow> string result option" where
  [code]: "followLinks_loop lookup cwd storeDir path =
     (if isInStore storeDir path then Some (Inr path)
      else case lookup path of
             Inl e \<Rightarrow> Some (Inl e)
           | Inr None \<Rightarrow> Some (Inr path)
           | Inr (Some target) \<Rightarrow>
               (case absPath no_links cwd target (Some (dirOf path)) False of
                  Inl e \<Rightarrow> Some (Inl e)
                | Inr path' \<Rightarrow> followLinks_loop lookup cwd storeDir path'))"

definition followLinksToStore ::
    "(string \<Rightarrow> string option result) \<Rightarrow> string \<Rightarrow> string \<Rightarrow> string \<Rightarrow> string result option" where
  "followLinksToStore lookup cwd storeDir path =
     (case absPath no_links cwd path None False of
        Inl e \<Rightarrow> Some (Inl e)
      | Inr path \<Rightarrow>
          (case followLinks_loop lookup cwd storeDir path of
             None \<Rightarrow> None
           | Some r \<Rightarrow> Some (bindr r (\<lambda>path.
               if \<not> isInStore storeDir path then Inl (BadStorePath ''path is not in the Nix store'')
               else Inr path))))"

definition followLinksToStorePath ::
    "(string \<Rightarrow> string option result) \<Rightarrow> string \<Rightarrow> string \<Rightarrow> string \<Rightarrow> StorePath result option" where
  "followLinksToStorePath lookup cwd storeDir path =
     map_option (\<lambda>r. bindr r (\<lambda>path. bindr (toStorePath storeDir path) (\<lambda>(p, _). Inr p)))
       (followLinksToStore lookup cwd storeDir path)"

section \<open>Reading back\<close>

lemma parseCaHashType_show:
  "parseCaHashType (showHashType t @ CHR '':'' # r) = Inr (t, r)"
  by (simp add: parseCaHashType_def splitPrefixTo_append showHashType_chars)

lemma splitPrefixTo_text: "splitPrefixTo (''text:'' @ r) (CHR '':'') = (Some ''text'', r)"
  using splitPrefixTo_append [of "CHR '':''" "''text''" r] by simp

lemma splitPrefixTo_fixed: "splitPrefixTo (''fixed:'' @ r) (CHR '':'') = (Some ''fixed'', r)"
  using splitPrefixTo_append [of "CHR '':''" "''fixed''" r] by simp

lemma showHashType_not_r: "\<not> prefix ''r:'' (showHashType t @ r)" "\<not> prefix ''text:'' (showHashType t @ r)"
  by (cases t; simp)+

lemma parseContentAddressMethodPrefix_render:
  "parseContentAddressMethodPrefix (cam_render m t @ CHR '':'' # r) = Inr (m, t, r)"
proof (cases m)
  case TextIngestion
  then show ?thesis
    using splitPrefixTo_text [of "showHashType t @ CHR '':'' # r"]
    by (simp add: parseContentAddressMethodPrefix_def parseCaHashType_show)
next
  case (FileIngestion f)
  then show ?thesis
    using splitPrefixTo_fixed [of "makeFileIngestionPrefix f @ showHashType t @ CHR '':'' # r"]
    by (cases f) (simp_all add: parseContentAddressMethodPrefix_def parseCaHashType_show splitPrefix_def showHashType_not_r)
qed

lemma ca_render_cam:
  "ca_render ca = cam_render (ca_method ca) (hash_type (ca_hash ca)) @ CHR '':'' # base32Encode (hash_data (ca_hash ca))"
  by (cases "ca_method ca") (simp_all add: ca_render_def to_base32_def base32EncodeStr_def comp_def)

lemma ca_parse_render:
  assumes "hash_ok (ca_hash ca)"
  shows "ca_parse (ca_render ca) = Inr ca"
  using assms
  by (simp add: ca_parse_def ca_render_cam parseContentAddressMethodPrefix_render parseNonSRIUnprefixed_def
      hashOfRest_base32)

lemma cam_parse_render: "cam_parse (cam_render m t) = Inr (m, t)"
  using parseContentAddressMethodPrefix_render [of m t "[]"] by (simp add: cam_parse_def)

lemma parsePrefix_render: "parsePrefix (renderPrefix m @ showHashType t) = (m, showHashType t)"
proof (cases m)
  case (FileIngestion f)
  then show ?thesis
    using showHashType_not_r [of t "[]"] by (cases f) (simp_all add: parsePrefix_def splitPrefix_def)
qed (simp add: parsePrefix_def splitPrefix_def)

interpretation content_address: codec ca_render ca_parse "\<lambda>ca. hash_ok (ca_hash ca)"
  by unfold_locales (rule ca_parse_render)

section \<open>The strings that are hashed\<close>

text \<open>
  The strings \<^verbatim>\<open><s>\<close> and \<^verbatim>\<open><s2>\<close> that the comment above \<^verbatim>\<open>makeStorePath\<close> documents, written from the comment and
  not from the code: \<^verbatim>\<open><s>\<close> is the type with the references, the base-16 digest, the store directory and the name,
  separated by colons. \<open>collides\<close> says of two given strings that they are different and give the same hash part.
\<close>

definition collides :: "digest \<Rightarrow> string \<Rightarrow> string \<Rightarrow> bool" where
  "collides digest s t \<longleftrightarrow>
     s \<noteq> t \<and> compressHash (hashString digest SHA256 s) 20 = compressHash (hashString digest SHA256 t) 20"

definition hashed_string :: "string \<Rightarrow> string \<Rightarrow> string \<Rightarrow> string \<Rightarrow> string" where
  "hashed_string storeDir type h2 name = type @ '':sha256:'' @ h2 @ '':'' @ storeDir @ '':'' @ name"

definition with_references :: "string \<Rightarrow> string \<Rightarrow> StorePath list \<Rightarrow> bool \<Rightarrow> string" where
  "with_references storeDir kind rs selfRef =
     kind @ concat (map (Cons (CHR '':'')) (map (\<lambda>r. storeDir @ ''/'' @ baseName r) rs @ (if selfRef then [''self''] else [])))"

definition fixed_string :: "FixedOutputInfo \<Rightarrow> string" where
  "fixed_string foi =
     ''fixed:out:'' @ (if foi_method foi = Recursive then ''r:'' else []) @ showHashType (hash_type (foi_hash foi))
     @ '':'' @ base16Encode (hash_data (foi_hash foi)) @ '':''"

fun is_source_or_text :: "ContentAddressWithReferences \<Rightarrow> bool" where
  "is_source_or_text (Text ti) \<longleftrightarrow> True"
| "is_source_or_text (Fixed foi) \<longleftrightarrow> hash_type (foi_hash foi) = SHA256 \<and> foi_method foi = Recursive"

fun ca_string :: "digest \<Rightarrow> string \<Rightarrow> string \<Rightarrow> ContentAddressWithReferences \<Rightarrow> string" where
  "ca_string digest storeDir name (Text ti) =
     hashed_string storeDir (with_references storeDir ''text'' (ti_references ti) False)
       (base16Encode (hash_data (ti_hash ti))) name"
| "ca_string digest storeDir name (Fixed foi) =
     (if is_source_or_text (Fixed foi) then
        hashed_string storeDir
          (with_references storeDir ''source'' (others (foi_references foi)) (self (foi_references foi)))
          (base16Encode (hash_data (foi_hash foi))) name
      else hashed_string storeDir ''output:out'' (base16Encode (digest SHA256 (fixed_string foi))) name)"

definition output_string :: "string \<Rightarrow> string \<Rightarrow> Hash \<Rightarrow> string \<Rightarrow> string" where
  "output_string storeDir i h name = hashed_string storeDir (''output:'' @ i) (base16Encode (hash_data h)) name"

fun ca_refs :: "ContentAddressWithReferences \<Rightarrow> StorePath list" where
  "ca_refs (Text ti) = ti_references ti"
| "ca_refs (Fixed foi) = others (foi_references foi)"

section \<open>The code hashes these strings\<close>

definition path_of_string :: "digest \<Rightarrow> string \<Rightarrow> string \<Rightarrow> StorePath result" where
  "path_of_string digest s name =
     bindr (compressHash (hashString digest SHA256 s) 20) (\<lambda>h. storePathOfHash h name)"

lemma makeStorePathOfHash_string:
  assumes "hash_type h = SHA256"
  shows "makeStorePathOfHash digest storeDir type h name
    = path_of_string digest (hashed_string storeDir type (base16Encode (hash_data h)) name) name"
  using assms
  by (simp add: makeStorePathOfHash_def makeStorePath_def path_of_string_def hashed_string_def to_base16_def Let_def)

lemma makeType_references: "makeType storeDir kind refs = with_references storeDir kind (others refs) (self refs)"
proof -
  have "fold (\<lambda>i t. (t @ '':'') @ printStorePath storeDir i) rs t
      = t @ concat (map (Cons (CHR '':'')) (map (\<lambda>r. storeDir @ ''/'' @ baseName r) rs))" for rs t
    by (induction rs arbitrary: t) (simp_all add: printStorePath_def)
  then show ?thesis by (simp add: makeType_def with_references_def)
qed

lemma fixed_path_string:
  assumes "makeFixedOutputPathFromCA digest storeDir name ca = Inr p"
  shows "path_of_string digest (ca_string digest storeDir name ca) name = Inr p"
proof (cases ca)
  case (Text ti)
  then show ?thesis using assms
    by (simp add: makeFixedOutputPathFromCA_def makeTextPath_def makeType_references makeStorePathOfHash_string split: if_splits)
next
  case (Fixed foi)
  have "makeFileIngestionPrefix m = (if m = Recursive then ''r:'' else [])" for m by (cases m) simp_all
  then show ?thesis using assms Fixed
    by (auto simp: makeFixedOutputPathFromCA_def makeFixedOutputPath_def makeType_references makeStorePathOfHash_string
        fixed_string_def to_base16_def hashString_def split: if_splits)
qed

lemma output_path_string:
  assumes "makeOutputPath digest storeDir i h name = Inr p" and "hash_type h = SHA256"
  shows "path_of_string digest (output_string storeDir i h (outputPathName name i)) (outputPathName name i) = Inr p"
  using assms by (simp add: makeOutputPath_def makeStorePathOfHash_string output_string_def)

lemma compressHash_type: "compressHash h n = Inr h' \<Longrightarrow> hash_type h' = hash_type h"
  by (auto simp: compressHash_def split: if_splits)

lemma equal_paths:
  assumes "path_of_string digest s name = Inr p" and "path_of_string digest s' name' = Inr p"
  shows "name = name' \<and> (s = s' \<or> collides digest s s')"
proof -
  obtain h h' where h: "compressHash (hashString digest SHA256 s) 20 = Inr h" "storePathOfHash h name = Inr p"
    and h': "compressHash (hashString digest SHA256 s') 20 = Inr h'" "storePathOfHash h' name' = Inr p"
    using assms by (auto simp: path_of_string_def bindr_eq_Inr_iff)
  have eq: "name = name'" "hash_data h = hash_data h'"
    using storePathOfHash_ok [OF h(2)] storePathOfHash_ok [OF h'(2)] by auto
  have "hash_type h = hash_type h'"
    using compressHash_type [OF h(1)] compressHash_type [OF h'(1)] by (simp add: hashString_def)
  with eq(2) have "h = h'" by simp
  with h(1) h'(1) eq(1) show ?thesis unfolding collides_def by metis
qed

section \<open>The strings determine the inputs\<close>

lemma first_separator:
  assumes "xs @ c # x = ys @ c # y" and "c \<notin> set xs" and "c \<notin> set ys"
  shows "xs = ys \<and> x = y"
  using assms by (induction xs ys rule: list_induct2') auto

lemma last_separator:
  assumes "x @ c # xs = y @ c # ys" and "c \<notin> set xs" and "c \<notin> set ys"
  shows "x = y \<and> xs = ys"
proof -
  have "rev xs @ c # rev x = rev ys @ c # rev y" using arg_cong [OF assms(1), of rev] by simp
  then have "rev xs = rev ys \<and> rev x = rev y" using assms(2,3) by (intro first_separator) simp_all
  then show ?thesis by simp
qed

lemma separated_inj:
  assumes "concat (map (Cons c) xs) = concat (map (Cons c) ys)"
    and "\<And>x. x \<in> set xs \<union> set ys \<Longrightarrow> c \<notin> set x"
  shows "xs = ys"
  using assms
proof (induction xs ys rule: list_induct2')
  case (4 x xs y ys)
  have item: "takeWhile (\<lambda>d. d \<noteq> c) (z @ concat (map (Cons c) zs)) = z" if "c \<notin> set z" for z zs
    using that by (cases zs) (auto simp: takeWhile_append takeWhile_eq_all_conv)
  have "takeWhile (\<lambda>d. d \<noteq> c) (x @ concat (map (Cons c) xs)) = x" "takeWhile (\<lambda>d. d \<noteq> c) (y @ concat (map (Cons c) ys)) = y"
    using 4(3) by (auto intro!: item)
  moreover have "x @ concat (map (Cons c) xs) = y @ concat (map (Cons c) ys)" using 4(2) by simp
  ultimately have "x = y" by metis
  then show ?case using 4 by simp
qed simp_all

lemma base16Encode_inj: "base16Encode bs = base16Encode bs' \<Longrightarrow> bs = bs'"
  by (metis base16Decode_base16Encode sum.inject(2))

lemma showHashType_inj: "showHashType t = showHashType t' \<Longrightarrow> t = t'"
  by (cases t; cases t') simp_all

lemma base16Encode_no_colon: "CHR '':'' \<notin> set (base16Encode bs)"
proof -
  have "CHR '':'' \<notin> set base16Chars" by code_simp
  then show ?thesis using base16Encode_subset [of bs] by blast
qed

lemma hashed_string_inj:
  assumes "hashed_string storeDir type (base16Encode bs) name = hashed_string storeDir type' (base16Encode bs') name"
  shows "type = type' \<and> bs = bs'"
  using assms last_separator [of "type @ '':sha256''" "CHR '':''" "base16Encode bs" "type' @ '':sha256''" "base16Encode bs'"]
    base16Encode_no_colon base16Encode_inj
  by (auto simp: hashed_string_def)

lemma with_references_inj:
  assumes eq: "with_references storeDir kind rs b = with_references storeDir kind rs' b'"
    and dir: "CHR '':'' \<notin> set storeDir" and ok: "list_all sp_ok rs" "list_all sp_ok rs'"
  shows "rs = rs' \<and> b = b'"
proof -
  let ?seg = "\<lambda>rs b. map (\<lambda>r. storeDir @ ''/'' @ baseName r) rs @ (if b then [''self''] else [])"
  have nc: "CHR '':'' \<notin> set (baseName r)" if "sp_ok r" for r
  proof -
    have "\<not> nameChar (CHR '':'')" by code_simp
    then show ?thesis using sp_ok_chars [OF that] by blast
  qed
  have seg: "?seg rs b = ?seg rs' b'"
    using eq dir ok nc
    by (intro separated_inj [where c = "CHR '':''"]) (auto simp: with_references_def list_all_iff split: if_splits)
  have ns: "storeDir @ ''/'' @ baseName r \<noteq> ''self''" for r
  proof
    assume "storeDir @ ''/'' @ baseName r = ''self''"
    then have "CHR ''/'' \<in> set ''self''" by (metis in_set_conv_decomp append_Cons)
    then show False by simp
  qed
  have b: "b = b'"
  proof -
    have "(''self'' \<in> set (?seg rs b)) = b" for rs b using ns [THEN not_sym] by auto
    then show ?thesis using seg by metis
  qed
  then have "map (\<lambda>r. storeDir @ ''/'' @ baseName r) rs = map (\<lambda>r. storeDir @ ''/'' @ baseName r) rs'"
    using seg by (simp split: if_splits)
  then have "rs = rs'"
    by (rule map_injective) (auto intro!: injI StorePath.expand)
  with b show ?thesis by simp
qed

lemma fixed_string_inj:
  assumes "fixed_string foi = fixed_string foi'"
  shows "foi_method foi = foi_method foi' \<and> foi_hash foi = foi_hash foi'"
proof -
  have r: "(fixed_string f ! 10 = CHR ''r'') = (foi_method f = Recursive)" for f
    by (cases "foi_method f"; cases "hash_type (foi_hash f)") (simp_all add: fixed_string_def)
  have m: "foi_method foi = foi_method foi'"
    using assms r [of foi] r [of foi'] by (cases "foi_method foi"; cases "foi_method foi'") simp_all
  then have "showHashType (hash_type (foi_hash foi)) @ CHR '':'' # base16Encode (hash_data (foi_hash foi))
      = showHashType (hash_type (foi_hash foi')) @ CHR '':'' # base16Encode (hash_data (foi_hash foi'))"
    using assms by (simp add: fixed_string_def)
  then have "showHashType (hash_type (foi_hash foi)) = showHashType (hash_type (foi_hash foi'))"
    "base16Encode (hash_data (foi_hash foi)) = base16Encode (hash_data (foi_hash foi'))"
    using last_separator [OF _ base16Encode_no_colon base16Encode_no_colon] by simp_all
  then have "hash_type (foi_hash foi) = hash_type (foi_hash foi')" "hash_data (foi_hash foi) = hash_data (foi_hash foi')"
    by (blast intro: showHashType_inj base16Encode_inj)+
  with m show ?thesis by simp
qed

text \<open>A path of the fixed output form has no references, and a text has a SHA-256 hash.\<close>

lemma computed_ca:
  assumes "makeFixedOutputPathFromCA digest storeDir name ca = Inr p"
  shows "(case ca of
            Text ti \<Rightarrow> hash_type (ti_hash ti) = SHA256
          | Fixed foi \<Rightarrow> is_source_or_text ca \<or> foi_references foi = noRefs)"
  using assms
  by (auto simp: makeFixedOutputPathFromCA_def makeTextPath_def makeFixedOutputPath_def refs_empty_def noRefs_def
      split: ContentAddressWithReferences.splits if_splits)

lemma same_kind:
  assumes "ca_string digest storeDir name ca = ca_string digest storeDir name ca'"
  shows "is_source_or_text ca = is_source_or_text ca' \<and> (case ca of Text _ \<Rightarrow> True | Fixed _ \<Rightarrow> False) = (case ca' of Text _ \<Rightarrow> True | Fixed _ \<Rightarrow> False)"
  using assms
  by (cases ca; cases ca') (auto simp: hashed_string_def with_references_def split: if_splits)

lemma ca_string_determines:
  assumes eq: "ca_string digest storeDir name ca = ca_string digest storeDir name' ca'"
    and p: "makeFixedOutputPathFromCA digest storeDir name ca = Inr p"
      "makeFixedOutputPathFromCA digest storeDir name' ca' = Inr p"
    and dir: "CHR '':'' \<notin> set storeDir" and refs: "list_all sp_ok (ca_refs ca)" "list_all sp_ok (ca_refs ca')"
  shows "ca = ca' \<or> (\<exists>foi foi'. ca = Fixed foi \<and> ca' = Fixed foi' \<and> fixed_string foi \<noteq> fixed_string foi'
            \<and> digest SHA256 (fixed_string foi) = digest SHA256 (fixed_string foi'))"
proof -
  have name: "name' = name"
    using equal_paths [OF fixed_path_string [OF p(1)] fixed_path_string [OF p(2)]] by simp
  note eq = eq [unfolded name]
  note inj = with_references_inj [OF _ dir]
  consider (txt_file) ti ti' where "ca = Text ti" "ca' = Text ti'"
    | (source) foi foi' where "ca = Fixed foi" "ca' = Fixed foi'" "is_source_or_text ca" "is_source_or_text ca'"
    | (out) foi foi' where "ca = Fixed foi" "ca' = Fixed foi'" "\<not> is_source_or_text ca" "\<not> is_source_or_text ca'"
    using same_kind [OF eq] by (cases ca; cases ca') auto
  then show ?thesis
  proof cases
    case txt_file
    then show ?thesis
      using eq refs computed_ca [OF p(1)] computed_ca [OF p(2)]
      by (auto dest!: hashed_string_inj inj)
  next
    case source
    then show ?thesis
      using eq refs
      by (auto dest!: hashed_string_inj inj)
  next
    case out
    then have "digest SHA256 (fixed_string foi) = digest SHA256 (fixed_string foi')"
      using eq by (auto dest!: hashed_string_inj)
    moreover have "foi_references foi = foi_references foi'"
      using out computed_ca [OF p(1)] computed_ca [OF p(2)] by auto
    ultimately show ?thesis using out fixed_string_inj [of foi foi'] by auto
  qed
qed

section \<open>Properties\<close>

text \<open>A content address is rendered and parsed back, as is a content address method with its hash type, in the
  form of the path registration and in the prefix form of derivations.\<close>

theorem content_address_roundtrip:
  assumes "hash_ok (ca_hash ca)"
  shows "ca_parse (ca_render ca) = Inr ca
    \<and> ca_parseOpt (renderContentAddress (Some ca)) = Inr (Some ca)
    \<and> cam_parse (cam_render m t) = Inr (m, t)
    \<and> parsePrefix (printMethodAlgo ca) = (ca_method ca, showHashType (hash_type (ca_hash ca)))"
proof -
  have "ca_render ca \<noteq> []" by (cases "ca_method ca") (auto simp: ca_render_cam)
  then show ?thesis
    using ca_parse_render [OF assms] cam_parse_render [of m t] parsePrefix_render [of "ca_method ca"]
    by (simp add: ca_parseOpt_def renderContentAddress_def printMethodAlgo_def)
qed

theorem content_address_roundtrip_witness:
  "ca_parse ''fixed:r:md5:00000000000000000000000000''
   = Inr \<lparr>ca_method = FileIngestion Recursive, ca_hash = zeroHash 16 MD5\<rparr>"
proof -
  have ok: "hash_ok (ca_hash \<lparr>ca_method = FileIngestion Recursive, ca_hash = zeroHash 16 MD5\<rparr>)" by code_simp
  have "ca_render \<lparr>ca_method = FileIngestion Recursive, ca_hash = zeroHash 16 MD5\<rparr>
      = ''fixed:r:md5:00000000000000000000000000''" by code_simp
  then show ?thesis using content_address_roundtrip [OF ok] by simp
qed

text \<open>C21: If two content addresses, with their references, are given the same store path, then they have the same name,
  and either they are the same content address, or the two strings that the comment on store paths documents for them are
  different and have the same compressed SHA-256 digest, or, for two addresses of the fixed output form, their inner
  strings are different and have the same SHA-256 digest.\<close>

theorem fixed_output_path_collision:
  assumes "makeFixedOutputPathFromCA digest storeDir name ca = Inr p"
    and "makeFixedOutputPathFromCA digest storeDir name' ca' = Inr p"
    and "CHR '':'' \<notin> set storeDir" and "list_all sp_ok (ca_refs ca)" and "list_all sp_ok (ca_refs ca')"
  shows "name = name'
    \<and> (ca = ca'
       \<or> collides digest (ca_string digest storeDir name ca) (ca_string digest storeDir name' ca')
       \<or> (\<exists>foi foi'. ca = Fixed foi \<and> ca' = Fixed foi' \<and> fixed_string foi \<noteq> fixed_string foi'
            \<and> digest SHA256 (fixed_string foi) = digest SHA256 (fixed_string foi')))"
  using equal_paths [OF fixed_path_string [OF assms(1)] fixed_path_string [OF assms(2)]]
    ca_string_determines [OF _ assms] by blast

definition zero_digest :: digest where
  "zero_digest ht s = replicate (regularHashSize ht) 0"

theorem fixed_output_path_collision_witness:
  "ca_string zero_digest ''/nix/store'' ''x'' (Fixed \<lparr>foi_method = Recursive, foi_hash = zeroHash 32 SHA256,
       foi_references = \<lparr>others = [example_path], self = True\<rparr>\<rparr>)
     = ''source:/nix/store/'' @ baseName example_path
         @ '':self:sha256:0000000000000000000000000000000000000000000000000000000000000000:/nix/store:x''
   \<and> collides zero_digest
       (ca_string zero_digest ''/nix/store'' ''x'' (Fixed \<lparr>foi_method = Recursive, foi_hash = zeroHash 32 SHA256,
          foi_references = \<lparr>others = [example_path], self = True\<rparr>\<rparr>))
       (ca_string zero_digest ''/nix/store'' ''x'' (Text \<lparr>ti_hash = zeroHash 32 SHA256, ti_references = [example_path]\<rparr>))"
proof -
  let ?ca = "Fixed \<lparr>foi_method = Recursive, foi_hash = zeroHash 32 SHA256, foi_references = \<lparr>others = [example_path], self = True\<rparr>\<rparr>"
  let ?ca' = "Text \<lparr>ti_hash = zeroHash 32 SHA256, ti_references = [example_path]\<rparr>"
  let ?p = "StorePath ''00000000000000000000000000000000-x''"
  have 1: "makeFixedOutputPathFromCA zero_digest ''/nix/store'' ''x'' ?ca = Inr ?p" by code_simp
  have 2: "makeFixedOutputPathFromCA zero_digest ''/nix/store'' ''x'' ?ca' = Inr ?p" by code_simp
  have 3: "CHR '':'' \<notin> set ''/nix/store''" by simp
  have 4: "list_all sp_ok (ca_refs ?ca)" "list_all sp_ok (ca_refs ?ca')" by code_simp+
  have 5: "ca_string zero_digest ''/nix/store'' ''x'' ?ca = ''source:/nix/store/'' @ baseName example_path
         @ '':self:sha256:0000000000000000000000000000000000000000000000000000000000000000:/nix/store:x''" by code_simp
  show ?thesis using fixed_output_path_collision [OF 1 2 3 4] 5 by auto
qed

text \<open>C22: If the output of a derivation gets the path of a source or text that was added to the store, with whatever
  references, then the two have the same name and the string documented for the output, which starts with
  \<^verbatim>\<open>output:\<close>, and the one documented for the source or text are different and have the same compressed SHA-256
  digest: the promise at the end of the comment on store paths.\<close>

theorem output_path_not_source:
  assumes "makeOutputPath digest storeDir i h name = Inr p" and "hash_type h = SHA256"
    and "makeFixedOutputPathFromCA digest storeDir name' ca = Inr p" and "is_source_or_text ca"
  shows "name' = outputPathName name i
    \<and> collides digest (output_string storeDir i h (outputPathName name i)) (ca_string digest storeDir name' ca)"
proof -
  have "output_string storeDir i h (outputPathName name i) \<noteq> ca_string digest storeDir name' ca"
    using assms(4) by (cases ca) (simp_all add: output_string_def hashed_string_def with_references_def)
  then show ?thesis using equal_paths [OF output_path_string [OF assms(1,2)] fixed_path_string [OF assms(3)]] by metis
qed

theorem output_path_not_source_witness:
  "makeOutputPath zero_digest ''/nix/store'' ''dev'' (zeroHash 32 SHA256) ''x''
     = Inr (StorePath ''00000000000000000000000000000000-x-dev'')
   \<and> collides zero_digest (output_string ''/nix/store'' ''dev'' (zeroHash 32 SHA256) ''x-dev'')
       (ca_string zero_digest ''/nix/store'' ''x-dev'' (Text \<lparr>ti_hash = zeroHash 32 SHA256, ti_references = [example_path]\<rparr>))"
proof -
  let ?ca = "Text \<lparr>ti_hash = zeroHash 32 SHA256, ti_references = [example_path]\<rparr>"
  let ?p = "StorePath ''00000000000000000000000000000000-x-dev''"
  have 1: "makeOutputPath zero_digest ''/nix/store'' ''dev'' (zeroHash 32 SHA256) ''x'' = Inr ?p" by code_simp
  have 2: "makeFixedOutputPathFromCA zero_digest ''/nix/store'' ''x-dev'' ?ca = Inr ?p" by code_simp
  have 3: "hash_type (zeroHash 32 SHA256) = SHA256" by code_simp
  have 4: "outputPathName ''x'' ''dev'' = ''x-dev''" by code_simp
  show ?thesis using output_path_not_source [OF 1 3 2] 1 4 by simp
qed

section \<open>Following links\<close>

text \<open>
  A link to itself outside the store is followed forever: there is no limit on the number of
  links, unlike in \<^verbatim>\<open>canonPath\<close>.
\<close>

definition self_link :: "string \<Rightarrow> string option result" where
  "self_link s = Inr (if s = ''/a'' then Some ''/a'' else None)"

lemma followLinks_self_loop:
  "followLinks_loop self_link cwd ''/nix/store'' ''/a'' = None"
proof -
  have out: "\<not> isInStore ''/nix/store'' ''/a''" by code_simp
  have abs: "absPath no_links cwd ''/a'' (Some (dirOf ''/a'')) False = Inr ''/a''" for cwd
    by (simp add: absPath_def) code_simp
  have link: "self_link ''/a'' = Inr (Some ''/a'')" by code_simp
  have "\<not> (lookup = self_link \<and> storeDir = ''/nix/store'' \<and> path = ''/a'')"
    if "followLinks_loop lookup cwd storeDir path = Some r" for lookup storeDir path r
    using that
  proof (rule followLinks_loop.raw_induct [rotated], goal_cases)
    case (1 f lookup cwd storeDir path r)
    show ?case using 1(2) 1(1) [of self_link cwd "''/nix/store''" "''/a''" r] out abs link by auto
  qed
  then show ?thesis by (metis not_None_eq)
qed

lemma followLinksToStore_diverges: "followLinksToStore self_link ''/'' ''/nix/store'' ''/a'' = None"
proof -
  have "absPath no_links ''/'' ''/a'' None False = Inr ''/a''" by code_simp
  then show ?thesis
    by (simp add: followLinksToStore_def followLinks_self_loop)
qed

lemma toStorePath_print:
  assumes "canonical storeDir" and "storeDir \<noteq> ''/''" and "path_ok (baseName p)" and "baseName p ! HASH_PART_LEN \<noteq> slash"
    and "rest = [] \<or> hd rest = slash"
  shows "toStorePath storeDir (printStorePath storeDir p @ rest) = Inr (p, rest)"
proof -
  obtain cs where cs: "list_all comp_ok cs" "storeDir = render_path cs" using assms(1) by (rule canonicalE)
  have hd: "storeDir \<noteq> []" "hd storeDir = slash" using cs by (cases cs; simp add: render_path_def)+
  have b: "comp_ok (baseName p)" using assms(3,4) by (rule path_ok_comp)
  then have b': "baseName p \<noteq> []" "slash \<notin> set (baseName p)" by (auto simp: comp_ok_def)
  have "take 1 storeDir = ''/''" using hd by (cases storeDir) auto
  then have ins: "isInStore storeDir (printStorePath storeDir p @ rest)"
    using b' hd by (cases storeDir) (auto simp: isInStore_def isInDir_def printStorePath_def nth_append Suc_le_eq)
  have dw: "drop (length storeDir + 1) (printStorePath storeDir p @ rest) = baseName p @ rest"
    "take (length storeDir + 1) (printStorePath storeDir p @ rest) = storeDir @ ''/''"
    by (simp_all add: printStorePath_def)
  have free: "takeWhile (\<lambda>c. c \<noteq> slash) (baseName p @ rest) = baseName p"
    "dropWhile (\<lambda>c. c \<noteq> slash) (baseName p @ rest) = rest"
    using b'(2) assms(5) by (cases rest; auto simp: takeWhile_append dropWhile_append)+
  have pr: "(storeDir @ ''/'') @ baseName p = printStorePath storeDir p" by (simp add: printStorePath_def)
  show ?thesis
    using ins parseStorePath_print [OF assms(1,3,4)]
    unfolding toStorePath_def Let_def dw free pr by simp
qed

text \<open>A path at or below a store path is split into the store path and the rest; what \<^verbatim>\<open>followLinksToStore\<close> returns,
  if it returns, is a path in the store.\<close>

theorem store_subpath_split:
  assumes "canonical storeDir" and "storeDir \<noteq> ''/''" and "path_ok (baseName p)" and "baseName p ! HASH_PART_LEN \<noteq> slash"
    and "rest = [] \<or> hd rest = slash"
  shows "toStorePath storeDir (printStorePath storeDir p @ rest) = Inr (p, rest)
    \<and> (followLinksToStore lookup cwd storeDir path = Some (Inr q) \<longrightarrow> isInStore storeDir q)"
  using toStorePath_print [OF assms]
  by (auto simp: followLinksToStore_def bindr_eq_Inr_iff split: sum.splits option.splits if_splits)

theorem store_subpath_split_witness:
  "toStorePath ''/nix/store'' ''/nix/store/ffffffffffffffffffffffffffffffff-x/bin'' = Inr (example_path, ''/bin'')"
proof -
  have c: "canonical ''/nix/store''" "''/nix/store'' \<noteq> ''/''" "path_ok (baseName example_path)"
    "baseName example_path ! HASH_PART_LEN \<noteq> slash" "''/bin'' = [] \<or> hd ''/bin'' = slash" by code_simp+
  have "printStorePath ''/nix/store'' example_path @ ''/bin'' = ''/nix/store/ffffffffffffffffffffffffffffffff-x/bin''"
    by code_simp
  then show ?thesis
    using store_subpath_split [OF c, of no_links "[]" "[]" "[]"] by simp
qed

end
