(* ===== verification/Lix_Derivations.thy ===== *)
theory Lix_Derivations
  imports Lix_Content_Address
begin

text \<open>
  Derivations and their textual form, \<^verbatim>\<open>libstore/derivations.{hh,cc}\<close>: the ATerm parser and printer. A string
  view stream is the text that remains to be read. The store directory and the message digests
  are arguments, as in \<^verbatim>\<open>Lix_Content_Address\<close>; experimental features do not influence the code. Printing and parsing
  are shown to be inverse, and the parser to accept exactly the language of a grammar of inductive relations.
\<close>

section \<open>Data\<close>

datatype DerivationOutput = InputAddressed StorePath | CAFixed ContentAddress

datatype DerivationType = TypeInputAddressed | TypeContentAddressed

record BasicDerivation =
  outputs :: "(string, DerivationOutput) omap"
  inputSrcs :: "StorePath oset"
  platform :: string
  builder :: string
  drv_args :: "string list"
  env :: "(string, string) omap"
  drvName :: string

record Derivation = BasicDerivation +
  inputDrvs :: "(StorePath, string oset) omap"

fun output_path :: "digest \<Rightarrow> string \<Rightarrow> string \<Rightarrow> string \<Rightarrow> DerivationOutput \<Rightarrow> StorePath result" where
  "output_path digest storeDir name outputName (InputAddressed path) = Inr path"
| "output_path digest storeDir name outputName (CAFixed ca) =
     makeFixedOutputPathFromCA digest storeDir (outputPathName name outputName) (withoutRefs ca)"

fun isCA :: "DerivationType \<Rightarrow> bool" where
  "isCA TypeInputAddressed = False"
| "isCA TypeContentAddressed = True"

fun isFixed :: "DerivationType \<Rightarrow> bool" where
  "isFixed TypeInputAddressed = False"
| "isFixed TypeContentAddressed = True"

fun isSandboxed :: "DerivationType \<Rightarrow> bool" where
  "isSandboxed TypeInputAddressed = True"
| "isSandboxed TypeContentAddressed = False"

definition isBuiltin :: "'a BasicDerivation_scheme \<Rightarrow> bool" where
  "isBuiltin drv \<longleftrightarrow> take 8 (builder drv) = ''builtin:''"

fun is_input_addressed :: "DerivationOutput \<Rightarrow> bool" where
  "is_input_addressed (InputAddressed _) = True"
| "is_input_addressed (CAFixed _) = False"

definition drv_type :: "'a BasicDerivation_scheme \<Rightarrow> DerivationType result" where
  "drv_type drv =
     (let inputAddressedOutputs = oset_of (map fst (filter (\<lambda>(_, out). is_input_addressed out) (outputs drv)));
          fixedCAOutputs = oset_of (map fst (filter (\<lambda>(_, out). \<not> is_input_addressed out) (outputs drv)))
      in if inputAddressedOutputs = [] \<and> fixedCAOutputs = [] then Inl (Error ''must have at least one output'')
         else if inputAddressedOutputs \<noteq> [] \<and> fixedCAOutputs = [] then Inr TypeInputAddressed
         else if inputAddressedOutputs = [] \<and> fixedCAOutputs \<noteq> [] then
           (if length fixedCAOutputs > 1 then Inl (Error ''only one fixed output is allowed for now'')
            else if hd fixedCAOutputs \<noteq> ''out'' then Inl (Error ''single fixed output must be named \"out\"'')
            else Inr TypeContentAddressed)
         else Inl (Error ''can't mix derivation output types''))"

definition outputNames :: "'a BasicDerivation_scheme \<Rightarrow> string oset" where
  "outputNames drv = oset_of (map fst (outputs drv))"

fun outputsAndPaths_loop ::
    "digest \<Rightarrow> string \<Rightarrow> string \<Rightarrow> (string \<times> DerivationOutput) list
      \<Rightarrow> (string, DerivationOutput \<times> StorePath) omap \<Rightarrow> (string, DerivationOutput \<times> StorePath) omap result" where
  "outputsAndPaths_loop digest storeDir name [] res = Inr res"
| "outputsAndPaths_loop digest storeDir name ((outputName, output) # outs) res =
     bindr (output_path digest storeDir name outputName output) (\<lambda>p.
       outputsAndPaths_loop digest storeDir name outs (omap_emplace outputName (output, p) res))"

definition outputsAndPaths ::
    "digest \<Rightarrow> string \<Rightarrow> 'a BasicDerivation_scheme \<Rightarrow> (string, DerivationOutput \<times> StorePath) omap result" where
  "outputsAndPaths digest storeDir drv = outputsAndPaths_loop digest storeDir (drvName drv) (outputs drv) []"

definition nameFromPath :: "StorePath \<Rightarrow> string result" where
  "nameFromPath drvPath =
     (let nameWithSuffix = sp_name drvPath
      in if \<not> suffix ''.drv'' nameWithSuffix then Inl (AssertionFailed ''nameWithSuffix.ends_with(extension)'')
         else Inr (take (length nameWithSuffix - 4) nameWithSuffix))"

section \<open>Lexing\<close>

definition escapes :: "char \<Rightarrow> char" where
  "escapes c =
     (if c = CHR ''n'' then CHR 0x0A else if c = CHR ''r'' then CHR 0x0D
      else if c = CHR ''t'' then CHR 0x09 else c)"

definition expect :: "string \<Rightarrow> string \<Rightarrow> string result" where
  "expect s str = (if prefix s str then Inr (drop (length s) str) else Inl (FormatError ''expected string''))"

definition expectWithErrorMsg :: "string \<Rightarrow> string \<Rightarrow> string \<Rightarrow> string result" where
  "expectWithErrorMsg errorMsg s str = (if prefix s str then Inr (drop (length s) str) else Inl (FormatError errorMsg))"

text \<open>
  The loop that looks for the closing quote: what it has passed over, whether it saw a backslash,
  and the rest behind the quote. Without a closing quote the code removes one character more than
  the view has.
\<close>

fun parseString_scan :: "string \<Rightarrow> bool \<Rightarrow> string \<Rightarrow> (string \<times> bool \<times> string) result" where
  "parseString_scan content escaped [] = Inl (UndefinedBehaviour ''remove_prefix past the end'')"
| "parseString_scan content escaped (c # str) =
     (if c = CHR 0x22 then Inr (content, escaped, str)
      else if c = CHR 0x5C then
        (case str of
           [] \<Rightarrow> Inl (FormatError ''unterminated string in derivation'')
         | d # str' \<Rightarrow> parseString_scan (content @ [c, d]) True str')
      else parseString_scan (content @ [c]) escaped str)"

text \<open>A backslash is never the last character of what \<open>parseString_scan\<close> returns.\<close>

fun unescapeContent :: "string \<Rightarrow> string" where
  "unescapeContent [] = []"
| "unescapeContent (c # cs) =
     (if c = CHR 0x5C then (case cs of [] \<Rightarrow> [] | d # cs' \<Rightarrow> escapes d # unescapeContent cs')
      else c # unescapeContent cs)"

definition parseString :: "string \<Rightarrow> (string \<times> string) result" where
  "parseString str =
     bindr (expect [CHR 0x22] str) (\<lambda>str.
     bindr (parseString_scan [] False str) (\<lambda>(content, escaped, str).
     if \<not> escaped then Inr (content, str) else Inr (unescapeContent content, str)))"

definition validatePath :: "string \<Rightarrow> unit result" where
  "validatePath s = (if s = [] \<or> hd s \<noteq> slash then Inl (FormatError ''bad path in derivation'') else Inr ())"

definition parsePath :: "string \<Rightarrow> (string \<times> string) result" where
  "parsePath str = bindr (parseString str) (\<lambda>(s, str). bindr (validatePath s) (\<lambda>_. Inr (s, str)))"

definition endOfList :: "string \<Rightarrow> bool \<times> string" where
  "endOfList str =
     (case str of
        [] \<Rightarrow> (False, str)
      | c # r \<Rightarrow> if c = CHR '','' then (False, r) else if c = CHR '']'' then (True, r) else (False, str))"

section \<open>The parser consumes its input\<close>

lemma expect_consumes: "expect s str = Inr r \<Longrightarrow> length str = length s + length r"
  by (auto simp: expect_def prefix_def split: if_splits)

lemma parseString_scan_consumes:
  "parseString_scan content escaped str = Inr (x, e, r) \<Longrightarrow> length r < length str"
  by (induction content escaped str rule: parseString_scan.induct)
    (auto split: if_splits list.splits)

lemma parseString_consumes: "parseString str = Inr (x, r) \<Longrightarrow> length r < length str"
  by (auto simp: parseString_def bindr_eq_Inr_iff split: if_splits
      dest!: expect_consumes parseString_scan_consumes)

lemma parsePath_consumes: "parsePath str = Inr (x, r) \<Longrightarrow> length r < length str"
  by (auto simp: parsePath_def bindr_eq_Inr_iff dest!: parseString_consumes)

lemma endOfList_consumes: "endOfList str = (b, r) \<Longrightarrow> length r \<le> length str"
  by (auto simp: endOfList_def split: list.splits if_splits)

lemmas consumes = expect_consumes parseString_consumes parsePath_consumes endOfList_consumes

text \<open>
  The contract of the loops over the items of a list: the loop unfolds into a test for the end of
  the list and a call of the item parser, which consumes input. What every item keeps holds of the
  result.
\<close>

locale aterm_loop =
  fixes get :: "string \<Rightarrow> ('a \<times> string) result"
    and loop :: "'r \<Rightarrow> string \<Rightarrow> ('r \<times> string) result"
    and ins :: "'a \<Rightarrow> 'r \<Rightarrow> 'r"
  assumes loop_unfold: "loop res str =
      (case endOfList str of
         (True, str) \<Rightarrow> Inr (res, str)
       | (False, str) \<Rightarrow> bindr (get str) (\<lambda>(x, str). loop (ins x res) str))"
    and get_consumes: "get str = Inr (x, r) \<Longrightarrow> length r < length str"
begin

lemma loop_inv:
  assumes "loop res str = Inr (y, r)" and "P res"
    and "\<And>s i s' res. get s = Inr (i, s') \<Longrightarrow> P res \<Longrightarrow> P (ins i res)"
  shows "P y \<and> length r \<le> length str"
  using assms(1,2)
proof (induction "length str" arbitrary: res str rule: less_induct)
  case less
  obtain b str' where e: "endOfList str = (b, str')" by fastforce
  have le: "length str' \<le> length str" using e by (rule endOfList_consumes)
  show ?case
  proof (cases b)
    case True
    then show ?thesis using less.prems e le by (simp add: loop_unfold [of res str])
  next
    case False
    then obtain i str2 where i: "get str' = Inr (i, str2)" "loop (ins i res) str2 = Inr (y, r)"
      using less.prems(1) e by (subst (asm) loop_unfold) (auto simp: bindr_eq_Inr_iff)
    then have "P y \<and> length r \<le> length str2"
      using less.hyps [OF _ i(2)] get_consumes [OF i(1)] le assms(3) [OF i(1) less.prems(2)] by simp
    then show ?thesis using get_consumes [OF i(1)] le by simp
  qed
qed

end

section \<open>Parsing\<close>

function parseStrings_loop :: "bool \<Rightarrow> string oset \<Rightarrow> string \<Rightarrow> (string oset \<times> string) result" where
  "parseStrings_loop arePaths res str =
     (case endOfList str of
        (True, str) \<Rightarrow> Inr (res, str)
      | (False, str) \<Rightarrow>
          bindr (if arePaths then parsePath str else parseString str) (\<lambda>(s, str).
          parseStrings_loop arePaths (oset_insert s res) str))"
  by pat_completeness auto
termination
  by (relation "measure (\<lambda>(_, _, str). length str)")
    (auto dest!: endOfList_consumes [OF sym] dest: consumes split: if_splits)

declare parseStrings_loop.simps [simp del]

definition parseStrings :: "bool \<Rightarrow> string \<Rightarrow> (string oset \<times> string) result" where
  "parseStrings arePaths str = bindr (expect ''['' str) (\<lambda>str. parseStrings_loop arePaths [] str)"

definition parseDerivationOutput :: "string \<Rightarrow> string \<Rightarrow> string \<Rightarrow> string \<Rightarrow> DerivationOutput result" where
  "parseDerivationOutput storeDir pathS hashAlgo hashS =
     (if hashAlgo \<noteq> [] then
        let (method, hashAlgo) = parsePrefix hashAlgo
        in if method = TextIngestion then Inl (UnimplementedError ''dynamic derivations are not supported'')
           else
             bindr (parseHashType hashAlgo) (\<lambda>hashType.
             if hashS = ''impure'' then Inl (UnimplementedError ''impure derivations are not supported'')
             else if hashS \<noteq> [] then
               bindr (validatePath pathS) (\<lambda>_.
               bindr (parseNonSRIUnprefixed hashS hashType) (\<lambda>h.
               Inr (CAFixed \<lparr>ca_method = method, ca_hash = h\<rparr>)))
             else Inl (UnimplementedError ''ca derivations are not supported''))
      else if pathS = [] then Inl (UnimplementedError ''deferred input-addressed derivations are not supported'')
      else
        bindr (validatePath pathS) (\<lambda>_.
        bindr (parseStorePath storeDir pathS) (\<lambda>p. Inr (InputAddressed p))))"

definition parseOutputFields :: "string \<Rightarrow> string \<Rightarrow> (DerivationOutput \<times> string) result" where
  "parseOutputFields storeDir str =
     bindr (expect '','' str) (\<lambda>str. bindr (parseString str) (\<lambda>(pathS, str).
     bindr (expect '','' str) (\<lambda>str. bindr (parseString str) (\<lambda>(hashAlgo, str).
     bindr (expect '','' str) (\<lambda>str. bindr (parseString str) (\<lambda>(hash, str).
     bindr (expect '')'' str) (\<lambda>str.
     bindr (parseDerivationOutput storeDir pathS hashAlgo hash) (\<lambda>out. Inr (out, str)))))))))"

text \<open>The bodies of the loops over outputs, input derivations and environment variables.\<close>

definition parseOutput :: "string \<Rightarrow> string \<Rightarrow> ((string \<times> DerivationOutput) \<times> string) result" where
  "parseOutput storeDir str =
     bindr (expect ''('' str) (\<lambda>str. bindr (parseString str) (\<lambda>(i, str).
     bindr (parseOutputFields storeDir str) (\<lambda>(output, str). Inr ((i, output), str))))"

definition parseInputDrv :: "string \<Rightarrow> string \<Rightarrow> ((StorePath \<times> string oset) \<times> string) result" where
  "parseInputDrv storeDir str =
     bindr (expect ''('' str) (\<lambda>str.
     bindr (parsePath str) (\<lambda>(drvPath, str).
     bindr (expect '','' str) (\<lambda>str.
     bindr (parseStorePath storeDir drvPath) (\<lambda>p.
     bindr (parseStrings False str) (\<lambda>(node, str).
     bindr (expect '')'' str) (\<lambda>str. Inr ((p, node), str)))))))"

definition parseEnvVar :: "string \<Rightarrow> ((string \<times> string) \<times> string) result" where
  "parseEnvVar str =
     bindr (expect ''('' str) (\<lambda>str. bindr (parseString str) (\<lambda>(name, str).
     bindr (expect '','' str) (\<lambda>str. bindr (parseString str) (\<lambda>(value, str).
     bindr (expect '')'' str) (\<lambda>str. Inr ((name, value), str))))))"

interpretation strings_loop: aterm_loop "\<lambda>str. if arePaths then parsePath str else parseString str"
  "parseStrings_loop arePaths" oset_insert for arePaths
  by unfold_locales (rule parseStrings_loop.simps, auto split: if_splits dest: consumes)

lemma parseStrings_loop_ok:
  "parseStrings_loop arePaths res str = Inr (x, r) \<Longrightarrow> oset_ok res \<Longrightarrow> oset_ok x \<and> length r \<le> length str"
  by (rule strings_loop.loop_inv [where P = oset_ok]) auto

lemma parseStrings_consumes: "parseStrings arePaths str = Inr (x, r) \<Longrightarrow> length r < length str"
  by (auto simp: parseStrings_def bindr_eq_Inr_iff dest!: expect_consumes parseStrings_loop_ok)

lemma parseOutput_consumes: "parseOutput storeDir str = Inr (x, r) \<Longrightarrow> length r < length str"
  by (auto simp: parseOutput_def parseOutputFields_def bindr_eq_Inr_iff dest!: consumes)

lemma parseInputDrv_consumes: "parseInputDrv storeDir str = Inr (x, r) \<Longrightarrow> length r < length str"
  by (auto simp: parseInputDrv_def bindr_eq_Inr_iff dest!: consumes parseStrings_consumes)

lemma parseEnvVar_consumes: "parseEnvVar str = Inr (x, r) \<Longrightarrow> length r < length str"
  by (auto simp: parseEnvVar_def bindr_eq_Inr_iff dest!: consumes)

function parseOutputs_loop ::
    "string \<Rightarrow> (string, DerivationOutput) omap \<Rightarrow> string \<Rightarrow> ((string, DerivationOutput) omap \<times> string) result" where
  "parseOutputs_loop storeDir res str =
     (case endOfList str of
        (True, str) \<Rightarrow> Inr (res, str)
      | (False, str) \<Rightarrow>
          bindr (parseOutput storeDir str) (\<lambda>(x, str).
          parseOutputs_loop storeDir (omap_emplace (fst x) (snd x) res) str))"
  by pat_completeness auto
termination
  by (relation "measure (\<lambda>(_, _, str). length str)")
    (auto dest!: endOfList_consumes [OF sym] dest: parseOutput_consumes)

function parseInputDrvs_loop ::
    "string \<Rightarrow> (StorePath, string oset) omap \<Rightarrow> string \<Rightarrow> ((StorePath, string oset) omap \<times> string) result" where
  "parseInputDrvs_loop storeDir res str =
     (case endOfList str of
        (True, str) \<Rightarrow> Inr (res, str)
      | (False, str) \<Rightarrow>
          bindr (parseInputDrv storeDir str) (\<lambda>(x, str).
          parseInputDrvs_loop storeDir (omap_assign (fst x) (snd x) res) str))"
  by pat_completeness auto
termination
  by (relation "measure (\<lambda>(_, _, str). length str)")
    (auto dest!: endOfList_consumes [OF sym] dest: parseInputDrv_consumes)

function parseArgs_loop :: "string list \<Rightarrow> string \<Rightarrow> (string list \<times> string) result" where
  "parseArgs_loop res str =
     (case endOfList str of
        (True, str) \<Rightarrow> Inr (res, str)
      | (False, str) \<Rightarrow> bindr (parseString str) (\<lambda>(s, str). parseArgs_loop (res @ [s]) str))"
  by pat_completeness auto
termination
  by (relation "measure (\<lambda>(_, str). length str)")
    (auto dest!: endOfList_consumes [OF sym] dest: parseString_consumes)

function parseEnv_loop :: "(string, string) omap \<Rightarrow> string \<Rightarrow> ((string, string) omap \<times> string) result" where
  "parseEnv_loop res str =
     (case endOfList str of
        (True, str) \<Rightarrow> Inr (res, str)
      | (False, str) \<Rightarrow>
          bindr (parseEnvVar str) (\<lambda>(x, str). parseEnv_loop (omap_assign (fst x) (snd x) res) str))"
  by pat_completeness auto
termination
  by (relation "measure (\<lambda>(_, str). length str)")
    (auto dest!: endOfList_consumes [OF sym] dest: parseEnvVar_consumes)

declare parseOutputs_loop.simps [simp del] parseInputDrvs_loop.simps [simp del]
  parseArgs_loop.simps [simp del] parseEnv_loop.simps [simp del]

interpretation outputs_loop: aterm_loop "parseOutput storeDir" "parseOutputs_loop storeDir"
  "\<lambda>x. omap_emplace (fst x) (snd x)" for storeDir
  by unfold_locales (rule parseOutputs_loop.simps, rule parseOutput_consumes)

interpretation inputs_loop: aterm_loop "parseInputDrv storeDir" "parseInputDrvs_loop storeDir"
  "\<lambda>x. omap_assign (fst x) (snd x)" for storeDir
  by unfold_locales (rule parseInputDrvs_loop.simps, rule parseInputDrv_consumes)

interpretation args_loop: aterm_loop parseString parseArgs_loop "\<lambda>s res. res @ [s]"
  by unfold_locales (rule parseArgs_loop.simps, rule parseString_consumes)

interpretation env_loop: aterm_loop parseEnvVar parseEnv_loop "\<lambda>x. omap_assign (fst x) (snd x)"
  by unfold_locales (rule parseEnv_loop.simps, rule parseEnvVar_consumes)

definition genericErrorMsg :: string where
  "genericErrorMsg = ''derivation does not start with Derive or DrvWithVersion''"

definition parseDerivation_start :: "string \<Rightarrow> string result" where
  "parseDerivation_start s =
     bindr (expectWithErrorMsg genericErrorMsg ''D'' s) (\<lambda>str.
     if str \<noteq> [] \<and> hd str = CHR ''e'' then expectWithErrorMsg genericErrorMsg ''erive('' str
     else if str \<noteq> [] \<and> hd str = CHR ''r'' then
       bindr (expectWithErrorMsg genericErrorMsg ''rvWithVersion('' str) (\<lambda>str.
       bindr (parseString str) (\<lambda>_. Inl (FormatError ''Unknown derivation ATerm format version'')))
     else Inl (Error genericErrorMsg))"

definition parseDerivation :: "string \<Rightarrow> string \<Rightarrow> string \<Rightarrow> Derivation result" where
  "parseDerivation storeDir s name =
     bindr (parseDerivation_start s) (\<lambda>str.
     bindr (expect ''['' str) (\<lambda>str. bindr (parseOutputs_loop storeDir [] str) (\<lambda>(outs, str).
     bindr (expect '',['' str) (\<lambda>str. bindr (parseInputDrvs_loop storeDir [] str) (\<lambda>(drvs, str).
     bindr (expect '','' str) (\<lambda>str. bindr (parseStrings True str) (\<lambda>(srcS, str).
     bindr (parseStorePathSet storeDir srcS) (\<lambda>srcs.
     bindr (expect '','' str) (\<lambda>str. bindr (parseString str) (\<lambda>(plat, str).
     bindr (expect '','' str) (\<lambda>str. bindr (parseString str) (\<lambda>(bldr, str).
     bindr (expect '',['' str) (\<lambda>str. bindr (parseArgs_loop [] str) (\<lambda>(args, str).
     bindr (expect '',['' str) (\<lambda>str. bindr (parseEnv_loop [] str) (\<lambda>(vars, str).
     bindr (expect '')'' str) (\<lambda>str.
     Inr \<lparr>outputs = outs, inputSrcs = srcs, platform = plat, builder = bldr, drv_args = args, env = vars,
          drvName = name, inputDrvs = drvs\<rparr>)))))))))))))))))"

section \<open>Printing\<close>

definition escapeChar :: "char \<Rightarrow> string" where
  "escapeChar c =
     (if c = CHR 0x22 \<or> c = CHR 0x5C then [CHR 0x5C, c]
      else if c = CHR 0x0A then [CHR 0x5C, CHR ''n'']
      else if c = CHR 0x0D then [CHR 0x5C, CHR ''r'']
      else if c = CHR 0x09 then [CHR 0x5C, CHR ''t'']
      else [c])"

definition printString :: "string \<Rightarrow> string" where
  "printString s = [CHR 0x22] @ concat (map escapeChar s) @ [CHR 0x22]"

definition printUnquotedString :: "string \<Rightarrow> string" where
  "printUnquotedString s = [CHR 0x22] @ s @ [CHR 0x22]"

text \<open>The loops with the flag \<^verbatim>\<open>first\<close>: a comma before every item but the first.\<close>

fun commaItems :: "bool \<Rightarrow> string list \<Rightarrow> string" where
  "commaItems first [] = []"
| "commaItems first (x # xs) = (if first then [] else '','') @ x @ commaItems False xs"

definition printStrings :: "string list \<Rightarrow> string" where
  "printStrings ss = ''['' @ commaItems True (map printString ss) @ '']''"

definition printUnquotedStrings :: "string list \<Rightarrow> string" where
  "printUnquotedStrings ss = ''['' @ commaItems True (map printUnquotedString ss) @ '']''"

definition unparseDerivedPathMapNode :: "string oset \<Rightarrow> string" where
  "unparseDerivedPathMapNode node = '','' @ printUnquotedStrings node"

definition unparseOutput ::
    "digest \<Rightarrow> string \<Rightarrow> bool \<Rightarrow> string \<Rightarrow> string \<times> DerivationOutput \<Rightarrow> string result" where
  "unparseOutput digest storeDir maskOutputs name out =
     (case out of
        (i, InputAddressed path) \<Rightarrow>
          Inr (''('' @ printUnquotedString i
            @ '','' @ printUnquotedString (if maskOutputs then [] else printStorePath storeDir path)
            @ '','' @ printUnquotedString []
            @ '','' @ printUnquotedString [] @ '')'')
      | (i, CAFixed ca) \<Rightarrow>
          bindr (if maskOutputs then Inr []
                 else bindr (output_path digest storeDir name i (CAFixed ca)) (\<lambda>p. Inr (printStorePath storeDir p)))
            (\<lambda>pathS. Inr (''('' @ printUnquotedString i
              @ '','' @ printUnquotedString pathS
              @ '','' @ printUnquotedString (printMethodAlgo ca)
              @ '','' @ printUnquotedString (base16Encode (hash_data (ca_hash ca))) @ '')'')))"

definition unparseInput :: "string \<times> string oset \<Rightarrow> string" where
  "unparseInput inp = ''('' @ printUnquotedString (fst inp) @ unparseDerivedPathMapNode (snd inp) @ '')''"

definition unparseEnvVar :: "bool \<Rightarrow> (string, DerivationOutput) omap \<Rightarrow> string \<times> string \<Rightarrow> string" where
  "unparseEnvVar maskOutputs outs i =
     ''('' @ printString (fst i)
     @ '','' @ printString (if maskOutputs \<and> fst i \<in> fst ` set outs then [] else snd i) @ '')''"

definition unparse ::
    "digest \<Rightarrow> string \<Rightarrow> bool \<Rightarrow> (string, string oset) omap option \<Rightarrow> Derivation \<Rightarrow> string result" where
  "unparse digest storeDir maskOutputs actualInputs drv =
     bindr (mapr (unparseOutput digest storeDir maskOutputs (drvName drv)) (outputs drv)) (\<lambda>outs.
     Inr (''Derive(['' @ commaItems True outs
       @ ''],['' @ commaItems True (map unparseInput (case actualInputs of
            Some inputs \<Rightarrow> inputs
          | None \<Rightarrow> map (\<lambda>(drvPath, childMap). (printStorePath storeDir drvPath, childMap)) (inputDrvs drv)))
       @ ''],'' @ printUnquotedStrings (printStorePathSet storeDir (inputSrcs drv))
       @ '','' @ printUnquotedString (platform drv)
       @ '','' @ printString (builder drv)
       @ '','' @ printStrings (drv_args drv)
       @ '',['' @ commaItems True (map (unparseEnvVar maskOutputs (outputs drv)) (env drv))
       @ ''])''))"

section \<open>Reading back\<close>

subsection \<open>Strings\<close>

lemma expect_append [simp]: "expect s (s @ r) = Inr r"
  by (simp add: expect_def)

lemma expect_Cons [simp]: "expect [c] (c # r) = Inr r" "expect [c, d] (c # d # r) = Inr r"
  by (simp_all add: expect_def)

lemma scan_escaped:
  "\<exists>e. parseString_scan content escaped (concat (map escapeChar s) @ CHR 0x22 # r)
      = Inr (content @ concat (map escapeChar s), e, r)
    \<and> (\<not> e \<longrightarrow> \<not> escaped \<and> concat (map escapeChar s) = s)"
proof (induction s arbitrary: content escaped)
  case (Cons c s)
  show ?case
  proof (cases "escapeChar c = [c]")
    case True
    then have "c \<noteq> CHR 0x22" "c \<noteq> CHR 0x5C" by (auto simp: escapeChar_def split: if_splits)
    then show ?thesis using Cons [of "content @ [c]" escaped] True by auto
  next
    case False
    then obtain d where d: "escapeChar c = [CHR 0x5C, d]" by (auto simp: escapeChar_def split: if_splits)
    then show ?thesis using Cons [of "content @ [CHR 0x5C, d]" True] by auto
  qed
qed auto

lemma unescape_escaped: "unescapeContent (concat (map escapeChar s)) = s"
  by (induction s) (auto simp: escapeChar_def escapes_def)

lemma parseString_printString: "parseString (printString s @ r) = Inr (s, r)"
proof -
  obtain e where "parseString_scan [] False (concat (map escapeChar s) @ CHR 0x22 # r)
      = Inr (concat (map escapeChar s), e, r)" "\<not> e \<longrightarrow> concat (map escapeChar s) = s"
    using scan_escaped [of "[]" False s r] by auto
  then show ?thesis by (cases e) (simp_all add: parseString_def printString_def unescape_escaped)
qed

definition plain :: "string \<Rightarrow> bool" where
  "plain s \<longleftrightarrow> CHR 0x22 \<notin> set s \<and> CHR 0x5C \<notin> set s"

lemma scan_plain:
  "plain s \<Longrightarrow> parseString_scan content escaped (s @ CHR 0x22 # r) = Inr (content @ s, escaped, r)"
  by (induction s arbitrary: content) (auto simp: plain_def)

lemma parseString_unquoted: "plain s \<Longrightarrow> parseString (printUnquotedString s @ r) = Inr (s, r)"
  by (simp add: parseString_def printUnquotedString_def scan_plain)

interpretation quoted: wire printString parseString "\<lambda>_. True"
  by unfold_locales (rule parseString_printString)

interpretation unquoted: wire printUnquotedString parseString plain
  by unfold_locales (rule parseString_unquoted)

lemma parsePath_unquoted:
  assumes "plain s" and "s \<noteq> []" and "hd s = slash"
  shows "parsePath (printUnquotedString s @ r) = Inr (s, r)"
  using assms by (simp add: parsePath_def parseString_unquoted validatePath_def)

subsection \<open>Lists\<close>

text \<open>
  If moreover the items are self-delimiting and start with neither a comma nor a bracket, the loop
  reads back what the printing loops write.
\<close>

locale aterm_list = wire put get ok + aterm_loop get loop ins
  for put :: "'a \<Rightarrow> string" and get :: "string \<Rightarrow> ('a \<times> string) result" and ok :: "'a \<Rightarrow> bool"
    and loop :: "'r \<Rightarrow> string \<Rightarrow> ('r \<times> string) result" and ins :: "'a \<Rightarrow> 'r \<Rightarrow> 'r" +
  assumes put_start: "put x \<noteq> [] \<and> hd (put x) \<noteq> CHR '','' \<and> hd (put x) \<noteq> CHR '']''"
begin

lemma loop_items:
  "\<forall>x \<in> set xs. ok x \<Longrightarrow> loop res (commaItems first (map put xs) @ CHR '']'' # r) = Inr (fold ins xs res, r)"
proof (induction xs arbitrary: res first)
  case Nil
  then show ?case by (subst loop_unfold) (simp add: endOfList_def)
next
  case (Cons x xs)
  have "endOfList (commaItems first (map put (x # xs)) @ CHR '']'' # r)
      = (False, put x @ commaItems False (map put xs) @ CHR '']'' # r)"
    using put_start [of x] by (cases "put x") (auto simp: endOfList_def)
  then show ?case using Cons get_put [of x] by (subst loop_unfold) simp
qed

end

subsection \<open>Store paths and outputs\<close>

lemma plain_Nil [simp]: "plain []"
  by (simp add: plain_def)

lemma plain_append [simp]: "plain (a @ b) \<longleftrightarrow> plain a \<and> plain b"
  by (auto simp: plain_def)

lemma printStorePath_plain: "plain storeDir \<Longrightarrow> sp_ok p \<Longrightarrow> plain (printStorePath storeDir p)"
proof -
  assume s: "plain storeDir" and p: "sp_ok p"
  have "\<not> nameChar (CHR 0x22)" "\<not> nameChar (CHR 0x5C)" by code_simp+
  then have "plain (baseName p)" using sp_ok_chars [OF p] unfolding plain_def by blast
  then show ?thesis using s by (simp add: printStorePath_def plain_def)
qed

lemma canonical_absolute: "canonical storeDir \<Longrightarrow> storeDir \<noteq> [] \<and> hd storeDir = slash"
proof -
  assume "canonical storeDir"
  then obtain cs where "list_all comp_ok cs" "storeDir = render_path cs" by (rule canonicalE)
  then show ?thesis by (cases cs) (simp_all add: render_path_def)
qed

lemma printStorePath_absolute:
  "canonical storeDir \<Longrightarrow> printStorePath storeDir p \<noteq> [] \<and> hd (printStorePath storeDir p) = slash"
  using canonical_absolute by (simp add: printStorePath_def)

lemma makeFixedOutputPath_sp_ok: "makeFixedOutputPathFromCA digest storeDir name ca = Inr p \<Longrightarrow> sp_ok p"
  by (auto simp: makeFixedOutputPathFromCA_def makeTextPath_def makeFixedOutputPath_def makeStorePathOfHash_def
      makeStorePath_def Let_def bindr_eq_Inr_iff intro: storePathOfHash_sp_ok
      split: ContentAddressWithReferences.splits if_splits)

fun output_ok :: "digest \<Rightarrow> string \<Rightarrow> string \<Rightarrow> string \<times> DerivationOutput \<Rightarrow> bool" where
  "output_ok digest storeDir name (i, InputAddressed p) \<longleftrightarrow> plain i \<and> sp_ok p"
| "output_ok digest storeDir name (i, CAFixed ca) \<longleftrightarrow>
     plain i \<and> hash_ok (ca_hash ca) \<and> ca_method ca \<noteq> TextIngestion
     \<and> \<not> isl (output_path digest storeDir name i (CAFixed ca))"

lemma parseDerivationOutput_input:
  assumes "canonical storeDir" and "sp_ok p"
  shows "parseDerivationOutput storeDir (printStorePath storeDir p) [] [] = Inr (InputAddressed p)"
  using printStorePath_absolute [OF assms(1), of p] parse_sp_ok [OF assms]
  by (simp add: parseDerivationOutput_def validatePath_def)

lemma base16_not_special: "hash_ok h \<Longrightarrow> base16Encode (hash_data h) \<noteq> [] \<and> base16Encode (hash_data h) \<noteq> ''impure''"
proof -
  assume "hash_ok h"
  then have "length (base16Encode (hash_data h)) \<ge> 32"
    by (cases "hash_type h") (simp_all add: hash_ok_def base16Encode_length base16Size_def)
  then show ?thesis by auto
qed

lemma parseDerivationOutput_fixed:
  assumes "pathS \<noteq> []" and "hd pathS = slash" and "hash_ok (ca_hash ca)" and "ca_method ca \<noteq> TextIngestion"
  shows "parseDerivationOutput storeDir pathS (printMethodAlgo ca) (base16Encode (hash_data (ca_hash ca))) = Inr (CAFixed ca)"
proof -
  have ne: "printMethodAlgo ca \<noteq> []" by (cases "hash_type (ca_hash ca)") (simp_all add: printMethodAlgo_def)
  have "parsePrefix (printMethodAlgo ca) = (ca_method ca, showHashType (hash_type (ca_hash ca)))"
    by (simp add: printMethodAlgo_def parsePrefix_render)
  moreover have "parseNonSRIUnprefixed (base16Encode (hash_data (ca_hash ca))) (hash_type (ca_hash ca)) = Inr (ca_hash ca)"
    using assms(3) by (simp add: parseNonSRIUnprefixed_def hashOfRest_base16)
  ultimately show ?thesis
    using assms ne base16_not_special [OF assms(3)] by (simp add: parseDerivationOutput_def validatePath_def)
qed

lemma plain_showHashType: "plain (showHashType t)"
  by (cases t) (simp_all add: plain_def)

lemma plain_renderPrefix: "plain (renderPrefix m)"
proof (cases m)
  case (FileIngestion f)
  then show ?thesis by (cases f) (simp_all add: plain_def)
qed (simp add: plain_def)

lemma plain_base16: "plain (base16Encode bs)"
proof -
  have "plain base16Chars" by code_simp
  then show ?thesis using base16Encode_subset [of bs] by (auto simp: plain_def)
qed

lemma plain_fixed: "plain (printMethodAlgo ca)"
  by (simp add: printMethodAlgo_def plain_showHashType plain_renderPrefix)

lemma parseString_unquoted_Nil: "parseString ([CHR 0x22] @ [CHR 0x22] @ r) = Inr ([], r)"
  using parseString_unquoted [of "[]" r] by (simp add: printUnquotedString_def)

definition printed_output :: "digest \<Rightarrow> string \<Rightarrow> string \<Rightarrow> string \<times> DerivationOutput \<Rightarrow> string" where
  "printed_output digest storeDir name out =
     (case unparseOutput digest storeDir False name out of Inr s \<Rightarrow> s | Inl _ \<Rightarrow> ''('')"

lemma unparseOutput_ok:
  assumes "output_ok digest storeDir name out"
  shows "unparseOutput digest storeDir False name out = Inr (printed_output digest storeDir name out)"
  using assms by (cases out; cases "snd out") (auto simp: unparseOutput_def printed_output_def isl_def bindr_def split: sum.splits)

lemma parseOutputFields_print:
  assumes "plain pathS" and "plain algo" and "plain hash"
  shows "parseOutputFields storeDir ('','' @ printUnquotedString pathS @ '','' @ printUnquotedString algo
      @ '','' @ printUnquotedString hash @ '')'' @ r)
    = bindr (parseDerivationOutput storeDir pathS algo hash) (\<lambda>out. Inr (out, r))"
  using assms by (simp add: parseOutputFields_def parseString_unquoted)

lemma parseOutput_print:
  assumes dir: "canonical storeDir" "plain storeDir" and ok: "output_ok digest storeDir name out"
  shows "parseOutput storeDir (printed_output digest storeDir name out @ r) = Inr (out, r)"
proof -
  obtain i x where out: "out = (i, x)" by fastforce
  have i: "plain i" using ok out by (cases x) auto
  note simps = parseOutput_def parseString_unquoted [OF i] unparseOutput_def printed_output_def out
  show ?thesis
  proof (cases x)
    case (InputAddressed p)
    then have p: "sp_ok p" using ok out by simp
    show ?thesis
      using parseOutputFields_print [OF printStorePath_plain [OF dir(2) p] plain_Nil plain_Nil]
        parseDerivationOutput_input [OF dir(1) p] by (simp add: simps InputAddressed)
  next
    case (CAFixed ca)
    then obtain p where p: "output_path digest storeDir name i (CAFixed ca) = Inr p" and
      ca: "hash_ok (ca_hash ca)" "ca_method ca \<noteq> TextIngestion"
      using ok out by (cases "output_path digest storeDir name i (CAFixed ca)") auto
    have "sp_ok p" using p makeFixedOutputPath_sp_ok by simp
    from parseOutputFields_print [OF printStorePath_plain [OF dir(2) this] plain_fixed plain_base16]
    show ?thesis
      using parseDerivationOutput_fixed [of "printStorePath storeDir p" ca storeDir] ca printStorePath_absolute [OF dir(1)] p
      by (simp add: simps CAFixed)
  qed
qed

subsection \<open>The loops\<close>

interpretation args_list: aterm_list printString parseString "\<lambda>_. True" parseArgs_loop "\<lambda>s res. res @ [s]"
  by unfold_locales (simp add: printString_def)

interpretation names_loop: aterm_loop parseString "parseStrings_loop False" oset_insert
  using strings_loop.aterm_loop_axioms [of False] by simp

interpretation paths_loop: aterm_loop parsePath "parseStrings_loop True" oset_insert
  using strings_loop.aterm_loop_axioms [of True] by simp

interpretation names_list: aterm_list printUnquotedString parseString plain "parseStrings_loop False" oset_insert
  by unfold_locales (simp add: printUnquotedString_def)

interpretation paths_list: aterm_list printUnquotedString parsePath "\<lambda>s. plain s \<and> s \<noteq> [] \<and> hd s = slash"
  "parseStrings_loop True" oset_insert
proof (unfold_locales, goal_cases)
  case (1 x rest)
  then show ?case by (simp add: parsePath_unquoted)
next
  case (2 x)
  show ?case by (simp add: printUnquotedString_def)
qed

lemma parseStrings_names:
  assumes "oset_ok ns" and "\<forall>n \<in> set ns. plain n"
  shows "parseStrings False (printUnquotedStrings ns @ r) = Inr (ns, r)"
  using names_list.loop_items [OF assms(2), of "[]" True r] oset_of_sorted [OF assms(1)]
  by (simp add: parseStrings_def printUnquotedStrings_def oset_of_def)

lemma parseStrings_paths:
  assumes "oset_ok ns" and "\<forall>n \<in> set ns. plain n \<and> n \<noteq> [] \<and> hd n = slash"
  shows "parseStrings True (printUnquotedStrings ns @ r) = Inr (ns, r)"
  using paths_list.loop_items [OF assms(2), of "[]" True r] oset_of_sorted [OF assms(1)]
  by (simp add: parseStrings_def printUnquotedStrings_def oset_of_def)

definition input_ok :: "StorePath \<times> string oset \<Rightarrow> bool" where
  "input_ok inp \<longleftrightarrow> sp_ok (fst inp) \<and> oset_ok (snd inp) \<and> (\<forall>n \<in> set (snd inp). plain n)"

definition print_input :: "string \<Rightarrow> StorePath \<times> string oset \<Rightarrow> string" where
  "print_input storeDir inp = unparseInput (printStorePath storeDir (fst inp), snd inp)"

lemma parseInputDrv_print:
  assumes dir: "canonical storeDir" "plain storeDir" and ok: "input_ok inp"
  shows "parseInputDrv storeDir (print_input storeDir inp @ r) = Inr (inp, r)"
proof -
  have p: "sp_ok (fst inp)" and n: "oset_ok (snd inp)" "\<forall>n \<in> set (snd inp). plain n" using ok by (auto simp: input_ok_def)
  have path: "parsePath (printUnquotedString (printStorePath storeDir (fst inp)) @ r')
      = Inr (printStorePath storeDir (fst inp), r')" for r'
    using printStorePath_plain [OF dir(2) p] printStorePath_absolute [OF dir(1)] by (intro parsePath_unquoted) auto
  show ?thesis
    using parse_sp_ok [OF dir(1) p] parseStrings_names [OF n, of "'')'' @ r"]
    by (simp add: parseInputDrv_def print_input_def unparseInput_def unparseDerivedPathMapNode_def path)
qed

lemma parseEnvVar_print: "parseEnvVar (unparseEnvVar False outs v @ r) = Inr (v, r)"
  by (simp add: parseEnvVar_def unparseEnvVar_def parseString_printString)

interpretation outputs_list: aterm_list "printed_output digest storeDir name" "parseOutput storeDir"
  "\<lambda>out. canonical storeDir \<and> plain storeDir \<and> output_ok digest storeDir name out"
  "parseOutputs_loop storeDir" "\<lambda>x. omap_emplace (fst x) (snd x)" for digest storeDir name
proof (unfold_locales, goal_cases)
  case (1 x rest)
  then show ?case by (simp add: parseOutput_print)
next
  case (2 x)
  show ?case
    by (auto simp: printed_output_def unparseOutput_def bindr_def
        split: prod.splits sum.splits DerivationOutput.splits)
qed

interpretation inputs_list: aterm_list "print_input storeDir" "parseInputDrv storeDir"
  "\<lambda>inp. canonical storeDir \<and> plain storeDir \<and> input_ok inp"
  "parseInputDrvs_loop storeDir" "\<lambda>x. omap_assign (fst x) (snd x)" for storeDir
proof (unfold_locales, goal_cases)
  case (1 x rest)
  then show ?case by (simp add: parseInputDrv_print)
next
  case (2 x)
  show ?case by (simp add: print_input_def unparseInput_def)
qed

interpretation env_list: aterm_list "unparseEnvVar False outs" parseEnvVar "\<lambda>_. True"
  parseEnv_loop "\<lambda>x. omap_assign (fst x) (snd x)" for outs
proof (unfold_locales, goal_cases)
  case (1 x rest)
  then show ?case by (simp add: parseEnvVar_print)
next
  case (2 x)
  show ?case by (simp add: unparseEnvVar_def)
qed

subsection \<open>The whole derivation\<close>

lemma fold_push_back: "fold (\<lambda>s res. res @ [s]) xs acc = acc @ xs"
  by (induction xs arbitrary: acc) auto

lemma fold_emplace_sorted: "omap_ok (acc @ m) \<Longrightarrow> fold (\<lambda>x. omap_emplace (fst x) (snd x)) m acc = acc @ m"
proof (induction m arbitrary: acc)
  case (Cons kv m)
  then have "omap_ok (acc @ [kv])" by (auto simp: omap_ok_def sorted_wrt_append)
  then show ?case using Cons by (simp add: omap_emplace_last)
qed simp

lemma fold_assign_sorted: "omap_ok (acc @ m) \<Longrightarrow> fold (\<lambda>x. omap_assign (fst x) (snd x)) m acc = acc @ m"
proof (induction m arbitrary: acc)
  case (Cons kv m)
  then have "omap_ok (acc @ [kv])" by (auto simp: omap_ok_def sorted_wrt_append)
  then show ?case using Cons by (simp add: omap_assign_last)
qed simp

lemma parseStorePathSet_print:
  assumes "canonical storeDir" and "oset_ok srcs" and "\<forall>p \<in> set srcs. sp_ok p"
  shows "parseStorePathSet storeDir (printStorePathSet storeDir srcs) = Inr srcs"
proof -
  let ?ss = "printStorePathSet storeDir srcs"
  have ss: "set ?ss = printStorePath storeDir ` set srcs" by (simp add: printStorePathSet_def)
  define spOf where "spOf s = (THE p. p \<in> set srcs \<and> printStorePath storeDir p = s)" for s
  have inj: "p = q" if "p \<in> set srcs" "q \<in> set srcs" "printStorePath storeDir p = printStorePath storeDir q" for p q
    using that by (simp add: printStorePath_def StorePath.expand)
  then have spOf: "spOf (printStorePath storeDir p) = p" if "p \<in> set srcs" for p
    unfolding spOf_def using that by (intro the_equality) auto
  have "parseStorePath storeDir s = Inr (spOf s)" if "s \<in> set ?ss" for s
    using that spOf parse_sp_ok [OF assms(1)] assms(3) ss by auto
  then have "mapr (parseStorePath storeDir) ?ss = Inr (map spOf ?ss)" by (rule mapr_Inr)
  moreover have "oset_of (map spOf ?ss) = srcs"
    using spOf ss assms(2) by (intro oset_eq_iff) (auto simp: image_image)
  ultimately show ?thesis by (simp add: parseStorePathSet_def)
qed

definition drv_ok :: "digest \<Rightarrow> string \<Rightarrow> Derivation \<Rightarrow> bool" where
  "drv_ok digest storeDir drv \<longleftrightarrow>
     omap_ok (outputs drv) \<and> (\<forall>out \<in> set (outputs drv). output_ok digest storeDir (drvName drv) out)
     \<and> omap_ok (inputDrvs drv) \<and> (\<forall>inp \<in> set (inputDrvs drv). input_ok inp)
     \<and> oset_ok (inputSrcs drv) \<and> (\<forall>p \<in> set (inputSrcs drv). sp_ok p)
     \<and> plain (platform drv) \<and> omap_ok (env drv)"

lemma unparse_ok:
  assumes "drv_ok digest storeDir drv"
  shows "unparse digest storeDir False None drv =
    Inr (''Derive(['' @ commaItems True (map (printed_output digest storeDir (drvName drv)) (outputs drv))
       @ ''],['' @ commaItems True (map (print_input storeDir) (inputDrvs drv))
       @ ''],'' @ printUnquotedStrings (printStorePathSet storeDir (inputSrcs drv))
       @ '','' @ printUnquotedString (platform drv)
       @ '','' @ printString (builder drv)
       @ '','' @ printStrings (drv_args drv)
       @ '',['' @ commaItems True (map (unparseEnvVar False (outputs drv)) (env drv))
       @ ''])'')"
proof -
  have outs: "mapr (unparseOutput digest storeDir False (drvName drv)) (outputs drv)
      = Inr (map (printed_output digest storeDir (drvName drv)) (outputs drv))"
    using assms by (intro mapr_Inr unparseOutput_ok) (auto simp: drv_ok_def)
  have inps: "map unparseInput (map (\<lambda>(drvPath, childMap). (printStorePath storeDir drvPath, childMap)) (inputDrvs drv))
      = map (print_input storeDir) (inputDrvs drv)" by (auto simp: print_input_def)
  show ?thesis unfolding unparse_def outs bindr_simps option.case inps ..
qed

lemma parseDerivation_start_Derive: "parseDerivation_start (''Derive('' @ r) = Inr r"
  by (simp add: parseDerivation_start_def expectWithErrorMsg_def)

lemma parseDerivation_unparse:
  assumes dir: "canonical storeDir" "plain storeDir" and ok: "drv_ok digest storeDir drv"
    and s: "unparse digest storeDir False None drv = Inr s"
  shows "parseDerivation storeDir s (drvName drv) = Inr drv"
proof -
  have outs: "parseOutputs_loop storeDir [] (commaItems True (map (printed_output digest storeDir (drvName drv)) (outputs drv)) @ CHR '']'' # r)
      = Inr (outputs drv, r)" for r
    using outputs_list.loop_items [where xs = "outputs drv" and digest = digest and name = "drvName drv" and storeDir = storeDir
        and res = "[]" and first = True and r = r] dir ok
      fold_emplace_sorted [of "[]" "outputs drv"] by (auto simp: drv_ok_def)
  have inps: "parseInputDrvs_loop storeDir [] (commaItems True (map (print_input storeDir) (inputDrvs drv)) @ CHR '']'' # r)
      = Inr (inputDrvs drv, r)" for r
    using inputs_list.loop_items [where xs = "inputDrvs drv" and storeDir = storeDir and res = "[]" and first = True and r = r] dir ok
      fold_assign_sorted [of "[]" "inputDrvs drv"] by (auto simp: drv_ok_def)
  have srcs: "parseStrings True (printUnquotedStrings (printStorePathSet storeDir (inputSrcs drv)) @ r)
      = Inr (printStorePathSet storeDir (inputSrcs drv), r)" for r
    using printStorePath_plain [OF dir(2)] printStorePath_absolute [OF dir(1)] ok
    by (intro parseStrings_paths) (auto simp: printStorePathSet_def drv_ok_def)
  have set: "parseStorePathSet storeDir (printStorePathSet storeDir (inputSrcs drv)) = Inr (inputSrcs drv)"
    using ok by (intro parseStorePathSet_print dir) (auto simp: drv_ok_def)
  have args: "parseArgs_loop [] (commaItems True (map printString (drv_args drv)) @ CHR '']'' # r) = Inr (drv_args drv, r)" for r
    using args_list.loop_items [of "drv_args drv" "[]" True r] by (simp add: fold_push_back)
  have env: "parseEnv_loop [] (commaItems True (map (unparseEnvVar False (outputs drv)) (env drv)) @ CHR '']'' # r) = Inr (env drv, r)" for r
    using env_list.loop_items [where xs = "env drv" and outs = "outputs drv" and res = "[]" and first = True and r = r] ok fold_assign_sorted [of "[]" "env drv"]
    by (auto simp: drv_ok_def)
  have plat: "plain (platform drv)" using ok by (simp add: drv_ok_def)
  show ?thesis
    using s unfolding unparse_ok [OF ok] parseDerivation_def
    by (auto simp: parseDerivation_start_Derive [simplified] outs inps srcs set args env printStrings_def
        parseString_unquoted [OF plat] parseString_printString)
qed

section \<open>The grammar of derivation texts\<close>

text \<open>
  The language of the parser as a grammar, apart from the loops and the lexer: every relation
  holds between a value and the texts that stand for it. In a string a backslash makes the letters
  \<^verbatim>\<open>n\<close>, \<^verbatim>\<open>r\<close> and \<^verbatim>\<open>t\<close> a control character and any other character itself. The text of a list starts behind the opening
  bracket; a comma may stand before every item, the first included, and need not stand before any.
\<close>

inductive escaped_text :: "string \<Rightarrow> string \<Rightarrow> bool" where
  escaped_end: "escaped_text [] []"
| escaped_char: "escaped_text s t \<Longrightarrow> c \<noteq> CHR 0x22 \<Longrightarrow> c \<noteq> CHR 0x5C \<Longrightarrow> escaped_text (c # s) (c # t)"
| escaped_newline: "escaped_text s t \<Longrightarrow> escaped_text (CHR 0x0A # s) (CHR 0x5C # CHR ''n'' # t)"
| escaped_return: "escaped_text s t \<Longrightarrow> escaped_text (CHR 0x0D # s) (CHR 0x5C # CHR ''r'' # t)"
| escaped_tab: "escaped_text s t \<Longrightarrow> escaped_text (CHR 0x09 # s) (CHR 0x5C # CHR ''t'' # t)"
| escaped_other: "escaped_text s t \<Longrightarrow> d \<noteq> CHR ''n'' \<Longrightarrow> d \<noteq> CHR ''r'' \<Longrightarrow> d \<noteq> CHR ''t'' \<Longrightarrow>
    escaped_text (d # s) (CHR 0x5C # d # t)"

inductive string_text :: "string \<Rightarrow> string \<Rightarrow> bool" where
  "escaped_text s u \<Longrightarrow> string_text s ([CHR 0x22] @ u @ [CHR 0x22])"

definition absolute :: "string \<Rightarrow> bool" where
  "absolute s \<longleftrightarrow> take 1 s = ''/''"

inductive path_text :: "string \<Rightarrow> string \<Rightarrow> bool" where
  "string_text s t \<Longrightarrow> absolute s \<Longrightarrow> path_text s t"

inductive list_text :: "('a \<Rightarrow> string \<Rightarrow> bool) \<Rightarrow> 'a list \<Rightarrow> string \<Rightarrow> bool" for item where
  list_end: "list_text item [] '']''"
| list_item: "item x u \<Longrightarrow> list_text item xs t \<Longrightarrow> list_text item (x # xs) (u @ t)"
| list_comma: "item x u \<Longrightarrow> list_text item xs t \<Longrightarrow> list_text item (x # xs) ('','' @ u @ t)"

text \<open>The three fields of an output: path, method with hash type, and hash.\<close>

fun output_fields :: "string \<Rightarrow> string \<Rightarrow> string \<Rightarrow> string \<Rightarrow> DerivationOutput \<Rightarrow> bool" where
  "output_fields storeDir p a h (InputAddressed path) \<longleftrightarrow>
     a = [] \<and> absolute p \<and> parseStorePath storeDir p = Inr path"
| "output_fields storeDir p a h (CAFixed ca) \<longleftrightarrow>
     ca_method ca \<noteq> TextIngestion \<and> a = printMethodAlgo ca \<and> absolute p \<and> h \<noteq> [] \<and> h \<noteq> ''impure''
     \<and> parseNonSRIUnprefixed h (hash_type (ca_hash ca)) = Inr (ca_hash ca)"

inductive output_text :: "string \<Rightarrow> string \<times> DerivationOutput \<Rightarrow> string \<Rightarrow> bool" for storeDir where
  "string_text i ti \<Longrightarrow> string_text p tp \<Longrightarrow> string_text a ta \<Longrightarrow> string_text h th \<Longrightarrow> output_fields storeDir p a h out \<Longrightarrow>
   output_text storeDir (i, out) (''('' @ ti @ '','' @ tp @ '','' @ ta @ '','' @ th @ '')'')"

inductive input_text :: "string \<Rightarrow> StorePath \<times> string oset \<Rightarrow> string \<Rightarrow> bool" for storeDir where
  "path_text p tp \<Longrightarrow> parseStorePath storeDir p = Inr path \<Longrightarrow> list_text string_text names tn \<Longrightarrow>
   oset_ok node \<Longrightarrow> set node = set names \<Longrightarrow>
   input_text storeDir (path, node) (''('' @ tp @ '',['' @ tn @ '')'')"

inductive env_text :: "string \<times> string \<Rightarrow> string \<Rightarrow> bool" where
  "string_text n tn \<Longrightarrow> string_text v tv \<Longrightarrow> env_text (n, v) (''('' @ tn @ '','' @ tv @ '')'')"

text \<open>
  The text of a derivation. Of two outputs of one name the first counts, of two entries for one input derivation
  or environment variable the last.
\<close>

inductive derivation_text :: "string \<Rightarrow> Derivation \<Rightarrow> string \<Rightarrow> bool" for storeDir where
  "list_text (output_text storeDir) outs t1 \<Longrightarrow> omap_ok (outputs drv) \<Longrightarrow> map_of (outputs drv) = map_of outs \<Longrightarrow>
   list_text (input_text storeDir) drvs t2 \<Longrightarrow> omap_ok (inputDrvs drv) \<Longrightarrow> map_of (inputDrvs drv) = map_of (rev drvs) \<Longrightarrow>
   list_text path_text srcs t3 \<Longrightarrow> oset_ok (inputSrcs drv) \<Longrightarrow>
     Inr ` set (inputSrcs drv) = parseStorePath storeDir ` set srcs \<Longrightarrow>
   string_text (platform drv) t4 \<Longrightarrow> string_text (builder drv) t5 \<Longrightarrow> list_text string_text (drv_args drv) t6 \<Longrightarrow>
   list_text env_text vars t7 \<Longrightarrow> omap_ok (env drv) \<Longrightarrow> map_of (env drv) = map_of (rev vars) \<Longrightarrow>
   derivation_text storeDir drv
     (''Derive(['' @ t1 @ '',['' @ t2 @ '',['' @ t3 @ '','' @ t4 @ '','' @ t5 @ '',['' @ t6 @ '',['' @ t7 @ '')'')"

section \<open>The parser accepts exactly this grammar\<close>

lemma expect_exact: "expect s str = Inr r \<longleftrightarrow> str = s @ r"
  by (auto simp: expect_def prefix_def)

lemma escaped_escape: "escaped_text s t \<Longrightarrow> escaped_text (escapes d # s) (CHR 0x5C # d # t)"
  by (auto simp: escapes_def intro: escaped_text.intros)

lemma unescape_text: "escaped_text s t \<Longrightarrow> unescapeContent t = s"
  by (induction rule: escaped_text.induct) (simp_all add: escapes_def)

lemma escaped_text_plain: "escaped_text s t \<Longrightarrow> CHR 0x5C \<notin> set t \<Longrightarrow> s = t"
  by (induction rule: escaped_text.induct) simp_all

lemma scan_text:
  "escaped_text s u \<Longrightarrow>
   parseString_scan content e (u @ CHR 0x22 # r) = Inr (content @ u, e \<or> CHR 0x5C \<in> set u, r)"
  by (induction arbitrary: content e rule: escaped_text.induct) simp_all

lemma scan_accepts:
  "parseString_scan content e str = Inr (c, e', r) \<Longrightarrow> \<exists>s u. str = u @ CHR 0x22 # r \<and> escaped_text s u"
proof (induction content e str rule: parseString_scan.induct)
  case (2 content escaped ch str)
  show ?case
  proof (cases "ch = CHR 0x22")
    case True
    then show ?thesis using "2.prems" by (auto intro: escaped_end)
  next
    case not_quote: False
    show ?thesis
    proof (cases "ch = CHR 0x5C")
      case True
      then obtain d str' where str: "str = d # str'" using "2.prems" by (auto split: list.splits)
      then obtain s u where "str' = u @ CHR 0x22 # r" "escaped_text s u"
        using "2.IH"(1) [OF not_quote True str] "2.prems" True by auto
      then have "ch # str = (CHR 0x5C # d # u) @ CHR 0x22 # r \<and> escaped_text (escapes d # s) (CHR 0x5C # d # u)"
        using True str escaped_escape by simp
      then show ?thesis by blast
    next
      case False
      then obtain s u where "str = u @ CHR 0x22 # r" "escaped_text s u"
        using "2.IH"(2) [OF not_quote False] "2.prems" not_quote by auto
      then have "ch # str = (ch # u) @ CHR 0x22 # r \<and> escaped_text (ch # s) (ch # u)"
        using False not_quote escaped_char by simp
      then show ?thesis by blast
    qed
  qed
qed simp

lemma parseString_text: "string_text s t \<Longrightarrow> parseString (t @ r) = Inr (s, r)"
proof (induction rule: string_text.cases)
  case (1 s u)
  then show ?case
    using scan_text [of s u "[]" False r] unescape_text [of s u] escaped_text_plain [of s u]
    by (auto simp: parseString_def)
qed

lemma parseString_accepts:
  assumes "parseString str = Inr (s, r)"
  shows "\<exists>t. str = t @ r \<and> string_text s t"
proof -
  obtain c e str' where q: "str = CHR 0x22 # str'" and scan: "parseString_scan [] False str' = Inr (c, e, r)"
    using assms by (auto simp: parseString_def bindr_eq_Inr_iff expect_exact split: if_splits)
  obtain s' u where u: "str' = u @ CHR 0x22 # r" "escaped_text s' u" using scan_accepts [OF scan] by blast
  let ?t = "[CHR 0x22] @ u @ [CHR 0x22]"
  have t: "str = ?t @ r" "string_text s' ?t" using q u(1) string_text.intros [OF u(2)] by simp_all
  then have "s' = s" using parseString_text [OF t(2), of r] assms by simp
  then show ?thesis using t by blast
qed

lemma parseString_exact: "parseString str = Inr (s, r) \<longleftrightarrow> (\<exists>t. str = t @ r \<and> string_text s t)"
  using parseString_accepts parseString_text by blast

lemma validatePath_exact: "validatePath s = Inr u \<longleftrightarrow> absolute s"
  by (cases s) (simp_all add: validatePath_def absolute_def)

lemma parsePath_exact: "parsePath str = Inr (s, r) \<longleftrightarrow> (\<exists>t. str = t @ r \<and> path_text s t)"
  by (auto simp: parsePath_def bindr_eq_Inr_iff validatePath_exact parseString_exact path_text.simps)

text \<open>The contract of the loops for a grammar of their items, and what the loop then accepts.\<close>

locale aterm_grammar = aterm_loop get loop ins
  for get :: "string \<Rightarrow> ('a \<times> string) result" and loop :: "'r \<Rightarrow> string \<Rightarrow> ('r \<times> string) result"
    and ins :: "'a \<Rightarrow> 'r \<Rightarrow> 'r" +
  fixes item :: "'a \<Rightarrow> string \<Rightarrow> bool"
  assumes get_exact: "get str = Inr (x, r) \<longleftrightarrow> (\<exists>t. str = t @ r \<and> item x t)"
    and item_start: "item x t \<Longrightarrow> t \<noteq> [] \<and> hd t \<noteq> CHR '','' \<and> hd t \<noteq> CHR '']''"
begin

lemma loop_text: "list_text item xs t \<Longrightarrow> loop res (t @ r) = Inr (fold ins xs res, r)"
proof (induction arbitrary: res rule: list_text.induct)
  case list_end
  then show ?case by (subst loop_unfold) (simp add: endOfList_def)
next
  case (list_item x u xs t)
  have "endOfList ((u @ t) @ r) = (False, u @ t @ r)"
    using item_start [OF list_item.hyps(1)] by (cases u) (auto simp: endOfList_def)
  moreover have "get (u @ t @ r) = Inr (x, t @ r)" using list_item.hyps(1) get_exact by blast
  ultimately show ?case using list_item.IH by (subst loop_unfold) simp
next
  case (list_comma x u xs t)
  have "get (u @ t @ r) = Inr (x, t @ r)" using list_comma.hyps(1) get_exact by blast
  then show ?case using list_comma.IH by (subst loop_unfold) (simp add: endOfList_def)
qed

lemma loop_accepts: "loop res str = Inr (y, r) \<Longrightarrow> \<exists>xs t. str = t @ r \<and> list_text item xs t \<and> y = fold ins xs res"
proof (induction "length str" arbitrary: res str rule: less_induct)
  case less
  obtain b str' where e: "endOfList str = (b, str')" by fastforce
  show ?case
  proof (cases b)
    case True
    then have "str = '']'' @ str'" using e by (auto simp: endOfList_def split: list.splits if_splits)
    moreover have "y = res" "r = str'" using less.prems e True by (simp_all add: loop_unfold [of res str])
    ultimately show ?thesis using list_end [of item] by (intro exI [of _ "[]"] exI [of _ "'']''"]) simp
  next
    case False
    then obtain i str2 where i: "get str' = Inr (i, str2)" "loop (ins i res) str2 = Inr (y, r)"
      using less.prems e by (subst (asm) loop_unfold) (auto simp: bindr_eq_Inr_iff)
    have "length str2 < length str" using get_consumes [OF i(1)] endOfList_consumes [OF e] by simp
    then obtain xs t where xs: "str2 = t @ r" "list_text item xs t" "y = fold ins xs (ins i res)"
      using less.hyps [OF _ i(2)] by blast
    obtain u where u: "str' = u @ str2" "item i u" using i(1) get_exact by blast
    have "str = str' \<or> str = '','' @ str'" using e False by (auto simp: endOfList_def split: list.splits if_splits)
    then have "\<exists>t'. str = t' @ r \<and> list_text item (i # xs) t'"
      using list_item [OF u(2) xs(2)] list_comma [OF u(2) xs(2)] u(1) xs(1) by auto
    then show ?thesis using xs(3) by (auto intro!: exI [of _ "i # xs"])
  qed
qed

lemma loop_exact:
  "loop res str = Inr (y, r) \<longleftrightarrow> (\<exists>xs t. str = t @ r \<and> list_text item xs t \<and> y = fold ins xs res)"
  using loop_accepts loop_text by blast

end

lemma string_text_start: "string_text s t \<Longrightarrow> t \<noteq> [] \<and> hd t \<noteq> CHR '','' \<and> hd t \<noteq> CHR '']''"
  by (auto elim: string_text.cases)

interpretation names_grammar: aterm_grammar parseString "parseStrings_loop False" oset_insert string_text
  by unfold_locales (rule parseString_exact, rule string_text_start)

interpretation args_grammar: aterm_grammar parseString parseArgs_loop "\<lambda>s res. res @ [s]" string_text
  by unfold_locales (rule parseString_exact, rule string_text_start)

interpretation paths_grammar: aterm_grammar parsePath "parseStrings_loop True" oset_insert path_text
  by unfold_locales (rule parsePath_exact, auto elim!: path_text.cases dest: string_text_start)

lemma parseStrings_exact:
  "parseStrings arePaths str = Inr (ss, r) \<longleftrightarrow>
   (\<exists>xs t. str = ''['' @ t @ r \<and> list_text (if arePaths then path_text else string_text) xs t
      \<and> oset_ok ss \<and> set ss = set xs)"
proof -
  have "ss = oset_of xs \<longleftrightarrow> oset_ok ss \<and> set ss = set xs" for xs
    using oset_eq_iff [of ss "oset_of xs"] by auto
  then show ?thesis
    by (cases arePaths)
      (auto simp: parseStrings_def bindr_eq_Inr_iff expect_exact oset_of_def [symmetric]
        names_grammar.loop_exact paths_grammar.loop_exact)
qed

lemma parseHashType_exact: "parseHashType s = Inr t \<longleftrightarrow> s = showHashType t"
  by (cases t) (auto simp: parseHashType_def parseHashTypeOpt_def)

lemma parsePrefix_exact: "parsePrefix a = (m, x) \<Longrightarrow> a = renderPrefix m @ x"
  by (auto simp: parsePrefix_def splitPrefix_def prefix_def split: if_splits)

lemma absolute_not_Nil: "absolute s \<Longrightarrow> s \<noteq> []"
  by (auto simp: absolute_def)

lemma parseDerivationOutput_exact:
  "parseDerivationOutput storeDir p a h = Inr out \<longleftrightarrow> output_fields storeDir p a h out"
proof (cases "a = []")
  case True
  then show ?thesis
    by (cases out) (auto simp: parseDerivationOutput_def bindr_eq_Inr_iff validatePath_exact printMethodAlgo_def
        dest: absolute_not_Nil elim: showHashType.elims)
next
  case False
  obtain m x where mx: "parsePrefix a = (m, x)" by fastforce
  have a: "a = printMethodAlgo ca \<longleftrightarrow> m = ca_method ca \<and> x = showHashType (hash_type (ca_hash ca))" for ca
    by (metis Pair_inject mx parsePrefix_exact parsePrefix_render printMethodAlgo_def)
  note simps = parseDerivationOutput_def mx bindr_eq_Inr_iff validatePath_exact parseHashType_exact parseNonSRIUnprefixed_def
  show ?thesis
  proof (cases out)
    case (InputAddressed path)
    then show ?thesis using False by (auto simp: simps split: if_splits)
  next
    case (CAFixed ca)
    have "parseDerivationOutput storeDir p a h = Inr (CAFixed ca) \<longleftrightarrow>
        m \<noteq> TextIngestion \<and> h \<noteq> ''impure'' \<and> h \<noteq> [] \<and> absolute p \<and> m = ca_method ca
        \<and> (\<exists>t. x = showHashType t \<and> hashOfRest h t False = Inr (ca_hash ca))"
      using False by (cases ca) (auto simp: simps split: if_splits)
    moreover have "hashOfRest h t False = Inr (ca_hash ca) \<Longrightarrow> t = hash_type (ca_hash ca)" for t
      using hashOfRest_ok by blast
    ultimately show ?thesis unfolding CAFixed output_fields.simps a parseNonSRIUnprefixed_def by metis
  qed
qed

lemma parseOutputFields_exact:
  "parseOutputFields storeDir str = Inr (out, r) \<longleftrightarrow>
   (\<exists>tp p ta a th h. str = '','' @ tp @ '','' @ ta @ '','' @ th @ '')'' @ r
      \<and> string_text p tp \<and> string_text a ta \<and> string_text h th \<and> output_fields storeDir p a h out)"
  (is "?parse \<longleftrightarrow> ?text")
proof
  assume ?parse
  then show ?text
    by (clarsimp simp: parseOutputFields_def bindr_eq_Inr_iff expect_exact parseString_exact parseDerivationOutput_exact) blast
next
  assume ?text
  then obtain tp p ta a th h where str: "str = '','' @ tp @ '','' @ ta @ '','' @ th @ '')'' @ r"
    and t: "string_text p tp" "string_text a ta" "string_text h th" and out: "output_fields storeDir p a h out" by blast
  show ?parse
    using parseString_text [OF t(1)] parseString_text [OF t(2)] parseString_text [OF t(3)]
      parseDerivationOutput_exact [THEN iffD2, OF out]
    by (simp add: str parseOutputFields_def)
qed

lemma parseOutput_exact: "parseOutput storeDir str = Inr (x, r) \<longleftrightarrow> (\<exists>t. str = t @ r \<and> output_text storeDir x t)"
  (is "?parse \<longleftrightarrow> ?text")
proof
  assume ?parse
  then obtain i ti out tp p ta a th h where x: "x = (i, out)"
    and str: "str = (''('' @ ti @ '','' @ tp @ '','' @ ta @ '','' @ th @ '')'') @ r"
    and t: "string_text i ti" "string_text p tp" "string_text a ta" "string_text h th" "output_fields storeDir p a h out"
    by (clarsimp simp: parseOutput_def bindr_eq_Inr_iff expect_exact parseString_exact parseOutputFields_exact)
  then show ?text using output_text.intros [OF t] by blast
next
  assume ?text
  then obtain t where t: "str = t @ r" "output_text storeDir x t" by blast
  from t(2) show ?parse
  proof cases
    case (1 i ti p tp a ta h th out)
    then have "parseOutputFields storeDir ('','' @ tp @ '','' @ ta @ '','' @ th @ '')'' @ r) = Inr (out, r)"
      by (subst parseOutputFields_exact) blast
    then show ?thesis using t(1) 1 parseString_text [OF 1(3)] by (simp add: parseOutput_def)
  qed
qed

lemma parseInputDrv_exact: "parseInputDrv storeDir str = Inr (x, r) \<longleftrightarrow> (\<exists>t. str = t @ r \<and> input_text storeDir x t)"
  by (cases x)
    (fastforce simp: parseInputDrv_def bindr_eq_Inr_iff expect_exact parsePath_exact parseStrings_exact input_text.simps)

lemma parseEnvVar_exact: "parseEnvVar str = Inr (x, r) \<longleftrightarrow> (\<exists>t. str = t @ r \<and> env_text x t)"
  by (cases x) (fastforce simp: parseEnvVar_def bindr_eq_Inr_iff expect_exact parseString_exact env_text.simps)

interpretation outputs_grammar: aterm_grammar "parseOutput storeDir" "parseOutputs_loop storeDir"
  "\<lambda>x. omap_emplace (fst x) (snd x)" "output_text storeDir" for storeDir
  by unfold_locales (rule parseOutput_exact, auto elim: output_text.cases)

interpretation inputs_grammar: aterm_grammar "parseInputDrv storeDir" "parseInputDrvs_loop storeDir"
  "\<lambda>x. omap_assign (fst x) (snd x)" "input_text storeDir" for storeDir
  by unfold_locales (rule parseInputDrv_exact, auto elim: input_text.cases)

interpretation env_grammar: aterm_grammar parseEnvVar parseEnv_loop "\<lambda>x. omap_assign (fst x) (snd x)" env_text
  by unfold_locales (rule parseEnvVar_exact, auto elim: env_text.cases)

lemma fold_emplace_first:
  "omap_ok m \<Longrightarrow> omap_ok (fold (\<lambda>x. omap_emplace (fst x) (snd x)) xs m)
     \<and> map_of (fold (\<lambda>x. omap_emplace (fst x) (snd x)) xs m) = map_of (m @ xs)"
  by (induction xs arbitrary: m) (auto simp: map_of_omap_emplace map_add_def fun_eq_iff split: option.splits)

lemma fold_assign_last:
  "omap_ok m \<Longrightarrow> omap_ok (fold (\<lambda>x. omap_assign (fst x) (snd x)) xs m)
     \<and> map_of (fold (\<lambda>x. omap_assign (fst x) (snd x)) xs m) = map_of (rev xs @ m)"
  by (induction xs arbitrary: m) (auto simp: map_of_omap_assign)

lemma emplaced_map: "m = fold (\<lambda>x. omap_emplace (fst x) (snd x)) xs [] \<longleftrightarrow> omap_ok m \<and> map_of m = map_of xs"
  using fold_emplace_first [of "[]" xs] omap_eq_iff [of m] by auto

lemma assigned_map: "m = fold (\<lambda>x. omap_assign (fst x) (snd x)) xs [] \<longleftrightarrow> omap_ok m \<and> map_of m = map_of (rev xs)"
  using fold_assign_last [of "[]" xs] omap_eq_iff [of m] by auto

lemma mapr_exact: "mapr f xs = Inr ys \<longleftrightarrow> map f xs = map Inr ys"
  by (induction xs arbitrary: ys) (auto simp: bindr_eq_Inr_iff Cons_eq_map_conv)

lemma parseStorePathSet_exact:
  "parseStorePathSet storeDir ss = Inr ps \<longleftrightarrow> oset_ok ps \<and> Inr ` set ps = parseStorePath storeDir ` set ss"
proof
  assume "parseStorePathSet storeDir ss = Inr ps"
  then obtain ys where ys: "map (parseStorePath storeDir) ss = map Inr ys" "ps = oset_of ys"
    by (auto simp: parseStorePathSet_def bindr_eq_Inr_iff mapr_exact)
  have "Inr ` set ys = parseStorePath storeDir ` set ss" using arg_cong [OF ys(1), of set, symmetric] by simp
  then show "oset_ok ps \<and> Inr ` set ps = parseStorePath storeDir ` set ss" using ys(2) by simp
next
  assume ps: "oset_ok ps \<and> Inr ` set ps = parseStorePath storeDir ` set ss"
  then have ex: "\<exists>y. parseStorePath storeDir s = Inr y" if "s \<in> set ss" for s using that by (metis imageE imageI)
  define ys where "ys = map (\<lambda>s. projr (parseStorePath storeDir s)) ss"
  have ys: "map (parseStorePath storeDir) ss = map Inr ys" using ex by (fastforce simp: ys_def)
  have "Inr ` set ps = (Inr ` set ys :: StorePath result set)" using ps arg_cong [OF ys, of set] by simp
  then have "oset_of ys = ps" using ps by (intro oset_eq_iff) (auto simp: inj_image_eq_iff)
  then show "parseStorePathSet storeDir ss = Inr ps"
    using ys by (simp add: parseStorePathSet_def mapr_exact [THEN iffD2])
qed

lemma parseDerivation_start_exact: "parseDerivation_start s = Inr r \<longleftrightarrow> s = ''Derive('' @ r"
  by (auto simp: parseDerivation_start_def expectWithErrorMsg_def prefix_def bindr_eq_Inr_iff split: if_splits)

lemma parseDerivation_text:
  assumes "derivation_text storeDir drv t"
  shows "parseDerivation storeDir (t @ rest) (drvName drv) = Inr drv"
  using assms
proof cases
  case (1 outs t1 drvs t2 srcs t3 t4 t5 t6 vars t7)
  have outs: "parseOutputs_loop storeDir [] (t1 @ r) = Inr (outputs drv, r)" for r
    using outputs_grammar.loop_text [OF 1(2)] emplaced_map [of "outputs drv" outs] 1 by simp
  have drvs: "parseInputDrvs_loop storeDir [] (t2 @ r) = Inr (inputDrvs drv, r)" for r
    using inputs_grammar.loop_text [OF 1(5)] assigned_map [of "inputDrvs drv" drvs] 1 by simp
  have srcs: "parseStrings True (''['' @ t3 @ r) = Inr (oset_of srcs, r)" for r
    using 1(8) by (auto simp: parseStrings_exact)
  have set: "parseStorePathSet storeDir (oset_of srcs) = Inr (inputSrcs drv)"
    using 1 by (simp add: parseStorePathSet_exact)
  have args: "parseArgs_loop [] (t6 @ r) = Inr (drv_args drv, r)" for r
    using args_grammar.loop_text [OF 1(13)] by (simp add: fold_push_back)
  have env: "parseEnv_loop [] (t7 @ r) = Inr (env drv, r)" for r
    using env_grammar.loop_text [OF 1(14)] assigned_map [of "env drv" vars] 1 by simp
  have start: "parseDerivation_start (''Derive('' @ r) = Inr r" for r
    by (simp add: parseDerivation_start_exact)
  show ?thesis
    using start [of "''['' @ t1 @ '',['' @ t2 @ '',['' @ t3 @ '','' @ t4 @ '','' @ t5 @ '',['' @ t6 @ '',['' @ t7 @ '')'' @ rest"]
      outs drvs srcs set args env parseString_text [OF 1(11)] parseString_text [OF 1(12)] 1(1)
    by (simp add: parseDerivation_def expect_exact [THEN iffD2])
qed

lemma parseDerivation_accepts:
  assumes "parseDerivation storeDir s name = Inr drv"
  shows "drvName drv = name \<and> (\<exists>t rest. s = t @ rest \<and> derivation_text storeDir drv t)"
proof -
  obtain t1 outs t2 drvs t3 srcs ss t4 t5 t6 t7 vars rest where
    s: "s = ''Derive(['' @ t1 @ '',['' @ t2 @ '',['' @ t3 @ '','' @ t4 @ '','' @ t5 @ '',['' @ t6 @ '',['' @ t7 @ '')'' @ rest"
    and name: "drvName drv = name"
    and t: "list_text (output_text storeDir) outs t1" "outputs drv = fold (\<lambda>x. omap_emplace (fst x) (snd x)) outs []"
      "list_text (input_text storeDir) drvs t2" "inputDrvs drv = fold (\<lambda>x. omap_assign (fst x) (snd x)) drvs []"
      "list_text path_text srcs t3" "set ss = set srcs" "parseStorePathSet storeDir ss = Inr (inputSrcs drv)"
      "string_text (platform drv) t4" "string_text (builder drv) t5" "list_text string_text (drv_args drv) t6"
      "list_text env_text vars t7" "env drv = fold (\<lambda>x. omap_assign (fst x) (snd x)) vars []"
    using assms
    by (clarsimp simp: parseDerivation_def bindr_eq_Inr_iff parseDerivation_start_exact expect_exact parseString_exact
        parseStrings_exact outputs_grammar.loop_exact inputs_grammar.loop_exact args_grammar.loop_exact
        env_grammar.loop_exact fold_push_back)
  let ?t = "''Derive(['' @ t1 @ '',['' @ t2 @ '',['' @ t3 @ '','' @ t4 @ '','' @ t5 @ '',['' @ t6 @ '',['' @ t7 @ '')''"
  note maps = emplaced_map [THEN iffD1, OF t(2)] assigned_map [THEN iffD1, OF t(4)] assigned_map [THEN iffD1, OF t(12)]
  have "oset_ok (inputSrcs drv)" "Inr ` set (inputSrcs drv) = parseStorePath storeDir ` set srcs"
    using t(6,7) by (simp_all add: parseStorePathSet_exact)
  then have "derivation_text storeDir drv ?t"
    using t maps by (intro derivation_text.intros) simp_all
  moreover have "s = ?t @ rest" using s by simp
  ultimately show ?thesis using name by blast
qed

section \<open>The type of a derivation\<close>

lemma oset_of_Nil_iff: "oset_of xs = [] \<longleftrightarrow> xs = []"
  by (metis set_empty set_oset_of)

lemma filter_single:
  assumes "distinct (map fst m)" and "length (oset_of (map fst m)) \<le> 1" and "m \<noteq> []"
  shows "\<exists>k v. m = [(k, v)]"
proof -
  have "length (oset_of (map fst m)) = card (set (map fst m))"
    using distinct_card [OF oset_ok_distinct [OF oset_ok_oset_of, of "map fst m"]] by simp
  also have "\<dots> = length m" using assms(1) distinct_card by fastforce
  finally have "length m = 1" using assms(2,3) by (cases m) auto
  then show ?thesis by (cases m) auto
qed

lemma drv_type_input:
  "drv_type drv = Inr TypeInputAddressed \<longleftrightarrow>
     outputs drv \<noteq> [] \<and> (\<forall>out \<in> set (outputs drv). is_input_addressed (snd out))"
proof -
  let ?inp = "filter (\<lambda>(_, out). is_input_addressed out) (outputs drv)"
  let ?fix = "filter (\<lambda>(_, out). \<not> is_input_addressed out) (outputs drv)"
  have "drv_type drv = Inr TypeInputAddressed \<longleftrightarrow> ?inp \<noteq> [] \<and> ?fix = []"
    by (simp add: drv_type_def Let_def oset_of_Nil_iff)
  also have "\<dots> \<longleftrightarrow> outputs drv \<noteq> [] \<and> (\<forall>out \<in> set (outputs drv). is_input_addressed (snd out))"
    by (cases "outputs drv") (force simp: filter_empty_conv)+
  finally show ?thesis .
qed

lemma drv_type_fixed:
  assumes "omap_ok (outputs drv)"
  shows "drv_type drv = Inr TypeContentAddressed \<longleftrightarrow> (\<exists>ca. outputs drv = [(''out'', CAFixed ca)])"
proof
  assume t: "drv_type drv = Inr TypeContentAddressed"
  then have "filter (\<lambda>(_, out). is_input_addressed out) (outputs drv) = []"
    by (auto simp: drv_type_def Let_def oset_of_Nil_iff split: if_splits)
  then have all: "filter (\<lambda>(_, out). \<not> is_input_addressed out) (outputs drv) = outputs drv"
    by (auto simp: filter_empty_conv filter_id_conv)
  have len: "length (oset_of (map fst (outputs drv))) \<le> 1" "outputs drv \<noteq> []" "hd (oset_of (map fst (outputs drv))) = ''out''"
    using t unfolding drv_type_def Let_def all by (auto simp: oset_of_Nil_iff split: if_splits)
  have "distinct (map fst (outputs drv))" using assms by (simp add: omap_ok_def strict_sorted_iff)
  then obtain k v where kv: "outputs drv = [(k, v)]" using filter_single len by blast
  then have "k = ''out''" using len(3) by (simp add: oset_of_def)
  moreover have "\<not> is_input_addressed v" using kv all by (auto split: if_splits)
  ultimately show "\<exists>ca. outputs drv = [(''out'', CAFixed ca)]" using kv by (cases v) auto
qed (auto simp: drv_type_def Let_def oset_of_def)

section \<open>Properties\<close>

text \<open>C9: A well-formed derivation is printed, and parsing the text under its name gives the derivation back: outputs,
  input derivations and sources, platform, builder, arguments and environment, whatever characters the
  builder, the arguments and the environment contain.\<close>

theorem derivation_aterm_roundtrip:
  assumes "canonical storeDir" and "plain storeDir" and "drv_ok digest storeDir drv"
  shows "\<exists>s. unparse digest storeDir False None drv = Inr s \<and> parseDerivation storeDir s (drvName drv) = Inr drv"
  using unparse_ok [OF assms(3)] parseDerivation_unparse [OF assms] by blast

definition example_derivation :: Derivation where
  "example_derivation =
     \<lparr>outputs = [(''dev'', InputAddressed (StorePath ''ffffffffffffffffffffffffffffffff-x-dev'')), (''out'', InputAddressed example_path)],
      inputSrcs = [example_path], platform = ''x86_64-linux'', builder = ''/bin/sh'', drv_args = [''-c'', [CHR 0x22, CHR 0x0A]],
      env = [(''PATH'', ''/bin'')], drvName = ''x'',
      inputDrvs = [(StorePath ''ffffffffffffffffffffffffffffffff-y.drv'', [''out''])]\<rparr>"

theorem derivation_aterm_roundtrip_witness:
  "drv_ok zero_digest ''/nix/store'' example_derivation
   \<and> (\<exists>s. unparse zero_digest ''/nix/store'' False None example_derivation = Inr s
        \<and> parseDerivation ''/nix/store'' s ''x'' = Inr example_derivation)"
proof -
  have c: "canonical ''/nix/store''" "plain ''/nix/store''" "drv_ok zero_digest ''/nix/store'' example_derivation"
    by code_simp+
  have "drvName example_derivation = ''x''" by (simp add: example_derivation_def)
  then show ?thesis using derivation_aterm_roundtrip [OF c] c by simp
qed

text \<open>C34: The parser accepts a text and returns a derivation exactly if the derivation has the name asked for and the text
  starts with a text of the derivation in the grammar: every bracket, comma and quote in its place, the fields in their order,
  every escape undone, every path absolute and in the store, every output an input-addressed path or a fixed hash of a known
  type, duplicates resolved for the first output and the last input or variable. What follows the closing parenthesis is
  ignored.\<close>

theorem derivation_grammar_exact:
  "parseDerivation storeDir s name = Inr drv \<longleftrightarrow>
     drvName drv = name \<and> (\<exists>t rest. s = t @ rest \<and> derivation_text storeDir drv t)"
  using parseDerivation_accepts parseDerivation_text by blast

definition sample_aterm :: string where
  "sample_aterm = ''Derive([('' @ printString ''out'' @ '','' @ printString ''/nix/store/00000000000000000000000000000000-x''
     @ '','' @ printString ''r:md5'' @ '','' @ printString ''00000000000000000000000000000000'' @ '')],[,(''
     @ printString ''/nix/store/ffffffffffffffffffffffffffffffff-y.drv'' @ '',['' @ printString ''out'' @ printString ''dev''
     @ ''])],['' @ printString ''/nix/store/ffffffffffffffffffffffffffffffff-x'' @ ''],'' @ printString ''x86_64-linux''
     @ '','' @ printString ''/bin/sh'' @ '',['' @ printString ''-c'' @ ''],[('' @ printString ''a'' @ '','' @ printString ''1''
     @ ''),('' @ printString ''a'' @ '','' @ printString ''2'' @ '')]) and more''"

definition sample_drv :: Derivation where
  "sample_drv =
     \<lparr>outputs = [(''out'', CAFixed \<lparr>ca_method = FileIngestion Recursive, ca_hash = zeroHash 16 MD5\<rparr>)],
      inputSrcs = [example_path], platform = ''x86_64-linux'', builder = ''/bin/sh'', drv_args = [''-c''],
      env = [(''a'', ''2'')], drvName = ''x'',
      inputDrvs = [(StorePath ''ffffffffffffffffffffffffffffffff-y.drv'', [''dev'', ''out''])]\<rparr>"

theorem derivation_grammar_exact_witness:
  "parseDerivation ''/nix/store'' sample_aterm ''x'' = Inr sample_drv
   \<and> (\<exists>t rest. sample_aterm = t @ rest \<and> derivation_text ''/nix/store'' sample_drv t)"
proof -
  have p: "parseDerivation ''/nix/store'' sample_aterm ''x'' = Inr sample_drv" by code_simp
  then show ?thesis using derivation_grammar_exact [of "''/nix/store''" sample_aterm "''x''" sample_drv] by simp
qed

text \<open>A derivation is of the fixed-output type exactly if its only output is called \<^verbatim>\<open>out\<close> and fixed, and of the
  input-addressed type exactly if it has outputs and all of them are input-addressed; everything else is an error.\<close>

theorem derivation_type_exact:
  assumes "omap_ok (outputs drv)"
  shows "(drv_type drv = Inr TypeContentAddressed \<longleftrightarrow> (\<exists>ca. outputs drv = [(''out'', CAFixed ca)]))
    \<and> (drv_type drv = Inr TypeInputAddressed \<longleftrightarrow>
        outputs drv \<noteq> [] \<and> list_all (\<lambda>out. is_input_addressed (snd out)) (outputs drv))"
  using drv_type_fixed [OF assms] drv_type_input [of drv] by (simp add: list_all_iff)

theorem derivation_type_exact_witness:
  "drv_type example_derivation = Inr TypeInputAddressed"
proof -
  have ok: "omap_ok (outputs example_derivation)" by code_simp
  have "outputs example_derivation \<noteq> [] \<and> list_all (\<lambda>out. is_input_addressed (snd out)) (outputs example_derivation)"
    by code_simp
  then show ?thesis using derivation_type_exact [OF ok] by blast
qed

text \<open>
  The platform is printed without escapes, so one with a quote is not read back; and a string
  literal without its closing quote makes the parser step over the end of its input.
\<close>

lemma platform_not_escaped:
  "bindr (unparse zero_digest ''/nix/store'' False None (example_derivation\<lparr>platform := [CHR 0x22]\<rparr>))
     (\<lambda>s. parseDerivation ''/nix/store'' s ''x'') = Inl (FormatError ''expected string'')"
  by code_simp

lemma unterminated_string: "parseString [CHR 0x22, CHR ''a''] = Inl (UndefinedBehaviour ''remove_prefix past the end'')"
  by code_simp

end
