(* ===== verification/Lix_Protocol.thy ===== *)
theory Lix_Protocol
  imports Lix_Serialise Lix_Derivations Lix_Outputs_Spec
begin

text \<open>
  The serialisers of the protocols between client and daemon: the length-prefixed containers of
  \<^verbatim>\<open>libstore/length-prefixed-protocol-helper.hh\<close>, the common part \<^verbatim>\<open>libstore/common-protocol.cc\<close>, the
  derivations of \<^verbatim>\<open>libstore/derivations.cc\<close> and the simple types of \<^verbatim>\<open>libstore/worker-protocol.cc\<close>. A reader
  takes the operation that obtains an exact number of bytes, as in \<^verbatim>\<open>Lix_Serialise\<close>. A 64-bit time is an
  integer; what is sent of a negative one is its two's complement. Realisations travel as JSON
  and are not modelled.
\<close>

section \<open>Length-prefixed containers\<close>

text \<open>The loop \<^verbatim>\<open>while (size--)\<close> with the operation that puts an item into the container.\<close>

fun readItems ::
    "('s \<Rightarrow> ('a \<times> 's) result) \<Rightarrow> ('a \<Rightarrow> 'r \<Rightarrow> 'r) \<Rightarrow> nat \<Rightarrow> 'r \<Rightarrow> 's \<Rightarrow> ('r \<times> 's) result" where
  "readItems rd ins 0 res s = Inr (res, s)"
| "readItems rd ins (Suc n) res s = bindr (rd s) (\<lambda>(x, s). readItems rd ins n (ins x res) s)"

definition readVector :: "'s bytes_of \<Rightarrow> ('s \<Rightarrow> ('a \<times> 's) result) \<Rightarrow> 's \<Rightarrow> ('a list \<times> 's) result" where
  "readVector src rd s =
     bindr (readNum src max_size s) (\<lambda>(n, s). readItems rd (\<lambda>x res. res @ [x]) n [] s)"

definition readSet :: "'s bytes_of \<Rightarrow> ('s \<Rightarrow> ('a::linorder \<times> 's) result) \<Rightarrow> 's \<Rightarrow> ('a oset \<times> 's) result" where
  "readSet src rd s = bindr (readNum src max_size s) (\<lambda>(n, s). readItems rd oset_insert n [] s)"

definition readPair ::
    "('s \<Rightarrow> ('k \<times> 's) result) \<Rightarrow> ('s \<Rightarrow> ('v \<times> 's) result) \<Rightarrow> 's \<Rightarrow> (('k \<times> 'v) \<times> 's) result" where
  "readPair rdk rdv s = bindr (rdk s) (\<lambda>(k, s). bindr (rdv s) (\<lambda>(v, s). Inr ((k, v), s)))"

definition readMap ::
    "'s bytes_of \<Rightarrow> ('s \<Rightarrow> ('k::linorder \<times> 's) result) \<Rightarrow> ('s \<Rightarrow> ('v \<times> 's) result) \<Rightarrow> 's \<Rightarrow> (('k, 'v) omap \<times> 's) result" where
  "readMap src rdk rdv s =
     bindr (readNum src max_size s) (\<lambda>(n, s).
     readItems (readPair rdk rdv) (\<lambda>x. omap_assign (fst x) (snd x)) n [] s)"

definition writeVector :: "('a \<Rightarrow> string) \<Rightarrow> 'a list \<Rightarrow> string" where
  "writeVector wr resSet = putNum (word_of_nat (length resSet)) @ concat (map wr resSet)"

definition writeSet :: "('a \<Rightarrow> string) \<Rightarrow> 'a oset \<Rightarrow> string" where
  "writeSet wr resSet = putNum (word_of_nat (length resSet)) @ concat (map wr resSet)"

definition writePair :: "('k \<Rightarrow> string) \<Rightarrow> ('v \<Rightarrow> string) \<Rightarrow> 'k \<times> 'v \<Rightarrow> string" where
  "writePair wrk wrv kv = wrk (fst kv) @ wrv (snd kv)"

definition writeMap :: "('k \<Rightarrow> string) \<Rightarrow> ('v \<Rightarrow> string) \<Rightarrow> ('k, 'v) omap \<Rightarrow> string" where
  "writeMap wrk wrv resMap = putNum (word_of_nat (length resMap)) @ concat (map (writePair wrk wrv) resMap)"

section \<open>The common protocol\<close>

definition read_string :: "'s bytes_of \<Rightarrow> 's \<Rightarrow> (string \<times> 's) result" where
  "read_string src s = readString src max_size s"

definition read_StorePath :: "'s bytes_of \<Rightarrow> string \<Rightarrow> 's \<Rightarrow> (StorePath \<times> 's) result" where
  "read_StorePath src storeDir s =
     bindr (readString src max_size s) (\<lambda>(x, s). bindr (parseStorePath storeDir x) (\<lambda>p. Inr (p, s)))"

definition write_StorePath :: "string \<Rightarrow> StorePath \<Rightarrow> string" where
  "write_StorePath storeDir storePath = putString (printStorePath storeDir storePath)"

definition read_ContentAddress :: "'s bytes_of \<Rightarrow> 's \<Rightarrow> (ContentAddress \<times> 's) result" where
  "read_ContentAddress src s =
     bindr (readString src max_size s) (\<lambda>(x, s). bindr (ca_parse x) (\<lambda>ca. Inr (ca, s)))"

definition write_ContentAddress :: "ContentAddress \<Rightarrow> string" where
  "write_ContentAddress ca = putString (renderContentAddress (Some ca))"

definition read_StorePathOpt :: "'s bytes_of \<Rightarrow> string \<Rightarrow> 's \<Rightarrow> (StorePath option \<times> 's) result" where
  "read_StorePathOpt src storeDir s =
     bindr (readString src max_size s) (\<lambda>(x, s).
     if x = [] then Inr (None, s) else bindr (parseStorePath storeDir x) (\<lambda>p. Inr (Some p, s)))"

definition write_StorePathOpt :: "string \<Rightarrow> StorePath option \<Rightarrow> string" where
  "write_StorePathOpt storeDir storePathOpt =
     putString (case storePathOpt of Some p \<Rightarrow> printStorePath storeDir p | None \<Rightarrow> [])"

definition read_ContentAddressOpt :: "'s bytes_of \<Rightarrow> 's \<Rightarrow> (ContentAddress option \<times> 's) result" where
  "read_ContentAddressOpt src s =
     bindr (readString src max_size s) (\<lambda>(x, s). bindr (ca_parseOpt x) (\<lambda>ca. Inr (ca, s)))"

definition write_ContentAddressOpt :: "ContentAddress option \<Rightarrow> string" where
  "write_ContentAddressOpt caOpt = putString (if caOpt \<noteq> None then renderContentAddress caOpt else [])"

text \<open>\<^verbatim>\<open>DrvOutput\<close>, \<^verbatim>\<open>libstore/realisation.cc\<close>: an output of a derivation given by its hash.\<close>

record DrvOutput =
  drvHash :: Hash
  outputName :: string

definition drvOutput_parse :: "string \<Rightarrow> DrvOutput result" where
  "drvOutput_parse strRep =
     (case splitPrefixTo strRep (CHR ''!'') of
        (None, _) \<Rightarrow> Inl (Error ''Invalid derivation output id %s'')
      | (Some pre, rest) \<Rightarrow> bindr (parseAnyPrefixed pre) (\<lambda>h. Inr \<lparr>drvHash = h, outputName = rest\<rparr>))"

definition drvOutput_to_string :: "DrvOutput \<Rightarrow> string" where
  "drvOutput_to_string d = to_base16 (drvHash d) @ ''!'' @ outputName d"

definition read_DrvOutput :: "'s bytes_of \<Rightarrow> 's \<Rightarrow> (DrvOutput \<times> 's) result" where
  "read_DrvOutput src s = bindr (readString src max_size s) (\<lambda>(x, s). bindr (drvOutput_parse x) (\<lambda>d. Inr (d, s)))"

definition write_DrvOutput :: "DrvOutput \<Rightarrow> string" where
  "write_DrvOutput d = putString (drvOutput_to_string d)"

section \<open>Derivations\<close>

definition readDerivationOutput :: "'s bytes_of \<Rightarrow> string \<Rightarrow> 's \<Rightarrow> (DerivationOutput \<times> 's) result" where
  "readDerivationOutput src storeDir s =
     bindr (readString src max_size s) (\<lambda>(pathS, s).
     bindr (readString src max_size s) (\<lambda>(hashAlgo, s).
     bindr (readString src max_size s) (\<lambda>(hash, s).
     bindr (parseDerivationOutput storeDir pathS hashAlgo hash) (\<lambda>out. Inr (out, s)))))"

text \<open>
  \<^verbatim>\<open>readDerivation\<close> fills an object of its caller, whose outputs it clears and to whose environment it adds; every caller
  passes a fresh object, so the environment starts empty.
\<close>

definition readDerivation :: "'s bytes_of \<Rightarrow> string \<Rightarrow> string \<Rightarrow> 's \<Rightarrow> (BasicDerivation \<times> 's) result" where
  "readDerivation src storeDir name s =
     bindr (readNum src max_size s) (\<lambda>(nr, s).
     bindr (readItems (readPair (readString src max_size) (readDerivationOutput src storeDir))
              (\<lambda>x. omap_emplace (fst x) (snd x)) nr [] s) (\<lambda>(outs, s).
     bindr (readSet src (read_StorePath src storeDir) s) (\<lambda>(srcs, s).
     bindr (readString src max_size s) (\<lambda>(plat, s).
     bindr (readString src max_size s) (\<lambda>(bldr, s).
     bindr (readStrings src s) (\<lambda>(args, s).
     bindr (readNum src max_size s) (\<lambda>(nr, s).
     bindr (readItems (readPair (readString src max_size) (readString src max_size))
              (\<lambda>x. omap_assign (fst x) (snd x)) nr [] s) (\<lambda>(vars, s).
     Inr (\<lparr>outputs = outs, inputSrcs = srcs, platform = plat, builder = bldr, drv_args = args, env = vars,
           drvName = name\<rparr>, s)))))))))"

definition output_strings ::
    "digest \<Rightarrow> string \<Rightarrow> string \<Rightarrow> string \<times> DerivationOutput \<Rightarrow> (string \<times> string \<times> string) result" where
  "output_strings digest storeDir name i =
     (case snd i of
        InputAddressed path \<Rightarrow> Inr (printStorePath storeDir path, [], [])
      | CAFixed ca \<Rightarrow>
          bindr (output_path digest storeDir name (fst i) (CAFixed ca)) (\<lambda>p.
          Inr (printStorePath storeDir p, printMethodAlgo ca, base16Encode (hash_data (ca_hash ca)))))"

definition serializeOutput :: "digest \<Rightarrow> string \<Rightarrow> string \<Rightarrow> string \<times> DerivationOutput \<Rightarrow> string result" where
  "serializeOutput digest storeDir name i =
     bindr (output_strings digest storeDir name i) (\<lambda>(path, algo, hash).
     Inr (putString (fst i) @ putString path @ putString algo @ putString hash))"

definition serializeDerivation :: "digest \<Rightarrow> string \<Rightarrow> 'a BasicDerivation_scheme \<Rightarrow> string result" where
  "serializeDerivation digest storeDir drv =
     bindr (mapr (serializeOutput digest storeDir (drvName drv)) (outputs drv)) (\<lambda>outs.
     Inr (putNum (word_of_nat (length (outputs drv))) @ concat outs
       @ writeSet (write_StorePath storeDir) (inputSrcs drv)
       @ putString (platform drv)
       @ putString (builder drv)
       @ putStrings (drv_args drv)
       @ putNum (word_of_nat (length (env drv)))
       @ concat (map (writePair putString putString) (env drv))))"

section \<open>Simple types of the worker protocol\<close>

datatype TrustedFlag = NotTrusted | Trusted

definition max_uint8 :: nat where
  "max_uint8 = 255"

definition read_TrustedFlagOpt :: "'s bytes_of \<Rightarrow> 's \<Rightarrow> (TrustedFlag option \<times> 's) result" where
  "read_TrustedFlagOpt src s =
     bindr (readNum src max_uint8 s) (\<lambda>(temp, s).
     if temp = 0 then Inr (None, s)
     else if temp = 1 then Inr (Some Trusted, s)
     else if temp = 2 then Inr (Some NotTrusted, s)
     else Inl (Error ''Invalid trusted status from remote''))"

fun write_TrustedFlagOpt :: "TrustedFlag option \<Rightarrow> string" where
  "write_TrustedFlagOpt None = putNum 0"
| "write_TrustedFlagOpt (Some Trusted) = putNum 1"
| "write_TrustedFlagOpt (Some NotTrusted) = putNum 2"

definition read_DerivedPath :: "'s bytes_of \<Rightarrow> string \<Rightarrow> 's \<Rightarrow> (DerivedPath \<times> 's) result" where
  "read_DerivedPath src storeDir s =
     bindr (readString src max_size s) (\<lambda>(x, s). bindr (parseLegacy storeDir x) (\<lambda>p. Inr (p, s)))"

definition write_DerivedPath :: "string \<Rightarrow> DerivedPath \<Rightarrow> string" where
  "write_DerivedPath storeDir req = putString (dp_to_string_legacy storeDir req)"

section \<open>Reading back\<close>

text \<open>
  Items that are self-delimiting over a stream of exact bytes make self-delimiting containers: one
  lemma for the loop, and the containers are instances of it.
\<close>

locale proto_items = exact_bytes src + wire put get ok
  for src :: "string bytes_of" and put :: "'a \<Rightarrow> string" and get :: "string \<Rightarrow> ('a \<times> string) result"
    and ok :: "'a \<Rightarrow> bool"
begin

lemma readItems_put:
  "\<forall>x \<in> set xs. ok x \<Longrightarrow> readItems get ins (length xs) res (concat (map put xs) @ r) = Inr (fold ins xs res, r)"
  by (induction xs arbitrary: res) (auto simp: get_put)

lemma readCount:
  "length xs \<le> max_size \<Longrightarrow> readNum src max_size (putNum (word_of_nat (length xs)) @ r) = Inr (length xs, r)"
  by (rule readNum_of_nat) simp_all

lemma readVector_put:
  "length xs \<le> max_size \<Longrightarrow> \<forall>x \<in> set xs. ok x \<Longrightarrow> readVector src get (writeVector put xs @ r) = Inr (xs, r)"
  by (simp add: readVector_def writeVector_def readCount readItems_put fold_push_back)

lemma readMapItems_put:
  "length m \<le> max_size \<Longrightarrow> \<forall>x \<in> set m. ok x \<Longrightarrow>
   bindr (readNum src max_size (putNum (word_of_nat (length m)) @ concat (map put m) @ r))
     (\<lambda>(n, s). readItems get ins n res s) = Inr (fold ins m res, r)"
  by (simp add: readCount readItems_put)

end

locale proto_set = proto_items src put get ok
  for src :: "string bytes_of" and put :: "'a::linorder \<Rightarrow> string" and get :: "string \<Rightarrow> ('a \<times> string) result"
    and ok :: "'a \<Rightarrow> bool"
begin

lemma readSet_put:
  "length xs \<le> max_size \<Longrightarrow> oset_ok xs \<Longrightarrow> \<forall>x \<in> set xs. ok x \<Longrightarrow> readSet src get (writeSet put xs @ r) = Inr (xs, r)"
  using oset_of_sorted [of xs] by (simp add: readSet_def writeSet_def readCount readItems_put oset_of_def)

end

text \<open>Two self-delimiting formats one after the other.\<close>

locale wire_pair = fst: wire putk getk okk + snd: wire putv getv okv
  for putk :: "'k \<Rightarrow> 'c list" and getk and okk and putv :: "'v \<Rightarrow> 'c list" and getv and okv

sublocale wire_pair \<subseteq> pair: wire "\<lambda>kv. putk (fst kv) @ putv (snd kv)" "readPair getk getv" "\<lambda>kv. okk (fst kv) \<and> okv (snd kv)"
  by unfold_locales (auto simp: readPair_def fst.get_put snd.get_put)

abbreviation str_ok :: "string \<Rightarrow> bool" where
  "str_ok x \<equiv> length x \<le> max_size"

text \<open>A textual format sent as a string.\<close>

locale proto_string = exact_bytes src + codec enc dec ok
  for src :: "string bytes_of" and enc :: "'a \<Rightarrow> string" and dec :: "string \<Rightarrow> 'a result" and ok :: "'a \<Rightarrow> bool"

sublocale proto_string \<subseteq> sent: wire "\<lambda>x. putString (enc x)"
  "\<lambda>s. bindr (readString src max_size s) (\<lambda>(x, s). bindr (dec x) (\<lambda>y. Inr (y, s)))" "\<lambda>x. ok x \<and> str_ok (enc x)"
  by unfold_locales (auto simp: readString_putString dec_enc)

interpretation path_sent: proto_string source_bytes "printStorePath storeDir" "parseStorePath storeDir"
  "\<lambda>p. canonical storeDir \<and> sp_ok p" for storeDir
  by unfold_locales (simp add: parse_sp_ok)

interpretation ca_sent: proto_string source_bytes ca_render ca_parse "\<lambda>ca. hash_ok (ca_hash ca)"
  by unfold_locales

lemma read_write_StorePath:
  "canonical storeDir \<Longrightarrow> sp_ok p \<Longrightarrow> str_ok (printStorePath storeDir p) \<Longrightarrow>
   read_StorePath source_bytes storeDir (write_StorePath storeDir p @ r) = Inr (p, r)"
  using path_sent.sent.get_put [of storeDir p r] by (simp add: read_StorePath_def write_StorePath_def)

interpretation path_items: proto_set source_bytes "write_StorePath storeDir" "read_StorePath source_bytes storeDir"
  "\<lambda>p. canonical storeDir \<and> sp_ok p \<and> str_ok (printStorePath storeDir p)" for storeDir
  by unfold_locales (simp add: read_write_StorePath)

interpretation string_pair: wire_pair putString "readString source_bytes max_size" str_ok
  putString "readString source_bytes max_size" str_ok
  by unfold_locales

interpretation env_items: proto_items source_bytes "writePair putString putString"
  "readPair (readString source_bytes max_size) (readString source_bytes max_size)"
  "\<lambda>kv. str_ok (fst kv) \<and> str_ok (snd kv)"
  using string_pair.pair.wire_axioms source_bytes.exact_bytes_axioms
  by (intro proto_items.intro) (simp_all add: writePair_def [abs_def])

definition sent_output_ok :: "digest \<Rightarrow> string \<Rightarrow> string \<Rightarrow> string \<times> DerivationOutput \<Rightarrow> bool" where
  "sent_output_ok digest storeDir name out \<longleftrightarrow>
     canonical storeDir \<and> plain storeDir \<and> output_ok digest storeDir name out \<and> str_ok (fst out)
     \<and> (case output_strings digest storeDir name out of
          Inl e \<Rightarrow> True | Inr (p, a, h) \<Rightarrow> str_ok p \<and> str_ok a \<and> str_ok h)"

definition sent_output :: "digest \<Rightarrow> string \<Rightarrow> string \<Rightarrow> string \<times> DerivationOutput \<Rightarrow> string" where
  "sent_output digest storeDir name out = (case serializeOutput digest storeDir name out of Inr s \<Rightarrow> s | Inl _ \<Rightarrow> [])"

lemma output_strings_ok:
  assumes "canonical storeDir" and "output_ok digest storeDir name out"
  shows "\<exists>p a h. output_strings digest storeDir name out = Inr (p, a, h)
    \<and> parseDerivationOutput storeDir p a h = Inr (snd out)"
proof (cases "snd out")
  case (InputAddressed p)
  moreover have "sp_ok p" using assms(2) InputAddressed by (cases out) simp
  ultimately show ?thesis
    using parseDerivationOutput_input [OF assms(1)] by (simp add: output_strings_def)
next
  case (CAFixed ca)
  obtain i where out: "out = (i, CAFixed ca)" using CAFixed by (cases out) auto
  obtain p where p: "output_path digest storeDir name i (CAFixed ca) = Inr p"
    using assms(2) out by (cases "output_path digest storeDir name i (CAFixed ca)") auto
  then show ?thesis
    using parseDerivationOutput_fixed [of "printStorePath storeDir p" ca storeDir] assms(2) out
      printStorePath_absolute [OF assms(1), of p] by (simp add: output_strings_def)
qed

lemma serializeOutput_ok:
  assumes "sent_output_ok digest storeDir name out"
  shows "serializeOutput digest storeDir name out = Inr (sent_output digest storeDir name out)
    \<and> readPair (readString source_bytes max_size) (readDerivationOutput source_bytes storeDir)
        (sent_output digest storeDir name out @ r) = Inr (out, r)"
proof -
  have ok: "canonical storeDir" "output_ok digest storeDir name out" using assms by (auto simp: sent_output_ok_def)
  obtain p a h where pah: "output_strings digest storeDir name out = Inr (p, a, h)"
    "parseDerivationOutput storeDir p a h = Inr (snd out)" using output_strings_ok [OF ok] by blast
  have len: "str_ok (fst out)" "str_ok p" "str_ok a" "str_ok h" using assms pah(1) by (auto simp: sent_output_ok_def)
  show ?thesis
    using pah len
    by (simp add: sent_output_def serializeOutput_def readPair_def readDerivationOutput_def source_bytes.readString_putString)
qed

interpretation output_items: proto_items source_bytes "sent_output digest storeDir name"
  "readPair (readString source_bytes max_size) (readDerivationOutput source_bytes storeDir)"
  "sent_output_ok digest storeDir name" for digest storeDir name
  by unfold_locales (use serializeOutput_ok in blast)

definition sent_drv_ok :: "digest \<Rightarrow> string \<Rightarrow> BasicDerivation \<Rightarrow> bool" where
  "sent_drv_ok digest storeDir drv \<longleftrightarrow>
     omap_ok (outputs drv) \<and> length (outputs drv) \<le> max_size
     \<and> (\<forall>out \<in> set (outputs drv). sent_output_ok digest storeDir (drvName drv) out)
     \<and> oset_ok (inputSrcs drv) \<and> length (inputSrcs drv) \<le> max_size
     \<and> (\<forall>p \<in> set (inputSrcs drv). sp_ok p \<and> str_ok (printStorePath storeDir p))
     \<and> str_ok (platform drv) \<and> str_ok (builder drv)
     \<and> length (drv_args drv) \<le> max_size \<and> (\<forall>x \<in> set (drv_args drv). str_ok x)
     \<and> omap_ok (env drv) \<and> length (env drv) \<le> max_size
     \<and> (\<forall>kv \<in> set (env drv). str_ok (fst kv) \<and> str_ok (snd kv))"

lemma readDerivation_serialize:
  assumes dir: "canonical storeDir" and ok: "sent_drv_ok digest storeDir drv"
  shows "\<exists>s. serializeDerivation digest storeDir drv = Inr s
    \<and> readDerivation source_bytes storeDir (drvName drv) (s @ r) = Inr (drv, r)"
proof -
  have outs: "mapr (serializeOutput digest storeDir (drvName drv)) (outputs drv)
      = Inr (map (sent_output digest storeDir (drvName drv)) (outputs drv))"
    using ok serializeOutput_ok by (intro mapr_Inr) (auto simp: sent_drv_ok_def)
  note len = output_items.readCount [of "outputs drv"] env_items.readCount [of "env drv"]
  have outs2: "readItems (readPair (readString source_bytes max_size) (readDerivationOutput source_bytes storeDir))
      (\<lambda>x. omap_emplace (fst x) (snd x)) (length (outputs drv)) []
      (concat (map (sent_output digest storeDir (drvName drv)) (outputs drv)) @ r') = Inr (outputs drv, r')" for r'
    using ok fold_emplace_sorted [of "[]" "outputs drv"] by (subst output_items.readItems_put) (auto simp: sent_drv_ok_def)
  have srcs: "readSet source_bytes (read_StorePath source_bytes storeDir)
      (writeSet (write_StorePath storeDir) (inputSrcs drv) @ r') = Inr (inputSrcs drv, r')" for r'
    using ok dir by (intro path_items.readSet_put) (auto simp: sent_drv_ok_def)
  have vars: "readItems (readPair (readString source_bytes max_size) (readString source_bytes max_size))
      (\<lambda>x. omap_assign (fst x) (snd x)) (length (env drv)) []
      (concat (map (writePair putString putString) (env drv)) @ r') = Inr (env drv, r')" for r'
    using ok fold_assign_sorted [of "[]" "env drv"] by (subst env_items.readItems_put) (auto simp: sent_drv_ok_def)
  have args: "readStrings source_bytes (putStrings (drv_args drv) @ r') = Inr (drv_args drv, r')" for r'
    using ok by (intro source_bytes.readStrings_putStrings) (auto simp: sent_drv_ok_def)
  have strs: "readString source_bytes max_size (putString (platform drv) @ r') = Inr (platform drv, r')"
    "readString source_bytes max_size (putString (builder drv) @ r') = Inr (builder drv, r')" for r'
    using ok by (auto intro!: source_bytes.readString_putString simp: sent_drv_ok_def)
  show ?thesis
    using ok unfolding serializeDerivation_def outs
    by (simp add: readDerivation_def len outs2 srcs vars args strs sent_drv_ok_def)
qed

lemma drvOutput_roundtrip:
  assumes "hash_ok (drvHash d)"
  shows "drvOutput_parse (drvOutput_to_string d) = Inr d"
proof -
  have "CHR ''!'' \<notin> set base16Chars" by code_simp
  have "CHR ''!'' \<notin> set (to_base16 h)" for h
  proof -
    have "CHR ''!'' \<notin> set (showHashType (hash_type h))" by (cases "hash_type h") simp_all
    moreover have "CHR ''!'' \<notin> set (base16Encode (hash_data h))"
      using base16Encode_subset [of "hash_data h"] \<open>CHR ''!'' \<notin> set base16Chars\<close> by blast
    ultimately show ?thesis by (simp add: to_base16_def)
  qed
  then show ?thesis
    using splitPrefixTo_append [of "CHR ''!''" "to_base16 (drvHash d)" "outputName d"] assms
    by (simp add: drvOutput_parse_def drvOutput_to_string_def parseAnyPrefixed_base16)
qed

section \<open>Properties\<close>

text \<open>C13: A derivation sent over the wire is received unchanged, and exactly its bytes are consumed.\<close>

theorem derivation_wire_roundtrip:
  assumes "canonical storeDir" and "sent_drv_ok digest storeDir drv"
  shows "\<exists>s. serializeDerivation digest storeDir drv = Inr s
    \<and> readDerivation source_bytes storeDir (drvName drv) (s @ r) = Inr (drv, r)"
  using assms by (rule readDerivation_serialize)

definition example_basic :: BasicDerivation where
  "example_basic =
     \<lparr>outputs = [(''out'', InputAddressed example_path)], inputSrcs = [example_path], platform = ''x86_64-linux'',
      builder = ''/bin/sh'', drv_args = [''-c''], env = [(''PATH'', ''/bin'')], drvName = ''x''\<rparr>"

theorem derivation_wire_roundtrip_witness:
  "\<exists>s. serializeDerivation zero_digest ''/nix/store'' example_basic = Inr s
     \<and> readDerivation source_bytes ''/nix/store'' ''x'' (s @ ''rest'') = Inr (example_basic, ''rest'')"
proof -
  have c: "canonical ''/nix/store''" by code_simp
  have p: "plain ''/nix/store''" "sp_ok example_path" "plain ''out''" by code_simp+
  have ok: "sent_drv_ok zero_digest ''/nix/store'' example_basic"
    using c p by (simp add: sent_drv_ok_def example_basic_def sent_output_ok_def output_strings_def max_size_def
        printStorePath_def example_path_def)
  have "drvName example_basic = ''x''" by (simp add: example_basic_def)
  then show ?thesis using derivation_wire_roundtrip [OF c ok, of "''rest''"] by simp
qed

end
