(* ===== verification/Lix_Crypto.thy ===== *)
theory Lix_Crypto
  imports Lix_Base_Encoding Lix_Strings
begin

text \<open>
  Keys and detached signatures, \<^verbatim>\<open>libstore/crypto.{hh,cc}\<close>. The Ed25519 operations of OpenSSL are the
  record \<open>ed25519\<close>: signing with a raw secret key, the outcome of a verification (\<^verbatim>\<open>Some True\<close> for 1,
  \<^verbatim>\<open>Some False\<close> for 0, \<^verbatim>\<open>None\<close> for an error), and the public key of a secret key. A failing call while
  signing or creating a key is not modelled. Keys and signatures are raw strings.
\<close>

record ed25519 =
  ed_sign :: "string \<Rightarrow> string \<Rightarrow> string"
  ed_verify :: "string \<Rightarrow> string \<Rightarrow> string \<Rightarrow> bool option"
  ed_public :: "string \<Rightarrow> string"

definition ED25519_KEY_BYTES :: nat where
  "ED25519_KEY_BYTES = 32"

definition ED25519_SIGNATURE_BYTES :: nat where
  "ED25519_SIGNATURE_BYTES = 64"

record SecretKey =
  sk_name :: string
  sk_raw :: string

record PublicKey =
  pk_name :: string
  pk_raw :: string

type_synonym PublicKeys = "(string, PublicKey) omap"

definition split_key :: "string \<Rightarrow> (string \<times> string) result" where
  "split_key s =
     (case splitPrefixTo s (CHR '':'') of
        (None, _) \<Rightarrow> Inr ([], [])
      | (Some name, rest) \<Rightarrow>
          if name = [] then Inr ([], []) else bindr (base64Decode rest) (\<lambda>d. Inr (name, d)))"

definition signDetached :: "ed25519 \<Rightarrow> SecretKey \<Rightarrow> string \<Rightarrow> string result" where
  "signDetached ed key data =
     (let sig = ed_sign ed (sk_raw key) data
      in if length sig \<noteq> ED25519_SIGNATURE_BYTES then Inl (AssertionFailed ''sig_bytes == ED25519_SIGNATURE_BYTES'')
         else Inr (sk_name key @ '':'' @ base64Encode sig))"

definition fromRaw :: "string \<Rightarrow> string \<Rightarrow> PublicKey result" where
  "fromRaw name raw =
     (if length raw \<noteq> ED25519_KEY_BYTES then Inl (Error ''public key is not valid'')
      else Inr \<lparr>pk_name = name, pk_raw = raw\<rparr>)"

definition toPublicKey :: "ed25519 \<Rightarrow> SecretKey \<Rightarrow> PublicKey result" where
  "toPublicKey ed key = fromRaw (sk_name key) (ed_public ed (sk_raw key))"

definition sk_to_string :: "ed25519 \<Rightarrow> SecretKey \<Rightarrow> string" where
  "sk_to_string ed key = sk_name key @ '':'' @ base64Encode (sk_raw key @ ed_public ed (sk_raw key))"

definition sk_parse :: "ed25519 \<Rightarrow> string \<Rightarrow> SecretKey result" where
  "sk_parse ed s =
     bindr (split_key s) (\<lambda>(name, raw_key).
     if length raw_key \<noteq> 2 * ED25519_KEY_BYTES then Inl (Error ''secret key is not valid'')
     else if ed_public ed (take ED25519_KEY_BYTES raw_key) \<noteq> drop ED25519_KEY_BYTES raw_key
     then Inl (Error ''secret key is not valid'')
     else Inr \<lparr>sk_name = name, sk_raw = take ED25519_KEY_BYTES raw_key\<rparr>)"

definition pk_verifyDetached :: "ed25519 \<Rightarrow> PublicKey \<Rightarrow> string \<Rightarrow> string \<Rightarrow> bool result" where
  "pk_verifyDetached ed key data sig =
     (if length sig \<noteq> ED25519_SIGNATURE_BYTES then Inl (Error ''signature is not valid'')
      else case ed_verify ed (pk_raw key) data sig of
             Some b \<Rightarrow> Inr b
           | None \<Rightarrow> Inl (Error ''signature verification failed''))"

definition pk_to_string :: "PublicKey \<Rightarrow> string" where
  "pk_to_string key = pk_name key @ '':'' @ base64Encode (pk_raw key)"

definition pk_parse :: "string \<Rightarrow> PublicKey result" where
  "pk_parse s = bindr (split_key s) (\<lambda>(name, raw). fromRaw name raw)"

definition verifyDetached :: "ed25519 \<Rightarrow> string \<Rightarrow> string \<Rightarrow> PublicKeys \<Rightarrow> bool result" where
  "verifyDetached ed data sig publicKeys =
     bindr (split_key sig) (\<lambda>(name, sig2).
     case map_of publicKeys name of
       None \<Rightarrow> Inr False
     | Some key \<Rightarrow> pk_verifyDetached ed key data sig2)"

section \<open>Keys and signatures read back\<close>

lemma split_key_join:
  "name \<noteq> [] \<Longrightarrow> CHR '':'' \<notin> set name \<Longrightarrow> split_key (name @ '':'' @ base64Encode d) = Inr (name, d)"
  using splitPrefixTo_append [of "CHR '':''" name "base64Encode d"] by (simp add: split_key_def base64Decode_base64Encode)

text \<open>What the code relies on of OpenSSL: the sizes of keys and signatures, and that a signature verifies.\<close>

definition ed_ok :: "ed25519 \<Rightarrow> bool" where
  "ed_ok ed \<longleftrightarrow>
     (\<forall>sk d. length sk = ED25519_KEY_BYTES \<longrightarrow>
        length (ed_sign ed sk d) = ED25519_SIGNATURE_BYTES \<and> length (ed_public ed sk) = ED25519_KEY_BYTES
        \<and> ed_verify ed (ed_public ed sk) d (ed_sign ed sk d) = Some True)"

definition key_name_ok :: "string \<Rightarrow> bool" where
  "key_name_ok name \<longleftrightarrow> name \<noteq> [] \<and> CHR '':'' \<notin> set name"

lemma sk_parse_to_string:
  assumes "ed_ok ed" and "key_name_ok (sk_name key)" and "length (sk_raw key) = ED25519_KEY_BYTES"
  shows "sk_parse ed (sk_to_string ed key) = Inr key"
  using assms split_key_join [of "sk_name key" "sk_raw key @ ed_public ed (sk_raw key)"]
  by (simp add: sk_parse_def sk_to_string_def key_name_ok_def ed_ok_def)

lemma pk_parse_to_string:
  assumes "key_name_ok (pk_name key)" and "length (pk_raw key) = ED25519_KEY_BYTES"
  shows "pk_parse (pk_to_string key) = Inr key"
  using assms split_key_join [of "pk_name key" "pk_raw key"]
  by (simp add: pk_parse_def pk_to_string_def key_name_ok_def fromRaw_def)

lemma verify_signed:
  assumes "ed_ok ed" and "key_name_ok (sk_name key)" and "length (sk_raw key) = ED25519_KEY_BYTES"
    and "toPublicKey ed key = Inr pk" and "map_of keys (sk_name key) = Some pk"
    and "signDetached ed key data = Inr sig"
  shows "verifyDetached ed data sig keys = Inr True"
proof -
  have sig: "sig = sk_name key @ '':'' @ base64Encode (ed_sign ed (sk_raw key) data)"
    using assms(6) by (simp add: signDetached_def Let_def split: if_splits)
  have pk: "pk_raw pk = ed_public ed (sk_raw key)"
    using assms(4) by (auto simp: toPublicKey_def fromRaw_def split: if_splits)
  show ?thesis
    using assms(1,2,3,5) split_key_join [of "sk_name key" "ed_sign ed (sk_raw key) data"] pk
    by (simp add: verifyDetached_def sig key_name_ok_def pk_verifyDetached_def ed_ok_def)
qed

interpretation secret_keys: codec "sk_to_string ed" "sk_parse ed"
  "\<lambda>key. ed_ok ed \<and> key_name_ok (sk_name key) \<and> length (sk_raw key) = ED25519_KEY_BYTES" for ed
  by unfold_locales (simp add: sk_parse_to_string)

interpretation public_keys: codec pk_to_string pk_parse
  "\<lambda>key. key_name_ok (pk_name key) \<and> length (pk_raw key) = ED25519_KEY_BYTES"
  by unfold_locales (simp add: pk_parse_to_string)

end
