(* ===== verification/Lix_Path_Info.thy ===== *)
theory Lix_Path_Info
  imports Lix_Protocol Lix_Crypto
begin

text \<open>
  What a store knows of a path, \<^verbatim>\<open>libstore/path-info.{hh,cc}\<close>, its signatures, its form in binary caches,
  \<^verbatim>\<open>libstore/nar-info.{hh,cc}\<close>, and its form in the worker protocol, \<^verbatim>\<open>libstore/worker-protocol.cc\<close>. Sizes are
  natural numbers below \<open>2 ^ 64\<close>; \<^verbatim>\<open>boost::lexical_cast\<close> behind \<^verbatim>\<open>string2Int<uint64_t>\<close> is the parameter
  \<open>lexical_cast\<close>. The field \<^verbatim>\<open>id\<close> for internal use is left out.
\<close>

section \<open>Data\<close>

record SubstitutablePathInfo =
  spi_deriver :: "StorePath option"
  spi_references :: "StorePath oset"
  downloadSize :: nat
  spi_narSize :: nat

record UnkeyedValidPathInfo =
  deriver :: "StorePath option"
  narHash :: Hash
  references :: "StorePath oset"
  registrationTime :: int
  narSize :: nat
  ultimate :: bool
  sigs :: "string oset"
  pi_ca :: "ContentAddress option"

record ValidPathInfo = UnkeyedValidPathInfo +
  pi_path :: StorePath

record NarInfo = ValidPathInfo +
  url :: string
  compression :: string
  fileHash :: "Hash option"
  fileSize :: nat

definition unkeyed :: "Hash \<Rightarrow> UnkeyedValidPathInfo" where
  "unkeyed h = \<lparr>deriver = None, narHash = h, references = [], registrationTime = 0, narSize = 0, ultimate = False,
     sigs = [], pi_ca = None\<rparr>"

section \<open>Path infos\<close>

text \<open>\<^verbatim>\<open>std::to_string\<close> of an unsigned integer.\<close>

fun showNat :: "nat \<Rightarrow> string" where
  "showNat n =
     (if n < 10 then [char_of (48 + n)] else showNat (n div 10) @ [char_of (48 + n mod 10)])"

declare showNat.simps [simp del]

definition fingerprintOf :: "string \<Rightarrow> 'a ValidPathInfo_scheme \<Rightarrow> string result" where
  "fingerprintOf storeDir info =
     (if narSize info = 0 then
        Inl (Error ''cannot calculate fingerprint of path because its size is not known'')
      else Inr (''1;'' @ printStorePath storeDir (pi_path info) @ '';'' @ to_base32 (narHash info) @ '';''
             @ showNat (narSize info) @ '';''
             @ concatStringsSep '','' (printStorePathSet storeDir (references info))))"

definition pi_sign :: "ed25519 \<Rightarrow> string \<Rightarrow> SecretKey \<Rightarrow> 'a ValidPathInfo_scheme \<Rightarrow> 'a ValidPathInfo_scheme result" where
  "pi_sign ed storeDir secretKey info =
     bindr (fingerprintOf storeDir info) (\<lambda>f.
     bindr (signDetached ed secretKey f) (\<lambda>sig.
     Inr (info\<lparr>sigs := oset_insert sig (sigs info)\<rparr>)))"

definition contentAddressWithReferences ::
    "'a ValidPathInfo_scheme \<Rightarrow> ContentAddressWithReferences option result" where
  "contentAddressWithReferences info =
     (case pi_ca info of
        None \<Rightarrow> Inr None
      | Some ca \<Rightarrow>
          (case ca_method ca of
             TextIngestion \<Rightarrow>
               if pi_path info \<in> set (references info) then Inl (AssertionFailed ''references.count(path) == 0'')
               else Inr (Some (Text \<lparr>ti_hash = ca_hash ca, ti_references = references info\<rparr>))
           | FileIngestion m2 \<Rightarrow>
               Inr (Some (Fixed \<lparr>foi_method = m2, foi_hash = ca_hash ca,
                 foi_references = \<lparr>others = removeAll (pi_path info) (references info),
                                   self = pi_path info \<in> set (references info)\<rparr>\<rparr>))))"

definition isContentAddressed :: "digest \<Rightarrow> string \<Rightarrow> 'a ValidPathInfo_scheme \<Rightarrow> bool result" where
  "isContentAddressed digest storeDir info =
     bindr (contentAddressWithReferences info) (\<lambda>fullCaOpt.
     case fullCaOpt of
       None \<Rightarrow> Inr False
     | Some ca \<Rightarrow>
         bindr (makeFixedOutputPathFromCA digest storeDir (sp_name (pi_path info)) ca) (\<lambda>caPath.
         Inr (caPath = pi_path info)))"

definition maxSigs :: nat where
  "maxSigs = 2 ^ 64 - 1"

definition checkSignature :: "ed25519 \<Rightarrow> string \<Rightarrow> PublicKeys \<Rightarrow> string \<Rightarrow> 'a ValidPathInfo_scheme \<Rightarrow> bool result" where
  "checkSignature ed storeDir publicKeys sig info =
     bindr (fingerprintOf storeDir info) (\<lambda>f. verifyDetached ed f sig publicKeys)"

definition checkSignatures ::
    "digest \<Rightarrow> ed25519 \<Rightarrow> string \<Rightarrow> PublicKeys \<Rightarrow> 'a ValidPathInfo_scheme \<Rightarrow> nat result" where
  "checkSignatures digest ed storeDir publicKeys info =
     bindr (isContentAddressed digest storeDir info) (\<lambda>isCa.
     if isCa then Inr maxSigs
     else bindr (mapr (\<lambda>sig. checkSignature ed storeDir publicKeys sig info) (sigs info)) (\<lambda>good.
       Inr (length (filter id good))))"

definition shortRefs :: "'a ValidPathInfo_scheme \<Rightarrow> string list" where
  "shortRefs info = map baseName (references info)"

definition newValidPathInfo ::
    "digest \<Rightarrow> string \<Rightarrow> string \<Rightarrow> ContentAddressWithReferences \<Rightarrow> Hash \<Rightarrow> ValidPathInfo result" where
  "newValidPathInfo digest storeDir name ca h =
     bindr (makeFixedOutputPathFromCA digest storeDir name ca) (\<lambda>path.
     let info = UnkeyedValidPathInfo.extend (unkeyed h) (ValidPathInfo.fields path)
     in Inr (case ca of
          Text ti \<Rightarrow> info\<lparr>references := ti_references ti,
                        pi_ca := Some \<lparr>ca_method = TextIngestion, ca_hash = ti_hash ti\<rparr>\<rparr>
        | Fixed foi \<Rightarrow> info\<lparr>references :=
                             (if self (foi_references foi) then oset_insert path (others (foi_references foi))
                              else others (foi_references foi)),
                           pi_ca := Some \<lparr>ca_method = FileIngestion (foi_method foi), ca_hash = foi_hash foi\<rparr>\<rparr>))"

section \<open>NAR infos\<close>

definition corrupt :: "string \<Rightarrow> error" where
  "corrupt reason = Error (''NAR info file is corrupt: '' @ reason)"

definition parseHashField :: "string \<Rightarrow> Hash result" where
  "parseHashField s =
     (case parseAnyPrefixed s of
        Inl (BadHash _) \<Rightarrow> Inl (corrupt ''bad hash'')
      | r \<Rightarrow> r)"

record NarInfoParser =
  ni_info :: NarInfo
  havePath :: bool
  haveNarHash :: bool

definition narInfo_start :: NarInfoParser where
  "narInfo_start =
     \<lparr>ni_info = \<lparr>deriver = None, narHash = zeroHash 32 SHA256, references = [], registrationTime = 0, narSize = 0,
        ultimate = False, sigs = [], pi_ca = None, pi_path = StorePath ''ffffffffffffffffffffffffffffffff-x'',
        url = [], compression = [], fileHash = None, fileSize = 0\<rparr>,
      havePath = False, haveNarHash = False\<rparr>"

text \<open>The chain of tests for the name of a field.\<close>

definition narInfo_field ::
    "(string \<Rightarrow> int option) \<Rightarrow> string \<Rightarrow> string \<Rightarrow> string \<Rightarrow> NarInfoParser \<Rightarrow> NarInfoParser result" where
  "narInfo_field lexical_cast storeDir name value st =
     (let info = ni_info st
      in if name = ''StorePath'' then
        bindr (parseStorePath storeDir value) (\<lambda>p. Inr (st\<lparr>ni_info := info\<lparr>pi_path := p\<rparr>, havePath := True\<rparr>))
      else if name = ''URL'' then Inr (st\<lparr>ni_info := info\<lparr>url := value\<rparr>\<rparr>)
      else if name = ''Compression'' then Inr (st\<lparr>ni_info := info\<lparr>compression := value\<rparr>\<rparr>)
      else if name = ''FileHash'' then
        bindr (parseHashField value) (\<lambda>h. Inr (st\<lparr>ni_info := info\<lparr>fileHash := Some h\<rparr>\<rparr>))
      else if name = ''FileSize'' then
        (case string2Int lexical_cast False value of
           None \<Rightarrow> Inl (corrupt ''invalid FileSize'')
         | Some n \<Rightarrow> Inr (st\<lparr>ni_info := info\<lparr>fileSize := nat n\<rparr>\<rparr>))
      else if name = ''NarHash'' then
        bindr (parseHashField value) (\<lambda>h. Inr (st\<lparr>ni_info := info\<lparr>narHash := h\<rparr>, haveNarHash := True\<rparr>))
      else if name = ''NarSize'' then
        (case string2Int lexical_cast False value of
           None \<Rightarrow> Inl (corrupt ''invalid NarSize'')
         | Some n \<Rightarrow> Inr (st\<lparr>ni_info := info\<lparr>narSize := nat n\<rparr>\<rparr>))
      else if name = ''References'' then
        (if references info \<noteq> [] then Inl (corrupt ''extra References'')
         else bindr (mapr newStorePath (tokenizeString value '' '')) (\<lambda>refs.
           Inr (st\<lparr>ni_info := info\<lparr>references := oset_of refs\<rparr>\<rparr>)))
      else if name = ''Deriver'' then
        (if value \<noteq> ''unknown-deriver'' then
           bindr (newStorePath value) (\<lambda>p. Inr (st\<lparr>ni_info := info\<lparr>deriver := Some p\<rparr>\<rparr>))
         else Inr st)
      else if name = ''Sig'' then Inr (st\<lparr>ni_info := info\<lparr>sigs := oset_insert value (sigs info)\<rparr>\<rparr>)
      else if name = ''CA'' then
        (if pi_ca info \<noteq> None then Inl (corrupt ''extra CA'')
         else bindr (ca_parseOpt value) (\<lambda>ca. Inr (st\<lparr>ni_info := info\<lparr>pi_ca := ca\<rparr>\<rparr>)))
      else Inr st)"

text \<open>
  One line of the loop: the name up to the colon, the value from two characters behind it up to
  the end of the line, and the rest.
\<close>

definition narInfo_line :: "string \<Rightarrow> (string \<times> string \<times> string) result" where
  "narInfo_line s =
     (if CHR '':'' \<notin> set s then Inl (corrupt ''expecting :'')
      else let name = takeWhile (\<lambda>c. c \<noteq> CHR '':'') s;
               after = drop 2 (dropWhile (\<lambda>c. c \<noteq> CHR '':'') s)
           in if CHR 0x0A \<notin> set after then Inl (corrupt ''expecting newline'')
              else Inr (name, takeWhile (\<lambda>c. c \<noteq> CHR 0x0A) after, drop 1 (dropWhile (\<lambda>c. c \<noteq> CHR 0x0A) after)))"

lemma narInfo_line_rest: "narInfo_line s = Inr (name, v, rest) \<Longrightarrow> length rest < length s"
proof -
  assume l: "narInfo_line s = Inr (name, v, rest)"
  have "rest = drop 1 (dropWhile (\<lambda>c. c \<noteq> CHR 0x0A) (drop 2 (dropWhile (\<lambda>c. c \<noteq> CHR '':'') s)))" "CHR '':'' \<in> set s"
    using l by (auto simp: narInfo_line_def Let_def split: if_splits)
  moreover have "length (dropWhile (\<lambda>c. c \<noteq> CHR 0x0A) (drop 2 (dropWhile (\<lambda>c. c \<noteq> CHR '':'') s)))
      \<le> length (drop 2 (dropWhile (\<lambda>c. c \<noteq> CHR '':'') s))" by (rule length_dropWhile_le)
  moreover have "length (dropWhile (\<lambda>c. c \<noteq> CHR '':'') s) \<le> length s" by (rule length_dropWhile_le)
  moreover have "s \<noteq> []" using calculation(2) by auto
  ultimately show ?thesis by (cases s) auto
qed

function narInfo_loop ::
    "(string \<Rightarrow> int option) \<Rightarrow> string \<Rightarrow> NarInfoParser \<Rightarrow> string \<Rightarrow> NarInfoParser result" where
  "narInfo_loop lexical_cast storeDir st s =
     (if s = [] then Inr st
      else bindr (narInfo_line s) (\<lambda>(name, value, rest).
        bindr (narInfo_field lexical_cast storeDir name value st) (\<lambda>st.
        narInfo_loop lexical_cast storeDir st rest)))"
  by pat_completeness auto
termination
  by (relation "measure (\<lambda>(_, _, _, s). length s)") (auto dest: narInfo_line_rest)

declare narInfo_loop.simps [simp del]

definition newNarInfo :: "(string \<Rightarrow> int option) \<Rightarrow> string \<Rightarrow> string \<Rightarrow> NarInfo result" where
  "newNarInfo lexical_cast storeDir s =
     bindr (narInfo_loop lexical_cast storeDir narInfo_start s) (\<lambda>st.
     let info = ni_info st;
         info = (if compression info = [] then info\<lparr>compression := ''bzip2''\<rparr> else info)
     in if \<not> havePath st then Inl (corrupt ''StorePath missing'')
        else if \<not> haveNarHash st then Inl (corrupt ''NarHash missing'')
        else if url info = [] then Inl (corrupt ''URL missing'')
        else if narSize info = 0 then Inl (corrupt ''NarSize missing or zero'')
        else Inr info)"

definition narInfo_to_string :: "string \<Rightarrow> NarInfo \<Rightarrow> string result" where
  "narInfo_to_string storeDir info =
     (if compression info = [] then Inl (AssertionFailed ''compression != empty'')
      else case fileHash info of
        None \<Rightarrow> Inl (AssertionFailed ''fileHash && fileHash->type == HashType::SHA256'')
      | Some h \<Rightarrow>
          if hash_type h \<noteq> SHA256 then Inl (AssertionFailed ''fileHash && fileHash->type == HashType::SHA256'')
          else if hash_type (narHash info) \<noteq> SHA256 then Inl (AssertionFailed ''narHash.type == HashType::SHA256'')
          else Inr (''StorePath: '' @ printStorePath storeDir (pi_path info) @ [CHR 0x0A]
            @ ''URL: '' @ url info @ [CHR 0x0A]
            @ ''Compression: '' @ compression info @ [CHR 0x0A]
            @ ''FileHash: '' @ to_base32 h @ [CHR 0x0A]
            @ ''FileSize: '' @ showNat (fileSize info) @ [CHR 0x0A]
            @ ''NarHash: '' @ to_base32 (narHash info) @ [CHR 0x0A]
            @ ''NarSize: '' @ showNat (narSize info) @ [CHR 0x0A]
            @ ''References: '' @ concatStringsSep '' '' (shortRefs info) @ [CHR 0x0A]
            @ (case deriver info of Some p \<Rightarrow> ''Deriver: '' @ baseName p @ [CHR 0x0A] | None \<Rightarrow> [])
            @ concat (map (\<lambda>sig. ''Sig: '' @ sig @ [CHR 0x0A]) (sigs info))
            @ (case pi_ca info of Some ca \<Rightarrow> ''CA: '' @ renderContentAddress (Some ca) @ [CHR 0x0A] | None \<Rightarrow> [])))"

section \<open>Decimal numbers\<close>

definition decimalNat :: "string \<Rightarrow> nat" where
  "decimalNat s = foldl (\<lambda>n c. 10 * n + (of_char c - 48)) 0 s"

lemma decimalNat_showNat: "decimalNat (showNat n) = n"
proof (induction n rule: showNat.induct)
  case (1 n)
  have d: "of_char (char_of (48 + k) :: char) = 48 + k" if "k < 10" for k :: nat
    using that by (simp add: of_char_of)
  show ?case
  proof (cases "n < 10")
    case True
    then show ?thesis by (simp add: showNat.simps [of n] decimalNat_def d)
  next
    case False
    then show ?thesis using 1 by (simp add: showNat.simps [of n] decimalNat_def d)
  qed
qed

lemma showNat_inj: "showNat m = showNat n \<Longrightarrow> m = n"
  by (metis decimalNat_showNat)

lemma showNat_digits: "c \<in> set (showNat n) \<Longrightarrow> 48 \<le> (of_char c :: nat) \<and> (of_char c :: nat) \<le> 57"
proof (induction n rule: showNat.induct)
  case (1 n)
  have d: "of_char (char_of (48 + k) :: char) = 48 + k" if "k < 10" for k :: nat
    using that by (simp add: of_char_of)
  show ?case
  proof (cases "n < 10")
    case True
    then show ?thesis using 1 by (simp add: showNat.simps [of n] d)
  next
    case False
    then show ?thesis using 1 by (auto simp: showNat.simps [of n] d)
  qed
qed

lemma showNat_chars: "CHR 0x0A \<notin> set (showNat n)" "CHR '';'' \<notin> set (showNat n)" "CHR ''-'' \<notin> set (showNat n)"
  using showNat_digits [of "CHR 0x0A" n] showNat_digits [of "CHR '';''" n] showNat_digits [of "CHR ''-''" n] by auto

lemma showNat_nonempty: "showNat n \<noteq> []"
  by (subst showNat.simps) simp

section \<open>Characters of the printed parts\<close>

lemma base32_chars: "c \<in> set (to_base32 h) \<Longrightarrow> c \<in> set base32Chars \<or> c \<in> set (showHashType (hash_type h)) \<or> c = CHR '':''"
  using base32Encode_chars [of "hash_data h"] by (auto simp: to_base32_def base32EncodeStr_def comp_def)

lemma to_base32_no: "CHR 0x0A \<notin> set (to_base32 h)" "CHR '';'' \<notin> set (to_base32 h)"
proof -
  have "CHR 0x0A \<notin> set base32Chars" "CHR '';'' \<notin> set base32Chars" by code_simp+
  moreover have "CHR 0x0A \<notin> set (showHashType (hash_type h))" "CHR '';'' \<notin> set (showHashType (hash_type h))"
    by (cases "hash_type h"; simp)+
  ultimately show "CHR 0x0A \<notin> set (to_base32 h)" "CHR '';'' \<notin> set (to_base32 h)"
    using base32_chars [of "CHR 0x0A" h] base32_chars [of "CHR '';''" h] by auto
qed

lemma to_base32_inj: "to_base32 h = to_base32 h' \<Longrightarrow> h = h'"
proof -
  assume eq: "to_base32 h = to_base32 h'"
  have split: "splitPrefixTo (to_base32 g) (CHR '':'') = (Some (showHashType (hash_type g)), base32Encode (hash_data g))" for g
    using splitPrefixTo_append [OF showHashType_chars(1), of "hash_type g"]
    by (simp add: to_base32_def base32EncodeStr_def comp_def)
  have "showHashType (hash_type h) = showHashType (hash_type h')" "base32Encode (hash_data h) = base32Encode (hash_data h')"
    using split [of h] split [of h'] eq by simp_all
  moreover from this(1) have "Inr (hash_type h) = (Inr (hash_type h') :: HashType result)"
    by (metis parseHashType_show)
  moreover have "Inr (hash_data h) = (Inr (hash_data h') :: byte list result)"
    using calculation(2) base32Decode_base32Encode by metis
  ultimately have "hash_type h = hash_type h'" "hash_data h = hash_data h'" by simp_all
  then show ?thesis by simp
qed

lemma sp_ok_no:
  assumes "sp_ok p"
  shows "CHR 0x0A \<notin> set (baseName p)" "CHR '';'' \<notin> set (baseName p)" "CHR '','' \<notin> set (baseName p)" "CHR '' '' \<notin> set (baseName p)"
proof -
  have "\<not> nameChar (CHR 0x0A)" "\<not> nameChar (CHR '';'')" "\<not> nameChar (CHR '','')" "\<not> nameChar (CHR '' '')" by code_simp+
  then show "CHR 0x0A \<notin> set (baseName p)" "CHR '';'' \<notin> set (baseName p)" "CHR '','' \<notin> set (baseName p)"
      "CHR '' '' \<notin> set (baseName p)"
    using sp_ok_chars [OF assms] by blast+
qed

lemma sp_ok_nonempty: "sp_ok p \<Longrightarrow> baseName p \<noteq> []"
  by (auto simp: sp_ok_def path_ok_def)

section \<open>The fingerprint determines what is signed\<close>

definition signed_ok :: "string \<Rightarrow> 'a ValidPathInfo_scheme \<Rightarrow> bool" where
  "signed_ok storeDir info \<longleftrightarrow>
     CHR '';'' \<notin> set storeDir \<and> CHR '','' \<notin> set storeDir \<and> sp_ok (pi_path info) \<and> oset_ok (references info)
     \<and> (\<forall>p \<in> set (references info). sp_ok p)"

lemma signed_okD:
  assumes "signed_ok storeDir info"
  shows "CHR '';'' \<notin> set storeDir" "CHR '','' \<notin> set storeDir" "sp_ok (pi_path info)" "oset_ok (references info)"
    "\<forall>p \<in> set (references info). sp_ok p"
  using assms by (simp_all add: signed_ok_def)

lemma fields_inj:
  fixes a b :: string
  assumes "a @ c # r = b @ c # s" and "c \<notin> set a" and "c \<notin> set b"
  shows "a = b \<and> r = s"
proof -
  have "(Some a, r) = (Some b, s)"
    using splitPrefixTo_append [OF assms(2), of r] splitPrefixTo_append [OF assms(3), of s] unfolding assms(1) by (rule trans [OF sym])
  then show ?thesis by blast
qed

lemma printStorePath_inj: "printStorePath storeDir p = printStorePath storeDir q \<Longrightarrow> p = q"
  by (simp add: printStorePath_def StorePath.expand)

lemma printed_refs_inj:
  assumes "signed_ok storeDir a" and "signed_ok storeDir b"
    and "concatStringsSep '','' (printStorePathSet storeDir (references a))
      = concatStringsSep '','' (printStorePathSet storeDir (references b))"
  shows "references a = references b"
proof -
  have tok: "tokenizeString (concatStringsSep '','' (printStorePathSet storeDir (references i))) '',''
      = printStorePathSet storeDir (references i)" if i: "signed_ok storeDir i" for i :: "'c ValidPathInfo_scheme"
  proof (rule tokenizeString_join)
    have "CHR '','' \<notin> set (printStorePath storeDir p) \<and> printStorePath storeDir p \<noteq> []" if "p \<in> set (references i)" for p
      using signed_okD(2,5) [OF i] sp_ok_no(3) [of p] that by (simp add: printStorePath_def)
    then show "\<forall>t \<in> set (printStorePathSet storeDir (references i)). t \<noteq> [] \<and> CHR '','' \<notin> set t"
      unfolding printStorePathSet_def set_oset_of set_map by (intro ballI) (erule imageE, simp)
  qed
  have "printStorePathSet storeDir (references a) = printStorePathSet storeDir (references b)"
    using arg_cong [OF assms(3), of "\<lambda>s. tokenizeString s '',''"] unfolding tok [OF assms(1)] tok [OF assms(2)] .
  then have "printStorePath storeDir ` set (references a) = printStorePath storeDir ` set (references b)"
    by (metis printStorePathSet_def set_map set_oset_of)
  then have "set (references a) = set (references b)"
    using printStorePath_inj [of storeDir] by (subst (asm) inj_image_eq_iff) (auto intro: injI)
  then show ?thesis using signed_okD(4) [OF assms(1)] signed_okD(4) [OF assms(2)] by (intro oset_eq_iff) auto
qed

lemma fingerprint_inj:
  assumes "signed_ok storeDir a" and "signed_ok storeDir b"
    and "fingerprintOf storeDir a = Inr f" and "fingerprintOf storeDir b = Inr f"
  shows "pi_path a = pi_path b \<and> narHash a = narHash b \<and> narSize a = narSize b \<and> references a = references b"
proof -
  let ?r = "\<lambda>i. concatStringsSep '','' (printStorePathSet storeDir (references i))"
  have path: "CHR '';'' \<notin> set (printStorePath storeDir (pi_path i))" if "signed_ok storeDir i" for i :: "'c ValidPathInfo_scheme"
    using that sp_ok_no(2) by (auto simp: signed_ok_def printStorePath_def)
  have eq: "printStorePath storeDir (pi_path a) @ CHR '';'' # to_base32 (narHash a) @ CHR '';'' # showNat (narSize a) @ CHR '';'' # ?r a
      = printStorePath storeDir (pi_path b) @ CHR '';'' # to_base32 (narHash b) @ CHR '';'' # showNat (narSize b) @ CHR '';'' # ?r b"
    using assms(3,4) by (auto simp: fingerprintOf_def split: if_splits)
  note 1 = fields_inj [OF eq path [OF assms(1)] path [OF assms(2)]]
  note 2 = fields_inj [OF conjunct2 [OF 1] to_base32_no(2) to_base32_no(2)]
  note 3 = fields_inj [OF conjunct2 [OF 2] showNat_chars(2) showNat_chars(2)]
  show ?thesis
    using 1 2 3 printStorePath_inj to_base32_inj showNat_inj printed_refs_inj [OF assms(1,2)] by blast
qed

section \<open>NAR infos read back\<close>

definition info_line :: "string \<Rightarrow> string \<Rightarrow> string" where
  "info_line name value = name @ '': '' @ value @ [CHR 0x0A]"

lemma narInfo_loop_line:
  assumes "CHR '':'' \<notin> set name" and "CHR 0x0A \<notin> set value"
  shows "narInfo_loop lc storeDir st (info_line name value @ r)
    = bindr (narInfo_field lc storeDir name value st) (\<lambda>st. narInfo_loop lc storeDir st r)"
proof -
  have "narInfo_line (info_line name value @ r) = Inr (name, value, r)"
    using assms by (simp add: narInfo_line_def info_line_def takeWhile_append dropWhile_append Let_def)
  then show ?thesis by (subst narInfo_loop.simps) (simp add: info_line_def)
qed

lemma narInfo_loop_sigs:
  "\<forall>sig \<in> set ss. CHR 0x0A \<notin> set sig \<Longrightarrow>
   narInfo_loop lc storeDir st (concat (map (info_line ''Sig'') ss) @ r)
   = narInfo_loop lc storeDir (st\<lparr>ni_info := (ni_info st)\<lparr>sigs := fold oset_insert ss (sigs (ni_info st))\<rparr>\<rparr>) r"
proof (induction ss arbitrary: st)
  case (Cons sig ss)
  have "narInfo_loop lc storeDir st (info_line ''Sig'' sig @ concat (map (info_line ''Sig'') ss) @ r)
      = narInfo_loop lc storeDir (st\<lparr>ni_info := (ni_info st)\<lparr>sigs := oset_insert sig (sigs (ni_info st))\<rparr>\<rparr>)
          (concat (map (info_line ''Sig'') ss) @ r)"
    using Cons.prems by (subst narInfo_loop_line) (simp_all add: narInfo_field_def Let_def)
  with Cons show ?case by simp
qed simp

definition narInfo_ok :: "(string \<Rightarrow> int option) \<Rightarrow> string \<Rightarrow> NarInfo \<Rightarrow> bool" where
  "narInfo_ok lc storeDir info \<longleftrightarrow>
     canonical storeDir \<and> CHR 0x0A \<notin> set storeDir \<and> sp_ok (pi_path info)
     \<and> url info \<noteq> [] \<and> CHR 0x0A \<notin> set (url info)
     \<and> compression info \<noteq> [] \<and> CHR 0x0A \<notin> set (compression info)
     \<and> (case fileHash info of None \<Rightarrow> False | Some h \<Rightarrow> hash_type h = SHA256 \<and> hash_ok h)
     \<and> hash_type (narHash info) = SHA256 \<and> hash_ok (narHash info) \<and> 0 < narSize info
     \<and> lc (showNat (fileSize info)) = Some (int (fileSize info))
     \<and> lc (showNat (narSize info)) = Some (int (narSize info))
     \<and> oset_ok (references info) \<and> (\<forall>p \<in> set (references info). sp_ok p)
     \<and> (\<forall>p. deriver info = Some p \<longrightarrow> sp_ok p)
     \<and> oset_ok (sigs info) \<and> (\<forall>sig \<in> set (sigs info). CHR 0x0A \<notin> set sig)
     \<and> (\<forall>ca. pi_ca info = Some ca \<longrightarrow> hash_ok (ca_hash ca))"

lemma parseHashField_base32: "hash_ok h \<Longrightarrow> parseHashField (to_base32 h) = Inr h"
  by (simp add: parseHashField_def parseAnyPrefixed_base32)

lemma string2Int_showNat: "lc (showNat n) = Some (int n) \<Longrightarrow> string2Int lc False (showNat n) = Some (int n)"
  using showNat_chars(3) [of n] showNat_nonempty [of n] by (cases "showNat n") (auto simp: string2Int_def)

lemma newStorePath_sp_ok: "sp_ok p \<Longrightarrow> newStorePath (baseName p) = Inr p"
  by (cases p) (simp add: newStorePath_iff sp_ok_def)

lemma references_field:
  assumes "oset_ok ps" and "\<forall>p \<in> set ps. sp_ok p"
  shows "mapr newStorePath (tokenizeString (concatStringsSep '' '' (map baseName ps)) '' '') = Inr ps"
proof -
  have "tokenizeString (concatStringsSep '' '' (map baseName ps)) '' '' = map baseName ps"
    using assms(2) sp_ok_no(4) sp_ok_nonempty by (intro tokenizeString_join) simp
  moreover have "mapr newStorePath (map baseName ps) = Inr ps"
    using assms(2) by (induction ps) (simp_all add: newStorePath_sp_ok)
  ultimately show ?thesis by simp
qed

lemma references_no_newline:
  assumes "\<forall>p \<in> set ps. sp_ok p"
  shows "CHR 0x0A \<notin> set (concatStringsSep '' '' (map baseName ps))"
proof -
  have ne: "\<forall>x \<in> set (map baseName ps). x \<noteq> []" using assms sp_ok_nonempty by auto
  have "set (concatStringsSep '' '' (map baseName ps)) \<subseteq> insert (CHR '' '') (\<Union>p \<in> set ps. set (baseName p))"
    unfolding concatStringsSep_nonempty [OF ne] by (cases ps) auto
  moreover have "CHR 0x0A \<notin> set (baseName p)" if "p \<in> set ps" for p using assms sp_ok_no(1) that by simp
  ultimately show ?thesis by auto
qed

lemma ca_render_no_newline: "CHR 0x0A \<notin> set (ca_render ca)"
proof -
  have "CHR 0x0A \<notin> set (makeFileIngestionPrefix f)" for f by (cases f) simp_all
  then show ?thesis using to_base32_no(1) by (cases "ca_method ca") (simp_all add: ca_render_def)
qed

lemma deriver_value: "sp_ok p \<Longrightarrow> baseName p \<noteq> ''unknown-deriver''"
  by (auto simp: sp_ok_def path_ok_def HASH_PART_LEN_def)

text \<open>The state of the parser after the fields that every NAR info has.\<close>

definition narInfo_mid :: "NarInfo \<Rightarrow> NarInfoParser" where
  "narInfo_mid info =
     \<lparr>ni_info = info\<lparr>deriver := None, registrationTime := 0, ultimate := False, sigs := [], pi_ca := None\<rparr>,
      havePath = True, haveNarHash = True\<rparr>"

lemma narInfo_update_order:
  "(i :: NarInfo)\<lparr>registrationTime := a, ultimate := b, sigs := s, pi_ca := c, deriver := d\<rparr>
   = i\<lparr>deriver := d, registrationTime := a, ultimate := b, sigs := s, pi_ca := c\<rparr>"
  "i\<lparr>deriver := d, registrationTime := a, ultimate := b, pi_ca := c, sigs := s\<rparr>
   = i\<lparr>deriver := d, registrationTime := a, ultimate := b, sigs := s, pi_ca := c\<rparr>"
  by (cases i; simp)+

lemma narInfo_loop_required:
  assumes ok: "narInfo_ok lc storeDir info" and h: "fileHash info = Some h"
  shows "narInfo_loop lc storeDir narInfo_start
      (info_line ''StorePath'' (printStorePath storeDir (pi_path info))
       @ info_line ''URL'' (url info) @ info_line ''Compression'' (compression info)
       @ info_line ''FileHash'' (to_base32 h) @ info_line ''FileSize'' (showNat (fileSize info))
       @ info_line ''NarHash'' (to_base32 (narHash info)) @ info_line ''NarSize'' (showNat (narSize info))
       @ info_line ''References'' (concatStringsSep '' '' (shortRefs info)) @ r)
    = narInfo_loop lc storeDir (narInfo_mid info) r"
proof -
  have path: "parseStorePath storeDir (printStorePath storeDir (pi_path info)) = Inr (pi_path info)"
    "CHR 0x0A \<notin> set (printStorePath storeDir (pi_path info))"
    using ok parse_sp_ok [of storeDir "pi_path info"] sp_ok_no(1) [of "pi_path info"]
    by (simp_all add: narInfo_ok_def) (simp add: printStorePath_def)
  have hash: "parseHashField (to_base32 h) = Inr h" "parseHashField (to_base32 (narHash info)) = Inr (narHash info)"
    using ok h by (simp_all add: narInfo_ok_def parseHashField_base32)
  have int: "string2Int lc False (showNat (fileSize info)) = Some (int (fileSize info))"
    "string2Int lc False (showNat (narSize info)) = Some (int (narSize info))"
    using ok by (simp_all add: narInfo_ok_def string2Int_showNat)
  have refs: "mapr newStorePath (tokenizeString (concatStringsSep '' '' (shortRefs info)) '' '') = Inr (references info)"
    "oset_of (references info) = references info" "CHR 0x0A \<notin> set (concatStringsSep '' '' (shortRefs info))"
    using ok by (simp_all add: narInfo_ok_def shortRefs_def references_field oset_of_sorted references_no_newline)
  have strs: "CHR 0x0A \<notin> set (url info)" "CHR 0x0A \<notin> set (compression info)"
    using ok by (simp_all add: narInfo_ok_def)
  have colon: "CHR '':'' \<notin> set ''StorePath''" "CHR '':'' \<notin> set ''URL''" "CHR '':'' \<notin> set ''Compression''"
    "CHR '':'' \<notin> set ''FileHash''" "CHR '':'' \<notin> set ''FileSize''" "CHR '':'' \<notin> set ''NarHash''"
    "CHR '':'' \<notin> set ''NarSize''" "CHR '':'' \<notin> set ''References''" by simp_all
  have mid: "narInfo_mid info =
     \<lparr>ni_info = \<lparr>deriver = None, narHash = narHash info, references = references info, registrationTime = 0,
        narSize = narSize info, ultimate = False, sigs = [], pi_ca = None, pi_path = pi_path info, url = url info,
        compression = compression info, fileHash = Some h, fileSize = fileSize info\<rparr>,
      havePath = True, haveNarHash = True\<rparr>"
    using h by (cases info) (simp add: narInfo_mid_def)
  show ?thesis
    unfolding mid
    by (simp add: narInfo_loop_line colon path strs to_base32_no showNat_chars refs narInfo_field_def Let_def hash int narInfo_start_def)
qed

lemma narInfo_loop_optional:
  assumes ok: "narInfo_ok lc storeDir info"
  shows "narInfo_loop lc storeDir (narInfo_mid info)
      ((case deriver info of Some p \<Rightarrow> info_line ''Deriver'' (baseName p) | None \<Rightarrow> [])
       @ concat (map (info_line ''Sig'') (sigs info))
       @ (case pi_ca info of Some ca \<Rightarrow> info_line ''CA'' (renderContentAddress (Some ca)) | None \<Rightarrow> []))
    = Inr \<lparr>ni_info = info\<lparr>registrationTime := 0, ultimate := False\<rparr>, havePath = True, haveNarHash = True\<rparr>"
proof -
  let ?st = "\<lambda>d s c. \<lparr>ni_info = info\<lparr>deriver := d, registrationTime := 0, ultimate := False, sigs := s, pi_ca := c\<rparr>,
      havePath = True, haveNarHash = True\<rparr>"
  have der: "narInfo_loop lc storeDir (narInfo_mid info)
      ((case deriver info of Some p \<Rightarrow> info_line ''Deriver'' (baseName p) | None \<Rightarrow> []) @ r)
      = narInfo_loop lc storeDir (?st (deriver info) [] None) r" for r
  proof (cases "deriver info")
    case (Some p)
    then have p: "sp_ok p" using ok by (simp add: narInfo_ok_def)
    then show ?thesis
      using Some sp_ok_no(1) [OF p] by (simp add: narInfo_loop_line narInfo_field_def Let_def narInfo_mid_def deriver_value
        newStorePath_sp_ok narInfo_update_order)
  qed (simp add: narInfo_mid_def)
  have sig: "narInfo_loop lc storeDir (?st d [] None) (concat (map (info_line ''Sig'') (sigs info)) @ r)
      = narInfo_loop lc storeDir (?st d (sigs info) None) r" for d r
    using ok oset_of_sorted [of "sigs info"] by (subst narInfo_loop_sigs) (simp_all add: narInfo_ok_def oset_of_def narInfo_update_order)
  have ca: "narInfo_loop lc storeDir (?st d s None)
      (case pi_ca info of Some ca \<Rightarrow> info_line ''CA'' (renderContentAddress (Some ca)) | None \<Rightarrow> [])
      = Inr (?st d s (pi_ca info))" for d s
  proof (cases "pi_ca info")
    case None
    then show ?thesis by (simp add: narInfo_loop.simps [of lc storeDir _ "[]"])
  next
    case (Some ca)
    then have "ca_parse (ca_render ca) = Inr ca" using ok by (simp add: narInfo_ok_def ca_parse_render)
    moreover have "ca_render ca \<noteq> []" by (cases "ca_method ca") (auto simp: ca_render_cam)
    ultimately show ?thesis
      using Some narInfo_loop_line [of "''CA''" "ca_render ca" lc storeDir _ "[]"] ca_render_no_newline [of ca]
      by (simp add: renderContentAddress_def narInfo_field_def Let_def ca_parseOpt_def narInfo_loop.simps [of lc storeDir _ "[]"])
  qed
  show ?thesis unfolding der sig ca by simp
qed

lemma narInfo_to_string_lines:
  assumes "narInfo_ok lc storeDir info" and "fileHash info = Some h"
  shows "narInfo_to_string storeDir info = Inr
      (info_line ''StorePath'' (printStorePath storeDir (pi_path info))
       @ info_line ''URL'' (url info) @ info_line ''Compression'' (compression info)
       @ info_line ''FileHash'' (to_base32 h) @ info_line ''FileSize'' (showNat (fileSize info))
       @ info_line ''NarHash'' (to_base32 (narHash info)) @ info_line ''NarSize'' (showNat (narSize info))
       @ info_line ''References'' (concatStringsSep '' '' (shortRefs info))
       @ (case deriver info of Some p \<Rightarrow> info_line ''Deriver'' (baseName p) | None \<Rightarrow> [])
       @ concat (map (info_line ''Sig'') (sigs info))
       @ (case pi_ca info of Some ca \<Rightarrow> info_line ''CA'' (renderContentAddress (Some ca)) | None \<Rightarrow> []))"
proof -
  have line: "info_line ''Sig'' = (\<lambda>sig. ''Sig: '' @ sig @ [CHR 0x0A])" by (simp add: info_line_def fun_eq_iff)
  show ?thesis
    using assms unfolding narInfo_to_string_def line
    by (simp add: narInfo_ok_def info_line_def split: option.splits)
qed

section \<open>Content-addressed paths\<close>

lemma removeAll_oset_insert: "x \<notin> set xs \<Longrightarrow> removeAll x (oset_insert x xs) = xs"
  by (induction xs) auto

lemma newValidPathInfo_contentAddressed:
  assumes info: "newValidPathInfo digest storeDir name ca h = Inr info"
    and refs: "pi_path info \<notin> (case ca of Text ti \<Rightarrow> set (ti_references ti) | Fixed foi \<Rightarrow> set (others (foi_references foi)))"
  shows "isContentAddressed digest storeDir info = Inr True"
proof -
  obtain p where p: "makeFixedOutputPathFromCA digest storeDir name ca = Inr p"
    using info by (auto simp: newValidPathInfo_def bindr_eq_Inr_iff)
  then have path: "pi_path info = p"
    using info by (auto simp: newValidPathInfo_def Let_def ValidPathInfo.defs UnkeyedValidPathInfo.defs
        split: ContentAddressWithReferences.splits)
  have name: "sp_name p = name"
    using p storePathOfHash_ok
    by (auto simp: makeFixedOutputPathFromCA_def makeTextPath_def makeFixedOutputPath_def makeStorePathOfHash_def
        makeStorePath_def Let_def bindr_eq_Inr_iff split: ContentAddressWithReferences.splits if_splits)
  note defs = newValidPathInfo_def Let_def ValidPathInfo.defs UnkeyedValidPathInfo.defs
  have "contentAddressWithReferences info = Inr (Some ca)"
  proof (cases ca)
    case (Text ti)
    then have "references info = ti_references ti" "pi_ca info = Some \<lparr>ca_method = TextIngestion, ca_hash = ti_hash ti\<rparr>"
      using info p by (auto simp: defs)
    then show ?thesis using Text refs by (simp add: contentAddressWithReferences_def)
  next
    case (Fixed foi)
    then have "references info = (if self (foi_references foi) then oset_insert p (others (foi_references foi))
        else others (foi_references foi))"
      "pi_ca info = Some \<lparr>ca_method = FileIngestion (foi_method foi), ca_hash = foi_hash foi\<rparr>"
      using info p by (auto simp: defs)
    then show ?thesis using Fixed refs path by (simp add: contentAddressWithReferences_def removeAll_oset_insert)
  qed
  then show ?thesis using p path name by (simp add: isContentAddressed_def)
qed

section \<open>Properties\<close>

text \<open>C10: A NAR info file that is written is read back: all fields but the registration time and the trust, which the
  format does not have. Of the reader of integers only what it does on the printed sizes is assumed.\<close>

theorem narinfo_roundtrip:
  assumes "narInfo_ok lexical_cast storeDir info"
  shows "\<exists>s. narInfo_to_string storeDir info = Inr s
    \<and> newNarInfo lexical_cast storeDir s = Inr (info\<lparr>registrationTime := 0, ultimate := False\<rparr>)"
proof -
  obtain h where h: "fileHash info = Some h" using assms by (auto simp: narInfo_ok_def split: option.splits)
  have ne: "compression info \<noteq> []" "url info \<noteq> []" "narSize info \<noteq> 0" using assms by (auto simp: narInfo_ok_def)
  show ?thesis
    unfolding narInfo_to_string_lines [OF assms h] newNarInfo_def
    using ne by (simp add: narInfo_loop_required [OF assms h] narInfo_loop_optional [OF assms])
qed

definition example_narInfo :: NarInfo where
  "example_narInfo =
     \<lparr>deriver = None, narHash = zeroHash 32 SHA256, references = [example_path], registrationTime = 0, narSize = 1,
      ultimate = False, sigs = [''k:sig''], pi_ca = None, pi_path = example_path, url = ''nar/x.nar'',
      compression = ''none'', fileHash = Some (zeroHash 32 SHA256), fileSize = 1\<rparr>"

theorem narinfo_roundtrip_witness:
  "\<exists>s. narInfo_to_string ''/nix/store'' example_narInfo = Inr s
     \<and> newNarInfo (\<lambda>_. Some 1) ''/nix/store'' s = Inr example_narInfo"
proof -
  have "canonical ''/nix/store''" "sp_ok example_path" "hash_ok (zeroHash 32 SHA256)" by code_simp+
  then have ok: "narInfo_ok (\<lambda>_. Some 1) ''/nix/store'' example_narInfo"
    by (simp add: narInfo_ok_def example_narInfo_def zeroHash_def)
  have "example_narInfo\<lparr>registrationTime := 0, ultimate := False\<rparr> = example_narInfo" by (simp add: example_narInfo_def)
  then show ?thesis using narinfo_roundtrip [OF ok] by simp
qed

text \<open>C11: A signature is for one path: two path infos with the same fingerprint have the same store path, NAR hash, NAR
  size and references, so a signature of one cannot be passed off for contents of another.\<close>

theorem signature_fingerprint_injective:
  assumes "signed_ok storeDir a" and "signed_ok storeDir b"
    and "fingerprintOf storeDir a = Inr f" and "fingerprintOf storeDir b = Inr f"
  shows "pi_path a = pi_path b \<and> narHash a = narHash b \<and> narSize a = narSize b \<and> references a = references b"
  using assms by (rule fingerprint_inj)

theorem signature_fingerprint_injective_witness:
  "signed_ok ''/nix/store'' example_narInfo
   \<and> references example_narInfo = references (example_narInfo\<lparr>url := ''other''\<rparr>)"
proof -
  have p: "sp_ok example_path" by code_simp
  have a: "signed_ok ''/nix/store'' example_narInfo" using p by (simp add: signed_ok_def example_narInfo_def)
  have b: "signed_ok ''/nix/store'' (example_narInfo\<lparr>url := ''other''\<rparr>)" using p by (simp add: signed_ok_def example_narInfo_def)
  obtain f where f: "fingerprintOf ''/nix/store'' example_narInfo = Inr f" by (simp add: fingerprintOf_def example_narInfo_def)
  have g: "fingerprintOf ''/nix/store'' (example_narInfo\<lparr>url := ''other''\<rparr>) = Inr f" using f by (simp add: fingerprintOf_def example_narInfo_def)
  show ?thesis using signature_fingerprint_injective [OF a b f g] a by simp
qed

text \<open>C12: Signing a path info with a secret key makes the signature check against the matching public key succeed; and a
  path info that is made from a content address is recognised as content-addressed and needs no signature.\<close>

theorem path_info_trusted:
  assumes "ed_ok ed" and "key_name_ok (sk_name key)" and "length (sk_raw key) = ED25519_KEY_BYTES"
    and "toPublicKey ed key = Inr pk" and "map_of keys (sk_name key) = Some pk"
  shows "(fingerprintOf storeDir info = Inr f \<and> signDetached ed key f = Inr sig \<longrightarrow>
      pi_sign ed storeDir key info = Inr (info\<lparr>sigs := oset_insert sig (sigs info)\<rparr>)
      \<and> checkSignature ed storeDir keys sig (info\<lparr>sigs := oset_insert sig (sigs info)\<rparr>) = Inr True)
    \<and> (newValidPathInfo digest storeDir name ca h = Inr info'
       \<and> pi_path info' \<notin> (case ca of Text ti \<Rightarrow> set (ti_references ti) | Fixed foi \<Rightarrow> set (others (foi_references foi)))
       \<longrightarrow> checkSignatures digest ed storeDir keys info' = Inr maxSigs)"
proof -
  have "fingerprintOf storeDir (info\<lparr>sigs := s\<rparr>) = fingerprintOf storeDir info" for s by (simp add: fingerprintOf_def)
  then show ?thesis
    using verify_signed [OF assms] newValidPathInfo_contentAddressed [of digest storeDir name ca h info']
    by (auto simp: pi_sign_def checkSignature_def checkSignatures_def)
qed

definition toy_ed25519 :: ed25519 where
  "toy_ed25519 = \<lparr>ed_sign = (\<lambda>sk d. replicate 64 (CHR ''s'')), ed_verify = (\<lambda>pk d s. Some True), ed_public = (\<lambda>sk. sk)\<rparr>"

definition example_key :: SecretKey where
  "example_key = \<lparr>sk_name = ''k'', sk_raw = replicate 32 (CHR ''0'')\<rparr>"

theorem path_info_trusted_witness:
  "\<exists>sig. checkSignature toy_ed25519 ''/nix/store'' [(''k'', \<lparr>pk_name = ''k'', pk_raw = replicate 32 (CHR ''0'')\<rparr>)] sig
     (example_narInfo\<lparr>sigs := oset_insert sig (sigs example_narInfo)\<rparr>) = Inr True"
proof -
  let ?keys = "[(''k'', \<lparr>pk_name = ''k'', pk_raw = replicate 32 (CHR ''0'')\<rparr>)]"
  have ed: "ed_ok toy_ed25519"
    by (simp add: ed_ok_def toy_ed25519_def ED25519_SIGNATURE_BYTES_def ED25519_KEY_BYTES_def)
  have k: "key_name_ok (sk_name example_key)" "length (sk_raw example_key) = ED25519_KEY_BYTES"
    "toPublicKey toy_ed25519 example_key = Inr \<lparr>pk_name = ''k'', pk_raw = replicate 32 (CHR ''0'')\<rparr>"
    by (simp_all add: key_name_ok_def example_key_def toPublicKey_def fromRaw_def toy_ed25519_def ED25519_KEY_BYTES_def)
  have m: "map_of ?keys (sk_name example_key) = Some \<lparr>pk_name = ''k'', pk_raw = replicate 32 (CHR ''0'')\<rparr>"
    by (simp add: example_key_def)
  obtain f where f: "fingerprintOf ''/nix/store'' example_narInfo = Inr f" by (simp add: fingerprintOf_def example_narInfo_def)
  obtain sig where s: "signDetached toy_ed25519 example_key f = Inr sig"
    by (simp add: signDetached_def toy_ed25519_def ED25519_SIGNATURE_BYTES_def)
  show ?thesis using path_info_trusted [OF ed k m] f s by blast
qed

end
