(* ===== verification/Lix_Worker_Protocol.thy ===== *)
theory Lix_Worker_Protocol
  imports Lix_Path_Info
begin

text \<open>
  The records of the worker protocol, \<^verbatim>\<open>libstore/worker-protocol.cc\<close>: path infos, optional path infos and the
  infos of substitutable paths. A time is written as a 64-bit two's complement number and read as
  an unsigned number that must not exceed the largest signed one.
\<close>

section \<open>Serialisers\<close>

definition max_time :: nat where
  "max_time = 2 ^ 63 - 1"

definition putBool :: "bool \<Rightarrow> string" where
  "putBool b = putNum (if b then 1 else 0)"

definition putTime :: "int \<Rightarrow> string" where
  "putTime t = putNum (word_of_int t)"

definition read_UnkeyedValidPathInfo :: "'s bytes_of \<Rightarrow> string \<Rightarrow> 's \<Rightarrow> (UnkeyedValidPathInfo \<times> 's) result" where
  "read_UnkeyedValidPathInfo src storeDir s =
     bindr (readString src max_size s) (\<lambda>(der, s).
     bindr (readString src max_size s) (\<lambda>(hashS, s).
     bindr (parseAny hashS (Some SHA256)) (\<lambda>h.
     bindr (if der \<noteq> [] then bindr (parseStorePath storeDir der) (\<lambda>p. Inr (Some p)) else Inr None) (\<lambda>d.
     bindr (readSet src (read_StorePath src storeDir) s) (\<lambda>(refs, s).
     bindr (readNum src max_time s) (\<lambda>(time, s).
     bindr (readNum src max_size s) (\<lambda>(nsize, s).
     bindr (readBool src s) (\<lambda>(ult, s).
     bindr (readStringSet src s) (\<lambda>(signatures, s).
     bindr (readString src max_size s) (\<lambda>(caS, s).
     bindr (ca_parseOpt caS) (\<lambda>ca.
     Inr (\<lparr>deriver = d, narHash = h, references = refs, registrationTime = int time, narSize = nsize, ultimate = ult,
           sigs = signatures, pi_ca = ca\<rparr>, s))))))))))))"

definition write_UnkeyedValidPathInfo :: "string \<Rightarrow> 'a UnkeyedValidPathInfo_scheme \<Rightarrow> string" where
  "write_UnkeyedValidPathInfo storeDir info =
     putString (case deriver info of Some p \<Rightarrow> printStorePath storeDir p | None \<Rightarrow> [])
     @ putString (base16Encode (hash_data (narHash info)))
     @ writeSet (write_StorePath storeDir) (references info)
     @ putTime (registrationTime info)
     @ putNum (word_of_nat (narSize info))
     @ putBool (ultimate info)
     @ putStringSet (sigs info)
     @ putString (renderContentAddress (pi_ca info))"

definition read_ValidPathInfo :: "'s bytes_of \<Rightarrow> string \<Rightarrow> 's \<Rightarrow> (ValidPathInfo \<times> 's) result" where
  "read_ValidPathInfo src storeDir s =
     bindr (read_StorePath src storeDir s) (\<lambda>(p, s).
     bindr (read_UnkeyedValidPathInfo src storeDir s) (\<lambda>(info, s).
     Inr (UnkeyedValidPathInfo.extend info (ValidPathInfo.fields p), s)))"

definition write_ValidPathInfo :: "string \<Rightarrow> ValidPathInfo \<Rightarrow> string" where
  "write_ValidPathInfo storeDir info =
     write_StorePath storeDir (pi_path info) @ write_UnkeyedValidPathInfo storeDir (UnkeyedValidPathInfo.truncate info)"

definition read_PathInfoOpt :: "'s bytes_of \<Rightarrow> string \<Rightarrow> 's \<Rightarrow> (UnkeyedValidPathInfo option \<times> 's) result" where
  "read_PathInfoOpt src storeDir s =
     bindr (readBool src s) (\<lambda>(valid, s).
     if valid then bindr (read_UnkeyedValidPathInfo src storeDir s) (\<lambda>(info, s). Inr (Some info, s)) else Inr (None, s))"

definition write_PathInfoOpt :: "string \<Rightarrow> UnkeyedValidPathInfo option \<Rightarrow> string" where
  "write_PathInfoOpt storeDir info =
     putBool (info \<noteq> None) @ (case info of Some i \<Rightarrow> write_UnkeyedValidPathInfo storeDir i | None \<Rightarrow> [])"

definition read_SubstitutablePathInfo :: "'s bytes_of \<Rightarrow> string \<Rightarrow> 's \<Rightarrow> (SubstitutablePathInfo \<times> 's) result" where
  "read_SubstitutablePathInfo src storeDir s =
     bindr (readString src max_size s) (\<lambda>(der, s).
     bindr (if der \<noteq> [] then bindr (parseStorePath storeDir der) (\<lambda>p. Inr (Some p)) else Inr None) (\<lambda>d.
     bindr (readSet src (read_StorePath src storeDir) s) (\<lambda>(refs, s).
     bindr (readNum src max_size s) (\<lambda>(dsize, s).
     bindr (readNum src max_size s) (\<lambda>(nsize, s).
     Inr (\<lparr>spi_deriver = d, spi_references = refs, downloadSize = dsize, spi_narSize = nsize\<rparr>, s))))))"

definition write_SubstitutablePathInfo :: "string \<Rightarrow> SubstitutablePathInfo \<Rightarrow> string" where
  "write_SubstitutablePathInfo storeDir info =
     putString (case spi_deriver info of Some p \<Rightarrow> printStorePath storeDir p | None \<Rightarrow> [])
     @ writeSet (write_StorePath storeDir) (spi_references info)
     @ putNum (word_of_nat (downloadSize info))
     @ putNum (word_of_nat (spi_narSize info))"

section \<open>Reading back\<close>

definition path_sent_ok :: "string \<Rightarrow> StorePath \<Rightarrow> bool" where
  "path_sent_ok storeDir p \<longleftrightarrow> canonical storeDir \<and> sp_ok p \<and> str_ok (printStorePath storeDir p)"

definition paths_sent_ok :: "string \<Rightarrow> StorePath oset \<Rightarrow> bool" where
  "paths_sent_ok storeDir ps \<longleftrightarrow> length ps \<le> max_size \<and> oset_ok ps \<and> (\<forall>p \<in> set ps. path_sent_ok storeDir p)"

lemma readBool_putBool: "readBool source_bytes (putBool b @ r) = Inr (b, r)"
  using source_bytes.readNum_putNum [of "if b then 1 else 0" max_size r]
  by (cases b) (simp_all add: readBool_def putBool_def max_size_def)

lemma readTime_putTime:
  assumes "0 \<le> t" and "t < 2 ^ 63"
  shows "readNum source_bytes max_time (putTime t @ r) = Inr (nat t, r)"
proof -
  have "word_of_int t = (word_of_nat (nat t) :: 64 word)" using assms(1) by simp
  moreover have "nat t \<le> max_time" using assms by (simp add: max_time_def nat_less_iff le_simps(2) [symmetric])
  ultimately show ?thesis
    using source_bytes.readNum_of_nat [of "nat t" max_time r] by (simp add: putTime_def max_time_def max_size_def)
qed

lemma readNum_size: "n < 2 ^ 64 \<Longrightarrow> readNum source_bytes max_size (putNum (word_of_nat n) @ r) = Inr (n, r)"
  by (rule source_bytes.readNum_of_nat) (simp_all add: max_size_def)

lemma readPathSet:
  "paths_sent_ok storeDir ps \<Longrightarrow>
   readSet source_bytes (read_StorePath source_bytes storeDir) (writeSet (write_StorePath storeDir) ps @ r) = Inr (ps, r)"
  using path_items.readSet_put [of ps storeDir r] by (simp add: paths_sent_ok_def path_sent_ok_def)

definition deriver_string :: "string \<Rightarrow> StorePath option \<Rightarrow> string" where
  "deriver_string storeDir d = (case d of Some p \<Rightarrow> printStorePath storeDir p | None \<Rightarrow> [])"

lemma deriver_back:
  assumes "\<forall>p. d = Some p \<longrightarrow> path_sent_ok storeDir p"
  shows "readString source_bytes max_size (putString (deriver_string storeDir d) @ r) = Inr (deriver_string storeDir d, r)"
    "(if deriver_string storeDir d \<noteq> []
      then bindr (parseStorePath storeDir (deriver_string storeDir d)) (\<lambda>p. Inr (Some p)) else Inr None) = Inr d"
proof -
  show "readString source_bytes max_size (putString (deriver_string storeDir d) @ r) = Inr (deriver_string storeDir d, r)"
    using assms by (intro source_bytes.readString_putString)
      (auto simp: deriver_string_def path_sent_ok_def max_size_def split: option.splits)
  show "(if deriver_string storeDir d \<noteq> []
      then bindr (parseStorePath storeDir (deriver_string storeDir d)) (\<lambda>p. Inr (Some p)) else Inr None) = Inr d"
  proof (cases d)
    case (Some p)
    then have "path_sent_ok storeDir p" using assms by blast
    then show ?thesis
      using Some parse_sp_ok [of storeDir p] printStorePath_absolute [of storeDir p]
      by (simp add: deriver_string_def path_sent_ok_def)
  qed (simp add: deriver_string_def)
qed

definition info_sent_ok :: "string \<Rightarrow> 'a UnkeyedValidPathInfo_scheme \<Rightarrow> bool" where
  "info_sent_ok storeDir info \<longleftrightarrow>
     (\<forall>p. deriver info = Some p \<longrightarrow> path_sent_ok storeDir p)
     \<and> hash_type (narHash info) = SHA256 \<and> hash_ok (narHash info) \<and> paths_sent_ok storeDir (references info)
     \<and> 0 \<le> registrationTime info \<and> registrationTime info < 2 ^ 63 \<and> narSize info < 2 ^ 64
     \<and> oset_ok (sigs info) \<and> length (sigs info) \<le> max_size \<and> (\<forall>x \<in> set (sigs info). str_ok x)
     \<and> (\<forall>ca. pi_ca info = Some ca \<longrightarrow> hash_ok (ca_hash ca)) \<and> str_ok (renderContentAddress (pi_ca info))"

lemma ca_back:
  assumes "\<forall>ca. o1 = Some ca \<longrightarrow> hash_ok (ca_hash ca)"
  shows "ca_parseOpt (renderContentAddress o1) = Inr o1"
proof (cases o1)
  case (Some ca)
  have "ca_render ca \<noteq> []" by (cases "ca_method ca") (auto simp: ca_render_cam)
  then show ?thesis using Some assms ca_parse_render by (simp add: ca_parseOpt_def renderContentAddress_def)
qed (simp add: ca_parseOpt_def renderContentAddress_def)

lemma narHash_back:
  assumes "hash_type h = SHA256" and "hash_ok h"
  shows "readString source_bytes max_size (putString (base16Encode (hash_data h)) @ r) = Inr (base16Encode (hash_data h), r)"
    "parseAny (base16Encode (hash_data h)) (Some SHA256) = Inr h"
proof -
  have len: "length (base16Encode (hash_data h)) = 64"
    using assms by (simp add: hash_ok_def base16Encode_length base16Size_def)
  show "readString source_bytes max_size (putString (base16Encode (hash_data h)) @ r) = Inr (base16Encode (hash_data h), r)"
    by (rule source_bytes.readString_putString) (simp_all add: len max_size_def)
  have "CHR '':'' \<notin> set base16Chars" "CHR ''-'' \<notin> set base16Chars" by code_simp+
  then have "getParsedTypeAndSRI (base16Encode (hash_data h)) = Inr (None, False, base16Encode (hash_data h))"
    using base16Encode_subset [of "hash_data h"] by (intro getParsedTypeAndSRI_none) blast+
  then show "parseAny (base16Encode (hash_data h)) (Some SHA256) = Inr h"
    using hashOfRest_base16 [OF assms(2)] assms(1) by (simp add: parseAny_def)
qed

lemma read_write_UnkeyedValidPathInfo:
  assumes ok: "info_sent_ok storeDir info"
  shows "read_UnkeyedValidPathInfo source_bytes storeDir (write_UnkeyedValidPathInfo storeDir info @ r) = Inr (info, r)"
proof -
  have der: "\<forall>p. deriver info = Some p \<longrightarrow> path_sent_ok storeDir p" using ok by (simp add: info_sent_ok_def)
  have h: "hash_type (narHash info) = SHA256" "hash_ok (narHash info)" using ok by (simp_all add: info_sent_ok_def)
  have parts: "readSet source_bytes (read_StorePath source_bytes storeDir) (writeSet (write_StorePath storeDir) (references info) @ s)
        = Inr (references info, s)"
    "readNum source_bytes max_time (putTime (registrationTime info) @ s) = Inr (nat (registrationTime info), s)"
    "readNum source_bytes max_size (putNum (word_of_nat (narSize info)) @ s) = Inr (narSize info, s)"
    "readStringSet source_bytes (putStringSet (sigs info) @ s) = Inr (sigs info, s)"
    "readString source_bytes max_size (putString (renderContentAddress (pi_ca info)) @ s) = Inr (renderContentAddress (pi_ca info), s)"
    "ca_parseOpt (renderContentAddress (pi_ca info)) = Inr (pi_ca info)" for s
    using ok by (simp_all add: info_sent_ok_def readPathSet readTime_putTime readNum_size
        source_bytes.readStringSet_putStringSet source_bytes.readString_putString ca_back)
  have time: "0 \<le> registrationTime info" using ok by (simp add: info_sent_ok_def)
  show ?thesis
    unfolding write_UnkeyedValidPathInfo_def deriver_string_def [symmetric] read_UnkeyedValidPathInfo_def
    by (simp add: deriver_back [OF der, simplified] narHash_back [OF h] parts readBool_putBool time)
qed

lemma read_write_ValidPathInfo:
  assumes "path_sent_ok storeDir (pi_path info)" and "info_sent_ok storeDir info"
  shows "read_ValidPathInfo source_bytes storeDir (write_ValidPathInfo storeDir info @ r) = Inr (info, r)"
proof -
  have "info_sent_ok storeDir (UnkeyedValidPathInfo.truncate info)"
    using assms(2) by (simp add: info_sent_ok_def UnkeyedValidPathInfo.defs)
  moreover have "read_StorePath source_bytes storeDir (write_StorePath storeDir (pi_path info) @ s) = Inr (pi_path info, s)" for s
    using assms(1) by (simp add: path_sent_ok_def read_write_StorePath)
  ultimately show ?thesis
    unfolding read_ValidPathInfo_def write_ValidPathInfo_def
    by (simp add: read_write_UnkeyedValidPathInfo UnkeyedValidPathInfo.defs ValidPathInfo.defs)
qed

lemma read_write_PathInfoOpt:
  assumes "\<forall>i. info = Some i \<longrightarrow> info_sent_ok storeDir i"
  shows "read_PathInfoOpt source_bytes storeDir (write_PathInfoOpt storeDir info @ r) = Inr (info, r)"
  using assms by (cases info)
    (simp_all add: read_PathInfoOpt_def write_PathInfoOpt_def readBool_putBool read_write_UnkeyedValidPathInfo)

definition spi_sent_ok :: "string \<Rightarrow> SubstitutablePathInfo \<Rightarrow> bool" where
  "spi_sent_ok storeDir info \<longleftrightarrow>
     (\<forall>p. spi_deriver info = Some p \<longrightarrow> path_sent_ok storeDir p)
     \<and> paths_sent_ok storeDir (spi_references info) \<and> downloadSize info < 2 ^ 64 \<and> spi_narSize info < 2 ^ 64"

lemma read_write_SubstitutablePathInfo:
  assumes ok: "spi_sent_ok storeDir info"
  shows "read_SubstitutablePathInfo source_bytes storeDir (write_SubstitutablePathInfo storeDir info @ r) = Inr (info, r)"
proof -
  have der: "\<forall>p. spi_deriver info = Some p \<longrightarrow> path_sent_ok storeDir p" using ok by (simp add: spi_sent_ok_def)
  show ?thesis
    using ok unfolding write_SubstitutablePathInfo_def deriver_string_def [symmetric] read_SubstitutablePathInfo_def
    by (simp add: deriver_back [OF der, simplified] spi_sent_ok_def readPathSet readNum_size)
qed

section \<open>Properties\<close>

text \<open>C14: What the worker protocol sends about a path is read back: a valid path info with or without its path, the optional
  path info of a query, and the info of a substitutable path, in each case leaving what follows unread.\<close>

theorem worker_path_info_roundtrip:
  assumes "path_sent_ok storeDir (pi_path info)" and "info_sent_ok storeDir info"
    and "\<forall>i. opt = Some i \<longrightarrow> info_sent_ok storeDir i" and "spi_sent_ok storeDir spi"
  shows "read_ValidPathInfo source_bytes storeDir (write_ValidPathInfo storeDir info @ r) = Inr (info, r)
    \<and> read_PathInfoOpt source_bytes storeDir (write_PathInfoOpt storeDir opt @ r) = Inr (opt, r)
    \<and> read_SubstitutablePathInfo source_bytes storeDir (write_SubstitutablePathInfo storeDir spi @ r) = Inr (spi, r)"
  using assms read_write_ValidPathInfo read_write_PathInfoOpt read_write_SubstitutablePathInfo by blast

definition example_info :: ValidPathInfo where
  "example_info = \<lparr>deriver = None, narHash = zeroHash 32 SHA256, references = [example_path], registrationTime = 5,
     narSize = 7, ultimate = True, sigs = [''k:s''], pi_ca = None, pi_path = example_path\<rparr>"

theorem worker_path_info_roundtrip_witness:
  "read_ValidPathInfo source_bytes ''/nix/store'' (write_ValidPathInfo ''/nix/store'' example_info @ ''rest'') = Inr (example_info, ''rest'')"
proof -
  have "canonical ''/nix/store''" "sp_ok example_path" "hash_ok (zeroHash 32 SHA256)"
    "length (printStorePath ''/nix/store'' example_path) \<le> 100" by code_simp+
  then have p: "path_sent_ok ''/nix/store'' example_path" by (simp add: path_sent_ok_def max_size_def)
  have i: "path_sent_ok ''/nix/store'' (pi_path example_info)" "info_sent_ok ''/nix/store'' example_info"
    using p \<open>hash_ok _\<close>
    by (simp_all add: example_info_def info_sent_ok_def paths_sent_ok_def max_size_def zeroHash_def renderContentAddress_def)
  have s: "spi_sent_ok ''/nix/store'' \<lparr>spi_deriver = None, spi_references = [example_path], downloadSize = 1, spi_narSize = 2\<rparr>"
    using p by (simp add: spi_sent_ok_def paths_sent_ok_def max_size_def)
  show ?thesis using worker_path_info_roundtrip [OF i, of None, OF _ s] by simp
qed

end
