(* ===== verification/Lix_Closure.thy ===== *)
theory Lix_Closure
  imports Lix_Topo_Sort
begin

text \<open>
  \<^verbatim>\<open>libutil/closure.hh\<close>: the breadth-first computation of a closure, with a total and with a fallible (awaited)
  function for the edges, and the fallible variant of the topological sort in \<^verbatim>\<open>libutil/topo-sort.hh\<close>. The loop over the
  levels of the search may run forever on an infinite graph, so it is a partial function whose value \<open>None\<close> means that
  it does not return; on a finite graph it always returns (\<open>computeClosure_total\<close>).
\<close>

section \<open>The closure of a set\<close>

definition oset_merge :: "'a::linorder oset \<Rightarrow> 'a oset \<Rightarrow> 'a oset" where
  "oset_merge next xs = fold oset_insert xs next"

lemma oset_merge [simp]:
  "set (oset_merge next xs) = set next \<union> set xs"
  "oset_ok next \<Longrightarrow> oset_ok (oset_merge next xs)"
  by (auto simp: oset_merge_def set_fold_oset_insert oset_ok_fold)

fun closure_level :: "('a::linorder \<Rightarrow> 'a oset) \<Rightarrow> 'a list \<Rightarrow> 'a oset \<Rightarrow> 'a oset \<Rightarrow> 'a oset \<times> 'a oset" where
  "closure_level getEdges [] res next = (res, next)"
| "closure_level getEdges (e # queue) res next =
     (if e \<in> set res then closure_level getEdges queue res next
      else closure_level getEdges queue (oset_insert e res) (oset_merge next (getEdges e)))"

partial_function (option) closure_loop ::
  "('a::linorder \<Rightarrow> 'a oset) \<Rightarrow> 'a oset \<Rightarrow> 'a oset \<Rightarrow> 'a oset option" where
  [code]: "closure_loop getEdges queue res =
     (if queue = [] then Some res
      else closure_loop getEdges (snd (closure_level getEdges queue res [])) (fst (closure_level getEdges queue res [])))"

definition computeClosure :: "'a::linorder oset \<Rightarrow> ('a \<Rightarrow> 'a oset) \<Rightarrow> 'a oset option" where
  "computeClosure startElts getEdges = closure_loop getEdges startElts []"

fun closureAsync_level ::
  "('a::linorder \<Rightarrow> 'a oset result) \<Rightarrow> 'a list \<Rightarrow> 'a oset \<Rightarrow> 'a oset \<Rightarrow> ('a oset \<times> 'a oset) result" where
  "closureAsync_level getEdges [] res next = Inr (res, next)"
| "closureAsync_level getEdges (e # queue) res next =
     (if e \<in> set res then closureAsync_level getEdges queue res next
      else bindr (getEdges e) (\<lambda>es. closureAsync_level getEdges queue (oset_insert e res) (oset_merge next es)))"

partial_function (option) closureAsync_loop ::
  "('a::linorder \<Rightarrow> 'a oset result) \<Rightarrow> 'a oset \<Rightarrow> 'a oset \<Rightarrow> 'a oset result option" where
  [code]: "closureAsync_loop getEdges queue res =
     (if queue = [] then Some (Inr res)
      else case closureAsync_level getEdges queue res [] of
          Inl e \<Rightarrow> Some (Inl e)
        | Inr r \<Rightarrow> closureAsync_loop getEdges (snd r) (fst r))"

definition computeClosureAsync :: "'a::linorder oset \<Rightarrow> ('a \<Rightarrow> 'a oset result) \<Rightarrow> 'a oset result option" where
  "computeClosureAsync startElts getEdges = closureAsync_loop getEdges startElts []"

section \<open>The closure is the reachable set\<close>

definition succ_rel :: "('a \<Rightarrow> 'a oset result) \<Rightarrow> ('a \<times> 'a) set" where
  "succ_rel getEdges = {(x, y). \<exists>es. getEdges x = Inr es \<and> y \<in> set es}"

definition reach :: "('a \<Rightarrow> 'a oset result) \<Rightarrow> 'a set \<Rightarrow> 'a set" where
  "reach getEdges start = (succ_rel getEdges)\<^sup>* `` start"

lemma succ_rel_Inr [simp]: "getEdges x = Inr es \<Longrightarrow> (x, y) \<in> succ_rel getEdges \<longleftrightarrow> y \<in> set es"
  by (auto simp: succ_rel_def)

lemma reach_start: "start \<subseteq> reach getEdges start"
  by (auto simp: reach_def)

lemma reach_step: "x \<in> reach getEdges start \<Longrightarrow> getEdges x = Inr es \<Longrightarrow> set es \<subseteq> reach getEdges start"
  by (auto simp: reach_def succ_rel_def intro: rtrancl_into_rtrancl)

lemma reach_least:
  assumes "start \<subseteq> S" and "\<And>x es. x \<in> S \<Longrightarrow> getEdges x = Inr es \<Longrightarrow> set es \<subseteq> S"
  shows "reach getEdges start \<subseteq> S"
proof
  fix y assume "y \<in> reach getEdges start"
  then obtain x where x: "x \<in> start" and xy: "(x, y) \<in> (succ_rel getEdges)\<^sup>*" by (auto simp: reach_def)
  from xy x show "y \<in> S"
  proof (induction rule: rtrancl_induct)
    case base
    then show ?case using assms(1) by blast
  next
    case (step y z)
    then show ?case using assms(2) by (auto simp: succ_rel_def)
  qed
qed

text \<open>
  The invariant of the search: what is done or queued was reachable, and every edge out of something done leads to
  something done or queued.
\<close>

definition search_inv :: "('a::linorder \<Rightarrow> 'a oset result) \<Rightarrow> 'a set \<Rightarrow> 'a set \<Rightarrow> 'a oset \<Rightarrow> bool" where
  "search_inv getEdges start pending res \<longleftrightarrow>
     oset_ok res \<and> start \<subseteq> set res \<union> pending \<and> set res \<union> pending \<subseteq> reach getEdges start
     \<and> (\<forall>x \<in> set res. \<exists>es. getEdges x = Inr es \<and> set es \<subseteq> set res \<union> pending)"

lemma search_inv_start: "search_inv getEdges start start []"
  using reach_start [of start getEdges] by (auto simp: search_inv_def)

lemma search_inv_done: "search_inv getEdges start {} res \<Longrightarrow> set res = reach getEdges start"
  using reach_least [of start "set res" getEdges] by (fastforce simp: search_inv_def)

lemma search_inv_visit:
  assumes "search_inv getEdges start (insert e (set queue) \<union> set next) res" and "getEdges e = Inr es"
  shows "search_inv getEdges start (set queue \<union> set (oset_merge next es)) (oset_insert e res)"
  using assms reach_step [of e getEdges start es] by (fastforce simp: search_inv_def)

lemma closureAsync_level_ok:
  assumes "search_inv getEdges start (set queue \<union> set next) res" and "oset_ok next"
  shows "case closureAsync_level getEdges queue res next of
      Inl err \<Rightarrow> \<exists>x \<in> reach getEdges start. getEdges x = Inl err
    | Inr (res', next') \<Rightarrow> search_inv getEdges start (set next') res' \<and> oset_ok next' \<and> set res \<subseteq> set res'
        \<and> set queue \<subseteq> set res' \<and> (set res' \<subseteq> set res \<longrightarrow> next' = next)"
  using assms
proof (induction getEdges queue res "next" rule: closureAsync_level.induct)
  case (1 getEdges res "next")
  then show ?case by simp
next
  case (2 getEdges e queue res "next")
  show ?case
  proof (cases "e \<in> set res")
    case True
    then have "set res \<union> (set (e # queue) \<union> set next) = set res \<union> (set queue \<union> set next)" by auto
    then have "search_inv getEdges start (set queue \<union> set next) res" using 2(3) unfolding search_inv_def by metis
    then show ?thesis using 2(1) [OF True _ 2(4)] True by (auto split: sum.splits)
  next
    case False
    show ?thesis
    proof (cases "getEdges e")
      case (Inl err)
      then show ?thesis using False 2(3) by (auto simp: search_inv_def)
    next
      case (Inr es)
      have "search_inv getEdges start (set queue \<union> set (oset_merge next es)) (oset_insert e res)"
        using 2(3) Inr by (intro search_inv_visit) auto
      then show ?thesis using 2(2) [OF False _] Inr False 2(4) by (auto split: sum.splits)
    qed
  qed
qed

lemma closureAsync_loop_ok:
  assumes "finite (reach getEdges start)" and "search_inv getEdges start (set queue) res" and "oset_ok queue"
  shows "case closureAsync_loop getEdges queue res of
      None \<Rightarrow> False
    | Some (Inl err) \<Rightarrow> \<exists>x \<in> reach getEdges start. getEdges x = Inl err
    | Some (Inr res') \<Rightarrow> oset_ok res' \<and> set res' = reach getEdges start
        \<and> (\<forall>x \<in> reach getEdges start. \<exists>es. getEdges x = Inr es)"
  using assms(2,3)
proof (induction "2 * card (reach getEdges start - set res) + (if queue = [] then 0 else 1)"
    arbitrary: queue res rule: less_induct)
  case less
  show ?case
  proof (cases "queue = []")
    case True
    then show ?thesis using less.prems search_inv_done [of getEdges start res]
      by (simp add: closureAsync_loop.simps) (auto simp: search_inv_def)
  next
    case False
    note level = closureAsync_level_ok [of getEdges start queue "[]" res]
    show ?thesis
    proof (cases "closureAsync_level getEdges queue res []")
      case (Inl err)
      then show ?thesis using level less.prems False by (simp add: closureAsync_loop.simps)
    next
      case (Inr r)
      obtain res' next' where r: "r = (res', next')" by fastforce
      have l: "search_inv getEdges start (set next') res'" "oset_ok next'" "set res \<subseteq> set res'"
        "set res' \<subseteq> set res \<longrightarrow> next' = []"
        using level less.prems Inr r by auto
      have sub: "set res' \<subseteq> reach getEdges start" using l(1) by (simp add: search_inv_def)
      have "2 * card (reach getEdges start - set res') + (if next' = [] then 0 else 1)
          < 2 * card (reach getEdges start - set res) + (if queue = [] then 0 else (1::nat))"
      proof (cases "set res' \<subseteq> set res")
        case True
        then show ?thesis using l(3,4) False by auto
      next
        case False
        then have "reach getEdges start - set res' \<subset> reach getEdges start - set res" using l(3) sub by auto
        then have "card (reach getEdges start - set res') < card (reach getEdges start - set res)"
          using assms(1) by (intro psubset_card_mono) auto
        then show ?thesis by auto
      qed
      from less.hyps [OF this l(1,2)] show ?thesis
        using False Inr r by (subst closureAsync_loop.simps) simp
    qed
  qed
qed

lemma computeClosureAsync_total:
  assumes "finite (reach getEdges (set start))" and "oset_ok start"
  shows "case computeClosureAsync start getEdges of
      None \<Rightarrow> False
    | Some (Inl err) \<Rightarrow> \<exists>x \<in> reach getEdges (set start). getEdges x = Inl err
    | Some (Inr res) \<Rightarrow> oset_ok res \<and> set res = reach getEdges (set start)
        \<and> (\<forall>x \<in> reach getEdges (set start). \<exists>es. getEdges x = Inr es)"
  using closureAsync_loop_ok [OF assms(1) search_inv_start assms(2)] by (simp add: computeClosureAsync_def)

text \<open>With edges that cannot fail both variants are the same loop.\<close>

lemma closureAsync_level_pure:
  "closureAsync_level (\<lambda>x. Inr (g x)) queue res next = Inr (closure_level g queue res next)"
  by (induction g queue res "next" rule: closure_level.induct) simp_all

lemma closureAsync_loop_pure_aux:
  assumes "closure_loop g queue res = Some r"
  shows "closureAsync_loop (\<lambda>x. Inr (g x)) queue res = Some (Inr r)"
  using assms
  by (rule closure_loop.raw_induct [rotated, where P = "\<lambda>g queue res r. closureAsync_loop (\<lambda>x. Inr (g x)) queue res = Some (Inr r)"])
    (subst closureAsync_loop.simps, auto simp: closureAsync_level_pure split: if_splits)

lemma closure_loop_pure_aux:
  assumes "closureAsync_loop (\<lambda>x. Inr (g x)) queue res = Some r"
  shows "map_option Inr (closure_loop g queue res) = Some r"
proof -
  have "\<forall>g. gr = (\<lambda>x. Inr (g x)) \<longrightarrow> map_option Inr (closure_loop g queue res) = Some r"
    if "closureAsync_loop gr queue res = Some r" for gr
    using that
    by (rule closureAsync_loop.raw_induct [rotated,
          where P = "\<lambda>gr queue res r. \<forall>g. gr = (\<lambda>x. Inr (g x)) \<longrightarrow> map_option Inr (closure_loop g queue res) = Some r"])
      (subst closure_loop.simps, auto simp: closureAsync_level_pure split: if_splits)
  then show ?thesis using assms by blast
qed

lemma computeClosureAsync_pure: "computeClosureAsync start (\<lambda>x. Inr (g x)) = map_option Inr (computeClosure start g)"
  unfolding computeClosureAsync_def computeClosure_def
  using closureAsync_loop_pure_aux [of g start "[]"] closure_loop_pure_aux [of g start "[]"]
  by (cases "closure_loop g start []"; cases "closureAsync_loop (\<lambda>x. Inr (g x)) start []") auto

lemma computeClosure_total:
  assumes "finite (reach (\<lambda>x. Inr (g x)) (set start))" and "oset_ok start"
  shows "\<exists>res. computeClosure start g = Some res \<and> oset_ok res \<and> set res = reach (\<lambda>x. Inr (g x)) (set start)"
  using computeClosureAsync_total [OF assms] by (auto simp: computeClosureAsync_pure split: option.splits)

section \<open>Topological sort with fallible references\<close>

definition cycleError :: "('a \<Rightarrow> 'a \<Rightarrow> error) \<Rightarrow> 'a \<Rightarrow> 'a option \<Rightarrow> error" where
  "cycleError makeCycleError path parent =
     (case parent of Some p \<Rightarrow> makeCycleError path p | None \<Rightarrow> UndefinedBehaviour ''null pointer'')"

fun dfsChildrenAsync ::
  "('a \<Rightarrow> 'a option \<Rightarrow> 'a dfs \<Rightarrow> 'a dfs result option) \<Rightarrow> 'a oset \<Rightarrow> 'a \<Rightarrow> 'a list \<Rightarrow> 'a dfs \<Rightarrow> 'a dfs result option" where
  "dfsChildrenAsync visit items path [] st = Some (Inr st)"
| "dfsChildrenAsync visit items path (i # references) st =
     (if i \<noteq> path \<and> i \<in> set items then
        (case visit i (Some path) st of
           Some (Inr st') \<Rightarrow> dfsChildrenAsync visit items path references st'
         | r \<Rightarrow> r)
      else dfsChildrenAsync visit items path references st)"

fun dfsVisitAsync ::
  "nat \<Rightarrow> 'a::linorder oset \<Rightarrow> ('a \<Rightarrow> 'a oset result) \<Rightarrow> ('a \<Rightarrow> 'a \<Rightarrow> error) \<Rightarrow> 'a \<Rightarrow> 'a option \<Rightarrow> 'a dfs \<Rightarrow>
   'a dfs result option" where
  "dfsVisitAsync 0 items getChildren makeCycleError path parent st = None"
| "dfsVisitAsync (Suc n) items getChildren makeCycleError path parent st =
     (if path \<in> set (parents st) then Some (Inl (cycleError makeCycleError path parent))
      else if path \<in> set (visited st) then Some (Inr st)
      else case getChildren path of
          Inl e \<Rightarrow> Some (Inl e)
        | Inr references \<Rightarrow>
            let st1 = st\<lparr>visited := oset_insert path (visited st), parents := oset_insert path (parents st)\<rparr>
            in case dfsChildrenAsync (dfsVisitAsync n items getChildren makeCycleError) items path references st1 of
                 Some (Inr st2) \<Rightarrow>
                   Some (Inr (st2\<lparr>sorted := sorted st2 @ [path], parents := removeAll path (parents st2)\<rparr>))
               | r \<Rightarrow> r)"

fun dfsRootsAsync ::
  "nat \<Rightarrow> 'a::linorder oset \<Rightarrow> ('a \<Rightarrow> 'a oset result) \<Rightarrow> ('a \<Rightarrow> 'a \<Rightarrow> error) \<Rightarrow> 'a list \<Rightarrow> 'a dfs \<Rightarrow>
   'a dfs result option" where
  "dfsRootsAsync n items getChildren makeCycleError [] st = Some (Inr st)"
| "dfsRootsAsync n items getChildren makeCycleError (i # is) st =
     (case dfsVisitAsync n items getChildren makeCycleError i None st of
        Some (Inr st') \<Rightarrow> dfsRootsAsync n items getChildren makeCycleError is st'
      | r \<Rightarrow> r)"

definition topoSortAsync ::
  "'a::linorder oset \<Rightarrow> ('a \<Rightarrow> 'a oset result) \<Rightarrow> ('a \<Rightarrow> 'a \<Rightarrow> error) \<Rightarrow> 'a list result option" where
  "topoSortAsync items getChildren makeCycleError =
     (case dfsRootsAsync (Suc (length items)) items getChildren makeCycleError items
         \<lparr>sorted = [], visited = [], parents = []\<rparr> of
        None \<Rightarrow> None
      | Some (Inl e) \<Rightarrow> Some (Inl e)
      | Some (Inr st) \<Rightarrow> Some (Inr (rev (sorted st))))"

text \<open>
  The fallible sort follows the total sort on the references that are known, up to the first failure to get references.
\<close>

definition known :: "('a \<Rightarrow> 'a oset result) \<Rightarrow> 'a \<Rightarrow> 'a oset" where
  "known gc x = (case gc x of Inr es \<Rightarrow> es | Inl _ \<Rightarrow> [])"

fun follows ::
  "'a::linorder oset \<Rightarrow> ('a \<Rightarrow> 'a oset result) \<Rightarrow> ('a \<Rightarrow> 'a \<Rightarrow> error) \<Rightarrow> 'a dfs \<Rightarrow> 'a dfs result option \<Rightarrow>
   ('a Cycle + 'a dfs) option \<Rightarrow> bool" where
  "follows items gc mk st None r \<longleftrightarrow> r = None"
| "follows items gc mk st (Some (Inr st')) r \<longleftrightarrow>
     r = Some (Inr st') \<and> set (visited st) \<subseteq> set (visited st') \<and> (\<forall>x \<in> set (visited st') - set (visited st). \<not> isl (gc x))"
| "follows items gc mk st (Some (Inl e)) r \<longleftrightarrow>
     (\<exists>x \<in> set items. gc x = Inl e) \<or> (\<exists>x p. r = Some (Inl (Cycle x p)) \<and> e = cycleError mk x p)"

lemma follows_chain:
  assumes "follows items gc mk st (Some (Inr st')) r0" and "follows items gc mk st' ra r"
  shows "follows items gc mk st ra r"
  using assms by (cases "(items, gc, mk, st', ra, r)" rule: follows.cases) auto

lemma dfsChildrenAsync_follows:
  assumes "\<And>i st. i \<in> set items \<Longrightarrow> follows items gc mk st (visitA i (Some path) st) (visit i (Some path) st)"
  shows "follows items gc mk st (dfsChildrenAsync visitA items path refs st) (dfsChildren visit items path refs st)"
proof (induction refs arbitrary: st)
  case (Cons i refs)
  show ?case
  proof (cases "i \<noteq> path \<and> i \<in> set items")
    case True
    then have "follows items gc mk st (visitA i (Some path) st) (visit i (Some path) st)" using assms by blast
    then show ?thesis
    proof (cases rule: follows.elims(2))
      case (2 _ _ _ st')
      then show ?thesis using True follows_chain [OF _ Cons.IH [of st'], of st "visit i (Some path) st"] by simp
    qed (use True in auto)
  qed (use Cons.IH in auto)
qed simp

lemma dfsVisitAsync_follows:
  "path \<in> set items \<Longrightarrow>
   follows items gc mk st (dfsVisitAsync n items gc mk path parent st) (dfsVisit n items (known gc) path parent st)"
proof (induction n arbitrary: path parent st)
  case (Suc n)
  show ?case
  proof (cases "path \<in> set (parents st) \<or> path \<in> set (visited st)")
    case True
    then show ?thesis by auto
  next
    case False
    show ?thesis
    proof (cases "gc path")
      case (Inl e)
      then show ?thesis using False Suc.prems by auto
    next
      case (Inr refs)
      let ?st = "st\<lparr>visited := oset_insert path (visited st), parents := oset_insert path (parents st)\<rparr>"
      have k: "known gc path = refs" using Inr by (simp add: known_def)
      have "follows items gc mk ?st (dfsChildrenAsync (dfsVisitAsync n items gc mk) items path refs ?st)
          (dfsChildren (dfsVisit n items (known gc)) items path refs ?st)"
        by (rule dfsChildrenAsync_follows) (rule Suc.IH)
      then show ?thesis
        by (cases rule: follows.elims(2)) (use False Inr k in auto)
    qed
  qed
qed simp

lemma dfsRootsAsync_follows:
  "set is \<subseteq> set items \<Longrightarrow>
   follows items gc mk st (dfsRootsAsync n items gc mk is st) (dfsRoots n items (known gc) is st)"
proof (induction "is" arbitrary: st)
  case (Cons i "is")
  then have "follows items gc mk st (dfsVisitAsync n items gc mk i None st) (dfsVisit n items (known gc) i None st)"
    by (intro dfsVisitAsync_follows) simp
  then show ?case
  proof (cases rule: follows.elims(2))
    case (2 _ _ _ st')
    then show ?thesis
      using follows_chain [OF _ Cons.IH [of st'], of st "dfsVisit n items (known gc) i None st"] Cons.prems by simp
  qed auto
qed simp

lemma topoSortAsync_outcome:
  "case topoSortAsync items gc mk of
     None \<Rightarrow> False
   | Some (Inr xs) \<Rightarrow> distinct xs \<and> set xs = set items \<and> (\<forall>x \<in> set items. \<not> isl (gc x))
       \<and> references_after (edges items (known gc)) xs
   | Some (Inl e) \<Rightarrow> (\<exists>x \<in> set items. gc x = Inl e)
       \<or> (\<exists>x y. e = mk x y \<and> (y, x) \<in> edges items (known gc) \<and> (x, x) \<in> (edges items (known gc))\<^sup>+)"
proof -
  let ?st = "\<lparr>sorted = [], visited = [], parents = []\<rparr> :: 'a dfs"
  note outcome = topoSort_outcome [of items "known gc"]
  have "follows items gc mk ?st (dfsRootsAsync (Suc (length items)) items gc mk items ?st)
      (dfsRoots (Suc (length items)) items (known gc) items ?st)"
    by (rule dfsRootsAsync_follows) simp
  then show ?thesis
  proof (cases rule: follows.elims(2))
    case 1
    then show ?thesis using outcome by simp
  next
    case (2 _ _ _ st')
    then show ?thesis using outcome by (auto simp: topoSortAsync_def dfs_done_def dfs_inv_def)
  next
    case (3 _ _ _ e)
    then show ?thesis using outcome by (auto simp: topoSortAsync_def cycleError_def)
  qed
qed

end
