(* ===== verification/Lix_Store_Closure.thy ===== *)
theory Lix_Store_Closure
  imports Lix_Closure Lix_Path_Info
begin

text \<open>
  The store operations of \<^verbatim>\<open>libstore/misc.cc\<close> that walk the graph of references: closures and topological sorting of
  paths. They call virtual methods of the class \<^verbatim>\<open>Store\<close>, which are the fields of the record \<open>StoreQueries\<close>; the local
  store fills it from its database. A store that answers a query with an exception answers with an error here.
\<close>

section \<open>Queries\<close>

record StoreQueries =
  queryPathInfo :: "StorePath \<Rightarrow> ValidPathInfo result"
  queryReferrers :: "StorePath \<Rightarrow> StorePath oset result"
  queryValidDerivers :: "StorePath \<Rightarrow> StorePath oset result"
  queryDerivationOutputMap :: "StorePath \<Rightarrow> (string, StorePath) omap result"
  isValidPath :: "StorePath \<Rightarrow> bool result"

section \<open>Closures of store paths\<close>

fun insertValid :: "StoreQueries \<Rightarrow> StorePath list \<Rightarrow> StorePath oset \<Rightarrow> StorePath oset result" where
  "insertValid store [] res = Inr res"
| "insertValid store (outPath # rest) res =
     bindr (isValidPath store outPath) (\<lambda>valid.
     insertValid store rest (if valid then oset_insert outPath res else res))"

definition queryDepsFlipped :: "StoreQueries \<Rightarrow> bool \<Rightarrow> bool \<Rightarrow> StorePath \<Rightarrow> StorePath oset result" where
  "queryDepsFlipped store includeOutputs includeDerivers path =
     bindr (queryReferrers store path) (\<lambda>referrers.
     bindr (Inr (oset_of (filter (\<lambda>r. r \<noteq> path) referrers))) (\<lambda>res.
     bindr (if includeOutputs
            then bindr (queryValidDerivers store path) (\<lambda>ds. Inr (oset_merge res ds)) else Inr res) (\<lambda>res.
     if includeDerivers \<and> isDerivation path
     then bindr (queryDerivationOutputMap store path) (\<lambda>outs. insertValid store (map snd outs) res)
     else Inr res)))"

definition queryDeps :: "StoreQueries \<Rightarrow> bool \<Rightarrow> bool \<Rightarrow> StorePath \<Rightarrow> ValidPathInfo \<Rightarrow> StorePath oset result" where
  "queryDeps store includeOutputs includeDerivers path info =
     bindr (Inr (oset_of (filter (\<lambda>r. r \<noteq> path) (references info)))) (\<lambda>res.
     bindr (if includeOutputs \<and> isDerivation path
            then bindr (queryDerivationOutputMap store path) (\<lambda>outs. insertValid store (map snd outs) res)
            else Inr res) (\<lambda>res.
     if includeDerivers
     then (case deriver info of None \<Rightarrow> Inr res | Some d \<Rightarrow> insertValid store [d] res)
     else Inr res))"

definition closureEdges :: "StoreQueries \<Rightarrow> bool \<Rightarrow> bool \<Rightarrow> bool \<Rightarrow> StorePath \<Rightarrow> StorePath oset result" where
  "closureEdges store flipDirection includeOutputs includeDerivers path =
     bindr (queryPathInfo store path) (\<lambda>info.
     if flipDirection then queryDepsFlipped store includeOutputs includeDerivers path
     else queryDeps store includeOutputs includeDerivers path info)"

definition computeFSClosure ::
  "StoreQueries \<Rightarrow> StorePath oset \<Rightarrow> StorePath oset \<Rightarrow> bool \<Rightarrow> bool \<Rightarrow> bool \<Rightarrow> StorePath oset result option" where
  "computeFSClosure store startPaths paths0 flipDirection includeOutputs includeDerivers =
     map_option (\<lambda>r. bindr r (\<lambda>closure. Inr (oset_merge paths0 closure)))
       (computeClosureAsync startPaths (closureEdges store flipDirection includeOutputs includeDerivers))"

definition computeFSClosure1 ::
  "StoreQueries \<Rightarrow> StorePath \<Rightarrow> StorePath oset \<Rightarrow> bool \<Rightarrow> bool \<Rightarrow> bool \<Rightarrow> StorePath oset result option" where
  "computeFSClosure1 store startPath paths0 flipDirection includeOutputs includeDerivers =
     computeFSClosure store (oset_of [startPath]) paths0 flipDirection includeOutputs includeDerivers"

section \<open>Sorting store paths\<close>

definition pathReferences :: "StoreQueries \<Rightarrow> StorePath \<Rightarrow> StorePath oset result" where
  "pathReferences store path =
     (case queryPathInfo store path of
        Inr info \<Rightarrow> Inr (references info)
      | Inl (InvalidPath _) \<Rightarrow> Inr []
      | Inl e \<Rightarrow> Inl e)"

definition pathCycleError :: "StorePath \<Rightarrow> StorePath \<Rightarrow> error" where
  "pathCycleError path parent = BuildError ''cycle detected in the references''"

definition topoSortPaths :: "StoreQueries \<Rightarrow> StorePath oset \<Rightarrow> StorePath list result option" where
  "topoSortPaths store paths = topoSortAsync paths (pathReferences store) pathCycleError"

section \<open>Outputs of derived paths\<close>

fun resolveNames :: "(string, StorePath) omap \<Rightarrow> string list \<Rightarrow> (string, StorePath) omap \<Rightarrow> (string, StorePath) omap result" where
  "resolveNames outs [] outputsOpt = Inr outputsOpt"
| "resolveNames outs (output # names) outputsOpt =
     (case map_of outs output of
        None \<Rightarrow> Inl (Error ''the derivation doesn't have an output of this name'')
      | Some p \<Rightarrow> resolveNames outs names (omap_assign output p outputsOpt))"

definition resolveDerivedPath :: "StoreQueries \<Rightarrow> StorePath \<Rightarrow> OutputsSpec \<Rightarrow> (string, StorePath) omap result" where
  "resolveDerivedPath store drvPath spec =
     bindr (queryDerivationOutputMap store drvPath) (\<lambda>outs.
     case spec of All \<Rightarrow> Inr outs | Names names \<Rightarrow> resolveNames outs names [])"

definition getDerivationCA :: "'a BasicDerivation_scheme \<Rightarrow> ContentAddress option" where
  "getDerivationCA drv =
     (case map_of (outputs drv) ''out'' of
        Some (CAFixed ca) \<Rightarrow> Some ca
      | _ \<Rightarrow> None)"

section \<open>Lemmas\<close>

lemma insertValid_ok:
  "insertValid store ps res = Inr res' \<Longrightarrow>
   set res' = set res \<union> {p \<in> set ps. isValidPath store p = Inr True} \<and> (oset_ok res \<longrightarrow> oset_ok res')"
proof (induction store ps res rule: insertValid.induct)
  case (2 store outPath rest res)
  from 2(2) obtain valid where v: "isValidPath store outPath = Inr valid"
    "insertValid store rest (if valid then oset_insert outPath res else res) = Inr res'"
    by (auto simp: bindr_eq_Inr_iff)
  have "set res' = set (if valid then oset_insert outPath res else res) \<union> {p \<in> set rest. isValidPath store p = Inr True}
      \<and> (oset_ok (if valid then oset_insert outPath res else res) \<longrightarrow> oset_ok res')" by (rule 2(1) [OF v])
  moreover have "{p \<in> set (outPath # rest). isValidPath store p = Inr True}
      = (if valid then {outPath} else {}) \<union> {p \<in> set rest. isValidPath store p = Inr True}" using v(1) by auto
  ultimately show ?case by (cases valid) simp_all
qed simp

lemma closureEdges_plain:
  "closureEdges store False False False path = bindr (queryPathInfo store path) (\<lambda>info. Inr (oset_of (filter (\<lambda>r. r \<noteq> path) (references info))))"
  by (simp add: closureEdges_def queryDeps_def)

lemma resolveNames_ok:
  "resolveNames outs names acc = Inr r \<Longrightarrow> omap_ok acc \<Longrightarrow>
   omap_ok r \<and> map_of r = map_of acc ++ (map_of outs |` set names)"
proof (induction outs names acc rule: resolveNames.induct)
  case (2 outs n names acc)
  from 2(2) obtain p where p: "map_of outs n = Some p" "resolveNames outs names (omap_assign n p acc) = Inr r"
    by (auto split: option.splits)
  have "(map_of acc)(n \<mapsto> p) ++ (map_of outs |` set names) = map_of acc ++ (map_of outs |` set (n # names))"
    using p(1) by (auto simp: fun_eq_iff map_add_def restrict_map_def split: option.splits)
  then show ?case using 2(1) [OF p] 2(3) by (simp only: map_of_omap_assign omap_ok_assign)
qed simp

section \<open>Properties\<close>

text \<open>C31: The closure of a set of paths is always computed if finitely many paths can be reached: the result is exactly
  the reachable paths, merged into what the caller had; the only errors are those of a query at a reachable path.\<close>

theorem fs_closure_exact:
  assumes "finite (reach (closureEdges store flip outs ders) (set startPaths))" and "oset_ok startPaths" and "oset_ok acc"
  shows "case computeFSClosure store startPaths acc flip outs ders of
      None \<Rightarrow> False
    | Some (Inl e) \<Rightarrow> \<exists>p \<in> reach (closureEdges store flip outs ders) (set startPaths). closureEdges store flip outs ders p = Inl e
    | Some (Inr closure) \<Rightarrow> oset_ok closure
        \<and> set closure = set acc \<union> reach (closureEdges store flip outs ders) (set startPaths)
        \<and> (\<forall>p \<in> reach (closureEdges store flip outs ders) (set startPaths). \<not> isl (closureEdges store flip outs ders p))"
  using computeClosureAsync_total [OF assms(1,2)] assms(3)
  by (fastforce simp: computeFSClosure_def split: option.splits sum.splits)

definition example_store :: "StoreQueries" where
  "example_store = \<lparr>queryPathInfo = (\<lambda>p. Inr (UnkeyedValidPathInfo.extend ((unkeyed (zeroHash 32 SHA256))\<lparr>references := [p]\<rparr>)
       (ValidPathInfo.fields p))),
     queryReferrers = (\<lambda>p. Inr [p]), queryValidDerivers = (\<lambda>p. Inr []), queryDerivationOutputMap = (\<lambda>p. Inr []),
     isValidPath = (\<lambda>p. Inr True)\<rparr>"

lemma example_store_edges: "closureEdges example_store False False False p = Inr []"
  by (simp add: closureEdges_plain example_store_def UnkeyedValidPathInfo.defs ValidPathInfo.defs unkeyed_def oset_of_def)

theorem fs_closure_exact_witness:
  "\<exists>closure. computeFSClosure example_store [example_path] [] False False False = Some (Inr closure) \<and> set closure = {example_path}"
proof -
  have r: "reach (closureEdges example_store False False False) {example_path} = {example_path}"
    using reach_least [of "{example_path}" "{example_path}" "closureEdges example_store False False False"]
      reach_start [of "{example_path}"] by (auto simp: example_store_edges)
  show ?thesis
    using fs_closure_exact [of example_store False False False "[example_path]" "[]"]
    by (auto simp: r example_store_edges split: option.splits sum.splits)
qed

text \<open>Sorting store paths always returns. A sorted list has every given path once, each before the paths it refers to,
  where an invalid path counts as one without references; otherwise the error is that of a query of a given path, or the
  given paths have a cycle.\<close>

theorem topoSortPaths_ordered:
  "case topoSortPaths store paths of
     None \<Rightarrow> False
   | Some (Inr ps) \<Rightarrow> distinct ps \<and> set ps = set paths
       \<and> references_after {(p, q). \<exists>info. queryPathInfo store p = Inr info \<and> q \<in> set (references info) \<and> p \<noteq> q \<and> q \<in> set paths} ps
   | Some (Inl e) \<Rightarrow> (\<exists>p \<in> set paths. queryPathInfo store p = Inl e)
       \<or> (\<exists>p. (p, p) \<in> {(p, q). \<exists>info. queryPathInfo store p = Inr info \<and> q \<in> set (references info) \<and> p \<noteq> q \<and> q \<in> set paths}\<^sup>+)"
proof -
  let ?E = "{(p, q). \<exists>info. queryPathInfo store p = Inr info \<and> q \<in> set (references info) \<and> p \<noteq> q \<and> q \<in> set paths}"
  have "edges paths (known (pathReferences store)) = ?E"
    by (auto simp: edges_def known_def pathReferences_def split: sum.splits error.splits)
  moreover have "pathReferences store p = Inl e \<Longrightarrow> queryPathInfo store p = Inl e" for p e
    by (auto simp: pathReferences_def split: sum.splits error.splits)
  ultimately show ?thesis
    using topoSortAsync_outcome [of paths "pathReferences store" pathCycleError] unfolding topoSortPaths_def
    by (fastforce split: option.splits sum.splits)
qed

end
