(* ===== verification/Lix_Drv_Hash.thy ===== *)
theory Lix_Drv_Hash
  imports Lix_Derivations Lix_Closure
begin

text \<open>
  Hashes of derivations modulo fixed outputs, \<^verbatim>\<open>libstore/derivations.cc\<close>: \<^verbatim>\<open>pathDerivationModulo\<close> and
  \<^verbatim>\<open>hashDerivationModulo\<close> recurse through the input derivations and memoise in the global map \<^verbatim>\<open>drvHashes\<close>, and
  \<^verbatim>\<open>checkInvariants\<close> compares the output paths of a derivation with the ones that follow from its hash. Derivations are
  read through the parameter \<open>readDrv\<close>. The recursion carries fuel for its depth, and \<open>None\<close> means that the depth was
  exceeded, as on a cycle of input derivations; a derivation whose inputs have a rank below the fuel is always hashed
  (\<open>hashDerivationModulo_total\<close>). The map is part of the result, as it keeps what was added before an exception.
\<close>

section \<open>Hashing\<close>

type_synonym DrvHash = "(string, Hash) omap"
type_synonym DrvHashes = "(StorePath, DrvHash) omap"

fun fixedOutputHashes :: "digest \<Rightarrow> string \<Rightarrow> string \<Rightarrow> (string \<times> DerivationOutput) list \<Rightarrow> DrvHash \<Rightarrow> DrvHash result" where
  "fixedOutputHashes digest storeDir name [] outputHashes = Inr outputHashes"
| "fixedOutputHashes digest storeDir name ((i, InputAddressed p) # outs) outputHashes = Inl (Error ''bad_variant_access'')"
| "fixedOutputHashes digest storeDir name ((i, CAFixed ca) # outs) outputHashes =
     bindr (output_path digest storeDir name i (CAFixed ca)) (\<lambda>p.
     fixedOutputHashes digest storeDir name outs
       (omap_assign i (hashString digest SHA256
          (''fixed:out:'' @ printMethodAlgo ca @ '':'' @ base16Encode (hash_data (ca_hash ca)) @ '':'' @ printStorePath storeDir p))
          outputHashes))"

fun addInputHashes :: "DrvHash \<Rightarrow> string list \<Rightarrow> (string, string oset) omap \<Rightarrow> (string, string oset) omap result" where
  "addInputHashes hashes [] inputs2 = Inr inputs2"
| "addInputHashes hashes (outputName # node) inputs2 =
     (case map_of hashes outputName of
        None \<Rightarrow> Inl (Error ''no hash for output of derivation'')
      | Some h \<Rightarrow>
          let key = base16Encode (hash_data h);
              old = (case map_of inputs2 key of None \<Rightarrow> [] | Some s \<Rightarrow> s)
          in addInputHashes hashes node (omap_assign key (oset_insert outputName old) inputs2))"

fun inputsModulo ::
  "(StorePath \<Rightarrow> DrvHashes \<Rightarrow> (DrvHash result \<times> DrvHashes) option) \<Rightarrow> (StorePath \<times> string oset) list \<Rightarrow>
   (string, string oset) omap \<Rightarrow> DrvHashes \<Rightarrow> ((string, string oset) omap result \<times> DrvHashes) option" where
  "inputsModulo pathModulo [] inputs2 cache = Some (Inr inputs2, cache)"
| "inputsModulo pathModulo ((drvPath, node) # ins) inputs2 cache =
     (case pathModulo drvPath cache of
        None \<Rightarrow> None
      | Some (Inl e, cache') \<Rightarrow> Some (Inl e, cache')
      | Some (Inr res, cache') \<Rightarrow>
          (case addInputHashes res node inputs2 of
             Inl e \<Rightarrow> Some (Inl e, cache')
           | Inr inputs2' \<Rightarrow> inputsModulo pathModulo ins inputs2' cache'))"

definition regularHashes :: "digest \<Rightarrow> string \<Rightarrow> Derivation \<Rightarrow> bool \<Rightarrow> (string, string oset) omap \<Rightarrow> DrvHash result" where
  "regularHashes digest storeDir drv maskOutputs inputs2 =
     bindr (unparse digest storeDir maskOutputs (Some inputs2) drv) (\<lambda>s.
     Inr (fold (\<lambda>(outputName, _). omap_assign outputName (hashString digest SHA256 s)) (outputs drv) []))"

fun hashDerivationModulo ::
    "nat \<Rightarrow> digest \<Rightarrow> string \<Rightarrow> (StorePath \<Rightarrow> Derivation result) \<Rightarrow> Derivation \<Rightarrow> bool \<Rightarrow> DrvHashes \<Rightarrow>
     (DrvHash result \<times> DrvHashes) option"
  and pathDerivationModulo ::
    "nat \<Rightarrow> digest \<Rightarrow> string \<Rightarrow> (StorePath \<Rightarrow> Derivation result) \<Rightarrow> StorePath \<Rightarrow> DrvHashes \<Rightarrow>
     (DrvHash result \<times> DrvHashes) option" where
  "hashDerivationModulo n digest storeDir readDrv drv maskOutputs cache =
     (case drv_type drv of
        Inl e \<Rightarrow> Some (Inl e, cache)
      | Inr type \<Rightarrow>
          if isFixed type then Some (fixedOutputHashes digest storeDir (drvName drv) (outputs drv) [], cache)
          else
            (case inputsModulo (pathDerivationModulo n digest storeDir readDrv) (inputDrvs drv) [] cache of
               None \<Rightarrow> None
             | Some (Inl e, cache') \<Rightarrow> Some (Inl e, cache')
             | Some (Inr inputs2, cache') \<Rightarrow> Some (regularHashes digest storeDir drv maskOutputs inputs2, cache')))"
| "pathDerivationModulo 0 digest storeDir readDrv drvPath cache = None"
| "pathDerivationModulo (Suc n) digest storeDir readDrv drvPath cache =
     (case map_of cache drvPath of
        Some h \<Rightarrow> Some (Inr h, cache)
      | None \<Rightarrow>
          (case readDrv drvPath of
             Inl e \<Rightarrow> Some (Inl e, cache)
           | Inr drv \<Rightarrow>
               (case hashDerivationModulo n digest storeDir readDrv drv False cache of
                  None \<Rightarrow> None
                | Some (Inl e, cache') \<Rightarrow> Some (Inl e, cache')
                | Some (Inr h, cache') \<Rightarrow> Some (Inr h, omap_assign drvPath h cache'))))"

declare hashDerivationModulo.simps [simp del] pathDerivationModulo.simps [simp del]

definition staticOutputHashes ::
  "nat \<Rightarrow> digest \<Rightarrow> string \<Rightarrow> (StorePath \<Rightarrow> Derivation result) \<Rightarrow> Derivation \<Rightarrow> DrvHashes \<Rightarrow> (DrvHash result \<times> DrvHashes) option" where
  "staticOutputHashes n digest storeDir readDrv drv cache = hashDerivationModulo n digest storeDir readDrv drv True cache"

definition hashPlaceholder :: "digest \<Rightarrow> string \<Rightarrow> string" where
  "hashPlaceholder digest outputName =
     ''/'' @ base32Encode (hash_data (hashString digest SHA256 (''nix-output:'' @ outputName)))"

section \<open>The recursion without the cache\<close>

fun inputsPure ::
  "(StorePath \<Rightarrow> DrvHash result option) \<Rightarrow> (StorePath \<times> string oset) list \<Rightarrow> (string, string oset) omap \<Rightarrow>
   (string, string oset) omap result option" where
  "inputsPure pathHash [] inputs2 = Some (Inr inputs2)"
| "inputsPure pathHash ((drvPath, node) # ins) inputs2 =
     (case pathHash drvPath of
        None \<Rightarrow> None
      | Some (Inl e) \<Rightarrow> Some (Inl e)
      | Some (Inr res) \<Rightarrow>
          (case addInputHashes res node inputs2 of
             Inl e \<Rightarrow> Some (Inl e)
           | Inr inputs2' \<Rightarrow> inputsPure pathHash ins inputs2'))"

fun hashPure ::
    "nat \<Rightarrow> digest \<Rightarrow> string \<Rightarrow> (StorePath \<Rightarrow> Derivation result) \<Rightarrow> Derivation \<Rightarrow> bool \<Rightarrow> DrvHash result option"
  and pathPure ::
    "nat \<Rightarrow> digest \<Rightarrow> string \<Rightarrow> (StorePath \<Rightarrow> Derivation result) \<Rightarrow> StorePath \<Rightarrow> DrvHash result option" where
  "hashPure n digest storeDir readDrv drv maskOutputs =
     (case drv_type drv of
        Inl e \<Rightarrow> Some (Inl e)
      | Inr type \<Rightarrow>
          if isFixed type then Some (fixedOutputHashes digest storeDir (drvName drv) (outputs drv) [])
          else map_option (\<lambda>r. bindr r (regularHashes digest storeDir drv maskOutputs))
                 (inputsPure (pathPure n digest storeDir readDrv) (inputDrvs drv) []))"
| "pathPure 0 digest storeDir readDrv drvPath = None"
| "pathPure (Suc n) digest storeDir readDrv drvPath =
     (case readDrv drvPath of Inl e \<Rightarrow> Some (Inl e) | Inr drv \<Rightarrow> hashPure n digest storeDir readDrv drv False)"

declare hashPure.simps [simp del] pathPure.simps [simp del]

text \<open>A hash is the limit of the pure recursion for enough fuel.\<close>

definition hashes_to :: "(nat \<Rightarrow> 'r option) \<Rightarrow> 'r \<Rightarrow> bool" where
  "hashes_to f r \<longleftrightarrow> (\<exists>m. \<forall>k \<ge> m. f k = Some r)"

lemma hashes_to_unique: "hashes_to f r \<Longrightarrow> hashes_to f r' \<Longrightarrow> r = r'"
  unfolding hashes_to_def by (metis max.cobounded1 max.cobounded2 option.inject)

lemma hashes_to_Suc: "hashes_to (\<lambda>k. f (Suc k)) r \<Longrightarrow> hashes_to f r"
  unfolding hashes_to_def by (metis Suc_le_D Suc_le_mono)

lemma hashes_to_const: "(\<And>k. f k = Some r) \<Longrightarrow> hashes_to f r"
  by (simp add: hashes_to_def)

lemma hashes_to_join:
  assumes "hashes_to f r" and "hashes_to g s" and "\<And>k. f k = Some r \<Longrightarrow> g k = Some s \<Longrightarrow> h k = Some t"
  shows "hashes_to h t"
proof -
  from assms(1,2) obtain m n where "\<forall>k \<ge> m. f k = Some r" "\<forall>k \<ge> n. g k = Some s" unfolding hashes_to_def by blast
  then have "\<forall>k \<ge> max m n. h k = Some t" using assms(3) by simp
  then show ?thesis unfolding hashes_to_def by blast
qed

lemma hashes_to_map:
  assumes "hashes_to f r" and "\<And>k. f k = Some r \<Longrightarrow> h k = Some t"
  shows "hashes_to h t"
  using assms(1) assms(1) by (rule hashes_to_join) (rule assms(2))

definition cache_ok :: "digest \<Rightarrow> string \<Rightarrow> (StorePath \<Rightarrow> Derivation result) \<Rightarrow> DrvHashes \<Rightarrow> bool" where
  "cache_ok digest storeDir readDrv cache \<longleftrightarrow>
     omap_ok cache \<and> (\<forall>p h. map_of cache p = Some h \<longrightarrow> hashes_to (\<lambda>k. pathPure k digest storeDir readDrv p) (Inr h))"

lemma inputsModulo_ok:
  assumes pm: "\<And>p c r c'. ok c \<Longrightarrow> pm p c = Some (r, c') \<Longrightarrow> ok c' \<and> hashes_to (\<lambda>k. ps k p) r"
  shows "inputsModulo pm ins i2 c = Some (r, c') \<Longrightarrow> ok c \<Longrightarrow> ok c' \<and> hashes_to (\<lambda>k. inputsPure (ps k) ins i2) r"
proof (induction ins arbitrary: i2 c)
  case Nil
  then show ?case by (auto intro: hashes_to_const)
next
  case (Cons x ins)
  obtain p node where x: "x = (p, node)" by fastforce
  from Cons.prems(1) obtain r1 c1 where p1: "pm p c = Some (r1, c1)" by (auto simp: x split: option.splits)
  from pm [OF Cons.prems(2) p1] have c1: "ok c1" and h1: "hashes_to (\<lambda>k. ps k p) r1" by auto
  show ?case
  proof (cases "\<exists>hs i3. r1 = Inr hs \<and> addInputHashes hs node i2 = Inr i3")
    case True
    then obtain hs i3 where i3: "r1 = Inr hs" "addInputHashes hs node i2 = Inr i3" by blast
    then have "inputsModulo pm ins i3 c1 = Some (r, c')" using Cons.prems(1) p1 by (simp add: x)
    from Cons.IH [OF this c1] have "ok c'" "hashes_to (\<lambda>k. inputsPure (ps k) ins i3) r" by auto
    then show ?thesis using i3 by (auto simp: x intro: hashes_to_join [OF h1])
  next
    case False
    then have "c' = c1" "\<And>k. ps k p = Some r1 \<Longrightarrow> inputsPure (ps k) (x # ins) i2 = Some r"
      using Cons.prems(1) p1 by (auto simp: x split: sum.splits)
    then show ?thesis using c1 by (auto intro: hashes_to_map [OF h1])
  qed
qed

lemma hashDerivationModulo_step:
  assumes "\<And>p c r c'. cache_ok digest storeDir readDrv c \<Longrightarrow> pathDerivationModulo n digest storeDir readDrv p c = Some (r, c') \<Longrightarrow>
      cache_ok digest storeDir readDrv c' \<and> hashes_to (\<lambda>k. pathPure k digest storeDir readDrv p) r"
    and "hashDerivationModulo n digest storeDir readDrv drv masked cache = Some (r, cache')"
    and "cache_ok digest storeDir readDrv cache"
  shows "cache_ok digest storeDir readDrv cache' \<and> hashes_to (\<lambda>k. hashPure k digest storeDir readDrv drv masked) r"
proof (cases "\<exists>t. drv_type drv = Inr t \<and> \<not> isFixed t")
  case False
  then show ?thesis using assms(2,3)
    by (auto simp: hashDerivationModulo.simps hashPure.simps intro!: hashes_to_const split: sum.splits)
next
  case True
  then obtain t where t: "drv_type drv = Inr t" "\<not> isFixed t" by blast
  then obtain r1 c1 where r1: "inputsModulo (pathDerivationModulo n digest storeDir readDrv) (inputDrvs drv) [] cache = Some (r1, c1)"
    using assms(2) by (auto simp: hashDerivationModulo.simps split: option.splits)
  have ok: "cache_ok digest storeDir readDrv c1"
    "hashes_to (\<lambda>k. inputsPure (pathPure k digest storeDir readDrv) (inputDrvs drv) []) r1"
    using inputsModulo_ok [where ok = "cache_ok digest storeDir readDrv", OF assms(1) r1 assms(3)] by auto
  have "cache' = c1" "r = bindr r1 (regularHashes digest storeDir drv masked)"
    using assms(2) t r1 by (auto simp: hashDerivationModulo.simps split: sum.splits)
  then show ?thesis using ok(1) t by (auto simp: hashPure.simps intro: hashes_to_map [OF ok(2)])
qed

lemma pathDerivationModulo_ok:
  "cache_ok digest storeDir readDrv cache \<Longrightarrow> pathDerivationModulo n digest storeDir readDrv p cache = Some (r, cache') \<Longrightarrow>
   cache_ok digest storeDir readDrv cache' \<and> hashes_to (\<lambda>k. pathPure k digest storeDir readDrv p) r"
proof (induction n arbitrary: p cache r cache')
  case 0
  then show ?case by (simp add: pathDerivationModulo.simps)
next
  case (Suc n)
  show ?case
  proof (cases "map_of cache p")
    case (Some h)
    then show ?thesis using Suc.prems by (auto simp: pathDerivationModulo.simps cache_ok_def)
  next
    case None
    show ?thesis
    proof (cases "readDrv p")
      case (Inl e)
      then have "hashes_to (\<lambda>k. pathPure k digest storeDir readDrv p) (Inl e)"
        by (intro hashes_to_Suc [OF hashes_to_const]) (simp add: pathPure.simps)
      then show ?thesis using Suc.prems None Inl by (auto simp: pathDerivationModulo.simps)
    next
      case (Inr drv)
      then obtain r1 c1 where h: "hashDerivationModulo n digest storeDir readDrv drv False cache = Some (r1, c1)"
        using Suc.prems None by (auto simp: pathDerivationModulo.simps split: option.splits)
      from hashDerivationModulo_step [OF Suc.IH h Suc.prems(1)]
      have ok: "cache_ok digest storeDir readDrv c1" "hashes_to (\<lambda>k. hashPure k digest storeDir readDrv drv False) r1" by auto
      have "hashes_to (\<lambda>k. pathPure k digest storeDir readDrv p) r1"
        using ok(2) Inr by (intro hashes_to_Suc [OF hashes_to_map [OF ok(2)]]) (simp add: pathPure.simps)
      then show ?thesis
        using Suc.prems(2) None Inr h ok(1)
        by (auto simp: pathDerivationModulo.simps cache_ok_def map_of_omap_assign split: sum.splits if_splits)
    qed
  qed
qed

lemma hashDerivationModulo_ok:
  assumes "hashDerivationModulo n digest storeDir readDrv drv masked cache = Some (r, cache')"
    and "cache_ok digest storeDir readDrv cache"
  shows "cache_ok digest storeDir readDrv cache' \<and> hashes_to (\<lambda>k. hashPure k digest storeDir readDrv drv masked) r"
  using pathDerivationModulo_ok assms by (rule hashDerivationModulo_step)

section \<open>Enough fuel\<close>

definition ranked :: "(StorePath \<Rightarrow> Derivation result) \<Rightarrow> (StorePath \<Rightarrow> nat) \<Rightarrow> bool" where
  "ranked readDrv rank \<longleftrightarrow> (\<forall>p drv. readDrv p = Inr drv \<longrightarrow> (\<forall>q \<in> fst ` set (inputDrvs drv). rank q < rank p))"

lemma inputsModulo_Some:
  "(\<And>p c. p \<in> fst ` set ins \<Longrightarrow> pm p c \<noteq> None) \<Longrightarrow> inputsModulo pm ins i2 c \<noteq> None"
  by (induction pm ins i2 c rule: inputsModulo.induct) (fastforce split: option.splits sum.splits)+

lemma hashDerivationModulo_Some:
  assumes "\<And>p c. p \<in> fst ` set (inputDrvs drv) \<Longrightarrow> pathDerivationModulo n digest storeDir readDrv p c \<noteq> None"
  shows "hashDerivationModulo n digest storeDir readDrv drv masked cache \<noteq> None"
  using inputsModulo_Some [of "inputDrvs drv" "pathDerivationModulo n digest storeDir readDrv" "[]" cache, OF assms]
  by (auto simp: hashDerivationModulo.simps split: sum.splits option.splits)

lemma pathDerivationModulo_Some:
  assumes "ranked readDrv rank"
  shows "rank p < n \<Longrightarrow> pathDerivationModulo n digest storeDir readDrv p cache \<noteq> None"
proof (induction n arbitrary: p cache)
  case (Suc n)
  show ?case
  proof (cases "readDrv p")
    case (Inr drv)
    have "hashDerivationModulo n digest storeDir readDrv drv False cache \<noteq> None"
    proof (rule hashDerivationModulo_Some)
      fix q c assume "q \<in> fst ` set (inputDrvs drv)"
      then have "rank q < rank p" using assms Inr by (auto simp: ranked_def)
      then show "pathDerivationModulo n digest storeDir readDrv q c \<noteq> None" using Suc by simp
    qed
    then show ?thesis using Inr by (auto simp: pathDerivationModulo.simps split: option.splits sum.splits)
  qed (simp add: pathDerivationModulo.simps split: option.splits)
qed simp

lemma hashDerivationModulo_total:
  assumes "ranked readDrv rank" and "\<forall>q \<in> fst ` set (inputDrvs drv). rank q < n"
  shows "\<exists>r cache'. hashDerivationModulo n digest storeDir readDrv drv masked cache = Some (r, cache')"
  using hashDerivationModulo_Some [of drv n digest storeDir readDrv masked cache] pathDerivationModulo_Some [OF assms(1)] assms(2)
  by fastforce

section \<open>What the hash depends on\<close>

text \<open>The map of input hashes, as the pairs of a hash and an output name it holds.\<close>

definition groups :: "(string, string oset) omap \<Rightarrow> (string \<times> string) set" where
  "groups m = {(k, v). \<exists>s. map_of m k = Some s \<and> v \<in> set s}"

definition groups_ok :: "(string, string oset) omap \<Rightarrow> bool" where
  "groups_ok m \<longleftrightarrow> omap_ok m \<and> (\<forall>k s. map_of m k = Some s \<longrightarrow> s \<noteq> [] \<and> oset_ok s)"

lemma groups_inj:
  assumes "groups_ok m" and "groups_ok m'" and "groups m = groups m'"
  shows "m = m'"
proof (rule omap_eq_iff)
  have sub: "map_of b k = Some s" if ab: "groups_ok a" "groups_ok b" "groups a = groups b" "map_of a k = Some s" for a b k s
  proof -
    have ne: "s \<noteq> []" "oset_ok s" using ab by (auto simp: groups_ok_def)
    then obtain v where "(k, v) \<in> groups a" using ab(4) by (cases s) (auto simp: groups_def)
    then have "(k, v) \<in> groups b" using ab(3) by simp
    then obtain s' where s': "map_of b k = Some s'" by (auto simp: groups_def)
    have "set s = {v. (k, v) \<in> groups a}" "set s' = {v. (k, v) \<in> groups b}" using ab(4) s' by (auto simp: groups_def)
    then have "s = s'" using ne s' ab by (intro oset_eq_iff) (auto simp: groups_ok_def)
    then show ?thesis using s' by simp
  qed
  show "map_of m = map_of m'"
  proof
    fix k
    show "map_of m k = map_of m' k"
      using sub [OF assms, of k] sub [OF assms(2,1) assms(3) [symmetric], of k]
      by (cases "map_of m k"; cases "map_of m' k") auto
  qed
qed (use assms in \<open>auto simp: groups_ok_def\<close>)

lemma addInputHashes_groups:
  "addInputHashes hashes node m = Inr m' \<Longrightarrow> groups_ok m \<Longrightarrow>
   groups_ok m' \<and> groups m' = groups m \<union> {(base16Encode (hash_data h), v) |h v. v \<in> set node \<and> map_of hashes v = Some h}"
proof (induction hashes node m rule: addInputHashes.induct)
  case (2 hashes n node m)
  from 2(2) obtain h where h: "map_of hashes n = Some h" by (auto split: option.splits)
  define key where "key = base16Encode (hash_data h)"
  define old where "old = (case map_of m key of None \<Rightarrow> [] | Some s \<Rightarrow> s)"
  let ?m = "omap_assign key (oset_insert n old) m"
  have ok: "omap_ok m" "oset_ok old" using 2(3) by (auto simp: groups_ok_def old_def split: option.splits)
  have ne: "oset_insert n old \<noteq> []" by (metis insert_not_empty list.set(1) set_oset_insert)
  have g: "groups_ok ?m" using 2(3) ok ne by (auto simp: groups_ok_def map_of_omap_assign)
  have "groups ?m = insert (key, n) (groups m)"
    using ok by (auto simp: groups_def map_of_omap_assign old_def split: if_splits option.splits)
  moreover have "addInputHashes hashes node ?m = Inr m'" using 2(2) h by (simp add: key_def old_def Let_def)
  ultimately show ?case using 2(1) [OF h key_def old_def _ g] h by (auto simp: key_def)
qed simp

definition node_hashes :: "DrvHash result option \<Rightarrow> string oset \<Rightarrow> (string \<times> string) set" where
  "node_hashes r node =
     {(base16Encode (hash_data h), v) |hs h v. r = Some (Inr hs) \<and> v \<in> set node \<and> map_of hs v = Some h}"

definition input_hashes ::
  "(StorePath \<Rightarrow> DrvHash result option) \<Rightarrow> (StorePath \<times> string oset) list \<Rightarrow> (string \<times> string) set" where
  "input_hashes pathHash ins = (\<Union>x \<in> set ins. node_hashes (pathHash (fst x)) (snd x))"

lemma inputsPure_groups:
  "inputsPure ps ins m = Some (Inr m') \<Longrightarrow> groups_ok m \<Longrightarrow> groups_ok m' \<and> groups m' = groups m \<union> input_hashes ps ins"
proof (induction ps ins m rule: inputsPure.induct)
  case (1 ps m)
  then show ?case by (simp add: input_hashes_def)
next
  case (2 ps p node ins m)
  from 2(2) obtain hs m1 where hs: "ps p = Some (Inr hs)" "addInputHashes hs node m = Inr m1" "inputsPure ps ins m1 = Some (Inr m')"
    by (auto split: option.splits sum.splits)
  have g: "groups_ok m1" "groups m1 = groups m \<union> node_hashes (ps p) node"
    using addInputHashes_groups [OF hs(2) 2(3)] hs(1) by (auto simp: node_hashes_def)
  then show ?case using 2(1) [OF hs(1) refl hs(2) hs(3) g(1)] by (auto simp: input_hashes_def)
qed

lemma inputsPure_cong:
  assumes "inputsPure ps ins [] = Some (Inr m)" and "inputsPure ps ins' [] = Some (Inr m')"
    and "input_hashes ps ins = input_hashes ps ins'"
  shows "m = m'"
proof (rule groups_inj)
  have n: "groups_ok []" "groups [] = {}" by (auto simp: groups_ok_def groups_def)
  show "groups_ok m" "groups_ok m'" "groups m = groups m'"
    using inputsPure_groups [OF assms(1) n(1)] inputsPure_groups [OF assms(2) n(1)] n(2) assms(3) by auto
qed

lemma pathPure_fixed:
  assumes "readDrv p = Inr f" and "readDrv q = Inr f'" and "drv_type f = Inr t" and "isFixed t"
    and "outputs f' = outputs f" and "drvName f' = drvName f"
  shows "pathPure n digest storeDir readDrv p = pathPure n digest storeDir readDrv q"
proof -
  have "drv_type f' = drv_type f" using assms(5) by (simp add: drv_type_def)
  then show ?thesis using assms by (cases n) (simp_all add: pathPure.simps hashPure.simps)
qed

lemma input_hashes_swap:
  assumes "ps p = ps q" and "set ins' = insert (q, node) (set ins - {(p, node)})" and "(p, node) \<in> set ins"
  shows "input_hashes ps ins = input_hashes ps ins'"
proof -
  let ?f = "\<lambda>x. node_hashes (ps (fst x)) (snd x)"
  have "input_hashes ps ins = (\<Union>x \<in> insert (p, node) (set ins - {(p, node)}). ?f x)"
    using insert_Diff [OF assms(3)] by (simp add: input_hashes_def)
  also have "\<dots> = (\<Union>x \<in> insert (q, node) (set ins - {(p, node)}). ?f x)" using assms(1) by (simp only: UN_insert fst_conv snd_conv)
  finally show ?thesis by (simp add: input_hashes_def assms(2))
qed

lemma hashPure_regular:
  assumes "drv_type drv = Inr t" and "\<not> isFixed t"
  shows "hashPure k digest storeDir readDrv drv masked = Some (Inr r) \<longleftrightarrow>
    (\<exists>m. inputsPure (pathPure k digest storeDir readDrv) (inputDrvs drv) [] = Some (Inr m)
       \<and> regularHashes digest storeDir drv masked m = Inr r)"
proof -
  let ?i = "inputsPure (pathPure k digest storeDir readDrv) (inputDrvs drv) []"
  have "hashPure k digest storeDir readDrv drv masked = map_option (\<lambda>r. bindr r (regularHashes digest storeDir drv masked)) ?i"
    using assms by (simp add: hashPure.simps)
  then show ?thesis by (cases ?i) (auto simp: bindr_eq_Inr_iff)
qed

lemma hashPure_swap:
  assumes f: "readDrv p = Inr f" "readDrv q = Inr f'" "drv_type f = Inr t" "isFixed t" "outputs f' = outputs f" "drvName f' = drvName f"
    and ins: "(p, node) \<in> set (inputDrvs drv)" "set ins' = insert (q, node) (set (inputDrvs drv) - {(p, node)})"
    and r: "hashPure k digest storeDir readDrv drv masked = Some (Inr r)"
      "hashPure k digest storeDir readDrv (drv\<lparr>inputDrvs := ins'\<rparr>) masked = Some (Inr r')"
  shows "r = r'"
proof -
  let ?drv = "drv\<lparr>inputDrvs := ins'\<rparr>"
  have type: "drv_type ?drv = drv_type drv" by (simp add: drv_type_def)
  have ps: "pathPure k digest storeDir readDrv p = pathPure k digest storeDir readDrv q" by (rule pathPure_fixed [OF f])
  have same: "input_hashes (pathPure k digest storeDir readDrv) (inputDrvs drv) = input_hashes (pathPure k digest storeDir readDrv) ins'"
    by (rule input_hashes_swap [OF ps ins(2,1)])
  have rh: "regularHashes digest storeDir ?drv masked m = regularHashes digest storeDir drv masked m" for m
    by (simp add: regularHashes_def unparse_def)
  show ?thesis
  proof (cases "\<exists>t. drv_type drv = Inr t \<and> \<not> isFixed t")
    case True
    then obtain t where t: "drv_type drv = Inr t" "\<not> isFixed t" by blast
    obtain m where m: "inputsPure (pathPure k digest storeDir readDrv) (inputDrvs drv) [] = Some (Inr m)"
      "regularHashes digest storeDir drv masked m = Inr r" using r(1) hashPure_regular [OF t] by blast
    obtain m' where m': "inputsPure (pathPure k digest storeDir readDrv) ins' [] = Some (Inr m')"
      "regularHashes digest storeDir drv masked m' = Inr r'"
      using r(2) hashPure_regular [of ?drv t] t type rh by auto
    have "m = m'" using m(1) m'(1) same by (rule inputsPure_cong)
    then show ?thesis using m(2) m'(2) by simp
  next
    case False
    then show ?thesis using r type by (auto simp: hashPure.simps split: sum.splits)
  qed
qed

section \<open>Invariants of a derivation\<close>

definition envHasRightPath :: "string \<Rightarrow> Derivation \<Rightarrow> StorePath \<Rightarrow> string \<Rightarrow> unit result" where
  "envHasRightPath storeDir drv actual varName =
     (case map_of (env drv) varName of
        None \<Rightarrow> Inl (Error ''derivation has incorrect environment variable'')
      | Some v \<Rightarrow>
          bindr (parseStorePath storeDir v) (\<lambda>p.
          if p \<noteq> actual then Inl (Error ''derivation has incorrect environment variable'') else Inr ()))"

text \<open>
  The check of one output: the hashes are computed when the first input-addressed output is seen, and kept.
\<close>

definition lazyHashes ::
  "nat \<Rightarrow> digest \<Rightarrow> string \<Rightarrow> (StorePath \<Rightarrow> Derivation result) \<Rightarrow> Derivation \<Rightarrow> DrvHash option \<Rightarrow> DrvHashes \<Rightarrow>
   (DrvHash result \<times> DrvHashes) option" where
  "lazyHashes n digest storeDir readDrv drv hashesModulo cache =
     (case hashesModulo of
        Some hs \<Rightarrow> Some (Inr hs, cache)
      | None \<Rightarrow> hashDerivationModulo n digest storeDir readDrv drv True cache)"

definition checkInputAddressed :: "digest \<Rightarrow> string \<Rightarrow> Derivation \<Rightarrow> string \<Rightarrow> DrvHash \<Rightarrow> string \<Rightarrow> StorePath \<Rightarrow> unit result" where
  "checkInputAddressed digest storeDir drv drvName' hashes i path =
     (case map_of hashes i of
        None \<Rightarrow> Inl (Error ''derivation has unexpected output'')
      | Some currentOutputHash \<Rightarrow>
          bindr (makeOutputPath digest storeDir i currentOutputHash drvName') (\<lambda>recomputed.
          if path \<noteq> recomputed then Inl (Error ''derivation has incorrect output'')
          else envHasRightPath storeDir drv path i))"

fun checkOutputs ::
  "nat \<Rightarrow> digest \<Rightarrow> string \<Rightarrow> (StorePath \<Rightarrow> Derivation result) \<Rightarrow> Derivation \<Rightarrow> string \<Rightarrow> (string \<times> DerivationOutput) list \<Rightarrow>
   DrvHash option \<Rightarrow> DrvHashes \<Rightarrow> (unit result \<times> DrvHashes) option" where
  "checkOutputs n digest storeDir readDrv drv drvName' [] hashesModulo cache = Some (Inr (), cache)"
| "checkOutputs n digest storeDir readDrv drv drvName' ((i, InputAddressed path) # outs) hashesModulo cache =
     (case lazyHashes n digest storeDir readDrv drv hashesModulo cache of
        None \<Rightarrow> None
      | Some (Inl e, cache') \<Rightarrow> Some (Inl e, cache')
      | Some (Inr hashes, cache') \<Rightarrow>
          (case checkInputAddressed digest storeDir drv drvName' hashes i path of
             Inl e \<Rightarrow> Some (Inl e, cache')
           | Inr _ \<Rightarrow> checkOutputs n digest storeDir readDrv drv drvName' outs (Some hashes) cache'))"
| "checkOutputs n digest storeDir readDrv drv drvName' ((i, CAFixed ca) # outs) hashesModulo cache =
     (case bindr (output_path digest storeDir drvName' i (CAFixed ca)) (\<lambda>path. envHasRightPath storeDir drv path i) of
        Inl e \<Rightarrow> Some (Inl e, cache)
      | Inr _ \<Rightarrow> checkOutputs n digest storeDir readDrv drv drvName' outs hashesModulo cache)"

definition checkInvariants ::
  "nat \<Rightarrow> digest \<Rightarrow> string \<Rightarrow> (StorePath \<Rightarrow> Derivation result) \<Rightarrow> Derivation \<Rightarrow> StorePath \<Rightarrow> DrvHashes \<Rightarrow>
   (unit result \<times> DrvHashes) option" where
  "checkInvariants n digest storeDir readDrv drv drvPath cache =
     (if \<not> isDerivation drvPath then Some (Inl (AssertionFailed ''drvPath.isDerivation()''), cache)
      else
        let drvName' = take (length (sp_name drvPath) - length drvExtension) (sp_name drvPath)
        in if drvName' \<noteq> drvName drv then Some (Inl (Error ''Derivation has a name which does not match its path''), cache)
           else case drv_type drv of
               Inl e \<Rightarrow> Some (Inl e, cache)
             | Inr _ \<Rightarrow> checkOutputs n digest storeDir readDrv drv drvName' (outputs drv) None cache)"

section \<open>Writing a derivation\<close>

definition drvReferences :: "Derivation \<Rightarrow> StorePath oset" where
  "drvReferences drv = oset_merge (inputSrcs drv) (map fst (inputDrvs drv))"

definition writeDerivation ::
  "digest \<Rightarrow> string \<Rightarrow> (string \<Rightarrow> string \<Rightarrow> StorePath oset \<Rightarrow> StorePath result) \<Rightarrow> bool \<Rightarrow> Derivation \<Rightarrow> StorePath result" where
  "writeDerivation digest storeDir addTextToStore readOnly drv =
     bindr (unparse digest storeDir False None drv) (\<lambda>contents.
     if readOnly then computeStorePathForText digest storeDir (drvName drv @ drvExtension) contents (drvReferences drv)
     else addTextToStore (drvName drv @ drvExtension) contents (drvReferences drv))"

section \<open>Lemmas on the checks\<close>

definition output_right :: "digest \<Rightarrow> string \<Rightarrow> (StorePath \<Rightarrow> Derivation result) \<Rightarrow> Derivation \<Rightarrow> string \<times> DerivationOutput \<Rightarrow> bool" where
  "output_right digest storeDir readDrv drv out =
     (case out of
        (i, InputAddressed p) \<Rightarrow>
          (\<exists>hashes h. hashes_to (\<lambda>k. hashPure k digest storeDir readDrv drv True) (Inr hashes)
             \<and> map_of hashes i = Some h \<and> makeOutputPath digest storeDir i h (drvName drv) = Inr p)
          \<and> (\<exists>v. map_of (env drv) i = Some v \<and> parseStorePath storeDir v = Inr p)
      | (i, CAFixed ca) \<Rightarrow>
          \<exists>p v. output_path digest storeDir (drvName drv) i (CAFixed ca) = Inr p
            \<and> map_of (env drv) i = Some v \<and> parseStorePath storeDir v = Inr p)"

lemma envHasRightPath_Inr:
  "envHasRightPath storeDir drv p i = Inr u \<longleftrightarrow> (\<exists>v. map_of (env drv) i = Some v \<and> parseStorePath storeDir v = Inr p)"
  by (cases u) (auto simp: envHasRightPath_def bindr_eq_Inr_iff split: option.splits if_splits)

lemma checkInputAddressed_Inr:
  "checkInputAddressed digest storeDir drv name hashes i p = Inr u \<longleftrightarrow>
     (\<exists>h. map_of hashes i = Some h \<and> makeOutputPath digest storeDir i h name = Inr p)
     \<and> (\<exists>v. map_of (env drv) i = Some v \<and> parseStorePath storeDir v = Inr p)"
  by (auto simp: checkInputAddressed_def bindr_eq_Inr_iff envHasRightPath_Inr split: option.splits if_splits)

lemma checkOutputs_ok:
  assumes "checkOutputs n digest storeDir readDrv drv (drvName drv) outs hm cache = Some (Inr u, cache')"
    and "cache_ok digest storeDir readDrv cache"
    and "\<forall>hs. hm = Some hs \<longrightarrow> hashes_to (\<lambda>k. hashPure k digest storeDir readDrv drv True) (Inr hs)"
  shows "\<forall>out \<in> set outs. output_right digest storeDir readDrv drv out"
  using assms
proof (induction n digest storeDir readDrv drv "drvName drv" outs hm cache rule: checkOutputs.induct)
  case (2 n digest storeDir readDrv drv i path outs hm cache)
  from 2(2) obtain hs c where hs: "lazyHashes n digest storeDir readDrv drv hm cache = Some (Inr hs, c)"
    "checkInputAddressed digest storeDir drv (drvName drv) hs i path = Inr ()"
    "checkOutputs n digest storeDir readDrv drv (drvName drv) outs (Some hs) c = Some (Inr u, cache')"
    by (auto split: option.splits sum.splits)
  have c: "cache_ok digest storeDir readDrv c" and l: "hashes_to (\<lambda>k. hashPure k digest storeDir readDrv drv True) (Inr hs)"
    using hs(1) 2(3,4) hashDerivationModulo_ok [of n digest storeDir readDrv drv True cache "Inr hs" c]
    by (auto simp: lazyHashes_def split: option.splits)
  have "output_right digest storeDir readDrv drv (i, InputAddressed path)"
    using l hs(2) unfolding output_right_def checkInputAddressed_Inr by auto
  then show ?case using 2(1) [OF hs(1) refl refl hs(2) hs(3) c] l by auto
next
  case (3 n digest storeDir readDrv drv i ca outs hm cache)
  then show ?case
    by (auto simp: output_right_def bindr_eq_Inr_iff envHasRightPath_Inr split: sum.splits)
qed simp

section \<open>Properties\<close>

text \<open>C28: Memoisation does not change hashes: with any consistent content of the cache the hash of a derivation is the one that
  the recursion without a cache computes, and the cache stays consistent. If the input derivations have no cycle (they
  have a rank) the hash is always computed.\<close>

theorem derivation_hash_memo:
  assumes "cache_ok digest storeDir readDrv cache"
    and "ranked readDrv rank" and "\<forall>q \<in> fst ` set (inputDrvs drv). rank q < n"
  shows "\<exists>r cache'. hashDerivationModulo n digest storeDir readDrv drv masked cache = Some (r, cache')
    \<and> cache_ok digest storeDir readDrv cache' \<and> hashes_to (\<lambda>k. hashPure k digest storeDir readDrv drv masked) r"
  using hashDerivationModulo_total [OF assms(2,3), of digest storeDir masked cache] hashDerivationModulo_ok [OF _ assms(1)] by blast

definition fixed_drv :: "string \<Rightarrow> Derivation" where
  "fixed_drv b = \<lparr>outputs = [(''out'', CAFixed \<lparr>ca_method = FileIngestion Flat, ca_hash = zeroHash 32 SHA256\<rparr>)], inputSrcs = [],
     platform = ''any'', builder = b, drv_args = [], env = [], drvName = ''src'', inputDrvs = []\<rparr>"

definition other_path :: StorePath where
  "other_path = StorePath ''gggggggggggggggggggggggggggggggg-y''"

definition fixed_inputs :: "StorePath \<Rightarrow> Derivation result" where
  "fixed_inputs p = Inr (fixed_drv (if p = example_path then ''/mirror1'' else ''/mirror2''))"

definition user_drv :: "StorePath \<Rightarrow> Derivation" where
  "user_drv p = example_derivation\<lparr>inputDrvs := [(p, [''out''])]\<rparr>"

lemma fixed_inputs_ranked: "ranked fixed_inputs (\<lambda>_. 0)"
  by (auto simp: ranked_def fixed_inputs_def fixed_drv_def)

lemma cache_ok_empty: "cache_ok digest storeDir readDrv []"
  by (simp add: cache_ok_def)

theorem derivation_hash_memo_witness:
  "\<exists>r cache'. hashDerivationModulo 1 zero_digest ''/nix/store'' fixed_inputs (user_drv example_path) True [] = Some (r, cache')
    \<and> hashes_to (\<lambda>k. hashPure k zero_digest ''/nix/store'' fixed_inputs (user_drv example_path) True) r"
  using derivation_hash_memo [OF cache_ok_empty fixed_inputs_ranked, of "user_drv example_path" 1 zero_digest "''/nix/store''" True] by auto

text \<open>C29: The hash of a derivation does not depend on where its fixed-output inputs come from: replacing an input derivation
  by another one with the same fixed outputs and name, whatever its builder, inputs and environment, leaves the hash
  unchanged, in whatever consistent states the cache is.\<close>

theorem derivation_hash_ignores_provenance:
  assumes "readDrv p = Inr f" and "readDrv q = Inr f'"
    and "drv_type f = Inr t" and "isFixed t" and "outputs f' = outputs f" and "drvName f' = drvName f"
    and "(p, node) \<in> set (inputDrvs drv)" and "set ins' = insert (q, node) (set (inputDrvs drv) - {(p, node)})"
    and "cache_ok digest storeDir readDrv c1" and "cache_ok digest storeDir readDrv c2"
    and "hashDerivationModulo n digest storeDir readDrv drv masked c1 = Some (Inr r, c1')"
    and "hashDerivationModulo m digest storeDir readDrv (drv\<lparr>inputDrvs := ins'\<rparr>) masked c2 = Some (Inr r', c2')"
  shows "r = r'"
proof -
  have "hashes_to (\<lambda>k. hashPure k digest storeDir readDrv drv masked) (Inr r)"
    "hashes_to (\<lambda>k. hashPure k digest storeDir readDrv (drv\<lparr>inputDrvs := ins'\<rparr>) masked) (Inr r')"
    using hashDerivationModulo_ok [OF assms(11,9)] hashDerivationModulo_ok [OF assms(12,10)] by blast+
  then obtain k where "hashPure k digest storeDir readDrv drv masked = Some (Inr r)"
    "hashPure k digest storeDir readDrv (drv\<lparr>inputDrvs := ins'\<rparr>) masked = Some (Inr r')"
    unfolding hashes_to_def by (metis max.cobounded1 max.cobounded2)
  then show ?thesis by (rule hashPure_swap [OF assms(1-8)])
qed

theorem derivation_hash_ignores_provenance_witness:
  "\<exists>h c c'. hashDerivationModulo 1 zero_digest ''/nix/store'' fixed_inputs (user_drv example_path) True [] = Some (Inr h, c)
    \<and> hashDerivationModulo 1 zero_digest ''/nix/store'' fixed_inputs (user_drv other_path) True [] = Some (Inr h, c')"
proof -
  let ?h = "\<lambda>p. hashDerivationModulo 1 zero_digest ''/nix/store'' fixed_inputs (user_drv p) True []"
  have "\<not> isl (fst (the (?h example_path)))" "?h example_path \<noteq> None" "\<not> isl (fst (the (?h other_path)))" "?h other_path \<noteq> None"
    by code_simp+
  then obtain r c r' c' where h: "?h example_path = Some (Inr r, c)" "?h other_path = Some (Inr r', c')"
    by (metis option.exhaust_sel prod.collapse sum.collapse(2))
  have f: "fixed_inputs example_path = Inr (fixed_drv ''/mirror1'')" "fixed_inputs other_path = Inr (fixed_drv ''/mirror2'')"
    "drv_type (fixed_drv ''/mirror1'') = Inr TypeContentAddressed" "isFixed TypeContentAddressed"
    "outputs (fixed_drv ''/mirror2'') = outputs (fixed_drv ''/mirror1'')" "drvName (fixed_drv ''/mirror2'') = drvName (fixed_drv ''/mirror1'')"
    by code_simp+
  have i: "(example_path, [''out'']) \<in> set (inputDrvs (user_drv example_path))"
    "set [(other_path, [''out''])] = insert (other_path, [''out'']) (set (inputDrvs (user_drv example_path)) - {(example_path, [''out''])})"
    by (simp_all add: user_drv_def)
  have u: "(user_drv example_path)\<lparr>inputDrvs := [(other_path, [''out''])]\<rparr> = user_drv other_path" by (simp add: user_drv_def)
  have "r = r'"
    using derivation_hash_ignores_provenance [OF f i cache_ok_empty cache_ok_empty h(1), unfolded u, OF h(2)] .
  then show ?thesis using h by blast
qed

text \<open>C30: A derivation that passes \<^verbatim>\<open>checkInvariants\<close> has the name of its path, and each of its outputs is the path that follows
  from its hash modulo fixed outputs (or from its content address), and is the value of the environment variable of that
  name.\<close>

theorem checkInvariants_sound:
  assumes "checkInvariants n digest storeDir readDrv drv drvPath cache = Some (Inr (), cache')"
    and "cache_ok digest storeDir readDrv cache"
  shows "isDerivation drvPath \<and> sp_name drvPath = drvName drv @ drvExtension
    \<and> (\<forall>out \<in> set (outputs drv). output_right digest storeDir readDrv drv out)"
proof -
  let ?n = "take (length (sp_name drvPath) - length drvExtension) (sp_name drvPath)"
  have d: "isDerivation drvPath" "?n = drvName drv" using assms(1) by (auto simp: checkInvariants_def Let_def split: if_splits)
  then have c: "checkOutputs n digest storeDir readDrv drv (drvName drv) (outputs drv) None cache = Some (Inr (), cache')"
    using assms(1) by (auto simp: checkInvariants_def Let_def split: if_splits sum.splits)
  have "sp_name drvPath = ?n @ drvExtension" using d(1) by (auto simp: isDerivation_def suffix_def)
  moreover have "\<forall>out \<in> set (outputs drv). output_right digest storeDir readDrv drv out"
    using checkOutputs_ok [OF c assms(2)] by simp
  ultimately show ?thesis using d by auto
qed

definition checked_drv :: Derivation where
  "checked_drv = (fixed_drv ''/mirror1'')\<lparr>env := [(''out'', ''/nix/store/00000000000000000000000000000000-src'')]\<rparr>"

theorem checkInvariants_sound_witness:
  "output_right zero_digest ''/nix/store'' fixed_inputs checked_drv
     (''out'', CAFixed \<lparr>ca_method = FileIngestion Flat, ca_hash = zeroHash 32 SHA256\<rparr>)"
proof -
  have c: "checkInvariants 0 zero_digest ''/nix/store'' fixed_inputs checked_drv (StorePath ''ffffffffffffffffffffffffffffffff-src.drv'') []
      = Some (Inr (), [])" by code_simp
  have "outputs checked_drv = [(''out'', CAFixed \<lparr>ca_method = FileIngestion Flat, ca_hash = zeroHash 32 SHA256\<rparr>)]"
    by (simp add: checked_drv_def fixed_drv_def)
  then show ?thesis using checkInvariants_sound [OF c cache_ok_empty] by simp
qed

end
