(* ===== verification/Lix_Lru_Cache.thy ===== *)
theory Lix_Lru_Cache
  imports Lix_Prelude
begin

text \<open>
  \<^verbatim>\<open>libutil/lru-cache.hh\<close>: a map of bounded size with a list of its entries in the order of their last use. An iterator into
  the map or the list stands for the key it points to. The abstract cache is the list of entries from the least to the most
  recently used one.
\<close>

record ('k, 'v) LRUCache =
  capacity :: nat
  data :: "('k, 'v) omap"
  lru :: "'k list"

definition newLRUCache :: "nat \<Rightarrow> ('k, 'v) LRUCache" where
  "newLRUCache cap = \<lparr>capacity = cap, data = [], lru = []\<rparr>"

definition lru_erase :: "'k::linorder \<Rightarrow> ('k, 'v) LRUCache \<Rightarrow> bool \<times> ('k, 'v) LRUCache" where
  "lru_erase key c =
     (case map_of (data c) key of
        None \<Rightarrow> (False, c)
      | Some _ \<Rightarrow> (True, c\<lparr>lru := remove1 key (lru c), data := omap_erase key (data c)\<rparr>))"

definition retireOldest :: "('k::linorder, 'v) LRUCache \<Rightarrow> ('k, 'v) LRUCache" where
  "retireOldest c = c\<lparr>data := omap_erase (hd (lru c)) (data c), lru := tl (lru c)\<rparr>"

definition lru_upsert :: "'k::linorder \<Rightarrow> 'v \<Rightarrow> ('k, 'v) LRUCache \<Rightarrow> ('k, 'v) LRUCache" where
  "lru_upsert key val c =
     (if capacity c = 0 then c
      else
        let c1 = snd (lru_erase key c);
            c2 = (if length (data c1) \<ge> capacity c1 then retireOldest c1 else c1)
        in c2\<lparr>data := omap_emplace key val (data c2), lru := lru c2 @ [key]\<rparr>)"

definition lru_get :: "'k::linorder \<Rightarrow> ('k, 'v) LRUCache \<Rightarrow> 'v option \<times> ('k, 'v) LRUCache" where
  "lru_get key c =
     (case map_of (data c) key of
        None \<Rightarrow> (None, c)
      | Some v \<Rightarrow> (Some v, c\<lparr>lru := remove1 key (lru c) @ [key]\<rparr>))"

definition lru_size :: "('k, 'v) LRUCache \<Rightarrow> nat" where
  "lru_size c = length (data c)"

definition lru_clear :: "('k, 'v) LRUCache \<Rightarrow> ('k, 'v) LRUCache" where
  "lru_clear c = c\<lparr>data := [], lru := []\<rparr>"

section \<open>Invariant and abstraction\<close>

definition lru_ok :: "('k::linorder, 'v) LRUCache \<Rightarrow> bool" where
  "lru_ok c \<longleftrightarrow> omap_ok (data c) \<and> distinct (lru c) \<and> set (lru c) = fst ` set (data c) \<and> length (data c) \<le> capacity c"

definition lru_abs :: "('k, 'v) LRUCache \<Rightarrow> ('k \<times> 'v) list" where
  "lru_abs c = map (\<lambda>k. (k, the (map_of (data c) k))) (lru c)"

definition without :: "'k \<Rightarrow> ('k \<times> 'v) list \<Rightarrow> ('k \<times> 'v) list" where
  "without key es = filter (\<lambda>e. fst e \<noteq> key) es"

definition abs_upsert :: "nat \<Rightarrow> 'k \<Rightarrow> 'v \<Rightarrow> ('k \<times> 'v) list \<Rightarrow> ('k \<times> 'v) list" where
  "abs_upsert cap key val es =
     (if cap = 0 then es
      else (if length (without key es) \<ge> cap then tl (without key es) else without key es) @ [(key, val)])"

definition abs_get :: "'k \<Rightarrow> ('k \<times> 'v) list \<Rightarrow> ('k \<times> 'v) list" where
  "abs_get key es = (case map_of es key of None \<Rightarrow> es | Some v \<Rightarrow> without key es @ [(key, v)])"

lemma omap_ok_distinct: "omap_ok m \<Longrightarrow> distinct (map fst m)"
  by (simp add: omap_ok_def strict_sorted_iff)

lemma lru_length: "lru_ok c \<Longrightarrow> length (lru c) = length (data c)"
  unfolding lru_ok_def by (metis distinct_card length_map list.set_map omap_ok_distinct)

lemma lru_abs_length: "lru_ok c \<Longrightarrow> length (lru_abs c) = length (data c)"
  by (simp add: lru_abs_def lru_length)

lemma lru_in_data: "lru_ok c \<Longrightarrow> k \<in> set (lru c) \<longleftrightarrow> map_of (data c) k \<noteq> None"
  by (auto simp: lru_ok_def map_of_eq_None_iff)

lemma map_of_lru_abs: "lru_ok c \<Longrightarrow> map_of (lru_abs c) k = map_of (data c) k"
  using lru_in_data [of c k]
  by (cases "map_of (data c) k") (auto simp: lru_abs_def map_of_map_restrict restrict_map_def)

lemma length_omap_erase: "map_of m k \<noteq> None \<Longrightarrow> Suc (length (omap_erase k m)) = length m"
  by (induction k m rule: omap_erase.induct) auto

lemma length_omap_emplace: "map_of m k = None \<Longrightarrow> length (omap_emplace k v m) = Suc (length m)"
  by (induction k v m rule: omap_emplace.induct) (auto split: if_splits)

lemma abs_remove1:
  "distinct ks \<Longrightarrow> map (\<lambda>k. (k, f k)) (remove1 x ks) = without x (map (\<lambda>k. (k, f k)) ks)"
  by (induction ks) (auto simp: without_def remove1_idem)

text \<open>Erasing an entry, whether found by its key or as the oldest one.\<close>

lemma erase_ok:
  assumes "lru_ok c" and "k \<in> set (lru c)"
  defines "c' \<equiv> c\<lparr>lru := remove1 k (lru c), data := omap_erase k (data c)\<rparr>"
  shows "lru_ok c'" "lru_abs c' = without k (lru_abs c)" "Suc (length (data c')) = length (data c)"
proof -
  have ok: "omap_ok (data c)" "distinct (lru c)" using assms(1) by (auto simp: lru_ok_def)
  have len: "Suc (length (omap_erase k (data c))) = length (data c)"
    using lru_in_data [OF assms(1)] assms(2) by (intro length_omap_erase) blast
  then show "Suc (length (data c')) = length (data c)" by (simp add: c'_def)
  show "lru_ok c'" using assms(1) len ok by (auto simp: lru_ok_def c'_def fst_omap_erase)
  show "lru_abs c' = without k (lru_abs c)"
  proof -
    have "map (\<lambda>x. (x, the (map_of (omap_erase k (data c)) x))) (remove1 k (lru c))
        = map (\<lambda>x. (x, the (map_of (data c) x))) (remove1 k (lru c))"
      using ok by (auto simp: map_of_omap_erase)
    then show ?thesis using ok(2) by (simp add: lru_abs_def c'_def abs_remove1)
  qed
qed

lemma without_not_in: "k \<notin> fst ` set es \<Longrightarrow> without k es = es"
  by (auto simp: without_def filter_id_conv)

lemma lru_erase_ok:
  assumes "lru_ok c"
  shows "lru_ok (snd (lru_erase k c)) \<and> lru_abs (snd (lru_erase k c)) = without k (lru_abs c)
    \<and> capacity (snd (lru_erase k c)) = capacity c \<and> map_of (data (snd (lru_erase k c))) k = None
    \<and> fst (lru_erase k c) = (map_of (data c) k \<noteq> None)"
proof (cases "map_of (data c) k")
  case None
  then have "k \<notin> fst ` set (lru_abs c)" using lru_in_data [OF assms] by (auto simp: lru_abs_def)
  then show ?thesis using None assms by (simp add: lru_erase_def without_not_in)
next
  case (Some v)
  then have "k \<in> set (lru c)" using lru_in_data [OF assms] by simp
  from erase_ok [OF assms this] show ?thesis
    using Some assms by (simp add: lru_erase_def lru_ok_def map_of_omap_erase)
qed

lemma retireOldest_ok:
  assumes "lru_ok c" and "data c \<noteq> []"
  shows "lru_ok (retireOldest c) \<and> lru_abs (retireOldest c) = tl (lru_abs c)
    \<and> Suc (length (data (retireOldest c))) = length (data c) \<and> capacity (retireOldest c) = capacity c"
proof -
  obtain k ks where l: "lru c = k # ks" using assms lru_length [OF assms(1)] by (cases "lru c") auto
  have d: "k \<notin> set ks" using assms(1) l by (simp add: lru_ok_def)
  have r: "retireOldest c = c\<lparr>lru := remove1 k (lru c), data := omap_erase k (data c)\<rparr>"
    using l by (cases c) (simp add: retireOldest_def)
  have "without k (lru_abs c) = tl (lru_abs c)"
    using l d by (auto simp: lru_abs_def without_def filter_id_conv)
  then show ?thesis using erase_ok [OF assms(1), of k] l r by simp
qed

lemma insert_ok:
  assumes "lru_ok c" and "map_of (data c) k = None" and "length (data c) < capacity c"
  shows "lru_ok (c\<lparr>data := omap_emplace k v (data c), lru := lru c @ [k]\<rparr>)
    \<and> lru_abs (c\<lparr>data := omap_emplace k v (data c), lru := lru c @ [k]\<rparr>) = lru_abs c @ [(k, v)]"
proof -
  have "omap_ok (data c)" "k \<notin> set (lru c)" using assms lru_in_data [OF assms(1)] by (auto simp: lru_ok_def)
  then show ?thesis
    using assms by (auto simp: lru_ok_def lru_abs_def fst_omap_emplace length_omap_emplace map_of_omap_emplace)
qed

lemma lru_upsert_ok:
  assumes "lru_ok c"
  shows "lru_ok (lru_upsert k v c) \<and> lru_abs (lru_upsert k v c) = abs_upsert (capacity c) k v (lru_abs c)
    \<and> capacity (lru_upsert k v c) = capacity c"
proof (cases "capacity c = 0")
  case False
  define c1 where "c1 = snd (lru_erase k c)"
  define c2 where "c2 = (if length (data c1) \<ge> capacity c1 then retireOldest c1 else c1)"
  have 1: "lru_ok c1" "lru_abs c1 = without k (lru_abs c)" "capacity c1 = capacity c" "map_of (data c1) k = None"
    using lru_erase_ok [OF assms, of k] by (simp_all add: c1_def)
  have len: "length (data c1) \<le> capacity c" using 1(1,3) by (simp add: lru_ok_def)
  have ne: "length (data c1) \<ge> capacity c1 \<Longrightarrow> data c1 \<noteq> []" using False 1(3) by auto
  have 2: "lru_ok c2" "capacity c2 = capacity c" "length (data c2) < capacity c2" "map_of (data c2) k = None"
    "lru_abs c2 = (if length (without k (lru_abs c)) \<ge> capacity c then tl (without k (lru_abs c)) else without k (lru_abs c))"
    using 1 len retireOldest_ok [OF 1(1) ne] lru_abs_length [OF 1(1)]
    by (auto simp: c2_def retireOldest_def map_of_omap_erase lru_ok_def)
  show ?thesis
    using insert_ok [OF 2(1,4,3), of v] 2(2,5) False
    by (simp add: lru_upsert_def Let_def c1_def [symmetric] c2_def [symmetric] abs_upsert_def)
qed (simp add: lru_upsert_def abs_upsert_def assms)

lemma lru_get_ok:
  assumes "lru_ok c"
  shows "fst (lru_get k c) = map_of (lru_abs c) k \<and> lru_ok (snd (lru_get k c))
    \<and> lru_abs (snd (lru_get k c)) = abs_get k (lru_abs c) \<and> data (snd (lru_get k c)) = data c"
proof (cases "map_of (data c) k")
  case None
  then show ?thesis using assms by (simp add: lru_get_def abs_get_def map_of_lru_abs)
next
  case (Some v)
  have k: "k \<in> set (lru c)" "distinct (lru c)" using Some lru_in_data [OF assms] assms by (auto simp: lru_ok_def)
  have "lru_abs (c\<lparr>lru := remove1 k (lru c) @ [k]\<rparr>) = without k (lru_abs c) @ [(k, v)]"
    using k Some by (simp add: lru_abs_def abs_remove1)
  then show ?thesis
    using Some k assms by (auto simp: lru_get_def abs_get_def map_of_lru_abs lru_ok_def)
qed

section \<open>Properties\<close>

text \<open>C32: The cache never holds more entries than its capacity, and its operations are those of a list of entries in the order
  of their last use: storing an entry makes it the newest one and drops the oldest one if there is no room, looking one up
  returns the stored value and makes it the newest one.\<close>

theorem lru_cache_refines:
  assumes "lru_ok c"
  shows "lru_size c \<le> capacity c
    \<and> lru_ok (lru_upsert k v c) \<and> lru_abs (lru_upsert k v c) = abs_upsert (capacity c) k v (lru_abs c)
    \<and> fst (lru_get k c) = map_of (lru_abs c) k \<and> lru_ok (snd (lru_get k c)) \<and> lru_abs (snd (lru_get k c)) = abs_get k (lru_abs c)
    \<and> lru_ok (snd (lru_erase k c)) \<and> lru_abs (snd (lru_erase k c)) = without k (lru_abs c)
    \<and> lru_ok (lru_clear c) \<and> lru_abs (lru_clear c) = []"
proof -
  have "lru_size c \<le> capacity c" "lru_ok (lru_clear c)" "lru_abs (lru_clear c) = []"
    using assms by (simp_all add: lru_ok_def lru_size_def lru_clear_def lru_abs_def)
  then show ?thesis
    using lru_upsert_ok [OF assms, of k v] lru_get_ok [OF assms, of k] lru_erase_ok [OF assms, of k] by blast
qed

theorem lru_cache_refines_witness:
  "lru_abs (lru_upsert (3::nat) ''c'' (lru_upsert 2 ''b'' (lru_upsert 1 ''a'' (newLRUCache 2)))) = [(2, ''b''), (3, ''c'')]"
proof -
  have "lru_ok (lru_upsert 2 ''b'' (lru_upsert (1::nat) ''a'' (newLRUCache 2)))" by code_simp
  from lru_cache_refines [OF this, of 3 "''c''"] show ?thesis by (simp add: abs_upsert_def) code_simp
qed

end
