(* ===== verification/Lix_Local_Store.thy ===== *)
theory Lix_Local_Store
  imports Lix_Store_Closure Lix_Drv_Hash Lix_Lru_Cache
begin

text \<open>
  The database of the local store, \<^verbatim>\<open>libstore/local-store.cc\<close> with \<^verbatim>\<open>libstore/schema.sql\<close>: the tables as lists of rows with the
  columns of the schema, one definition per prepared SQL statement with the meaning that SQL gives it under the constraints
  of the schema (unique paths, foreign keys with cascade and restrict, the trigger for self-references), and the operations
  that register, query and invalidate paths. A transaction that fails is rolled back, while what it did to the path info
  cache and to the memoised derivation hashes stays. The clock, the digest and the derivation files are parameters.
\<close>

section \<open>Tables\<close>

record ValidPathsRow =
  row_id :: nat
  row_path :: string
  row_hash :: string
  row_registrationTime :: int
  row_deriver :: "string option"
  row_narSize :: "int option"
  row_ultimate :: "int option"
  row_sigs :: "string option"
  row_ca :: "string option"

record DB =
  validPaths :: "ValidPathsRow list"
  refs :: "(nat \<times> nat) list"
  derivationOutputs :: "(nat \<times> string \<times> string) list"
  lastId :: nat

section \<open>Statements\<close>

definition ids :: "DB \<Rightarrow> nat set" where
  "ids db = row_id ` set (validPaths db)"

definition stmt_QueryPathInfo :: "string \<Rightarrow> DB \<Rightarrow> ValidPathsRow option" where
  "stmt_QueryPathInfo path db = find (\<lambda>r. row_path r = path) (validPaths db)"

definition stmt_RegisterValidPath :: "ValidPathsRow \<Rightarrow> DB \<Rightarrow> (nat \<times> DB) result" where
  "stmt_RegisterValidPath row db =
     (if stmt_QueryPathInfo (row_path row) db \<noteq> None then Inl (SQLiteError ''UNIQUE constraint failed'')
      else
        let i = Suc (lastId db)
        in Inr (i, db\<lparr>validPaths := validPaths db @ [row\<lparr>row_id := i\<rparr>], lastId := i\<rparr>))"

definition stmt_UpdatePathInfo ::
  "int option \<Rightarrow> string \<Rightarrow> int option \<Rightarrow> string option \<Rightarrow> string option \<Rightarrow> string \<Rightarrow> DB \<Rightarrow> DB" where
  "stmt_UpdatePathInfo nsize hash ult signatures ca path db =
     db\<lparr>validPaths := map (\<lambda>r. if row_path r = path
        then r\<lparr>row_hash := hash, row_narSize := nsize, row_ultimate := ult, row_sigs := signatures, row_ca := ca\<rparr> else r) (validPaths db)\<rparr>"

definition stmt_AddReference :: "nat \<Rightarrow> nat \<Rightarrow> DB \<Rightarrow> DB result" where
  "stmt_AddReference referrer reference db =
     (if referrer \<notin> ids db \<or> reference \<notin> ids db then Inl (SQLiteError ''FOREIGN KEY constraint failed'')
      else Inr (db\<lparr>refs := removeAll (referrer, reference) (refs db) @ [(referrer, reference)]\<rparr>))"

definition stmt_QueryReferences :: "nat \<Rightarrow> DB \<Rightarrow> string list" where
  "stmt_QueryReferences referrer db =
     concat (map (\<lambda>(a, b). if a = referrer then map row_path (filter (\<lambda>r. row_id r = b) (validPaths db)) else []) (refs db))"

definition stmt_QueryReferrers :: "string \<Rightarrow> DB \<Rightarrow> string list" where
  "stmt_QueryReferrers path db =
     (case stmt_QueryPathInfo path db of
        None \<Rightarrow> []
      | Some row \<Rightarrow> concat (map (\<lambda>(a, b). if b = row_id row
          then map row_path (filter (\<lambda>r. row_id r = a) (validPaths db)) else []) (refs db)))"

definition stmt_InvalidatePath :: "string \<Rightarrow> DB \<Rightarrow> DB result" where
  "stmt_InvalidatePath path db =
     (case stmt_QueryPathInfo path db of
        None \<Rightarrow> Inr db
      | Some row \<Rightarrow>
          let i = row_id row; refs1 = removeAll (i, i) (refs db)
          in if i \<in> snd ` set refs1 then Inl (SQLiteError ''FOREIGN KEY constraint failed'')
             else Inr (db\<lparr>validPaths := filter (\<lambda>r. row_id r \<noteq> i) (validPaths db),
                          refs := filter (\<lambda>r. fst r \<noteq> i) refs1,
                          derivationOutputs := filter (\<lambda>d. fst d \<noteq> i) (derivationOutputs db)\<rparr>))"

definition stmt_AddDerivationOutput :: "nat \<Rightarrow> string \<Rightarrow> string \<Rightarrow> DB \<Rightarrow> DB result" where
  "stmt_AddDerivationOutput drv out path db =
     (if drv \<notin> ids db then Inl (SQLiteError ''FOREIGN KEY constraint failed'')
      else Inr (db\<lparr>derivationOutputs := filter (\<lambda>d. \<not> (fst d = drv \<and> fst (snd d) = out)) (derivationOutputs db) @ [(drv, out, path)]\<rparr>))"

definition stmt_QueryValidDerivers :: "string \<Rightarrow> DB \<Rightarrow> string list" where
  "stmt_QueryValidDerivers path db =
     concat (map (\<lambda>(drv, _, p). if p = path then map row_path (filter (\<lambda>r. row_id r = drv) (validPaths db)) else [])
       (derivationOutputs db))"

definition stmt_QueryDerivationOutputs :: "nat \<Rightarrow> DB \<Rightarrow> (string \<times> string) list" where
  "stmt_QueryDerivationOutputs drv db = map snd (filter (\<lambda>d. fst d = drv) (derivationOutputs db))"

definition stmt_QueryValidPaths :: "DB \<Rightarrow> string list" where
  "stmt_QueryValidPaths db = map row_path (validPaths db)"

section \<open>Columns\<close>

definition bindSize :: "nat \<Rightarrow> int" where
  "bindSize n = sint (word_of_nat n :: 64 word)"

definition readSize :: "int option \<Rightarrow> nat" where
  "readSize c = (case c of None \<Rightarrow> 0 | Some i \<Rightarrow> unat (word_of_int i :: 64 word))"

definition nullable :: "bool \<Rightarrow> 'a \<Rightarrow> 'a option" where
  "nullable notNull x = (if notNull then Some x else None)"

definition infoRow :: "string \<Rightarrow> int \<Rightarrow> ValidPathInfo \<Rightarrow> ValidPathsRow" where
  "infoRow storeDir now info =
     \<lparr>row_id = 0, row_path = printStorePath storeDir (pi_path info), row_hash = to_base16 (narHash info),
      row_registrationTime = (if registrationTime info = 0 then now else registrationTime info),
      row_deriver = map_option (printStorePath storeDir) (deriver info),
      row_narSize = nullable (narSize info \<noteq> 0) (bindSize (narSize info)),
      row_ultimate = nullable (ultimate info) 1,
      row_sigs = nullable (sigs info \<noteq> []) (concatStringsSep '' '' (sigs info)),
      row_ca = nullable (pi_ca info \<noteq> None) (renderContentAddress (pi_ca info))\<rparr>"

section \<open>Queries\<close>

definition parsePaths :: "string \<Rightarrow> string list \<Rightarrow> StorePath oset result" where
  "parsePaths storeDir rows = bindr (mapr (parseStorePath storeDir) rows) (\<lambda>ps. Inr (oset_of ps))"

definition parseNarHash :: "string \<Rightarrow> Hash result" where
  "parseNarHash s =
     (case parseAnyPrefixed s of
        Inl (BadHash e) \<Rightarrow> Inl (BadStorePath e)
      | r \<Rightarrow> r)"

definition queryPathInfoInternal :: "string \<Rightarrow> DB \<Rightarrow> StorePath \<Rightarrow> ValidPathInfo option result" where
  "queryPathInfoInternal storeDir db path =
     (case stmt_QueryPathInfo (printStorePath storeDir path) db of
        None \<Rightarrow> Inr None
      | Some row \<Rightarrow>
          bindr (parseNarHash (row_hash row)) (\<lambda>h.
          bindr (case row_deriver row of
                   None \<Rightarrow> Inr None | Some d \<Rightarrow> bindr (parseStorePath storeDir d) (\<lambda>p. Inr (Some p))) (\<lambda>der.
          bindr (case row_ca row of None \<Rightarrow> Inr None | Some c \<Rightarrow> ca_parseOpt c) (\<lambda>ca.
          bindr (parsePaths storeDir (stmt_QueryReferences (row_id row) db)) (\<lambda>rs.
          Inr (Some \<lparr>deriver = der, narHash = h, references = rs, registrationTime = row_registrationTime row,
            narSize = readSize (row_narSize row), ultimate = (row_ultimate row = Some 1),
            sigs = (case row_sigs row of None \<Rightarrow> [] | Some s \<Rightarrow> tokenizeStringSet s '' ''),
            pi_ca = ca, pi_path = path\<rparr>))))))"

definition queryValidPathId :: "string \<Rightarrow> DB \<Rightarrow> StorePath \<Rightarrow> nat result" where
  "queryValidPathId storeDir db path =
     (case stmt_QueryPathInfo (printStorePath storeDir path) db of
        None \<Rightarrow> Inl (InvalidPath ''path does not exist in the Lix database'')
      | Some row \<Rightarrow> Inr (row_id row))"

definition isValidPath_db :: "string \<Rightarrow> DB \<Rightarrow> StorePath \<Rightarrow> bool" where
  "isValidPath_db storeDir db path \<longleftrightarrow> stmt_QueryPathInfo (printStorePath storeDir path) db \<noteq> None"

definition queryReferrers_db :: "string \<Rightarrow> DB \<Rightarrow> StorePath \<Rightarrow> StorePath oset result" where
  "queryReferrers_db storeDir db path = parsePaths storeDir (stmt_QueryReferrers (printStorePath storeDir path) db)"

definition queryValidDerivers_db :: "string \<Rightarrow> DB \<Rightarrow> StorePath \<Rightarrow> StorePath oset result" where
  "queryValidDerivers_db storeDir db path = parsePaths storeDir (stmt_QueryValidDerivers (printStorePath storeDir path) db)"

fun outputMap_loop :: "string \<Rightarrow> (string \<times> string) list \<Rightarrow> (string, StorePath) omap \<Rightarrow> (string, StorePath) omap result" where
  "outputMap_loop storeDir [] outs = Inr outs"
| "outputMap_loop storeDir ((i, p) # rows) outs =
     bindr (parseStorePath storeDir p) (\<lambda>path. outputMap_loop storeDir rows (omap_assign i path outs))"

definition queryStaticDerivationOutputMap_db :: "string \<Rightarrow> DB \<Rightarrow> StorePath \<Rightarrow> (string, StorePath) omap result" where
  "queryStaticDerivationOutputMap_db storeDir db path =
     bindr (queryValidPathId storeDir db path) (\<lambda>drvId.
     outputMap_loop storeDir (stmt_QueryDerivationOutputs drvId db) [])"

definition queryAllValidPaths_db :: "string \<Rightarrow> DB \<Rightarrow> StorePath oset result" where
  "queryAllValidPaths_db storeDir db = parsePaths storeDir (stmt_QueryValidPaths db)"

definition queryValidPaths_db :: "string \<Rightarrow> DB \<Rightarrow> StorePath oset \<Rightarrow> StorePath oset" where
  "queryValidPaths_db storeDir db paths = oset_of (filter (isValidPath_db storeDir db) paths)"

section \<open>The store object\<close>

text \<open>
  What the operations take from outside: the configuration, the digest, the derivation files, the clocks and the depth up to
  which input derivations are followed.
\<close>

record StoreEnv =
  e_storeDir :: string
  e_digest :: digest
  e_readDrv :: "StorePath \<Rightarrow> Derivation result"
  maxDepth :: nat
  now :: int
  steadyClock :: nat
  ttlPositive :: nat
  ttlNegative :: nat

record PathInfoCacheValue =
  time_point :: nat
  cached :: "ValidPathInfo option"

record LocalStore =
  db :: DB
  pathInfoCache :: "(string, PathInfoCacheValue) LRUCache"
  drvHashes :: DrvHashes

definition isKnownNow :: "StoreEnv \<Rightarrow> PathInfoCacheValue \<Rightarrow> bool" where
  "isKnownNow E v \<longleftrightarrow> steadyClock E < time_point v + (if cached v \<noteq> None then ttlPositive E else ttlNegative E)"

definition cacheInfo :: "StoreEnv \<Rightarrow> StorePath \<Rightarrow> ValidPathInfo option \<Rightarrow> LocalStore \<Rightarrow> LocalStore" where
  "cacheInfo E path info st =
     st\<lparr>pathInfoCache := lru_upsert (baseName path) \<lparr>time_point = steadyClock E, cached = info\<rparr> (pathInfoCache st)\<rparr>"

definition isValidPath_cached :: "StoreEnv \<Rightarrow> StorePath \<Rightarrow> LocalStore \<Rightarrow> bool \<times> LocalStore" where
  "isValidPath_cached E path st =
     (let (res, cache) = lru_get (baseName path) (pathInfoCache st);
          st' = st\<lparr>pathInfoCache := cache\<rparr>
      in case res of
           Some v \<Rightarrow> if isKnownNow E v then (cached v \<noteq> None, st') else (isValidPath_db (e_storeDir E) (db st) path, st')
         | None \<Rightarrow> (isValidPath_db (e_storeDir E) (db st) path, st'))"

definition ensureGoodStorePath :: "StorePath \<Rightarrow> StorePath \<Rightarrow> unit result" where
  "ensureGoodStorePath expected actual =
     (if hashPart expected \<noteq> hashPart actual then Inl (Error ''the queried store path hash did not match expected'')
      else if sp_name expected \<noteq> ''x'' \<and> sp_name expected \<noteq> sp_name actual
      then Inl (Error ''the queried store path name did not match expected'')
      else Inr ())"

definition queryPathInfo_cached :: "StoreEnv \<Rightarrow> StorePath \<Rightarrow> LocalStore \<Rightarrow> ValidPathInfo result \<times> LocalStore" where
  "queryPathInfo_cached E path st =
     (let (res, cache) = lru_get (baseName path) (pathInfoCache st);
          st' = st\<lparr>pathInfoCache := cache\<rparr>;
          missing = Inl (InvalidPath ''path does not exist in the store'');
          query = bindr (queryPathInfoInternal (e_storeDir E) (db st) path) (\<lambda>info.
            case info of None \<Rightarrow> Inr None | Some i \<Rightarrow> bindr (ensureGoodStorePath path (pi_path i)) (\<lambda>_. Inr info));
          uncached = (case query of
              Inl e \<Rightarrow> (Inl e, st')
            | Inr info \<Rightarrow> (case info of None \<Rightarrow> missing | Some i \<Rightarrow> Inr i, cacheInfo E path info st'))
      in case res of
           Some v \<Rightarrow>
             if isKnownNow E v then (case cached v of None \<Rightarrow> missing | Some i \<Rightarrow> Inr i, st') else uncached
         | None \<Rightarrow> uncached)"

section \<open>Registering paths\<close>

type_synonym 'a outcome = "('a result \<times> LocalStore) option"

fun cacheDrvOutputMappings :: "string \<Rightarrow> nat \<Rightarrow> (string \<times> DerivationOutput \<times> StorePath) list \<Rightarrow> DB \<Rightarrow> DB result" where
  "cacheDrvOutputMappings storeDir i [] d = Inr d"
| "cacheDrvOutputMappings storeDir i ((out, _, path) # outs) d =
     bindr (stmt_AddDerivationOutput i out (printStorePath storeDir path) d) (cacheDrvOutputMappings storeDir i outs)"

definition checkedDerivation :: "StoreEnv \<Rightarrow> StorePath \<Rightarrow> bool \<Rightarrow> LocalStore \<Rightarrow> Derivation outcome" where
  "checkedDerivation E path check st =
     (case e_readDrv E path of
        Inl e \<Rightarrow> Some (Inl e, st)
      | Inr drv \<Rightarrow>
          if \<not> check then Some (Inr drv, st)
          else
            (case checkInvariants (maxDepth E) (e_digest E) (e_storeDir E) (e_readDrv E) drv path (drvHashes st) of
               None \<Rightarrow> None
             | Some (Inl e, hs) \<Rightarrow> Some (Inl e, st\<lparr>drvHashes := hs\<rparr>)
             | Some (Inr _, hs) \<Rightarrow> Some (Inr drv, st\<lparr>drvHashes := hs\<rparr>)))"

definition addDrvOutputs :: "StoreEnv \<Rightarrow> StorePath \<Rightarrow> nat \<Rightarrow> bool \<Rightarrow> LocalStore \<Rightarrow> unit outcome" where
  "addDrvOutputs E path i check st =
     (if \<not> isDerivation path then Some (Inr (), st)
      else case checkedDerivation E path check st of
          None \<Rightarrow> None
        | Some (Inl e, st') \<Rightarrow> Some (Inl e, st')
        | Some (Inr drv, st') \<Rightarrow>
            (case bindr (outputsAndPaths (e_digest E) (e_storeDir E) drv) (\<lambda>outs. cacheDrvOutputMappings (e_storeDir E) i outs (db st')) of
               Inl e \<Rightarrow> Some (Inl e, st')
             | Inr d \<Rightarrow> Some (Inr (), st'\<lparr>db := d\<rparr>)))"

definition addValidPath :: "StoreEnv \<Rightarrow> ValidPathInfo \<Rightarrow> bool \<Rightarrow> LocalStore \<Rightarrow> nat outcome" where
  "addValidPath E info check st =
     (case (if pi_ca info = None then Inr True else isContentAddressed (e_digest E) (e_storeDir E) info) of
        Inl e \<Rightarrow> Some (Inl e, st)
      | Inr reallyCA \<Rightarrow>
          if \<not> reallyCA then Some (Inl (Error ''cannot add path because it claims to be content-addressed but isn't''), st)
          else
            (case stmt_RegisterValidPath (infoRow (e_storeDir E) (now E) info) (db st) of
               Inl e \<Rightarrow> Some (Inl e, st)
             | Inr (i, d) \<Rightarrow>
                 (case addDrvOutputs E (pi_path info) i check (st\<lparr>db := d\<rparr>) of
                    None \<Rightarrow> None
                  | Some (Inl e, st') \<Rightarrow> Some (Inl e, st')
                  | Some (Inr _, st') \<Rightarrow> Some (Inr i, cacheInfo E (pi_path info) (Some info) st'))))"

definition updatePathInfo :: "StoreEnv \<Rightarrow> ValidPathInfo \<Rightarrow> LocalStore \<Rightarrow> LocalStore" where
  "updatePathInfo E info st =
     st\<lparr>db := stmt_UpdatePathInfo (nullable (narSize info \<noteq> 0) (bindSize (narSize info))) (to_base16 (narHash info))
        (nullable (ultimate info) 1) (nullable (sigs info \<noteq> []) (concatStringsSep '' '' (sigs info)))
        (nullable (pi_ca info \<noteq> None) (renderContentAddress (pi_ca info)))
        (printStorePath (e_storeDir E) (pi_path info)) (db st)\<rparr>"

fun addInfos :: "StoreEnv \<Rightarrow> ValidPathInfo list \<Rightarrow> LocalStore \<Rightarrow> unit outcome" where
  "addInfos E [] st = Some (Inr (), st)"
| "addInfos E (i # infos) st =
     (if hash_type (narHash i) \<noteq> SHA256 then Some (Inl (AssertionFailed ''i.narHash.type == HashType::SHA256''), st)
      else if isValidPath_db (e_storeDir E) (db st) (pi_path i) then addInfos E infos (updatePathInfo E i st)
      else case addValidPath E i False st of
          None \<Rightarrow> None
        | Some (Inl e, st') \<Rightarrow> Some (Inl e, st')
        | Some (Inr _, st') \<Rightarrow> addInfos E infos st')"

fun addReferences :: "string \<Rightarrow> nat \<Rightarrow> StorePath list \<Rightarrow> DB \<Rightarrow> DB result" where
  "addReferences storeDir referrer [] d = Inr d"
| "addReferences storeDir referrer (j # js) d =
     bindr (queryValidPathId storeDir d j) (\<lambda>reference.
     bindr (stmt_AddReference referrer reference d) (addReferences storeDir referrer js))"

fun addInfosReferences :: "string \<Rightarrow> ValidPathInfo list \<Rightarrow> DB \<Rightarrow> DB result" where
  "addInfosReferences storeDir [] d = Inr d"
| "addInfosReferences storeDir (i # infos) d =
     bindr (queryValidPathId storeDir d (pi_path i)) (\<lambda>referrer.
     bindr (addReferences storeDir referrer (references i) d) (addInfosReferences storeDir infos))"

fun checkDerivations :: "StoreEnv \<Rightarrow> ValidPathInfo list \<Rightarrow> LocalStore \<Rightarrow> unit outcome" where
  "checkDerivations E [] st = Some (Inr (), st)"
| "checkDerivations E (i # infos) st =
     (if isDerivation (pi_path i) then
        (case checkedDerivation E (pi_path i) True st of
           None \<Rightarrow> None
         | Some (Inl e, st') \<Rightarrow> Some (Inl e, st')
         | Some (Inr _, st') \<Rightarrow> checkDerivations E infos st')
      else checkDerivations E infos st)"

definition infoReferences :: "(StorePath, ValidPathInfo) omap \<Rightarrow> StorePath \<Rightarrow> StorePath oset" where
  "infoReferences infos path = (case map_of infos path of None \<Rightarrow> [] | Some i \<Rightarrow> references i)"

definition registerInTransaction :: "StoreEnv \<Rightarrow> (StorePath, ValidPathInfo) omap \<Rightarrow> LocalStore \<Rightarrow> unit outcome" where
  "registerInTransaction E infos st =
     (let is = map snd infos
      in case addInfos E is st of
           None \<Rightarrow> None
         | Some (Inl e, st1) \<Rightarrow> Some (Inl e, st1)
         | Some (Inr _, st1) \<Rightarrow>
             (case addInfosReferences (e_storeDir E) is (db st1) of
                Inl e \<Rightarrow> Some (Inl e, st1)
              | Inr d \<Rightarrow>
                  (case checkDerivations E is (st1\<lparr>db := d\<rparr>) of
                     None \<Rightarrow> None
                   | Some (Inl e, st2) \<Rightarrow> Some (Inl e, st2)
                   | Some (Inr _, st2) \<Rightarrow>
                       (case topoSort (oset_of (map pi_path is)) (infoReferences infos) of
                          None \<Rightarrow> None
                        | Some (Inl _) \<Rightarrow> Some (Inl (BuildError ''cycle detected in the references''), st2)
                        | Some (Inr _) \<Rightarrow> Some (Inr (), st2)))))"

definition registerValidPaths :: "StoreEnv \<Rightarrow> (StorePath, ValidPathInfo) omap \<Rightarrow> LocalStore \<Rightarrow> unit outcome" where
  "registerValidPaths E infos st =
     (case registerInTransaction E infos st of
        None \<Rightarrow> None
      | Some (Inl e, st') \<Rightarrow> Some (Inl e, st'\<lparr>db := db st\<rparr>)
      | Some (Inr u, st') \<Rightarrow> Some (Inr u, st'))"

definition registerValidPath :: "StoreEnv \<Rightarrow> ValidPathInfo \<Rightarrow> LocalStore \<Rightarrow> unit outcome" where
  "registerValidPath E info st = registerValidPaths E [(pi_path info, info)] st"

section \<open>Invalidating paths\<close>

definition invalidatePath :: "StoreEnv \<Rightarrow> StorePath \<Rightarrow> LocalStore \<Rightarrow> unit result \<times> LocalStore" where
  "invalidatePath E path st =
     (case stmt_InvalidatePath (printStorePath (e_storeDir E) path) (db st) of
        Inl e \<Rightarrow> (Inl e, st)
      | Inr d \<Rightarrow> (Inr (), st\<lparr>db := d, pathInfoCache := snd (lru_erase (baseName path) (pathInfoCache st))\<rparr>))"

definition invalidatePathChecked :: "StoreEnv \<Rightarrow> StorePath \<Rightarrow> LocalStore \<Rightarrow> unit result \<times> LocalStore" where
  "invalidatePathChecked E path st =
     (if isValidPath_db (e_storeDir E) (db st) path then
        (case queryReferrers_db (e_storeDir E) (db st) path of
           Inl e \<Rightarrow> (Inl e, st)
         | Inr referrers \<Rightarrow>
             if removeAll path referrers \<noteq> [] then (Inl (PathInUse ''cannot delete path because it is in use''), st)
             else invalidatePath E path st)
      else (Inr (), st))"

section \<open>The invariant of the database\<close>

definition path_text :: "string \<Rightarrow> string \<Rightarrow> bool" where
  "path_text sd s \<longleftrightarrow> (\<exists>p. sp_ok p \<and> s = printStorePath sd p)"

definition db_ok :: "string \<Rightarrow> DB \<Rightarrow> bool" where
  "db_ok sd d \<longleftrightarrow>
     distinct (map row_path (validPaths d)) \<and> distinct (map row_id (validPaths d))
     \<and> (\<forall>r \<in> set (validPaths d). row_id r \<le> lastId d \<and> path_text sd (row_path r))
     \<and> set (refs d) \<subseteq> ids d \<times> ids d
     \<and> distinct (map (\<lambda>x. (fst x, fst (snd x))) (derivationOutputs d))
     \<and> (\<forall>x \<in> set (derivationOutputs d). fst x \<in> ids d \<and> path_text sd (snd (snd x)))"

text \<open>The relations the tables stand for.\<close>

definition refers :: "string \<Rightarrow> DB \<Rightarrow> StorePath \<Rightarrow> StorePath \<Rightarrow> bool" where
  "refers sd d p q \<longleftrightarrow>
     (\<exists>r \<in> set (validPaths d). \<exists>r' \<in> set (validPaths d). row_path r = printStorePath sd p \<and> row_path r' = printStorePath sd q
        \<and> (row_id r, row_id r') \<in> set (refs d))"

definition produces :: "string \<Rightarrow> DB \<Rightarrow> StorePath \<Rightarrow> StorePath \<Rightarrow> bool" where
  "produces sd d drv p \<longleftrightarrow>
     (\<exists>r \<in> set (validPaths d). \<exists>i. row_path r = printStorePath sd drv \<and> (row_id r, i, printStorePath sd p) \<in> set (derivationOutputs d))"

lemma print_inj [simp]: "printStorePath sd p = printStorePath sd q \<longleftrightarrow> p = q"
  by (cases p; cases q) (simp add: printStorePath_def)

lemma find_distinct:
  assumes "distinct (map f xs)"
  shows "find (\<lambda>x. f x = y) xs = Some x \<longleftrightarrow> x \<in> set xs \<and> f x = y"
  using assms by (induction xs) auto

lemma row_lookup: "db_ok sd d \<Longrightarrow> stmt_QueryPathInfo s d = Some r \<longleftrightarrow> r \<in> set (validPaths d) \<and> row_path r = s"
  by (simp add: stmt_QueryPathInfo_def find_distinct db_ok_def)

lemma row_lookup_None: "stmt_QueryPathInfo s d = None \<longleftrightarrow> s \<notin> row_path ` set (validPaths d)"
  by (auto simp: stmt_QueryPathInfo_def find_None_iff)

lemma valid_iff: "isValidPath_db sd d p \<longleftrightarrow> printStorePath sd p \<in> row_path ` set (validPaths d)"
  by (simp add: isValidPath_db_def row_lookup_None)

lemma ids_filter: "db_ok sd d \<Longrightarrow> r \<in> set (validPaths d) \<Longrightarrow> filter (\<lambda>r'. row_id r' = row_id r) (validPaths d) = [r]"
proof -
  have "distinct (map f xs) \<Longrightarrow> x \<in> set xs \<Longrightarrow> filter (\<lambda>y. f y = f x) xs = [x]" for f :: "ValidPathsRow \<Rightarrow> nat" and x xs
  proof (induction xs)
    case (Cons y ys)
    show ?case
    proof (cases "x = y")
      case True
      then have "filter (\<lambda>z. f z = f x) ys = []" using Cons.prems by (auto simp: filter_empty_conv image_iff)
      then show ?thesis using True by simp
    next
      case False
      then have "x \<in> set ys" "f y \<noteq> f x" using Cons.prems by auto
      then show ?thesis using Cons by simp
    qed
  qed simp
  then show "db_ok sd d \<Longrightarrow> r \<in> set (validPaths d) \<Longrightarrow> ?thesis" by (simp add: db_ok_def)
qed

text \<open>The paths in the database parse.\<close>

lemma parsePaths_ok:
  assumes "canonical sd" and "\<forall>s \<in> set ss. path_text sd s"
  shows "\<exists>ps. parsePaths sd ss = Inr ps \<and> oset_ok ps \<and> printStorePath sd ` set ps = set ss \<and> (\<forall>p \<in> set ps. sp_ok p)"
proof -
  have "\<forall>s. \<exists>p. s \<in> set ss \<longrightarrow> sp_ok p \<and> s = printStorePath sd p" using assms(2) by (auto simp: path_text_def)
  then obtain f where f: "\<forall>s \<in> set ss. sp_ok (f s) \<and> s = printStorePath sd (f s)" by metis
  then have "mapr (parseStorePath sd) ss = Inr (map f ss)"
    by (intro mapr_Inr) (metis assms(1) parse_sp_ok)
  moreover have "printStorePath sd ` f ` set ss = set ss" using f by force
  ultimately show ?thesis using f by (auto simp: parsePaths_def)
qed

lemma parsePaths_set:
  assumes "canonical sd" and "\<forall>s \<in> set ss. path_text sd s" and "\<And>p. printStorePath sd p \<in> set ss \<longleftrightarrow> Q p"
  shows "\<exists>ps. parsePaths sd ss = Inr ps \<and> oset_ok ps \<and> set ps = {p. Q p} \<and> (\<forall>p \<in> set ps. sp_ok p)"
proof -
  obtain ps where ps: "parsePaths sd ss = Inr ps" "oset_ok ps" "printStorePath sd ` set ps = set ss" "\<forall>p \<in> set ps. sp_ok p"
    using parsePaths_ok [OF assms(1,2)] by blast
  have "set ps = {p. printStorePath sd p \<in> set ss}" unfolding ps(3) [symmetric] by (auto simp: image_iff)
  then show ?thesis using ps assms(3) by auto
qed

lemma set_join_rows:
  "set (concat (map (\<lambda>(a, b). if P a b then map row_path (filter (\<lambda>r. row_id r = f a b) rows) else []) es))
     = {s. \<exists>r \<in> set rows. \<exists>(a, b) \<in> set es. P a b \<and> row_id r = f a b \<and> s = row_path r}"
  by (auto split: if_splits)

lemma queryReferrers_ok:
  assumes "db_ok sd d" and "canonical sd"
  shows "\<exists>ps. queryReferrers_db sd d q = Inr ps \<and> oset_ok ps \<and> set ps = {p. refers sd d p q} \<and> (\<forall>p \<in> set ps. sp_ok p)"
proof -
  let ?ss = "stmt_QueryReferrers (printStorePath sd q) d"
  have ss: "set ?ss = {s. \<exists>r \<in> set (validPaths d). \<exists>r' \<in> set (validPaths d). s = row_path r \<and> row_path r' = printStorePath sd q
      \<and> (row_id r, row_id r') \<in> set (refs d)}"
  proof (cases "stmt_QueryPathInfo (printStorePath sd q) d")
    case None
    then have "?ss = []" by (simp add: stmt_QueryReferrers_def)
    moreover have "printStorePath sd q \<notin> row_path ` set (validPaths d)" using None by (simp add: row_lookup_None)
    ultimately show ?thesis by (auto simp: image_iff)
  next
    case (Some row)
    then have row: "r' \<in> set (validPaths d) \<and> row_path r' = printStorePath sd q \<longleftrightarrow> r' = row" for r'
      using row_lookup [OF assms(1)] by (metis option.inject)
    have "set ?ss = {s. \<exists>r \<in> set (validPaths d). \<exists>(a, b) \<in> set (refs d). b = row_id row \<and> row_id r = a \<and> s = row_path r}"
      using Some by (simp only: stmt_QueryReferrers_def option.case set_join_rows)
    also have "\<dots> = {s. \<exists>r \<in> set (validPaths d). s = row_path r \<and> (row_id r, row_id row) \<in> set (refs d)}" by auto
    also have "\<dots> = {s. \<exists>r \<in> set (validPaths d). \<exists>r' \<in> set (validPaths d). s = row_path r \<and> row_path r' = printStorePath sd q
        \<and> (row_id r, row_id r') \<in> set (refs d)}"
      by (intro Collect_cong iffI) (metis row)+
    finally show ?thesis .
  qed
  have "\<forall>s \<in> set ?ss. path_text sd s" using assms(1) unfolding ss db_ok_def by auto
  moreover have "printStorePath sd p \<in> set ?ss \<longleftrightarrow> refers sd d p q" for p unfolding ss refers_def mem_Collect_eq by metis
  ultimately show ?thesis unfolding queryReferrers_db_def by (rule parsePaths_set [OF assms(2)])
qed

lemma queryReferences_ok:
  assumes "db_ok sd d" and "canonical sd" and "stmt_QueryPathInfo (printStorePath sd p) d = Some row"
  shows "\<exists>ps. parsePaths sd (stmt_QueryReferences (row_id row) d) = Inr ps \<and> oset_ok ps \<and> set ps = {q. refers sd d p q}
    \<and> (\<forall>q \<in> set ps. sp_ok q)"
proof -
  let ?ss = "stmt_QueryReferences (row_id row) d"
  have row: "r \<in> set (validPaths d) \<and> row_path r = printStorePath sd p \<longleftrightarrow> r = row" for r
    using row_lookup [OF assms(1)] assms(3) by (metis option.inject)
  have "set ?ss = {s. \<exists>r \<in> set (validPaths d). \<exists>(a, b) \<in> set (refs d). a = row_id row \<and> row_id r = b \<and> s = row_path r}"
    by (simp only: stmt_QueryReferences_def set_join_rows)
  then have ss: "set ?ss = {s. \<exists>r \<in> set (validPaths d). s = row_path r \<and> (row_id row, row_id r) \<in> set (refs d)}" by auto
  have "\<forall>s \<in> set ?ss. path_text sd s" using assms(1) unfolding ss db_ok_def by auto
  moreover have "printStorePath sd q \<in> set ?ss \<longleftrightarrow> refers sd d p q" for q unfolding ss refers_def mem_Collect_eq using row by metis
  ultimately show ?thesis by (rule parsePaths_set [OF assms(2)])
qed

lemma queryValidDerivers_ok:
  assumes "db_ok sd d" and "canonical sd"
  shows "\<exists>ps. queryValidDerivers_db sd d p = Inr ps \<and> oset_ok ps \<and> set ps = {drv. produces sd d drv p} \<and> (\<forall>q \<in> set ps. sp_ok q)"
proof -
  let ?ss = "stmt_QueryValidDerivers (printStorePath sd p) d"
  have ss: "set ?ss = {s. \<exists>r \<in> set (validPaths d). \<exists>i. s = row_path r \<and> (row_id r, i, printStorePath sd p) \<in> set (derivationOutputs d)}"
    by (auto simp: stmt_QueryValidDerivers_def split: if_splits)
  have "\<forall>s \<in> set ?ss. path_text sd s" using assms(1) unfolding ss db_ok_def by auto
  moreover have "printStorePath sd drv \<in> set ?ss \<longleftrightarrow> produces sd d drv p" for drv unfolding ss produces_def mem_Collect_eq by metis
  ultimately show ?thesis unfolding queryValidDerivers_db_def by (rule parsePaths_set [OF assms(2)])
qed

lemma omap_assign_new:
  "omap_ok m \<Longrightarrow> k \<notin> fst ` set m \<Longrightarrow> set (omap_assign k v m) = insert (k, v) (set m)"
  by (induction k v m rule: omap_assign.induct) auto

lemma outputMap_loop_ok:
  assumes "canonical sd"
  shows "\<forall>x \<in> set rows. path_text sd (snd x) \<Longrightarrow> distinct (map fst rows) \<Longrightarrow> omap_ok outs \<Longrightarrow>
    fst ` set outs \<inter> fst ` set rows = {} \<Longrightarrow>
    \<exists>r. outputMap_loop sd rows outs = Inr r \<and> omap_ok r
      \<and> (\<forall>p. p \<in> snd ` set r \<longleftrightarrow> p \<in> snd ` set outs \<or> printStorePath sd p \<in> snd ` set rows)
      \<and> (\<forall>p \<in> snd ` set r. p \<in> snd ` set outs \<or> sp_ok p)"
proof (induction rows arbitrary: outs)
  case (Cons x rows)
  obtain i s where x: "x = (i, s)" by fastforce
  obtain p where p: "sp_ok p" "s = printStorePath sd p" using Cons.prems(1) x by (auto simp: path_text_def)
  have outs': "set (omap_assign i p outs) = insert (i, p) (set outs)"
    using Cons.prems x by (intro omap_assign_new) auto
  have "\<exists>r. outputMap_loop sd rows (omap_assign i p outs) = Inr r \<and> omap_ok r
      \<and> (\<forall>q. q \<in> snd ` set r \<longleftrightarrow> q \<in> snd ` set (omap_assign i p outs) \<or> printStorePath sd q \<in> snd ` set rows)
      \<and> (\<forall>q \<in> snd ` set r. q \<in> snd ` set (omap_assign i p outs) \<or> sp_ok q)"
    using Cons.prems x by (intro Cons.IH) (auto simp: outs')
  then show ?case using x p parse_sp_ok [OF assms p(1)] by (auto simp: outs')
qed auto

lemma queryStaticDerivationOutputMap_ok:
  assumes ok: "db_ok sd d" and "canonical sd" and valid: "isValidPath_db sd d drv"
  shows "\<exists>outs. queryStaticDerivationOutputMap_db sd d drv = Inr outs \<and> omap_ok outs
    \<and> (\<forall>p. p \<in> snd ` set outs \<longleftrightarrow> produces sd d drv p) \<and> (\<forall>p \<in> snd ` set outs. sp_ok p)"
proof -
  obtain row where row: "stmt_QueryPathInfo (printStorePath sd drv) d = Some row" using valid by (auto simp: isValidPath_db_def)
  then have r: "r \<in> set (validPaths d) \<and> row_path r = printStorePath sd drv \<longleftrightarrow> r = row" for r
    using row_lookup [OF ok] by (metis option.inject)
  let ?rows = "stmt_QueryDerivationOutputs (row_id row) d"
  have "distinct (map (\<lambda>x. (fst x, fst (snd x))) (filter (\<lambda>x. fst x = row_id row) (derivationOutputs d)))"
    using ok by (auto simp: db_ok_def distinct_map intro: inj_on_subset)
  then have "distinct (map fst ?rows)"
    unfolding stmt_QueryDerivationOutputs_def map_map comp_def by (auto simp: distinct_map inj_on_def)
  moreover have "\<forall>x \<in> set ?rows. path_text sd (snd x)"
    using ok by (auto simp: stmt_QueryDerivationOutputs_def db_ok_def)
  ultimately have "\<exists>r. outputMap_loop sd ?rows [] = Inr r \<and> omap_ok r \<and> (\<forall>p. p \<in> snd ` set r \<longleftrightarrow> printStorePath sd p \<in> snd ` set ?rows)
      \<and> (\<forall>p \<in> snd ` set r. sp_ok p)"
    using outputMap_loop_ok [OF assms(2), of ?rows "[]"] by simp
  moreover have "printStorePath sd p \<in> snd ` set ?rows \<longleftrightarrow> produces sd d drv p" for p
  proof -
    have "printStorePath sd p \<in> snd ` set ?rows \<longleftrightarrow> (\<exists>i. (row_id row, i, printStorePath sd p) \<in> set (derivationOutputs d))"
      by (force simp: stmt_QueryDerivationOutputs_def)
    then show ?thesis unfolding produces_def using r by metis
  qed
  ultimately show ?thesis by (simp add: queryStaticDerivationOutputMap_db_def queryValidPathId_def row)
qed

subsection \<open>Statements keep the invariant\<close>

lemma register_ok:
  assumes "db_ok sd d" and "path_text sd (row_path row)" and "stmt_RegisterValidPath row d = Inr (i, d')"
  shows "db_ok sd d' \<and> i \<in> ids d' \<and> validPaths d' = validPaths d @ [row\<lparr>row_id := i\<rparr>] \<and> refs d' = refs d
    \<and> derivationOutputs d' = derivationOutputs d \<and> i \<notin> ids d"
proof -
  have new: "row_path row \<notin> row_path ` set (validPaths d)" and i: "i = Suc (lastId d)"
    and d': "d' = d\<lparr>validPaths := validPaths d @ [row\<lparr>row_id := i\<rparr>], lastId := i\<rparr>"
    using assms(3) by (auto simp: stmt_RegisterValidPath_def Let_def row_lookup_None split: if_splits)
  have fresh: "i \<notin> ids d" using assms(1) i by (auto simp: db_ok_def ids_def)
  have "ids d' = insert i (ids d)" by (auto simp: ids_def d')
  then show ?thesis using assms(1,2) new fresh i by (auto simp: db_ok_def d' ids_def)
qed

lemma db_ok_cong:
  assumes "map row_path (validPaths d') = map row_path (validPaths d)" and "map row_id (validPaths d') = map row_id (validPaths d)"
    and "refs d' = refs d" and "derivationOutputs d' = derivationOutputs d" and "lastId d' = lastId d"
  shows "db_ok sd d' = db_ok sd d \<and> ids d' = ids d"
proof -
  have rows: "(\<forall>r \<in> set xs. row_id r \<le> n \<and> path_text sd (row_path r)) \<longleftrightarrow>
      (\<forall>i \<in> set (map row_id xs). i \<le> n) \<and> (\<forall>s \<in> set (map row_path xs). path_text sd s)" for xs n by auto
  have i: "ids d' = ids d" using arg_cong [OF assms(2), of set] by (simp add: ids_def)
  show ?thesis unfolding db_ok_def rows i assms by simp
qed

lemma update_ok:
  assumes "db_ok sd d"
  shows "db_ok sd (stmt_UpdatePathInfo n h u s c p d) \<and> ids (stmt_UpdatePathInfo n h u s c p d) = ids d"
  using db_ok_cong [of "stmt_UpdatePathInfo n h u s c p d" d sd] assms by (simp add: stmt_UpdatePathInfo_def comp_def)

lemma addReference_ok:
  assumes "db_ok sd d" and "stmt_AddReference a b d = Inr d'"
  shows "db_ok sd d' \<and> validPaths d' = validPaths d \<and> derivationOutputs d' = derivationOutputs d
   \<and> set (refs d') = insert (a, b) (set (refs d))"
proof -
  have d': "d' = d\<lparr>refs := removeAll (a, b) (refs d) @ [(a, b)]\<rparr>" "a \<in> ids d" "b \<in> ids d"
    using assms(2) by (auto simp: stmt_AddReference_def split: if_splits)
  have "ids d' = ids d" by (simp add: ids_def d'(1))
  then show ?thesis using assms(1) d' by (auto simp: db_ok_def)
qed

lemma addDerivationOutput_ok:
  assumes "db_ok sd d" and "path_text sd s" and "stmt_AddDerivationOutput a out s d = Inr d'"
  shows "db_ok sd d' \<and> validPaths d' = validPaths d \<and> refs d' = refs d"
proof -
  have d': "d' = d\<lparr>derivationOutputs := filter (\<lambda>x. \<not> (fst x = a \<and> fst (snd x) = out)) (derivationOutputs d) @ [(a, out, s)]\<rparr>" "a \<in> ids d"
    using assms(3) by (auto simp: stmt_AddDerivationOutput_def split: if_splits)
  have "ids d' = ids d" by (simp add: ids_def d'(1))
  then show ?thesis using assms(1,2) d' by (auto simp: db_ok_def distinct_map inj_on_def)
qed

lemma not_valid_relations:
  assumes "printStorePath sd p \<notin> row_path ` set (validPaths d)"
  shows "\<not> isValidPath_db sd d p" "\<not> refers sd d p q" "\<not> refers sd d q p" "\<not> produces sd d p q"
  using assms unfolding valid_iff refers_def produces_def by (metis imageI)+

lemma invalidate_facts:
  assumes ok: "db_ok sd d" and "stmt_InvalidatePath (printStorePath sd p) d = Inr d'"
  shows "db_ok sd d' \<and> (\<forall>q. isValidPath_db sd d' q \<longleftrightarrow> isValidPath_db sd d q \<and> q \<noteq> p)
    \<and> (\<forall>a b. refers sd d' a b \<longleftrightarrow> refers sd d a b \<and> a \<noteq> p) \<and> (\<forall>drv q. produces sd d' drv q \<longleftrightarrow> produces sd d drv q \<and> drv \<noteq> p)"
proof (cases "stmt_QueryPathInfo (printStorePath sd p) d")
  case None
  then have "d' = d" "printStorePath sd p \<notin> row_path ` set (validPaths d)"
    using assms(2) None row_lookup_None [of "printStorePath sd p" d] by (simp_all add: stmt_InvalidatePath_def)
  then show ?thesis using ok not_valid_relations [of sd p d] by auto
next
  case (Some row)
  let ?i = "row_id row"
  have row: "row \<in> set (validPaths d)" "row_path row = printStorePath sd p" using Some row_lookup [OF ok] by auto
  have same: "row_id r = ?i \<longleftrightarrow> r = row" "row_path r = printStorePath sd p \<longleftrightarrow> r = row" if "r \<in> set (validPaths d)" for r
    using that row ok by (auto simp: db_ok_def distinct_map inj_on_def)
  have nr: "?i \<notin> snd ` (set (refs d) - {(?i, ?i)})"
    and d': "d' = d\<lparr>validPaths := filter (\<lambda>r. row_id r \<noteq> ?i) (validPaths d), refs := filter (\<lambda>r. fst r \<noteq> ?i) (removeAll (?i, ?i) (refs d)),
        derivationOutputs := filter (\<lambda>x. fst x \<noteq> ?i) (derivationOutputs d)\<rparr>"
    using assms(2) Some by (auto simp: stmt_InvalidatePath_def Let_def split: if_splits)
  have vp: "set (validPaths d') = set (validPaths d) - {row}" using same by (auto simp: d')
  have rf: "set (refs d') = {r \<in> set (refs d). fst r \<noteq> ?i \<and> snd r \<noteq> ?i}" using nr by (force simp: d')
  have outs: "set (derivationOutputs d') = {x \<in> set (derivationOutputs d). fst x \<noteq> ?i}" by (auto simp: d')
  have idd: "ids d' = ids d - {?i}" using same row by (auto simp: ids_def vp)
  have 1: "db_ok sd d'"
    using ok rf idd unfolding db_ok_def by (auto simp: d' distinct_map intro: inj_on_subset)
  have at: "row_path r = printStorePath sd x \<Longrightarrow> r \<in> set (validPaths d) \<Longrightarrow> r = row \<longleftrightarrow> x = p" for r x
    using same [of r] row(2) by auto
  have 2: "isValidPath_db sd d' q \<longleftrightarrow> isValidPath_db sd d q \<and> q \<noteq> p" for q
    unfolding valid_iff vp image_iff using at by (metis DiffE DiffI singletonD singletonI)
  have 3: "produces sd d' drv q \<longleftrightarrow> produces sd d drv q \<and> drv \<noteq> p" for drv q
    unfolding produces_def vp outs using same(1) at by fastforce
  have to: "(row_id r, row_id r') \<in> set (refs d) \<Longrightarrow> row_id r \<noteq> ?i \<Longrightarrow> row_id r' \<noteq> ?i" for r r' using nr by force
  have 4: "refers sd d' a b \<longleftrightarrow> refers sd d a b \<and> a \<noteq> p" for a b
  proof
    show "refers sd d' a b \<Longrightarrow> refers sd d a b \<and> a \<noteq> p" unfolding refers_def vp rf using at by fastforce
    assume "refers sd d a b \<and> a \<noteq> p"
    then obtain r r' where r: "r \<in> set (validPaths d)" "r' \<in> set (validPaths d)" "row_path r = printStorePath sd a" "row_path r' = printStorePath sd b"
      "(row_id r, row_id r') \<in> set (refs d)" "a \<noteq> p" unfolding refers_def by blast
    then have "row_id r \<noteq> ?i" using same(1) at by blast
    with r to have "row_id r' \<noteq> ?i" by blast
    then show "refers sd d' a b" unfolding refers_def vp rf using r \<open>row_id r \<noteq> ?i\<close> by fastforce
  qed
  show ?thesis using 1 2 3 4 by blast
qed

lemmas invalidate_ok = invalidate_facts [THEN conjunct1]
  invalidate_facts [THEN conjunct2, THEN conjunct1, rule_format]
  invalidate_facts [THEN conjunct2, THEN conjunct2, THEN conjunct1, rule_format]
  invalidate_facts [THEN conjunct2, THEN conjunct2, THEN conjunct2, rule_format]

lemma set_omap_emplace_sub: "set (omap_emplace k v m) \<subseteq> insert (k, v) (set m)"
  by (induction k v m rule: omap_emplace.induct) auto

subsection \<open>Operations keep the invariant\<close>

definition env_ok :: "StoreEnv \<Rightarrow> bool" where
  "env_ok E \<longleftrightarrow> canonical (e_storeDir E)
     \<and> (\<forall>p drv. e_readDrv E p = Inr drv \<longrightarrow> (\<forall>i q. (i, InputAddressed q) \<in> set (outputs drv) \<longrightarrow> sp_ok q))"

definition store_ok :: "StoreEnv \<Rightarrow> LocalStore \<Rightarrow> bool" where
  "store_ok E st \<longleftrightarrow> db_ok (e_storeDir E) (db st)"

lemma makeFixedOutputPathFromCA_sp_ok: "makeFixedOutputPathFromCA dg sd name ca = Inr p \<Longrightarrow> sp_ok p"
  by (cases ca) (auto simp: makeFixedOutputPathFromCA_def makeFixedOutputPath_def makeTextPath_def makeStorePathOfHash_def makeStorePath_def bindr_eq_Inr_iff Let_def
      dest: storePathOfHash_sp_ok split: if_splits)

lemma outputsAndPaths_loop_sp_ok:
  "outputsAndPaths_loop dg sd name outs res = Inr r \<Longrightarrow> (\<forall>i q. (i, InputAddressed q) \<in> set outs \<longrightarrow> sp_ok q) \<Longrightarrow>
   (\<forall>x \<in> set res. sp_ok (snd (snd x))) \<Longrightarrow> (\<forall>x \<in> set r. sp_ok (snd (snd x)))"
proof (induction dg sd name outs res rule: outputsAndPaths_loop.induct)
  case (2 dg sd name i out outs res)
  from 2(2) obtain p where p: "output_path dg sd name i out = Inr p"
    "outputsAndPaths_loop dg sd name outs (omap_emplace i (out, p) res) = Inr r" by (auto simp: bindr_eq_Inr_iff)
  have "sp_ok p" using p(1) 2(3) by (cases out) (auto dest: makeFixedOutputPathFromCA_sp_ok)
  then have "\<forall>x \<in> set (omap_emplace i (out, p) res). sp_ok (snd (snd x))"
    using 2(4) set_omap_emplace_sub [of i "(out, p)" res] by auto
  then show ?case using 2(1) [OF p] 2(3) by auto
qed simp

lemma cacheDrvOutputMappings_ok:
  "cacheDrvOutputMappings sd i outs d = Inr d' \<Longrightarrow> db_ok sd d \<Longrightarrow> (\<forall>x \<in> set outs. sp_ok (snd (snd x))) \<Longrightarrow>
   db_ok sd d' \<and> validPaths d' = validPaths d \<and> refs d' = refs d"
proof (induction sd i outs d rule: cacheDrvOutputMappings.induct)
  case (2 sd i out o1 path outs d)
  from 2(2) obtain d1 where d1: "stmt_AddDerivationOutput i out (printStorePath sd path) d = Inr d1"
    "cacheDrvOutputMappings sd i outs d1 = Inr d'" by (auto simp: bindr_eq_Inr_iff)
  have "path_text sd (printStorePath sd path)" using 2(4) by (auto simp: path_text_def)
  from addDerivationOutput_ok [OF 2(3) this d1(1)] show ?case using 2(1) [OF d1] 2(4) by auto
qed simp

lemma checkedDerivation_db: "checkedDerivation E p c st = Some (r, st') \<Longrightarrow> db st' = db st \<and> (\<forall>drv. r = Inr drv \<longrightarrow> e_readDrv E p = Inr drv)"
  by (auto simp: checkedDerivation_def split: sum.splits if_splits option.splits)

lemma addDrvOutputs_ok:
  assumes "env_ok E" and "store_ok E st" and "addDrvOutputs E p i c st = Some (r, st')"
  shows "store_ok E st' \<and> validPaths (db st') = validPaths (db st) \<and> refs (db st') = refs (db st)"
proof (cases "isDerivation p")
  case True
  then obtain r1 st1 where c: "checkedDerivation E p c st = Some (r1, st1)"
    using assms(3) by (auto simp: addDrvOutputs_def split: option.splits)
  note c' = checkedDerivation_db [OF c]
  show ?thesis
  proof (cases "\<exists>drv outs d. r1 = Inr drv \<and> outputsAndPaths (e_digest E) (e_storeDir E) drv = Inr outs
      \<and> cacheDrvOutputMappings (e_storeDir E) i outs (db st1) = Inr d")
    case True
    then obtain drv outs d where d: "r1 = Inr drv" "outputsAndPaths (e_digest E) (e_storeDir E) drv = Inr outs"
      "cacheDrvOutputMappings (e_storeDir E) i outs (db st1) = Inr d" by blast
    have "\<forall>i q. (i, InputAddressed q) \<in> set (outputs drv) \<longrightarrow> sp_ok q" using assms(1) c' d(1) by (auto simp: env_ok_def)
    then have "\<forall>x \<in> set outs. sp_ok (snd (snd x))"
      using outputsAndPaths_loop_sp_ok d(2) unfolding outputsAndPaths_def by fastforce
    from cacheDrvOutputMappings_ok [OF d(3) _ this] show ?thesis
      using assms(2,3) \<open>isDerivation p\<close> c c' d by (auto simp: addDrvOutputs_def store_ok_def)
  next
    case False
    then have "st' = st1" using assms(3) \<open>isDerivation p\<close> c by (auto simp: addDrvOutputs_def bindr_eq_Inr_iff split: sum.splits)
    then show ?thesis using c' assms(2) by (simp add: store_ok_def)
  qed
qed (use assms in \<open>auto simp: addDrvOutputs_def\<close>)

lemma cacheInfo_db [simp]: "db (cacheInfo E p i st) = db st"
  by (simp add: cacheInfo_def)

lemma addValidPath_ok:
  assumes "env_ok E" and "store_ok E st" and "sp_ok (pi_path info)" and "addValidPath E info c st = Some (r, st')"
  shows "store_ok E st'"
proof -
  have t: "path_text (e_storeDir E) (row_path (infoRow (e_storeDir E) (now E) info))"
    using assms(3) by (auto simp: infoRow_def path_text_def)
  consider "st' = st" | i d st1 where "stmt_RegisterValidPath (infoRow (e_storeDir E) (now E) info) (db st) = Inr (i, d)"
    "\<exists>r1. addDrvOutputs E (pi_path info) i c (st\<lparr>db := d\<rparr>) = Some (r1, st1)" "db st' = db st1"
    using assms(4) by (auto simp: addValidPath_def split: sum.splits if_splits option.splits)
  then show ?thesis
  proof cases
    case (2 i d st1)
    have "store_ok E (st\<lparr>db := d\<rparr>)" using register_ok [OF _ t 2(1)] assms(2) by (simp add: store_ok_def)
    then have "store_ok E st1" using addDrvOutputs_ok [OF assms(1)] 2(2) by blast
    then show ?thesis using 2(3) by (simp add: store_ok_def)
  qed (use assms in simp)
qed

lemma addInfos_ok:
  "addInfos E infos st = Some (r, st') \<Longrightarrow> env_ok E \<Longrightarrow> store_ok E st \<Longrightarrow> \<forall>i \<in> set infos. sp_ok (pi_path i) \<Longrightarrow> store_ok E st'"
proof (induction E infos st rule: addInfos.induct)
  case (2 E i infos st)
  show ?case
  proof (cases "hash_type (narHash i) \<noteq> SHA256 \<or> isValidPath_db (e_storeDir E) (db st) (pi_path i)")
    case True
    have "store_ok E (updatePathInfo E i st)" using 2(5) update_ok by (simp add: store_ok_def updatePathInfo_def)
    then show ?thesis using True 2 by (auto split: if_splits)
  next
    case False
    then obtain r1 st1 where r1: "addValidPath E i False st = Some (r1, st1)" using 2(3) by (auto split: option.splits)
    have "store_ok E st1" using addValidPath_ok [OF 2(4,5) _ r1] 2(6) by simp
    then show ?thesis using False r1 2 by (auto split: sum.splits)
  qed
qed simp

lemma addReferences_ok:
  "addReferences sd i js d = Inr d' \<Longrightarrow> db_ok sd d \<Longrightarrow>
   db_ok sd d' \<and> validPaths d' = validPaths d \<and> derivationOutputs d' = derivationOutputs d
   \<and> set (refs d') = set (refs d) \<union> {(i, row_id r') |r'. \<exists>j \<in> set js. stmt_QueryPathInfo (printStorePath sd j) d = Some r'}"
proof (induction sd i js d rule: addReferences.induct)
  case (2 sd i j js d)
  from 2(2) obtain r d1 where r: "stmt_QueryPathInfo (printStorePath sd j) d = Some r"
    "stmt_AddReference i (row_id r) d = Inr d1" "addReferences sd i js d1 = Inr d'"
    by (auto simp: bindr_eq_Inr_iff queryValidPathId_def split: option.splits)
  note a = addReference_ok [OF 2(3) r(2)]
  have q: "queryValidPathId sd d j = Inr (row_id r)" using r(1) by (simp add: queryValidPathId_def)
  have "stmt_QueryPathInfo s d1 = stmt_QueryPathInfo s d" for s using a by (simp add: stmt_QueryPathInfo_def)
  then show ?case using 2(1) [OF q r(2) r(3)] a r(1) by auto
qed auto

lemma addInfosReferences_ok:
  "addInfosReferences sd infos d = Inr d' \<Longrightarrow> db_ok sd d \<Longrightarrow> db_ok sd d' \<and> validPaths d' = validPaths d"
proof (induction sd infos d rule: addInfosReferences.induct)
  case (2 sd i infos d)
  from 2(2) obtain k d1 where k: "queryValidPathId sd d (pi_path i) = Inr k" "addReferences sd k (references i) d = Inr d1"
    "addInfosReferences sd infos d1 = Inr d'" by (auto simp: bindr_eq_Inr_iff)
  show ?case using 2(1) [OF k] addReferences_ok [OF k(2) 2(3)] by auto
qed simp

lemma checkDerivations_db: "checkDerivations E infos st = Some (r, st') \<Longrightarrow> db st' = db st"
  by (induction E infos st rule: checkDerivations.induct)
    (auto split: if_splits option.splits sum.splits dest: checkedDerivation_db)

lemma registerValidPaths_steps:
  assumes "registerValidPaths E infos st = Some (Inr u, st')"
  obtains st1 d r2 where "addInfos E (map snd infos) st = Some (Inr (), st1)"
    "addInfosReferences (e_storeDir E) (map snd infos) (db st1) = Inr d"
    "checkDerivations E (map snd infos) (st1\<lparr>db := d\<rparr>) = Some (r2, st')"
proof -
  have "registerInTransaction E infos st = Some (Inr u, st')"
    using assms by (auto simp: registerValidPaths_def split: option.splits sum.splits)
  then show thesis using that by (auto simp: registerInTransaction_def Let_def split: option.splits sum.splits)
qed

lemma registerValidPaths_ok:
  assumes "registerValidPaths E infos st = Some (r, st')" and "env_ok E" and "store_ok E st" and "\<forall>i \<in> set (map snd infos). sp_ok (pi_path i)"
  shows "store_ok E st'"
proof (cases r)
  case (Inl e)
  then show ?thesis using assms(1,3) by (auto simp: registerValidPaths_def store_ok_def split: option.splits sum.splits)
next
  case (Inr u)
  then obtain st1 d r2 where s: "addInfos E (map snd infos) st = Some (Inr (), st1)"
    "addInfosReferences (e_storeDir E) (map snd infos) (db st1) = Inr d"
    "checkDerivations E (map snd infos) (st1\<lparr>db := d\<rparr>) = Some (r2, st')"
    using assms(1) registerValidPaths_steps by blast
  have "store_ok E st1" by (rule addInfos_ok [OF s(1) assms(2-4)])
  then have "db_ok (e_storeDir E) d" using addInfosReferences_ok [OF s(2)] by (simp add: store_ok_def)
  then show ?thesis using checkDerivations_db s(3) by (auto simp: store_ok_def)
qed

lemma store_canonical: "env_ok E \<Longrightarrow> canonical (e_storeDir E)"
  by (simp add: env_ok_def)

lemma refers_valid: "refers sd d p q \<Longrightarrow> isValidPath_db sd d p \<and> isValidPath_db sd d q"
  unfolding refers_def valid_iff by (metis imageI)

lemma delete_unreferenced:
  assumes ok: "db_ok sd d" and free: "\<forall>q. refers sd d q p \<longrightarrow> q = p"
  shows "\<exists>d'. stmt_InvalidatePath (printStorePath sd p) d = Inr d'"
proof (cases "stmt_QueryPathInfo (printStorePath sd p) d")
  case (Some row)
  have row: "row \<in> set (validPaths d)" "row_path row = printStorePath sd p" using Some row_lookup [OF ok] by auto
  have "a = row_id row" if ref: "(a, row_id row) \<in> set (refs d)" for a
  proof -
    have "a \<in> ids d" using ok ref by (auto simp: db_ok_def)
    then obtain r where r: "r \<in> set (validPaths d)" "a = row_id r" by (auto simp: ids_def)
    then obtain q where q: "row_path r = printStorePath sd q" using ok by (auto simp: db_ok_def path_text_def)
    then have "refers sd d q p" unfolding refers_def using r row ref by blast
    then have "row_path r = row_path row" using free q row(2) by auto
    then have "r = row" using ok r(1) row(1) by (auto simp: db_ok_def distinct_map inj_on_def)
    then show ?thesis using r(2) by simp
  qed
  then have "row_id row \<notin> snd ` (set (refs d) - {(row_id row, row_id row)})" by force
  then show ?thesis using Some by (simp add: stmt_InvalidatePath_def Let_def)
qed (simp add: stmt_InvalidatePath_def)

lemma invalidatePathChecked_in_use:
  assumes "env_ok E" and "store_ok E st" and "refers (e_storeDir E) (db st) q p" and "q \<noteq> p"
  shows "invalidatePathChecked E p st = (Inl (PathInUse ''cannot delete path because it is in use''), st)"
proof -
  obtain ps where ps: "queryReferrers_db (e_storeDir E) (db st) p = Inr ps" "set ps = {q. refers (e_storeDir E) (db st) q p}"
    using queryReferrers_ok [of "e_storeDir E" "db st" p] assms(1,2) by (auto simp: store_ok_def env_ok_def)
  have "q \<in> set (removeAll p ps)" using ps(2) assms(3,4) by simp
  then have "removeAll p ps \<noteq> []" by (metis empty_iff list.set(1))
  then show ?thesis using ps(1) refers_valid [OF assms(3)] by (simp add: invalidatePathChecked_def)
qed

lemma invalidatePathChecked_free:
  assumes "env_ok E" and "store_ok E st" and free: "\<forall>q. refers (e_storeDir E) (db st) q p \<longrightarrow> q = p"
  shows "\<exists>st'. invalidatePathChecked E p st = (Inr (), st') \<and> store_ok E st'
    \<and> (\<forall>q. isValidPath_db (e_storeDir E) (db st') q \<longleftrightarrow> isValidPath_db (e_storeDir E) (db st) q \<and> q \<noteq> p)
    \<and> (\<forall>a b. refers (e_storeDir E) (db st') a b \<longleftrightarrow> refers (e_storeDir E) (db st) a b \<and> a \<noteq> p)
    \<and> (\<forall>a b. produces (e_storeDir E) (db st') a b \<longleftrightarrow> produces (e_storeDir E) (db st) a b \<and> a \<noteq> p)"
proof (cases "isValidPath_db (e_storeDir E) (db st) p")
  case True
  have ok: "db_ok (e_storeDir E) (db st)" using assms(2) by (simp add: store_ok_def)
  obtain ps where ps: "queryReferrers_db (e_storeDir E) (db st) p = Inr ps" "set ps = {q. refers (e_storeDir E) (db st) q p}"
    using queryReferrers_ok [OF ok, of p] assms(1) by (auto simp: env_ok_def)
  have "set (removeAll p ps) = {}" using ps(2) free by auto
  then have empty: "removeAll p ps = []" by (simp only: set_empty)
  obtain d' where d': "stmt_InvalidatePath (printStorePath (e_storeDir E) p) (db st) = Inr d'"
    using delete_unreferenced [OF ok free] by blast
  show ?thesis
    using True ps(1) empty d' invalidate_facts [OF ok d'] by (simp add: invalidatePathChecked_def invalidatePath_def store_ok_def)
next
  case False
  then have "printStorePath (e_storeDir E) p \<notin> row_path ` set (validPaths (db st))" by (simp add: valid_iff)
  from not_valid_relations [OF this] show ?thesis
    using False assms(2) by (auto simp: invalidatePathChecked_def)
qed

section \<open>Properties\<close>

text \<open>C25: Whatever is registered or invalidated, the database of the store keeps its invariant (unique paths, every
  reference to a valid path); registering fails without any change to the database; and in every such state the queries
  answer what the tables say: the references of a valid path are valid, and the referrers of a path are the valid paths that
  refer to it.\<close>

theorem local_db_invariant:
  assumes "env_ok E" and "store_ok E st" and "\<forall>i \<in> set (map snd infos). sp_ok (pi_path i)"
  shows "(\<forall>r st'. registerValidPaths E infos st = Some (r, st') \<longrightarrow> store_ok E st' \<and> (isl r \<longrightarrow> db st' = db st))
    \<and> store_ok E (snd (invalidatePathChecked E p st))
    \<and> (\<forall>a b. refers (e_storeDir E) (db st) a b \<longrightarrow>
         isValidPath_db (e_storeDir E) (db st) a \<and> isValidPath_db (e_storeDir E) (db st) b)
    \<and> (\<exists>ps. queryReferrers_db (e_storeDir E) (db st) p = Inr ps \<and> set ps = {q. refers (e_storeDir E) (db st) q p})"
proof -
  have 1: "store_ok E st' \<and> (isl r \<longrightarrow> db st' = db st)" if "registerValidPaths E infos st = Some (r, st')" for r st'
    using registerValidPaths_ok [OF that assms] that
    by (auto simp: registerValidPaths_def split: option.splits sum.splits)
  have 2: "store_ok E (snd (invalidatePathChecked E p st))"
    using invalidatePathChecked_in_use [OF assms(1,2), of _ p] invalidatePathChecked_free [OF assms(1,2), of p] assms(2)
    by (cases "\<forall>q. refers (e_storeDir E) (db st) q p \<longrightarrow> q = p") auto
  have 3: "\<exists>ps. queryReferrers_db (e_storeDir E) (db st) p = Inr ps \<and> set ps = {q. refers (e_storeDir E) (db st) q p}"
    using queryReferrers_ok [of "e_storeDir E" "db st" p] assms(1,2) by (auto simp: store_ok_def env_ok_def)
  show ?thesis using 1 2 3 refers_valid by blast
qed

definition empty_store :: LocalStore where
  "empty_store = \<lparr>db = \<lparr>validPaths = [], refs = [], derivationOutputs = [], lastId = 0\<rparr>, pathInfoCache = newLRUCache 10, drvHashes = []\<rparr>"

definition example_env :: StoreEnv where
  "example_env = \<lparr>e_storeDir = ''/nix/store'', e_digest = zero_digest, e_readDrv = (\<lambda>_. Inl (Error ''no such file'')), maxDepth = 5,
     now = 1000, steadyClock = 7, ttlPositive = 10, ttlNegative = 1\<rparr>"

lemma example_env_ok: "env_ok example_env"
proof -
  have "canonical ''/nix/store''" by code_simp
  then show ?thesis by (simp add: env_ok_def example_env_def)
qed

lemma empty_store_ok: "store_ok E empty_store"
  by (simp add: store_ok_def empty_store_def db_ok_def ids_def)

definition registered_info :: ValidPathInfo where
  "registered_info = \<lparr>deriver = Some other_path, narHash = zeroHash 32 SHA256, references = [example_path], registrationTime = 0,
     narSize = 7, ultimate = True, sigs = [''a:b'', ''c:d''], pi_ca = None, pi_path = example_path\<rparr>"

theorem local_db_invariant_witness:
  "\<exists>r st'. registerValidPaths example_env [(example_path, registered_info)] empty_store = Some (r, st') \<and> store_ok example_env st'"
proof -
  have "registerValidPaths example_env [(example_path, registered_info)] empty_store \<noteq> None" by code_simp
  moreover have "sp_ok (pi_path registered_info)" by code_simp
  ultimately show ?thesis
    using local_db_invariant [OF example_env_ok empty_store_ok, of "[(example_path, registered_info)]"] by fastforce
qed

text \<open>C27: A path is invalidated exactly if no other valid path refers to it: otherwise the answer is the error that it is in use
  and nothing changes; and the deletion of an unreferenced path succeeds, removes this path only and leaves no dangling
  reference.\<close>

theorem invalidate_checked_exact:
  assumes "env_ok E" and "store_ok E st"
  shows "if \<exists>q. refers (e_storeDir E) (db st) q p \<and> q \<noteq> p
    then invalidatePathChecked E p st = (Inl (PathInUse ''cannot delete path because it is in use''), st)
    else \<exists>st'. invalidatePathChecked E p st = (Inr (), st') \<and> store_ok E st'
      \<and> (\<forall>q. isValidPath_db (e_storeDir E) (db st') q \<longleftrightarrow> isValidPath_db (e_storeDir E) (db st) q \<and> q \<noteq> p)
      \<and> (\<forall>a b. refers (e_storeDir E) (db st') a b \<longleftrightarrow> refers (e_storeDir E) (db st) a b \<and> a \<noteq> p)"
  using invalidatePathChecked_in_use [OF assms, of _ p] invalidatePathChecked_free [OF assms, of p] by auto

theorem invalidate_checked_exact_witness:
  "\<exists>st'. invalidatePathChecked example_env example_path empty_store = (Inr (), st')"
proof -
  have "\<not> refers (e_storeDir example_env) (db empty_store) q example_path" for q by (simp add: refers_def empty_store_def)
  then show ?thesis using invalidate_checked_exact [OF example_env_ok empty_store_ok, of example_path] by auto
qed

text \<open>The columns of a row read back.\<close>

definition info_db_ok :: "ValidPathInfo \<Rightarrow> bool" where
  "info_db_ok info \<longleftrightarrow>
     sp_ok (pi_path info) \<and> hash_ok (narHash info) \<and> (\<forall>d. deriver info = Some d \<longrightarrow> sp_ok d) \<and> narSize info < 2 ^ 64
     \<and> oset_ok (sigs info) \<and> (\<forall>s \<in> set (sigs info). s \<noteq> [] \<and> CHR '' '' \<notin> set s)
     \<and> (\<forall>c. pi_ca info = Some c \<longrightarrow> hash_ok (ca_hash c)) \<and> oset_ok (references info)"

lemma readSize_bindSize: "n < 2 ^ 64 \<Longrightarrow> readSize (nullable (n \<noteq> 0) (bindSize n)) = n"
  by (auto simp: readSize_def nullable_def bindSize_def unat_of_nat)

lemma sigs_back:
  assumes "oset_ok ss" and "\<forall>s \<in> set ss. s \<noteq> [] \<and> CHR '' '' \<notin> set s"
  shows "(case nullable (ss \<noteq> []) (concatStringsSep '' '' ss) of None \<Rightarrow> [] | Some s \<Rightarrow> tokenizeStringSet s '' '') = ss"
  using tokenizeString_join [OF assms(2)] oset_of_sorted [OF assms(1)] by (simp add: nullable_def tokenizeStringSet_def)

lemma ca_column_back:
  assumes "\<forall>c. o1 = Some c \<longrightarrow> hash_ok (ca_hash c)"
  shows "(case nullable (o1 \<noteq> None) (renderContentAddress o1) of None \<Rightarrow> Inr None | Some c \<Rightarrow> ca_parseOpt c) = Inr o1"
proof (cases o1)
  case (Some c)
  have "ca_render c \<noteq> []" by (cases "ca_method c") (auto simp: ca_render_cam)
  then show ?thesis using Some assms ca_parse_render by (simp add: nullable_def ca_parseOpt_def renderContentAddress_def)
qed (simp add: nullable_def)

lemma row_back:
  assumes sd: "canonical sd" and ok: "info_db_ok info"
    and row: "stmt_QueryPathInfo (printStorePath sd (pi_path info)) d = Some ((infoRow sd t info)\<lparr>row_id := i\<rparr>)"
    and rs: "parsePaths sd (stmt_QueryReferences i d) = Inr (references info)"
  shows "queryPathInfoInternal sd d (pi_path info)
    = Inr (Some (info\<lparr>registrationTime := (if registrationTime info = 0 then t else registrationTime info)\<rparr>))"
proof -
  have h: "parseNarHash (to_base16 (narHash info)) = Inr (narHash info)"
    using ok parseAnyPrefixed_base16 by (simp add: parseNarHash_def info_db_ok_def)
  have der: "(case map_option (printStorePath sd) (deriver info) of
      None \<Rightarrow> Inr None | Some d \<Rightarrow> bindr (parseStorePath sd d) (\<lambda>p. Inr (Some p))) = Inr (deriver info)"
    using ok parse_sp_ok [OF sd] by (auto simp: info_db_ok_def split: option.splits)
  have cols: "readSize (nullable (narSize info \<noteq> 0) (bindSize (narSize info))) = narSize info"
    "(case nullable (sigs info \<noteq> []) (concatStringsSep '' '' (sigs info)) of None \<Rightarrow> [] | Some s \<Rightarrow> tokenizeStringSet s '' '') = sigs info"
    "(case nullable (pi_ca info \<noteq> None) (renderContentAddress (pi_ca info)) of None \<Rightarrow> Inr None | Some c \<Rightarrow> ca_parseOpt c) = Inr (pi_ca info)"
    using ok unfolding info_db_ok_def by (blast intro: readSize_bindSize sigs_back ca_column_back)+
  have u: "(nullable (ultimate info) (1::int) = Some 1) = ultimate info" by (simp add: nullable_def)
  show ?thesis unfolding queryPathInfoInternal_def row option.case
    by (simp only: infoRow_def ValidPathsRow.simps h der cols u rs bindr_simps) (cases info, simp)
qed

lemma refers_lookup:
  assumes "db_ok sd d"
  shows "refers sd d p q \<longleftrightarrow> (\<exists>r r'. stmt_QueryPathInfo (printStorePath sd p) d = Some r
    \<and> stmt_QueryPathInfo (printStorePath sd q) d = Some r' \<and> (row_id r, row_id r') \<in> set (refs d))"
  unfolding refers_def row_lookup [OF assms] by blast

lemma addReferences_found:
  "addReferences sd i js d = Inr d' \<Longrightarrow> db_ok sd d \<Longrightarrow> j \<in> set js \<Longrightarrow> stmt_QueryPathInfo (printStorePath sd j) d \<noteq> None"
proof (induction sd i js d rule: addReferences.induct)
  case (2 sd i j' js d)
  from 2(2) obtain b d1 where d1: "queryValidPathId sd d j' = Inr b" "stmt_AddReference i b d = Inr d1" "addReferences sd i js d1 = Inr d'"
    by (auto simp: bindr_eq_Inr_iff)
  have v: "db_ok sd d1" "validPaths d1 = validPaths d" using addReference_ok [OF 2(3) d1(2)] by auto
  show ?case using 2(1) [OF d1 v(1)] 2(4) d1(1) v(2) by (auto simp: stmt_QueryPathInfo_def queryValidPathId_def split: option.splits)
qed simp

lemma addReferences_refers:
  assumes ok: "db_ok sd d" and row: "stmt_QueryPathInfo (printStorePath sd p) d = Some row" and fresh: "row_id row \<notin> fst ` set (refs d)"
    and add: "addReferences sd (row_id row) js d = Inr d'"
  shows "refers sd d' p q \<longleftrightarrow> q \<in> set js"
proof -
  note ar = addReferences_ok [OF add ok]
  have look: "stmt_QueryPathInfo s d' = stmt_QueryPathInfo s d" for s using ar by (simp add: stmt_QueryPathInfo_def)
  have same: "x = y" if "stmt_QueryPathInfo (printStorePath sd x) d = Some r" "stmt_QueryPathInfo (printStorePath sd y) d = Some r'"
    "row_id r = row_id r'" for x y r r'
  proof -
    have r: "r \<in> set (validPaths d)" "r' \<in> set (validPaths d)" "row_path r = printStorePath sd x" "row_path r' = printStorePath sd y"
      using that row_lookup [OF ok] by auto
    then have "r = r'" using ok that(3) by (auto simp: db_ok_def distinct_map inj_on_def)
    then show ?thesis using r by auto
  qed
  have "refers sd d' p q \<longleftrightarrow> (\<exists>r'. stmt_QueryPathInfo (printStorePath sd q) d = Some r' \<and> (row_id row, row_id r') \<in> set (refs d'))"
    using refers_lookup [of sd d'] ar row look by simp
  also have "\<dots> \<longleftrightarrow> q \<in> set js"
  proof
    assume "\<exists>r'. stmt_QueryPathInfo (printStorePath sd q) d = Some r' \<and> (row_id row, row_id r') \<in> set (refs d')"
    then obtain r' where r': "stmt_QueryPathInfo (printStorePath sd q) d = Some r'" "(row_id row, row_id r') \<in> set (refs d')" by blast
    have "(row_id row, row_id r') \<notin> set (refs d)" using fresh by force
    then obtain j rj where "j \<in> set js" "stmt_QueryPathInfo (printStorePath sd j) d = Some rj" "row_id rj = row_id r'" using ar r'(2) by auto
    then show "q \<in> set js" using same [OF _ r'(1)] by blast
  next
    assume q: "q \<in> set js"
    then obtain r' where "stmt_QueryPathInfo (printStorePath sd q) d = Some r'" using addReferences_found [OF add ok] by blast
    then show "\<exists>r'. stmt_QueryPathInfo (printStorePath sd q) d = Some r' \<and> (row_id row, row_id r') \<in> set (refs d')" using ar q by auto
  qed
  finally show ?thesis .
qed

lemma addValidPath_new:
  assumes E: "env_ok E" and st: "store_ok E st" and "sp_ok (pi_path info)" and add: "addValidPath E info c st = Some (Inr k, st1)"
  shows "\<exists>i. stmt_QueryPathInfo (printStorePath (e_storeDir E) (pi_path info)) (db st1) = Some ((infoRow (e_storeDir E) (now E) info)\<lparr>row_id := i\<rparr>)
    \<and> i \<notin> fst ` set (refs (db st1))"
proof -
  let ?sd = "e_storeDir E" and ?row = "infoRow (e_storeDir E) (now E) info"
  obtain i d st2 r where a: "stmt_RegisterValidPath ?row (db st) = Inr (i, d)"
    "addDrvOutputs E (pi_path info) i c (st\<lparr>db := d\<rparr>) = Some (r, st2)" "db st1 = db st2"
    using add by (auto simp: addValidPath_def split: if_splits option.splits sum.splits)
  have path: "row_path ?row = printStorePath ?sd (pi_path info)" by (simp add: infoRow_def)
  have "path_text ?sd (row_path ?row)" using assms(3) path by (auto simp: path_text_def)
  from register_ok [OF _ this a(1)] st have d: "db_ok ?sd d" "validPaths d = validPaths (db st) @ [?row\<lparr>row_id := i\<rparr>]"
    "refs d = refs (db st)" "i \<notin> ids (db st)" by (auto simp: store_ok_def)
  have st2: "db_ok ?sd (db st2)" "validPaths (db st2) = validPaths d" "refs (db st2) = refs d"
    using addDrvOutputs_ok [OF E _ a(2)] d(1) by (auto simp: store_ok_def)
  have "stmt_QueryPathInfo (printStorePath ?sd (pi_path info)) (db st2) = Some (?row\<lparr>row_id := i\<rparr>)"
    using row_lookup [OF st2(1)] d(2) st2(2) path by simp
  moreover have "i \<notin> fst ` set (refs (db st2))" using st2(3) d(3,4) st by (auto simp: store_ok_def db_ok_def)
  ultimately show ?thesis using a(3) by auto
qed

lemma register_one:
  assumes E: "env_ok E" and st: "store_ok E st" and ok: "info_db_ok info"
    and new: "\<not> isValidPath_db (e_storeDir E) (db st) (pi_path info)"
    and reg: "registerValidPath E info st = Some (Inr u, st')"
  shows "\<exists>i. stmt_QueryPathInfo (printStorePath (e_storeDir E) (pi_path info)) (db st')
      = Some ((infoRow (e_storeDir E) (now E) info)\<lparr>row_id := i\<rparr>)
    \<and> (\<forall>q. refers (e_storeDir E) (db st') (pi_path info) q \<longleftrightarrow> q \<in> set (references info))"
proof -
  let ?sd = "e_storeDir E"
  obtain st1 d r2 where s: "addInfos E [info] st = Some (Inr (), st1)" "addInfosReferences ?sd [info] (db st1) = Inr d"
    "checkDerivations E [info] (st1\<lparr>db := d\<rparr>) = Some (r2, st')"
    using registerValidPaths_steps [OF reg [unfolded registerValidPath_def]] by (simp only: list.map snd_conv) blast
  have d: "db st' = d" using checkDerivations_db [OF s(3)] by simp
  have p: "sp_ok (pi_path info)" using ok by (simp add: info_db_ok_def)
  from s(1) new obtain k where k: "addValidPath E info False st = Some (Inr k, st1)"
    by (auto split: if_splits option.splits sum.splits)
  obtain i where i: "stmt_QueryPathInfo (printStorePath ?sd (pi_path info)) (db st1) = Some ((infoRow ?sd (now E) info)\<lparr>row_id := i\<rparr>)"
    "i \<notin> fst ` set (refs (db st1))" using addValidPath_new [OF E st p k] by blast
  have st1: "db_ok ?sd (db st1)" using addValidPath_ok [OF E st p k] by (simp add: store_ok_def)
  have add: "addReferences ?sd i (references info) (db st1) = Inr d"
    using s(2) i(1) by (auto simp: queryValidPathId_def bindr_eq_Inr_iff)
  have "refers ?sd d (pi_path info) q \<longleftrightarrow> q \<in> set (references info)" for q
    using addReferences_refers [OF st1 i(1)] i(2) add by simp
  moreover have "validPaths d = validPaths (db st1)" using addReferences_ok [OF add st1] by simp
  ultimately show ?thesis using i(1) d by (auto simp: stmt_QueryPathInfo_def)
qed

text \<open>C26: What is registered is what is queried: after a path that was not valid has been registered, the query of its path info
  returns the info it was registered with, references, deriver, signatures and content address included, with the time of
  registration filled in.\<close>

theorem register_query_roundtrip:
  assumes "env_ok E" and "store_ok E st" and "info_db_ok info"
    and "\<not> isValidPath_db (e_storeDir E) (db st) (pi_path info)" and "registerValidPath E info st = Some (Inr u, st')"
  shows "queryPathInfoInternal (e_storeDir E) (db st') (pi_path info)
    = Inr (Some (info\<lparr>registrationTime := (if registrationTime info = 0 then now E else registrationTime info)\<rparr>))"
proof -
  obtain i where i: "stmt_QueryPathInfo (printStorePath (e_storeDir E) (pi_path info)) (db st') = Some ((infoRow (e_storeDir E) (now E) info)\<lparr>row_id := i\<rparr>)"
    "\<forall>q. refers (e_storeDir E) (db st') (pi_path info) q \<longleftrightarrow> q \<in> set (references info)"
    using register_one [OF assms] by blast
  have "store_ok E st'"
    using registerValidPaths_ok [OF _ assms(1,2)] assms(3,5) by (auto simp: registerValidPath_def info_db_ok_def)
  then obtain ps where ps: "parsePaths (e_storeDir E) (stmt_QueryReferences i (db st')) = Inr ps" "oset_ok ps"
    "set ps = {q. refers (e_storeDir E) (db st') (pi_path info) q}"
    using queryReferences_ok [OF _ store_canonical [OF assms(1)] i(1)] by (auto simp: store_ok_def)
  have "ps = references info" using ps i(2) assms(3) by (intro oset_eq_iff) (auto simp: info_db_ok_def)
  then show ?thesis using row_back [OF store_canonical [OF assms(1)] assms(3) i(1)] ps(1) by simp
qed

theorem register_query_roundtrip_witness:
  "\<exists>st'. registerValidPath example_env registered_info empty_store = Some (Inr (), st')
    \<and> queryPathInfoInternal ''/nix/store'' (db st') example_path = Inr (Some (registered_info\<lparr>registrationTime := 1000\<rparr>))"
proof -
  have "registerValidPath example_env registered_info empty_store \<noteq> None"
    "\<not> isl (fst (the (registerValidPath example_env registered_info empty_store)))" by code_simp+
  then obtain u st' where r: "registerValidPath example_env registered_info empty_store = Some (Inr u, st')"
    by (metis option.exhaust_sel prod.collapse sum.collapse(2))
  have "sp_ok example_path" "sp_ok other_path" "hash_ok (zeroHash 32 SHA256)" "oset_ok [''a:b'', ''c:d'']" by code_simp+
  then have ok: "info_db_ok registered_info" by (simp add: info_db_ok_def registered_info_def)
  have new: "\<not> isValidPath_db (e_storeDir example_env) (db empty_store) (pi_path registered_info)"
    by (simp add: isValidPath_db_def stmt_QueryPathInfo_def empty_store_def)
  have "e_storeDir example_env = ''/nix/store''" "pi_path registered_info = example_path" "registrationTime registered_info = 0" "now example_env = 1000"
    by (simp_all add: example_env_def registered_info_def)
  then show ?thesis using register_query_roundtrip [OF example_env_ok empty_store_ok ok new r] r by auto
qed

text \<open>
  The path info cache is filled before the transaction is committed. If the registration then fails, the database is rolled
  back, but the cache still says that the path is valid, until the entry expires.
\<close>

lemma rollback_leaves_cache:
  "case registerValidPath example_env (registered_info\<lparr>references := [other_path]\<rparr>) empty_store of
     Some (Inl (InvalidPath _), st') \<Rightarrow>
       validPaths (db st') = [] \<and> fst (isValidPath_cached example_env example_path st') = True
       \<and> isValidPath_db ''/nix/store'' (db st') example_path = False
   | _ \<Rightarrow> False"
  by code_simp

end
