(* ===== verification/Lix_Gc.thy ===== *)
theory Lix_Gc
  imports Lix_Local_Store
begin

text \<open>
  The garbage collector, \<^verbatim>\<open>LocalStore::collectGarbage\<close> in \<^verbatim>\<open>libstore/gc.cc\<close>, over the database of the local store. The
  roots found in the file system and in temporary root files, the entries of the store directory, the sizes of the files
  and the locks on temporary directories are parameters. Queries go to the database; the path info cache in front of it is
  modelled with the local store. The search through referrers is a partial function that returns on every database
  (\<open>gc_visit_total\<close>). A run may end in an exception, and then the state at that point is the result.
\<close>

section \<open>Data\<close>

datatype GCAction = gcReturnLive | gcReturnDead | gcDeleteDead | gcDeleteSpecific | gcTryDeleteSpecific

record GCOptions =
  gc_action :: GCAction
  ignoreLiveness :: bool
  pathsToDelete :: "StorePath oset"
  maxFreed :: "64 word"

record GCResults =
  res_paths :: "string oset"
  res_kept :: "string oset"
  bytesFreed :: "64 word"

text \<open>What stays fixed during a run.\<close>

record GCRun =
  run_env :: StoreEnv
  roots :: "StorePath oset"
  keepOutputs :: bool
  keepDerivations :: bool
  shouldDelete :: bool
  limit :: "64 word"
  sizeOf :: "string \<Rightarrow> 64 word"
  lockedTmp :: "string \<Rightarrow> bool"

record GCState =
  gc_store :: LocalStore
  files :: "string oset"
  alive :: "StorePath oset"
  dead :: "StorePath oset"
  referrersCache :: "(StorePath, StorePath oset) omap"
  tempRoots :: "string oset"
  pending :: "string option"
  results :: GCResults

datatype gc_exception = GCError error | GCLimitReached

type_synonym 'a gc = "((gc_exception + 'a) \<times> GCState) option"

definition gc_db :: "GCState \<Rightarrow> DB" where
  "gc_db g = db (gc_store g)"

definition run_dir :: "GCRun \<Rightarrow> string" where
  "run_dir R = e_storeDir (run_env R)"

definition db_queries :: "string \<Rightarrow> DB \<Rightarrow> StoreQueries" where
  "db_queries sd d =
     \<lparr>queryPathInfo = (\<lambda>p. bindr (queryPathInfoInternal sd d p)
         (\<lambda>r. case r of None \<Rightarrow> Inl (InvalidPath ''path does not exist in the store'') | Some info \<Rightarrow> Inr info)),
      queryReferrers = queryReferrers_db sd d,
      queryValidDerivers = queryValidDerivers_db sd d,
      queryDerivationOutputMap = queryStaticDerivationOutputMap_db sd d,
      isValidPath = (\<lambda>p. Inr (isValidPath_db sd d p))\<rparr>"

section \<open>Deleting a path\<close>

definition deleteFromStore :: "GCRun \<Rightarrow> string \<Rightarrow> GCState \<Rightarrow> (gc_exception + unit) \<times> GCState" where
  "deleteFromStore R name g =
     (if prefix ''tmp-'' name \<and> lockedTmp R name then (Inr (), g)
      else
        let freed = bytesFreed (results g) + sizeOf R name;
            g' = g\<lparr>files := removeAll name (files g),
                   results := (results g)\<lparr>res_paths := oset_insert (run_dir R @ ''/'' @ name) (res_paths (results g)), bytesFreed := freed\<rparr>\<rparr>
        in (if freed > limit R then Inl GCLimitReached else Inr (), g'))"

section \<open>Searching the referrers\<close>

definition enqueue :: "StorePath \<Rightarrow> StorePath oset \<times> StorePath list \<Rightarrow> StorePath oset \<times> StorePath list" where
  "enqueue path q = (if path \<in> set (fst q) then q else (oset_insert path (fst q), snd q @ [path]))"

definition markAlive :: "GCRun \<Rightarrow> StorePath \<Rightarrow> StorePath \<Rightarrow> GCState \<Rightarrow> unit gc" where
  "markAlive R start path g =
     (let g' = g\<lparr>alive := oset_insert start (oset_insert path (alive g))\<rparr>
      in case computeFSClosure1 (db_queries (run_dir R) (gc_db g)) path [] False (keepOutputs R) (keepDerivations R) of
           None \<Rightarrow> None
         | Some (Inr closure) \<Rightarrow> Some (Inr (), g'\<lparr>alive := oset_merge (alive g') closure\<rparr>)
         | Some (Inl (InvalidPath _)) \<Rightarrow> Some (Inr (), g')
         | Some (Inl e) \<Rightarrow> Some (Inl (GCError e), g'))"

definition cachedReferrers :: "GCRun \<Rightarrow> StorePath \<Rightarrow> GCState \<Rightarrow> StorePath oset result \<times> GCState" where
  "cachedReferrers R path g =
     (case map_of (referrersCache g) path of
        Some rs \<Rightarrow> (Inr rs, g)
      | None \<Rightarrow>
          (case queryReferrers_db (run_dir R) (gc_db g) path of
             Inl e \<Rightarrow> (Inl e, g)
           | Inr rs \<Rightarrow> (Inr rs, g\<lparr>referrersCache := omap_emplace path rs (referrersCache g)\<rparr>)))"

fun ownOutputs :: "GCRun \<Rightarrow> DB \<Rightarrow> StorePath \<Rightarrow> StorePath list \<Rightarrow> StorePath list result" where
  "ownOutputs R d path [] = Inr []"
| "ownOutputs R d path (outPath # outs) =
     (if isValidPath_db (run_dir R) d outPath then
        bindr (queryPathInfo (db_queries (run_dir R) d) outPath) (\<lambda>info.
        bindr (ownOutputs R d path outs) (\<lambda>rest. Inr (if deriver info = Some path then outPath # rest else rest)))
      else ownOutputs R d path outs)"

definition keptBy :: "GCRun \<Rightarrow> DB \<Rightarrow> StorePath \<Rightarrow> StorePath list result" where
  "keptBy R d path =
     bindr (if keepDerivations R \<and> isDerivation path
            then bindr (queryStaticDerivationOutputMap_db (run_dir R) d path) (\<lambda>outs. ownOutputs R d path (map snd outs))
            else Inr []) (\<lambda>outs.
     bindr (if keepOutputs R then queryValidDerivers_db (run_dir R) d path else Inr []) (\<lambda>derivers.
     Inr (outs @ derivers)))"

datatype visit = BailOut | Visited "StorePath oset" "StorePath list"

definition visitReferrers :: "GCRun \<Rightarrow> StorePath \<Rightarrow> StorePath oset \<Rightarrow> StorePath list \<Rightarrow> GCState \<Rightarrow> visit gc" where
  "visitReferrers R path seen todo g =
     (if isValidPath_db (run_dir R) (gc_db g) path then
        (case cachedReferrers R path g of
           (Inl e, g') \<Rightarrow> Some (Inl (GCError e), g')
         | (Inr rs, g') \<Rightarrow>
             (case keptBy R (gc_db g') path of
                Inl e \<Rightarrow> Some (Inl (GCError e), g')
              | Inr kept \<Rightarrow> (case fold enqueue (rs @ kept) (seen, todo) of (seen', todo') \<Rightarrow> Some (Inr (Visited seen' todo'), g'))))
      else Some (Inr (Visited seen todo), g))"

definition bailOutAlive :: "GCRun \<Rightarrow> StorePath \<Rightarrow> StorePath \<Rightarrow> GCState \<Rightarrow> visit gc" where
  "bailOutAlive R start path g =
     (case markAlive R start path g of
        None \<Rightarrow> None
      | Some (Inl e, g') \<Rightarrow> Some (Inl e, g')
      | Some (Inr _, g') \<Rightarrow> Some (Inr BailOut, g'))"

definition gc_visit_one :: "GCRun \<Rightarrow> StorePath \<Rightarrow> StorePath \<Rightarrow> StorePath oset \<Rightarrow> StorePath list \<Rightarrow> GCState \<Rightarrow> visit gc" where
  "gc_visit_one R start path seen todo g =
     (if path \<in> set (alive g) then Some (Inr BailOut, g\<lparr>alive := oset_insert start (alive g)\<rparr>)
      else if path \<in> set (dead g) then Some (Inr (Visited seen todo), g)
      else if path \<in> set (roots R) then bailOutAlive R start path g
      else if hashPart path \<in> set (tempRoots g) then bailOutAlive R start path g
      else visitReferrers R path seen todo (g\<lparr>pending := Some (hashPart path)\<rparr>))"

partial_function (option) gc_visit ::
  "GCRun \<Rightarrow> StorePath \<Rightarrow> StorePath oset \<Rightarrow> StorePath list \<Rightarrow> GCState \<Rightarrow> StorePath oset option gc" where
  [code]: "gc_visit R start seen todo g =
     (case todo of
        [] \<Rightarrow> Some (Inr (Some seen), g)
      | path # todo' \<Rightarrow>
          (case gc_visit_one R start path seen todo' g of
             None \<Rightarrow> None
           | Some (Inl e, g') \<Rightarrow> Some (Inl e, g')
           | Some (Inr BailOut, g') \<Rightarrow> Some (Inr None, g')
           | Some (Inr (Visited seen' todo''), g') \<Rightarrow> gc_visit R start seen' todo'' g'))"

section \<open>Deleting what was visited\<close>

definition deleteDead :: "GCRun \<Rightarrow> StorePath \<Rightarrow> GCState \<Rightarrow> (gc_exception + unit) \<times> GCState" where
  "deleteDead R path g =
     (case invalidatePathChecked (run_env R) path (gc_store g) of
        (Inl (PathInUse _), st) \<Rightarrow> (Inr (), g\<lparr>gc_store := st\<rparr>)
      | (Inl e, st) \<Rightarrow> (Inl (GCError e), g\<lparr>gc_store := st\<rparr>)
      | (Inr _, st) \<Rightarrow>
          (case deleteFromStore R (baseName path) (g\<lparr>gc_store := st\<rparr>) of
             (Inl e, g') \<Rightarrow> (Inl e, g')
           | (Inr _, g') \<Rightarrow> (Inr (), g'\<lparr>referrersCache := omap_erase path (referrersCache g')\<rparr>)))"

fun deleteAll :: "GCRun \<Rightarrow> StorePath list \<Rightarrow> GCState \<Rightarrow> (gc_exception + unit) \<times> GCState" where
  "deleteAll R [] g = (Inr (), g)"
| "deleteAll R (path # paths) g =
     (if path \<in> set (dead g) then deleteAll R paths g
      else
        let g1 = g\<lparr>dead := oset_insert path (dead g)\<rparr>
        in if shouldDelete R then
             (case deleteDead R path g1 of
                (Inl e, g') \<Rightarrow> (Inl e, g')
              | (Inr _, g') \<Rightarrow> deleteAll R paths g')
           else deleteAll R paths g1)"

definition releasePending :: "'a gc \<Rightarrow> 'a gc" where
  "releasePending r = map_option (\<lambda>(x, g). (x, g\<lparr>pending := None\<rparr>)) r"

definition deleteReferrersClosure :: "GCRun \<Rightarrow> StorePath \<Rightarrow> GCState \<Rightarrow> unit gc" where
  "deleteReferrersClosure R start g =
     releasePending
       (case gc_visit R start (oset_of [start]) [start] g of
          None \<Rightarrow> None
        | Some (Inl e, g') \<Rightarrow> Some (Inl e, g')
        | Some (Inr None, g') \<Rightarrow> Some (Inr (), g')
        | Some (Inr (Some seen), g') \<Rightarrow>
            (case topoSortPaths (db_queries (run_dir R) (gc_db g')) seen of
               None \<Rightarrow> None
             | Some (Inl e) \<Rightarrow> Some (Inl (GCError e), g')
             | Some (Inr paths) \<Rightarrow> Some (deleteAll R paths g')))"

section \<open>The collector\<close>

fun gc_specific :: "GCRun \<Rightarrow> StorePath list \<Rightarrow> GCState \<Rightarrow> unit gc" where
  "gc_specific R [] g = Some (Inr (), g)"
| "gc_specific R (i # is) g =
     (case deleteReferrersClosure R i g of
        None \<Rightarrow> None
      | Some (Inl e, g') \<Rightarrow> Some (Inl e, g')
      | Some (Inr _, g') \<Rightarrow>
          gc_specific R is
            (if i \<in> set (dead g') then g'
             else g'\<lparr>results := (results g')\<lparr>res_kept := oset_insert (baseName i) (res_kept (results g'))\<rparr>\<rparr>))"

definition gc_entry :: "GCRun \<Rightarrow> string \<Rightarrow> GCState \<Rightarrow> unit gc" where
  "gc_entry R name g =
     (if name = ''.'' \<or> name = ''..'' \<or> name = ''.links'' then Some (Inr (), g)
      else
        case maybeParseStorePath (run_dir R) (run_dir R @ ''/'' @ name) of
          Inl e \<Rightarrow> Some (Inl (GCError e), g)
        | Inr (Some storePath) \<Rightarrow> deleteReferrersClosure R storePath g
        | Inr None \<Rightarrow> Some (deleteFromStore R name g))"

fun gc_entries :: "GCRun \<Rightarrow> string list \<Rightarrow> GCState \<Rightarrow> unit gc" where
  "gc_entries R [] g = Some (Inr (), g)"
| "gc_entries R (name # names) g =
     (case gc_entry R name g of
        None \<Rightarrow> None
      | Some (Inl GCLimitReached, g') \<Rightarrow> Some (Inr (), g')
      | Some (Inl e, g') \<Rightarrow> Some (Inl e, g')
      | Some (Inr _, g') \<Rightarrow> gc_entries R names g')"

text \<open>
  The whole operation. \<open>permRoots\<close> is what \<^verbatim>\<open>findRootsNoTemp\<close> finds, \<open>temps\<close> what \<^verbatim>\<open>findTempRoots\<close> finds, \<open>entries\<close> what reading the
  store directory yields. Removing unused hard links from \<^verbatim>\<open>.links\<close> at the end is left to the file system.
\<close>

record GCInput =
  in_env :: StoreEnv
  gcKeepOutputs :: bool
  gcKeepDerivations :: bool
  permRoots :: "StorePath oset"
  temps :: "StorePath oset"
  entries :: "string list"
  in_sizeOf :: "string \<Rightarrow> 64 word"
  in_lockedTmp :: "string \<Rightarrow> bool"

definition deleteSpecific :: "GCOptions \<Rightarrow> bool" where
  "deleteSpecific opts \<longleftrightarrow> gc_action opts = gcDeleteSpecific \<or> gc_action opts = gcTryDeleteSpecific"

definition gc_run :: "GCInput \<Rightarrow> GCOptions \<Rightarrow> GCRun" where
  "gc_run I opts =
     \<lparr>run_env = in_env I,
      roots = oset_merge (oset_of (if ignoreLiveness opts then [] else permRoots I)) (temps I),
      keepOutputs = gcKeepOutputs I \<and> \<not> (deleteSpecific opts \<and> ignoreLiveness opts),
      keepDerivations = gcKeepDerivations I \<and> \<not> (deleteSpecific opts \<and> ignoreLiveness opts),
      shouldDelete = (gc_action opts = gcDeleteDead \<or> deleteSpecific opts),
      limit = maxFreed opts, sizeOf = in_sizeOf I, lockedTmp = in_lockedTmp I\<rparr>"

definition gc_start :: "GCInput \<Rightarrow> LocalStore \<Rightarrow> string oset \<Rightarrow> GCState" where
  "gc_start I st fs =
     \<lparr>gc_store = st, files = fs, alive = [], dead = [], referrersCache = [],
      tempRoots = oset_of (map hashPart (temps I)), pending = None,
      results = \<lparr>res_paths = [], res_kept = [], bytesFreed = 0\<rparr>\<rparr>"

definition addResultPaths :: "GCRun \<Rightarrow> StorePath list \<Rightarrow> GCState \<Rightarrow> GCState" where
  "addResultPaths R ps g =
     g\<lparr>results := (results g)\<lparr>res_paths := oset_merge (res_paths (results g)) (map (printStorePath (run_dir R)) ps)\<rparr>\<rparr>"

definition gc_finish :: "GCRun \<Rightarrow> GCOptions \<Rightarrow> GCState \<Rightarrow> (gc_exception + unit) \<times> GCState" where
  "gc_finish R opts g =
     (if gc_action opts = gcReturnLive then (Inr (), addResultPaths R (alive g) g)
      else if gc_action opts = gcReturnDead then (Inr (), addResultPaths R (dead g) g)
      else if gc_action opts = gcDeleteSpecific \<and> res_kept (results g) \<noteq> []
      then (Inl (GCError (Error ''Cannot delete some of the given paths because they are still alive.'')), g)
      else (Inr (), g))"

definition collectGarbage :: "GCInput \<Rightarrow> GCOptions \<Rightarrow> LocalStore \<Rightarrow> string oset \<Rightarrow> unit gc" where
  "collectGarbage I opts st fs =
     (let R = gc_run I opts; g = gc_start I st fs
      in case (if deleteSpecific opts then gc_specific R (pathsToDelete opts) g
               else if maxFreed opts > 0 then gc_entries R (entries I) g
               else Some (Inr (), g)) of
           None \<Rightarrow> None
         | Some (Inl e, g') \<Rightarrow> Some (Inl e, g')
         | Some (Inr _, g') \<Rightarrow> Some (gc_finish R opts g'))"

section \<open>What keeps a path alive\<close>

definition derived_from :: "string \<Rightarrow> DB \<Rightarrow> StorePath \<Rightarrow> StorePath \<Rightarrow> bool" where
  "derived_from sd d q drv \<longleftrightarrow>
     (\<exists>r \<in> set (validPaths d). row_path r = printStorePath sd q \<and> row_deriver r = Some (printStorePath sd drv))"

text \<open>
  A path keeps its references; a derivation keeps its valid outputs with \<^verbatim>\<open>keep-outputs\<close>; and an output keeps the derivation it
  was built by with \<^verbatim>\<open>keep-derivations\<close>.
\<close>

definition keeps :: "GCRun \<Rightarrow> DB \<Rightarrow> StorePath \<Rightarrow> StorePath \<Rightarrow> bool" where
  "keeps R d q p \<longleftrightarrow>
     refers (run_dir R) d q p
     \<or> (keepOutputs R \<and> isValidPath_db (run_dir R) d p \<and> produces (run_dir R) d q p)
     \<or> (keepDerivations R \<and> isDerivation p \<and> produces (run_dir R) d p q \<and> isValidPath_db (run_dir R) d q
        \<and> derived_from (run_dir R) d q p)"

definition is_root :: "GCRun \<Rightarrow> string oset \<Rightarrow> StorePath \<Rightarrow> bool" where
  "is_root R temporary p \<longleftrightarrow> p \<in> set (roots R) \<or> hashPart p \<in> set temporary"

text \<open>A set of paths that may be deleted: no root, and closed under what keeps a path alive.\<close>

definition doomed :: "GCRun \<Rightarrow> DB \<Rightarrow> string oset \<Rightarrow> StorePath set \<Rightarrow> bool" where
  "doomed R d temporary D \<longleftrightarrow> (\<forall>p \<in> D. \<not> is_root R temporary p \<and> (\<forall>q. keeps R d q p \<longrightarrow> q \<in> D))"

lemma doomed_not_live:
  assumes "doomed R d temporary D" and "is_root R temporary r" and "(keeps R d)\<^sup>*\<^sup>* r p"
  shows "p \<notin> D"
  using assms(3,1,2) by (induction rule: rtranclp_induct) (auto simp: doomed_def)

text \<open>A database from which a set of paths has been deleted.\<close>

definition shrunk :: "string \<Rightarrow> DB \<Rightarrow> StorePath set \<Rightarrow> DB \<Rightarrow> bool" where
  "shrunk sd d0 S d \<longleftrightarrow>
     db_ok sd d0 \<and> db_ok sd d \<and> set (validPaths d) \<subseteq> set (validPaths d0)
     \<and> (\<forall>q. isValidPath_db sd d q \<longleftrightarrow> isValidPath_db sd d0 q \<and> q \<notin> S)
     \<and> (\<forall>a b. refers sd d a b \<longleftrightarrow> refers sd d0 a b \<and> a \<notin> S)
     \<and> (\<forall>a b. produces sd d a b \<longleftrightarrow> produces sd d0 a b \<and> a \<notin> S)"

lemma shrunk_refl: "db_ok sd d \<Longrightarrow> shrunk sd d {} d"
  by (simp add: shrunk_def)

lemma shrunk_derived:
  assumes "shrunk sd d0 S d" and "derived_from sd d0 q p" and "isValidPath_db sd d q"
  shows "derived_from sd d q p"
proof -
  obtain r where r: "r \<in> set (validPaths d0)" "row_path r = printStorePath sd q" "row_deriver r = Some (printStorePath sd p)"
    using assms(2) by (auto simp: derived_from_def)
  obtain r' where r': "r' \<in> set (validPaths d)" "row_path r' = printStorePath sd q" using assms(3) by (auto simp: valid_iff)
  have "r' \<in> set (validPaths d0)" "db_ok sd d0" using r'(1) assms(1) by (auto simp: shrunk_def)
  then have "r' = r" using r(1,2) r'(2) by (auto simp: db_ok_def distinct_map inj_on_def)
  then show ?thesis using r r' by (auto simp: derived_from_def)
qed

lemma invalidate_rows: "set (validPaths (db (snd (invalidatePathChecked E p st)))) \<subseteq> set (validPaths (db st))"
  by (auto simp: invalidatePathChecked_def invalidatePath_def stmt_InvalidatePath_def Let_def split: if_splits sum.splits option.splits)

lemma shrunk_invalidate:
  assumes E: "env_ok E" and s: "shrunk (e_storeDir E) d0 S (db st)" and i: "invalidatePathChecked E p st = (r, st')"
  shows "(isl r \<and> st' = st) \<or> (r = Inr () \<and> shrunk (e_storeDir E) d0 (insert p S) (db st')
    \<and> (\<forall>a b. refers (e_storeDir E) (db st') a b \<longrightarrow> refers (e_storeDir E) (db st) a b))"
proof -
  let ?sd = "e_storeDir E"
  have ok: "store_ok E st" using s by (simp add: store_ok_def shrunk_def)
  show ?thesis
  proof (cases "\<forall>q. refers ?sd (db st) q p \<longrightarrow> q = p")
    case False
    then show ?thesis using invalidatePathChecked_in_use [OF E ok] i by auto
  next
    case True
    from invalidatePathChecked_free [OF E ok True] i have f: "r = Inr ()" "store_ok E st'"
      "\<And>q. isValidPath_db ?sd (db st') q \<longleftrightarrow> isValidPath_db ?sd (db st) q \<and> q \<noteq> p"
      "\<And>a b. refers ?sd (db st') a b \<longleftrightarrow> refers ?sd (db st) a b \<and> a \<noteq> p"
      "\<And>a b. produces ?sd (db st') a b \<longleftrightarrow> produces ?sd (db st) a b \<and> a \<noteq> p" by auto
    have "set (validPaths (db st')) \<subseteq> set (validPaths (db st))" using invalidate_rows [of E p st] i by simp
    then have "shrunk ?sd d0 (insert p S) (db st')" using f s unfolding shrunk_def store_ok_def by auto
    then show ?thesis using f(1,4) by simp
  qed
qed

section \<open>Invariant\<close>

definition refs_cached :: "GCRun \<Rightarrow> GCState \<Rightarrow> bool" where
  "refs_cached R g \<longleftrightarrow> omap_ok (referrersCache g)
     \<and> (\<forall>p rs q. map_of (referrersCache g) p = Some rs \<longrightarrow> refers (run_dir R) (gc_db g) q p \<longrightarrow> q \<in> set rs)"

definition not_store_name :: "GCRun \<Rightarrow> string \<Rightarrow> bool" where
  "not_store_name R name \<longleftrightarrow> maybeParseStorePath (run_dir R) (run_dir R @ ''/'' @ name) = Inr None"

definition gc_inv :: "GCRun \<Rightarrow> DB \<Rightarrow> string oset \<Rightarrow> GCState \<Rightarrow> bool" where
  "gc_inv R d0 fs g \<longleftrightarrow>
     refs_cached R g
     \<and> (\<forall>n \<in> set fs. n \<notin> set (files g) \<longrightarrow> n \<in> baseName ` set (dead g) \<or> not_store_name R n)
     \<and> (\<exists>S D. S \<subseteq> set (dead g) \<and> set (dead g) \<subseteq> D \<and> doomed R d0 (tempRoots g) D \<and> shrunk (run_dir R) d0 S (gc_db g))"

text \<open>The invariant does not depend on the rest of the state.\<close>

lemma gc_inv_update [simp]:
  "gc_inv R d0 fs (g\<lparr>alive := a\<rparr>) = gc_inv R d0 fs g"
  "gc_inv R d0 fs (g\<lparr>pending := w\<rparr>) = gc_inv R d0 fs g"
  "gc_inv R d0 fs (g\<lparr>results := x\<rparr>) = gc_inv R d0 fs g"
  by (simp_all add: gc_inv_def refs_cached_def gc_db_def)

lemma tempRoots_update [simp]: "gc_db (g\<lparr>alive := a\<rparr>) = gc_db g" "gc_db (g\<lparr>pending := w\<rparr>) = gc_db g"
  "gc_db (g\<lparr>referrersCache := c\<rparr>) = gc_db g" "gc_db (g\<lparr>results := x\<rparr>) = gc_db g" "gc_db (g\<lparr>dead := e\<rparr>) = gc_db g"
  "gc_db (g\<lparr>files := f\<rparr>) = gc_db g"
  by (simp_all add: gc_db_def)

lemma gc_inv_db: "gc_inv R d0 fs g \<Longrightarrow> db_ok (run_dir R) (gc_db g)"
  by (auto simp: gc_inv_def shrunk_def)

definition processed :: "GCRun \<Rightarrow> DB \<Rightarrow> GCState \<Rightarrow> StorePath oset \<Rightarrow> StorePath \<Rightarrow> bool" where
  "processed R d0 g seen p \<longleftrightarrow>
     p \<in> set (dead g) \<or> (\<not> is_root R (tempRoots g) p \<and> (\<forall>q. keeps R d0 q p \<longrightarrow> q \<in> set seen \<union> set (dead g)))"

definition visit_inv :: "GCRun \<Rightarrow> DB \<Rightarrow> string oset \<Rightarrow> GCState \<Rightarrow> StorePath oset \<Rightarrow> StorePath list \<Rightarrow> bool" where
  "visit_inv R d0 fs g seen todo \<longleftrightarrow>
     gc_inv R d0 fs g \<and> set todo \<subseteq> set seen \<and> oset_ok seen \<and> (\<forall>p \<in> set seen - set todo. processed R d0 g seen p)"

lemma enqueue_all:
  "set (fst (fold enqueue ps q)) = set (fst q) \<union> set ps
   \<and> set (snd (fold enqueue ps q)) \<subseteq> set (snd q) \<union> set ps \<and> set (snd q) \<subseteq> set (snd (fold enqueue ps q))
   \<and> set (fst (fold enqueue ps q)) - set (snd (fold enqueue ps q)) \<subseteq> set (fst q) - set (snd q)
   \<and> (oset_ok (fst q) \<longrightarrow> oset_ok (fst (fold enqueue ps q)))"
proof (induction ps arbitrary: q)
  case (Cons p ps)
  show ?case using Cons.IH [of "enqueue p q"] by (cases "p \<in> set (fst q)") (auto simp: enqueue_def)
qed simp

section \<open>The search\<close>

text \<open>The parts of the state a search leaves alone.\<close>

definition frame :: "GCState \<Rightarrow> GCState \<Rightarrow> bool" where
  "frame g g' \<longleftrightarrow> gc_store g' = gc_store g \<and> dead g' = dead g \<and> files g' = files g \<and> tempRoots g' = tempRoots g
     \<and> results g' = results g"

lemma frame_refl [simp]: "frame g g"
  by (simp add: frame_def)

lemma frame_trans: "frame g g' \<Longrightarrow> frame g' g'' \<Longrightarrow> frame g g''"
  by (simp add: frame_def)

lemma frame_updates [simp]:
  "frame g (g'\<lparr>alive := a\<rparr>) = frame g g'" "frame g (g'\<lparr>pending := w\<rparr>) = frame g g'"
  "frame g (g'\<lparr>referrersCache := c\<rparr>) = frame g g'"
  by (auto simp: frame_def)

lemma frame_db: "frame g g' \<Longrightarrow> gc_db g' = gc_db g"
  by (simp add: frame_def gc_db_def)

lemma gc_inv_frame: "gc_inv R d0 fs g \<Longrightarrow> frame g g' \<Longrightarrow> refs_cached R g' \<Longrightarrow> gc_inv R d0 fs g'"
  unfolding gc_inv_def frame_def gc_db_def by (elim conjE) simp

lemma markAlive_frame:
  assumes "markAlive R start path g = Some (r, g')"
  shows "\<exists>a. g' = g\<lparr>alive := a\<rparr>"
  using assms unfolding markAlive_def Let_def by (auto split: option.splits sum.splits error.splits)

lemma bailOutAlive_frame:
  assumes "bailOutAlive R start path g = Some (r, g')"
  shows "(\<exists>a. g' = g\<lparr>alive := a\<rparr>) \<and> (\<forall>s t. r \<noteq> Inr (Visited s t))"
  using assms by (auto simp: bailOutAlive_def dest: markAlive_frame split: option.splits prod.splits sum.splits)

lemma cachedReferrers_ok:
  assumes "cachedReferrers R path g = (r, g')" and "refs_cached R g" and "db_ok (run_dir R) (gc_db g)" and "canonical (run_dir R)"
  shows "frame g g' \<and> refs_cached R g' \<and> (\<exists>rs. r = Inr rs \<and> {q. refers (run_dir R) (gc_db g) q path} \<subseteq> set rs)"
proof (cases "map_of (referrersCache g) path")
  case (Some rs)
  then show ?thesis using assms(1,2) by (auto simp: cachedReferrers_def refs_cached_def)
next
  case None
  obtain ps where ps: "queryReferrers_db (run_dir R) (gc_db g) path = Inr ps" "set ps = {q. refers (run_dir R) (gc_db g) q path}"
    using queryReferrers_ok [OF assms(3,4)] by blast
  have g': "r = Inr ps" "g' = g\<lparr>referrersCache := omap_emplace path ps (referrersCache g)\<rparr>"
    using assms(1) None ps(1) by (auto simp: cachedReferrers_def)
  have "refs_cached R g'" using assms(2) ps(2) None unfolding refs_cached_def g'
    by (auto simp: map_of_omap_emplace split: if_splits)
  then show ?thesis using g' ps(2) by simp
qed

text \<open>What a valid path in the database is made of.\<close>

lemma valid_sp_ok: "db_ok sd d \<Longrightarrow> isValidPath_db sd d p \<Longrightarrow> sp_ok p"
  by (auto simp: db_ok_def valid_iff path_text_def)

lemma queryPathInfo_deriver:
  assumes "db_ok sd d" and "canonical sd" and "derived_from sd d q p" and "sp_ok p"
    and "queryPathInfo (db_queries sd d) q = Inr info"
  shows "deriver info = Some p"
proof -
  obtain r where r: "r \<in> set (validPaths d)" "row_path r = printStorePath sd q" "row_deriver r = Some (printStorePath sd p)"
    using assms(3) by (auto simp: derived_from_def)
  then have "stmt_QueryPathInfo (printStorePath sd q) d = Some r" using row_lookup [OF assms(1)] by blast
  then show ?thesis using assms(5) parse_sp_ok [OF assms(2,4)] r(3)
    by (auto simp: db_queries_def queryPathInfoInternal_def bindr_eq_Inr_iff split: option.splits)
qed

lemma ownOutputs_ok:
  "ownOutputs R d path outs = Inr os \<Longrightarrow> db_ok (run_dir R) d \<Longrightarrow> canonical (run_dir R) \<Longrightarrow> sp_ok path \<Longrightarrow>
   {q \<in> set outs. isValidPath_db (run_dir R) d q \<and> derived_from (run_dir R) d q path} \<subseteq> set os"
proof (induction R d path outs arbitrary: os rule: ownOutputs.induct)
  case (2 R d path outPath outs)
  show ?case
  proof (cases "isValidPath_db (run_dir R) d outPath")
    case True
    then obtain info rest where i: "queryPathInfo (db_queries (run_dir R) d) outPath = Inr info" "ownOutputs R d path outs = Inr rest"
      "os = (if deriver info = Some path then outPath # rest else rest)"
      using "2.prems"(1) by (auto simp: bindr_eq_Inr_iff)
    have "derived_from (run_dir R) d outPath path \<Longrightarrow> deriver info = Some path"
      using queryPathInfo_deriver [OF "2.prems"(2,3)] "2.prems"(4) i(1) by blast
    then show ?thesis using "2.IH"(1) [OF True i(1) i(2) "2.prems"(2-4)] i(3) by auto
  next
    case False
    then show ?thesis using "2.IH"(2) [OF False _ "2.prems"(2-4), of os] "2.prems"(1) by auto
  qed
qed simp

lemma keptBy_ok:
  assumes "keptBy R d path = Inr ps" and "db_ok (run_dir R) d" and "canonical (run_dir R)" and "isValidPath_db (run_dir R) d path"
  shows "(keepOutputs R \<and> produces (run_dir R) d q path \<longrightarrow> q \<in> set ps)
    \<and> (keepDerivations R \<and> isDerivation path \<and> produces (run_dir R) d path q \<and> isValidPath_db (run_dir R) d q
       \<and> derived_from (run_dir R) d q path \<longrightarrow> q \<in> set ps)"
proof -
  obtain os ds where os: "(if keepDerivations R \<and> isDerivation path
       then bindr (queryStaticDerivationOutputMap_db (run_dir R) d path) (\<lambda>outs. ownOutputs R d path (map snd outs)) else Inr []) = Inr os"
    and ds: "(if keepOutputs R then queryValidDerivers_db (run_dir R) d path else Inr []) = Inr ds" and ps: "ps = os @ ds"
    using assms(1) by (auto simp: keptBy_def bindr_eq_Inr_iff)
  obtain outs where outs: "queryStaticDerivationOutputMap_db (run_dir R) d path = Inr outs"
    "\<And>p. p \<in> snd ` set outs \<longleftrightarrow> produces (run_dir R) d path p"
    using queryStaticDerivationOutputMap_ok [OF assms(2-4)] by blast
  obtain vd where vd: "queryValidDerivers_db (run_dir R) d path = Inr vd" "set vd = {drv. produces (run_dir R) d drv path}"
    using queryValidDerivers_ok [OF assms(2,3)] by blast
  have "q \<in> set os" if "keepDerivations R" "isDerivation path" "produces (run_dir R) d path q" "isValidPath_db (run_dir R) d q"
    "derived_from (run_dir R) d q path"
  proof -
    have "ownOutputs R d path (map snd outs) = Inr os" using os that(1,2) outs(1) by simp
    from ownOutputs_ok [OF this assms(2,3) valid_sp_ok [OF assms(2,4)]] show ?thesis using that(3-5) outs(2) by auto
  qed
  moreover have "q \<in> set ds" if "keepOutputs R" "produces (run_dir R) d q path" using ds vd that by simp
  ultimately show ?thesis using ps by auto
qed

text \<open>Visiting a path that is neither a root nor dead puts everything that keeps it among the seen paths.\<close>

lemma keepers_seen:
  assumes inv: "gc_inv R d0 fs g" and canonical: "canonical (run_dir R)"
    and "path \<notin> set (dead g)" and "keeps R d0 q path"
    and rs: "{q. refers (run_dir R) (gc_db g) q path} \<subseteq> set rs" and kept: "keptBy R (gc_db g) path = Inr ps"
    and "isValidPath_db (run_dir R) (gc_db g) path"
  shows "q \<in> set rs \<union> set ps \<union> set (dead g)"
proof (cases "q \<in> set (dead g)")
  case False
  let ?sd = "run_dir R" and ?d = "gc_db g"
  obtain S where S: "S \<subseteq> set (dead g)" "shrunk ?sd d0 S ?d" using inv by (auto simp: gc_inv_def)
  then have q: "q \<notin> S" "path \<notin> S" using False assms(3) by auto
  have k: "(keepOutputs R \<and> produces ?sd ?d q path \<longrightarrow> q \<in> set ps)
    \<and> (keepDerivations R \<and> isDerivation path \<and> produces ?sd ?d path q \<and> isValidPath_db ?sd ?d q
       \<and> derived_from ?sd ?d q path \<longrightarrow> q \<in> set ps)"
    by (rule keptBy_ok [OF kept gc_inv_db [OF inv] canonical assms(7)])
  have "refers ?sd d0 q path \<Longrightarrow> q \<in> set rs" using S(2) q(1) rs by (auto simp: shrunk_def)
  moreover have "produces ?sd d0 q path \<Longrightarrow> produces ?sd ?d q path" "produces ?sd d0 path q \<Longrightarrow> produces ?sd ?d path q"
    "isValidPath_db ?sd d0 q \<Longrightarrow> isValidPath_db ?sd ?d q" using S(2) q unfolding shrunk_def by simp_all
  ultimately show ?thesis using assms(4) k shrunk_derived [OF S(2)] unfolding keeps_def by blast
qed simp

lemma keepers_none:
  assumes "gc_inv R d0 fs g" and "path \<notin> set (dead g)" and "\<not> isValidPath_db (run_dir R) (gc_db g) path"
  shows "\<not> keeps R d0 q path"
proof -
  obtain S where S: "S \<subseteq> set (dead g)" "shrunk (run_dir R) d0 S (gc_db g)" using assms(1) by (auto simp: gc_inv_def)
  then have "\<not> isValidPath_db (run_dir R) d0 path" using assms(2,3) unfolding shrunk_def by blast
  moreover have "produces (run_dir R) d0 path q \<Longrightarrow> isValidPath_db (run_dir R) d0 path"
    by (auto simp: produces_def valid_iff image_iff) metis
  ultimately show ?thesis using refers_valid unfolding keeps_def by blast
qed

lemma visitReferrers_ok:
  assumes inv: "visit_inv R d0 fs g seen (path # todo)" and canonical: "canonical (run_dir R)"
    and "path \<notin> set (dead g)" and "\<not> is_root R (tempRoots g) path"
    and v: "visitReferrers R path seen todo g = Some (r, g')"
  shows "frame g g' \<and> gc_inv R d0 fs g' \<and> r \<noteq> Inr BailOut \<and> (\<forall>s t. r = Inr (Visited s t) \<longrightarrow> visit_inv R d0 fs g' s t)"
proof -
  have ginv: "gc_inv R d0 fs g" and seen: "path \<in> set seen" "set todo \<subseteq> set seen" "oset_ok seen"
    "\<And>p. p \<in> set seen \<Longrightarrow> p \<notin> set todo \<Longrightarrow> p \<noteq> path \<Longrightarrow> processed R d0 g seen p"
    using inv by (auto simp: visit_inv_def)
  show ?thesis
  proof (cases "isValidPath_db (run_dir R) (gc_db g) path")
    case False
    then have "processed R d0 g seen path" using keepers_none [OF ginv assms(3)] assms(4) by (auto simp: processed_def)
    then have "visit_inv R d0 fs g seen todo" using seen ginv unfolding visit_inv_def by blast
    then show ?thesis using v False ginv by (auto simp: visitReferrers_def)
  next
    case True
    obtain cr g1 where c: "cachedReferrers R path g = (cr, g1)" by fastforce
    have rc: "refs_cached R g" using ginv by (simp add: gc_inv_def)
    obtain rs where rs: "frame g g1" "refs_cached R g1" "cr = Inr rs" "{q. refers (run_dir R) (gc_db g) q path} \<subseteq> set rs"
      using cachedReferrers_ok [OF c rc gc_inv_db [OF ginv] canonical] by blast
    have g1: "gc_inv R d0 fs g1" using gc_inv_frame [OF ginv rs(1,2)] .
    have d: "gc_db g1 = gc_db g" and same: "dead g1 = dead g" "tempRoots g1 = tempRoots g"
      using rs(1) by (simp_all add: frame_db) (simp_all add: frame_def)
    show ?thesis
    proof (cases "keptBy R (gc_db g) path")
      case (Inl e)
      then show ?thesis using v True c rs(1,3) g1 d by (auto simp: visitReferrers_def)
    next
      case (Inr ps)
      obtain s t where st: "fold enqueue (rs @ ps) (seen, todo) = (s, t)" by fastforce
      have r: "r = Inr (Visited s t)" "g' = g1" using v True c rs(3) d Inr st by (auto simp: visitReferrers_def)
      have e: "set s = set seen \<union> set (rs @ ps)" "set t \<subseteq> set todo \<union> set (rs @ ps)" "set todo \<subseteq> set t"
        "set s - set t \<subseteq> set seen - set todo" "oset_ok s"
        using enqueue_all [of "rs @ ps" "(seen, todo)"] seen(3) unfolding st fst_conv snd_conv by blast+
      have "processed R d0 g1 s path"
        using keepers_seen [OF ginv canonical assms(3) _ rs(4) Inr True] assms(4) e(1) same by (auto simp: processed_def)
      moreover have "processed R d0 g1 s p" if "p \<in> set s - set t" "p \<noteq> path" for p
        using seen(4) [of p] that e(1,4) same by (auto simp: processed_def)
      ultimately have "visit_inv R d0 fs g1 s t" using g1 e seen(2) unfolding visit_inv_def by blast
      then show ?thesis using r rs(1) g1 by simp
    qed
  qed
qed

lemma visit_inv_pending [simp]: "visit_inv R d0 fs (g\<lparr>pending := w\<rparr>) s t = visit_inv R d0 fs g s t"
  by (simp add: visit_inv_def processed_def)

lemma gc_visit_one_ok:
  assumes inv: "visit_inv R d0 fs g seen (path # todo)" and canonical: "canonical (run_dir R)"
    and v: "gc_visit_one R start path seen todo g = Some (r, g')"
  shows "frame g g' \<and> gc_inv R d0 fs g' \<and> (\<forall>s t. r = Inr (Visited s t) \<longrightarrow> visit_inv R d0 fs g' s t)"
proof -
  have ginv: "gc_inv R d0 fs g" using inv by (simp add: visit_inv_def)
  consider "path \<in> set (alive g)" | "path \<notin> set (alive g)" "path \<in> set (dead g)"
    | "path \<notin> set (alive g)" "path \<notin> set (dead g)" "is_root R (tempRoots g) path"
    | "path \<notin> set (alive g)" "path \<notin> set (dead g)" "\<not> is_root R (tempRoots g) path" by blast
  then show ?thesis
  proof cases
    case 1
    then show ?thesis using v ginv by (auto simp: gc_visit_one_def)
  next
    case 2
    then have "visit_inv R d0 fs g seen todo" using inv by (auto simp: visit_inv_def processed_def)
    then show ?thesis using v ginv 2 by (auto simp: gc_visit_one_def)
  next
    case 3
    then have "bailOutAlive R start path g = Some (r, g')" using v by (auto simp: gc_visit_one_def is_root_def split: if_splits)
    then show ?thesis using bailOutAlive_frame ginv by fastforce
  next
    case 4
    then have "visitReferrers R path seen todo (g\<lparr>pending := Some (hashPart path)\<rparr>) = Some (r, g')"
      using v by (auto simp: gc_visit_one_def is_root_def split: if_splits)
    from visitReferrers_ok [OF _ canonical _ _ this, of d0 fs] show ?thesis using inv 4 by (auto simp: frame_def)
  qed
qed

lemma gc_visit_ok:
  assumes "gc_visit R start seen todo g = Some (r, g')"
  shows "visit_inv R d0 fs g seen todo \<Longrightarrow> canonical (run_dir R) \<Longrightarrow>
    frame g g' \<and> gc_inv R d0 fs g' \<and> (\<forall>V. r = Inr (Some V) \<longrightarrow> visit_inv R d0 fs g' V [])"
proof -
  let ?P = "\<lambda>R start seen todo g (r, g'). visit_inv R d0 fs g seen todo \<longrightarrow> canonical (run_dir R) \<longrightarrow>
    frame g g' \<and> gc_inv R d0 fs g' \<and> (\<forall>V. r = Inr (Some V) \<longrightarrow> visit_inv R d0 fs g' V [])"
  have "?P R start seen todo g (r, g')"
  proof (rule gc_visit.raw_induct [OF _ assms, where P = ?P])
    fix self R start seen todo g and res :: "(gc_exception + StorePath oset option) \<times> GCState"
    assume IH: "\<And>R start seen todo g y. self R start seen todo g = Some y \<Longrightarrow> ?P R start seen todo g y"
      and eq: "(case todo of [] \<Rightarrow> Some (Inr (Some seen), g)
        | path # todo' \<Rightarrow>
          (case gc_visit_one R start path seen todo' g of
             None \<Rightarrow> None
           | Some (Inl e, g') \<Rightarrow> Some (Inl e, g')
           | Some (Inr BailOut, g') \<Rightarrow> Some (Inr None, g')
           | Some (Inr (Visited seen' todo''), g') \<Rightarrow> self R start seen' todo'' g')) = Some res"
    obtain r g' where res: "res = (r, g')" by fastforce
    have "frame g g' \<and> gc_inv R d0 fs g' \<and> (\<forall>V. r = Inr (Some V) \<longrightarrow> visit_inv R d0 fs g' V [])"
      if inv: "visit_inv R d0 fs g seen todo" and c: "canonical (run_dir R)"
    proof (cases todo)
      case Nil
      then show ?thesis using eq res inv by (auto simp: visit_inv_def)
    next
      case (Cons path todo')
      then obtain v g1 where v: "gc_visit_one R start path seen todo' g = Some (v, g1)"
        using eq by (auto split: option.splits)
      from gc_visit_one_ok [OF inv [unfolded Cons] c v] have one: "frame g g1" "gc_inv R d0 fs g1"
        "\<And>s t. v = Inr (Visited s t) \<Longrightarrow> visit_inv R d0 fs g1 s t" by blast+
      consider e where "v = Inl e" | "v = Inr BailOut" | s t where "v = Inr (Visited s t)" by (metis sumE visit.exhaust)
      then show ?thesis
      proof cases
        case (3 s t)
        then have "self R start s t g1 = Some (r, g')" using eq Cons v res by simp
        from IH [OF this] show ?thesis using one(1) one(3) [OF 3] c frame_trans by auto
      qed (use eq Cons v res one(1,2) in auto)
    qed
    then show "?P R start seen todo g res" using res by simp
  qed
  then show "visit_inv R d0 fs g seen todo \<Longrightarrow> canonical (run_dir R) \<Longrightarrow>
    frame g g' \<and> gc_inv R d0 fs g' \<and> (\<forall>V. r = Inr (Some V) \<longrightarrow> visit_inv R d0 fs g' V [])" by simp
qed

section \<open>Deletion\<close>

text \<open>The invariant without the set that bounds the dead paths.\<close>

definition gc_part :: "GCRun \<Rightarrow> DB \<Rightarrow> string oset \<Rightarrow> GCState \<Rightarrow> bool" where
  "gc_part R d0 fs g \<longleftrightarrow>
     refs_cached R g
     \<and> (\<forall>n \<in> set fs. n \<notin> set (files g) \<longrightarrow> n \<in> baseName ` set (dead g) \<or> not_store_name R n)
     \<and> (\<exists>S. S \<subseteq> set (dead g) \<and> shrunk (run_dir R) d0 S (gc_db g))"

lemma gc_inv_split:
  "gc_inv R d0 fs g \<longleftrightarrow> gc_part R d0 fs g \<and> (\<exists>D. set (dead g) \<subseteq> D \<and> doomed R d0 (tempRoots g) D)"
  unfolding gc_inv_def gc_part_def by blast

lemma gc_part_update [simp]:
  "gc_part R d0 fs (g\<lparr>results := x\<rparr>) = gc_part R d0 fs g"
  by (simp add: gc_part_def refs_cached_def gc_db_def)

lemma doomed_visited:
  assumes "visit_inv R d0 fs g V []"
  shows "\<exists>D. set (dead g) \<union> set V \<subseteq> D \<and> doomed R d0 (tempRoots g) D"
proof -
  obtain D where D: "set (dead g) \<subseteq> D" "doomed R d0 (tempRoots g) D" using assms by (auto simp: visit_inv_def gc_inv_split)
  have p: "processed R d0 g V p" if "p \<in> set V" for p using assms that by (auto simp: visit_inv_def)
  have "doomed R d0 (tempRoots g) (D \<union> set V)"
    unfolding doomed_def
  proof
    fix p assume "p \<in> D \<union> set V"
    then show "\<not> is_root R (tempRoots g) p \<and> (\<forall>q. keeps R d0 q p \<longrightarrow> q \<in> D \<union> set V)"
      using D p [of p] unfolding doomed_def processed_def by blast
  qed
  then show ?thesis using D(1) by blast
qed

lemma refs_cached_delete:
  assumes "refs_cached R g" and "\<And>a b. refers (run_dir R) (db st) a b \<Longrightarrow> refers (run_dir R) (gc_db g) a b"
  shows "refs_cached R (g\<lparr>gc_store := st\<rparr>)"
  using assms by (auto simp: refs_cached_def gc_db_def)

lemma gc_part_files:
  assumes "gc_part R d0 fs g" and "name \<in> baseName ` set (dead g) \<or> not_store_name R name"
  shows "gc_part R d0 fs (g\<lparr>files := removeAll name (files g), results := x\<rparr>)"
proof -
  have "n \<in> baseName ` set (dead g) \<or> not_store_name R n" if "n \<in> set fs" "n \<notin> set (removeAll name (files g))" for n
  proof (cases "n = name")
    case False
    then show ?thesis using assms(1) that by (auto simp: gc_part_def)
  qed (use assms(2) in simp)
  then show ?thesis using assms(1) unfolding gc_part_def refs_cached_def gc_db_def by (elim conjE) simp
qed

lemma deleteFromStore_ok:
  assumes "deleteFromStore R name g = (r, g')" and "gc_part R d0 fs g"
    and "name \<in> baseName ` set (dead g) \<or> not_store_name R name"
  shows "gc_part R d0 fs g' \<and> dead g' = dead g \<and> tempRoots g' = tempRoots g"
proof (cases "prefix ''tmp-'' name \<and> lockedTmp R name")
  case False
  then have "\<exists>x. g' = g\<lparr>files := removeAll name (files g), results := x\<rparr>"
    using assms(1) by (auto simp: deleteFromStore_def Let_def)
  then obtain x where g': "g' = g\<lparr>files := removeAll name (files g), results := x\<rparr>" ..
  show ?thesis using gc_part_files [OF assms(2,3)] unfolding g' by simp
qed (use assms in \<open>simp add: deleteFromStore_def\<close>)

lemma gc_part_erase: "gc_part R d0 fs g \<Longrightarrow> gc_part R d0 fs (g\<lparr>referrersCache := omap_erase p (referrersCache g)\<rparr>)"
  unfolding gc_part_def refs_cached_def gc_db_def by (elim conjE) (simp add: map_of_omap_erase)

lemma deleteDead_ok:
  assumes d: "deleteDead R path g = (r, g')" and inv: "gc_part R d0 fs g" and path: "path \<in> set (dead g)" and E: "env_ok (run_env R)"
  shows "gc_part R d0 fs g' \<and> dead g' = dead g \<and> tempRoots g' = tempRoots g"
proof -
  obtain r1 st where i: "invalidatePathChecked (run_env R) path (gc_store g) = (r1, st)" by fastforce
  obtain S where S: "S \<subseteq> set (dead g)" "shrunk (run_dir R) d0 S (gc_db g)" using inv by (auto simp: gc_part_def)
  from shrunk_invalidate [OF E _ i] S(2) consider "isl r1" "st = gc_store g"
    | "r1 = Inr ()" "shrunk (run_dir R) d0 (insert path S) (db st)"
      "\<And>a b. refers (run_dir R) (db st) a b \<Longrightarrow> refers (run_dir R) (gc_db g) a b" by (auto simp: run_dir_def gc_db_def)
  then show ?thesis
  proof cases
    case 1
    have "g' = g\<lparr>gc_store := st\<rparr>" using d i 1 by (cases r1) (auto simp: deleteDead_def split: error.splits)
    then show ?thesis using 1 inv by simp
  next
    case 2
    let ?g = "g\<lparr>gc_store := st\<rparr>"
    have "insert path S \<subseteq> set (dead ?g) \<and> shrunk (run_dir R) d0 (insert path S) (gc_db ?g)" using S(1) 2(2) path by (simp add: gc_db_def)
    then have "gc_part R d0 fs ?g" using refs_cached_delete [of R g st, OF _ 2(3)] inv
      unfolding gc_part_def by (elim conjE) (intro conjI exI, assumption+, simp_all)
    moreover obtain r2 g2 where g2: "deleteFromStore R (baseName path) ?g = (r2, g2)" by fastforce
    ultimately have "gc_part R d0 fs g2" "dead g2 = dead g" "tempRoots g2 = tempRoots g"
      using deleteFromStore_ok [OF g2, of d0 fs] path by auto
    moreover have "g' = g2 \<or> g' = g2\<lparr>referrersCache := omap_erase path (referrersCache g2)\<rparr>"
      using d i 2(1) g2 by (auto simp: deleteDead_def split: sum.splits)
    ultimately show ?thesis using gc_part_erase by auto
  qed
qed

lemma deleteAll_ok:
  "deleteAll R ps g = (r, g') \<Longrightarrow> gc_part R d0 fs g \<Longrightarrow> env_ok (run_env R) \<Longrightarrow>
   gc_part R d0 fs g' \<and> set (dead g') \<subseteq> set (dead g) \<union> set ps \<and> set (dead g) \<subseteq> set (dead g') \<and> tempRoots g' = tempRoots g"
proof (induction R ps g arbitrary: r g' rule: deleteAll.induct)
  case (2 R path paths g)
  let ?g = "g\<lparr>dead := oset_insert path (dead g)\<rparr>"
  have g1: "gc_part R d0 fs ?g" using "2.prems"(2) unfolding gc_part_def refs_cached_def by (auto simp: gc_db_def)
  show ?case
  proof (cases "path \<in> set (dead g)")
    case True
    then show ?thesis using 2 by auto
  next
    case new: False
    show ?thesis
    proof (cases "shouldDelete R")
      case True
      obtain r2 g2 where d: "deleteDead R path ?g = (r2, g2)" by fastforce
      from deleteDead_ok [OF d g1 _ "2.prems"(3)] have g2: "gc_part R d0 fs g2" "dead g2 = oset_insert path (dead g)" "tempRoots g2 = tempRoots g"
        by auto
      show ?thesis
      proof (cases r2)
        case (Inr u)
        have "deleteAll R paths g2 = (r, g')" using "2.prems"(1) new True d Inr by (simp add: Let_def)
        from "2.IH"(2) [OF new refl True d [symmetric] Inr this g2(1) "2.prems"(3)] show ?thesis using g2 by auto
      qed (use "2.prems"(1) new True d g2 in \<open>auto simp: Let_def\<close>)
    next
      case False
      have "deleteAll R paths ?g = (r, g')" using "2.prems"(1) new False by (simp add: Let_def)
      from "2.IH"(3) [OF new refl False this g1 "2.prems"(3)] show ?thesis by auto
    qed
  qed
qed auto

section \<open>The collector keeps the invariant\<close>

lemma topoSortPaths_set: "topoSortPaths store ps = Some (Inr qs) \<Longrightarrow> set qs = set ps"
  using topoSortAsync_outcome [of ps "pathReferences store" pathCycleError] by (simp add: topoSortPaths_def)

lemma deleteReferrersClosure_ok:
  assumes d: "deleteReferrersClosure R start g = Some (r, g')" and inv: "gc_inv R d0 fs g" and E: "env_ok (run_env R)"
  shows "gc_inv R d0 fs g' \<and> tempRoots g' = tempRoots g"
proof -
  have c: "canonical (run_dir R)" using E by (simp add: run_dir_def store_canonical)
  have start: "visit_inv R d0 fs g (oset_of [start]) [start]" using inv by (simp add: visit_inv_def oset_of_def)
  obtain v g1 where v: "gc_visit R start (oset_of [start]) [start] g = Some (v, g1)"
    using d by (auto simp: deleteReferrersClosure_def releasePending_def split: option.splits)
  from gc_visit_ok [OF v start c] have g1: "frame g g1" "gc_inv R d0 fs g1" "\<And>V. v = Inr (Some V) \<Longrightarrow> visit_inv R d0 fs g1 V []"
    by blast+
  have t: "tempRoots g1 = tempRoots g" using g1(1) by (simp add: frame_def)
  show ?thesis
  proof (cases "\<exists>V ps. v = Inr (Some V) \<and> topoSortPaths (db_queries (run_dir R) (gc_db g1)) V = Some (Inr ps)")
    case True
    then obtain V ps where V: "v = Inr (Some V)" "topoSortPaths (db_queries (run_dir R) (gc_db g1)) V = Some (Inr ps)" by blast
    then obtain g2 where g2: "deleteAll R ps g1 = (r, g2)" "g' = g2\<lparr>pending := None\<rparr>"
      using d v by (auto simp: deleteReferrersClosure_def releasePending_def split: prod.splits)
    have part: "gc_part R d0 fs g1" using g1(2) by (simp add: gc_inv_split)
    obtain D where D: "set (dead g1) \<union> set V \<subseteq> D" "doomed R d0 (tempRoots g1) D" using doomed_visited [OF g1(3) [OF V(1)]] by blast
    have "gc_inv R d0 fs g2 \<and> tempRoots g2 = tempRoots g1"
      using deleteAll_ok [OF g2(1) part E] D topoSortPaths_set [OF V(2)] unfolding gc_inv_split by (metis order_trans)
    then show ?thesis using g2(2) t by simp
  next
    case False
    then have "g' = g1\<lparr>pending := None\<rparr>" using d v
      by (auto simp: deleteReferrersClosure_def releasePending_def split: option.splits sum.splits)
    then show ?thesis using g1(2) t by simp
  qed
qed

lemma gc_specific_ok:
  "gc_specific R is g = Some (r, g') \<Longrightarrow> gc_inv R d0 fs g \<Longrightarrow> env_ok (run_env R) \<Longrightarrow> gc_inv R d0 fs g' \<and> tempRoots g' = tempRoots g"
proof (induction "is" arbitrary: g)
  case (Cons i "is")
  obtain v g1 where v: "deleteReferrersClosure R i g = Some (v, g1)" using Cons.prems(1) by (auto split: option.splits)
  from deleteReferrersClosure_ok [OF v Cons.prems(2,3)] have g1: "gc_inv R d0 fs g1" "tempRoots g1 = tempRoots g" by auto
  show ?case
  proof (cases v)
    case (Inr u)
    define g2 where "g2 = (if i \<in> set (dead g1) then g1
        else g1\<lparr>results := (results g1)\<lparr>res_kept := oset_insert (baseName i) (res_kept (results g1))\<rparr>\<rparr>)"
    have "gc_specific R is g2 = Some (r, g')" using Cons.prems(1) v Inr by (simp add: g2_def)
    from Cons.IH [OF this _ Cons.prems(3)] show ?thesis using g1 by (simp add: g2_def split: if_splits)
  qed (use Cons.prems(1) v g1 in auto)
qed simp

lemma gc_entry_ok:
  assumes "gc_entry R name g = Some (r, g')" and "gc_inv R d0 fs g" and "env_ok (run_env R)"
  shows "gc_inv R d0 fs g' \<and> tempRoots g' = tempRoots g"
proof -
  let ?parsed = "maybeParseStorePath (run_dir R) (run_dir R @ ''/'' @ name)"
  consider "g' = g" | p where "deleteReferrersClosure R p g = Some (r, g')"
    | "?parsed = Inr None" "deleteFromStore R name g = (r, g')"
    using assms(1) by (auto simp: gc_entry_def split: if_splits sum.splits option.splits)
  then show ?thesis
  proof cases
    case 3
    then show ?thesis
      using deleteFromStore_ok [OF 3(2), of d0 fs] assms(2) by (auto simp: gc_inv_split not_store_name_def)
  qed (use deleteReferrersClosure_ok assms(2,3) in auto)
qed

lemma gc_entries_ok:
  "gc_entries R names g = Some (r, g') \<Longrightarrow> gc_inv R d0 fs g \<Longrightarrow> env_ok (run_env R) \<Longrightarrow> gc_inv R d0 fs g' \<and> tempRoots g' = tempRoots g"
proof (induction names arbitrary: g)
  case (Cons name names)
  obtain v g1 where v: "gc_entry R name g = Some (v, g1)" using Cons.prems(1) by (auto split: option.splits)
  from gc_entry_ok [OF v Cons.prems(2,3)] have g1: "gc_inv R d0 fs g1" "tempRoots g1 = tempRoots g" by auto
  show ?case
  proof (cases v)
    case (Inl e)
    then show ?thesis using Cons.prems(1) v g1 by (cases e) auto
  next
    case (Inr u)
    then show ?thesis using Cons.prems(1) v g1 Cons.IH [OF _ g1(1) Cons.prems(3)] by simp
  qed
qed simp

lemma gc_start_inv: "db_ok (run_dir R) (db st) \<Longrightarrow> gc_inv R (db st) fs (gc_start I st fs)"
  unfolding gc_inv_split gc_part_def
  by (auto simp: gc_start_def refs_cached_def gc_db_def doomed_def omap_ok_def intro!: exI [of _ "{}"] shrunk_refl)

lemma collectGarbage_inv:
  assumes c: "collectGarbage I opts st fs = Some (r, g)" and E: "env_ok (in_env I)" and ok: "store_ok (in_env I) st"
  shows "gc_inv (gc_run I opts) (db st) fs g \<and> tempRoots g = oset_of (map hashPart (temps I))"
proof -
  let ?R = "gc_run I opts" and ?g0 = "gc_start I st fs"
  have R: "env_ok (run_env ?R)" "run_dir ?R = e_storeDir (in_env I)" using E by (simp_all add: gc_run_def run_dir_def)
  have start: "gc_inv ?R (db st) fs ?g0" using gc_start_inv ok R(2) by (simp add: store_ok_def)
  obtain v g1 where v: "(if deleteSpecific opts then gc_specific ?R (pathsToDelete opts) ?g0
      else if maxFreed opts > 0 then gc_entries ?R (entries I) ?g0 else Some (Inr (), ?g0)) = Some (v, g1)"
    using c by (auto simp: collectGarbage_def Let_def split: option.splits)
  have "gc_inv ?R (db st) fs g1 \<and> tempRoots g1 = tempRoots ?g0"
    using v start gc_specific_ok [OF _ start R(1)] gc_entries_ok [OF _ start R(1)] by (auto split: if_splits)
  moreover have "\<exists>x. g = g1\<lparr>results := x\<rparr>"
    using c v by (cases v) (auto simp: collectGarbage_def Let_def gc_finish_def addResultPaths_def split: if_splits intro: exI [of _ "results g1"])
  ultimately show ?thesis by (auto simp: gc_start_def)
qed

section \<open>Properties\<close>

text \<open>C1: the garbage collector never touches what is live. Whatever it is asked to do and however it ends (normally, by
reaching the limit of bytes to free, or with an error), a path that was valid and is reachable from a root through references,
and through derivation outputs and derivers as configured, is still valid, is not reported dead, and its file is still there.\<close>

theorem gc_safe:
  assumes "collectGarbage I opts st fs = Some (r, g)" and "env_ok (in_env I)" and "store_ok (in_env I) st"
    and "root \<in> set (temps I) \<or> (root \<in> set (permRoots I) \<and> \<not> ignoreLiveness opts)"
    and "(keeps (gc_run I opts) (db st))\<^sup>*\<^sup>* root p" and "isValidPath_db (e_storeDir (in_env I)) (db st) p"
  shows "isValidPath_db (e_storeDir (in_env I)) (db (gc_store g)) p \<and> p \<notin> set (dead g)
    \<and> (baseName p \<in> set fs \<longrightarrow> baseName p \<in> set (files g))"
proof -
  let ?R = "gc_run I opts"
  have dir: "run_dir ?R = e_storeDir (in_env I)" by (simp add: gc_run_def run_dir_def)
  have inv: "gc_inv ?R (db st) fs g" using collectGarbage_inv [OF assms(1-3)] by simp
  have "is_root ?R (tempRoots g) root" using assms(4) by (auto simp: is_root_def gc_run_def)
  then have dead: "p \<notin> set (dead g)" using inv doomed_not_live assms(5) unfolding gc_inv_split by blast
  then have "isValidPath_db (e_storeDir (in_env I)) (db (gc_store g)) p"
    using inv assms(6) by (auto simp: gc_inv_def shrunk_def gc_db_def dir)
  moreover have "\<not> not_store_name ?R (baseName p)"
  proof -
    have "sp_ok p" using valid_sp_ok assms(3,6) by (auto simp: store_ok_def)
    from maybeParse_sp_ok [OF store_canonical [OF assms(2)] this] show ?thesis
      by (simp add: not_store_name_def dir printStorePath_def)
  qed
  moreover have "baseName p \<notin> baseName ` set (dead g)" using dead by (metis (no_types, opaque_lifting) StorePath.expand imageE)
  ultimately show ?thesis using dead inv unfolding gc_inv_def by blast
qed

section \<open>Termination\<close>

lemma some_pairE:
  assumes "x \<noteq> None" obtains a b where "x = Some (a, b)"
  using assms by (cases x) auto

text \<open>The paths a search can reach: the valid ones, those in the cache of referrers, and those already seen.\<close>

definition candidates :: "GCRun \<Rightarrow> GCState \<Rightarrow> StorePath oset \<Rightarrow> StorePath set" where
  "candidates R g seen = {p. isValidPath_db (run_dir R) (gc_db g) p} \<union> (\<Union>x \<in> set (referrersCache g). set (snd x)) \<union> set seen"

definition visits_left :: "GCRun \<Rightarrow> GCState \<Rightarrow> StorePath oset \<Rightarrow> StorePath list \<Rightarrow> nat" where
  "visits_left R g seen todo = card (candidates R g seen - set seen) + length todo"

lemma finite_valid: "finite {p. isValidPath_db sd d p}"
proof -
  have "inj (printStorePath sd)" by (simp add: inj_def)
  then have "finite (printStorePath sd -` (row_path ` set (validPaths d)))" by (intro finite_vimageI) simp
  then show ?thesis by (simp add: valid_iff vimage_def)
qed

lemma finite_candidates [simp]: "finite (candidates R g seen)"
  by (simp add: candidates_def finite_valid)

lemma enqueue_count:
  "finite B \<Longrightarrow> set ps \<subseteq> B \<Longrightarrow>
   card (B - set (fst (fold enqueue ps q))) + length (snd (fold enqueue ps q)) = card (B - set (fst q)) + length (snd q)"
proof (induction ps arbitrary: q)
  case (Cons p ps)
  show ?case
  proof (cases "p \<in> set (fst q)")
    case False
    have "B - set (fst (enqueue p q)) = (B - set (fst q)) - {p}" using False by (auto simp: enqueue_def)
    moreover have "p \<in> B - set (fst q)" using False Cons.prems(2) by simp
    ultimately have "Suc (card (B - set (fst (enqueue p q)))) = card (B - set (fst q))"
      using Cons.prems(1) card_Suc_Diff1 [of "B - set (fst q)" p] by simp
    then show ?thesis using Cons.IH [of "enqueue p q"] Cons.prems False by (simp add: enqueue_def)
  qed (use Cons in \<open>simp add: enqueue_def\<close>)
qed simp

lemma ownOutputs_valid: "ownOutputs R d path outs = Inr os \<Longrightarrow> \<forall>q \<in> set os. isValidPath_db (run_dir R) d q"
proof (induction outs arbitrary: os)
  case (Cons outPath outs)
  show ?case
  proof (cases "isValidPath_db (run_dir R) d outPath")
    case True
    then obtain rest where "ownOutputs R d path outs = Inr rest" "set os \<subseteq> insert outPath (set rest)"
      using Cons.prems by (auto simp: bindr_eq_Inr_iff split: if_splits)
    then show ?thesis using Cons.IH [of rest] True by blast
  qed (use Cons in simp)
qed simp

lemma keptBy_valid:
  assumes "keptBy R d path = Inr ps" and "db_ok (run_dir R) d" and "canonical (run_dir R)"
  shows "\<forall>q \<in> set ps. isValidPath_db (run_dir R) d q"
proof -
  obtain vd where vd: "queryValidDerivers_db (run_dir R) d path = Inr vd" "set vd = {drv. produces (run_dir R) d drv path}"
    using queryValidDerivers_ok [OF assms(2,3)] by blast
  have "produces (run_dir R) d q path \<Longrightarrow> isValidPath_db (run_dir R) d q" for q by (auto simp: produces_def valid_iff image_iff) metis
  then have vd': "\<forall>q \<in> set vd. isValidPath_db (run_dir R) d q" using vd(2) by simp
  obtain os ds where "ps = os @ ds" "os = [] \<or> (\<exists>outs. ownOutputs R d path outs = Inr os)" "ds = [] \<or> ds = vd"
    using assms(1) vd(1) by (auto simp: keptBy_def bindr_eq_Inr_iff split: if_splits)
  then show ?thesis using vd' ownOutputs_valid [of R d path _ os] by auto
qed

lemma cachedReferrers_candidates:
  assumes "cachedReferrers R path g = (Inr rs, g')" and "db_ok (run_dir R) (gc_db g)" and "canonical (run_dir R)"
  shows "candidates R g' seen \<subseteq> candidates R g seen \<and> set rs \<subseteq> candidates R g' seen"
proof (cases "map_of (referrersCache g) path")
  case (Some rs')
  then show ?thesis using assms(1) by (auto simp: cachedReferrers_def candidates_def dest!: map_of_SomeD)
next
  case None
  obtain ps where ps: "queryReferrers_db (run_dir R) (gc_db g) path = Inr ps" "set ps = {q. refers (run_dir R) (gc_db g) q path}"
    using queryReferrers_ok [OF assms(2,3)] by blast
  then have g': "rs = ps" "g' = g\<lparr>referrersCache := omap_emplace path ps (referrersCache g)\<rparr>"
    using assms(1) None by (auto simp: cachedReferrers_def)
  have "set ps \<subseteq> {p. isValidPath_db (run_dir R) (gc_db g) p}" using refers_valid ps(2) by blast
  then show ?thesis using set_omap_emplace_sub [of path ps "referrersCache g"] unfolding g' candidates_def by fastforce
qed

lemma visitReferrers_count:
  assumes v: "visitReferrers R path seen todo g = Some (Inr (Visited s t), g')"
    and ok: "db_ok (run_dir R) (gc_db g)" "refs_cached R g" and canonical: "canonical (run_dir R)"
  shows "visits_left R g' s t \<le> visits_left R g seen todo"
proof (cases "isValidPath_db (run_dir R) (gc_db g) path")
  case True
  obtain rs ps where c: "cachedReferrers R path g = (Inr rs, g')" "keptBy R (gc_db g') path = Inr ps"
    "fold enqueue (rs @ ps) (seen, todo) = (s, t)"
    using v True by (auto simp: visitReferrers_def split: prod.splits sum.splits)
  have d: "gc_db g' = gc_db g" using cachedReferrers_ok [OF c(1) ok(2,1) canonical] by (simp add: frame_db)
  let ?B = "candidates R g' seen"
  have B: "?B \<subseteq> candidates R g seen" "set rs \<subseteq> ?B" using cachedReferrers_candidates [OF c(1) ok(1) canonical] by auto
  moreover have "set ps \<subseteq> ?B" using keptBy_valid [OF c(2)] ok(1) canonical d by (auto simp: candidates_def)
  ultimately have "set (rs @ ps) \<subseteq> ?B" by simp
  from enqueue_count [OF finite_candidates this, of "(seen, todo)"] have "card (?B - set s) + length t = card (?B - set seen) + length todo"
    using c(3) by simp
  moreover have "set s = set seen \<union> set (rs @ ps)" using enqueue_all [of "rs @ ps" "(seen, todo)"] c(3) by simp
  then have "candidates R g' s - set s = ?B - set s" using \<open>set (rs @ ps) \<subseteq> ?B\<close> by (auto simp: candidates_def)
  moreover have "card (?B - set seen) \<le> card (candidates R g seen - set seen)" using B(1) by (intro card_mono) auto
  ultimately show ?thesis by (simp add: visits_left_def)
qed (use v in \<open>simp add: visitReferrers_def\<close>)

lemma visits_left_update [simp]:
  "visits_left R (g\<lparr>pending := w\<rparr>) s t = visits_left R g s t" "visits_left R g s (p # t) = Suc (visits_left R g s t)"
  by (simp_all add: visits_left_def candidates_def)

text \<open>The closure computed for a live path stays within the valid paths.\<close>

lemma insertValid_valid: "insertValid store ps res = Inr res' \<Longrightarrow> set res' \<subseteq> set res \<union> {p. isValidPath store p = Inr True}"
  using insertValid_ok [of store ps res res'] by auto

lemma info_references_valid:
  assumes "db_ok sd d" and "canonical sd" and "queryPathInfo (db_queries sd d) p = Inr info"
  shows "\<forall>q \<in> set (references info). isValidPath_db sd d q"
proof -
  obtain row rs where row: "stmt_QueryPathInfo (printStorePath sd p) d = Some row"
    "parsePaths sd (stmt_QueryReferences (row_id row) d) = Inr rs" "references info = rs"
    using assms(3) by (auto simp: db_queries_def queryPathInfoInternal_def bindr_eq_Inr_iff split: option.splits)
  then show ?thesis using queryReferences_ok [OF assms(1,2) row(1)] refers_valid by auto
qed

lemma closureEdges_valid:
  assumes "closureEdges (db_queries sd d) False outs ders p = Inr es" and "db_ok sd d" and "canonical sd"
  shows "set es \<subseteq> {q. isValidPath_db sd d q}"
proof -
  obtain info where info: "queryPathInfo (db_queries sd d) p = Inr info" "queryDeps (db_queries sd d) outs ders p info = Inr es"
    using assms(1) by (auto simp: closureEdges_def bindr_eq_Inr_iff)
  have v: "isValidPath (db_queries sd d) q = Inr True \<longleftrightarrow> isValidPath_db sd d q" for q by (simp add: db_queries_def)
  show ?thesis
    using info(2) info_references_valid [OF assms(2,3) info(1)] unfolding queryDeps_def
    by (fastforce simp: bindr_eq_Inr_iff v dest!: insertValid_valid split: if_splits option.splits)
qed

lemma markAlive_total:
  assumes "db_ok (run_dir R) (gc_db g)" and "canonical (run_dir R)"
  shows "markAlive R start path g \<noteq> None"
proof -
  let ?q = "db_queries (run_dir R) (gc_db g)"
  let ?edges = "closureEdges ?q False (keepOutputs R) (keepDerivations R)"
  have "reach ?edges {path} \<subseteq> insert path {q. isValidPath_db (run_dir R) (gc_db g) q}"
    by (rule reach_least) (use closureEdges_valid [OF _ assms] in blast)+
  then have "finite (reach ?edges (set (oset_of [path])))" by (simp add: oset_of_def finite_subset [OF _ finite.insertI [OF finite_valid]])
  then have "computeClosureAsync (oset_of [path]) ?edges \<noteq> None"
    using computeClosureAsync_total [of ?edges "oset_of [path]"] by (auto simp: oset_of_def split: option.splits)
  then show ?thesis unfolding markAlive_def computeFSClosure1_def computeFSClosure_def Let_def
    by (auto split: option.splits sum.splits error.splits)
qed

lemma gc_visit_one_total:
  assumes "gc_inv R d0 fs g" and "canonical (run_dir R)"
  shows "gc_visit_one R start path seen todo g \<noteq> None"
  using markAlive_total [OF gc_inv_db [OF assms(1)] assms(2), of start path]
  by (auto simp: gc_visit_one_def bailOutAlive_def visitReferrers_def split: option.splits prod.splits sum.splits)

lemma gc_visit_one_count:
  assumes v: "gc_visit_one R start path seen todo g = Some (Inr (Visited s t), g')" and inv: "gc_inv R d0 fs g"
    and "canonical (run_dir R)"
  shows "visits_left R g' s t \<le> visits_left R g seen todo"
proof (cases "path \<in> set (dead g)")
  case True
  then show ?thesis using v by (auto simp: gc_visit_one_def split: if_splits)
next
  case False
  let ?g = "g\<lparr>pending := Some (hashPart path)\<rparr>"
  have "visitReferrers R path seen todo ?g = Some (Inr (Visited s t), g')"
    using v False bailOutAlive_frame [of R start path g "Inr (Visited s t)" g'] by (auto simp: gc_visit_one_def split: if_splits)
  moreover have "refs_cached R ?g" "db_ok (run_dir R) (gc_db ?g)" using inv gc_inv_db [OF inv] by (auto simp: gc_inv_def refs_cached_def)
  ultimately show ?thesis using visitReferrers_count [of R path seen todo ?g] assms(3) by simp
qed

lemma gc_visit_total:
  "visit_inv R d0 fs g seen todo \<Longrightarrow> canonical (run_dir R) \<Longrightarrow> gc_visit R start seen todo g \<noteq> None"
proof (induction "visits_left R g seen todo" arbitrary: g seen todo rule: less_induct)
  case less
  show ?case
  proof (cases todo)
    case Nil
    then show ?thesis by (simp add: gc_visit.simps)
  next
    case (Cons path todo')
    have inv: "gc_inv R d0 fs g" using less.prems(1) by (simp add: visit_inv_def)
    obtain v g1 where v: "gc_visit_one R start path seen todo' g = Some (v, g1)"
      using gc_visit_one_total [OF inv less.prems(2)] by (rule some_pairE)
    show ?thesis
    proof (cases "\<exists>s t. v = Inr (Visited s t)")
      case True
      then obtain s t where st: "v = Inr (Visited s t)" by blast
      have "visits_left R g1 s t < visits_left R g seen todo"
        using gc_visit_one_count [OF v [unfolded st] inv less.prems(2)] Cons by simp
      moreover have "visit_inv R d0 fs g1 s t" using gc_visit_one_ok [OF less.prems(1) [unfolded Cons] less.prems(2) v] st by blast
      ultimately have "gc_visit R start s t g1 \<noteq> None" using less.hyps less.prems(2) by blast
      then show ?thesis using v st unfolding Cons gc_visit.simps [of R start seen "path # todo'"] by simp
    next
      case False
      then show ?thesis using v unfolding Cons gc_visit.simps [of R start seen "path # todo'"]
        by (auto split: sum.splits visit.splits)
    qed
  qed
qed

lemma topoSortPaths_total: "topoSortPaths store ps \<noteq> None"
  using topoSortAsync_outcome [of ps "pathReferences store" pathCycleError] by (auto simp: topoSortPaths_def split: option.splits)

lemma deleteReferrersClosure_total:
  assumes "gc_inv R d0 fs g" and "env_ok (run_env R)"
  shows "deleteReferrersClosure R start g \<noteq> None"
proof -
  have "visit_inv R d0 fs g (oset_of [start]) [start]" using assms(1) by (simp add: visit_inv_def oset_of_def)
  from gc_visit_total [OF this] have "gc_visit R start (oset_of [start]) [start] g \<noteq> None"
    using store_canonical [OF assms(2)] by (simp add: run_dir_def)
  then show ?thesis
    by (auto simp: deleteReferrersClosure_def releasePending_def topoSortPaths_total split: option.splits sum.splits)
qed

lemma gc_specific_total: "gc_inv R d0 fs g \<Longrightarrow> env_ok (run_env R) \<Longrightarrow> gc_specific R is g \<noteq> None"
proof (induction "is" arbitrary: g)
  case (Cons i "is")
  obtain v g1 where v: "deleteReferrersClosure R i g = Some (v, g1)"
    using deleteReferrersClosure_total [OF Cons.prems] by (rule some_pairE)
  show ?case using v Cons.IH deleteReferrersClosure_ok [OF v Cons.prems] Cons.prems(2) by (cases v) auto
qed simp

lemma gc_entry_total: "gc_inv R d0 fs g \<Longrightarrow> env_ok (run_env R) \<Longrightarrow> gc_entry R name g \<noteq> None"
  using deleteReferrersClosure_total by (auto simp: gc_entry_def split: sum.splits option.splits)

lemma gc_entries_total: "gc_inv R d0 fs g \<Longrightarrow> env_ok (run_env R) \<Longrightarrow> gc_entries R names g \<noteq> None"
proof (induction names arbitrary: g)
  case (Cons name names)
  obtain v g1 where v: "gc_entry R name g = Some (v, g1)" using gc_entry_total [OF Cons.prems] by (rule some_pairE)
  show ?case using v Cons.IH gc_entry_ok [OF v Cons.prems] Cons.prems(2) by (auto split: sum.splits gc_exception.splits)
qed simp

lemma collectGarbage_total:
  assumes "env_ok (in_env I)" and "store_ok (in_env I) st"
  shows "collectGarbage I opts st fs \<noteq> None"
proof -
  let ?R = "gc_run I opts"
  have R: "env_ok (run_env ?R)" "run_dir ?R = e_storeDir (in_env I)" using assms(1) by (simp_all add: gc_run_def run_dir_def)
  have "gc_inv ?R (db st) fs (gc_start I st fs)" using gc_start_inv assms(2) R(2) by (simp add: store_ok_def)
  from gc_specific_total [OF this R(1), of "pathsToDelete opts"] gc_entries_total [OF this R(1), of "entries I"] show ?thesis
    by (auto simp: collectGarbage_def Let_def split: option.splits sum.splits)
qed

section \<open>Completeness\<close>

text \<open>
  An upper bound of what keeps a path alive. The closure that \<^verbatim>\<open>markAlive\<close> computes follows the deriver of a path without
  asking whether the path is among the outputs of the derivation, so it marks more paths than the search needs.
\<close>

definition has_deriver :: "string \<Rightarrow> DB \<Rightarrow> StorePath \<Rightarrow> StorePath \<Rightarrow> bool" where
  "has_deriver sd d q drv \<longleftrightarrow>
     (\<exists>r \<in> set (validPaths d). \<exists>s. row_path r = printStorePath sd q \<and> row_deriver r = Some s \<and> parseStorePath sd s = Inr drv)"

definition may_keep :: "GCRun \<Rightarrow> DB \<Rightarrow> StorePath \<Rightarrow> StorePath \<Rightarrow> bool" where
  "may_keep R d q p \<longleftrightarrow>
     refers (run_dir R) d q p
     \<or> (keepOutputs R \<and> isValidPath_db (run_dir R) d p \<and> produces (run_dir R) d q p)
     \<or> (keepDerivations R \<and> isValidPath_db (run_dir R) d p \<and> has_deriver (run_dir R) d q p)"

definition maybe_live :: "GCRun \<Rightarrow> DB \<Rightarrow> string oset \<Rightarrow> StorePath set" where
  "maybe_live R d temporary = {p. \<exists>root. is_root R temporary root \<and> (may_keep R d)\<^sup>*\<^sup>* root p}"

lemma may_keep_shrunk:
  assumes "shrunk (run_dir R) d0 S d" and "may_keep R d q p"
  shows "may_keep R d0 q p"
proof -
  have "set (validPaths d) \<subseteq> set (validPaths d0)" using assms(1) by (simp add: shrunk_def)
  then have "has_deriver (run_dir R) d q p \<Longrightarrow> has_deriver (run_dir R) d0 q p" unfolding has_deriver_def by blast
  then show ?thesis using assms unfolding may_keep_def shrunk_def by blast
qed

lemma info_deriver:
  assumes "db_ok sd d" and "queryPathInfo (db_queries sd d) q = Inr info" and "deriver info = Some p"
  shows "has_deriver sd d q p"
proof -
  obtain row where row: "stmt_QueryPathInfo (printStorePath sd q) d = Some row" "\<exists>s. row_deriver row = Some s \<and> parseStorePath sd s = Inr p"
    using assms(2,3) by (auto simp: db_queries_def queryPathInfoInternal_def bindr_eq_Inr_iff split: option.splits)
  then have "row \<in> set (validPaths d)" "row_path row = printStorePath sd q" using row_lookup [OF assms(1)] by blast+
  then show ?thesis using row(2) unfolding has_deriver_def by blast
qed

lemma info_references:
  assumes "db_ok sd d" and "canonical sd" and "queryPathInfo (db_queries sd d) p = Inr info"
  shows "set (references info) = {q. refers sd d p q}"
proof -
  obtain row rs where row: "stmt_QueryPathInfo (printStorePath sd p) d = Some row"
    "parsePaths sd (stmt_QueryReferences (row_id row) d) = Inr rs" "references info = rs"
    using assms(3) by (auto simp: db_queries_def queryPathInfoInternal_def bindr_eq_Inr_iff split: option.splits)
  then show ?thesis using queryReferences_ok [OF assms(1,2) row(1)] by auto
qed

lemma info_valid: "queryPathInfo (db_queries sd d) p = Inr info \<Longrightarrow> isValidPath_db sd d p"
  by (auto simp: db_queries_def queryPathInfoInternal_def isValidPath_db_def bindr_eq_Inr_iff split: option.splits)

lemma closureEdges_may_keep:
  assumes "closureEdges (db_queries (run_dir R) d) False (keepOutputs R) (keepDerivations R) p = Inr es"
    and "db_ok (run_dir R) d" and "canonical (run_dir R)" and "q \<in> set es"
  shows "may_keep R d p q"
proof -
  let ?q = "db_queries (run_dir R) d"
  obtain info where info: "queryPathInfo ?q p = Inr info" "queryDeps ?q (keepOutputs R) (keepDerivations R) p info = Inr es"
    using assms(1) by (auto simp: closureEdges_def bindr_eq_Inr_iff)
  have v: "isValidPath ?q x = Inr True \<longleftrightarrow> isValidPath_db (run_dir R) d x" for x by (simp add: db_queries_def)
  obtain outs where outs: "queryDerivationOutputMap ?q p = Inr outs" "\<And>x. x \<in> snd ` set outs \<longleftrightarrow> produces (run_dir R) d p x"
    using queryStaticDerivationOutputMap_ok [OF assms(2,3) info_valid [OF info(1)]] by (auto simp: db_queries_def)
  define refs0 where "refs0 = oset_of (filter (\<lambda>r. r \<noteq> p) (references info))"
  obtain res where res: "(if keepOutputs R \<and> isDerivation p then insertValid ?q (map snd outs) refs0 else Inr refs0) = Inr res"
    and es: "(if keepDerivations R then case deriver info of None \<Rightarrow> Inr res | Some d \<Rightarrow> insertValid ?q [d] res else Inr res) = Inr es"
    using info(2) outs(1) unfolding queryDeps_def refs0_def by (auto simp: bindr_eq_Inr_iff split: if_splits)
  have 1: "refers (run_dir R) d p x" if "x \<in> set refs0" for x
    using that info_references [OF assms(2,3) info(1)] by (auto simp: refs0_def)
  have 2: "may_keep R d p x" if "x \<in> set res" for x
    using res that 1 outs(2) by (auto simp: may_keep_def v dest!: insertValid_ok split: if_splits)
  show ?thesis
  proof (cases "q \<in> set res")
    case False
    then obtain x where x: "keepDerivations R" "deriver info = Some x" "insertValid ?q [x] res = Inr es"
      using es assms(4) by (auto split: if_splits option.splits)
    from insertValid_ok [OF x(3)] have "q = x" "isValidPath_db (run_dir R) d x" using False assms(4) v by auto
    then show ?thesis using info_deriver [OF assms(2) info(1) x(2)] x(1) by (simp add: may_keep_def)
  qed (use 2 in blast)
qed

text \<open>What the collector has found alive is live, what its cache of referrers holds are referrers, and what it has found dead it has deleted.\<close>

definition complete_inv :: "GCRun \<Rightarrow> DB \<Rightarrow> GCState \<Rightarrow> bool" where
  "complete_inv R d0 g \<longleftrightarrow>
     set (alive g) \<subseteq> maybe_live R d0 (tempRoots g)
     \<and> (\<forall>p rs. map_of (referrersCache g) p = Some rs \<longrightarrow> (\<forall>q \<in> set rs. refers (run_dir R) d0 q p))
     \<and> (shouldDelete R \<longrightarrow> shrunk (run_dir R) d0 (set (dead g)) (gc_db g) \<and> (\<forall>p \<in> set (dead g). path_ok (baseName p) \<longrightarrow> baseName p \<notin> set (files g)))"

lemma complete_inv_alive:
  "complete_inv R d0 g \<Longrightarrow> set a \<subseteq> maybe_live R d0 (tempRoots g) \<Longrightarrow> complete_inv R d0 (g\<lparr>alive := a\<rparr>)"
  by (simp add: complete_inv_def)

lemma complete_inv_update [simp]:
  "complete_inv R d0 (g\<lparr>pending := w\<rparr>) = complete_inv R d0 g" "complete_inv R d0 (g\<lparr>results := x\<rparr>) = complete_inv R d0 g"
  by (simp_all add: complete_inv_def)

definition found_from :: "GCRun \<Rightarrow> DB \<Rightarrow> StorePath \<Rightarrow> StorePath oset \<Rightarrow> bool" where
  "found_from R d0 start seen \<longleftrightarrow> start \<in> set seen \<and> (\<forall>p \<in> set seen. (may_keep R d0)\<^sup>*\<^sup>* p start)"

lemma maybe_live_keeps:
  "p \<in> maybe_live R d0 temporary \<Longrightarrow> (may_keep R d0)\<^sup>*\<^sup>* p q \<Longrightarrow> q \<in> maybe_live R d0 temporary"
  unfolding maybe_live_def by (blast intro: rtranclp_trans)

lemma root_live: "is_root R temporary p \<Longrightarrow> p \<in> maybe_live R d0 temporary"
  unfolding maybe_live_def by blast

lemma markAlive_live:
  assumes m: "markAlive R start path g = Some (r, g')" and inv: "gc_inv R d0 fs g" "complete_inv R d0 g" and c: "canonical (run_dir R)"
    and root: "is_root R (tempRoots g) path" and start: "(may_keep R d0)\<^sup>*\<^sup>* path start"
  shows "complete_inv R d0 g' \<and> start \<in> set (alive g') \<and> set (alive g) \<subseteq> set (alive g')"
proof -
  let ?L = "maybe_live R d0 (tempRoots g)"
  let ?edges = "closureEdges (db_queries (run_dir R) (gc_db g)) False (keepOutputs R) (keepDerivations R)"
  obtain S where S: "shrunk (run_dir R) d0 S (gc_db g)" using inv(1) by (auto simp: gc_inv_def)
  have path: "path \<in> ?L" using root by (rule root_live)
  then have 1: "set (oset_insert start (oset_insert path (alive g))) \<subseteq> ?L"
    using inv(2) maybe_live_keeps [OF path start] by (auto simp: complete_inv_def)
  have edge: "set es \<subseteq> ?L" if "x \<in> ?L" "?edges x = Inr es" for x es
  proof
    fix q assume "q \<in> set es"
    then have "may_keep R (gc_db g) x q" by (rule closureEdges_may_keep [OF that(2) gc_inv_db [OF inv(1)] c])
    then have "may_keep R d0 x q" by (rule may_keep_shrunk [OF S])
    then show "q \<in> ?L" using maybe_live_keeps [OF that(1)] by blast
  qed
  have reach: "reach ?edges {path} \<subseteq> ?L" using path by (intro reach_least edge) auto
  have "finite (reach ?edges {path})"
    by (rule finite_subset [OF _ finite.insertI [OF finite_valid]], rule reach_least)
      (use closureEdges_valid [OF _ gc_inv_db [OF inv(1)] c] in blast)+
  then have cl: "set closure \<subseteq> ?L"
    if "computeFSClosure1 (db_queries (run_dir R) (gc_db g)) path [] False (keepOutputs R) (keepDerivations R) = Some (Inr closure)" for closure
    using that computeClosureAsync_total [of ?edges "oset_of [path]"] reach
    by (auto simp: computeFSClosure1_def computeFSClosure_def oset_of_def bindr_eq_Inr_iff)
  obtain a where "g' = g\<lparr>alive := a\<rparr>" "start \<in> set a" "set a \<subseteq> ?L" "set (alive g) \<subseteq> set a"
    using m 1 cl unfolding markAlive_def Let_def by (fastforce split: option.splits sum.splits error.splits)
  then show ?thesis using complete_inv_alive [OF inv(2)] by simp
qed

lemma keptBy_may_keep:
  assumes "keptBy R d path = Inr ps" and "db_ok (run_dir R) d" and "canonical (run_dir R)" and "isValidPath_db (run_dir R) d path"
    and "q \<in> set ps"
  shows "may_keep R d q path"
proof -
  obtain vd where vd: "queryValidDerivers_db (run_dir R) d path = Inr vd" "set vd = {drv. produces (run_dir R) d drv path}"
    using queryValidDerivers_ok [OF assms(2,3)] by blast
  have own: "has_deriver (run_dir R) d q path" if "ownOutputs R d path outs = Inr os" "q \<in> set os" for outs os
    using that
  proof (induction outs arbitrary: os)
    case (Cons outPath outs)
    show ?case
    proof (cases "isValidPath_db (run_dir R) d outPath")
      case True
      then obtain info rest where i: "queryPathInfo (db_queries (run_dir R) d) outPath = Inr info" "ownOutputs R d path outs = Inr rest"
        "os = (if deriver info = Some path then outPath # rest else rest)"
        using Cons.prems(1) by (auto simp: bindr_eq_Inr_iff)
      then show ?thesis using Cons.IH [OF i(2)] Cons.prems(2) info_deriver [OF assms(2) i(1)] by (auto split: if_splits)
    qed (use Cons in simp)
  qed simp
  show ?thesis using assms(1,4,5) vd own by (auto simp: keptBy_def may_keep_def bindr_eq_Inr_iff split: if_splits) blast
qed

lemma cachedReferrers_complete:
  assumes c: "cachedReferrers R path g = (Inr rs, g')" and inv: "gc_inv R d0 fs g" "complete_inv R d0 g" and "canonical (run_dir R)"
  shows "complete_inv R d0 g' \<and> (\<forall>q \<in> set rs. may_keep R d0 q path) \<and> alive g' = alive g"
proof (cases "map_of (referrersCache g) path")
  case (Some rs')
  then show ?thesis using c inv(2) by (auto simp: cachedReferrers_def complete_inv_def may_keep_def)
next
  case None
  obtain S where S: "shrunk (run_dir R) d0 S (gc_db g)" using inv(1) by (auto simp: gc_inv_def)
  obtain ps where ps: "queryReferrers_db (run_dir R) (gc_db g) path = Inr ps" "set ps = {q. refers (run_dir R) (gc_db g) q path}"
    using queryReferrers_ok [OF gc_inv_db [OF inv(1)] assms(4)] by blast
  then have g': "rs = ps" "g' = g\<lparr>referrersCache := omap_emplace path ps (referrersCache g)\<rparr>"
    using c None by (auto simp: cachedReferrers_def)
  have refs: "\<forall>q \<in> set ps. refers (run_dir R) d0 q path" using ps(2) S by (auto simp: shrunk_def)
  have "omap_ok (referrersCache g)" using inv(1) by (simp add: gc_inv_def refs_cached_def)
  then have "complete_inv R d0 g'" using inv(2) refs None unfolding complete_inv_def g'
    by (elim conjE) (simp add: map_of_omap_emplace)
  then show ?thesis using refs g' by (simp add: may_keep_def)
qed

lemma found_from_enqueue:
  assumes "found_from R d0 start seen" and "path \<in> set seen" and "\<forall>q \<in> set ps. may_keep R d0 q path"
  shows "found_from R d0 start (fst (fold enqueue ps (seen, todo)))"
proof -
  have "(may_keep R d0)\<^sup>*\<^sup>* q start" if "q \<in> set ps" for q
    using assms that unfolding found_from_def by (blast intro: converse_rtranclp_into_rtranclp)
  then show ?thesis using assms(1) enqueue_all [of ps "(seen, todo)"] by (auto simp: found_from_def)
qed

lemma gc_visit_one_complete:
  assumes v: "gc_visit_one R start path seen todo g = Some (Inr r, g')" and inv: "visit_inv R d0 fs g seen (path # todo)"
    and comp: "complete_inv R d0 g" and found: "found_from R d0 start seen" and c: "canonical (run_dir R)"
  shows "complete_inv R d0 g' \<and> set (alive g) \<subseteq> set (alive g') \<and> (case r of BailOut \<Rightarrow> start \<in> set (alive g') | Visited s t \<Rightarrow> found_from R d0 start s)"
proof -
  have ginv: "gc_inv R d0 fs g" and path: "path \<in> set seen" using inv by (auto simp: visit_inv_def)
  have start: "(may_keep R d0)\<^sup>*\<^sup>* path start" using found path by (simp add: found_from_def)
  consider "path \<in> set (alive g)" | "path \<notin> set (alive g)" "path \<in> set (dead g)"
    | "path \<notin> set (alive g)" "path \<notin> set (dead g)" "is_root R (tempRoots g) path"
    | "path \<notin> set (alive g)" "path \<notin> set (dead g)" "\<not> is_root R (tempRoots g) path" by blast
  then show ?thesis
  proof cases
    case 1
    then have "start \<in> maybe_live R d0 (tempRoots g)" using comp maybe_live_keeps [OF _ start] by (auto simp: complete_inv_def)
    then have "complete_inv R d0 (g\<lparr>alive := oset_insert start (alive g)\<rparr>)"
      using complete_inv_alive [OF comp, of "oset_insert start (alive g)"] comp by (auto simp: complete_inv_def)
    then show ?thesis using v 1 by (auto simp: gc_visit_one_def)
  next
    case 2
    then show ?thesis using v comp found by (auto simp: gc_visit_one_def)
  next
    case 3
    then have "bailOutAlive R start path g = Some (Inr r, g')" using v by (auto simp: gc_visit_one_def is_root_def split: if_splits)
    then have "r = BailOut" "\<exists>u. markAlive R start path g = Some (u, g')"
      by (auto simp: bailOutAlive_def split: option.splits prod.splits sum.splits)
    then show ?thesis using markAlive_live [OF _ ginv comp c 3(3) start] by auto
  next
    case 4
    let ?g = "g\<lparr>pending := Some (hashPart path)\<rparr>"
    have vr: "visitReferrers R path seen todo ?g = Some (Inr r, g')"
      using v 4 by (auto simp: gc_visit_one_def is_root_def split: if_splits)
    show ?thesis
    proof (cases "isValidPath_db (run_dir R) (gc_db ?g) path")
      case True
      obtain rs ps s t where x: "cachedReferrers R path ?g = (Inr rs, g')" "keptBy R (gc_db g') path = Inr ps"
        "fold enqueue (rs @ ps) (seen, todo) = (s, t)" "r = Visited s t"
        using vr True by (auto simp: visitReferrers_def split: prod.splits sum.splits)
      have g: "gc_inv R d0 fs ?g" "complete_inv R d0 ?g" "refs_cached R ?g" using ginv comp by (simp_all add: gc_inv_def refs_cached_def)
      have d: "gc_db g' = gc_db g" using frame_db cachedReferrers_ok [OF x(1) g(3) gc_inv_db [OF g(1)] c] by fastforce
      obtain S where S: "shrunk (run_dir R) d0 S (gc_db g)" using ginv by (auto simp: gc_inv_def)
      have "may_keep R d0 q path" if "q \<in> set ps" for q
        using may_keep_shrunk [OF S] keptBy_may_keep [OF x(2) _ c _ that] gc_inv_db [OF ginv] True d by simp
      then have "\<forall>q \<in> set (rs @ ps). may_keep R d0 q path" using cachedReferrers_complete [OF x(1) g(1,2) c] by auto
      from found_from_enqueue [OF found path this, of todo] show ?thesis
        using cachedReferrers_complete [OF x(1) g(1,2) c] x(3,4) by simp
    qed (use vr comp found in \<open>auto simp: visitReferrers_def\<close>)
  qed
qed

lemma gc_visit_complete:
  assumes "gc_visit R start seen todo g = Some (Inr r, g')"
  shows "visit_inv R d0 fs g seen todo \<Longrightarrow> canonical (run_dir R) \<Longrightarrow> complete_inv R d0 g \<Longrightarrow> found_from R d0 start seen \<Longrightarrow>
    complete_inv R d0 g' \<and> set (alive g) \<subseteq> set (alive g') \<and> (case r of None \<Rightarrow> start \<in> set (alive g') | Some V \<Rightarrow> start \<in> set V)"
proof -
  let ?Q = "\<lambda>R start seen todo g. visit_inv R d0 fs g seen todo \<and> canonical (run_dir R) \<and> complete_inv R d0 g \<and> found_from R d0 start seen"
  let ?C = "\<lambda>R start (r :: gc_exception + StorePath oset option) g g'. \<forall>x. r = Inr x \<longrightarrow> complete_inv R d0 g' \<and> set (alive g) \<subseteq> set (alive g') \<and> (case x of None \<Rightarrow> start \<in> set (alive g') | Some V \<Rightarrow> start \<in> set V)"
  let ?P = "\<lambda>R start seen todo g (r, g'). ?Q R start seen todo g \<longrightarrow> ?C R start r g g'"
  have "?P R start seen todo g (Inr r, g')"
  proof (rule gc_visit.raw_induct [OF _ assms, where P = ?P])
    fix self R start seen todo g and res :: "(gc_exception + StorePath oset option) \<times> GCState"
    assume IH: "\<And>R start seen todo g y. self R start seen todo g = Some y \<Longrightarrow> ?P R start seen todo g y"
      and eq: "(case todo of [] \<Rightarrow> Some (Inr (Some seen), g)
        | path # todo' \<Rightarrow>
          (case gc_visit_one R start path seen todo' g of
             None \<Rightarrow> None
           | Some (Inl e, g') \<Rightarrow> Some (Inl e, g')
           | Some (Inr BailOut, g') \<Rightarrow> Some (Inr None, g')
           | Some (Inr (Visited seen' todo''), g') \<Rightarrow> self R start seen' todo'' g')) = Some res"
    obtain r g' where res: "res = (r, g')" by fastforce
    have "?C R start r g g'" if Q: "?Q R start seen todo g"
    proof (cases todo)
      case Nil
      then show ?thesis using eq res Q by (auto simp: found_from_def)
    next
      case (Cons path todo')
      then obtain v g1 where v: "gc_visit_one R start path seen todo' g = Some (v, g1)"
        using eq by (auto split: option.splits)
      have vi: "visit_inv R d0 fs g seen (path # todo')" and c: "canonical (run_dir R)" using Q Cons by auto
      consider e where "v = Inl e" | "v = Inr BailOut" | s t where "v = Inr (Visited s t)" by (metis sumE visit.exhaust)
      then show ?thesis
      proof cases
        case 2
        then show ?thesis using eq Cons v res gc_visit_one_complete [OF v [unfolded 2] vi _ _ c] Q by auto
      next
        case (3 s t)
        then have "self R start s t g1 = Some (r, g')" using eq Cons v res by simp
        from IH [OF this] show ?thesis
          using gc_visit_one_complete [OF v [unfolded 3] vi _ _ c] gc_visit_one_ok [OF vi c v] Q 3 by (simp, blast)
      qed (use eq Cons v res in auto)
    qed
    then show "?P R start seen todo g res" using res by simp
  qed
  then show "visit_inv R d0 fs g seen todo \<Longrightarrow> canonical (run_dir R) \<Longrightarrow> complete_inv R d0 g \<Longrightarrow> found_from R d0 start seen \<Longrightarrow>
    complete_inv R d0 g' \<and> set (alive g) \<subseteq> set (alive g') \<and> (case r of None \<Rightarrow> start \<in> set (alive g') | Some V \<Rightarrow> start \<in> set V)" by simp
qed

text \<open>A store path does not have the name of a temporary directory.\<close>

lemma store_name_no_tmp: "path_ok name \<Longrightarrow> \<not> prefix ''tmp-'' name"
proof
  assume ok: "path_ok name" and "prefix ''tmp-'' name"
  then have "CHR ''t'' \<in> set (take HASH_PART_LEN name)" by (auto simp: prefix_def HASH_PART_LEN_def)
  then have "CHR ''t'' \<in> set base32Chars" using ok by (simp add: path_ok_def)
  moreover have "CHR ''t'' \<notin> set base32Chars" by code_simp
  ultimately show False by simp
qed

lemma deleteFromStore_removes:
  assumes "deleteFromStore R name g = (r, g')"
  shows "gc_store g' = gc_store g \<and> dead g' = dead g \<and> alive g' = alive g \<and> referrersCache g' = referrersCache g
    \<and> tempRoots g' = tempRoots g \<and> set (files g') \<subseteq> set (files g) \<and> (path_ok name \<longrightarrow> name \<notin> set (files g'))"
  using assms store_name_no_tmp [of name] by (auto simp: deleteFromStore_def Let_def split: if_splits)

lemma deleteDead_complete:
  assumes d: "deleteDead R path (g\<lparr>dead := oset_insert path (dead g)\<rparr>) = (Inr u, g')" and inv: "complete_inv R d0 g" "refs_cached R g"
    and del: "shouldDelete R" and E: "env_ok (run_env R)" and free: "\<And>q. refers (run_dir R) (gc_db g) q path \<Longrightarrow> q = path"
  shows "complete_inv R d0 g' \<and> dead g' = oset_insert path (dead g) \<and> alive g' = alive g"
proof -
  let ?g = "g\<lparr>dead := oset_insert path (dead g)\<rparr>"
  obtain r1 st where i: "invalidatePathChecked (run_env R) path (gc_store g) = (r1, st)" by fastforce
  have s: "shrunk (run_dir R) d0 (set (dead g)) (gc_db g)" using inv(1) del by (simp add: complete_inv_def)
  then have "store_ok (run_env R) (gc_store g)" by (simp add: store_ok_def shrunk_def run_dir_def gc_db_def)
  from invalidatePathChecked_free [OF E this, of path] free i have "r1 = Inr ()" by (auto simp: run_dir_def gc_db_def)
  with shrunk_invalidate [OF E _ i] s have r1: "r1 = Inr ()" "shrunk (run_dir R) d0 (insert path (set (dead g))) (db st)"
    by (auto simp: run_dir_def gc_db_def)
  obtain r2 g2 where g2: "deleteFromStore R (baseName path) (?g\<lparr>gc_store := st\<rparr>) = (r2, g2)" by fastforce
  have g': "g' = g2\<lparr>referrersCache := omap_erase path (referrersCache g2)\<rparr>"
    using d i r1(1) g2 by (auto simp: deleteDead_def split: sum.splits)
  from deleteFromStore_removes [OF g2] have f: "gc_store g2 = st" "dead g2 = oset_insert path (dead g)" "alive g2 = alive g"
    "referrersCache g2 = referrersCache g" "tempRoots g2 = tempRoots g" "set (files g2) \<subseteq> set (files g)"
    "path_ok (baseName path) \<Longrightarrow> baseName path \<notin> set (files g2)" by auto
  have "omap_ok (referrersCache g)" using inv(2) by (simp add: refs_cached_def)
  moreover have "\<forall>p \<in> set (dead g'). path_ok (baseName p) \<longrightarrow> baseName p \<notin> set (files g')"
    using inv(1) del f(2,6,7) g' by (auto simp: complete_inv_def)
  ultimately have "complete_inv R d0 g'" using inv(1) r1(2) f(1-5) del unfolding complete_inv_def g'
    by (elim conjE) (simp add: map_of_omap_erase gc_db_def)
  then show ?thesis using g' f by simp
qed

text \<open>Deleting referrers first, no path is in use when its turn comes.\<close>

definition deletable :: "GCRun \<Rightarrow> DB \<Rightarrow> StorePath set \<Rightarrow> GCState \<Rightarrow> StorePath list \<Rightarrow> bool" where
  "deletable R d0 D g ps \<longleftrightarrow>
     D \<subseteq> set (dead g) \<and> (\<forall>p \<in> set ps - set (dead g). \<forall>q. refers (run_dir R) d0 q p \<longrightarrow> q \<in> set ps \<union> set (dead g))
     \<and> sorted_wrt (\<lambda>p q. refers (run_dir R) d0 q p \<longrightarrow> q \<in> D) ps"

lemma deletable_step:
  assumes "deletable R d0 D g (p # ps)" and "set (dead g') = insert p (set (dead g))"
  shows "deletable R d0 D g' ps"
  using assms unfolding deletable_def by auto

lemma deletable_free:
  assumes "deletable R d0 D g (p # ps)" and "p \<notin> set (dead g)" and "shrunk (run_dir R) d0 (set (dead g)) (gc_db g)" and "refers (run_dir R) (gc_db g) q p"
  shows "q = p"
  using assms unfolding deletable_def shrunk_def by auto

lemma deleteAll_complete:
  "deleteAll R ps g = (Inr u, g') \<Longrightarrow> complete_inv R d0 g \<Longrightarrow> gc_part R d0 fs g \<Longrightarrow> env_ok (run_env R) \<Longrightarrow> deletable R d0 D g ps \<Longrightarrow>
   complete_inv R d0 g' \<and> set ps \<subseteq> set (dead g') \<and> set (dead g) \<subseteq> set (dead g') \<and> alive g' = alive g"
proof (induction R ps g rule: deleteAll.induct)
  case (2 R path paths g)
  let ?g = "g\<lparr>dead := oset_insert path (dead g)\<rparr>"
  show ?case
  proof (cases "path \<in> set (dead g)")
    case True
    have "deletable R d0 D g paths" using deletable_step [OF "2.prems"(5), of g] True by (simp add: insert_absorb)
    then show ?thesis using 2 True by auto
  next
    case new: False
    have part: "gc_part R d0 fs ?g" using "2.prems"(3) unfolding gc_part_def refs_cached_def by (auto simp: gc_db_def)
    show ?thesis
    proof (cases "shouldDelete R")
      case True
      obtain r2 g2 where d: "deleteDead R path ?g = (r2, g2)" by fastforce
      then obtain w where w: "r2 = Inr w" "deleteAll R paths g2 = (Inr u, g')"
        using "2.prems"(1) new True by (auto simp: Let_def split: sum.splits)
      have s: "shrunk (run_dir R) d0 (set (dead g)) (gc_db g)" using "2.prems"(2) True by (simp add: complete_inv_def)
      have rc: "refs_cached R g" using "2.prems"(3) by (simp add: gc_part_def)
      from deleteDead_complete [OF d [unfolded w(1)] "2.prems"(2) rc True "2.prems"(4) deletable_free [OF "2.prems"(5) new s]]
      have g2: "complete_inv R d0 g2" "dead g2 = oset_insert path (dead g)" "alive g2 = alive g" by auto
      have "gc_part R d0 fs g2" using deleteDead_ok [OF d part _ "2.prems"(4)] by simp
      from "2.IH"(2) [OF new refl True d [symmetric] w(1) w(2) g2(1) this "2.prems"(4) deletable_step [OF "2.prems"(5)]]
      show ?thesis using g2(2,3) by auto
    next
      case False
      have "deleteAll R paths ?g = (Inr u, g')" using "2.prems"(1) new False by (simp add: Let_def)
      moreover have "complete_inv R d0 ?g" using "2.prems"(2) False by (simp add: complete_inv_def)
      ultimately show ?thesis using "2.IH"(3) [OF new refl False _ _ part "2.prems"(4) deletable_step [OF "2.prems"(5)]] by auto
    qed
  qed
qed auto

text \<open>Reading a row of the database never fails the way a missing path does.\<close>

definition no_missing :: "'a result \<Rightarrow> bool" where
  "no_missing r \<longleftrightarrow> (\<forall>m. r \<noteq> Inl (InvalidPath m))"

lemma no_missing_simps [simp]: "no_missing (Inr x)" "no_missing (Inl e) \<longleftrightarrow> (\<forall>m. e \<noteq> InvalidPath m)"
  by (simp_all add: no_missing_def)

lemma no_missing_bind [simp]: "no_missing (bindr a f) \<longleftrightarrow> no_missing a \<and> (\<forall>x. a = Inr x \<longrightarrow> no_missing (f x))"
  by (cases a) auto

lemma no_missing_if [simp]: "no_missing (if b then x else y) \<longleftrightarrow> (if b then no_missing x else no_missing y)"
  by simp

lemma no_missing_base32: "no_missing (base32Decode s)"
proof -
  have "no_missing (base32Decode_loop res n cs)" for res n cs
    by (induction res n cs rule: base32Decode_loop.induct) (simp add: Let_def split: option.splits)+
  then show ?thesis by (simp add: base32Decode_def)
qed

lemma no_missing_base64: "no_missing (base64Decode s)"
proof -
  have "no_missing (base64Decode_loop d bits s)" for d bits s
    by (induction d bits s rule: base64Decode_loop.induct) (simp add: Let_def split: option.splits)+
  then show ?thesis by (simp add: base64Decode_def)
qed

lemma no_missing_hash: "no_missing (hashOfRest rest t sri)"
  by (simp add: hashOfRest_def Let_def no_missing_base32 no_missing_base64 split: sum.splits)

lemma no_missing_hash_type: "no_missing (parseHashType s)"
  by (simp add: parseHashType_def split: option.splits)

lemma no_missing_any_hash: "no_missing (parseNarHash s)"
proof -
  have "no_missing (parseAnyPrefixed s)"
    by (auto simp: parseAnyPrefixed_def getParsedTypeAndSRI_def no_missing_hash no_missing_hash_type split: prod.splits option.splits)
  then show ?thesis by (auto simp: parseNarHash_def no_missing_def split: sum.splits error.splits)
qed

lemma no_missing_ca: "no_missing (ca_parseOpt s)"
proof -
  have "no_missing (parseCaHashType r)" for r
    by (simp add: parseCaHashType_def no_missing_hash_type split: prod.splits option.splits)
  then have "no_missing (parseContentAddressMethodPrefix s)"
    by (simp add: parseContentAddressMethodPrefix_def Let_def split: prod.splits option.splits)
  then show ?thesis by (simp add: ca_parseOpt_def ca_parse_def parseNonSRIUnprefixed_def no_missing_hash split: prod.splits)
qed

lemma no_missing_checkName: "no_missing (checkName s)"
  by (simp add: checkName_def)

lemma no_missing_path: "no_missing (parseStorePath sd s)"
proof -
  have "no_missing (canonPath no_links s False)"
    using canonPath_refines [of s no_links] by (cases "s = [] \<or> hd s \<noteq> slash") (auto simp: canonPath_def)
  then show ?thesis by (simp add: parseStorePath_def newStorePath_def no_missing_checkName)
qed

lemma row_readable:
  assumes "db_ok sd d" and "canonical sd" and "isValidPath_db sd d p"
  shows "no_missing (queryPathInfo (db_queries sd d) p)"
proof -
  obtain row where row: "stmt_QueryPathInfo (printStorePath sd p) d = Some row" using assms(3) by (auto simp: isValidPath_db_def)
  obtain rs where rs: "parsePaths sd (stmt_QueryReferences (row_id row) d) = Inr rs" using queryReferences_ok [OF assms(1,2) row] by blast
  have der: "no_missing (case row_deriver row of None \<Rightarrow> Inr None | Some d \<Rightarrow> bindr (parseStorePath sd d) (\<lambda>p. Inr (Some p)))"
    and ca: "no_missing (case row_ca row of None \<Rightarrow> Inr None | Some c \<Rightarrow> ca_parseOpt c)"
    by (simp_all add: no_missing_path no_missing_ca split: option.splits)
  show ?thesis unfolding db_queries_def StoreQueries.simps queryPathInfoInternal_def row option.case no_missing_bind rs
    by (simp only: no_missing_any_hash der ca no_missing_simps simp_thms bindr_eq_Inr_iff)
      (auto simp: no_missing_simps)
qed

lemma path_references_known:
  assumes "db_ok sd d" and "canonical sd" and "refers sd d q p" and "\<not> isl (pathReferences (db_queries sd d) q)"
  shows "p \<in> set (known (pathReferences (db_queries sd d)) q)"
proof -
  have "no_missing (queryPathInfo (db_queries sd d) q)" using row_readable [OF assms(1,2)] refers_valid [OF assms(3)] by blast
  then obtain info where info: "queryPathInfo (db_queries sd d) q = Inr info"
    using assms(4) by (cases "queryPathInfo (db_queries sd d) q") (auto simp: pathReferences_def split: error.splits)
  then show ?thesis using info_references [OF assms(1,2) info] assms(3) by (simp add: known_def pathReferences_def)
qed

lemma sorted_deletable:
  assumes inv: "visit_inv R d0 fs g V []" and c: "canonical (run_dir R)"
    and topo: "topoSortPaths (db_queries (run_dir R) (gc_db g)) V = Some (Inr ps)"
  shows "deletable R d0 (set (dead g)) g ps"
proof -
  let ?q = "db_queries (run_dir R) (gc_db g)"
  have t: "distinct ps" "set ps = set V" "\<forall>x \<in> set V. \<not> isl (pathReferences ?q x)" "references_after (edges V (known (pathReferences ?q))) ps"
    using topoSortAsync_outcome [of V "pathReferences ?q" pathCycleError] topo by (auto simp: topoSortPaths_def)
  obtain S where S: "S \<subseteq> set (dead g)" "shrunk (run_dir R) d0 S (gc_db g)" using inv by (auto simp: visit_inv_def gc_inv_def)
  have db: "db_ok (run_dir R) (gc_db g)" using inv by (auto simp: visit_inv_def dest: gc_inv_db)
  have edge: "(q, p) \<in> edges V (known (pathReferences ?q))"
    if "refers (run_dir R) d0 q p" "q \<notin> set (dead g)" "p \<in> set V" "q \<in> set V" "p \<noteq> q" for p q
  proof -
    have "refers (run_dir R) (gc_db g) q p" using S that(1,2) by (auto simp: shrunk_def)
    then show ?thesis using path_references_known [OF db c] t(3) that by (auto simp: edges_def)
  qed
  have "sorted_wrt (\<lambda>p q. refers (run_dir R) d0 q p \<longrightarrow> q \<in> set (dead g)) ps"
    using t(1,4) equalityD1 [OF t(2)]
  proof (induction ps)
    case (Cons p ps)
    have "q \<in> set (dead g)" if "q \<in> set ps" "refers (run_dir R) d0 q p" for q
    proof (rule ccontr)
      assume "q \<notin> set (dead g)"
      then have e: "(q, p) \<in> edges V (known (pathReferences ?q))" using edge [OF that(2)] that(1) Cons.prems by auto
      have "references_after E xs \<Longrightarrow> (x, y) \<in> E \<Longrightarrow> x \<in> set xs \<Longrightarrow> y \<in> set xs" for E x y and xs :: "StorePath list"
        by (induction xs) auto
      from this [OF _ e that(1)] show False using Cons.prems by simp
    qed
    then show ?case using Cons by auto
  qed simp
  moreover have "\<forall>p \<in> set ps - set (dead g). \<forall>q. refers (run_dir R) d0 q p \<longrightarrow> q \<in> set ps \<union> set (dead g)"
    using inv t(2) by (auto simp: visit_inv_def processed_def keeps_def)
  ultimately show ?thesis by (simp add: deletable_def)
qed

lemma deleteReferrersClosure_complete:
  assumes d: "deleteReferrersClosure R start g = Some (Inr u, g')" and inv: "gc_inv R d0 fs g" "complete_inv R d0 g" and E: "env_ok (run_env R)"
  shows "complete_inv R d0 g' \<and> start \<in> set (alive g') \<union> set (dead g') \<and> set (alive g) \<subseteq> set (alive g') \<and> set (dead g) \<subseteq> set (dead g')"
proof -
  have c: "canonical (run_dir R)" using E by (simp add: run_dir_def store_canonical)
  have start: "visit_inv R d0 fs g (oset_of [start]) [start]" using inv(1) by (simp add: visit_inv_def oset_of_def)
  have found: "found_from R d0 start (oset_of [start])" by (simp add: found_from_def oset_of_def)
  obtain v g1 where v: "gc_visit R start (oset_of [start]) [start] g = Some (Inr v, g1)"
    using d by (auto simp: deleteReferrersClosure_def releasePending_def split: option.splits sum.splits)
  from gc_visit_ok [OF v start c] have g1: "frame g g1" "gc_inv R d0 fs g1" "\<And>V. v = Some V \<Longrightarrow> visit_inv R d0 fs g1 V []" by auto
  from gc_visit_complete [OF v start c inv(2) found] have k: "complete_inv R d0 g1" "set (alive g) \<subseteq> set (alive g1)"
    "case v of None \<Rightarrow> start \<in> set (alive g1) | Some V \<Rightarrow> start \<in> set V" by auto
  have dd: "dead g1 = dead g" using g1(1) by (simp add: frame_def)
  show ?thesis
  proof (cases v)
    case None
    then have "g' = g1\<lparr>pending := None\<rparr>" using d v by (simp add: deleteReferrersClosure_def releasePending_def)
    then show ?thesis using k dd None by simp
  next
    case (Some V)
    then obtain ps g2 where ps: "topoSortPaths (db_queries (run_dir R) (gc_db g1)) V = Some (Inr ps)" "deleteAll R ps g1 = (Inr u, g2)"
      "g' = g2\<lparr>pending := None\<rparr>"
      using d v by (auto simp: deleteReferrersClosure_def releasePending_def split: option.splits sum.splits prod.splits)
    have part: "gc_part R d0 fs g1" using g1(2) by (simp add: gc_inv_split)
    from deleteAll_complete [OF ps(2) k(1) part E sorted_deletable [OF g1(3) [OF Some] c ps(1)]] topoSortPaths_set [OF ps(1)]
    show ?thesis using k(2,3) dd Some ps(3) by auto
  qed
qed

text \<open>The limit stops a run only when it has freed more bytes.\<close>

definition limit_exceeded :: "GCRun \<Rightarrow> (gc_exception + 'a) \<times> GCState \<Rightarrow> bool" where
  "limit_exceeded R res \<longleftrightarrow> (fst res = Inl GCLimitReached \<longrightarrow> bytesFreed (results (snd res)) > limit R)"

lemma deleteFromStore_limit: "limit_exceeded R (deleteFromStore R name g)"
  by (simp add: limit_exceeded_def deleteFromStore_def Let_def)

lemma deleteDead_limit: "limit_exceeded R (deleteDead R path g)"
proof -
  obtain r st where i: "invalidatePathChecked (run_env R) path (gc_store g) = (r, st)" by fastforce
  obtain r2 g2 where d: "deleteFromStore R (baseName path) (g\<lparr>gc_store := st\<rparr>) = (r2, g2)" by fastforce
  have "limit_exceeded R (r2, g2)" using deleteFromStore_limit d by metis
  then show ?thesis using i d by (cases r; cases r2) (auto simp: limit_exceeded_def deleteDead_def split: error.splits)
qed

lemma deleteAll_limit: "limit_exceeded R (deleteAll R ps g)"
proof (induction R ps g rule: deleteAll.induct)
  case (2 R path paths g)
  obtain r2 g2 where d: "deleteDead R path (g\<lparr>dead := oset_insert path (dead g)\<rparr>) = (r2, g2)" by fastforce
  have "limit_exceeded R (r2, g2)" using deleteDead_limit d by metis
  then show ?case using 2 d by (cases r2) (auto simp: limit_exceeded_def Let_def)
qed (simp add: limit_exceeded_def)

lemma gc_visit_one_limit: "gc_visit_one R start path seen todo g \<noteq> Some (Inl GCLimitReached, g')"
  by (auto simp: gc_visit_one_def bailOutAlive_def markAlive_def visitReferrers_def Let_def
      split: option.splits prod.splits sum.splits error.splits)

lemma gc_visit_limit:
  assumes "gc_visit R start seen todo g = Some y"
  shows "fst y \<noteq> Inl GCLimitReached"
proof (rule gc_visit.raw_induct [OF _ assms, where P = "\<lambda>R start seen todo g y. fst y \<noteq> Inl GCLimitReached"])
  fix self R start seen todo g and y :: "(gc_exception + StorePath oset option) \<times> GCState"
  assume IH: "\<And>R start seen todo g y. self R start seen todo g = Some y \<Longrightarrow> fst y \<noteq> Inl GCLimitReached"
    and eq: "(case todo of [] \<Rightarrow> Some (Inr (Some seen), g)
      | path # todo' \<Rightarrow>
        (case gc_visit_one R start path seen todo' g of
           None \<Rightarrow> None
         | Some (Inl e, g') \<Rightarrow> Some (Inl e, g')
         | Some (Inr BailOut, g') \<Rightarrow> Some (Inr None, g')
         | Some (Inr (Visited seen' todo''), g') \<Rightarrow> self R start seen' todo'' g')) = Some y"
  then show "fst y \<noteq> Inl GCLimitReached"
    using gc_visit_one_limit by (auto split: list.splits option.splits prod.splits sum.splits visit.splits)
qed

lemma deleteReferrersClosure_limit:
  assumes "deleteReferrersClosure R start g = Some y"
  shows "limit_exceeded R y"
proof -
  obtain v g1 where v: "gc_visit R start (oset_of [start]) [start] g = Some (v, g1)" and ne: "v \<noteq> Inl GCLimitReached"
    using assms gc_visit_limit by (fastforce simp: deleteReferrersClosure_def releasePending_def split: option.splits)
  have "bytesFreed (results g2) > limit R" if "deleteAll R ps g1 = (Inl GCLimitReached, g2)" for ps g2
    using deleteAll_limit [of R ps g1] that by (simp add: limit_exceeded_def)
  then show ?thesis using assms v ne
    by (auto simp: deleteReferrersClosure_def releasePending_def limit_exceeded_def split: option.splits sum.splits prod.splits)
qed

lemma gc_entry_limit: "gc_entry R name g = Some y \<Longrightarrow> limit_exceeded R y"
  using deleteReferrersClosure_limit [of R _ g y] deleteFromStore_limit [of R name g]
  by (auto simp: gc_entry_def split: if_splits sum.splits option.splits) (simp_all add: limit_exceeded_def)

lemma deleteFromStore_complete:
  assumes "deleteFromStore R name g = (r, g')" and "complete_inv R d0 g"
  shows "complete_inv R d0 g'"
  using deleteFromStore_removes [OF assms(1)] assms(2) unfolding complete_inv_def gc_db_def by auto

lemma gc_entry_complete:
  assumes e: "gc_entry R name g = Some (Inr u, g')" and inv: "gc_inv R d0 fs g" "complete_inv R d0 g" and E: "env_ok (run_env R)"
  shows "complete_inv R d0 g' \<and> set (alive g) \<subseteq> set (alive g') \<and> set (dead g) \<subseteq> set (dead g')
    \<and> (\<forall>p. sp_ok p \<and> baseName p = name \<longrightarrow> p \<in> set (alive g') \<union> set (dead g'))"
proof -
  let ?parsed = "maybeParseStorePath (run_dir R) (run_dir R @ ''/'' @ name)"
  have parse: "?parsed = Inr (Some p) \<and> name \<notin> {''.'', ''..'', ''.links''}" if "sp_ok p" "baseName p = name" for p
  proof -
    have "HASH_PART_LEN < length name" using that by (auto simp: sp_ok_def path_ok_def)
    then show ?thesis using maybeParse_sp_ok [OF store_canonical [OF E] that(1)] that(2)
      by (auto simp: run_dir_def printStorePath_def HASH_PART_LEN_def)
  qed
  consider "name \<in> {''.'', ''..'', ''.links''}" "g' = g"
    | p where "?parsed = Inr (Some p)" "deleteReferrersClosure R p g = Some (Inr u, g')"
    | "?parsed = Inr None" "deleteFromStore R name g = (Inr u, g')"
    using e by (auto simp: gc_entry_def split: if_splits sum.splits option.splits)
  then show ?thesis
  proof cases
    case 1
    then show ?thesis using parse inv(2) by blast
  next
    case (2 p)
    then show ?thesis using deleteReferrersClosure_complete [OF 2(2) inv E] parse by auto
  next
    case 3
    then show ?thesis using deleteFromStore_complete [OF 3(2) inv(2)] deleteFromStore_removes [OF 3(2)] parse by fastforce
  qed
qed

lemma gc_entries_complete:
  "gc_entries R names g = Some (Inr u, g') \<Longrightarrow> gc_inv R d0 fs g \<Longrightarrow> complete_inv R d0 g \<Longrightarrow> env_ok (run_env R) \<Longrightarrow>
   bytesFreed (results g') \<le> limit R \<Longrightarrow>
   complete_inv R d0 g' \<and> set (alive g) \<subseteq> set (alive g') \<and> set (dead g) \<subseteq> set (dead g')
   \<and> (\<forall>p. sp_ok p \<and> baseName p \<in> set names \<longrightarrow> p \<in> set (alive g') \<union> set (dead g'))"
proof (induction names arbitrary: g)
  case (Cons name names)
  obtain v g1 where v: "gc_entry R name g = Some (v, g1)" using Cons.prems(1) by (auto split: option.splits)
  have "v \<noteq> Inl GCLimitReached"
  proof
    assume l: "v = Inl GCLimitReached"
    then have "g' = g1" using Cons.prems(1) v by simp
    then show False using gc_entry_limit [OF v] l Cons.prems(5) by (simp add: limit_exceeded_def)
  qed
  then obtain w where w: "v = Inr w" "gc_entries R names g1 = Some (Inr u, g')"
    using Cons.prems(1) v by (auto split: sum.splits gc_exception.splits)
  from gc_entry_complete [OF v [unfolded w(1)] Cons.prems(2-4)] have c: "complete_inv R d0 g1" "set (alive g) \<subseteq> set (alive g1)"
    "set (dead g) \<subseteq> set (dead g1)" "\<And>p. sp_ok p \<Longrightarrow> baseName p = name \<Longrightarrow> p \<in> set (alive g1) \<union> set (dead g1)" by blast+
  have "gc_inv R d0 fs g1" using gc_entry_ok [OF v Cons.prems(2,4)] by blast
  from Cons.IH [OF w(2) this c(1) Cons.prems(4,5)] c(2-4) show ?case by fastforce
qed simp

text \<open>C2: the garbage collector deletes all garbage. When a run that deletes dead paths ends normally without having exceeded
its limit, every path of the store directory that is not reachable from a root is no longer valid and its file is gone.\<close>

theorem gc_complete:
  assumes "collectGarbage I opts st fs = Some (Inr (), g)" and "env_ok (in_env I)" and "store_ok (in_env I) st"
    and "gc_action opts = gcDeleteDead" and "0 < maxFreed opts" and "bytesFreed (results g) \<le> maxFreed opts"
    and "sp_ok p" and "baseName p \<in> set (entries I)"
    and "p \<notin> maybe_live (gc_run I opts) (db st) (map hashPart (temps I))"
  shows "\<not> isValidPath_db (e_storeDir (in_env I)) (db (gc_store g)) p \<and> baseName p \<notin> set (files g)"
proof -
  let ?R = "gc_run I opts" and ?g0 = "gc_start I st fs"
  have R: "env_ok (run_env ?R)" "run_dir ?R = e_storeDir (in_env I)" "limit ?R = maxFreed opts" "shouldDelete ?R"
    using assms(2,4) by (simp_all add: gc_run_def run_dir_def)
  have start: "gc_inv ?R (db st) fs ?g0" using gc_start_inv assms(3) R(2) by (simp add: store_ok_def)
  have start': "complete_inv ?R (db st) ?g0" using assms(3) R(2) shrunk_refl by (simp add: complete_inv_def gc_start_def gc_db_def store_ok_def)
  have g: "gc_entries ?R (entries I) ?g0 = Some (Inr (), g)"
    using assms(1,4,5) by (auto simp: collectGarbage_def Let_def deleteSpecific_def gc_finish_def split: option.splits sum.splits)
  from gc_entries_complete [OF g start start' R(1)] have c: "complete_inv ?R (db st) g" "p \<in> set (alive g) \<union> set (dead g)"
    using assms(6-8) R(3) by auto
  have t: "tempRoots g = oset_of (map hashPart (temps I))" using collectGarbage_inv [OF assms(1-3)] by simp
  have "maybe_live ?R (db st) (tempRoots g) = maybe_live ?R (db st) (map hashPart (temps I))"
    by (simp add: maybe_live_def is_root_def t)
  then have "p \<in> set (dead g)" using c assms(9) by (auto simp: complete_inv_def)
  then show ?thesis using c(1) R(2,4) assms(7) by (auto simp: complete_inv_def shrunk_def gc_db_def sp_ok_def)
qed

section \<open>A run\<close>

definition pathA :: StorePath where "pathA = StorePath ''aaaaaaaaaaaaaaaaaaaaaaaaaaaaaaaa-a''"
definition pathB :: StorePath where "pathB = StorePath ''bbbbbbbbbbbbbbbbbbbbbbbbbbbbbbbb-b''"
definition pathC :: StorePath where "pathC = StorePath ''cccccccccccccccccccccccccccccccc-c''"

definition example_row :: "nat \<Rightarrow> StorePath \<Rightarrow> ValidPathsRow" where
  "example_row i p = \<lparr>row_id = i, row_path = printStorePath ''/nix/store'' p,
     row_hash = ''sha256:0000000000000000000000000000000000000000000000000000000000000000'', row_registrationTime = 1, row_deriver = None,
     row_narSize = Some 8, row_ultimate = None, row_sigs = None, row_ca = None\<rparr>"

text \<open>The path \<open>pathA\<close> refers to \<open>pathB\<close>; nothing refers to \<open>pathC\<close>.\<close>

definition gc_example_store :: LocalStore where
  "gc_example_store = empty_store\<lparr>db := \<lparr>validPaths = [example_row 1 pathA, example_row 2 pathB, example_row 3 pathC], refs = [(1, 2)],
     derivationOutputs = [], lastId = 3\<rparr>\<rparr>"

definition gc_example_input :: GCInput where
  "gc_example_input = \<lparr>in_env = example_env, gcKeepOutputs = False, gcKeepDerivations = False, permRoots = [pathA], temps = [],
     entries = [''.links'', baseName pathB, baseName pathC, ''junk''], in_sizeOf = (\<lambda>_. 10), in_lockedTmp = (\<lambda>_. False)\<rparr>"

definition gc_example_options :: GCOptions where
  "gc_example_options = \<lparr>gc_action = gcDeleteDead, ignoreLiveness = False, pathsToDelete = [], maxFreed = - 1\<rparr>"

definition gc_example_run :: "unit gc" where
  "gc_example_run = collectGarbage gc_example_input gc_example_options gc_example_store [baseName pathA, baseName pathB, baseName pathC, ''junk'']"

lemma example_paths_ok: "sp_ok pathA" "sp_ok pathB" "sp_ok pathC"
  by code_simp+

lemma gc_example_db: "store_ok example_env gc_example_store"
proof -
  have "path_text ''/nix/store'' (printStorePath ''/nix/store'' p)" if "sp_ok p" for p using that by (auto simp: path_text_def)
  then show ?thesis
    using example_paths_ok
    by (simp add: store_ok_def db_ok_def gc_example_store_def example_env_def example_row_def ids_def pathA_def pathB_def pathC_def)
qed

lemma example_refers: "refers ''/nix/store'' (db gc_example_store) p q \<longleftrightarrow> p = pathA \<and> q = pathB"
  by (auto simp: refers_def gc_example_store_def example_row_def)

lemma example_valid: "isValidPath_db ''/nix/store'' (db gc_example_store) p \<longleftrightarrow> p \<in> {pathA, pathB, pathC}"
  by (auto simp: valid_iff gc_example_store_def example_row_def)

lemmas gc_example_defs = gc_example_input_def gc_example_options_def gc_run_def run_dir_def deleteSpecific_def example_env_def

theorem gc_safe_witness:
  "\<exists>r g. collectGarbage gc_example_input gc_example_options gc_example_store [baseName pathB] = Some (r, g)
     \<and> isValidPath_db ''/nix/store'' (db (gc_store g)) pathB \<and> pathB \<notin> set (dead g) \<and> baseName pathB \<in> set (files g)"
proof -
  have E: "env_ok (in_env gc_example_input)" "store_ok (in_env gc_example_input) gc_example_store"
    using example_env_ok gc_example_db by (simp_all add: gc_example_input_def)
  obtain r g where run: "collectGarbage gc_example_input gc_example_options gc_example_store [baseName pathB] = Some (r, g)"
    using collectGarbage_total [OF E] by (rule some_pairE)
  have "keeps (gc_run gc_example_input gc_example_options) (db gc_example_store) pathA pathB"
    using example_refers by (simp add: keeps_def gc_example_defs)
  then have k: "(keeps (gc_run gc_example_input gc_example_options) (db gc_example_store))\<^sup>*\<^sup>* pathA pathB" by blast
  from gc_safe [OF run E _ k] show ?thesis using run example_valid by (simp add: gc_example_defs)
qed

theorem gc_complete_witness:
  "\<exists>g. gc_example_run = Some (Inr (), g) \<and> \<not> isValidPath_db ''/nix/store'' (db (gc_store g)) pathC \<and> baseName pathC \<notin> set (files g)"
proof -
  have "case gc_example_run of Some (Inr (), g) \<Rightarrow> bytesFreed (results g) \<le> - 1 | _ \<Rightarrow> False" by code_simp
  then obtain g where run: "gc_example_run = Some (Inr (), g)" "bytesFreed (results g) \<le> - 1"
    by (auto split: option.splits prod.splits sum.splits)
  let ?R = "gc_run gc_example_input gc_example_options"
  have E: "env_ok (in_env gc_example_input)" "store_ok (in_env gc_example_input) gc_example_store"
    using example_env_ok gc_example_db by (simp_all add: gc_example_input_def)
  have ne: "pathC \<noteq> pathA" "pathC \<noteq> pathB" by (simp_all add: pathA_def pathB_def pathC_def)
  have "\<not> may_keep ?R (db gc_example_store) q pathC" for q using example_refers ne by (simp add: may_keep_def gc_example_defs)
  then have "(may_keep ?R (db gc_example_store))\<^sup>*\<^sup>* root pathC \<Longrightarrow> root = pathC" for root by (metis rtranclp.cases)
  moreover have "\<not> is_root ?R (map hashPart (temps gc_example_input)) pathC"
    using ne by (simp add: is_root_def gc_example_defs oset_of_def oset_merge_def)
  ultimately have "pathC \<notin> maybe_live ?R (db gc_example_store) (map hashPart (temps gc_example_input))"
    unfolding maybe_live_def by blast
  moreover have "0 < (- 1 :: 64 word)" by code_simp
  ultimately have "\<not> isValidPath_db ''/nix/store'' (db (gc_store g)) pathC \<and> baseName pathC \<notin> set (files g)" using gc_complete [OF run(1) [unfolded gc_example_run_def] E _ _ _ example_paths_ok(3)]
    run by (simp add: gc_example_defs)
  then show ?thesis using run(1) by blast
qed

text \<open>Asking only which paths are dead still deletes the entries of the store directory that are not store paths.\<close>

lemma gc_print_dead_deletes:
  "case collectGarbage gc_example_input (gc_example_options\<lparr>gc_action := gcReturnDead\<rparr>) gc_example_store
     [baseName pathA, baseName pathB, baseName pathC, ''junk''] of
     Some (Inr (), g) \<Rightarrow> files g = [baseName pathA, baseName pathB, baseName pathC]
       \<and> res_paths (results g) = [printStorePath ''/nix/store'' pathC, ''/nix/store/junk'']
   | _ \<Rightarrow> False"
  by code_simp

text \<open>C23: the garbage collector terminates. On every consistent store, with every configuration and every set of roots, it
returns a result or an error; in particular the search through referrers, outputs and derivers ends.\<close>

theorem gc_terminates:
  assumes "env_ok (in_env I)" and "store_ok (in_env I) st"
  shows "\<exists>r g. collectGarbage I opts st fs = Some (r, g)"
  using collectGarbage_total [OF assms, of opts fs] by auto

theorem gc_terminates_witness: "\<exists>r g. collectGarbage gc_example_input gc_example_options gc_example_store [''junk''] = Some (r, g)"
  using gc_terminates [of gc_example_input gc_example_store gc_example_options "[''junk'']"] example_env_ok gc_example_db by (simp add: gc_example_input_def)

end
