(* ===== verification/Lix_Gc_Server.thy ===== *)
theory Lix_Gc_Server
  imports Lix_Gc
begin

text \<open>
  The thread that serves temporary roots during a collection, the class \<^verbatim>\<open>GCOperation\<close> of \<^verbatim>\<open>libstore/gc.cc\<close>, as a
  step relation. The collector and the clients share a set of hash parts and the hash part last marked for deletion, under one
  lock, so every critical section is one step. A client writes a path and waits for the answer; the collector marks the paths of
  one search, deletes them, and releases. What the collector does between is the model of \<open>Lix_Gc\<close>; here only its accesses to the
  shared state and its deletions matter.
\<close>

section \<open>Shared state\<close>

record Shared =
  sh_tempRoots :: "string set"
  sh_pending :: "string option"

definition addTempRoot :: "string \<Rightarrow> Shared \<Rightarrow> Shared" where
  "addTempRoot rootHashPart sh = sh\<lparr>sh_tempRoots := insert rootHashPart (sh_tempRoots sh)\<rparr>"

definition releasePending_shared :: "Shared \<Rightarrow> Shared" where
  "releasePending_shared sh = sh\<lparr>sh_pending := None\<rparr>"

definition markPendingIfPresent :: "string \<Rightarrow> Shared \<Rightarrow> bool \<times> Shared" where
  "markPendingIfPresent h sh = (if h \<in> sh_tempRoots sh then (False, sh) else (True, sh\<lparr>sh_pending := Some h\<rparr>))"

text \<open>What a connection does with a line: nothing but an answer for garbage; otherwise it adds the root and may have to wait.\<close>

datatype connection = Idle | Waiting string

definition serveLine :: "string \<Rightarrow> string \<Rightarrow> Shared \<Rightarrow> (connection \<times> Shared) result" where
  "serveLine storeDir line sh =
     bindr (maybeParseStorePath storeDir line) (\<lambda>p. case p of
       None \<Rightarrow> Inr (Idle, sh)
     | Some storePath \<Rightarrow>
         let h = hashPart storePath; sh' = addTempRoot h sh
         in Inr (if sh_pending sh' = Some h then Waiting h else Idle, sh'))"

section \<open>Steps\<close>

record System =
  shared :: Shared
  connections :: "nat \<Rightarrow> connection"
  marked :: "string set"
  deleting :: bool

datatype event =
    Answer nat "string option"
  | Wait nat string
  | Mark string
  | FoundRoot string
  | StartDeleting
  | Delete string
  | Release

text \<open>
  \<open>Answer c (Some h)\<close> is the byte that tells client \<open>c\<close> that the root with hash part \<open>h\<close> is registered. A connection whose line
  cannot be parsed ends without an answer and is left out.
\<close>

inductive server_step :: "string \<Rightarrow> System \<Rightarrow> event \<Rightarrow> System \<Rightarrow> bool" for storeDir where
  garbage: "connections s c = Idle \<Longrightarrow> maybeParseStorePath storeDir line = Inr None \<Longrightarrow> server_step storeDir s (Answer c None) s"
| register: "connections s c = Idle \<Longrightarrow> maybeParseStorePath storeDir line = Inr (Some p) \<Longrightarrow>
    serveLine storeDir line (shared s) = Inr (Idle, sh) \<Longrightarrow>
    server_step storeDir s (Answer c (Some (hashPart p))) (s\<lparr>shared := sh\<rparr>)"
| wait: "connections s c = Idle \<Longrightarrow> serveLine storeDir line (shared s) = Inr (Waiting h, sh) \<Longrightarrow>
    server_step storeDir s (Wait c h) (s\<lparr>shared := sh, connections := (connections s)(c := Waiting h)\<rparr>)"
| wakeup: "connections s c = Waiting h \<Longrightarrow> sh_pending (shared s) \<noteq> Some h \<Longrightarrow>
    server_step storeDir s (Answer c (Some h)) (s\<lparr>connections := (connections s)(c := Idle)\<rparr>)"
| mark: "\<not> deleting s \<Longrightarrow> markPendingIfPresent h (shared s) = (True, sh) \<Longrightarrow>
    server_step storeDir s (Mark h) (s\<lparr>shared := sh, marked := insert h (marked s)\<rparr>)"
| found_root: "\<not> deleting s \<Longrightarrow> markPendingIfPresent h (shared s) = (False, sh) \<Longrightarrow>
    server_step storeDir s (FoundRoot h) (s\<lparr>shared := releasePending_shared sh, marked := {}\<rparr>)"
| start_deleting: "\<not> deleting s \<Longrightarrow> server_step storeDir s StartDeleting (s\<lparr>deleting := True\<rparr>)"
| delete: "deleting s \<Longrightarrow> h \<in> marked s \<Longrightarrow> server_step storeDir s (Delete h) s"
| release: "deleting s \<Longrightarrow> server_step storeDir s Release (s\<lparr>shared := releasePending_shared (shared s), marked := {}, deleting := False\<rparr>)"

inductive_cases server_stepE: "server_step storeDir s e s'"
inductive_simps delete_simps: "server_step storeDir s (Delete h) s'"
inductive_simps answer_simps: "server_step storeDir s (Answer c (Some h)) s'"

inductive server_run :: "string \<Rightarrow> System \<Rightarrow> event list \<Rightarrow> System \<Rightarrow> bool" for storeDir where
  run_nil: "server_run storeDir s [] s"
| run_cons: "server_step storeDir s e s1 \<Longrightarrow> server_run storeDir s1 es s' \<Longrightarrow> server_run storeDir s (e # es) s'"

definition server_start :: "string set \<Rightarrow> System" where
  "server_start roots0 = \<lparr>shared = \<lparr>sh_tempRoots = roots0, sh_pending = None\<rparr>, connections = (\<lambda>_. Idle), marked = {}, deleting = False\<rparr>"

section \<open>Registered roots\<close>

lemma serveLine_shared:
  assumes "serveLine storeDir line sh = Inr (c, sh')"
  shows "sh_tempRoots sh \<subseteq> sh_tempRoots sh' \<and> sh_pending sh' = sh_pending sh"
  using assms by (auto simp: serveLine_def bindr_eq_Inr_iff addTempRoot_def Let_def split: option.splits if_splits)

lemma serveLine_root:
  assumes "serveLine storeDir line sh = Inr (c, sh')" and "maybeParseStorePath storeDir line = Inr (Some p)"
  shows "hashPart p \<in> sh_tempRoots sh' \<and> c = (if sh_pending sh = Some (hashPart p) then Waiting (hashPart p) else Idle)"
  using assms by (auto simp: serveLine_def addTempRoot_def Let_def split: if_splits)

lemma serveLine_waits:
  assumes "serveLine storeDir line sh = Inr (Waiting h, sh')"
  shows "h \<in> sh_tempRoots sh' \<and> sh_pending sh' = Some h"
  using assms by (auto simp: serveLine_def bindr_eq_Inr_iff addTempRoot_def Let_def split: option.splits if_splits)

text \<open>What every reachable state satisfies: the hash part a connection waits for is a registered root.\<close>

definition server_ok :: "System \<Rightarrow> bool" where
  "server_ok s \<longleftrightarrow> (\<forall>c h. connections s c = Waiting h \<longrightarrow> h \<in> sh_tempRoots (shared s)) \<and> (sh_pending (shared s) \<noteq> None \<longrightarrow> the (sh_pending (shared s)) \<in> marked s)"

lemma server_start_ok: "server_ok (server_start roots0)"
  by (simp add: server_ok_def server_start_def)

lemma step_roots_grow: "server_step storeDir s e s' \<Longrightarrow> sh_tempRoots (shared s) \<subseteq> sh_tempRoots (shared s')"
  by (erule server_stepE) (auto dest: serveLine_shared simp: releasePending_shared_def markPendingIfPresent_def split: if_splits)

lemma step_ok:
  assumes "server_step storeDir s e s'" and "server_ok s"
  shows "server_ok s'"
  using assms(1)
proof cases
  case (wait c line h sh)
  then show ?thesis using assms(2) serveLine_waits [OF wait(4)] serveLine_shared [OF wait(4)] by (auto simp: server_ok_def)
next
  case (register c line p sh)
  then show ?thesis using assms(2) serveLine_shared [OF register(5)] by (fastforce simp: server_ok_def)
qed (use assms(2) in \<open>auto simp: server_ok_def releasePending_shared_def markPendingIfPresent_def split: if_splits\<close>)

text \<open>A registered root that the running search has not marked stays unmarked.\<close>

definition protected :: "string \<Rightarrow> System \<Rightarrow> bool" where
  "protected h s \<longleftrightarrow> h \<in> sh_tempRoots (shared s) \<and> h \<notin> marked s"

lemma step_protected:
  assumes "server_step storeDir s e s'" and "protected h s"
  shows "protected h s' \<and> e \<noteq> Delete h"
proof -
  have "h \<in> sh_tempRoots (shared s')" using step_roots_grow [OF assms(1)] assms(2) by (auto simp: protected_def)
  moreover from assms(1) have "h \<notin> marked s' \<and> e \<noteq> Delete h"
    by cases (use assms(2) in \<open>auto simp: protected_def markPendingIfPresent_def split: if_splits\<close>)
  ultimately show ?thesis by (simp add: protected_def)
qed

lemma run_protected: "server_run storeDir s es s' \<Longrightarrow> protected h s \<Longrightarrow> protected h s' \<and> Delete h \<notin> set es"
  by (induction rule: server_run.induct) (auto dest: step_protected)

lemma run_ok: "server_run storeDir s es s' \<Longrightarrow> server_ok s \<Longrightarrow> server_ok s'"
  by (induction rule: server_run.induct) (auto dest: step_ok)

text \<open>An answer comes only after the root is registered and is not the path marked last.\<close>

lemma answered:
  assumes "server_step storeDir s (Answer c (Some h)) s'" and "server_ok s"
  shows "h \<in> sh_tempRoots (shared s') \<and> sh_pending (shared s') \<noteq> Some h \<and> marked s' = marked s"
  using assms(1)
proof cases
  case (register line p sh)
  then show ?thesis using serveLine_root [OF register(5,4)] serveLine_shared [OF register(5)] by (auto split: if_splits)
next
  case wakeup
  then show ?thesis using assms(2) by (auto simp: server_ok_def)
qed

section \<open>Properties\<close>

text \<open>C24: once a client has been told that its temporary root is registered, the collector does not delete the path, provided
that the search running at that moment had marked no path but the last one; and a root registered before a search marks it is
never deleted at all. The proviso matters because the server remembers only the hash part marked last.\<close>

theorem answered_root_protected:
  assumes "server_run storeDir (server_start roots0) es s" and "server_step storeDir s (Answer c (Some h)) s1"
    and "server_run storeDir s1 es' s'" and "h \<in> marked s \<longrightarrow> sh_pending (shared s) = Some h"
  shows "Delete h \<notin> set es' \<and> h \<in> sh_tempRoots (shared s')"
proof -
  have ok: "server_ok s" by (rule run_ok [OF assms(1) server_start_ok])
  from answered [OF assms(2) ok] have a: "h \<in> sh_tempRoots (shared s1)" "sh_pending (shared s1) \<noteq> Some h" "marked s1 = marked s" by auto
  have "sh_pending (shared s1) = sh_pending (shared s)"
    using assms(2) by cases (auto dest: serveLine_shared)
  then have "protected h s1" using a assms(4) by (auto simp: protected_def)
  from run_protected [OF assms(3) this] show ?thesis by (simp add: protected_def)
qed

theorem answered_root_protected_witness:
  "\<exists>s1 s'. server_step ''/nix/store'' (server_start {}) (Answer 0 (Some (hashPart pathA))) s1
     \<and> server_run ''/nix/store'' s1 [FoundRoot (hashPart pathA)] s'
     \<and> Delete (hashPart pathA) \<notin> set [FoundRoot (hashPart pathA)] \<and> hashPart pathA \<in> sh_tempRoots (shared s')"
proof -
  let ?h = "hashPart pathA" and ?sh = "\<lparr>sh_tempRoots = {hashPart pathA}, sh_pending = None\<rparr>"
  have parse: "maybeParseStorePath ''/nix/store'' (printStorePath ''/nix/store'' pathA) = Inr (Some pathA)" by code_simp
  define s1 where "s1 = (server_start {})\<lparr>shared := ?sh\<rparr>"
  have "serveLine ''/nix/store'' (printStorePath ''/nix/store'' pathA) (shared (server_start {})) = Inr (Idle, ?sh)"
    using parse by (simp add: serveLine_def addTempRoot_def server_start_def)
  then have a: "server_step ''/nix/store'' (server_start {}) (Answer 0 (Some ?h)) s1"
    unfolding s1_def by (intro server_step.register [OF _ parse]) (simp_all add: server_start_def)
  have "markPendingIfPresent ?h (shared s1) = (False, ?sh)" by (simp add: markPendingIfPresent_def s1_def)
  then have "server_step ''/nix/store'' s1 (FoundRoot ?h) (s1\<lparr>shared := releasePending_shared ?sh, marked := {}\<rparr>)"
    by (intro server_step.found_root) (simp_all add: s1_def server_start_def)
  then have b: "server_run ''/nix/store'' s1 [FoundRoot ?h] (s1\<lparr>shared := releasePending_shared ?sh, marked := {}\<rparr>)"
    by (blast intro: server_run.intros)
  have "?h \<notin> marked (server_start {})" by (simp add: server_start_def)
  then show ?thesis using answered_root_protected [OF run_nil a b] a b by blast
qed

text \<open>
  Without the proviso the answer is not enough: a search marks a path and then one of its referrers; a client registers the first
  path, is answered at once since the second is pending, and the first path is deleted.
\<close>

definition lost_root :: "string \<Rightarrow> string \<Rightarrow> nat \<Rightarrow> event list" where
  "lost_root h h' c = [Mark h, Mark h', Answer c (Some h), StartDeleting, Delete h]"

lemma answered_root_deleted:
  "\<exists>s'. server_run ''/nix/store'' (server_start {}) (lost_root (hashPart pathA) (hashPart pathB) 0) s'"
proof -
  let ?a = "hashPart pathA" and ?b = "hashPart pathB"
  have ne: "?a \<noteq> ?b" by code_simp
  define s1 where "s1 = (server_start {})\<lparr>shared := \<lparr>sh_tempRoots = {}, sh_pending = Some ?a\<rparr>, marked := {?a}\<rparr>"
  define s2 where "s2 = s1\<lparr>shared := \<lparr>sh_tempRoots = {}, sh_pending = Some ?b\<rparr>, marked := {?b, ?a}\<rparr>"
  define s3 where "s3 = s2\<lparr>shared := \<lparr>sh_tempRoots = {?a}, sh_pending = Some ?b\<rparr>\<rparr>"
  define s4 where "s4 = s3\<lparr>deleting := True\<rparr>"
  have m: "markPendingIfPresent ?a \<lparr>sh_tempRoots = {}, sh_pending = None\<rparr> = (True, \<lparr>sh_tempRoots = {}, sh_pending = Some ?a\<rparr>)"
    "markPendingIfPresent ?b \<lparr>sh_tempRoots = {}, sh_pending = Some ?a\<rparr> = (True, \<lparr>sh_tempRoots = {}, sh_pending = Some ?b\<rparr>)"
    by (simp_all add: markPendingIfPresent_def)
  have 1: "server_step ''/nix/store'' (server_start {}) (Mark ?a) s1"
    using server_step.mark [of "server_start {}" ?a _ "''/nix/store''"] m(1) by (simp add: s1_def server_start_def)
  have 2: "server_step ''/nix/store'' s1 (Mark ?b) s2"
    using server_step.mark [of s1 ?b _ "''/nix/store''"] m(2) by (simp add: s2_def s1_def server_start_def)
  have parse: "maybeParseStorePath ''/nix/store'' (printStorePath ''/nix/store'' pathA) = Inr (Some pathA)" by code_simp
  then have "serveLine ''/nix/store'' (printStorePath ''/nix/store'' pathA) (shared s2) = Inr (Idle, \<lparr>sh_tempRoots = {?a}, sh_pending = Some ?b\<rparr>)"
    using ne by (simp add: serveLine_def addTempRoot_def s2_def)
  then have 3: "server_step ''/nix/store'' s2 (Answer 0 (Some ?a)) s3"
    unfolding s3_def by (intro server_step.register [OF _ parse]) (simp_all add: s2_def s1_def server_start_def)
  have 4: "server_step ''/nix/store'' s3 StartDeleting s4"
    unfolding s4_def by (rule server_step.start_deleting) (simp add: s3_def s2_def s1_def server_start_def)
  have 5: "server_step ''/nix/store'' s4 (Delete ?a) s4"
    by (rule server_step.delete) (simp_all add: s4_def s3_def s2_def)
  show ?thesis unfolding lost_root_def using 1 2 3 4 5 by (blast intro: server_run.intros)
qed

end
