(* ===== verification/Lix_Expr.thy ===== *)
theory Lix_Expr
  imports Lix_Prelude
begin

text \<open>
  The abstract syntax of the Nix language and the pass that binds its variables (\<^verbatim>\<open>libexpr/nixexpr.hh\<close>,
  \<^verbatim>\<open>nixexpr.cc\<close>), with the symbol table (\<^verbatim>\<open>symbol-table.hh\<close>) and the sorted vectors that the pass keeps its scopes
  in (\<^verbatim>\<open>libutil/linear-map.hh\<close>). Positions, printing and the frames of the debugger are left out. The pass stores a level
  and a displacement in every variable; here it returns the expression with them filled in.
\<close>

section \<open>Symbols\<close>

text \<open>A symbol is the number of an interned string; zero is no symbol.\<close>

type_synonym Symbol = nat
type_synonym SymbolTable = "string list"

definition sym_create :: "string \<Rightarrow> SymbolTable \<Rightarrow> Symbol \<times> SymbolTable" where
  "sym_create s tab =
     (if s \<in> set tab then (length (takeWhile (\<lambda>t. t \<noteq> s) tab) + 1, tab) else (length tab + 1, tab @ [s]))"

definition sym_string :: "SymbolTable \<Rightarrow> Symbol \<Rightarrow> string result" where
  "sym_string tab s =
     (if s = 0 \<or> s > length tab then Inl (AssertionFailed ''symbol out of range'') else Inr (tab ! (s - 1)))"

definition nix_symbols :: SymbolTable where
  "nix_symbols =
     [''__sub'', ''__lessThan'', ''__mul'', ''__div'', ''__findFile'', ''__nixPath'', ''or'', ''body'', ''file'', ''line'',
      ''column'', ''__overrides'', ''__functor'', ''__toString'', ''path'', ''prefix'', ''startSet'', ''operator'', ''key'',
      ''right'', ''wrong'', ''__ignoreNulls'', ''__structuredAttrs'', ''__contentAddressed'', ''__impure'', ''__json'',
      ''outPath'', ''drvPath'', ''meta'', ''outputs'', ''outputName'', ''allowedReferences'', ''allowedRequisites'',
      ''disallowedReferences'', ''disallowedRequisites'', ''maxSize'', ''maxClosureSize'', ''builder'', ''args'',
      ''outputHash'', ''outputHashAlgo'', ''outputHashMode'', ''recurseForDerivations'', ''outputSpecified'',
      ''description'', ''self'', ''name'', ''value'', ''system'', ''type'']"

definition sym_overrides :: Symbol where "sym_overrides = 12"
definition sym_functor :: Symbol where "sym_functor = 13"
definition sym_toString :: Symbol where "sym_toString = 14"
definition sym_right :: Symbol where "sym_right = 20"
definition sym_wrong :: Symbol where "sym_wrong = 21"
definition sym_outPath :: Symbol where "sym_outPath = 27"
definition sym_name :: Symbol where "sym_name = 47"
definition sym_value :: Symbol where "sym_value = 48"
definition sym_type :: Symbol where "sym_type = 50"

lemma well_known_symbols:
  "sym_string nix_symbols sym_overrides = Inr ''__overrides''" "sym_string nix_symbols sym_functor = Inr ''__functor''"
  "sym_string nix_symbols sym_toString = Inr ''__toString''" "sym_string nix_symbols sym_right = Inr ''right''"
  "sym_string nix_symbols sym_wrong = Inr ''wrong''" "sym_string nix_symbols sym_outPath = Inr ''outPath''"
  "sym_string nix_symbols sym_name = Inr ''name''" "sym_string nix_symbols sym_value = Inr ''value''"
  "sym_string nix_symbols sym_type = Inr ''type''"
  by code_simp+

text \<open>Interning keeps the strings of the symbols there are, and equal strings get equal symbols.\<close>

lemma sym_create_string:
  assumes "sym_create s tab = (x, tab')"
  shows "sym_string tab' x = Inr s \<and> (\<forall>y t. sym_string tab y = Inr t \<longrightarrow> sym_string tab' y = Inr t)"
proof (cases "s \<in> set tab")
  case True
  then obtain ys zs where "tab = ys @ s # zs" "s \<notin> set ys" by (meson split_list_first)
  then have "length (takeWhile (\<lambda>t. t \<noteq> s) tab) < length tab" "tab ! length (takeWhile (\<lambda>t. t \<noteq> s) tab) = s"
    by (auto simp: takeWhile_append takeWhile_eq_all_conv [THEN iffD2])
  then show ?thesis using assms True by (auto simp: sym_create_def sym_string_def)
next
  case False
  then show ?thesis using assms by (auto simp: sym_create_def sym_string_def nth_append split: if_splits)
qed

section \<open>Searching sorted arrays\<close>

text \<open>\<^verbatim>\<open>std::lower_bound\<close>: halving the range \<open>[first, first + len)\<close>.\<close>

fun lower_bound_loop :: "('a \<Rightarrow> bool) \<Rightarrow> 'a list \<Rightarrow> nat \<Rightarrow> nat \<Rightarrow> nat" where
  "lower_bound_loop below xs first len =
     (if len = 0 then first
      else let half = len div 2
           in if below (xs ! (first + half)) then lower_bound_loop below xs (first + half + 1) (len - half - 1)
              else lower_bound_loop below xs first half)"

declare lower_bound_loop.simps [simp del]

definition lower_bound :: "('a \<Rightarrow> bool) \<Rightarrow> 'a list \<Rightarrow> nat" where
  "lower_bound below xs = lower_bound_loop below xs 0 (length xs)"

lemma lower_bound_loop_split:
  assumes "xs = ys @ zs" and "\<forall>y \<in> set ys. below y" and "\<forall>z \<in> set zs. \<not> below z"
    and "first \<le> length ys" and "length ys \<le> first + len" and "first + len \<le> length xs"
  shows "lower_bound_loop below xs first len = length ys"
  using assms
proof (induction below xs first len rule: lower_bound_loop.induct)
  case (1 below xs first len)
  let ?half = "len div 2"
  note step = lower_bound_loop.simps [of below xs first len]
  show ?case
  proof (cases "len = 0")
    case True
    then show ?thesis using "1.prems"(4,5) unfolding step by simp
  next
    case False
    then have half: "first + ?half < length xs" using "1.prems"(6) by linarith
    have split: "below (xs ! (first + ?half)) \<longleftrightarrow> first + ?half < length ys"
      using "1.prems"(1-3) half by (cases "first + ?half < length ys") (auto simp: nth_append)
    show ?thesis
    proof (cases "below (xs ! (first + ?half))")
      case True
      have "lower_bound_loop below xs (first + ?half + 1) (len - ?half - 1) = length ys"
        by (rule "1.IH"(1) [OF False refl True "1.prems"(1-3)]) (use True split "1.prems"(5,6) False in linarith)+
      then show ?thesis using False True unfolding step by (simp add: Let_def)
    next
      case above: False
      have "lower_bound_loop below xs first ?half = length ys"
        by (rule "1.IH"(2) [OF False refl above "1.prems"(1-4)]) (use above split half in linarith)+
      then show ?thesis using False above unfolding step by (simp add: Let_def)
    qed
  qed
qed

lemma lower_bound_split:
  "\<forall>y \<in> set ys. below y \<Longrightarrow> \<forall>z \<in> set zs. \<not> below z \<Longrightarrow> lower_bound below (ys @ zs) = length ys"
  unfolding lower_bound_def by (rule lower_bound_loop_split) auto

text \<open>Looking up a key in an array of pairs that is sorted by its keys.\<close>

definition sorted_get :: "'k::linorder \<Rightarrow> ('k \<times> 'v) list \<Rightarrow> 'v option" where
  "sorted_get key xs =
     (let i = lower_bound (\<lambda>x. fst x < key) xs in if i < length xs \<and> fst (xs ! i) = key then Some (snd (xs ! i)) else None)"

lemma sorted_get_map_of:
  assumes "omap_ok xs"
  shows "sorted_get key xs = map_of xs key"
proof -
  let ?ys = "takeWhile (\<lambda>x. fst x < key) xs" and ?zs = "dropWhile (\<lambda>x. fst x < key) xs"
  have zs: "key \<le> fst z" if "z \<in> set ?zs" for z
  proof -
    have "omap_ok ?zs" using assms by (induction xs) auto
    then show ?thesis using that hd_dropWhile [of "\<lambda>x. fst x < key" xs] by (cases ?zs) (auto simp: not_less dest!: bspec intro: order_trans less_imp_le)
  qed
  then have "\<forall>z \<in> set ?zs. \<not> fst z < key" by (simp add: not_less)
  moreover have "\<forall>y \<in> set ?ys. fst y < key" by (auto dest: set_takeWhileD)
  ultimately have "lower_bound (\<lambda>x. fst x < key) (?ys @ ?zs) = length ?ys" by (intro lower_bound_split)
  then have lb: "lower_bound (\<lambda>x. fst x < key) xs = length ?ys" by (simp only: takeWhile_dropWhile_id)
  have ys: "map_of ?ys key = None" by (auto simp: map_of_eq_None_iff dest: set_takeWhileD)
  have "map_of xs key = map_of (?ys @ ?zs) key" by simp
  also have "\<dots> = map_of ?zs key" using ys by (simp only: map_of_append) (simp add: map_add_def split: option.splits)
  finally have m: "map_of xs key = map_of ?zs key" .
  show ?thesis
  proof (cases ?zs)
    case Nil
    then have "length ?ys = length xs" by (metis append_Nil2 takeWhile_dropWhile_id)
    then show ?thesis using m Nil unfolding sorted_get_def lb by simp
  next
    case (Cons z rest)
    have len: "length ?ys < length xs" "xs ! length ?ys = z"
      using Cons takeWhile_dropWhile_id [of "\<lambda>x. fst x < key" xs] by (metis length_append length_greater_0_conv less_add_same_cancel1 list.discI, metis nth_append_length)
    have "omap_ok ?zs" using assms by (induction xs) auto
    then have "map_of rest key = None" if "fst z \<noteq> key" using that zs [of z] Cons by (cases z) (auto simp: map_of_eq_None_iff)
    then show ?thesis using m len Cons unfolding sorted_get_def lb by (cases z) auto
  qed
qed

section \<open>LinearMap\<close>

definition lm_find :: "'k::linorder \<Rightarrow> ('k \<times> 'v) list \<Rightarrow> 'v option" where
  "lm_find key xs = sorted_get key xs"

definition lm_insert_or_assign :: "'k::linorder \<Rightarrow> 'v \<Rightarrow> ('k \<times> 'v) list \<Rightarrow> ('k \<times> 'v) list" where
  "lm_insert_or_assign key v xs =
     (if xs = [] \<or> fst (last xs) < key then xs @ [(key, v)]
      else let i = lower_bound (\<lambda>x. fst x < key) xs
           in if i < length xs \<and> fst (xs ! i) = key then xs[i := (key, v)] else take i xs @ (key, v) # drop i xs)"

text \<open>\<^verbatim>\<open>std::inplace_merge\<close> is stable: of equal keys, those of the first range come first.\<close>

fun inplace_merge :: "('k::linorder \<times> 'v) list \<Rightarrow> ('k \<times> 'v) list \<Rightarrow> ('k \<times> 'v) list" where
  "inplace_merge [] ys = ys"
| "inplace_merge xs [] = xs"
| "inplace_merge (x # xs) (y # ys) =
     (if fst y < fst x then y # inplace_merge (x # xs) ys else x # inplace_merge xs (y # ys))"

text \<open>The loop that keeps the last of a run of equal keys.\<close>

fun dedup_last :: "('k \<times> 'v) list \<Rightarrow> ('k \<times> 'v) list" where
  "dedup_last (x # y # xs) = (if fst x = fst y then dedup_last (y # xs) else x # dedup_last (y # xs))"
| "dedup_last xs = xs"

definition lm_insert_bulk :: "('k::linorder \<times> 'v) list \<Rightarrow> ('k \<times> 'v) list \<Rightarrow> ('k \<times> 'v) list" where
  "lm_insert_bulk added xs = dedup_last (inplace_merge xs added)"

lemma set_inplace_merge [simp]: "set (inplace_merge xs ys) = set xs \<union> set ys"
  by (induction xs ys rule: inplace_merge.induct) auto

lemma dedup_merge:
  "omap_ok xs \<Longrightarrow> omap_ok ys \<Longrightarrow>
   omap_ok (dedup_last (inplace_merge xs ys)) \<and> map_of (dedup_last (inplace_merge xs ys)) = map_of xs ++ map_of ys
   \<and> fst ` set (dedup_last (inplace_merge xs ys)) = fst ` set xs \<union> fst ` set ys"
proof (induction xs ys rule: inplace_merge.induct)
  case (1 ys)
  have "dedup_last ys = ys" using 1(2) by (induction ys rule: dedup_last.induct) auto
  then show ?case using 1 by simp
next
  case (2 x xs)
  have "dedup_last zs = zs" if "omap_ok zs" for zs :: "('a \<times> 'b) list" using that by (induction zs rule: dedup_last.induct) auto
  from this [OF 2(1)] show ?case using 2(1) by simp
next
  case (3 x xs y ys)
  obtain k v l w where kv: "x = (k, v)" "y = (l, w)" by (cases x; cases y)
  have x: "\<forall>z \<in> set xs. k < fst z" "omap_ok xs" and y: "\<forall>z \<in> set ys. l < fst z" "omap_ok ys" using 3(3,4) kv by auto
  consider "l < k" | "k < l" | "k = l" by fastforce
  then show ?case
  proof cases
    case 1
    let ?m = "inplace_merge ((k, v) # xs) ys"
    have above: "\<forall>z \<in> set ?m. l < fst z" using 1 x(1) y(1) by fastforce
    have dd: "dedup_last ((l, w) # ?m) = (l, w) # dedup_last ?m" using above by (cases ?m) auto
    have IH: "omap_ok (dedup_last ?m)" "map_of (dedup_last ?m) = map_of ((k, v) # xs) ++ map_of ys"
      "fst ` set (dedup_last ?m) = fst ` set ((k, v) # xs) \<union> fst ` set ys"
      using 3(1) [unfolded kv, simplified] 1 x y by (auto simp: fun_upd_def)
    have "map_of ys l = None" using y(1) by (auto simp: map_of_eq_None_iff)
    then have M: "map_of ((l, w) # dedup_last ?m) = map_of ((k, v) # xs) ++ map_of ((l, w) # ys)"
      using IH(2) by (auto simp: fun_eq_iff map_add_def split: option.splits)
    have "\<forall>k' \<in> fst ` set (dedup_last ?m). l < k'" unfolding IH(3) using 1 x(1) y(1) by fastforce
    then have O: "omap_ok ((l, w) # dedup_last ?m)" using IH(1) by simp
    have "inplace_merge (x # xs) (y # ys) = (l, w) # ?m" using 1 kv by simp
    then have E: "dedup_last (inplace_merge (x # xs) (y # ys)) = (l, w) # dedup_last ?m" using dd by simp
    have "fst ` set ((l, w) # dedup_last ?m) = fst ` set (x # xs) \<union> fst ` set (y # ys)" using IH(3) kv by auto
    then show ?thesis unfolding E using M O unfolding kv by blast
  next
    case 2
    let ?m = "inplace_merge xs ((l, w) # ys)"
    have above: "\<forall>z \<in> set ?m. k < fst z" using 2 x(1) y(1) by fastforce
    have dd: "dedup_last ((k, v) # ?m) = (k, v) # dedup_last ?m" using above by (cases ?m) auto
    have IH: "omap_ok (dedup_last ?m)" "map_of (dedup_last ?m) = map_of xs ++ map_of ((l, w) # ys)"
      "fst ` set (dedup_last ?m) = fst ` set xs \<union> fst ` set ((l, w) # ys)"
      using 3(2) [unfolded kv, simplified] 2 x y by (auto simp: fun_upd_def)
    have "map_of xs k = None" "map_of ((l, w) # ys) k = None" using x(1) y(1) 2 by (auto simp: map_of_eq_None_iff)
    then have M: "map_of ((k, v) # dedup_last ?m) = map_of ((k, v) # xs) ++ map_of ((l, w) # ys)"
      using IH(2) by (auto simp: fun_eq_iff map_add_def split: option.splits)
    have "\<forall>k' \<in> fst ` set (dedup_last ?m). k < k'" unfolding IH(3) using 2 x(1) y(1) by fastforce
    then have O: "omap_ok ((k, v) # dedup_last ?m)" using IH(1) by simp
    have "inplace_merge (x # xs) (y # ys) = (k, v) # ?m" using 2 kv by auto
    then have E: "dedup_last (inplace_merge (x # xs) (y # ys)) = (k, v) # dedup_last ?m" using dd by simp
    have "fst ` set ((k, v) # dedup_last ?m) = fst ` set (x # xs) \<union> fst ` set (y # ys)" using IH(3) kv by auto
    then show ?thesis unfolding E using M O unfolding kv by blast
  next
    case eq: 3
    let ?m = "inplace_merge xs ((l, w) # ys)"
    have m: "?m = (l, w) # inplace_merge xs ys"
    proof (cases xs)
      case Nil
      then show ?thesis by (cases ys) simp_all
    next
      case (Cons z zs)
      then show ?thesis using x(1) eq by simp
    qed
    have IH: "omap_ok (dedup_last ?m)" "map_of (dedup_last ?m) = map_of xs ++ map_of ((l, w) # ys)"
      "fst ` set (dedup_last ?m) = fst ` set xs \<union> fst ` set ((l, w) # ys)"
      using 3(2) [unfolded kv, simplified] eq x y by (auto simp: fun_upd_def)
    have "inplace_merge (x # xs) (y # ys) = (k, v) # ?m" using eq kv by simp
    then have E: "dedup_last (inplace_merge (x # xs) (y # ys)) = dedup_last ?m" using eq m by simp
    have "map_of ((k, v) # xs) ++ map_of ((l, w) # ys) = map_of xs ++ map_of ((l, w) # ys)"
      using eq by (auto simp: fun_eq_iff map_add_def split: option.splits)
    moreover have "fst ` set (dedup_last ?m) = fst ` set (x # xs) \<union> fst ` set (y # ys)" using IH(3) eq kv by auto
    ultimately show ?thesis unfolding E using IH(1,2) unfolding kv by metis
  qed
qed

lemma lm_insert_bulk_lookup:
  assumes "omap_ok xs" and "omap_ok added"
  shows "lm_find key (lm_insert_bulk added xs) = (map_of xs ++ map_of added) key" "omap_ok (lm_insert_bulk added xs)"
  using dedup_merge [OF assms] by (auto simp: lm_find_def lm_insert_bulk_def sorted_get_map_of)

section \<open>Abstract syntax\<close>

text \<open>The integers and floats of a literal are kept as their 64 bits.\<close>

datatype literal = LInt "64 word" | LFloat "64 word" | LString string | LPath string

text \<open>
  What is used of a \<^verbatim>\<open>with\<close> expression at run time: the number of environments up to the enclosing one, and that one. A variable
  that the pass has bound lies a number of levels up at a displacement, or in the set of a \<^verbatim>\<open>with\<close> a number of levels up.
\<close>

datatype withRef = WithRef (prevWith: nat) (parentWith: "withRef option")

datatype binding = Unbound | Bound nat nat | FromWith nat withRef

datatype AttrKind = Plain | Inherited | InheritedFrom

datatype expr =
    ExprLiteral literal
  | ExprVar Symbol bool binding
  | ExprInheritFrom nat
  | ExprSelect expr "attr_name list" "expr option"
  | ExprOpHasAttr expr "attr_name list"
  | ExprSet bool "attr_def list" "expr list option" "dynamic_attr list"
  | ExprList "expr list"
  | ExprLambda pattern expr
  | ExprCall expr "expr list"
  | ExprLet "attr_def list" "expr list option" expr
  | ExprWith expr expr withRef
  | ExprIf expr expr expr
  | ExprAssert expr expr
  | ExprOpNot expr
  | ExprOpEq expr expr
  | ExprOpNEq expr expr
  | ExprOpAnd expr expr
  | ExprOpOr expr expr
  | ExprOpImpl expr expr
  | ExprOpUpdate expr expr
  | ExprOpConcatLists expr expr
  | ExprConcatStrings bool "expr list"
and attr_name = AttrSymbol Symbol | AttrExpr expr
and attr_def = AttrDef (def_name: Symbol) (def_kind: AttrKind) (def_expr: expr)
and dynamic_attr = DynamicAttr (nameExpr: expr) (valueExpr: expr)
and pattern = SimplePattern Symbol | AttrsPattern Symbol "formal list" bool
and formal = Formal (formal_name: Symbol) (formal_def: "expr option")

fun chooseByKind :: "AttrKind \<Rightarrow> 'a \<Rightarrow> 'a \<Rightarrow> 'a \<Rightarrow> 'a" where
  "chooseByKind Plain plain inherited inheritedFrom = plain"
| "chooseByKind Inherited plain inherited inheritedFrom = inherited"
| "chooseByKind InheritedFrom plain inherited inheritedFrom = inheritedFrom"

section \<open>Binding variables\<close>

text \<open>A static environment: the chain of its scopes, innermost first. A scope is a \<^verbatim>\<open>with\<close>, or a map from symbols to displacements.\<close>

datatype static_scope = StaticWith withRef | StaticVars bool "(Symbol \<times> nat) list"

type_synonym StaticEnv = "static_scope list"

fun bindVar_loop :: "Symbol \<Rightarrow> bool \<Rightarrow> StaticEnv \<Rightarrow> nat \<Rightarrow> nat option \<Rightarrow> ((nat \<times> nat) option \<times> nat option) result" where
  "bindVar_loop name needsRoot [] level withLevel = Inr (None, withLevel)"
| "bindVar_loop name needsRoot (StaticWith w # env) level withLevel =
     bindVar_loop name needsRoot env (level + 1) (if withLevel = None then Some level else withLevel)"
| "bindVar_loop name needsRoot (StaticVars isRoot vars # env) level withLevel =
     (case lm_find name vars of
        Some displ \<Rightarrow>
          if needsRoot \<and> \<not> isRoot then Inl (ParseError ''Shadowing symbol used in internal expressions is not allowed.'')
          else Inr (Some (level, displ), withLevel)
      | None \<Rightarrow> bindVar_loop name needsRoot env (level + 1) withLevel)"

fun nearestWith :: "StaticEnv \<Rightarrow> withRef option" where
  "nearestWith [] = None"
| "nearestWith (StaticWith w # env) = Some w"
| "nearestWith (StaticVars isRoot vars # env) = nearestWith env"

definition bindVar :: "Symbol \<Rightarrow> bool \<Rightarrow> StaticEnv \<Rightarrow> binding result" where
  "bindVar name needsRoot env =
     bindr (bindVar_loop name needsRoot env 0 None) (\<lambda>(found, withLevel).
       case found of
         Some (level, displ) \<Rightarrow> Inr (Bound level displ)
       | None \<Rightarrow>
           (case withLevel of
              None \<Rightarrow> Inl (UndefinedVarError ''undefined variable'')
            | Some level \<Rightarrow>
                (case nearestWith env of
                   Some w \<Rightarrow> Inr (FromWith level w)
                 | None \<Rightarrow> Inl (AssertionFailed ''no with''))))"

text \<open>The distance to the next enclosing \<^verbatim>\<open>with\<close>, counted from one; zero if there is none.\<close>

fun prevWith_loop :: "StaticEnv \<Rightarrow> nat \<Rightarrow> nat" where
  "prevWith_loop [] level = 0"
| "prevWith_loop (StaticWith w # env) level = level"
| "prevWith_loop (StaticVars isRoot vars # env) level = prevWith_loop env (level + 1)"

definition bindWith :: "StaticEnv \<Rightarrow> withRef" where
  "bindWith env = WithRef (prevWith_loop env 1) (nearestWith env)"

definition buildRecursiveEnv :: "attr_def list \<Rightarrow> StaticEnv \<Rightarrow> StaticEnv" where
  "buildRecursiveEnv attrs env = StaticVars False (lm_insert_bulk (zip (map def_name attrs) [0..<length attrs]) []) # env"

definition inheritFromEnv :: "StaticEnv \<Rightarrow> StaticEnv" where
  "inheritFromEnv env = StaticVars False [] # env"

fun buildEnv :: "pattern \<Rightarrow> StaticEnv \<Rightarrow> StaticEnv" where
  "buildEnv (SimplePattern name) env = StaticVars False (lm_insert_or_assign name 0 []) # env"
| "buildEnv (AttrsPattern name formals ellipsis) env =
     (let named = (if name \<noteq> 0 then lm_insert_or_assign name 0 [] else []); displ = (if name \<noteq> 0 then 1 else 0)
      in StaticVars False (lm_insert_bulk (zip (map formal_name formals) [displ..<displ + length formals]) named) # env)"

definition bind_opt :: "('a \<Rightarrow> 'b result) \<Rightarrow> 'a option \<Rightarrow> 'b option result" where
  "bind_opt f x = (case x of None \<Rightarrow> Inr None | Some y \<Rightarrow> bindr (f y) (\<lambda>z. Inr (Some z)))"

lemma bind_opt_cong [fundef_cong]:
  "x = x' \<Longrightarrow> (\<And>y. y \<in> set_option x' \<Longrightarrow> f y = g y) \<Longrightarrow> bind_opt f x = bind_opt g x'"
  by (cases x') (auto simp: bind_opt_def)

lemma bind_opt_Inr: "bind_opt f x = Inr r \<longleftrightarrow> (x = None \<and> r = None \<or> (\<exists>y z. x = Some y \<and> f y = Inr z \<and> r = Some z))"
  by (cases x) (auto simp: bind_opt_def bindr_eq_Inr_iff)

fun bindVars :: "StaticEnv \<Rightarrow> expr \<Rightarrow> expr result"
  and bindName :: "StaticEnv \<Rightarrow> attr_name \<Rightarrow> attr_name result"
  and bindDef :: "StaticEnv \<Rightarrow> StaticEnv \<Rightarrow> StaticEnv \<Rightarrow> attr_def \<Rightarrow> attr_def result"
  and bindDynamic :: "StaticEnv \<Rightarrow> dynamic_attr \<Rightarrow> dynamic_attr result"
  and bindPattern :: "StaticEnv \<Rightarrow> pattern \<Rightarrow> pattern result"
  and bindFormal :: "StaticEnv \<Rightarrow> formal \<Rightarrow> formal result" where
  "bindVars env (ExprLiteral l) = Inr (ExprLiteral l)"
| "bindVars env (ExprVar name needsRoot b) = bindr (bindVar name needsRoot env) (\<lambda>b. Inr (ExprVar name needsRoot b))"
| "bindVars env (ExprInheritFrom d) = Inr (ExprInheritFrom d)"
| "bindVars env (ExprSelect e path d) =
     bindr (bindVars env e) (\<lambda>e. bindr (bind_opt (bindVars env) d) (\<lambda>d.
     bindr (mapr (bindName env) path) (\<lambda>path. Inr (ExprSelect e path d))))"
| "bindVars env (ExprOpHasAttr e path) =
     bindr (bindVars env e) (\<lambda>e. bindr (mapr (bindName env) path) (\<lambda>path. Inr (ExprOpHasAttr e path)))"
| "bindVars env (ExprSet recursive attrs from dyn) =
     (let innerEnv = (if recursive then buildRecursiveEnv attrs env else env)
      in bindr (bind_opt (mapr (bindVars innerEnv)) from) (\<lambda>from.
         bindr (mapr (bindDef innerEnv env (inheritFromEnv innerEnv)) attrs) (\<lambda>attrs.
         bindr (mapr (bindDynamic innerEnv) dyn) (\<lambda>dyn. Inr (ExprSet recursive attrs from dyn)))))"
| "bindVars env (ExprList es) = bindr (mapr (bindVars env) es) (\<lambda>es. Inr (ExprList es))"
| "bindVars env (ExprLambda p body) =
     (let newEnv = buildEnv p env
      in bindr (bindPattern newEnv p) (\<lambda>p. bindr (bindVars newEnv body) (\<lambda>body. Inr (ExprLambda p body))))"
| "bindVars env (ExprCall f args) =
     bindr (bindVars env f) (\<lambda>f. bindr (mapr (bindVars env) args) (\<lambda>args. Inr (ExprCall f args)))"
| "bindVars env (ExprLet attrs from body) =
     (let newEnv = buildRecursiveEnv attrs env
      in bindr (bind_opt (mapr (bindVars newEnv)) from) (\<lambda>from.
         bindr (mapr (bindDef newEnv env (inheritFromEnv newEnv)) attrs) (\<lambda>attrs.
         bindr (bindVars newEnv body) (\<lambda>body. Inr (ExprLet attrs from body)))))"
| "bindVars env (ExprWith attrs body w) =
     (let w = bindWith env
      in bindr (bindVars env attrs) (\<lambda>attrs. bindr (bindVars (StaticWith w # env) body) (\<lambda>body. Inr (ExprWith attrs body w))))"
| "bindVars env (ExprIf c t e) =
     bindr (bindVars env c) (\<lambda>c. bindr (bindVars env t) (\<lambda>t. bindr (bindVars env e) (\<lambda>e. Inr (ExprIf c t e))))"
| "bindVars env (ExprAssert c b) = bindr (bindVars env c) (\<lambda>c. bindr (bindVars env b) (\<lambda>b. Inr (ExprAssert c b)))"
| "bindVars env (ExprOpNot e) = bindr (bindVars env e) (\<lambda>e. Inr (ExprOpNot e))"
| "bindVars env (ExprOpEq a b) = bindr (bindVars env a) (\<lambda>a. bindr (bindVars env b) (\<lambda>b. Inr (ExprOpEq a b)))"
| "bindVars env (ExprOpNEq a b) = bindr (bindVars env a) (\<lambda>a. bindr (bindVars env b) (\<lambda>b. Inr (ExprOpNEq a b)))"
| "bindVars env (ExprOpAnd a b) = bindr (bindVars env a) (\<lambda>a. bindr (bindVars env b) (\<lambda>b. Inr (ExprOpAnd a b)))"
| "bindVars env (ExprOpOr a b) = bindr (bindVars env a) (\<lambda>a. bindr (bindVars env b) (\<lambda>b. Inr (ExprOpOr a b)))"
| "bindVars env (ExprOpImpl a b) = bindr (bindVars env a) (\<lambda>a. bindr (bindVars env b) (\<lambda>b. Inr (ExprOpImpl a b)))"
| "bindVars env (ExprOpUpdate a b) = bindr (bindVars env a) (\<lambda>a. bindr (bindVars env b) (\<lambda>b. Inr (ExprOpUpdate a b)))"
| "bindVars env (ExprOpConcatLists a b) =
     bindr (bindVars env a) (\<lambda>a. bindr (bindVars env b) (\<lambda>b. Inr (ExprOpConcatLists a b)))"
| "bindVars env (ExprConcatStrings i es) = bindr (mapr (bindVars env) es) (\<lambda>es. Inr (ExprConcatStrings i es))"
| "bindName env (AttrSymbol s) = Inr (AttrSymbol s)"
| "bindName env (AttrExpr e) = bindr (bindVars env e) (\<lambda>e. Inr (AttrExpr e))"
| "bindDef inner outer fromEnv (AttrDef name kind e) =
     bindr (bindVars (chooseByKind kind inner outer fromEnv) e) (\<lambda>e. Inr (AttrDef name kind e))"
| "bindDynamic env (DynamicAttr n v) = bindr (bindVars env n) (\<lambda>n. bindr (bindVars env v) (\<lambda>v. Inr (DynamicAttr n v)))"
| "bindPattern env (SimplePattern name) = Inr (SimplePattern name)"
| "bindPattern env (AttrsPattern name formals ellipsis) =
     bindr (mapr (bindFormal env) formals) (\<lambda>formals. Inr (AttrsPattern name formals ellipsis))"
| "bindFormal env (Formal name d) = bindr (bind_opt (bindVars env) d) (\<lambda>d. Inr (Formal name d))"

section \<open>Expressions that fit their environment\<close>

text \<open>
  At run time an environment is a chain of arrays; \<open>fs\<close> is the list of their lengths, innermost first. An expression is scoped if
  every place it refers to exists. The array of a \<^verbatim>\<open>with\<close> has one element.
\<close>

fun with_ok :: "nat list \<Rightarrow> withRef \<Rightarrow> bool" where
  "with_ok fs (WithRef prev None) = True"
| "with_ok fs (WithRef prev (Some w)) \<longleftrightarrow> prev < length fs \<and> 0 < fs ! prev \<and> with_ok (drop prev fs) w"

fun binding_ok :: "nat list \<Rightarrow> binding \<Rightarrow> bool" where
  "binding_ok fs Unbound = False"
| "binding_ok fs (Bound l d) \<longleftrightarrow> l < length fs \<and> d < fs ! l"
| "binding_ok fs (FromWith l w) \<longleftrightarrow> l < length fs \<and> 0 < fs ! l \<and> with_ok (drop l fs) w"

fun pattern_slots :: "pattern \<Rightarrow> nat" where
  "pattern_slots (SimplePattern name) = 1"
| "pattern_slots (AttrsPattern name formals ellipsis) = length formals + (if name \<noteq> 0 then 1 else 0)"

definition names_ok :: "Symbol list \<Rightarrow> bool" where
  "names_ok names = sorted_wrt (<) names"

definition from_count :: "'a list option \<Rightarrow> nat" where
  "from_count from = (case from of None \<Rightarrow> 0 | Some es \<Rightarrow> length es)"

fun scoped :: "nat list \<Rightarrow> expr \<Rightarrow> bool"
  and scoped_name :: "nat list \<Rightarrow> attr_name \<Rightarrow> bool"
  and scoped_def :: "nat list \<Rightarrow> nat list \<Rightarrow> nat list \<Rightarrow> bool \<Rightarrow> attr_def \<Rightarrow> bool"
  and scoped_dynamic :: "nat list \<Rightarrow> dynamic_attr \<Rightarrow> bool"
  and scoped_pattern :: "nat list \<Rightarrow> pattern \<Rightarrow> bool"
  and scoped_formal :: "nat list \<Rightarrow> formal \<Rightarrow> bool" where
  "scoped fs (ExprLiteral l) = True"
| "scoped fs (ExprVar name needsRoot b) = binding_ok fs b"
| "scoped fs (ExprInheritFrom d) \<longleftrightarrow> fs \<noteq> [] \<and> d < hd fs"
| "scoped fs (ExprSelect e path d) \<longleftrightarrow> scoped fs e \<and> (\<forall>p \<in> set path. scoped_name fs p) \<and> (\<forall>x \<in> set_option d. scoped fs x)"
| "scoped fs (ExprOpHasAttr e path) \<longleftrightarrow> scoped fs e \<and> (\<forall>p \<in> set path. scoped_name fs p)"
| "scoped fs (ExprSet recursive attrs from dyn) \<longleftrightarrow>
     (let inner = (if recursive then length attrs # fs else fs)
      in names_ok (map def_name attrs) \<and> (\<forall>xs \<in> set_option from. \<forall>x \<in> set xs. scoped inner x)
         \<and> (\<forall>x \<in> set attrs. scoped_def inner fs (from_count from # inner) (from \<noteq> None) x)
         \<and> (\<forall>x \<in> set dyn. scoped_dynamic inner x))"
| "scoped fs (ExprList es) \<longleftrightarrow> (\<forall>x \<in> set es. scoped fs x)"
| "scoped fs (ExprLambda p body) \<longleftrightarrow> scoped_pattern (pattern_slots p # fs) p \<and> scoped (pattern_slots p # fs) body"
| "scoped fs (ExprCall f args) \<longleftrightarrow> scoped fs f \<and> (\<forall>x \<in> set args. scoped fs x)"
| "scoped fs (ExprLet attrs from body) \<longleftrightarrow>
     (let inner = length attrs # fs
      in names_ok (map def_name attrs) \<and> (\<forall>xs \<in> set_option from. \<forall>x \<in> set xs. scoped inner x)
         \<and> (\<forall>x \<in> set attrs. scoped_def inner fs (from_count from # inner) (from \<noteq> None) x) \<and> scoped inner body)"
| "scoped fs (ExprWith attrs body w) \<longleftrightarrow> scoped fs attrs \<and> scoped (1 # fs) body"
| "scoped fs (ExprIf c t e) \<longleftrightarrow> scoped fs c \<and> scoped fs t \<and> scoped fs e"
| "scoped fs (ExprAssert c b) \<longleftrightarrow> scoped fs c \<and> scoped fs b"
| "scoped fs (ExprOpNot e) = scoped fs e"
| "scoped fs (ExprOpEq a b) \<longleftrightarrow> scoped fs a \<and> scoped fs b"
| "scoped fs (ExprOpNEq a b) \<longleftrightarrow> scoped fs a \<and> scoped fs b"
| "scoped fs (ExprOpAnd a b) \<longleftrightarrow> scoped fs a \<and> scoped fs b"
| "scoped fs (ExprOpOr a b) \<longleftrightarrow> scoped fs a \<and> scoped fs b"
| "scoped fs (ExprOpImpl a b) \<longleftrightarrow> scoped fs a \<and> scoped fs b"
| "scoped fs (ExprOpUpdate a b) \<longleftrightarrow> scoped fs a \<and> scoped fs b"
| "scoped fs (ExprOpConcatLists a b) \<longleftrightarrow> scoped fs a \<and> scoped fs b"
| "scoped fs (ExprConcatStrings i es) \<longleftrightarrow> (\<forall>x \<in> set es. scoped fs x)"
| "scoped_name fs (AttrSymbol s) = True"
| "scoped_name fs (AttrExpr e) = scoped fs e"
| "scoped_def inner outer fromFs hasFrom (AttrDef name kind e) \<longleftrightarrow>
     (kind = InheritedFrom \<longrightarrow> hasFrom) \<and> scoped (chooseByKind kind inner outer fromFs) e"
| "scoped_dynamic fs (DynamicAttr n v) \<longleftrightarrow> scoped fs n \<and> scoped fs v"
| "scoped_pattern fs (SimplePattern name) = True"
| "scoped_pattern fs (AttrsPattern name formals ellipsis) \<longleftrightarrow>
     names_ok (map formal_name formals) \<and> (\<forall>x \<in> set formals. scoped_formal fs x)"
| "scoped_formal fs (Formal name d) \<longleftrightarrow> (\<forall>x \<in> set_option d. scoped fs x)"

text \<open>
  What the parser guarantees: attributes and formals come sorted and without duplicates, and the pseudo-expression for the source of
  an \<^verbatim>\<open>inherit (from)\<close> occurs only where its environment is the innermost one. \<open>k\<close> is the number of its sources there.
\<close>

fun parsed :: "nat option \<Rightarrow> expr \<Rightarrow> bool"
  and parsed_name :: "nat option \<Rightarrow> attr_name \<Rightarrow> bool"
  and parsed_def :: "nat option \<Rightarrow> nat option \<Rightarrow> nat option \<Rightarrow> attr_def \<Rightarrow> bool"
  and parsed_dynamic :: "nat option \<Rightarrow> dynamic_attr \<Rightarrow> bool"
  and parsed_pattern :: "pattern \<Rightarrow> bool"
  and parsed_formal :: "formal \<Rightarrow> bool" where
  "parsed k (ExprLiteral l) = True"
| "parsed k (ExprVar name needsRoot b) = True"
| "parsed k (ExprInheritFrom d) \<longleftrightarrow> (case k of None \<Rightarrow> False | Some n \<Rightarrow> d < n)"
| "parsed k (ExprSelect e path d) \<longleftrightarrow> parsed k e \<and> (\<forall>p \<in> set path. parsed_name k p) \<and> (\<forall>x \<in> set_option d. parsed k x)"
| "parsed k (ExprOpHasAttr e path) \<longleftrightarrow> parsed k e \<and> (\<forall>p \<in> set path. parsed_name k p)"
| "parsed k (ExprSet recursive attrs from dyn) \<longleftrightarrow>
     (let inner = (if recursive then None else k)
      in names_ok (map def_name attrs) \<and> (\<forall>xs \<in> set_option from. \<forall>x \<in> set xs. parsed inner x)
         \<and> (\<forall>x \<in> set attrs. parsed_def inner k (if from = None then None else Some (from_count from)) x)
         \<and> (\<forall>x \<in> set dyn. parsed_dynamic inner x))"
| "parsed k (ExprList es) \<longleftrightarrow> (\<forall>x \<in> set es. parsed k x)"
| "parsed k (ExprLambda p body) \<longleftrightarrow> parsed_pattern p \<and> parsed None body"
| "parsed k (ExprCall f args) \<longleftrightarrow> parsed k f \<and> (\<forall>x \<in> set args. parsed k x)"
| "parsed k (ExprLet attrs from body) \<longleftrightarrow>
     names_ok (map def_name attrs) \<and> (\<forall>xs \<in> set_option from. \<forall>x \<in> set xs. parsed None x)
     \<and> (\<forall>x \<in> set attrs. parsed_def None k (if from = None then None else Some (from_count from)) x) \<and> parsed None body"
| "parsed k (ExprWith attrs body w) \<longleftrightarrow> parsed k attrs \<and> parsed None body"
| "parsed k (ExprIf c t e) \<longleftrightarrow> parsed k c \<and> parsed k t \<and> parsed k e"
| "parsed k (ExprAssert c b) \<longleftrightarrow> parsed k c \<and> parsed k b"
| "parsed k (ExprOpNot e) = parsed k e"
| "parsed k (ExprOpEq a b) \<longleftrightarrow> parsed k a \<and> parsed k b"
| "parsed k (ExprOpNEq a b) \<longleftrightarrow> parsed k a \<and> parsed k b"
| "parsed k (ExprOpAnd a b) \<longleftrightarrow> parsed k a \<and> parsed k b"
| "parsed k (ExprOpOr a b) \<longleftrightarrow> parsed k a \<and> parsed k b"
| "parsed k (ExprOpImpl a b) \<longleftrightarrow> parsed k a \<and> parsed k b"
| "parsed k (ExprOpUpdate a b) \<longleftrightarrow> parsed k a \<and> parsed k b"
| "parsed k (ExprOpConcatLists a b) \<longleftrightarrow> parsed k a \<and> parsed k b"
| "parsed k (ExprConcatStrings i es) \<longleftrightarrow> (\<forall>x \<in> set es. parsed k x)"
| "parsed_name k (AttrSymbol s) = True"
| "parsed_name k (AttrExpr e) = parsed k e"
| "parsed_def inner outer fromK (AttrDef name kind e) \<longleftrightarrow>
     (kind = InheritedFrom \<longrightarrow> fromK \<noteq> None) \<and> parsed (chooseByKind kind inner outer fromK) e"
| "parsed_dynamic k (DynamicAttr n v) \<longleftrightarrow> parsed k n \<and> parsed k v"
| "parsed_pattern (SimplePattern name) = True"
| "parsed_pattern (AttrsPattern name formals ellipsis) \<longleftrightarrow>
     names_ok (map formal_name formals) \<and> (\<forall>x \<in> set formals. parsed_formal x)"
| "parsed_formal (Formal name d) \<longleftrightarrow> (\<forall>x \<in> set_option d. parsed None x)"

section \<open>The pass produces scoped expressions\<close>

fun env_match :: "StaticEnv \<Rightarrow> nat list \<Rightarrow> bool" where
  "env_match [] fs = (fs = [])"
| "env_match (StaticWith w # env) fs \<longleftrightarrow> fs \<noteq> [] \<and> hd fs = 1 \<and> with_ok fs w \<and> env_match env (tl fs)"
| "env_match (StaticVars isRoot vars # env) fs \<longleftrightarrow>
     fs \<noteq> [] \<and> omap_ok vars \<and> (\<forall>x \<in> set vars. snd x < hd fs) \<and> env_match env (tl fs)"

lemma bindVar_loop_found:
  "bindVar_loop name needsRoot env level wl = Inr (Some (l, d), wl') \<Longrightarrow> env_match env fs \<Longrightarrow>
   \<exists>j. l = level + j \<and> j < length fs \<and> d < fs ! j"
proof (induction name needsRoot env level wl arbitrary: fs rule: bindVar_loop.induct)
  case (2 name needsRoot w env level wl)
  then obtain f fs' where f: "fs = f # fs'" "env_match env fs'" by (cases fs) auto
  from "2.IH" [OF _ f(2)] "2.prems"(1) obtain j where "l = level + 1 + j" "j < length fs'" "d < fs' ! j" by auto
  then show ?case using f(1) by (intro exI [of _ "Suc j"]) auto
next
  case (3 name needsRoot isRoot vars env level wl)
  then obtain f fs' where f: "fs = f # fs'" "env_match env fs'" "omap_ok vars" "\<forall>x \<in> set vars. snd x < f" by (cases fs) auto
  show ?case
  proof (cases "lm_find name vars")
    case None
    from "3.IH" [OF None _ f(2)] "3.prems"(1) None obtain j where "l = level + 1 + j" "j < length fs'" "d < fs' ! j" by auto
    then show ?thesis using f(1) by (intro exI [of _ "Suc j"]) auto
  next
    case (Some d')
    then have "l = level" "d = d'" "(name, d') \<in> set vars"
      using "3.prems"(1) f(3) by (auto simp: lm_find_def sorted_get_map_of map_of_SomeD split: if_splits)
    then show ?thesis using f by (intro exI [of _ 0]) auto
  qed
qed simp

lemma bindVar_loop_with:
  "bindVar_loop name needsRoot env level wl = Inr (None, wl') \<Longrightarrow>
   (wl \<noteq> None \<longrightarrow> wl' = wl) \<and> (wl = None \<longrightarrow> (case wl' of None \<Rightarrow> nearestWith env = None | Some l \<Rightarrow> l = prevWith_loop env level \<and> nearestWith env \<noteq> None))"
  by (induction name needsRoot env level wl rule: bindVar_loop.induct) (auto split: option.splits if_splits)

lemma nearest_with:
  "env_match env fs \<Longrightarrow> nearestWith env = Some w \<Longrightarrow>
   \<exists>j. prevWith_loop env level = level + j \<and> j < length fs \<and> 0 < fs ! j \<and> with_ok (drop j fs) w"
proof (induction env level arbitrary: fs rule: prevWith_loop.induct)
  case (2 v env level)
  then show ?case by (intro exI [of _ 0]) (auto simp: hd_conv_nth)
next
  case (3 isRoot vars env level)
  then obtain f fs' where f: "fs = f # fs'" "env_match env fs'" by (cases fs) auto
  from "3.IH" [OF f(2)] "3.prems"(2) obtain j where "prevWith_loop env (level + 1) = level + 1 + j" "j < length fs'" "0 < fs' ! j"
    "with_ok (drop j fs') w" by auto
  then show ?case using f(1) by (intro exI [of _ "Suc j"]) auto
qed simp

lemma bindVar_ok:
  assumes "bindVar name needsRoot env = Inr b" and "env_match env fs"
  shows "binding_ok fs b"
proof -
  obtain found wl where l: "bindVar_loop name needsRoot env 0 None = Inr (found, wl)" using assms(1) by (auto simp: bindVar_def bindr_eq_Inr_iff)
  show ?thesis
  proof (cases found)
    case None
    then obtain level w where w: "wl = Some level" "nearestWith env = Some w" "b = FromWith level w"
      using assms(1) l by (auto simp: bindVar_def split: option.splits)
    have "level = prevWith_loop env 0" using bindVar_loop_with [of name needsRoot env 0 None wl] l None w(1) by auto
    then show ?thesis using nearest_with [OF assms(2) w(2), of 0] w(3) by auto
  next
    case (Some x)
    obtain lv d where x: "x = (lv, d)" by fastforce
    then have "b = Bound lv d" using assms(1) l Some by (simp add: bindVar_def)
    then show ?thesis using bindVar_loop_found [OF l [unfolded Some x] assms(2)] by auto
  qed
qed

lemma bindWith_ok:
  assumes "env_match env fs"
  shows "with_ok (1 # fs) (bindWith env)"
proof (cases "nearestWith env")
  case (Some w)
  from nearest_with [OF assms Some, of 1] obtain j where "prevWith_loop env 1 = Suc j" "j < length fs" "0 < fs ! j" "with_ok (drop j fs) w"
    by auto
  then show ?thesis using Some by (simp add: bindWith_def)
qed (simp add: bindWith_def)

lemma zip_upt_ok: "names_ok ns \<Longrightarrow> omap_ok (zip ns [i..<i + length ns]) \<and> (\<forall>x \<in> set (zip ns [i..<i + length ns]). snd x < i + length ns)"
proof -
  assume "names_ok ns"
  moreover have "map fst (zip ns [i..<i + length ns]) = ns" by simp
  ultimately show ?thesis by (auto simp: omap_ok_def names_ok_def dest: set_zip_rightD)
qed

lemma set_dedup: "set (dedup_last xs) \<subseteq> set xs"
  by (induction xs rule: dedup_last.induct) auto

lemma set_insert_bulk: "set (lm_insert_bulk ys xs) \<subseteq> set xs \<union> set ys"
  using set_dedup [of "inplace_merge xs ys"] by (auto simp: lm_insert_bulk_def)

lemma insert_single: "lm_insert_or_assign k v [] = [(k, v)]"
  by (simp add: lm_insert_or_assign_def)

lemma match_recursive: "env_match env fs \<Longrightarrow> names_ok (map def_name attrs) \<Longrightarrow> env_match (buildRecursiveEnv attrs env) (length attrs # fs)"
  using zip_upt_ok [of "map def_name attrs" 0] set_insert_bulk [of "zip (map def_name attrs) [0..<length attrs]" "[]"]
    lm_insert_bulk_lookup(2) [of "[]" "zip (map def_name attrs) [0..<length attrs]"]
  by (fastforce simp: buildRecursiveEnv_def)

lemma match_inherit: "env_match env fs \<Longrightarrow> env_match (inheritFromEnv env) (n # fs)"
  by (simp add: inheritFromEnv_def)

lemma match_pattern: "env_match env fs \<Longrightarrow> parsed_pattern p \<Longrightarrow> env_match (buildEnv p env) (pattern_slots p # fs)"
proof (cases p)
  case (AttrsPattern name formals ellipsis)
  assume env: "env_match env fs" and "parsed_pattern p"
  then have names: "names_ok (map formal_name formals)" using AttrsPattern by simp
  define i :: nat where "i = (if name \<noteq> 0 then 1 else 0)"
  define named :: "(Symbol \<times> nat) list" where "named = (if name \<noteq> 0 then lm_insert_or_assign name 0 [] else [])"
  let ?z = "zip (map formal_name formals) [i..<i + length formals]"
  have z: "omap_ok ?z" "\<forall>x \<in> set ?z. snd x < i + length formals" using zip_upt_ok [OF names, of i] by auto
  have n: "omap_ok named" "\<forall>x \<in> set named. snd x < i + length formals" by (auto simp: named_def i_def insert_single)
  have "\<forall>x \<in> set (lm_insert_bulk ?z named). snd x < i + length formals" using set_insert_bulk [of ?z named] z(2) n(2) by blast
  then have "env_match (StaticVars False (lm_insert_bulk ?z named) # env) ((i + length formals) # fs)"
    using env lm_insert_bulk_lookup(2) [OF n(1) z(1)] by simp
  moreover have "pattern_slots p = i + length formals" by (simp add: AttrsPattern i_def)
  moreover have "buildEnv p env = StaticVars False (lm_insert_bulk ?z named) # env" by (simp add: AttrsPattern i_def named_def Let_def)
  ultimately show ?thesis by simp
qed (simp add: insert_single)

lemma bindDef_name: "bindDef inner outer fromEnv x = Inr y \<Longrightarrow> def_name y = def_name x \<and> def_kind y = def_kind x"
  by (cases x) (auto simp: bindr_eq_Inr_iff)

lemma bindFormal_name: "bindFormal env x = Inr y \<Longrightarrow> formal_name y = formal_name x"
  by (cases x) (auto simp: bindr_eq_Inr_iff)

lemma mapr_map_eq: "mapr f xs = Inr ys \<Longrightarrow> (\<And>x y. x \<in> set xs \<Longrightarrow> f x = Inr y \<Longrightarrow> g y = g x) \<Longrightarrow> map g ys = map g xs"
proof (induction xs arbitrary: ys)
  case (Cons x xs)
  then obtain z zs where z: "f x = Inr z" "mapr f xs = Inr zs" "ys = z # zs" by (auto simp: bindr_eq_Inr_iff)
  show ?case using Cons.IH [OF z(2)] Cons.prems(2) [OF _ z(1)] Cons.prems(2) z(3) by simp
qed simp

definition frame_ok :: "nat option \<Rightarrow> nat list \<Rightarrow> bool" where
  "frame_ok k fs \<longleftrightarrow> (\<forall>n. k = Some n \<longrightarrow> fs \<noteq> [] \<and> hd fs = n)"

lemma frame_ok_simps [simp]: "frame_ok None fs" "frame_ok (Some n) (m # fs) \<longleftrightarrow> n = m"
  by (auto simp: frame_ok_def)

lemma bind_opt_set: "bind_opt f x = Inr r \<Longrightarrow> y \<in> set_option r \<Longrightarrow> \<exists>z \<in> set_option x. f z = Inr y"
  by (auto simp: bind_opt_Inr)

lemma from_count_bind: "bind_opt (mapr f) x = Inr r \<Longrightarrow> from_count r = from_count x \<and> (r \<noteq> None) = (x \<noteq> None)"
  by (auto simp: bind_opt_Inr from_count_def dest: mapr_length)

lemma bind_scoped_all:
  "bindVars env e = Inr e' \<Longrightarrow> parsed k e \<Longrightarrow> env_match env fs \<Longrightarrow> frame_ok k fs \<Longrightarrow> scoped fs e'"
  "bindName env n = Inr n' \<Longrightarrow> parsed_name k n \<Longrightarrow> env_match env fs \<Longrightarrow> frame_ok k fs \<Longrightarrow> scoped_name fs n'"
  "bindDef inner outer fromEnv x = Inr x' \<Longrightarrow> parsed_def ki ko kf x \<Longrightarrow> env_match inner fi \<Longrightarrow> env_match outer fo \<Longrightarrow>
   env_match fromEnv ff \<Longrightarrow> frame_ok ki fi \<Longrightarrow> frame_ok ko fo \<Longrightarrow> frame_ok kf ff \<Longrightarrow> scoped_def fi fo ff (kf \<noteq> None) x'"
  "bindDynamic env d = Inr d' \<Longrightarrow> parsed_dynamic k d \<Longrightarrow> env_match env fs \<Longrightarrow> frame_ok k fs \<Longrightarrow> scoped_dynamic fs d'"
  "bindPattern env p = Inr p' \<Longrightarrow> parsed_pattern p \<Longrightarrow> env_match env fs \<Longrightarrow>
   scoped_pattern fs p' \<and> pattern_slots p' = pattern_slots p"
  "bindFormal env f = Inr f' \<Longrightarrow> parsed_formal f \<Longrightarrow> env_match env fs \<Longrightarrow> scoped_formal fs f'"
proof (induction env e and env n and inner outer fromEnv x and env d and env p and env f
    arbitrary: e' k fs and n' k fs and x' ki ko kf fi fo ff and d' k fs and p' fs and f' fs
    rule: bindVars_bindName_bindDef_bindDynamic_bindPattern_bindFormal.induct)
  case (2 env name needsRoot b)
  then show ?case using bindVar_ok by (auto simp: bindr_eq_Inr_iff)
next
  case (3 env d)
  then show ?case by (auto simp: frame_ok_def split: option.splits)
next
  case (4 env e path d)
  then obtain e1 d1 path1 where b: "bindVars env e = Inr e1" "bind_opt (bindVars env) d = Inr d1" "mapr (bindName env) path = Inr path1"
    "e' = ExprSelect e1 path1 d1" by (auto simp: bindr_eq_Inr_iff)
  have p: "parsed k e" "\<forall>p \<in> set path. parsed_name k p" "\<forall>x \<in> set_option d. parsed k x" using "4.prems"(2) by auto
  have "scoped fs e1" by (rule "4.IH"(1) [OF b(1) p(1) "4.prems"(3,4)])
  moreover have "scoped fs y" if "y \<in> set_option d1" for y
    using bind_opt_set [OF b(2) that] "4.IH"(2) [OF b(1)] p(3) "4.prems"(3,4) by blast
  moreover have "scoped_name fs y" if "y \<in> set path1" for y
    using mapr_set [OF b(3) that] "4.IH"(3) [OF b(1,2)] p(2) "4.prems"(3,4) by blast
  ultimately show ?case using b(4) by simp
next
  case (5 env e path)
  then obtain e1 path1 where b: "bindVars env e = Inr e1" "mapr (bindName env) path = Inr path1" "e' = ExprOpHasAttr e1 path1"
    by (auto simp: bindr_eq_Inr_iff)
  have p: "parsed k e" "\<forall>p \<in> set path. parsed_name k p" using "5.prems"(2) by auto
  have "scoped fs e1" by (rule "5.IH"(1) [OF b(1) p(1) "5.prems"(3,4)])
  moreover have "scoped_name fs y" if "y \<in> set path1" for y
    using mapr_set [OF b(2) that] "5.IH"(2) [OF b(1)] p(2) "5.prems"(3,4) by blast
  ultimately show ?case using b(3) by simp
next
  case (6 env recursive attrs "from" dyn)
  let ?inner = "if recursive then buildRecursiveEnv attrs env else env"
  let ?fi = "if recursive then length attrs # fs else fs" and ?ki = "if recursive then None else k"
  obtain from1 attrs1 dyn1 where b: "bind_opt (mapr (bindVars ?inner)) from = Inr from1"
    "mapr (bindDef ?inner env (inheritFromEnv ?inner)) attrs = Inr attrs1" "mapr (bindDynamic ?inner) dyn = Inr dyn1"
    "e' = ExprSet recursive attrs1 from1 dyn1" using "6.prems"(1) by (auto simp: bindr_eq_Inr_iff Let_def)
  have p: "names_ok (map def_name attrs)" "\<forall>xs \<in> set_option from. \<forall>x \<in> set xs. parsed ?ki x"
    "\<forall>x \<in> set attrs. parsed_def ?ki k (if from = None then None else Some (from_count from)) x"
    "\<forall>x \<in> set dyn. parsed_dynamic ?ki x" using "6.prems"(2) by (auto simp: Let_def split: if_splits)
  have m: "env_match ?inner ?fi" "frame_ok ?ki ?fi" using match_recursive [OF "6.prems"(3) p(1)] "6.prems"(3,4) by auto
  have names: "map def_name attrs1 = map def_name attrs" by (rule mapr_map_eq [OF b(2)]) (auto dest: bindDef_name)
  then have len: "length attrs1 = length attrs" by (metis length_map)
  have f: "scoped ?fi y" if y: "ys \<in> set_option from1" "y \<in> set ys" for ys y
  proof -
    obtain zs where zs: "zs \<in> set_option from" "mapr (bindVars ?inner) zs = Inr ys" using bind_opt_set [OF b(1) y(1)] by blast
    obtain z where z: "z \<in> set zs" "bindVars ?inner z = Inr y" using mapr_set [OF zs(2) y(2)] by blast
    show ?thesis using "6.IH"(1) [OF refl zs(1) z(1) z(2) _ m] p(2) zs(1) z(1) by blast
  qed
  have a: "scoped_def ?fi fs (from_count from # ?fi) (from \<noteq> None) y" if y: "y \<in> set attrs1" for y
  proof -
    obtain z where z: "z \<in> set attrs" "bindDef ?inner env (inheritFromEnv ?inner) z = Inr y" using mapr_set [OF b(2) y] by blast
    have "scoped_def ?fi fs (from_count from # ?fi) ((if from = None then None else Some (from_count from)) \<noteq> None) y"
      by (rule "6.IH"(2) [OF refl b(1) z(1) z(2) _ m(1) "6.prems"(3) match_inherit [OF m(1)] m(2) "6.prems"(4)]) (use p(3) z(1) in auto)
    then show ?thesis by (simp split: if_splits)
  qed
  have dy: "scoped_dynamic ?fi y" if "y \<in> set dyn1" for y
    using mapr_set [OF b(3) that] "6.IH"(3) [OF refl b(1,2) _ _ _ m] p(4) by blast
  show ?case unfolding b(4) using f a dy p(1) names len from_count_bind [OF b(1)] by (cases recursive) (auto simp: Let_def)
next
  case (8 env p body)
  obtain p1 body1 where b: "bindPattern (buildEnv p env) p = Inr p1" "bindVars (buildEnv p env) body = Inr body1" "e' = ExprLambda p1 body1"
    using "8.prems"(1) by (auto simp: bindr_eq_Inr_iff Let_def)
  have p: "parsed_pattern p" "parsed None body" using "8.prems"(2) by auto
  have m: "env_match (buildEnv p env) (pattern_slots p # fs)" by (rule match_pattern [OF "8.prems"(3) p(1)])
  from "8.IH"(1) [OF refl b(1) p(1) m] "8.IH"(2) [OF refl b(1) b(2) p(2) m] show ?case using b(3) by simp
next
  case (10 env attrs "from" body)
  let ?inner = "buildRecursiveEnv attrs env" and ?fi = "length attrs # fs"
  obtain from1 attrs1 body1 where b: "bind_opt (mapr (bindVars ?inner)) from = Inr from1"
    "mapr (bindDef ?inner env (inheritFromEnv ?inner)) attrs = Inr attrs1" "bindVars ?inner body = Inr body1"
    "e' = ExprLet attrs1 from1 body1" using "10.prems"(1) by (auto simp: bindr_eq_Inr_iff Let_def)
  have p: "names_ok (map def_name attrs)" "\<forall>xs \<in> set_option from. \<forall>x \<in> set xs. parsed None x"
    "\<forall>x \<in> set attrs. parsed_def None k (if from = None then None else Some (from_count from)) x"
    "parsed None body" using "10.prems"(2) by auto
  have m: "env_match ?inner ?fi" using match_recursive [OF "10.prems"(3) p(1)] .
  have names: "map def_name attrs1 = map def_name attrs" by (rule mapr_map_eq [OF b(2)]) (auto dest: bindDef_name)
  then have len: "length attrs1 = length attrs" by (metis length_map)
  have f: "scoped ?fi y" if y: "ys \<in> set_option from1" "y \<in> set ys" for ys y
  proof -
    obtain zs where zs: "zs \<in> set_option from" "mapr (bindVars ?inner) zs = Inr ys" using bind_opt_set [OF b(1) y(1)] by blast
    obtain z where z: "z \<in> set zs" "bindVars ?inner z = Inr y" using mapr_set [OF zs(2) y(2)] by blast
    show ?thesis by (rule "10.IH"(1) [OF refl zs(1) z(1) z(2) _ m frame_ok_simps(1)]) (use p(2) zs(1) z(1) in blast)
  qed
  have a: "scoped_def ?fi fs (from_count from # ?fi) (from \<noteq> None) y" if y: "y \<in> set attrs1" for y
  proof -
    obtain z where z: "z \<in> set attrs" "bindDef ?inner env (inheritFromEnv ?inner) z = Inr y" using mapr_set [OF b(2) y] by blast
    have "scoped_def ?fi fs (from_count from # ?fi) ((if from = None then None else Some (from_count from)) \<noteq> None) y"
      by (rule "10.IH"(2) [OF refl b(1) z(1) z(2) _ m "10.prems"(3) match_inherit [OF m] frame_ok_simps(1) "10.prems"(4)]) (use p(3) z(1) in auto)
    then show ?thesis by (simp split: if_splits)
  qed
  have "scoped ?fi body1" by (rule "10.IH"(3) [OF refl b(1,2,3) p(4) m frame_ok_simps(1)])
  then show ?case unfolding b(4) using f a p(1) names len from_count_bind [OF b(1)] by (auto simp: Let_def)
next
  case (11 env attrs body w)
  obtain attrs1 body1 where b: "bindVars env attrs = Inr attrs1" "bindVars (StaticWith (bindWith env) # env) body = Inr body1"
    "e' = ExprWith attrs1 body1 (bindWith env)" using "11.prems"(1) by (auto simp: bindr_eq_Inr_iff Let_def)
  have m: "env_match (StaticWith (bindWith env) # env) (1 # fs)" using bindWith_ok "11.prems"(3) by simp
  show ?case using "11.IH"(1) [OF refl b(1) _ "11.prems"(3,4)] "11.IH"(2) [OF refl b(1) b(2) _ m frame_ok_simps(1)] "11.prems"(2) b(3) by simp
next
  case (7 env es)
  then obtain es1 where b: "mapr (bindVars env) es = Inr es1" "e' = ExprList es1" by (auto simp: bindr_eq_Inr_iff)
  have "scoped fs y" if "y \<in> set es1" for y using mapr_set [OF b(1) that] "7.IH" "7.prems" by auto
  then show ?case using b(2) by simp
next
  case (9 env f args)
  then obtain f1 args1 where b: "bindVars env f = Inr f1" "mapr (bindVars env) args = Inr args1" "e' = ExprCall f1 args1"
    by (auto simp: bindr_eq_Inr_iff)
  have "scoped fs y" if "y \<in> set args1" for y using mapr_set [OF b(2) that] "9.IH"(2) [OF b(1)] "9.prems" by auto
  then show ?case using "9.IH"(1) [OF b(1) _ "9.prems"(3,4)] "9.prems"(2) b(3) by simp
next
  case (22 env i es)
  then obtain es1 where b: "mapr (bindVars env) es = Inr es1" "e' = ExprConcatStrings i es1" by (auto simp: bindr_eq_Inr_iff)
  have "scoped fs y" if "y \<in> set es1" for y using mapr_set [OF b(1) that] "22.IH" "22.prems" by auto
  then show ?case using b(2) by simp
next
  case (25 inner outer fromEnv name kind e)
  obtain e1 where b: "bindVars (chooseByKind kind inner outer fromEnv) e = Inr e1" "x' = AttrDef name kind e1"
    using "25.prems"(1) by (auto simp: bindr_eq_Inr_iff)
  have "scoped (chooseByKind kind fi fo ff) e1"
    by (rule "25.IH" [OF b(1), of "chooseByKind kind ki ko kf"]) (use "25.prems" in \<open>cases kind; simp\<close>)+
  then show ?case using b(2) "25.prems"(2) by simp
next
  case (28 env name formals ellipsis)
  obtain formals1 where b: "mapr (bindFormal env) formals = Inr formals1" "p' = AttrsPattern name formals1 ellipsis"
    using "28.prems"(1) by (auto simp: bindr_eq_Inr_iff)
  have names: "map formal_name formals1 = map formal_name formals" by (rule mapr_map_eq [OF b(1)]) (auto dest: bindFormal_name)
  then have "length formals1 = length formals" by (metis length_map)
  moreover have "scoped_formal fs y" if "y \<in> set formals1" for y using mapr_set [OF b(1) that] "28.IH" "28.prems"(2,3) by fastforce
  ultimately show ?case using b(2) names "28.prems"(2) by simp
next
  case (29 env name d)
  then show ?case by (auto simp: bindr_eq_Inr_iff bind_opt_Inr)
qed (auto simp: bindr_eq_Inr_iff)

section \<open>Lexical scope\<close>

text \<open>The displacement that a scope gives to a name, if it declares it; a \<^verbatim>\<open>with\<close> declares nothing statically.\<close>

fun declares :: "Symbol \<Rightarrow> static_scope \<Rightarrow> nat option" where
  "declares name (StaticWith w) = None"
| "declares name (StaticVars isRoot vars) = map_of vars name"

fun scope_ok :: "static_scope \<Rightarrow> bool" where
  "scope_ok (StaticWith w) = True"
| "scope_ok (StaticVars isRoot vars) = omap_ok vars"

lemma first_index_Cons:
  "(\<exists>j < length (x # xs). l = level + j \<and> f ((x # xs) ! j) = Some d \<and> (\<forall>i < j. f ((x # xs) ! i) = None)) \<longleftrightarrow>
   l = level \<and> f x = Some d \<or>
   f x = None \<and> (\<exists>j < length xs. l = (level + 1) + j \<and> f (xs ! j) = Some d \<and> (\<forall>i < j. f (xs ! i) = None))"
  by (simp add: Ex_less_Suc2 All_less_Suc2) metis

lemma bindVar_loop_Some:
  "\<forall>s \<in> set env. scope_ok s \<Longrightarrow>
   (\<exists>wl'. bindVar_loop name False env level wl = Inr (Some (l, d), wl')) \<longleftrightarrow>
   (\<exists>j < length env. l = level + j \<and> declares name (env ! j) = Some d \<and> (\<forall>i < j. declares name (env ! i) = None))"
proof (induction name False env level wl rule: bindVar_loop.induct)
  case (2 name w env level wl)
  then show ?case unfolding first_index_Cons by simp
next
  case (3 name isRoot vars env level wl)
  then have vars: "lm_find name vars = map_of vars name" by (simp add: lm_find_def sorted_get_map_of)
  show ?case
  proof (cases "map_of vars name")
    case None
    with vars have none: "lm_find name vars = None" by simp
    show ?thesis unfolding first_index_Cons using 3(1) [OF none] 3(2) none None by simp
  next
    case (Some x)
    then show ?thesis unfolding first_index_Cons using vars by auto
  qed
qed simp

lemma bindVar_loop_result: "\<exists>found wl'. bindVar_loop name False env level wl = Inr (found, wl')"
  by (induction name False env level wl rule: bindVar_loop.induct) (auto split: option.splits)

lemma bindVar_loop_None:
  assumes "\<forall>s \<in> set env. scope_ok s"
  shows "(\<exists>wl. bindVar_loop name False env 0 None = Inr (None, wl)) \<longleftrightarrow> (\<forall>s \<in> set env. declares name s = None)"
proof -
  obtain found wl where l: "bindVar_loop name False env 0 None = Inr (found, wl)" using bindVar_loop_result by blast
  have "found = None \<longleftrightarrow> (\<forall>s \<in> set env. declares name s = None)"
  proof
    assume n: "found = None"
    show "\<forall>s \<in> set env. declares name s = None"
    proof (rule ccontr)
      assume "\<not> (\<forall>s \<in> set env. declares name s = None)"
      then have "\<exists>j. j < length env \<and> declares name (env ! j) \<noteq> None" by (metis in_set_conv_nth)
      from exists_least_iff [THEN iffD1, OF this] obtain j where "j < length env" "declares name (env ! j) \<noteq> None"
        "\<forall>i < j. declares name (env ! i) = None" by (auto dest: less_trans)
      then have "\<exists>d wl'. bindVar_loop name False env 0 None = Inr (Some (j, d), wl')" using bindVar_loop_Some [OF assms, of name 0 None j] by auto
      then show False using l n by simp
    qed
  next
    assume "\<forall>s \<in> set env. declares name s = None"
    then have "\<nexists>x d wl'. bindVar_loop name False env 0 None = Inr (Some (x, d), wl')" using bindVar_loop_Some [OF assms, of name 0 None] by auto
    then show "found = None" using l by (cases found) auto
  qed
  then show ?thesis using l by simp
qed

lemma bindVar_cases:
  assumes "\<forall>s \<in> set env. scope_ok s"
  shows "bindVar name False env = Inr (Bound l d) \<longleftrightarrow>
      l < length env \<and> declares name (env ! l) = Some d \<and> (\<forall>i < l. declares name (env ! i) = None)"
    and "bindVar name False env = Inr (FromWith l w) \<longleftrightarrow>
      (\<forall>s \<in> set env. declares name s = None) \<and> nearestWith env = Some w \<and> prevWith_loop env 0 = l"
    and "(\<exists>err. bindVar name False env = Inl err) \<longleftrightarrow> (\<forall>s \<in> set env. declares name s = None) \<and> nearestWith env = None"
proof -
  obtain found wl where l: "bindVar_loop name False env 0 None = Inr (found, wl)" using bindVar_loop_result by blast
  note none = bindVar_loop_None [OF assms, of name] and some = bindVar_loop_Some [OF assms, of name 0 None]
  have wl: "found = None \<Longrightarrow> (case wl of None \<Rightarrow> nearestWith env = None | Some l \<Rightarrow> l = prevWith_loop env 0 \<and> nearestWith env \<noteq> None)"
    using bindVar_loop_with [of name False env 0 None wl] l by simp
  show "bindVar name False env = Inr (Bound l d) \<longleftrightarrow>
      l < length env \<and> declares name (env ! l) = Some d \<and> (\<forall>i < l. declares name (env ! i) = None)"
    using l some [of l d] wl by (auto simp: bindVar_def split: option.splits prod.splits)
  show "bindVar name False env = Inr (FromWith l w) \<longleftrightarrow>
      (\<forall>s \<in> set env. declares name s = None) \<and> nearestWith env = Some w \<and> prevWith_loop env 0 = l"
    unfolding none [symmetric] using l wl by (auto simp: bindVar_def split: option.splits prod.splits)
  show "(\<exists>err. bindVar name False env = Inl err) \<longleftrightarrow> (\<forall>s \<in> set env. declares name s = None) \<and> nearestWith env = None"
    unfolding none [symmetric] using l wl by (auto simp: bindVar_def split: option.splits prod.splits)
qed

text \<open>C16: variables are bound lexically: a name is bound to level \<open>l\<close> and displacement \<open>d\<close> exactly if the \<open>l\<close>-th scope
  outwards is the innermost one that declares it and gives it \<open>d\<close>; the sets of the enclosing \<^verbatim>\<open>with\<close> expressions are used only
  for a name that no scope declares at all, however close they are, and then the innermost of them comes first; and a name that
  nothing declares outside any \<^verbatim>\<open>with\<close> is an error.\<close>

theorem bindVar_lexical:
  assumes "\<forall>s \<in> set env. scope_ok s"
  shows "(bindVar name False env = Inr (Bound l d) \<longleftrightarrow>
      l < length env \<and> declares name (env ! l) = Some d \<and> (\<forall>i < l. declares name (env ! i) = None)) \<and>
    (bindVar name False env = Inr (FromWith l w) \<longleftrightarrow>
      (\<forall>s \<in> set env. declares name s = None) \<and> nearestWith env = Some w \<and> prevWith_loop env 0 = l) \<and>
    ((\<exists>err. bindVar name False env = Inl err) \<longleftrightarrow> (\<forall>s \<in> set env. declares name s = None) \<and> nearestWith env = None)"
  using bindVar_cases [OF assms] by blast

theorem bindVar_lexical_witness:
  "bindVar 5 False [StaticWith (WithRef 0 None), StaticVars False [(5, 0)], StaticVars True [(5, 1), (7, 0)]] = Inr (Bound 1 0)"
  using bindVar_lexical [of "[StaticWith (WithRef 0 None), StaticVars False [(5, 0)], StaticVars True [(5, 1), (7, 0)]]" 5 1 0 "WithRef 0 None"]
  by (simp add: omap_ok_def)

text \<open>C15: an expression of the parser whose variables could all be bound refers only to what exists at run time: wherever it is evaluated
  in an environment of the shape that the static environment describes, every variable, every enclosing \<^verbatim>\<open>with\<close> and every
  source of an \<^verbatim>\<open>inherit (from)\<close>, at any depth, lies within the chain of environments and within the array it is looked up in.\<close>

theorem bind_scoped:
  assumes "bindVars env e = Inr e'" and "parsed None e" and "env_match env fs"
  shows "scoped fs e'"
  by (rule bind_scoped_all(1) [OF assms(1,2,3)]) simp

definition example_expr :: expr where
  "example_expr =
     ExprLet [AttrDef 60 Plain (ExprLiteral (LInt 1)), AttrDef 61 InheritedFrom (ExprSelect (ExprInheritFrom 0) [AttrSymbol 61] None)]
       (Some [ExprSet True [AttrDef 61 Plain (ExprVar 60 False Unbound)] None []])
       (ExprWith (ExprVar 70 False Unbound)
          (ExprLambda (AttrsPattern 63 [Formal 60 None, Formal 64 (Some (ExprVar 60 False Unbound))] True)
             (ExprList [ExprVar 61 False Unbound, ExprVar 64 False Unbound, ExprVar 99 False Unbound]))
          (WithRef 0 None))"

definition example_bound :: expr where
  "example_bound =
     ExprLet [AttrDef 60 Plain (ExprLiteral (LInt 1)), AttrDef 61 InheritedFrom (ExprSelect (ExprInheritFrom 0) [AttrSymbol 61] None)]
       (Some [ExprSet True [AttrDef 61 Plain (ExprVar 60 False (Bound 1 0))] None []])
       (ExprWith (ExprVar 70 False (Bound 1 0))
          (ExprLambda (AttrsPattern 63 [Formal 60 None, Formal 64 (Some (ExprVar 60 False (Bound 0 1)))] True)
             (ExprList [ExprVar 61 False (Bound 2 1), ExprVar 64 False (Bound 0 2), ExprVar 99 False (FromWith 1 (WithRef 0 None))]))
          (WithRef 0 None))"

theorem bind_scoped_witness: "scoped [1] example_bound"
proof (rule bind_scoped [of "[StaticVars True [(70, 0)]]" example_expr])
  show "bindVars [StaticVars True [(70, 0)]] example_expr = Inr example_bound" by code_simp
  show "parsed None example_expr" by (simp add: example_expr_def names_ok_def from_count_def)
  show "env_match [StaticVars True [(70, 0)]] [1]" by (simp add: omap_ok_def)
qed

end
