(* ===== verification/Lix_Value.thy ===== *)
theory Lix_Value
  imports Lix_Expr "HOL-Library.Signed_Division"
begin

text \<open>
  The values of the evaluator and the memory they live in (\<^verbatim>\<open>libexpr/value.hh\<close>, \<^verbatim>\<open>attr-set.hh\<close>, \<^verbatim>\<open>eval-inline.hh\<close>): checked
  64-bit arithmetic (\<^verbatim>\<open>libutil/checked-arithmetic.hh\<close>), integers tagged into a machine word, attribute sets, thunks, delayed
  applications and environments, and the sequencing of operations that change memory, may throw and may not return.
\<close>

section \<open>Checked arithmetic\<close>

datatype OverflowKind = NoOverflow | Overflow | DivByZero

record CheckedResult =
  res_value :: "64 word"
  overflowed :: OverflowKind

definition int64_fits :: "int \<Rightarrow> bool" where
  "int64_fits x \<longleftrightarrow> - (2 ^ 63) \<le> x \<and> x < 2 ^ 63"

text \<open>The compiler's \<^verbatim>\<open>__builtin_*_overflow\<close>: the exact result cut to 64 bits, and whether it had to be cut.\<close>

definition builtin_overflow :: "int \<Rightarrow> CheckedResult" where
  "builtin_overflow exact = \<lparr>res_value = word_of_int exact, overflowed = (if int64_fits exact then NoOverflow else Overflow)\<rparr>"

definition checked_add :: "64 word \<Rightarrow> 64 word \<Rightarrow> CheckedResult" where
  "checked_add a b = builtin_overflow (sint a + sint b)"

definition checked_sub :: "64 word \<Rightarrow> 64 word \<Rightarrow> CheckedResult" where
  "checked_sub a b = builtin_overflow (sint a - sint b)"

definition checked_mul :: "64 word \<Rightarrow> 64 word \<Rightarrow> CheckedResult" where
  "checked_mul a b = builtin_overflow (sint a * sint b)"

definition checked_div :: "64 word \<Rightarrow> 64 word \<Rightarrow> CheckedResult" where
  "checked_div a b =
     (if a = word_of_int (- (2 ^ 63)) \<and> b = - 1 then \<lparr>res_value = word_of_int (- (2 ^ 63)), overflowed = Overflow\<rparr>
      else if b = 0 then \<lparr>res_value = 0, overflowed = DivByZero\<rparr>
      else \<lparr>res_value = word_of_int (sint a sdiv sint b), overflowed = NoOverflow\<rparr>)"

definition valueChecked :: "CheckedResult \<Rightarrow> 64 word option" where
  "valueChecked r = (if overflowed r \<noteq> NoOverflow then None else Some (res_value r))"

definition valueWrapping :: "CheckedResult \<Rightarrow> 64 word result" where
  "valueWrapping r = (if overflowed r = DivByZero then Inl (Error ''divide by zero'') else Inr (res_value r))"

lemma sint64_of_int: "int64_fits x \<Longrightarrow> sint (word_of_int x :: 64 word) = x"
  by (simp add: int64_fits_def signed_of_int signed_take_bit_int_eq_self)

lemma sint64_fits: "int64_fits (sint (w :: 64 word))"
  using sint_greater_eq [of w] sint_less [of w] by (simp add: int64_fits_def)

lemma builtin_overflow_exact:
  "valueChecked (builtin_overflow x) = Some r \<longleftrightarrow> x = sint r"
proof
  assume "valueChecked (builtin_overflow x) = Some r"
  then have "int64_fits x" "r = word_of_int x" by (auto simp: valueChecked_def builtin_overflow_def split: if_splits)
  then show "x = sint r" using sint64_of_int [of x] by simp
next
  assume "x = sint r"
  then show "valueChecked (builtin_overflow x) = Some r" using sint64_fits [of r] by (simp add: valueChecked_def builtin_overflow_def)
qed

lemma sdiv_fits:
  assumes "int64_fits a" and "int64_fits b" and "b \<noteq> 0" and "\<not> (a = - (2 ^ 63) \<and> b = - 1)"
  shows "int64_fits (a sdiv b)"
proof -
  let ?q = "\<bar>a\<bar> div \<bar>b\<bar>"
  have b: "1 \<le> \<bar>b\<bar>" using assms(3) by simp
  have q: "0 \<le> ?q" "?q \<le> \<bar>a\<bar>" "\<bar>a\<bar> \<le> 2 ^ 63"
    using b zdiv_mono2 [of "\<bar>a\<bar>" 1 "\<bar>b\<bar>"] assms(1) by (auto simp: pos_imp_zdiv_nonneg_iff int64_fits_def)
  have top: "?q < 2 ^ 63" if "0 < sgn a * sgn b"
  proof (cases "\<bar>b\<bar> = 1")
    case True
    then have "a \<noteq> - (2 ^ 63)" using that assms(4) by (auto simp: sgn_if split: if_splits)
    then show ?thesis using assms(1) True by (auto simp: int64_fits_def)
  next
    case False
    then have "?q \<le> \<bar>a\<bar> div 2" using b by (intro zdiv_mono2) auto
    moreover have "\<bar>a\<bar> div 2 \<le> 2 ^ 63 div 2" by (rule zdiv_mono1 [OF q(3)]) simp
    ultimately show ?thesis by simp
  qed
  have "a sdiv b = ?q \<and> 0 < sgn a * sgn b \<or> a sdiv b = - ?q \<or> a sdiv b = 0"
    by (auto simp: signed_divide_int_def sgn_if)
  then show ?thesis using q top by (auto simp: int64_fits_def)
qed

text \<open>C17: the checked operations on integers of the language are exact: addition, subtraction and multiplication yield a value
  if and only if the mathematical result is a 64-bit signed integer, and then it is that result; division yields a value if and only if
  the divisor is not zero and the quotient, rounded towards zero, is a 64-bit signed integer, and then it is that quotient.\<close>

theorem checked_exact:
  "(valueChecked (checked_add a b) = Some r \<longleftrightarrow> sint a + sint b = sint r) \<and>
   (valueChecked (checked_sub a b) = Some r \<longleftrightarrow> sint a - sint b = sint r) \<and>
   (valueChecked (checked_mul a b) = Some r \<longleftrightarrow> sint a * sint b = sint r) \<and>
   (valueChecked (checked_div a b) = Some r \<longleftrightarrow> b \<noteq> 0 \<and> sint a sdiv sint b = sint r)"
proof -
  have div: "valueChecked (checked_div a b) = Some r \<longleftrightarrow> b \<noteq> 0 \<and> sint a sdiv sint b = sint r"
  proof (cases "a = word_of_int (- (2 ^ 63)) \<and> b = - 1")
    case True
    have "sint (word_of_int (- (2 ^ 63)) :: 64 word) = - (2 ^ 63)" using sint64_of_int [of "- (2 ^ 63)"] by (simp add: int64_fits_def)
    then have "sint a sdiv sint b = 2 ^ 63" using True by (simp add: signed_divide_int_def)
    moreover have "sint r \<noteq> 2 ^ 63" using sint64_fits [of r] by (simp add: int64_fits_def)
    ultimately show ?thesis using True by (simp add: checked_div_def valueChecked_def)
  next
    case False
    show ?thesis
    proof (cases "b = 0")
      case nz: False
      have w: "a = word_of_int (sint a)" "b = word_of_int (sint b)" by simp_all
      have "\<not> (sint a = - (2 ^ 63) \<and> sint b = - 1)"
      proof
        assume s: "sint a = - (2 ^ 63) \<and> sint b = - 1"
        have "a = word_of_int (- (2 ^ 63))" using w(1) unfolding conjunct1 [OF s] .
        moreover have "b = - 1" using w(2) unfolding conjunct2 [OF s] by simp
        ultimately show False using False by simp
      qed
      moreover have "sint b \<noteq> 0" using nz w(2) by (metis of_int_0)
      ultimately have "int64_fits (sint a sdiv sint b)" by (intro sdiv_fits sint64_fits)
      then have "sint (word_of_int (sint a sdiv sint b) :: 64 word) = sint a sdiv sint b" by (rule sint64_of_int)
      then show ?thesis using False nz by (auto simp: checked_div_def valueChecked_def)
    qed (simp add: checked_div_def valueChecked_def)
  qed
  show ?thesis using div by (simp add: checked_add_def checked_sub_def checked_mul_def builtin_overflow_exact)
qed

section \<open>Integers in a tagged machine word\<close>

text \<open>
  A value is a machine word whose three low bits are a tag. An integer that fits in the other 61 bits is stored in the word itself,
  any other in an allocated block that the word points to.
\<close>

datatype IntCell = Tagged "64 word" | Boxed "64 word"

definition tag_mask :: "64 word" where "tag_mask = 7"
definition tag_int :: "64 word" where "tag_int = 2"

definition isTaggableInteger :: "64 word \<Rightarrow> bool" where
  "isTaggableInteger i \<longleftrightarrow> sint i \<le> (2 ^ 63 - 1) div 8 \<and> sint i \<ge> - (2 ^ 63) div 8"

definition newInteger :: "64 word \<Rightarrow> IntCell" where
  "newInteger i = (if isTaggableInteger i then Tagged (tag_int OR push_bit 3 i) else Boxed i)"

definition integer :: "IntCell \<Rightarrow> 64 word result" where
  "integer c =
     (case c of
        Tagged raw \<Rightarrow>
          if raw AND tag_mask = tag_int then Inr (signed_drop_bit 3 raw) else Inl (AssertionFailed ''not an integer'')
      | Boxed i \<Rightarrow> Inr i)"

lemma tagged_arith: "tag_int OR push_bit 3 i = 8 * i + 2"
proof -
  have "push_bit 3 i AND 2 = 0"
    by (rule bit_word_eqI) (auto simp: bit_simps bit_2_iff)
  then have "push_bit 3 i OR 2 = push_bit 3 i + 2" by (simp add: disjunctive_add_eq_or)
  then show ?thesis by (simp add: tag_int_def or.commute push_bit_eq_mult mult.commute)
qed

text \<open>every 64-bit integer survives its representation as a value: tagged into the word or boxed, it reads back as itself, and the
  tag tells the two apart.\<close>

theorem integer_roundtrip:
  "integer (newInteger i) = Inr i \<and> (\<forall>raw. newInteger i = Tagged raw \<longrightarrow> raw AND tag_mask = tag_int)"
proof (cases "isTaggableInteger i")
  case True
  let ?raw = "8 * i + 2 :: 64 word"
  have "tag_int OR push_bit 3 i = ?raw" by (rule tagged_arith)
  moreover have "?raw AND tag_mask = tag_int"
  proof -
    have "(tag_int OR push_bit 3 i) AND mask 3 = tag_int"
      by (rule bit_word_eqI) (auto simp: tag_int_def bit_simps bit_2_iff bit_mask_iff)
    moreover have "mask 3 = tag_mask" by (simp add: tag_mask_def mask_eq_exp_minus_1)
    ultimately show ?thesis by (simp only: tagged_arith)
  qed
  moreover have "signed_drop_bit 3 ?raw = i"
  proof -
    have s: "- (2 ^ 60) \<le> sint i" "sint i < 2 ^ 60" using True by (auto simp: isTaggableInteger_def)
    have "?raw = word_of_int (8 * sint i + 2)" by simp
    moreover have "int64_fits (8 * sint i + 2)" using s by (simp add: int64_fits_def)
    ultimately have "sint ?raw = 8 * sint i + 2" using sint64_of_int by metis
    then have "sint (signed_drop_bit 3 ?raw) = sint i" by (simp add: sint_signed_drop_bit_eq drop_bit_eq_div)
    then show ?thesis by (simp add: signed_word_eqI)
  qed
  ultimately show ?thesis using True by (simp add: newInteger_def integer_def)
qed (simp add: newInteger_def integer_def)

section \<open>Values and memory\<close>

text \<open>
  What the code compares by pointer (the blocks of sets, lists and lambdas) carries the number of its block. Sets and lists do not
  change once they are built, so they are part of the value; what is updated in place lives in memory and is referred to by its
  address: thunks, delayed applications and environments. External values of plugins are left out.
\<close>

type_synonym addr = nat

datatype val =
    VInt "64 word"
  | VFloat "64 word"
  | VBool bool
  | VString string "string set"
  | VPath string
  | VNull
  | VAttrs addr "(Symbol \<times> val) list"
  | VList addr "val list"
  | VLambda addr addr pattern expr
  | VThunk addr
  | VApp addr
  | VPrimOp string

type_synonym Bindings = "(Symbol \<times> val) list"

datatype thunk = Suspended addr expr | BlackHole | Resolved val

datatype app = Pending val "val list" | AppResolved val

text \<open>A fresh environment is cleared; \<^const>\<open>None\<close> is a cleared (invalid) value.\<close>

datatype env = Env (env_up: "addr option") (env_values: "val option list")

record Mem =
  thunks :: "thunk list"
  apps :: "app list"
  envs :: "env list"
  nextObj :: nat
  symtab :: SymbolTable
  callDepth :: nat

datatype ValueType = nThunk | nInt | nFloat | nBool | nString | nPath | nNull | nAttrs | nList | nFunction

text \<open>The set without attributes and the empty list of the parser are blocks that everyone shares.\<close>

definition emptyObj :: addr where "emptyObj = 0"

definition EMPTY_LIST :: val where "EMPTY_LIST = VList emptyObj []"

section \<open>Operations on memory\<close>

text \<open>
  An operation returns the memory with its result or with the exception it throws; or it does not return (\<^const>\<open>None\<close>).
  Dereferencing what does not exist is undefined behaviour.
\<close>

type_synonym 'a ev = "Mem \<Rightarrow> ('a result \<times> Mem) option"

definition ret :: "'a \<Rightarrow> 'a ev" where
  "ret x m = Some (Inr x, m)"

definition throw :: "error \<Rightarrow> 'a ev" where
  "throw e m = Some (Inl e, m)"

definition bind_ev :: "'a ev \<Rightarrow> ('a \<Rightarrow> 'b ev) \<Rightarrow> 'b ev" where
  "bind_ev f g m = (case f m of None \<Rightarrow> None | Some (Inl e, m') \<Rightarrow> Some (Inl e, m') | Some (Inr x, m') \<Rightarrow> g x m')"

definition lift_ev :: "'a result \<Rightarrow> 'a ev" where
  "lift_ev r m = Some (r, m)"

fun map_ev :: "('a \<Rightarrow> 'b ev) \<Rightarrow> 'a list \<Rightarrow> 'b list ev" where
  "map_ev f [] = ret []"
| "map_ev f (x # xs) = bind_ev (f x) (\<lambda>y. bind_ev (map_ev f xs) (\<lambda>ys. ret (y # ys)))"

definition undefined_behaviour :: "'a ev" where
  "undefined_behaviour = throw (UndefinedBehaviour ''invalid memory access'')"

definition newObject :: "addr ev" where
  "newObject m = Some (Inr (nextObj m), m\<lparr>nextObj := nextObj m + 1\<rparr>)"

definition allocBindings :: "nat \<Rightarrow> addr ev" where
  "allocBindings capacity =
     (if capacity = 0 then ret emptyObj
      else if capacity > 2 ^ 32 - 1 then throw (Error ''attribute set of size %d is too big'')
      else newObject)"

definition allocEnv :: "nat \<Rightarrow> addr option \<Rightarrow> addr ev" where
  "allocEnv n up m = Some (Inr (length (envs m)), m\<lparr>envs := envs m @ [Env up (replicate n None)]\<rparr>)"

definition newThunk :: "addr \<Rightarrow> expr \<Rightarrow> val ev" where
  "newThunk env e m = Some (Inr (VThunk (length (thunks m))), m\<lparr>thunks := thunks m @ [Suspended env e]\<rparr>)"

definition newApp :: "val \<Rightarrow> val list \<Rightarrow> val ev" where
  "newApp left args m = Some (Inr (VApp (length (apps m))), m\<lparr>apps := apps m @ [Pending left args]\<rparr>)"

definition envUp :: "addr \<Rightarrow> addr ev" where
  "envUp env m =
     (if env < length (envs m) then (case env_up (envs m ! env) of Some up \<Rightarrow> ret up m | None \<Rightarrow> undefined_behaviour m)
      else undefined_behaviour m)"

fun walkUp :: "nat \<Rightarrow> addr \<Rightarrow> addr ev" where
  "walkUp 0 env = ret env"
| "walkUp (Suc l) env = bind_ev (envUp env) (walkUp l)"

definition readSlot :: "addr \<Rightarrow> nat \<Rightarrow> val option ev" where
  "readSlot env displ m =
     (if env < length (envs m) \<and> displ < length (env_values (envs m ! env)) then ret (env_values (envs m ! env) ! displ) m
      else undefined_behaviour m)"

text \<open>Using a cleared value as a thunk dereferences a null pointer.\<close>

definition validSlot :: "addr \<Rightarrow> nat \<Rightarrow> val ev" where
  "validSlot env displ = bind_ev (readSlot env displ) (\<lambda>v. case v of Some v \<Rightarrow> ret v | None \<Rightarrow> undefined_behaviour)"

definition writeSlot :: "addr \<Rightarrow> nat \<Rightarrow> val \<Rightarrow> unit ev" where
  "writeSlot env displ v m =
     (if env < length (envs m) \<and> displ < length (env_values (envs m ! env))
      then Some (Inr (), m\<lparr>envs := (envs m)[env := Env (env_up (envs m ! env)) ((env_values (envs m ! env))[displ := Some v])]\<rparr>)
      else undefined_behaviour m)"

definition setThunk :: "addr \<Rightarrow> thunk \<Rightarrow> Mem \<Rightarrow> Mem" where
  "setThunk a t m = m\<lparr>thunks := (thunks m)[a := t]\<rparr>"

definition setApp :: "addr \<Rightarrow> app \<Rightarrow> Mem \<Rightarrow> Mem" where
  "setApp a x m = m\<lparr>apps := (apps m)[a := x]\<rparr>"

definition createSymbol :: "string \<Rightarrow> Symbol ev" where
  "createSymbol s m = (let (x, tab) = sym_create s (symtab m) in Some (Inr x, m\<lparr>symtab := tab\<rparr>))"

text \<open>The function at the end of a chain of applications. A resolved application has its result in the place of the function.\<close>

partial_function (option) app_target :: "app list \<Rightarrow> val \<Rightarrow> val result option" where
  "app_target xs v =
     (case v of
        VApp a \<Rightarrow>
          (if a < length xs then app_target xs (case xs ! a of Pending left args \<Rightarrow> left | AppResolved r \<Rightarrow> r)
           else Some (Inl (UndefinedBehaviour ''invalid memory access'')))
      | _ \<Rightarrow> Some (Inr v))"

text \<open>The number of arguments along the chain, a \<^verbatim>\<open>size_t\<close>. The count of a resolved application is \<^verbatim>\<open>~size_t(0)\<close>.\<close>

partial_function (option) app_total :: "app list \<Rightarrow> val \<Rightarrow> 64 word result option" where
  "app_total xs v =
     (case v of
        VApp a \<Rightarrow>
          (if a < length xs
           then Option.bind (app_total xs (case xs ! a of Pending left args \<Rightarrow> left | AppResolved r \<Rightarrow> r))
                  (\<lambda>n. Some (bindr n (\<lambda>n. Inr ((case xs ! a of Pending left args \<Rightarrow> of_nat (length args) | AppResolved r \<Rightarrow> - 1) + n))))
           else Some (Inl (UndefinedBehaviour ''invalid memory access'')))
      | _ \<Rightarrow> Some (Inr 0))"

definition target :: "val \<Rightarrow> val ev" where
  "target v m = map_option (\<lambda>r. (r, m)) (app_target (apps m) v)"

definition totalArgs :: "val \<Rightarrow> 64 word ev" where
  "totalArgs v m = map_option (\<lambda>r. (r, m)) (app_total (apps m) v)"

text \<open>Finding the type of a value replaces a resolved thunk or application by its result.\<close>

partial_function (option) shortcut_loop :: "Mem \<Rightarrow> val \<Rightarrow> val result option" where
  "shortcut_loop m v =
     (case v of
        VThunk a \<Rightarrow>
          (if a < length (thunks m) then (case thunks m ! a of Resolved r \<Rightarrow> shortcut_loop m r | _ \<Rightarrow> Some (Inr v))
           else Some (Inl (UndefinedBehaviour ''invalid memory access'')))
      | VApp a \<Rightarrow>
          (if a < length (apps m) then (case apps m ! a of AppResolved r \<Rightarrow> shortcut_loop m r | _ \<Rightarrow> Some (Inr v))
           else Some (Inl (UndefinedBehaviour ''invalid memory access'')))
      | _ \<Rightarrow> Some (Inr v))"

declare app_target.simps [code] app_total.simps [code] shortcut_loop.simps [code]

definition shortcut :: "val \<Rightarrow> val ev" where
  "shortcut v m = map_option (\<lambda>r. (r, m)) (shortcut_loop m v)"

definition isPrimOp :: "val \<Rightarrow> bool" where
  "isPrimOp v = (case v of VPrimOp name \<Rightarrow> True | _ \<Rightarrow> False)"

definition valueType :: "val \<Rightarrow> ValueType ev" where
  "valueType v =
     bind_ev (shortcut v) (\<lambda>w.
       case w of
         VInt i \<Rightarrow> ret nInt | VFloat f \<Rightarrow> ret nFloat | VBool b \<Rightarrow> ret nBool | VString s c \<Rightarrow> ret nString | VPath p \<Rightarrow> ret nPath
       | VNull \<Rightarrow> ret nNull | VAttrs i as \<Rightarrow> ret nAttrs | VList i xs \<Rightarrow> ret nList | VLambda i env p b \<Rightarrow> ret nFunction
       | VPrimOp p \<Rightarrow> ret nFunction | VThunk a \<Rightarrow> ret nThunk
       | VApp a \<Rightarrow> bind_ev (target w) (\<lambda>t. ret (if isPrimOp t then nFunction else nThunk)))"

text \<open>A set is sorted after it is built; its names are then distinct.\<close>

definition sort_bindings :: "Bindings \<Rightarrow> Bindings" where
  "sort_bindings xs = sort_key fst xs"

definition bindings_get :: "Symbol \<Rightarrow> Bindings \<Rightarrow> val option" where
  "bindings_get name xs = sorted_get name xs"

end
