(* ===== verification/Lix_Eval.thy ===== *)
theory Lix_Eval
  imports Lix_Value Lix_Canon_Path
begin

text \<open>
  The evaluator: the \<^verbatim>\<open>eval\<close> and \<^verbatim>\<open>maybeThunk\<close> methods of the expressions (\<^verbatim>\<open>libexpr/eval-expr.cc\<close>), and forcing, calling, comparing
  and coercing values (\<^verbatim>\<open>eval.cc\<close>, \<^verbatim>\<open>eval-inline.hh\<close>). The operations call each other; each takes the others as \<open>run\<close>, which
  performs a task. Positions, traces, statistics and the frames of the debugger are left out. \<^verbatim>\<open>forceValue\<close> returns the value that
  the code stores back into the cell it was given; the cell is not overwritten.
\<close>

section \<open>What the evaluator is given\<close>

datatype StringCoercionMode = Strict | Interpolation | ToString

datatype task =
    TEval addr expr
  | TForce val
  | TCall val "val list"
  | TLoop val "val list"
  | TEq val val
  | TLess val val
  | TCoerce val "string set" StringCoercionMode bool bool
  | TAutoCall Bindings val

type_synonym runner = "task \<Rightarrow> val ev"

record PrimOp =
  arity :: nat
  prim_fun :: "runner \<Rightarrow> val list \<Rightarrow> val ev"

text \<open>
  The settings, the operations of the processor on the bits of floating-point numbers, the store's operation that copies a path
  (it yields the printed store path and the element of the string context for it, or throws an error with a message), and the table of builtins.
\<close>

record Ctx =
  maxCallDepth :: nat
  coerceIntegers :: bool
  float_of_int :: "64 word \<Rightarrow> 64 word"
  float_add :: "64 word \<Rightarrow> 64 word \<Rightarrow> 64 word"
  float_sub :: "64 word \<Rightarrow> 64 word \<Rightarrow> 64 word"
  float_mul :: "64 word \<Rightarrow> 64 word \<Rightarrow> 64 word"
  float_div :: "64 word \<Rightarrow> 64 word \<Rightarrow> 64 word"
  float_eq :: "64 word \<Rightarrow> 64 word \<Rightarrow> bool"
  float_less :: "64 word \<Rightarrow> 64 word \<Rightarrow> bool"
  float_string :: "64 word \<Rightarrow> string"
  copyPathToStore :: "string \<Rightarrow> string + string \<times> string"
  primops :: "string \<Rightarrow> PrimOp option"

section \<open>Checking and forcing\<close>

definition checkBool :: "val \<Rightarrow> bool ev" where
  "checkBool v = bind_ev (shortcut v) (\<lambda>w. case w of VBool b \<Rightarrow> ret b | _ \<Rightarrow> throw (TypeError ''expected a Boolean''))"

definition checkInt :: "val \<Rightarrow> 64 word ev" where
  "checkInt v = bind_ev (shortcut v) (\<lambda>w. case w of VInt i \<Rightarrow> ret i | _ \<Rightarrow> throw (TypeError ''expected an integer''))"

definition checkFloat :: "Ctx \<Rightarrow> val \<Rightarrow> 64 word ev" where
  "checkFloat C v =
     bind_ev (shortcut v) (\<lambda>w.
       case w of VInt i \<Rightarrow> ret (float_of_int C i) | VFloat f \<Rightarrow> ret f | _ \<Rightarrow> throw (TypeError ''expected a float''))"

definition checkList :: "val \<Rightarrow> (addr \<times> val list) ev" where
  "checkList v = bind_ev (shortcut v) (\<lambda>w. case w of VList i xs \<Rightarrow> ret (i, xs) | _ \<Rightarrow> throw (TypeError ''expected a list''))"

definition checkAttrs :: "val \<Rightarrow> (addr \<times> Bindings) ev" where
  "checkAttrs v = bind_ev (shortcut v) (\<lambda>w. case w of VAttrs i as \<Rightarrow> ret (i, as) | _ \<Rightarrow> throw (TypeError ''expected a set''))"

definition forceAttrs :: "runner \<Rightarrow> val \<Rightarrow> (addr \<times> Bindings) ev" where
  "forceAttrs run v = bind_ev (run (TForce v)) checkAttrs"

definition forceList :: "runner \<Rightarrow> val \<Rightarrow> (addr \<times> val list) ev" where
  "forceList run v = bind_ev (run (TForce v)) checkList"

definition forceInt :: "runner \<Rightarrow> val \<Rightarrow> 64 word ev" where
  "forceInt run v = bind_ev (run (TForce v)) checkInt"

definition forceFloat :: "Ctx \<Rightarrow> runner \<Rightarrow> val \<Rightarrow> 64 word ev" where
  "forceFloat C run v = bind_ev (run (TForce v)) (checkFloat C)"

definition forceBool :: "runner \<Rightarrow> val \<Rightarrow> bool ev" where
  "forceBool run v = bind_ev (run (TForce v)) checkBool"

definition isFunctor :: "val \<Rightarrow> bool" where
  "isFunctor v = (case v of VAttrs i as \<Rightarrow> bindings_get sym_functor as \<noteq> None | _ \<Rightarrow> False)"

definition forceFunction :: "runner \<Rightarrow> val \<Rightarrow> val ev" where
  "forceFunction run v =
     bind_ev (run (TForce v)) (\<lambda>v. bind_ev (valueType v) (\<lambda>t. bind_ev (shortcut v) (\<lambda>w.
       if t \<noteq> nFunction \<and> \<not> isFunctor w then throw (TypeError ''expected a function'') else ret w)))"

text \<open>A string with its context.\<close>

definition forceString :: "runner \<Rightarrow> val \<Rightarrow> (string \<times> string set) ev" where
  "forceString run v =
     bind_ev (run (TForce v)) (\<lambda>v. bind_ev (shortcut v) (\<lambda>w.
       case w of VString s c \<Rightarrow> ret (s, c) | _ \<Rightarrow> throw (TypeError ''expected a string'')))"

definition forceStringNoCtx :: "runner \<Rightarrow> val \<Rightarrow> string ev" where
  "forceStringNoCtx run v =
     bind_ev (forceString run v) (\<lambda>(s, c).
       if c \<noteq> {} then throw (EvalError ''the string %1% is not allowed to refer to a store path'') else ret s)"

definition isDerivation :: "runner \<Rightarrow> Bindings \<Rightarrow> bool ev" where
  "isDerivation run as =
     (case bindings_get sym_type as of
        None \<Rightarrow> ret False
      | Some v \<Rightarrow>
          bind_ev (run (TForce v)) (\<lambda>v. bind_ev (shortcut v) (\<lambda>w.
            case w of VString s c \<Rightarrow> ret (s = ''derivation'') | _ \<Rightarrow> ret False)))"

text \<open>
  Forcing: a thunk is made a black hole while it is evaluated, and then holds the result, or is put back if there is an exception.
  An application is performed unless it is of a builtin that waits for more arguments.
\<close>

definition forceThunk :: "runner \<Rightarrow> addr \<Rightarrow> val ev" where
  "forceThunk run a m =
     (if a < length (thunks m)
      then (case thunks m ! a of
              Resolved r \<Rightarrow> ret r m
            | BlackHole \<Rightarrow> throw (InfiniteRecursionError ''infinite recursion encountered'') m
            | Suspended env e \<Rightarrow>
                (case run (TEval env e) (setThunk a BlackHole m) of
                   None \<Rightarrow> None
                 | Some (Inr v, m') \<Rightarrow> Some (Inr v, setThunk a (Resolved v) m')
                 | Some (Inl err, m') \<Rightarrow> Some (Inl err, setThunk a (Suspended env e) m')))
      else undefined_behaviour m)"

definition primopArity :: "Ctx \<Rightarrow> string \<Rightarrow> nat ev" where
  "primopArity C name = (case primops C name of Some p \<Rightarrow> ret (arity p) | None \<Rightarrow> undefined_behaviour)"

definition forceApp :: "Ctx \<Rightarrow> runner \<Rightarrow> addr \<Rightarrow> val ev" where
  "forceApp C run a m =
     (if a < length (apps m)
      then (case apps m ! a of
              AppResolved r \<Rightarrow> ret r m
            | Pending left args \<Rightarrow>
                bind_ev (target left) (\<lambda>t.
                bind_ev (case t of
                           VPrimOp name \<Rightarrow>
                             bind_ev (primopArity C name) (\<lambda>n. bind_ev (totalArgs (VApp a)) (\<lambda>total. ret (of_nat n \<le> total)))
                         | _ \<Rightarrow> ret True) (\<lambda>call.
                if call then bind_ev (run (TCall left args)) (\<lambda>v m. Some (Inr v, setApp a (AppResolved v) m))
                else ret (VApp a))) m)
      else undefined_behaviour m)"

definition forceValue :: "Ctx \<Rightarrow> runner \<Rightarrow> val \<Rightarrow> val ev" where
  "forceValue C run v = (case v of VThunk a \<Rightarrow> forceThunk run a | VApp a \<Rightarrow> forceApp C run a | _ \<Rightarrow> ret v)"

section \<open>Variables and delayed expressions\<close>

fun lookupWith :: "runner \<Rightarrow> Symbol \<Rightarrow> addr \<Rightarrow> withRef \<Rightarrow> val ev" where
  "lookupWith run name env (WithRef prev parent) =
     bind_ev (validSlot env 0) (\<lambda>v. bind_ev (forceAttrs run v) (\<lambda>(i, as).
       case bindings_get name as of
         Some x \<Rightarrow> ret x
       | None \<Rightarrow>
           (case parent of
              None \<Rightarrow> throw (UndefinedVarError ''undefined variable %1%'')
            | Some w \<Rightarrow> bind_ev (walkUp prev env) (\<lambda>env. lookupWith run name env w))))"

definition lookupVar :: "runner \<Rightarrow> Symbol \<Rightarrow> binding \<Rightarrow> addr \<Rightarrow> val ev" where
  "lookupVar run name b env =
     (case b of
        Bound level displ \<Rightarrow> bind_ev (walkUp level env) (\<lambda>env. validSlot env displ)
      | FromWith level w \<Rightarrow> bind_ev (walkUp level env) (\<lambda>env. lookupWith run name env w)
      | Unbound \<Rightarrow> undefined_behaviour)"

definition literal_value :: "literal \<Rightarrow> val" where
  "literal_value l = (case l of LInt i \<Rightarrow> VInt i | LFloat f \<Rightarrow> VFloat f | LString s \<Rightarrow> VString s {} | LPath p \<Rightarrow> VPath p)"

text \<open>A variable is looked up at once unless it comes from a \<^verbatim>\<open>with\<close> or its place is not filled yet.\<close>

definition maybeThunk :: "expr \<Rightarrow> addr \<Rightarrow> val ev" where
  "maybeThunk e env =
     (case e of
        ExprVar name needsRoot b \<Rightarrow>
          (case b of
             Bound level displ \<Rightarrow>
               bind_ev (walkUp level env) (\<lambda>env'. bind_ev (readSlot env' displ) (\<lambda>v.
                 case v of Some v \<Rightarrow> ret v | None \<Rightarrow> newThunk env e))
           | FromWith level w \<Rightarrow> bind_ev (walkUp level env) (\<lambda>env'. newThunk env e)
           | Unbound \<Rightarrow> undefined_behaviour)
      | ExprLiteral l \<Rightarrow> ret (literal_value l)
      | ExprList [] \<Rightarrow> ret EMPTY_LIST
      | _ \<Rightarrow> newThunk env e)"

definition getName :: "runner \<Rightarrow> addr \<Rightarrow> attr_name \<Rightarrow> Symbol ev" where
  "getName run env n =
     (case n of
        AttrSymbol s \<Rightarrow> ret s
      | AttrExpr e \<Rightarrow> bind_ev (run (TEval env e)) (\<lambda>v. bind_ev (forceStringNoCtx run v) createSymbol))"

section \<open>Sets and bindings\<close>

text \<open>Filling the places of an environment in order.\<close>

fun fillSlots :: "('a \<Rightarrow> val ev) \<Rightarrow> addr \<Rightarrow> nat \<Rightarrow> 'a list \<Rightarrow> val list ev" where
  "fillSlots f env displ [] = ret []"
| "fillSlots f env displ (x # xs) =
     bind_ev (f x) (\<lambda>v. bind_ev (writeSlot env displ v) (\<lambda>u. bind_ev (fillSlots f env (displ + 1) xs) (\<lambda>vs. ret (v # vs))))"

definition buildInheritFromEnv :: "expr list option \<Rightarrow> addr \<Rightarrow> addr option ev" where
  "buildInheritFromEnv from up =
     (case from of
        None \<Rightarrow> ret None
      | Some es \<Rightarrow>
          bind_ev (allocEnv (length es) (Some up)) (\<lambda>inheritEnv.
          bind_ev (fillSlots (\<lambda>e. maybeThunk e up) inheritEnv 0 es) (\<lambda>vs. ret (Some inheritEnv))))"

text \<open>The source of an inherited attribute needs its environment; without it a null pointer is dereferenced.\<close>

definition attrThunk :: "bool \<Rightarrow> addr \<Rightarrow> addr \<Rightarrow> addr option \<Rightarrow> attr_def \<Rightarrow> val ev" where
  "attrThunk always inner outer inheritEnv d =
     (case chooseByKind (def_kind d) (Some inner) (Some outer) inheritEnv of
        None \<Rightarrow> undefined_behaviour
      | Some env \<Rightarrow>
          if always \<and> def_kind d \<noteq> Inherited then newThunk env (def_expr d) else maybeThunk (def_expr d) env)"

fun applyOverrides :: "Symbol list \<Rightarrow> addr \<Rightarrow> Bindings \<Rightarrow> Bindings \<Rightarrow> Bindings ev" where
  "applyOverrides names env2 [] bnds = ret bnds"
| "applyOverrides names env2 (x # xs) bnds =
     (case lm_find (fst x) (zip names [0..<length names]) of
        Some j \<Rightarrow> bind_ev (writeSlot env2 j (snd x)) (\<lambda>u. applyOverrides names env2 xs (bnds[j := x]))
      | None \<Rightarrow> applyOverrides names env2 xs (bnds @ [x]))"

text \<open>The attributes of a recursive set, with \<^verbatim>\<open>__overrides\<close> applied.\<close>

definition evalRecAttrs :: "runner \<Rightarrow> addr \<Rightarrow> attr_def list \<Rightarrow> expr list option \<Rightarrow> nat \<Rightarrow> (addr \<times> addr \<times> Bindings) ev" where
  "evalRecAttrs run env attrs from capacity =
     bind_ev (allocBindings capacity) (\<lambda>obj.
     bind_ev (allocEnv (length attrs) (Some env)) (\<lambda>env2.
     bind_ev (buildInheritFromEnv from env2) (\<lambda>inheritEnv.
     let names = map def_name attrs; overrides = lm_find sym_overrides (zip names [0..<length names])
     in bind_ev (fillSlots (attrThunk (overrides \<noteq> None) env2 env inheritEnv) env2 0 attrs) (\<lambda>vs.
        case overrides of
          None \<Rightarrow> ret (env2, obj, zip names vs)
        | Some d \<Rightarrow>
            bind_ev (forceAttrs run (vs ! d)) (\<lambda>(i, os).
            bind_ev (allocBindings (capacity + length os)) (\<lambda>obj.
            bind_ev (applyOverrides names env2 os (zip names (vs[d := VAttrs i os]))) (\<lambda>bnds.
              ret (env2, obj, sort_bindings bnds))))))))"

definition evalPlainAttrs :: "addr \<Rightarrow> attr_def list \<Rightarrow> expr list option \<Rightarrow> nat \<Rightarrow> (addr \<times> addr \<times> Bindings) ev" where
  "evalPlainAttrs env attrs from capacity =
     bind_ev (allocBindings capacity) (\<lambda>obj.
     bind_ev (buildInheritFromEnv from env) (\<lambda>inheritEnv.
     bind_ev (map_ev (attrThunk False env env inheritEnv) attrs) (\<lambda>vs. ret (env, obj, zip (map def_name attrs) vs))))"

fun evalDynamicAttrs :: "runner \<Rightarrow> addr \<Rightarrow> dynamic_attr list \<Rightarrow> Bindings \<Rightarrow> Bindings ev" where
  "evalDynamicAttrs run env [] bnds = ret bnds"
| "evalDynamicAttrs run env (d # ds) bnds =
     bind_ev (run (TEval env (nameExpr d))) (\<lambda>v. bind_ev (run (TForce v)) (\<lambda>v. bind_ev (valueType v) (\<lambda>t.
       if t = nNull then evalDynamicAttrs run env ds bnds
       else bind_ev (forceStringNoCtx run v) (\<lambda>s. bind_ev (createSymbol s) (\<lambda>name.
              case bindings_get name bnds of
                Some x \<Rightarrow> throw (EvalError ''dynamic attribute %1% already defined at %2%'')
              | None \<Rightarrow>
                  bind_ev (maybeThunk (valueExpr d) env) (\<lambda>x.
                    evalDynamicAttrs run env ds (sort_bindings (bnds @ [(name, x)]))))))))"

definition evalSet :: "runner \<Rightarrow> addr \<Rightarrow> bool \<Rightarrow> attr_def list \<Rightarrow> expr list option \<Rightarrow> dynamic_attr list \<Rightarrow> val ev" where
  "evalSet run env recursive attrs from dyn =
     (let capacity = length attrs + length dyn
      in bind_ev (if recursive then evalRecAttrs run env attrs from capacity else evalPlainAttrs env attrs from capacity)
           (\<lambda>(dynamicEnv, obj, bnds). bind_ev (evalDynamicAttrs run dynamicEnv dyn bnds) (\<lambda>bnds. ret (VAttrs obj bnds))))"

definition evalLet :: "runner \<Rightarrow> addr \<Rightarrow> attr_def list \<Rightarrow> expr list option \<Rightarrow> expr \<Rightarrow> val ev" where
  "evalLet run env attrs from body =
     bind_ev (allocEnv (length attrs) (Some env)) (\<lambda>env2.
     bind_ev (buildInheritFromEnv from env2) (\<lambda>inheritEnv.
     bind_ev (fillSlots (attrThunk False env2 env inheritEnv) env2 0 attrs) (\<lambda>vs. run (TEval env2 body))))"

definition evalWith :: "runner \<Rightarrow> addr \<Rightarrow> expr \<Rightarrow> expr \<Rightarrow> val ev" where
  "evalWith run env attrs body =
     bind_ev (allocEnv 1 (Some env)) (\<lambda>env2.
     bind_ev (maybeThunk attrs env) (\<lambda>v. bind_ev (writeSlot env2 0 v) (\<lambda>u. run (TEval env2 body))))"

text \<open>The update operator merges two sorted arrays.\<close>

fun update_merge :: "Bindings \<Rightarrow> Bindings \<Rightarrow> Bindings" where
  "update_merge [] ys = ys"
| "update_merge xs [] = xs"
| "update_merge (x # xs) (y # ys) =
     (if fst x = fst y then y # update_merge xs ys
      else if fst x < fst y then x # update_merge xs (y # ys)
      else y # update_merge (x # xs) ys)"

definition updateAttrs :: "addr \<times> Bindings \<Rightarrow> addr \<times> Bindings \<Rightarrow> val ev" where
  "updateAttrs v1 v2 =
     (if snd v1 = [] then ret (VAttrs (fst v2) (snd v2))
      else if snd v2 = [] then ret (VAttrs (fst v1) (snd v1))
      else bind_ev (allocBindings (length (snd v1) + length (snd v2))) (\<lambda>obj. ret (VAttrs obj (update_merge (snd v1) (snd v2)))))"

definition evalConcatLists :: "runner \<Rightarrow> addr \<Rightarrow> expr \<Rightarrow> expr \<Rightarrow> val ev" where
  "evalConcatLists run env e1 e2 =
     bind_ev (run (TEval env e1)) (\<lambda>v1. bind_ev (checkList v1) (\<lambda>(i, xs).
     bind_ev (run (TEval env e2)) (\<lambda>v2. bind_ev (checkList v2) (\<lambda>(j, ys).
       if xs = [] then ret (VList j ys) else if ys = [] then ret (VList i xs)
       else bind_ev newObject (\<lambda>obj. ret (VList obj (xs @ ys)))))))"

section \<open>Addition and string concatenation\<close>

record ConcatState =
  cs_first :: bool
  cs_type :: ValueType
  cs_n :: "64 word"
  cs_nf :: "64 word"
  cs_s :: "string list"
  cs_context :: "string set"

definition coerceTo :: "runner \<Rightarrow> val \<Rightarrow> string set \<Rightarrow> StringCoercionMode \<Rightarrow> bool \<Rightarrow> bool \<Rightarrow> (string \<times> string set) ev" where
  "coerceTo run v context mode copyToStore canonicalizePath =
     bind_ev (run (TCoerce v context mode copyToStore canonicalizePath)) (\<lambda>r.
       case r of VString s c \<Rightarrow> ret (s, c) | _ \<Rightarrow> throw (AssertionFailed ''not a string''))"

definition concatNumber :: "Ctx \<Rightarrow> ConcatState \<Rightarrow> val \<Rightarrow> ConcatState ev" where
  "concatNumber C st w =
     (if cs_type st = nInt
      then (case w of
              VInt i \<Rightarrow>
                (case valueChecked (checked_add (cs_n st) i) of
                   Some n \<Rightarrow> ret (st\<lparr>cs_n := n\<rparr>)
                 | None \<Rightarrow> throw (EvalError ''integer overflow in adding %1% + %2%''))
            | VFloat f \<Rightarrow> ret (st\<lparr>cs_type := nFloat, cs_nf := float_add C (float_of_int C (cs_n st)) f\<rparr>)
            | _ \<Rightarrow> throw (EvalError ''cannot add %1% to an integer''))
      else (case w of
              VInt i \<Rightarrow> ret (st\<lparr>cs_nf := float_add C (cs_nf st) (float_of_int C i)\<rparr>)
            | VFloat f \<Rightarrow> ret (st\<lparr>cs_nf := float_add C (cs_nf st) f\<rparr>)
            | _ \<Rightarrow> throw (EvalError ''cannot add %1% to a float'')))"

definition concatStep :: "Ctx \<Rightarrow> runner \<Rightarrow> bool \<Rightarrow> ConcatState \<Rightarrow> val \<Rightarrow> ConcatState ev" where
  "concatStep C run isInterpolation st v =
     bind_ev (valueType v) (\<lambda>t. bind_ev (shortcut v) (\<lambda>w.
       let st = (if cs_first st then st\<lparr>cs_type := t\<rparr> else st)
       in if cs_type st = nInt \<or> cs_type st = nFloat
          then bind_ev (concatNumber C st w) (\<lambda>st. ret (st\<lparr>cs_first := False\<rparr>))
          else bind_ev (coerceTo run w (cs_context st)
                          (if isInterpolation \<and> coerceIntegers C then Interpolation else Strict)
                          (cs_type st = nString) (\<not> cs_first st)) (\<lambda>(s, c).
                 ret (st\<lparr>cs_s := cs_s st @ [s], cs_context := c, cs_first := False\<rparr>))))"

fun concatLoop :: "Ctx \<Rightarrow> runner \<Rightarrow> bool \<Rightarrow> addr \<Rightarrow> expr list \<Rightarrow> ConcatState \<Rightarrow> ConcatState ev" where
  "concatLoop C run isInterpolation env [] st = ret st"
| "concatLoop C run isInterpolation env (e # es) st =
     bind_ev (run (TEval env e)) (\<lambda>v. bind_ev (concatStep C run isInterpolation st v) (\<lambda>st.
       concatLoop C run isInterpolation env es st))"

definition concatResult :: "ConcatState \<Rightarrow> val ev" where
  "concatResult st =
     (if cs_type st = nInt then ret (VInt (cs_n st))
      else if cs_type st = nFloat then ret (VFloat (cs_nf st))
      else if cs_type st = nPath
      then (if cs_context st \<noteq> {}
            then throw (EvalError ''a string that refers to a store path cannot be appended to a path'')
            else bind_ev (lift_ev (canonPath no_links (concat (cs_s st)) False)) (\<lambda>p.
                 bind_ev (lift_ev (canonPathOf p)) (\<lambda>p. ret (VPath (cpath p)))))
      else ret (VString (concat (cs_s st)) (cs_context st)))"

definition evalConcatStrings :: "Ctx \<Rightarrow> runner \<Rightarrow> addr \<Rightarrow> bool \<Rightarrow> expr list \<Rightarrow> val ev" where
  "evalConcatStrings C run env isInterpolation es =
     bind_ev (concatLoop C run isInterpolation env es
                \<lparr>cs_first = \<not> isInterpolation, cs_type = nString, cs_n = 0, cs_nf = 0, cs_s = [], cs_context = {}\<rparr>) concatResult"

section \<open>Selecting attributes\<close>

definition orDefault :: "runner \<Rightarrow> addr \<Rightarrow> expr option \<Rightarrow> error \<Rightarrow> val ev" where
  "orDefault run env def err = (case def of Some d \<Rightarrow> run (TEval env d) | None \<Rightarrow> throw err)"

fun selectLoop :: "runner \<Rightarrow> addr \<Rightarrow> expr option \<Rightarrow> val \<Rightarrow> attr_name list \<Rightarrow> val ev" where
  "selectLoop run env def cur [] = run (TForce cur)"
| "selectLoop run env def cur (n # ns) =
     bind_ev (getName run env n) (\<lambda>name. bind_ev (run (TForce cur)) (\<lambda>v. bind_ev (shortcut v) (\<lambda>w.
       case w of
         VAttrs i as \<Rightarrow>
           (case bindings_get name as of
              Some x \<Rightarrow> selectLoop run env def x ns
            | None \<Rightarrow> orDefault run env def (EvalError ''attribute '%s' missing''))
       | _ \<Rightarrow> orDefault run env def (TypeError ''expected a set but found %s: %s''))))"

definition evalSelect :: "runner \<Rightarrow> addr \<Rightarrow> expr \<Rightarrow> attr_name list \<Rightarrow> expr option \<Rightarrow> val ev" where
  "evalSelect run env e path def = bind_ev (run (TEval env e)) (\<lambda>v. selectLoop run env def v path)"

fun hasAttrLoop :: "runner \<Rightarrow> addr \<Rightarrow> val \<Rightarrow> attr_name list \<Rightarrow> val ev" where
  "hasAttrLoop run env cur [] = ret (VBool True)"
| "hasAttrLoop run env cur (n # ns) =
     bind_ev (run (TForce cur)) (\<lambda>v. bind_ev (getName run env n) (\<lambda>name. bind_ev (shortcut v) (\<lambda>w.
       case w of
         VAttrs i as \<Rightarrow>
           (case bindings_get name as of Some x \<Rightarrow> hasAttrLoop run env x ns | None \<Rightarrow> ret (VBool False))
       | _ \<Rightarrow> ret (VBool False))))"

definition evalHasAttr :: "runner \<Rightarrow> addr \<Rightarrow> expr \<Rightarrow> attr_name list \<Rightarrow> val ev" where
  "evalHasAttr run env e path = bind_ev (run (TEval env e)) (\<lambda>v. hasAttrLoop run env v path)"

section \<open>Calling functions\<close>

text \<open>The formals of a function against the attributes it is given: how many were used, and which are missing.\<close>

fun matchupFormals :: "Bindings \<Rightarrow> addr \<Rightarrow> nat \<Rightarrow> formal list \<Rightarrow> (nat \<times> Symbol list) ev" where
  "matchupFormals as env displ [] = ret (0, [])"
| "matchupFormals as env displ (f # fs) =
     (case bindings_get (formal_name f) as of
        Some v \<Rightarrow>
          bind_ev (writeSlot env displ v) (\<lambda>u. bind_ev (matchupFormals as env (displ + 1) fs) (\<lambda>(used, missing).
            ret (used + 1, missing)))
      | None \<Rightarrow>
          (case formal_def f of
             Some d \<Rightarrow>
               bind_ev (maybeThunk d env) (\<lambda>v. bind_ev (writeSlot env displ v) (\<lambda>u. matchupFormals as env (displ + 1) fs))
           | None \<Rightarrow>
               bind_ev (matchupFormals as env displ fs) (\<lambda>(used, missing). ret (used, formal_name f # missing))))"

definition pattern_has :: "formal list \<Rightarrow> Symbol \<Rightarrow> bool" where
  "pattern_has fs name = (sorted_get name (map (\<lambda>f. (formal_name f, ())) fs) \<noteq> None)"

definition unexpectedArgs :: "bool \<Rightarrow> formal list \<Rightarrow> Bindings \<Rightarrow> nat \<Rightarrow> Symbol list" where
  "unexpectedArgs ellipsis fs as used =
     (if \<not> ellipsis \<and> used \<noteq> length as then filter (\<lambda>n. \<not> pattern_has fs n) (map fst as) else [])"

definition matchPattern :: "runner \<Rightarrow> pattern \<Rightarrow> addr \<Rightarrow> val \<Rightarrow> addr ev" where
  "matchPattern run p up arg =
     (case p of
        SimplePattern name \<Rightarrow> bind_ev (allocEnv 1 (Some up)) (\<lambda>env2. bind_ev (writeSlot env2 0 arg) (\<lambda>u. ret env2))
      | AttrsPattern name fs ellipsis \<Rightarrow>
          bind_ev (allocEnv (length fs + (if name \<noteq> 0 then 1 else 0)) (Some up)) (\<lambda>env2.
          bind_ev (forceAttrs run arg) (\<lambda>(i, as).
          bind_ev (if name \<noteq> 0 then bind_ev (writeSlot env2 0 (VAttrs i as)) (\<lambda>u. ret 1) else ret 0) (\<lambda>displ.
          bind_ev (matchupFormals as env2 displ fs) (\<lambda>(used, missing).
            if unexpectedArgs ellipsis fs as used \<noteq> [] \<or> missing \<noteq> []
            then throw (TypeError ''function called without required or with unexpected arguments'')
            else ret env2)))))"

definition makeAppChain :: "val \<Rightarrow> val list \<Rightarrow> val ev" where
  "makeAppChain vCur args m =
     (case vCur of
        VApp a \<Rightarrow>
          (if a < length (apps m)
           then (case apps m ! a of Pending left prev \<Rightarrow> newApp left (prev @ args) m | AppResolved r \<Rightarrow> undefined_behaviour m)
           else undefined_behaviour m)
      | _ \<Rightarrow> newApp vCur args m)"

definition callPrimOp :: "Ctx \<Rightarrow> runner \<Rightarrow> string \<Rightarrow> val list \<Rightarrow> val ev" where
  "callPrimOp C run name args = (case primops C name of Some p \<Rightarrow> prim_fun p run args | None \<Rightarrow> undefined_behaviour)"

text \<open>
  A builtin that has some of its arguments. The subtraction of the number of arguments it has from its arity is one of \<^verbatim>\<open>size_t\<close>:
  with more arguments than the arity, the result is larger than any number of arguments.
\<close>

definition callPrimOpApp :: "Ctx \<Rightarrow> runner \<Rightarrow> addr \<Rightarrow> val \<Rightarrow> val list \<Rightarrow> string \<Rightarrow> val list \<Rightarrow> val ev" where
  "callPrimOpApp C run a left prev name args =
     (case left of
        VApp b \<Rightarrow> throw (AssertionFailed ''!vCur.app().left().isApp()'')
      | _ \<Rightarrow>
          bind_ev (primopArity C name) (\<lambda>n.
            if length prev > n \<or> length args < n - length prev then makeAppChain (VApp a) args
            else bind_ev (callPrimOp C run name (prev @ take (n - length prev) args)) (\<lambda>v.
                   run (TLoop v (drop (n - length prev) args)))))"

definition callOther :: "runner \<Rightarrow> val \<Rightarrow> val list \<Rightarrow> val ev" where
  "callOther run vCur args =
     bind_ev (shortcut vCur) (\<lambda>w.
       case (case w of VAttrs i as \<Rightarrow> bindings_get sym_functor as | _ \<Rightarrow> None) of
         Some f \<Rightarrow> bind_ev (run (TCall f [w, hd args])) (\<lambda>v. run (TLoop v (tl args)))
       | None \<Rightarrow> throw (TypeError ''attempt to call something which is not a function but %1%: %2%''))"

text \<open>One turn of the loop over the arguments.\<close>

definition callLoop :: "Ctx \<Rightarrow> runner \<Rightarrow> val \<Rightarrow> val list \<Rightarrow> val ev" where
  "callLoop C run vCur args m =
     (if args = [] then ret vCur m
      else case vCur of
        VLambda i env p body \<Rightarrow>
          bind_ev (matchPattern run p env (hd args)) (\<lambda>env2. bind_ev (run (TEval env2 body)) (\<lambda>v. run (TLoop v (tl args)))) m
      | VPrimOp name \<Rightarrow>
          bind_ev (primopArity C name) (\<lambda>n.
            if length args < n then makeAppChain vCur args
            else bind_ev (callPrimOp C run name (take n args)) (\<lambda>v. run (TLoop v (drop n args)))) m
      | VApp a \<Rightarrow>
          (if a < length (apps m)
           then (case apps m ! a of
                   Pending left prev \<Rightarrow>
                     bind_ev (target left) (\<lambda>t.
                       case t of
                         VPrimOp name \<Rightarrow> callPrimOpApp C run a left prev name args
                       | _ \<Rightarrow> callOther run vCur args) m
                 | AppResolved r \<Rightarrow> callOther run vCur args m)
           else undefined_behaviour m)
      | _ \<Rightarrow> callOther run vCur args m)"

definition callFunction :: "Ctx \<Rightarrow> runner \<Rightarrow> val \<Rightarrow> val list \<Rightarrow> val ev" where
  "callFunction C run f args m =
     (if callDepth m \<ge> maxCallDepth C then throw (EvalError ''stack overflow; max-call-depth exceeded'') m
      else map_option (\<lambda>(r, m'). (r, m'\<lparr>callDepth := callDepth m' - 1\<rparr>))
             (bind_ev (run (TForce f)) (\<lambda>v. run (TLoop v args)) (m\<lparr>callDepth := callDepth m + 1\<rparr>)))"

definition evalCall :: "runner \<Rightarrow> addr \<Rightarrow> expr \<Rightarrow> expr list \<Rightarrow> val ev" where
  "evalCall run env f args =
     bind_ev (run (TEval env f)) (\<lambda>v. bind_ev (map_ev (\<lambda>e. maybeThunk e env) args) (\<lambda>vs. run (TCall v vs)))"

text \<open>Calling a function with the arguments of the command line that it has formals for.\<close>

fun autoArgs :: "Bindings \<Rightarrow> formal list \<Rightarrow> Bindings ev" where
  "autoArgs args [] = ret []"
| "autoArgs args (f # fs) =
     (case bindings_get (formal_name f) args of
        Some v \<Rightarrow> bind_ev (autoArgs args fs) (\<lambda>xs. ret ((formal_name f, v) # xs))
      | None \<Rightarrow>
          if formal_def f = None
          then throw (MissingArgumentError ''cannot evaluate a function that has an argument without a value (%1%)'')
          else autoArgs args fs)"

definition autoCallFunction :: "Ctx \<Rightarrow> runner \<Rightarrow> Bindings \<Rightarrow> val \<Rightarrow> val ev" where
  "autoCallFunction C run args f =
     bind_ev (run (TForce f)) (\<lambda>v. bind_ev (shortcut v) (\<lambda>w.
       case (case w of VAttrs i as \<Rightarrow> bindings_get sym_functor as | _ \<Rightarrow> None) of
         Some g \<Rightarrow>
           bind_ev (run (TCall g [w])) (\<lambda>v. bind_ev (run (TForce v)) (\<lambda>v. run (TAutoCall args v)))
       | None \<Rightarrow>
           (case w of
              VLambda i env (AttrsPattern name fs ellipsis) body \<Rightarrow>
                bind_ev (allocBindings (max (length fs) (length args))) (\<lambda>obj.
                bind_ev (if ellipsis then ret args else autoArgs args fs) (\<lambda>as.
                  run (TCall w [VAttrs obj (sort_bindings as)])))
            | _ \<Rightarrow> ret w)))"

section \<open>Equality\<close>

definition runEq :: "runner \<Rightarrow> val \<Rightarrow> val \<Rightarrow> bool ev" where
  "runEq run x y =
     bind_ev (run (TEq x y)) (\<lambda>r. case r of VBool b \<Rightarrow> ret b | _ \<Rightarrow> throw (AssertionFailed ''not a Boolean''))"

fun pointerEq :: "val \<Rightarrow> val \<Rightarrow> bool" where
  "pointerEq (VAttrs i as) (VAttrs j bs) = (i = j)"
| "pointerEq (VList i xs) (VList j ys) = (i = j)"
| "pointerEq (VLambda i env p b) (VLambda j env' p' b') = (i = j)"
| "pointerEq (VPrimOp p) (VPrimOp q) = (p = q)"
| "pointerEq (VApp a) (VApp b) = (a = b)"
| "pointerEq v w = False"

fun eqLists :: "runner \<Rightarrow> val list \<Rightarrow> val list \<Rightarrow> bool ev" where
  "eqLists run (x # xs) (y # ys) = bind_ev (runEq run x y) (\<lambda>b. if b then eqLists run xs ys else ret False)"
| "eqLists run xs ys = ret True"

fun eqBindings :: "runner \<Rightarrow> Bindings \<Rightarrow> Bindings \<Rightarrow> bool ev" where
  "eqBindings run ((n, x) # xs) ((k, y) # ys) =
     (if n \<noteq> k then ret False else bind_ev (runEq run x y) (\<lambda>b. if b then eqBindings run xs ys else ret False))"
| "eqBindings run xs ys = ret True"

definition eqAttrs :: "runner \<Rightarrow> Bindings \<Rightarrow> Bindings \<Rightarrow> bool ev" where
  "eqAttrs run as bs =
     bind_ev (bind_ev (isDerivation run as) (\<lambda>d. if d then isDerivation run bs else ret False)) (\<lambda>d.
       case (bindings_get sym_outPath as, bindings_get sym_outPath bs) of
         (Some x, Some y) \<Rightarrow>
           if d then runEq run x y else if length as \<noteq> length bs then ret False else eqBindings run as bs
       | _ \<Rightarrow> if length as \<noteq> length bs then ret False else eqBindings run as bs)"

definition eqSameType :: "Ctx \<Rightarrow> runner \<Rightarrow> ValueType \<Rightarrow> val \<Rightarrow> val \<Rightarrow> bool ev" where
  "eqSameType C run t v1 v2 =
     (case (v1, v2) of
        (VInt i, VInt j) \<Rightarrow> ret (i = j)
      | (VBool a, VBool b) \<Rightarrow> ret (a = b)
      | (VString s c, VString s' c') \<Rightarrow> ret (s = s')
      | (VPath p, VPath q) \<Rightarrow> ret (p = q)
      | (VNull, VNull) \<Rightarrow> ret True
      | (VList i xs, VList j ys) \<Rightarrow>
          if pointerEq v1 v2 then ret True else if length xs \<noteq> length ys then ret False else eqLists run xs ys
      | (VAttrs i as, VAttrs j bs) \<Rightarrow> if pointerEq v1 v2 then ret True else eqAttrs run as bs
      | (VFloat f, VFloat g) \<Rightarrow> ret (float_eq C f g)
      | _ \<Rightarrow> if t = nFunction then ret (pointerEq v1 v2) else throw (EvalError ''cannot compare %1% with %2%''))"

definition eqValues :: "Ctx \<Rightarrow> runner \<Rightarrow> val \<Rightarrow> val \<Rightarrow> bool ev" where
  "eqValues C run v1 v2 =
     bind_ev (run (TForce v1)) (\<lambda>v1. bind_ev (run (TForce v2)) (\<lambda>v2.
     bind_ev (valueType v1) (\<lambda>t1. bind_ev (valueType v2) (\<lambda>t2.
     bind_ev (shortcut v1) (\<lambda>w1. bind_ev (shortcut v2) (\<lambda>w2.
       case (w1, w2) of
         (VInt i, VFloat f) \<Rightarrow> ret (float_eq C (float_of_int C i) f)
       | (VFloat f, VInt i) \<Rightarrow> ret (float_eq C f (float_of_int C i))
       | _ \<Rightarrow> if t1 \<noteq> t2 then ret False else eqSameType C run t1 w1 w2))))))"

section \<open>Order\<close>

text \<open>Both values are forced. Elements of lists are compared for equality first, which forces them.\<close>

definition runLess :: "runner \<Rightarrow> val \<Rightarrow> val \<Rightarrow> bool ev" where
  "runLess run x y =
     bind_ev (run (TLess x y)) (\<lambda>r. case r of VBool b \<Rightarrow> ret b | _ \<Rightarrow> throw (AssertionFailed ''not a Boolean''))"

fun compareLists :: "runner \<Rightarrow> val list \<Rightarrow> val list \<Rightarrow> bool ev" where
  "compareLists run xs [] = ret False"
| "compareLists run [] (y # ys) = ret True"
| "compareLists run (x # xs) (y # ys) =
     bind_ev (runEq run x y) (\<lambda>b. if b then compareLists run xs ys else runLess run x y)"

definition compareSameType :: "Ctx \<Rightarrow> runner \<Rightarrow> val \<Rightarrow> val \<Rightarrow> bool ev" where
  "compareSameType C run v1 v2 =
     (case (v1, v2) of
        (VInt i, VInt j) \<Rightarrow> ret (i <s j)
      | (VFloat f, VFloat g) \<Rightarrow> ret (float_less C f g)
      | (VString s c, VString s' c') \<Rightarrow> ret (s < s')
      | (VPath p, VPath q) \<Rightarrow> ret (p < q)
      | (VList i xs, VList j ys) \<Rightarrow> compareLists run xs ys
      | _ \<Rightarrow> throw (EvalError ''cannot compare %s with %s; values of that type are incomparable''))"

definition compareValues :: "Ctx \<Rightarrow> runner \<Rightarrow> val \<Rightarrow> val \<Rightarrow> bool ev" where
  "compareValues C run v1 v2 =
     bind_ev (valueType v1) (\<lambda>t1. bind_ev (valueType v2) (\<lambda>t2.
     bind_ev (shortcut v1) (\<lambda>w1. bind_ev (shortcut v2) (\<lambda>w2.
       case (w1, w2) of
         (VFloat f, VInt i) \<Rightarrow> ret (float_less C f (float_of_int C i))
       | (VInt i, VFloat f) \<Rightarrow> ret (float_less C (float_of_int C i) f)
       | _ \<Rightarrow> if t1 \<noteq> t2 then throw (EvalError ''cannot compare %s with %s'') else compareSameType C run w1 w2))))"

section \<open>Coercion to strings\<close>

fun nat_string :: "nat \<Rightarrow> string" where
  "nat_string n = (if n < 10 then [char_of (48 + n)] else nat_string (n div 10) @ [char_of (48 + n mod 10)])"

declare nat_string.simps [simp del]

definition int_string :: "int \<Rightarrow> string" where
  "int_string i = (if i < 0 then CHR ''-'' # nat_string (nat (- i)) else nat_string (nat i))"

text \<open>
  Elements are separated by spaces, except after an element that is an empty list. Forcing an element first leaves in it what the
  coercion then finds.
\<close>

fun coerceList :: "runner \<Rightarrow> string set \<Rightarrow> StringCoercionMode \<Rightarrow> bool \<Rightarrow> bool \<Rightarrow> val list \<Rightarrow> (string \<times> string set) ev" where
  "coerceList run context mode copyToStore canonicalizePath [] = ret ([], context)"
| "coerceList run context mode copyToStore canonicalizePath (x # xs) =
     bind_ev (run (TForce x)) (\<lambda>w.
     bind_ev (coerceTo run w context mode copyToStore canonicalizePath) (\<lambda>(s, context).
     bind_ev (coerceList run context mode copyToStore canonicalizePath xs) (\<lambda>(rest, context).
       ret (s @ (if xs \<noteq> [] \<and> (case w of VList i ys \<Rightarrow> ys \<noteq> [] | _ \<Rightarrow> True) then '' '' else []) @ rest, context))))"

definition storeCopy :: "Ctx \<Rightarrow> string \<Rightarrow> (string \<times> string) ev" where
  "storeCopy C p = (case copyPathToStore C p of Inl msg \<Rightarrow> throw (Error msg) | Inr r \<Rightarrow> ret r)"

definition coercePath :: "Ctx \<Rightarrow> string \<Rightarrow> string set \<Rightarrow> bool \<Rightarrow> bool \<Rightarrow> (string \<times> string set) ev" where
  "coercePath C p context copyToStore canonicalizePath =
     (if \<not> canonicalizePath \<and> \<not> copyToStore then ret (p, context)
      else bind_ev (lift_ev (canonPathOf p)) (\<lambda>q.
             if copyToStore
             then bind_ev (storeCopy C (cpath q)) (\<lambda>(s, elem). ret (s, insert elem context))
             else ret (cpath q, context)))"

definition coerceToString ::
    "Ctx \<Rightarrow> runner \<Rightarrow> val \<Rightarrow> string set \<Rightarrow> StringCoercionMode \<Rightarrow> bool \<Rightarrow> bool \<Rightarrow> (string \<times> string set) ev" where
  "coerceToString C run v context mode copyToStore canonicalizePath =
     bind_ev (run (TForce v)) (\<lambda>v. bind_ev (shortcut v) (\<lambda>w.
       let err = throw (TypeError ''cannot coerce %1% to a string: %2%'')
       in case w of
            VString s c \<Rightarrow> ret (s, context \<union> c)
          | VPath p \<Rightarrow> coercePath C p context copyToStore canonicalizePath
          | VAttrs i as \<Rightarrow>
              (case bindings_get sym_toString as of
                 Some f \<Rightarrow> bind_ev (run (TCall f [w])) (\<lambda>v1. coerceTo run v1 context mode copyToStore True)
               | None \<Rightarrow>
                   (case bindings_get sym_outPath as of
                      Some x \<Rightarrow> coerceTo run x context mode copyToStore canonicalizePath
                    | None \<Rightarrow> err))
          | VInt i \<Rightarrow> if mode \<noteq> Strict then ret (int_string (sint i), context) else err
          | VBool b \<Rightarrow> if mode = ToString then ret (if b then ''1'' else [], context) else err
          | VFloat f \<Rightarrow> if mode = ToString then ret (float_string C f, context) else err
          | VNull \<Rightarrow> if mode = ToString then ret ([], context) else err
          | VList i xs \<Rightarrow> if mode = ToString then coerceList run context mode copyToStore canonicalizePath xs else err
          | _ \<Rightarrow> err))"

section \<open>Evaluating expressions\<close>

definition evalBinary :: "runner \<Rightarrow> addr \<Rightarrow> expr \<Rightarrow> expr \<Rightarrow> (val \<Rightarrow> val \<Rightarrow> val ev) \<Rightarrow> val ev" where
  "evalBinary run env e1 e2 f = bind_ev (run (TEval env e1)) (\<lambda>v1. bind_ev (run (TEval env e2)) (\<lambda>v2. f v1 v2))"

text \<open>The operators that look at their second operand only if the first one is \<open>b\<close>, and are \<open>c\<close> otherwise.\<close>

definition evalShortCircuit :: "runner \<Rightarrow> addr \<Rightarrow> bool \<Rightarrow> bool \<Rightarrow> expr \<Rightarrow> expr \<Rightarrow> val ev" where
  "evalShortCircuit run env b c e1 e2 =
     bind_ev (run (TEval env e1)) (\<lambda>v1. bind_ev (checkBool v1) (\<lambda>b1.
       if b1 \<noteq> b then ret (VBool c)
       else bind_ev (run (TEval env e2)) (\<lambda>v2. bind_ev (checkBool v2) (\<lambda>b2. ret (VBool b2)))))"

definition evalUpdate :: "runner \<Rightarrow> addr \<Rightarrow> expr \<Rightarrow> expr \<Rightarrow> val ev" where
  "evalUpdate run env e1 e2 =
     bind_ev (run (TEval env e1)) (\<lambda>v1. bind_ev (checkAttrs v1) (\<lambda>as.
     bind_ev (run (TEval env e2)) (\<lambda>v2. bind_ev (checkAttrs v2) (\<lambda>bs. updateAttrs as bs))))"

definition evalIf :: "runner \<Rightarrow> addr \<Rightarrow> expr \<Rightarrow> expr \<Rightarrow> expr \<Rightarrow> val ev" where
  "evalIf run env c t e =
     bind_ev (run (TEval env c)) (\<lambda>v. bind_ev (checkBool v) (\<lambda>b. run (TEval env (if b then t else e))))"

definition evalAssert :: "runner \<Rightarrow> addr \<Rightarrow> expr \<Rightarrow> expr \<Rightarrow> val ev" where
  "evalAssert run env c body =
     bind_ev (run (TEval env c)) (\<lambda>v. bind_ev (checkBool v) (\<lambda>b.
       if b then run (TEval env body) else throw (AssertionError ''assertion failed'')))"

definition evalExpr :: "Ctx \<Rightarrow> runner \<Rightarrow> addr \<Rightarrow> expr \<Rightarrow> val ev" where
  "evalExpr C run env e =
     (case e of
        ExprLiteral l \<Rightarrow> ret (literal_value l)
      | ExprVar name needsRoot b \<Rightarrow> bind_ev (lookupVar run name b env) (\<lambda>v. run (TForce v))
      | ExprInheritFrom displ \<Rightarrow> bind_ev (validSlot env displ) (\<lambda>v. run (TForce v))
      | ExprSelect e path def \<Rightarrow> evalSelect run env e path def
      | ExprOpHasAttr e path \<Rightarrow> evalHasAttr run env e path
      | ExprSet recursive attrs from dyn \<Rightarrow> evalSet run env recursive attrs from dyn
      | ExprList es \<Rightarrow> bind_ev newObject (\<lambda>obj. bind_ev (map_ev (\<lambda>e. maybeThunk e env) es) (\<lambda>vs. ret (VList obj vs)))
      | ExprLambda p body \<Rightarrow> bind_ev newObject (\<lambda>obj. ret (VLambda obj env p body))
      | ExprCall f args \<Rightarrow> evalCall run env f args
      | ExprLet attrs from body \<Rightarrow> evalLet run env attrs from body
      | ExprWith attrs body w \<Rightarrow> evalWith run env attrs body
      | ExprIf c t e \<Rightarrow> evalIf run env c t e
      | ExprAssert c body \<Rightarrow> evalAssert run env c body
      | ExprOpNot e \<Rightarrow> bind_ev (run (TEval env e)) (\<lambda>v. bind_ev (checkBool v) (\<lambda>b. ret (VBool (\<not> b))))
      | ExprOpEq e1 e2 \<Rightarrow> evalBinary run env e1 e2 (\<lambda>v1 v2. bind_ev (runEq run v1 v2) (\<lambda>b. ret (VBool b)))
      | ExprOpNEq e1 e2 \<Rightarrow> evalBinary run env e1 e2 (\<lambda>v1 v2. bind_ev (runEq run v1 v2) (\<lambda>b. ret (VBool (\<not> b))))
      | ExprOpAnd e1 e2 \<Rightarrow> evalShortCircuit run env True False e1 e2
      | ExprOpOr e1 e2 \<Rightarrow> evalShortCircuit run env False True e1 e2
      | ExprOpImpl e1 e2 \<Rightarrow> evalShortCircuit run env True True e1 e2
      | ExprOpUpdate e1 e2 \<Rightarrow> evalUpdate run env e1 e2
      | ExprOpConcatLists e1 e2 \<Rightarrow> evalConcatLists run env e1 e2
      | ExprConcatStrings isInterpolation es \<Rightarrow> evalConcatStrings C run env isInterpolation es)"

section \<open>Running the evaluator\<close>

definition step :: "Ctx \<Rightarrow> runner \<Rightarrow> runner" where
  "step C run t =
     (case t of
        TEval env e \<Rightarrow> evalExpr C run env e
      | TForce v \<Rightarrow> forceValue C run v
      | TCall f args \<Rightarrow> callFunction C run f args
      | TLoop v args \<Rightarrow> callLoop C run v args
      | TEq v1 v2 \<Rightarrow> bind_ev (eqValues C run v1 v2) (\<lambda>b. ret (VBool b))
      | TLess v1 v2 \<Rightarrow> bind_ev (compareValues C run v1 v2) (\<lambda>b. ret (VBool b))
      | TCoerce v context mode copyToStore canonicalizePath \<Rightarrow>
          bind_ev (coerceToString C run v context mode copyToStore canonicalizePath) (\<lambda>(s, c). ret (VString s c))
      | TAutoCall args f \<Rightarrow> autoCallFunction C run args f)"

text \<open>The depth of the recursion is bounded by \<open>n\<close>; deeper, the evaluator does not return.\<close>

primrec run_ev :: "Ctx \<Rightarrow> nat \<Rightarrow> runner" where
  "run_ev C 0 t = (\<lambda>m. None)"
| "run_ev C (Suc n) t = step C (run_ev C n) t"

definition mem0 :: "val option list \<Rightarrow> Mem" where
  "mem0 builtins = \<lparr>thunks = [], apps = [], envs = [Env None builtins], nextObj = 1, symtab = nix_symbols, callDepth = 0\<rparr>"

definition eval_top :: "Ctx \<Rightarrow> nat \<Rightarrow> expr \<Rightarrow> val ev" where
  "eval_top C n e = run_ev C n (TEval 0 e)"

section \<open>The update operator\<close>

lemma set_update_merge: "set (update_merge xs ys) \<subseteq> set xs \<union> set ys"
  by (induction xs ys rule: update_merge.induct) auto

lemma keys_update_merge: "fst ` set (update_merge xs ys) = fst ` set xs \<union> fst ` set ys"
  by (induction xs ys rule: update_merge.induct) auto

lemma update_merge_ok:
  assumes "omap_ok xs" and "omap_ok ys"
  shows "omap_ok (update_merge xs ys) \<and> map_of (update_merge xs ys) = map_of xs ++ map_of ys"
  using assms
proof (induction xs ys rule: update_merge.induct)
  case (3 x xs y ys)
  obtain k v l w where kv: "x = (k, v)" "y = (l, w)" by (cases x; cases y)
  have x: "\<forall>z \<in> set xs. k < fst z" "omap_ok xs" and y: "\<forall>z \<in> set ys. l < fst z" "omap_ok ys" using "3.prems" kv by auto
  have nx: "map_of xs k = None" and ny: "map_of ys l = None" using x(1) y(1) by (auto simp: map_of_eq_None_iff)
  consider "k = l" | "k < l" | "l < k" by fastforce
  then show ?case
  proof cases
    case 1
    have above: "\<forall>k' \<in> fst ` set (update_merge xs ys). l < k'" unfolding keys_update_merge using 1 x(1) y(1) by auto
    have IH: "omap_ok (update_merge xs ys)" "map_of (update_merge xs ys) = map_of xs ++ map_of ys" using "3.IH"(1) 1 kv x y by auto
    have "map_of ((l, w) # update_merge xs ys) = map_of ((k, v) # xs) ++ map_of ((l, w) # ys)"
      using IH(2) 1 nx by (auto simp: fun_eq_iff map_add_def split: option.splits)
    then show ?thesis using above IH(1) 1 kv by (simp del: map_of.simps(2))
  next
    case 2
    have above: "\<forall>k' \<in> fst ` set (update_merge xs ((l, w) # ys)). k < k'" unfolding keys_update_merge using 2 x(1) y(1) by fastforce
    have IH: "omap_ok (update_merge xs ((l, w) # ys))" "map_of (update_merge xs ((l, w) # ys)) = map_of xs ++ map_of ((l, w) # ys)"
      using "3.IH"(2) 2 kv x y "3.prems"(2) by (auto simp del: map_of.simps(2))
    have "map_of ((l, w) # ys) k = None" using 2 y(1) by (auto simp: map_of_eq_None_iff)
    then have "map_of ((k, v) # update_merge xs ((l, w) # ys)) = map_of ((k, v) # xs) ++ map_of ((l, w) # ys)"
      unfolding map_of.simps(2) [of "(k, v)"] IH(2) by (auto simp: fun_eq_iff map_add_def split: option.splits)
    then show ?thesis using above IH(1) 2 kv by (simp del: map_of.simps(2))
  next
    case 3
    have above: "\<forall>k' \<in> fst ` set (update_merge ((k, v) # xs) ys). l < k'" unfolding keys_update_merge using 3 x(1) y(1) by fastforce
    have IH: "omap_ok (update_merge ((k, v) # xs) ys)" "map_of (update_merge ((k, v) # xs) ys) = map_of ((k, v) # xs) ++ map_of ys"
      using "3.IH"(3) 3 kv x y "3.prems"(1) by (auto simp del: map_of.simps(2))
    have "map_of ((l, w) # update_merge ((k, v) # xs) ys) = map_of ((k, v) # xs) ++ map_of ((l, w) # ys)"
      unfolding map_of.simps(2) [of "(l, w)"] IH(2) using ny by (auto simp: fun_eq_iff map_add_def split: option.splits)
    then show ?thesis using above IH(1) 3 kv by (simp del: map_of.simps(2))
  qed
qed auto

lemma bindings_get_map_of: "omap_ok as \<Longrightarrow> bindings_get name as = map_of as name"
  by (simp add: bindings_get_def sorted_get_map_of)

text \<open>C18: the update operator of the language: the resulting set has an attribute exactly if one of the operands has it, with the value
  of the right operand where that has it and of the left operand otherwise, and it is sorted by name again, as every lookup needs
  it to be.\<close>

theorem updateAttrs_override:
  assumes "omap_ok as" and "omap_ok bs" and "length as + length bs < 2 ^ 32"
  shows "\<exists>obj rs m'. updateAttrs (i, as) (j, bs) m = Some (Inr (VAttrs obj rs), m') \<and> omap_ok rs \<and>
    (\<forall>name. bindings_get name rs = (case bindings_get name bs of Some v \<Rightarrow> Some v | None \<Rightarrow> bindings_get name as))"
proof -
  have get: "bindings_get name (update_merge as bs) = (case bindings_get name bs of Some v \<Rightarrow> Some v | None \<Rightarrow> bindings_get name as)" for name
    using update_merge_ok [OF assms(1,2)] assms(1,2) by (cases "map_of bs name") (auto simp: bindings_get_map_of map_add_def)
  have empty: "update_merge xs [] = xs" for xs by (cases xs) auto
  show ?thesis
    using get update_merge_ok [OF assms(1,2)] assms empty [of as]
    by (cases "as = []"; cases "bs = []") (auto simp: updateAttrs_def ret_def bind_ev_def allocBindings_def newObject_def)
qed

theorem updateAttrs_override_witness:
  "\<exists>obj rs m'. updateAttrs (1, [(60, VInt 1), (61, VInt 2)]) (2, [(61, VInt 3), (62, VNull)]) (mem0 []) = Some (Inr (VAttrs obj rs), m') \<and>
    bindings_get 60 rs = Some (VInt 1) \<and> bindings_get 61 rs = Some (VInt 3) \<and> bindings_get 62 rs = Some VNull \<and> bindings_get 63 rs = None"
  using updateAttrs_override [of "[(60, VInt 1), (61, VInt 2)]" "[(61, VInt 3), (62, VNull)]" 1 2 "mem0 []"]
  by (fastforce simp: omap_ok_def bindings_get_map_of)

end
