(* ===== verification/Lix_Eval_Memory.thy ===== *)
theory Lix_Eval_Memory
  imports Lix_Eval
begin

text \<open>
  The memory of the evaluator stays well formed: every operation keeps an invariant under which nothing that does not exist is ever
  dereferenced. An environment is under construction from its allocation until all its places are filled; nothing is evaluated in
  it before. \<open>F\<close> is the set of environments that are treated as filled already, because they are about to be.
\<close>

section \<open>The invariant\<close>

function env_frames :: "env list \<Rightarrow> addr \<Rightarrow> nat list" where
  "env_frames es a =
     (if a < length es
      then length (env_values (es ! a)) # (case env_up (es ! a) of Some b \<Rightarrow> if b < a then env_frames es b else [] | None \<Rightarrow> [])
      else [])"
  by pat_completeness auto

termination by (relation "measure snd") auto

declare env_frames.simps [simp del]

function env_full :: "addr set \<Rightarrow> env list \<Rightarrow> addr \<Rightarrow> bool" where
  "env_full F es a =
     (if a < length es \<and> (a \<in> F \<or> None \<notin> set (env_values (es ! a)))
      then (case env_up (es ! a) of Some b \<Rightarrow> if b < a then env_full F es b else False | None \<Rightarrow> True)
      else False)"
  by pat_completeness auto

termination by (relation "measure (\<lambda>(F, es, a). a)") auto

declare env_full.simps [simp del]

definition thunk_ok :: "addr set \<Rightarrow> env list \<Rightarrow> thunk \<Rightarrow> bool" where
  "thunk_ok F es t =
     (case t of Suspended env e \<Rightarrow> env_full F es env \<and> scoped (env_frames es env) e | BlackHole \<Rightarrow> True | Resolved v \<Rightarrow> True)"

fun value_ok :: "Ctx \<Rightarrow> addr set \<Rightarrow> Mem \<Rightarrow> val \<Rightarrow> bool" where
  "value_ok C F m (VAttrs i as) \<longleftrightarrow> omap_ok as \<and> (\<forall>x \<in> set as. value_ok C F m (snd x))"
| "value_ok C F m (VList i xs) \<longleftrightarrow> (\<forall>x \<in> set xs. value_ok C F m x)"
| "value_ok C F m (VLambda i env p body) \<longleftrightarrow>
     env_full F (envs m) env \<and> scoped_pattern (pattern_slots p # env_frames (envs m) env) p
     \<and> scoped (pattern_slots p # env_frames (envs m) env) body"
| "value_ok C F m (VThunk a) \<longleftrightarrow> a < length (thunks m) \<and> thunk_ok F (envs m) (thunks m ! a)"
| "value_ok C F m (VApp a) \<longleftrightarrow> a < length (apps m)"
| "value_ok C F m (VPrimOp name) \<longleftrightarrow> primops C name \<noteq> None"
| "value_ok C F m v = True"

fun app_ok :: "Ctx \<Rightarrow> addr set \<Rightarrow> Mem \<Rightarrow> app \<Rightarrow> bool" where
  "app_ok C F m (Pending left args) \<longleftrightarrow> value_ok C F m left \<and> (\<forall>x \<in> set args. value_ok C F m x)"
| "app_ok C F m (AppResolved r) = value_ok C F m r"

text \<open>The symbols of the evaluator itself come first in the symbol table.\<close>

definition symbols_ok :: "SymbolTable \<Rightarrow> bool" where
  "symbols_ok tab \<longleftrightarrow> take (length nix_symbols) tab = nix_symbols"

definition mem_ok :: "Ctx \<Rightarrow> addr set \<Rightarrow> Mem \<Rightarrow> bool" where
  "mem_ok C F m \<longleftrightarrow>
     symbols_ok (symtab m)
     \<and> (\<forall>a b. a < length (envs m) \<longrightarrow> env_up (envs m ! a) = Some b \<longrightarrow> env_full F (envs m) b)
     \<and> (\<forall>a v. env_full F (envs m) a \<longrightarrow> Some v \<in> set (env_values (envs m ! a)) \<longrightarrow> value_ok C F m v)
     \<and> (\<forall>v. Resolved v \<in> set (thunks m) \<longrightarrow> value_ok C F m v)
     \<and> (\<forall>x \<in> set (apps m). app_ok C F m x)"

section \<open>How memory may change\<close>

definition env_le :: "env list \<Rightarrow> env list \<Rightarrow> bool" where
  "env_le es es' \<longleftrightarrow> length es \<le> length es' \<and>
     (\<forall>a < length es. env_up (es' ! a) = env_up (es ! a) \<and> length (env_values (es' ! a)) = length (env_values (es ! a)) \<and>
        (\<forall>i < length (env_values (es ! a)). env_values (es ! a) ! i \<noteq> None \<longrightarrow> env_values (es' ! a) ! i \<noteq> None))"

definition thunks_le :: "thunk list \<Rightarrow> thunk list \<Rightarrow> bool" where
  "thunks_le ts ts' \<longleftrightarrow> length ts \<le> length ts'
     \<and> (\<forall>a < length ts. ts' ! a = ts ! a \<or> (\<exists>env e v. ts ! a = Suspended env e \<and> ts' ! a = Resolved v))
     \<and> (\<forall>a < length ts'. length ts \<le> a \<longrightarrow> ts' ! a \<noteq> BlackHole)"

definition ext :: "nat \<Rightarrow> Mem \<Rightarrow> Mem \<Rightarrow> bool" where
  "ext k m m' \<longleftrightarrow> env_le (envs m) (envs m') \<and> k \<le> length (envs m) \<and> (\<forall>a < k. envs m' ! a = envs m ! a)
     \<and> thunks_le (thunks m) (thunks m') \<and> length (apps m) \<le> length (apps m') \<and> callDepth m' = callDepth m"

lemma env_le_refl [simp]: "env_le es es"
  by (simp add: env_le_def)

lemma env_le_trans: "env_le es es' \<Longrightarrow> env_le es' es'' \<Longrightarrow> env_le es es''"
  by (simp add: env_le_def)

lemma env_le_filled: "env_le es es' \<Longrightarrow> a < length es \<Longrightarrow> None \<notin> set (env_values (es ! a)) \<Longrightarrow> None \<notin> set (env_values (es' ! a))"
  unfolding env_le_def by (metis in_set_conv_nth)

lemma env_le_append [simp]: "env_le es (es @ xs)"
  by (simp add: env_le_def nth_append)

lemma thunks_le_refl [simp]: "thunks_le ts ts"
  by (simp add: thunks_le_def)

lemma thunks_le_trans: "thunks_le ts ts' \<Longrightarrow> thunks_le ts' ts'' \<Longrightarrow> thunks_le ts ts''"
  unfolding thunks_le_def by (metis (no_types, opaque_lifting) less_le_trans not_le thunk.distinct(3,5) order_trans linorder_le_less_linear)

lemma thunks_le_append [simp]: "thunks_le ts (ts @ [Suspended env e])"
  by (simp add: thunks_le_def nth_append)

lemma ext_refl: "k \<le> length (envs m) \<Longrightarrow> ext k m m"
  by (simp add: ext_def)

lemma ext_trans: "ext k m m' \<Longrightarrow> ext k m' m'' \<Longrightarrow> ext k m m''"
  unfolding ext_def using env_le_trans thunks_le_trans by (metis le_trans)

lemma ext_less: "ext j m m' \<Longrightarrow> k \<le> j \<Longrightarrow> ext k m m'"
  unfolding ext_def by auto

lemma ext_length: "ext k m m' \<Longrightarrow> k \<le> length (envs m') \<and> length (envs m) \<le> length (envs m')"
  unfolding ext_def env_le_def by auto

lemma env_full_lt: "env_full F es a \<Longrightarrow> a < length es"
  by (subst (asm) env_full.simps) (auto split: if_splits)

lemma env_full_mono:
  "env_full F es a \<Longrightarrow> env_le es es' \<Longrightarrow> F \<subseteq> G \<Longrightarrow> env_full G es' a \<and> env_frames es' a = env_frames es a"
proof (induction F es a rule: env_full.induct)
  case (1 F es a)
  from "1.prems"(1) have a: "a < length es" "a \<in> F \<or> None \<notin> set (env_values (es ! a))"
    by (subst (asm) env_full.simps, auto split: if_splits)+
  from "1.prems"(2) a have up: "env_up (es' ! a) = env_up (es ! a)" "length (env_values (es' ! a)) = length (env_values (es ! a))"
    "a < length es'" "a \<in> G \<or> None \<notin> set (env_values (es' ! a))" using "1.prems"(3) env_le_filled [OF "1.prems"(2)] by (auto simp: env_le_def)
  show ?case
  proof (cases "env_up (es ! a)")
    case None
    then show ?thesis using a up by (subst env_full.simps, subst env_frames.simps, subst (2) env_frames.simps) auto
  next
    case (Some b)
    then have b: "b < a" "env_full F es b" using "1.prems"(1) by (subst (asm) env_full.simps, auto split: if_splits)+
    have IH: "env_full G es' b \<and> env_frames es' b = env_frames es b"
      by (rule "1.IH" [OF _ Some b(1) b(2) "1.prems"(2,3)]) (use a in simp)
    show ?thesis using a up Some b(1) IH by (subst env_full.simps, subst env_frames.simps, subst (2) env_frames.simps) auto
  qed
qed

lemma thunk_ok_mono: "thunk_ok F es t \<Longrightarrow> env_le es es' \<Longrightarrow> F \<subseteq> G \<Longrightarrow> thunk_ok G es' t"
  using env_full_mono [of F es _ es' G] by (auto simp: thunk_ok_def split: thunk.splits)

lemma value_ok_mono:
  assumes "env_le (envs m) (envs m')" and "F \<subseteq> G"
    and "length (apps m) \<le> length (apps m')" and "length (thunks m) \<le> length (thunks m')"
    and "\<And>a. a < length (thunks m) \<Longrightarrow> thunk_ok F (envs m) (thunks m ! a) \<Longrightarrow> thunk_ok G (envs m') (thunks m' ! a)"
  shows "value_ok C F m v \<Longrightarrow> value_ok C G m' v"
proof (induction v)
  case (VLambda i env p body)
  then show ?case using env_full_mono [OF _ assms(1,2), of env] by auto
qed (use assms in auto)

lemma value_ok_ext: "value_ok C F m v \<Longrightarrow> ext k m m' \<Longrightarrow> value_ok C F m' v"
proof (rule value_ok_mono)
  assume e: "ext k m m'"
  then have le: "env_le (envs m) (envs m')" and t: "thunks_le (thunks m) (thunks m')" by (auto simp: ext_def)
  show "thunk_ok F (envs m') (thunks m' ! a)" if "a < length (thunks m)" "thunk_ok F (envs m) (thunks m ! a)" for a
  proof -
    from t that(1) consider "thunks m' ! a = thunks m ! a" | v where "thunks m' ! a = Resolved v" by (auto simp: thunks_le_def)
    then show ?thesis using thunk_ok_mono [OF that(2) le order_refl] by cases (auto simp: thunk_ok_def)
  qed
qed (auto simp: ext_def thunks_le_def)

lemma env_full_ext: "env_full F (envs m) a \<Longrightarrow> ext k m m' \<Longrightarrow> env_full F (envs m') a \<and> env_frames (envs m') a = env_frames (envs m) a"
  using env_full_mono [of F "envs m" a "envs m'" F] by (auto simp: ext_def)

section \<open>Judgements\<close>

definition safe_error :: "error \<Rightarrow> bool" where
  "safe_error e \<longleftrightarrow> (\<forall>s. e \<noteq> UndefinedBehaviour s)"

text \<open>An operation that builds: it returns a result without an exception. An operation that evaluates: if it returns, memory is well formed.\<close>

definition built :: "Ctx \<Rightarrow> addr set \<Rightarrow> nat \<Rightarrow> Mem \<Rightarrow> 'a ev \<Rightarrow> (Mem \<Rightarrow> 'a \<Rightarrow> bool) \<Rightarrow> bool" where
  "built C F k m f Q \<longleftrightarrow> (\<exists>x m'. f m = Some (Inr x, m') \<and> mem_ok C F m' \<and> ext k m m' \<and> Q m' x)"

definition good :: "Ctx \<Rightarrow> nat \<Rightarrow> Mem \<Rightarrow> 'a ev \<Rightarrow> (Mem \<Rightarrow> 'a \<Rightarrow> bool) \<Rightarrow> bool" where
  "good C k m f Q \<longleftrightarrow>
     (\<forall>r m'. f m = Some (r, m') \<longrightarrow>
        mem_ok C {} m' \<and> ext k m m' \<and> (case r of Inl e \<Rightarrow> safe_error e | Inr x \<Rightarrow> Q m' x))"

lemma built_good: "built C {} k m f Q \<Longrightarrow> good C k m f Q"
  by (auto simp: built_def good_def)

lemma built_bind:
  assumes "built C F k m f Q" and "\<And>x m'. mem_ok C F m' \<Longrightarrow> ext k m m' \<Longrightarrow> Q m' x \<Longrightarrow> built C F k m' (g x) R"
  shows "built C F k m (bind_ev f g) R"
proof -
  from assms(1) obtain x m' where f: "f m = Some (Inr x, m')" "mem_ok C F m'" "ext k m m'" "Q m' x" by (auto simp: built_def)
  from assms(2) [OF f(2-4)] obtain y m'' where "g x m' = Some (Inr y, m'')" "mem_ok C F m''" "ext k m' m''" "R m'' y" by (auto simp: built_def)
  then show ?thesis using f ext_trans by (fastforce simp: built_def bind_ev_def)
qed

lemma good_bind:
  assumes "good C k m f Q" and "\<And>x m'. mem_ok C {} m' \<Longrightarrow> ext k m m' \<Longrightarrow> Q m' x \<Longrightarrow> good C k m' (g x) R"
  shows "good C k m (bind_ev f g) R"
  unfolding good_def
proof (intro allI impI)
  fix r m''
  assume b: "bind_ev f g m = Some (r, m'')"
  show "mem_ok C {} m'' \<and> ext k m m'' \<and> (case r of Inl e \<Rightarrow> safe_error e | Inr x \<Rightarrow> R m'' x)"
  proof (cases "f m")
    case (Some y)
    then obtain r' m' where y: "f m = Some (r', m')" by (cases y) simp
    show ?thesis
    proof (cases r')
      case (Inl e)
      then show ?thesis using assms(1) b y by (auto simp: good_def bind_ev_def)
    next
      case (Inr x)
      then have 1: "mem_ok C {} m'" "ext k m m'" "Q m' x" using assms(1) y by (auto simp: good_def)
      have "g x m' = Some (r, m'')" using b y Inr by (simp add: bind_ev_def)
      with assms(2) [OF 1] have "mem_ok C {} m'' \<and> ext k m' m'' \<and> (case r of Inl e \<Rightarrow> safe_error e | Inr x \<Rightarrow> R m'' x)"
        unfolding good_def by blast
      then show ?thesis using 1(2) ext_trans by blast
    qed
  qed (use b in \<open>simp add: bind_ev_def\<close>)
qed

lemma good_mono: "good C j m f Q \<Longrightarrow> k \<le> j \<Longrightarrow> (\<And>m' x. ext k m m' \<Longrightarrow> Q m' x \<Longrightarrow> R m' x) \<Longrightarrow> good C k m f R"
  unfolding good_def using ext_less by (fastforce split: sum.splits)

lemma built_mono: "built C F k m f Q \<Longrightarrow> (\<And>m' x. ext k m m' \<Longrightarrow> Q m' x \<Longrightarrow> R m' x) \<Longrightarrow> built C F k m f R"
  unfolding built_def by blast

lemma good_ret: "mem_ok C {} m \<Longrightarrow> k \<le> length (envs m) \<Longrightarrow> Q m x \<Longrightarrow> good C k m (ret x) Q"
  by (auto simp: good_def ret_def ext_refl)

lemma built_ret: "mem_ok C F m \<Longrightarrow> k \<le> length (envs m) \<Longrightarrow> Q m x \<Longrightarrow> built C F k m (ret x) Q"
  by (auto simp: built_def ret_def ext_refl)

lemma good_throw: "mem_ok C {} m \<Longrightarrow> k \<le> length (envs m) \<Longrightarrow> safe_error e \<Longrightarrow> good C k m (throw e) Q"
  by (auto simp: good_def throw_def ext_refl)

lemma good_lift:
  "mem_ok C {} m \<Longrightarrow> k \<le> length (envs m) \<Longrightarrow> (\<And>e. r = Inl e \<Longrightarrow> safe_error e) \<Longrightarrow> (\<And>x. r = Inr x \<Longrightarrow> Q m x) \<Longrightarrow> good C k m (lift_ev r) Q"
  by (auto simp: good_def lift_ev_def ext_refl split: sum.splits)

lemma safe_errors [simp]:
  "safe_error (Error s)" "safe_error (AssertionFailed s)" "safe_error (UndefinedVarError s)" "safe_error (EvalError s)"
  "safe_error (TypeError s)" "safe_error (AssertionError s)" "safe_error (InfiniteRecursionError s)" "safe_error (ThrownError s)"
  "safe_error (Abort s)" "safe_error (MissingArgumentError s)"
  by (auto simp: safe_error_def)

section \<open>Reading memory\<close>

lemma slot_ok:
  "mem_ok C F m \<Longrightarrow> env_full F (envs m) a \<Longrightarrow> d < length (env_values (envs m ! a)) \<Longrightarrow> env_values (envs m ! a) ! d = Some v \<Longrightarrow> value_ok C F m v"
  unfolding mem_ok_def by (metis nth_mem)

lemma env_full_up:
  assumes "env_full F es a"
  shows "a < length es" "env_frames es a = length (env_values (es ! a)) # (case env_up (es ! a) of Some b \<Rightarrow> env_frames es b | None \<Rightarrow> [])"
    "env_up (es ! a) = Some b \<Longrightarrow> env_full F es b"
  using assms by (subst (asm) env_full.simps, auto simp: env_frames.simps [of es a] split: if_splits option.splits)+

lemma walkUp_ok:
  "env_full F (envs m) a \<Longrightarrow> l < length (env_frames (envs m) a) \<Longrightarrow>
   \<exists>b. walkUp l a m = Some (Inr b, m) \<and> env_full F (envs m) b \<and> env_frames (envs m) b = drop l (env_frames (envs m) a)"
proof (induction l arbitrary: a)
  case (Suc l)
  note up = env_full_up [OF Suc.prems(1)]
  obtain b where b: "env_up (envs m ! a) = Some b" using Suc.prems(2) up(2) by (cases "env_up (envs m ! a)") auto
  then have "l < length (env_frames (envs m) b)" using Suc.prems(2) up(2) by simp
  from Suc.IH [OF up(3) [OF b] this] show ?case using up(1,2) b by (auto simp: bind_ev_def envUp_def ret_def)
qed (simp add: ret_def)

lemma frames_slots: "env_full F es a \<Longrightarrow> env_frames es a = f # fs \<Longrightarrow> length (env_values (es ! a)) = f"
  using env_full_up(2) [of F es a] by simp

lemma drop_frame: "l < length fs \<Longrightarrow> drop l fs = (fs ! l) # drop (Suc l) fs"
  by (simp add: Cons_nth_drop_Suc)

lemma lookup_slot:
  assumes "env_full F (envs m) a" and "l < length (env_frames (envs m) a)" and "d < env_frames (envs m) a ! l"
  shows "\<exists>b. walkUp l a m = Some (Inr b, m) \<and> env_full F (envs m) b \<and> d < length (env_values (envs m ! b))
    \<and> env_frames (envs m) b = drop l (env_frames (envs m) a)"
proof -
  from walkUp_ok [OF assms(1,2)] obtain b where b: "walkUp l a m = Some (Inr b, m)" "env_full F (envs m) b"
    "env_frames (envs m) b = drop l (env_frames (envs m) a)" by blast
  then show ?thesis using frames_slots [OF b(2)] drop_frame [OF assms(2)] assms(3) by auto
qed

lemma built_readSlot:
  assumes "mem_ok C F m" and "env_full F (envs m) a" and "d < length (env_values (envs m ! a))" and "k \<le> length (envs m)"
  shows "built C F k m (readSlot a d) (\<lambda>m' r. \<forall>v. r = Some v \<longrightarrow> value_ok C F m' v)"
  using assms env_full_lt [OF assms(2)] slot_ok [OF assms(1-3)] by (simp add: built_def readSlot_def ret_def ext_refl)

lemma built_validSlot:
  assumes "mem_ok C {} m" and "env_full {} (envs m) a" and "d < length (env_values (envs m ! a))" and "k \<le> length (envs m)"
  shows "built C {} k m (validSlot a d) (value_ok C {})"
proof -
  have "None \<notin> set (env_values (envs m ! a))" using assms(2) by (subst (asm) env_full.simps) (auto split: if_splits)
  then obtain v where v: "env_values (envs m ! a) ! d = Some v" using assms(3) by (metis nth_mem option.exhaust)
  then show ?thesis using slot_ok [OF assms(1-3) v] env_full_lt [OF assms(2)] assms
    by (simp add: built_def validSlot_def readSlot_def bind_ev_def ret_def ext_refl)
qed

section \<open>Allocation\<close>

lemma mem_ok_grow:
  assumes "mem_ok C F m" and "envs m' = envs m" and "apps m' = apps m" and "thunks m' = thunks m @ ts"
    and "\<forall>v. Resolved v \<notin> set ts" and "symbols_ok (symtab m')"
  shows "mem_ok C F m'"
proof -
  have v: "value_ok C F m v \<Longrightarrow> value_ok C F m' v" for v
    by (erule value_ok_mono [rotated -1]) (use assms in \<open>auto simp: nth_append\<close>)
  then have "app_ok C F m x \<Longrightarrow> app_ok C F m' x" for x by (cases x) auto
  then show ?thesis using assms v by (auto simp: mem_ok_def)
qed

lemma built_newThunk:
  assumes "mem_ok C F m" and "env_full F (envs m) env" and "scoped (env_frames (envs m) env) e" and "k \<le> length (envs m)"
  shows "built C F k m (newThunk env e) (value_ok C F)"
proof -
  let ?m = "m\<lparr>thunks := thunks m @ [Suspended env e]\<rparr>"
  have "symbols_ok (symtab m)" using assms(1) by (simp add: mem_ok_def)
  then have "mem_ok C F ?m" by (intro mem_ok_grow [OF assms(1)]) auto
  moreover have "ext k m ?m" using assms(4) by (simp add: ext_def)
  ultimately show ?thesis using assms(2,3) by (simp add: built_def newThunk_def thunk_ok_def)
qed

lemma built_newObject: "mem_ok C F m \<Longrightarrow> k \<le> length (envs m) \<Longrightarrow> built C F k m newObject (\<lambda>m' x. True)"
  using mem_ok_grow [of C F m "m\<lparr>nextObj := nextObj m + 1\<rparr>" "[]"]
  by (auto simp: built_def newObject_def ext_def mem_ok_def [of C F m])

lemma good_allocBindings: "mem_ok C {} m \<Longrightarrow> k \<le> length (envs m) \<Longrightarrow> good C k m (allocBindings n) (\<lambda>m' x. True)"
  unfolding allocBindings_def by (auto intro: good_ret good_throw built_good built_newObject)

lemma symbols_ok_create: "symbols_ok tab \<Longrightarrow> symbols_ok (snd (sym_create s tab))"
proof -
  assume a: "symbols_ok tab"
  then have "length nix_symbols \<le> length tab" unfolding symbols_ok_def by (metis length_take min.cobounded1)
  then show ?thesis using a by (simp add: symbols_ok_def sym_create_def)
qed

lemma symbol_new: "symbols_ok tab \<Longrightarrow> s \<notin> set nix_symbols \<Longrightarrow> length nix_symbols < fst (sym_create s tab)"
proof -
  assume a: "symbols_ok tab" "s \<notin> set nix_symbols"
  then obtain rest where t: "tab = nix_symbols @ rest" unfolding symbols_ok_def by (metis append_take_drop_id)
  have "takeWhile (\<lambda>t. t \<noteq> s) (nix_symbols @ rest) = nix_symbols @ takeWhile (\<lambda>t. t \<noteq> s) rest" using a(2) by (intro takeWhile_append2) auto
  then show ?thesis using t by (simp add: sym_create_def)
qed

lemma built_createSymbol:
  assumes "mem_ok C F m" and "k \<le> length (envs m)"
  shows "built C F k m (createSymbol s) (\<lambda>m' x. s \<notin> set nix_symbols \<longrightarrow> length nix_symbols < x)"
proof -
  have sym: "symbols_ok (symtab m)" using assms(1) by (simp add: mem_ok_def)
  have "mem_ok C F (m\<lparr>symtab := snd (sym_create s (symtab m))\<rparr>)"
    by (rule mem_ok_grow [OF assms(1), where ts = "[]"]) (use symbols_ok_create [OF sym] in auto)
  then show ?thesis using assms(2) symbol_new [OF sym, of s]
    by (auto simp: built_def createSymbol_def ext_def Let_def split: prod.splits)
qed

lemma good_createSymbol: "mem_ok C {} m \<Longrightarrow> k \<le> length (envs m) \<Longrightarrow> good C k m (createSymbol s) (\<lambda>m' x. True)"
  by (rule good_mono [OF built_good [OF built_createSymbol] order_refl]) auto

lemma built_newApp:
  assumes "mem_ok C F m" and "value_ok C F m left" and "\<forall>x \<in> set args. value_ok C F m x" and "k \<le> length (envs m)"
  shows "built C F k m (newApp left args) (value_ok C F)"
proof -
  let ?m = "m\<lparr>apps := apps m @ [Pending left args]\<rparr>"
  have v: "value_ok C F m v \<Longrightarrow> value_ok C F ?m v" for v by (erule value_ok_mono [rotated -1]) auto
  then have "app_ok C F m x \<Longrightarrow> app_ok C F ?m x" for x by (cases x) auto
  then have "mem_ok C F ?m" using assms(1-3) v by (auto simp: mem_ok_def)
  moreover have "ext k m ?m" using assms(4) by (simp add: ext_def)
  ultimately show ?thesis by (simp add: built_def newApp_def)
qed

section \<open>Building environments\<close>

lemma env_full_fresh:
  "a < length es \<Longrightarrow> env_full (insert (length es) F) (es @ [x]) a = env_full F es a"
proof (induction a rule: less_induct)
  case (less a)
  have "env_full (insert (length es) F) (es @ [x]) b = env_full F es b" if "b < a" for b using less that by auto
  then show ?case using less.prems
    by (subst env_full.simps, subst (2) env_full.simps) (auto simp: nth_append split: option.splits)
qed

text \<open>A fresh environment is treated as filled from the start.\<close>

lemma allocEnv_ok:
  assumes "mem_ok C F m" and "env_full F (envs m) up" and "k \<le> length (envs m)"
  shows "\<exists>m'. allocEnv n (Some up) m = Some (Inr (length (envs m)), m') \<and> mem_ok C (insert (length (envs m)) F) m' \<and> ext k m m'
    \<and> env_full (insert (length (envs m)) F) (envs m') (length (envs m))
    \<and> env_frames (envs m') (length (envs m)) = n # env_frames (envs m) up
    \<and> envs m' = envs m @ [Env (Some up) (replicate n None)]"
proof -
  let ?n = "length (envs m)"
  let ?m = "m\<lparr>envs := envs m @ [Env (Some up) (replicate n None)]\<rparr>" and ?G = "insert (length (envs m)) F"
  have v: "value_ok C F m v \<Longrightarrow> value_ok C ?G ?m v" for v
    by (erule value_ok_mono [rotated -1]) (auto intro: thunk_ok_mono)
  then have app: "app_ok C F m x \<Longrightarrow> app_ok C ?G ?m x" for x by (cases x) auto
  have slots: "value_ok C ?G ?m w" if full: "env_full ?G (envs ?m) a" and w: "Some w \<in> set (env_values (envs ?m ! a))" for a w
  proof (cases "a = ?n")
    case False
    then have a: "a < ?n" using env_full_lt [OF full] by simp
    then have "env_full F (envs m) a" using full env_full_fresh [OF a] by simp
    then show ?thesis using assms(1) w a v by (auto simp: mem_ok_def nth_append)
  qed (use w in simp)
  have up: "env_full ?G (envs ?m) up" "env_frames (envs ?m) up = env_frames (envs m) up"
    using env_full_mono [OF assms(2), of "envs ?m" ?G] by auto
  have parents: "env_full ?G (envs ?m) b" if "a < length (envs ?m)" "env_up (envs ?m ! a) = Some b" for a b
    using that up(1) assms(1) env_full_mono [of F "envs m" b "envs ?m" ?G] by (auto simp: mem_ok_def nth_append less_Suc_eq split: if_splits)
  have "mem_ok C ?G ?m" unfolding mem_ok_def using parents slots assms(1) v app by (auto simp: mem_ok_def)
  moreover have "ext k m ?m" using assms(3) by (simp add: ext_def nth_append)
  moreover have "env_full ?G (envs ?m) ?n" using env_full_lt [OF assms(2)] up(1) by (subst env_full.simps) simp
  moreover have "env_frames (envs ?m) ?n = n # env_frames (envs m) up"
    using env_full_lt [OF assms(2)] up(2) by (subst env_frames.simps) simp
  ultimately show ?thesis by (auto simp: allocEnv_def)
qed

text \<open>Once all its places are filled, an environment need not be treated specially.\<close>

lemma env_full_close:
  "None \<notin> set (env_values (es ! x)) \<Longrightarrow> env_full (insert x F) es a = env_full F es a"
proof (induction a rule: less_induct)
  case (less a)
  have "env_full (insert x F) es b = env_full F es b" if "b < a" for b using less that by auto
  then show ?case using less.prems by (subst env_full.simps, subst (2) env_full.simps) (auto split: option.splits)
qed

lemma value_ok_close: "None \<notin> set (env_values (envs m ! x)) \<Longrightarrow> value_ok C (insert x F) m v = value_ok C F m v"
  using env_full_close by (induction v) (auto simp: thunk_ok_def split: thunk.splits)

lemma mem_ok_close: "None \<notin> set (env_values (envs m ! x)) \<Longrightarrow> mem_ok C (insert x F) m = mem_ok C F m"
proof -
  assume x: "None \<notin> set (env_values (envs m ! x))"
  have "app_ok C (insert x F) m y = app_ok C F m y" for y using value_ok_close [OF x] by (cases y) auto
  then show ?thesis using value_ok_close [OF x] env_full_close [OF x] by (simp add: mem_ok_def)
qed

text \<open>The environment after a place has been written.\<close>

definition write_env :: "env list \<Rightarrow> addr \<Rightarrow> nat \<Rightarrow> val \<Rightarrow> env list" where
  "write_env es a d v = es[a := Env (env_up (es ! a)) ((env_values (es ! a))[d := Some v])]"

lemma write_env_facts:
  assumes "a < length es"
  shows "length (write_env es a d v) = length es" "env_values (write_env es a d v ! a) = (env_values (es ! a))[d := Some v]"
    "b \<noteq> a \<Longrightarrow> write_env es a d v ! b = es ! b" "env_le es (write_env es a d v)"
  using assms by (auto simp: write_env_def env_le_def nth_list_update) (metis nth_list_update_eq nth_list_update_neq)

lemma env_full_write:
  assumes "env_full F es a"
  shows "env_full F (write_env es a d v) b = env_full F es b"
proof (induction b rule: less_induct)
  case (less b)
  have a: "a < length es" "a \<in> F \<or> None \<notin> set (env_values (es ! a))" using assms by (subst (asm) env_full.simps, auto split: if_splits)+
  have full: "env_full F (write_env es a d v) a" using env_full_mono [OF assms write_env_facts(4) [OF a(1)]] by simp
  show ?case
  proof (cases "b = a")
    case False
    then show ?thesis using less write_env_facts [OF a(1)]
      by (subst env_full.simps, subst (2) env_full.simps) (auto split: option.splits)
  qed (use assms full in simp)
qed

lemma built_writeSlot:
  assumes "mem_ok C F m" and "env_full F (envs m) a" and "d < length (env_values (envs m ! a))" and "value_ok C F m v" and "k \<le> a"
  shows "built C F k m (writeSlot a d v) (\<lambda>m' u. envs m' = write_env (envs m) a d v)"
proof -
  let ?m = "m\<lparr>envs := write_env (envs m) a d v\<rparr>"
  have a: "a < length (envs m)" using env_full_lt [OF assms(2)] .
  note facts = write_env_facts [OF a, where d = d and v = v]
  have mono: "value_ok C F m w \<Longrightarrow> value_ok C F ?m w" for w
    by (erule value_ok_mono [rotated -1]) (use facts(4) in \<open>auto intro: thunk_ok_mono\<close>)
  then have app: "app_ok C F m x \<Longrightarrow> app_ok C F ?m x" for x by (cases x) auto
  have slots: "value_ok C F ?m w" if full: "env_full F (envs ?m) b" and w: "Some w \<in> set (env_values (envs ?m ! b))" for b w
  proof (cases "b = a")
    case True
    then have "w = v \<or> Some w \<in> set (env_values (envs m ! a))"
      using w facts(2) set_update_subset_insert [of "env_values (envs m ! a)" d "Some v"] by auto
    then show ?thesis using assms(1,2,4) mono by (auto simp: mem_ok_def)
  next
    case False
    then show ?thesis using full w env_full_write [OF assms(2)] facts(3) assms(1) mono by (auto simp: mem_ok_def)
  qed
  have ups: "env_up (envs ?m ! b) = env_up (envs m ! b)" for b using a by (cases "b = a") (auto simp: write_env_def)
  have "mem_ok C F ?m" unfolding mem_ok_def using slots assms(1) mono app ups env_full_write [OF assms(2)] facts(1) by (auto simp: mem_ok_def)
  moreover have "ext k m ?m" using assms(5) a facts by (auto simp: ext_def)
  moreover have "writeSlot a d v m = Some (Inr (), ?m)" using a assms(3) by (simp add: writeSlot_def write_env_def)
  ultimately show ?thesis by (simp add: built_def)
qed

lemma built_maybeThunk:
  assumes "mem_ok C F m" and "env_full F (envs m) env" and "scoped (env_frames (envs m) env) e" and "k \<le> length (envs m)"
  shows "built C F k m (maybeThunk e env) (value_ok C F)"
proof -
  have thunk: "built C F k m (newThunk env e) (value_ok C F)" by (rule built_newThunk [OF assms])
  consider (bound) name root l d where "e = ExprVar name root (Bound l d)" | (fromWith) name root l w where "e = ExprVar name root (FromWith l w)"
    | (lit) l where "e = ExprLiteral l" | (nil) "e = ExprList []" | (other) "maybeThunk e env = newThunk env e"
  proof (cases "e = ExprList []")
    case False
    then show thesis using that assms(3) by (cases e) (auto simp: maybeThunk_def split: binding.splits list.splits elim: binding_ok.elims)
  qed (use that in simp)
  then show ?thesis
  proof cases
    case bound
    then obtain b where b: "walkUp l env m = Some (Inr b, m)" "env_full F (envs m) b" "d < length (env_values (envs m ! b))"
      using lookup_slot [OF assms(2), of l d] assms(3) by auto
    from built_readSlot [OF assms(1) b(2,3) assms(4)] have r: "readSlot b d m = Some (Inr (env_values (envs m ! b) ! d), m)"
      using env_full_lt [OF b(2)] b(3) by (simp add: readSlot_def ret_def)
    show ?thesis
    proof (cases "env_values (envs m ! b) ! d")
      case None
      then show ?thesis using thunk b(1) r bound by (simp add: maybeThunk_def built_def bind_ev_def)
    next
      case (Some v)
      then show ?thesis using slot_ok [OF assms(1) b(2,3) Some] assms(1,4) b(1) r bound
        by (simp add: maybeThunk_def built_def bind_ev_def ret_def ext_refl)
    qed
  next
    case fromWith
    then obtain b where "walkUp l env m = Some (Inr b, m)" using walkUp_ok [OF assms(2), of l] assms(3) by auto
    then show ?thesis using thunk fromWith by (simp add: maybeThunk_def built_def bind_ev_def)
  next
    case lit
    have "value_ok C F m (literal_value l)" by (cases l) (auto simp: literal_value_def)
    then show ?thesis using lit assms(1,4) by (auto simp: maybeThunk_def intro: built_ret)
  next
    case nil
    then show ?thesis using assms(1,4) by (auto simp: maybeThunk_def EMPTY_LIST_def intro: built_ret)
  next
    case other
    then show ?thesis using thunk by simp
  qed
qed

lemma filled_ext:
  "ext k m m' \<Longrightarrow> a < length (envs m) \<Longrightarrow> i < length (env_values (envs m ! a)) \<Longrightarrow> env_values (envs m ! a) ! i \<noteq> None \<Longrightarrow>
   env_values (envs m' ! a) ! i \<noteq> None"
  by (auto simp: ext_def env_le_def)

lemma slots_ext: "ext k m m' \<Longrightarrow> a < length (envs m) \<Longrightarrow> length (env_values (envs m' ! a)) = length (env_values (envs m ! a))"
  by (auto simp: ext_def env_le_def)

definition filled :: "Mem \<Rightarrow> addr \<Rightarrow> nat \<Rightarrow> nat \<Rightarrow> bool" where
  "filled m a i n \<longleftrightarrow> (\<forall>x. i \<le> x \<longrightarrow> x < i + n \<longrightarrow> env_values (envs m ! a) ! x \<noteq> None)"

lemma filled_Suc: "env_values (envs m ! a) ! i \<noteq> None \<Longrightarrow> filled m a (Suc i) n \<Longrightarrow> filled m a i (Suc n)"
  unfolding filled_def by (metis add_Suc_right add_Suc le_eq_less_or_eq Suc_leI)

lemma filled_all: "filled m a 0 n \<Longrightarrow> length (env_values (envs m ! a)) = n \<Longrightarrow> None \<notin> set (env_values (envs m ! a))"
  by (auto simp: filled_def in_set_conv_nth)

lemma built_fillSlots:
  assumes "mem_ok C F m" and "env_full F (envs m) a" and "displ + length xs \<le> length (env_values (envs m ! a))" and "k \<le> a"
    and "\<And>x m'. x \<in> set xs \<Longrightarrow> mem_ok C F m' \<Longrightarrow> ext k m m' \<Longrightarrow> built C F k m' (f x) (value_ok C F)"
  shows "built C F k m (fillSlots f a displ xs)
    (\<lambda>m' vs. length vs = length xs \<and> (\<forall>v \<in> set vs. value_ok C F m' v) \<and> filled m' a displ (length xs))"
  using assms
proof (induction xs arbitrary: m displ)
  case Nil
  then show ?case using env_full_lt [OF Nil.prems(2)] by (auto intro!: built_ret simp: filled_def)
next
  case (Cons x xs)
  have a: "a < length (envs m)" by (rule env_full_lt [OF Cons.prems(2)])
  have "built C F k m (f x) (value_ok C F)" by (rule Cons.prems(5)) (use Cons.prems(1,4) a in \<open>auto intro: ext_refl\<close>)
  then obtain v m1 where m1: "f x m = Some (Inr v, m1)" "mem_ok C F m1" "ext k m m1" "value_ok C F m1 v" by (auto simp: built_def)
  have full1: "env_full F (envs m1) a" using env_full_ext [OF Cons.prems(2) m1(3)] by simp
  have len1: "length (env_values (envs m1 ! a)) = length (env_values (envs m ! a))" by (rule slots_ext [OF m1(3) a])
  have "built C F k m1 (writeSlot a displ v) (\<lambda>m' u. envs m' = write_env (envs m1) a displ v)"
    by (rule built_writeSlot [OF m1(2) full1 _ m1(4) Cons.prems(4)]) (use Cons.prems(3) len1 in simp)
  then obtain m2 where m2: "writeSlot a displ v m1 = Some (Inr (), m2)" "mem_ok C F m2" "ext k m1 m2" "envs m2 = write_env (envs m1) a displ v"
    by (auto simp: built_def)
  have full2: "env_full F (envs m2) a" using env_full_ext [OF full1 m2(3)] by simp
  have len2: "length (env_values (envs m2 ! a)) = length (env_values (envs m ! a))" using slots_ext [OF m2(3) env_full_lt [OF full1]] len1 by simp
  have set2: "env_values (envs m2 ! a) ! displ \<noteq> None" using m2(4) write_env_facts(2) [OF env_full_lt [OF full1]] Cons.prems(3) len1 by simp
  have "built C F k m2 (fillSlots f a (displ + 1) xs)
    (\<lambda>m' vs. length vs = length xs \<and> (\<forall>v \<in> set vs. value_ok C F m' v) \<and> filled m' a (displ + 1) (length xs))"
  proof (rule Cons.IH [OF m2(2) full2 _ Cons.prems(4)])
    show "built C F k m' (f y) (value_ok C F)" if "y \<in> set xs" "mem_ok C F m'" "ext k m2 m'" for y m'
      by (rule Cons.prems(5)) (use that ext_trans [OF ext_trans [OF m1(3) m2(3)]] in auto)
  qed (use Cons.prems(3) len2 in simp)
  then obtain vs m3 where m3: "fillSlots f a (displ + 1) xs m2 = Some (Inr vs, m3)" "mem_ok C F m3" "ext k m2 m3" "length vs = length xs"
    "\<forall>v \<in> set vs. value_ok C F m3 v" "filled m3 a (displ + 1) (length xs)" by (auto simp: built_def)
  have "env_values (envs m3 ! a) ! displ \<noteq> None"
    by (rule filled_ext [OF m3(3) env_full_lt [OF full2] _ set2]) (use Cons.prems(3) len2 in simp)
  then have "filled m3 a displ (length (x # xs))" using filled_Suc m3(6) by simp
  then show ?case using m1 m2 m3 ext_trans [OF ext_trans [OF m1(3) m2(3)] m3(3)] value_ok_ext [OF value_ok_ext [OF m1(4) m2(3)] m3(3)]
    by (simp add: built_def bind_ev_def ret_def)
qed

lemma built_map_ev:
  assumes "mem_ok C F m" and "k \<le> length (envs m)"
    and "\<And>x m'. x \<in> set xs \<Longrightarrow> mem_ok C F m' \<Longrightarrow> ext k m m' \<Longrightarrow> built C F k m' (f x) (value_ok C F)"
  shows "built C F k m (map_ev f xs) (\<lambda>m' vs. length vs = length xs \<and> (\<forall>v \<in> set vs. value_ok C F m' v))"
  using assms
proof (induction xs arbitrary: m)
  case Nil
  then show ?case by (auto intro: built_ret)
next
  case (Cons x xs)
  have "built C F k m (f x) (value_ok C F)" by (rule Cons.prems(3)) (use Cons.prems(1,2) in \<open>auto intro: ext_refl\<close>)
  then show ?case unfolding map_ev.simps
  proof (rule built_bind)
    fix v m1
    assume m1: "mem_ok C F m1" "ext k m m1" "value_ok C F m1 v"
    have "built C F k m1 (map_ev f xs) (\<lambda>m' vs. length vs = length xs \<and> (\<forall>v \<in> set vs. value_ok C F m' v))"
      by (rule Cons.IH) (use Cons.prems(3) m1 ext_trans [OF m1(2)] ext_length [OF m1(2)] in auto)
    then show "built C F k m1 (bind_ev (map_ev f xs) (\<lambda>vs. ret (v # vs)))
      (\<lambda>m' vs. length vs = length (x # xs) \<and> (\<forall>v \<in> set vs. value_ok C F m' v))"
    proof (rule built_bind)
      fix vs m2
      assume m2: "mem_ok C F m2" "ext k m1 m2" "length vs = length xs \<and> (\<forall>v \<in> set vs. value_ok C F m2 v)"
      then show "built C F k m2 (ret (v # vs)) (\<lambda>m' vs. length vs = length (x # xs) \<and> (\<forall>v \<in> set vs. value_ok C F m' v))"
        using value_ok_ext [OF m1(3) m2(2)] ext_length [OF m2(2)] by (intro built_ret) auto
    qed
  qed
qed

lemma built_buildInheritFromEnv:
  assumes "mem_ok C F m" and "env_full F (envs m) up" and "k \<le> length (envs m)"
    and "\<forall>xs \<in> set_option from. \<forall>x \<in> set xs. scoped (env_frames (envs m) up) x"
  shows "built C F k m (buildInheritFromEnv from up) (\<lambda>m' r. (r = None \<longleftrightarrow> from = None) \<and>
    (\<forall>inh. r = Some inh \<longrightarrow> env_full F (envs m') inh \<and> env_frames (envs m') inh = from_count from # env_frames (envs m) up))"
proof (cases "from")
  case None
  then show ?thesis using assms by (auto simp: buildInheritFromEnv_def intro!: built_ret)
next
  case (Some es)
  let ?n = "length (envs m)" and ?G = "insert (length (envs m)) F"
  from allocEnv_ok [OF assms(1,2,3), of "length es"] obtain m1 where m1: "allocEnv (length es) (Some up) m = Some (Inr ?n, m1)"
    "mem_ok C ?G m1" "ext k m m1" "env_full ?G (envs m1) ?n" "env_frames (envs m1) ?n = length es # env_frames (envs m) up"
    "envs m1 = envs m @ [Env (Some up) (replicate (length es) None)]" by blast
  have up: "env_full ?G (envs m1) up" "env_frames (envs m1) up = env_frames (envs m) up"
    using env_full_mono [OF assms(2), of "envs m1" ?G] m1(6) by auto
  have "built C ?G k m1 (fillSlots (\<lambda>e. maybeThunk e up) ?n 0 es) (\<lambda>m' vs. length vs = length es \<and> (\<forall>v \<in> set vs. value_ok C ?G m' v)
    \<and> filled m' ?n 0 (length es))"
  proof (rule built_fillSlots [OF m1(2,4)])
    show "built C ?G k m' (maybeThunk e up) (value_ok C ?G)" if "e \<in> set es" "mem_ok C ?G m'" "ext k m1 m'" for e m'
      by (rule built_maybeThunk [OF that(2)]) (use env_full_ext [OF up(1) that(3)] up(2) assms(4) Some that(1) ext_length [OF that(3)] in auto)
  qed (use m1(6) assms(3) in auto)
  then obtain vs m2 where m2: "fillSlots (\<lambda>e. maybeThunk e up) ?n 0 es m1 = Some (Inr vs, m2)" "mem_ok C ?G m2" "ext k m1 m2"
    "filled m2 ?n 0 (length es)" by (auto simp: built_def)
  have "length (env_values (envs m2 ! ?n)) = length es" using slots_ext [OF m2(3), of ?n] m1(6) by simp
  then have none: "None \<notin> set (env_values (envs m2 ! ?n))" by (rule filled_all [OF m2(4)])
  have full: "env_full ?G (envs m2) ?n" "env_frames (envs m2) ?n = length es # env_frames (envs m) up"
    using env_full_ext [OF m1(4) m2(3)] m1(5) by auto
  show ?thesis using Some m1(1,3) m2(1,2,3) ext_trans [OF m1(3) m2(3)] mem_ok_close [OF none] env_full_close [OF none] full
    by (auto simp: built_def buildInheritFromEnv_def bind_ev_def ret_def from_count_def)
qed

lemma built_attrThunk:
  assumes "mem_ok C F m" and "env_full F (envs m) inner" and "env_full F (envs m) outer" and "k \<le> length (envs m)"
    and "\<forall>inh. r = Some inh \<longrightarrow> env_full F (envs m) inh \<and> env_frames (envs m) inh = ff"
    and "scoped_def (env_frames (envs m) inner) (env_frames (envs m) outer) ff (r \<noteq> None) d"
  shows "built C F k m (attrThunk always inner outer r d) (value_ok C F)"
proof -
  obtain name kind e where d: "d = AttrDef name kind e" by (cases d)
  obtain env where env: "chooseByKind kind (Some inner) (Some outer) r = Some env" "env_full F (envs m) env" "scoped (env_frames (envs m) env) e"
    using assms(2,3,5,6) d by (cases kind) auto
  show ?thesis using d env built_newThunk [OF assms(1) env(2,3) assms(4)] built_maybeThunk [OF assms(1) env(2,3) assms(4)]
    by (simp add: attrThunk_def)
qed

section \<open>Following results\<close>

lemma resolved_ok: "mem_ok C F m \<Longrightarrow> a < length (thunks m) \<Longrightarrow> thunks m ! a = Resolved v \<Longrightarrow> value_ok C F m v"
  unfolding mem_ok_def by (metis nth_mem)

lemma apps_ok: "mem_ok C F m \<Longrightarrow> a < length (apps m) \<Longrightarrow> app_ok C F m (apps m ! a)"
  unfolding mem_ok_def by simp

lemma app_next_ok: "mem_ok C F m \<Longrightarrow> a < length (apps m) \<Longrightarrow>
    value_ok C F m (case apps m ! a of Pending left args \<Rightarrow> left | AppResolved r \<Rightarrow> r)"
  using apps_ok [of C F m a] by (cases "apps m ! a") auto

lemma shortcut_loop_ok:
  assumes "shortcut_loop m v = Some r" and "mem_ok C F m" and "value_ok C F m v"
  shows "\<exists>w. r = Inr w \<and> value_ok C F m w"
proof -
  have "mem_ok C F m \<longrightarrow> value_ok C F m v \<longrightarrow> (\<exists>w. r = Inr w \<and> value_ok C F m w)"
  proof (rule shortcut_loop.raw_induct [OF _ assms(1), where P = "\<lambda>m v r. mem_ok C F m \<longrightarrow> value_ok C F m v \<longrightarrow> (\<exists>w. r = Inr w \<and> value_ok C F m w)"])
    fix f m v r
    assume IH: "\<And>m v r. f m v = Some r \<Longrightarrow> mem_ok C F m \<longrightarrow> value_ok C F m v \<longrightarrow> (\<exists>w. r = Inr w \<and> value_ok C F m w)"
      and eq: "(case v of VThunk a \<Rightarrow>
          (if a < length (thunks m) then (case thunks m ! a of Resolved r \<Rightarrow> f m r | _ \<Rightarrow> Some (Inr v))
           else Some (Inl (UndefinedBehaviour ''invalid memory access'')))
      | VApp a \<Rightarrow>
          (if a < length (apps m) then (case apps m ! a of AppResolved r \<Rightarrow> f m r | _ \<Rightarrow> Some (Inr v))
           else Some (Inl (UndefinedBehaviour ''invalid memory access'')))
      | _ \<Rightarrow> Some (Inr v)) = Some r"
    show "mem_ok C F m \<longrightarrow> value_ok C F m v \<longrightarrow> (\<exists>w. r = Inr w \<and> value_ok C F m w)"
    proof (intro impI)
      assume m: "mem_ok C F m" and v: "value_ok C F m v"
      show "\<exists>w. r = Inr w \<and> value_ok C F m w"
      proof (cases v)
        case (VThunk a)
        then show ?thesis using v m eq IH resolved_ok [OF m, of a] by (auto split: thunk.splits)
      next
        case (VApp a)
        then show ?thesis using v m eq IH apps_ok [OF m, of a] by (auto split: app.splits)
      qed (use v eq in auto)
    qed
  qed
  then show ?thesis using assms(2,3) by simp
qed

lemma app_target_ok:
  assumes "app_target (apps m) v = Some r" and "mem_ok C F m" and "value_ok C F m v"
  shows "\<exists>w. r = Inr w \<and> value_ok C F m w"
proof -
  have "apps m = apps m \<longrightarrow> value_ok C F m v \<longrightarrow> (\<exists>w. r = Inr w \<and> value_ok C F m w)"
  proof (rule app_target.raw_induct [OF _ assms(1), where P = "\<lambda>xs v r. xs = apps m \<longrightarrow> value_ok C F m v \<longrightarrow> (\<exists>w. r = Inr w \<and> value_ok C F m w)"])
    fix f xs v r
    assume IH: "\<And>xs v r. f xs v = Some r \<Longrightarrow> xs = apps m \<longrightarrow> value_ok C F m v \<longrightarrow> (\<exists>w. r = Inr w \<and> value_ok C F m w)"
      and eq: "(case v of VApp a \<Rightarrow>
          (if a < length xs then f xs (case xs ! a of Pending left args \<Rightarrow> left | AppResolved r \<Rightarrow> r)
           else Some (Inl (UndefinedBehaviour ''invalid memory access'')))
      | _ \<Rightarrow> Some (Inr v)) = Some r"
    show "xs = apps m \<longrightarrow> value_ok C F m v \<longrightarrow> (\<exists>w. r = Inr w \<and> value_ok C F m w)"
      using eq IH app_next_ok [OF assms(2)] by (cases v) auto
  qed
  then show ?thesis using assms(3) by simp
qed

lemma app_total_ok:
  assumes "app_total (apps m) v = Some r" and "mem_ok C F m" and "value_ok C F m v"
  shows "\<exists>n. r = Inr n"
proof -
  have "apps m = apps m \<longrightarrow> value_ok C F m v \<longrightarrow> (\<exists>n. r = Inr n)"
  proof (rule app_total.raw_induct [OF _ assms(1), where P = "\<lambda>xs v r. xs = apps m \<longrightarrow> value_ok C F m v \<longrightarrow> (\<exists>n. r = Inr n)"])
    fix f xs v r
    assume IH: "\<And>xs v r. f xs v = Some r \<Longrightarrow> xs = apps m \<longrightarrow> value_ok C F m v \<longrightarrow> (\<exists>n. r = Inr n)"
      and eq: "(case v of VApp a \<Rightarrow>
          (if a < length xs
           then Option.bind (f xs (case xs ! a of Pending left args \<Rightarrow> left | AppResolved r \<Rightarrow> r))
                  (\<lambda>n. Some (bindr n (\<lambda>n. Inr ((case xs ! a of Pending left args \<Rightarrow> of_nat (length args) | AppResolved r \<Rightarrow> - 1) + n))))
           else Some (Inl (UndefinedBehaviour ''invalid memory access'')))
      | _ \<Rightarrow> Some (Inr 0)) = Some r"
    show "xs = apps m \<longrightarrow> value_ok C F m v \<longrightarrow> (\<exists>n. r = Inr n)"
    proof (cases v)
      case (VApp a)
      show ?thesis
      proof (intro impI)
        assume xs: "xs = apps m" and "value_ok C F m v"
        then have a: "a < length (apps m)" using VApp by simp
        then obtain n where n: "f (apps m) (case apps m ! a of Pending left args \<Rightarrow> left | AppResolved r \<Rightarrow> r) = Some n"
          "r = bindr n (\<lambda>n. Inr ((case apps m ! a of Pending left args \<Rightarrow> of_nat (length args) | AppResolved r \<Rightarrow> - 1) + n))"
          using eq VApp xs by (auto simp: bind_eq_Some_conv)
        from IH [OF n(1)] app_next_ok [OF assms(2) a] obtain k where "n = Inr k" by blast
        then show "\<exists>n. r = Inr n" using n(2) by simp
      qed
    qed (use eq in auto)
  qed
  then show ?thesis using assms(3) by simp
qed

lemma good_pure:
  assumes "f m = map_option (\<lambda>r. (r, m)) y" and "mem_ok C {} m" and "k \<le> length (envs m)"
    and "\<And>r. y = Some r \<Longrightarrow> \<exists>x. r = Inr x \<and> Q x" and "\<And>x. Q x \<Longrightarrow> good C k m (g x) R"
  shows "good C k m (bind_ev f g) R"
proof -
  have "good C k m f (\<lambda>m' x. m' = m \<and> Q x)" using assms(1-4) by (fastforce simp: good_def ext_refl)
  then show ?thesis by (rule good_bind) (use assms(5) in auto)
qed

lemma shortcut_bind:
  "mem_ok C {} m \<Longrightarrow> value_ok C {} m v \<Longrightarrow> k \<le> length (envs m) \<Longrightarrow> (\<And>w. value_ok C {} m w \<Longrightarrow> good C k m (g w) R) \<Longrightarrow>
   good C k m (bind_ev (shortcut v) g) R"
  by (rule good_pure [where y = "shortcut_loop m v" and Q = "value_ok C {} m"]) (auto simp: shortcut_def dest: shortcut_loop_ok)

lemma target_bind:
  "mem_ok C {} m \<Longrightarrow> value_ok C {} m v \<Longrightarrow> k \<le> length (envs m) \<Longrightarrow> (\<And>w. value_ok C {} m w \<Longrightarrow> good C k m (g w) R) \<Longrightarrow>
   good C k m (bind_ev (target v) g) R"
  by (rule good_pure [where y = "app_target (apps m) v" and Q = "value_ok C {} m"]) (auto simp: target_def dest: app_target_ok)

lemma totalArgs_bind:
  "mem_ok C {} m \<Longrightarrow> value_ok C {} m v \<Longrightarrow> k \<le> length (envs m) \<Longrightarrow> (\<And>w. good C k m (g w) R) \<Longrightarrow>
   good C k m (bind_ev (totalArgs v) g) R"
  by (rule good_pure [where y = "app_total (apps m) v" and Q = "\<lambda>x. True"]) (auto simp: totalArgs_def dest: app_total_ok)

lemma good_bind_assoc: "good C k m (bind_ev f (\<lambda>x. bind_ev (g x) h)) R \<Longrightarrow> good C k m (bind_ev (bind_ev f g) h) R"
proof -
  have "bind_ev (bind_ev f g) h = bind_ev f (\<lambda>x. bind_ev (g x) h)" by (rule HOL.ext) (auto simp: bind_ev_def split: option.splits sum.splits)
  then show "good C k m (bind_ev f (\<lambda>x. bind_ev (g x) h)) R \<Longrightarrow> good C k m (bind_ev (bind_ev f g) h) R" by simp
qed

lemma ret_bind [simp]: "bind_ev (ret x) g = g x"
  by (rule HOL.ext) (simp add: bind_ev_def ret_def)

lemma throw_bind [simp]: "bind_ev (throw e) g = throw e"
  by (rule HOL.ext) (simp add: bind_ev_def throw_def)

lemma valueType_bind:
  assumes "mem_ok C {} m" and "value_ok C {} m v" and "k \<le> length (envs m)" and "\<And>t. good C k m (g t) R"
  shows "good C k m (bind_ev (valueType v) g) R"
  unfolding valueType_def
proof (rule good_bind_assoc, rule shortcut_bind [OF assms(1-3)])
  fix w
  assume w: "value_ok C {} m w"
  show "good C k m (bind_ev (case w of
         VInt i \<Rightarrow> ret nInt | VFloat f \<Rightarrow> ret nFloat | VBool b \<Rightarrow> ret nBool | VString s c \<Rightarrow> ret nString | VPath p \<Rightarrow> ret nPath
       | VNull \<Rightarrow> ret nNull | VAttrs i as \<Rightarrow> ret nAttrs | VList i xs \<Rightarrow> ret nList | VLambda i env p b \<Rightarrow> ret nFunction
       | VPrimOp p \<Rightarrow> ret nFunction | VThunk a \<Rightarrow> ret nThunk
       | VApp a \<Rightarrow> bind_ev (target w) (\<lambda>t. ret (if isPrimOp t then nFunction else nThunk))) g) R"
  proof (cases w)
    case (VApp a)
    have "good C k m (bind_ev (bind_ev (target w) (\<lambda>t. ret (if isPrimOp t then nFunction else nThunk))) g) R"
      by (rule good_bind_assoc, rule target_bind [OF assms(1) w assms(3)]) (simp add: assms(4))
    then show ?thesis using VApp by simp
  qed (use assms(4) in auto)
qed

section \<open>An environment that may not get filled\<close>

lemma mem_ok_alloc:
  assumes "mem_ok C F m" and "env_full F (envs m) up"
  shows "mem_ok C F (m\<lparr>envs := envs m @ [Env (Some up) (replicate n None)]\<rparr>)"
proof -
  let ?m = "m\<lparr>envs := envs m @ [Env (Some up) (replicate n None)]\<rparr>"
  have v: "value_ok C F m v \<Longrightarrow> value_ok C F ?m v" for v by (erule value_ok_mono [rotated -1]) (auto intro: thunk_ok_mono)
  then have app: "app_ok C F m x \<Longrightarrow> app_ok C F ?m x" for x by (cases x) auto
  have old: "env_full F (envs m) a" if "env_full F (envs ?m) a" "a < length (envs m)" for a
    using that
  proof (induction a rule: less_induct)
    case (less a)
    then show ?case by (subst env_full.simps, subst (asm) (3) env_full.simps) (auto simp: nth_append split: option.splits if_splits)
  qed
  have slots: "value_ok C F ?m w" if full: "env_full F (envs ?m) a" and w: "Some w \<in> set (env_values (envs ?m ! a))" for a w
  proof (cases "a = length (envs m)")
    case False
    then have a: "a < length (envs m)" using env_full_lt [OF full] by simp
    then show ?thesis using old [OF full a] assms(1) w v by (auto simp: mem_ok_def nth_append)
  qed (use w in simp)
  have parents: "env_full F (envs ?m) b" if "a < length (envs ?m)" "env_up (envs ?m ! a) = Some b" for a b
    using that assms env_full_mono [of F "envs m" b "envs ?m" F] by (auto simp: mem_ok_def nth_append less_Suc_eq split: if_splits)
  show ?thesis unfolding mem_ok_def using parents slots assms(1) v app by (auto simp: mem_ok_def)
qed

lemma mem_ok_open:
  assumes "mem_ok C {} m" and "\<forall>v. Some v \<notin> set (env_values (envs m ! n))"
  shows "mem_ok C {n} m"
proof -
  have full: "env_full {} (envs m) a" if "env_full {n} (envs m) a" "a \<noteq> n" for a
  proof -
    have "a < length (envs m)" using env_full_lt [OF that(1)] .
    then show ?thesis using that assms(1) by (subst env_full.simps, subst (asm) env_full.simps) (auto simp: mem_ok_def split: option.splits if_splits)
  qed
  have v: "value_ok C {} m v \<Longrightarrow> value_ok C {n} m v" for v by (erule value_ok_mono [rotated -1]) (auto intro: thunk_ok_mono)
  then have app: "app_ok C {} m x \<Longrightarrow> app_ok C {n} m x" for x by (cases x) auto
  show ?thesis unfolding mem_ok_def
  proof (intro conjI allI impI)
    show "env_full {n} (envs m) b" if "a < length (envs m)" "env_up (envs m ! a) = Some b" for a b
      using that assms(1) env_full_mono [of "{}" "envs m" b "envs m" "{n}"] by (auto simp: mem_ok_def)
    show "value_ok C {n} m v" if "env_full {n} (envs m) a" "Some v \<in> set (env_values (envs m ! a))" for a v
      using that full [OF that(1)] assms v by (cases "a = n") (auto simp: mem_ok_def)
  qed (use assms(1) v app in \<open>auto simp: mem_ok_def\<close>)
qed

text \<open>From \<open>m\<close> to \<open>m'\<close> only thunks were made and places of the environment \<open>n\<close> filled.\<close>

definition only_fills :: "addr \<Rightarrow> Mem \<Rightarrow> Mem \<Rightarrow> bool" where
  "only_fills n m m' \<longleftrightarrow> env_le (envs m) (envs m') \<and> length (envs m') = length (envs m) \<and> (\<forall>a. a \<noteq> n \<longrightarrow> envs m' ! a = envs m ! a)
     \<and> apps m' = apps m \<and> symtab m' = symtab m \<and> (\<exists>ts. thunks m' = thunks m @ ts \<and> (\<forall>v. Resolved v \<notin> set ts))"

lemma only_fills_refl [simp]: "only_fills n m m"
  by (simp add: only_fills_def)

lemma only_fills_trans: "only_fills n m m' \<Longrightarrow> only_fills n m' m'' \<Longrightarrow> only_fills n m m''"
  unfolding only_fills_def using env_le_trans by auto

lemma walkUp_same: "walkUp l env m = Some (r, m') \<Longrightarrow> m' = m"
  by (induction l arbitrary: env) (auto simp: ret_def bind_ev_def envUp_def undefined_behaviour_def throw_def split: option.splits sum.splits if_splits)

lemma newThunk_only_fills: "newThunk env e m = Some (r, m') \<Longrightarrow> only_fills n m m'"
  by (auto simp: newThunk_def only_fills_def)

lemma maybeThunk_only_fills: "maybeThunk e env m = Some (r, m') \<Longrightarrow> only_fills n m m'"
  using newThunk_only_fills [of env e m r m' n] walkUp_same
  by (cases e) (auto simp: maybeThunk_def bind_ev_def readSlot_def ret_def undefined_behaviour_def throw_def
      split: binding.splits option.splits sum.splits list.splits if_splits dest!: newThunk_only_fills [where n = n] walkUp_same)

lemma writeSlot_only_fills: "writeSlot n d v m = Some (r, m') \<Longrightarrow> only_fills n m m'"
  using write_env_facts(1,3,4) [of n "envs m", where d = d and v = v] by (auto simp: writeSlot_def only_fills_def write_env_def undefined_behaviour_def throw_def split: if_splits)

lemma only_fills_ok:
  assumes "only_fills n m m'" and "mem_ok C {} m" and "mem_ok C {n} m'"
  shows "mem_ok C {} m'"
proof (cases "None \<in> set (env_values (envs m' ! n))")
  case True
  obtain ts where f: "env_le (envs m) (envs m')" "length (envs m') = length (envs m)" "\<And>a. a \<noteq> n \<Longrightarrow> envs m' ! a = envs m ! a"
    "apps m' = apps m" "thunks m' = thunks m @ ts" "\<forall>v. Resolved v \<notin> set ts" "symtab m' = symtab m" using assms(1) by (auto simp: only_fills_def)
  have full: "env_full {} (envs m) a" if "env_full {} (envs m') a" for a
    using that
  proof (induction a rule: less_induct)
    case (less a)
    have "a \<noteq> n" using less.prems True by (subst (asm) env_full.simps) auto
    then show ?case using less f(2,3) by (subst env_full.simps, subst (asm) (2) env_full.simps) (auto split: option.splits if_splits)
  qed
  have v: "value_ok C {} m v \<Longrightarrow> value_ok C {} m' v" for v
    by (erule value_ok_mono [rotated -1]) (use f in \<open>auto simp: nth_append intro: thunk_ok_mono\<close>)
  then have app: "app_ok C {} m x \<Longrightarrow> app_ok C {} m' x" for x by (cases x) auto
  show ?thesis unfolding mem_ok_def
  proof (intro conjI allI impI)
    show "env_full {} (envs m') b" if "a < length (envs m')" "env_up (envs m' ! a) = Some b" for a b
    proof -
      have "env_up (envs m ! a) = Some b" using that f(1,2) by (auto simp: env_le_def)
      then show ?thesis using that(1) assms(2) f(2) env_full_mono [OF _ f(1), of "{}" b] by (auto simp: mem_ok_def)
    qed
    show "value_ok C {} m' w" if "env_full {} (envs m') a" "Some w \<in> set (env_values (envs m' ! a))" for a w
    proof -
      have "a \<noteq> n" using that(1) True by (subst (asm) env_full.simps) auto
      then have "Some w \<in> set (env_values (envs m ! a))" using that(2) f(3) by simp
      then have "value_ok C {} m w" using full [OF that(1)] assms(2) unfolding mem_ok_def by blast
      then show ?thesis by (rule v)
    qed
  qed (use assms(2) v app f in \<open>auto simp: mem_ok_def\<close>)
qed (use assms(3) mem_ok_close [of m' n C "{}"] in simp)

end
