(* ===== verification/Lix_Eval_Safety.thy ===== *)
theory Lix_Eval_Safety
  imports Lix_Eval_Memory
begin

text \<open>
  Every operation of the evaluator keeps memory well formed, provided the operations it calls do: what \<open>run\<close> promises is the
  interface below, and the evaluator promises it in turn.
\<close>

section \<open>The interface\<close>

fun task_ok :: "Ctx \<Rightarrow> Mem \<Rightarrow> task \<Rightarrow> bool" where
  "task_ok C m (TEval env e) \<longleftrightarrow> env_full {} (envs m) env \<and> scoped (env_frames (envs m) env) e"
| "task_ok C m (TForce v) = value_ok C {} m v"
| "task_ok C m (TCall f args) \<longleftrightarrow> value_ok C {} m f \<and> (\<forall>x \<in> set args. value_ok C {} m x)"
| "task_ok C m (TLoop v args) \<longleftrightarrow> value_ok C {} m v \<and> (\<forall>x \<in> set args. value_ok C {} m x)"
| "task_ok C m (TEq v w) \<longleftrightarrow> value_ok C {} m v \<and> value_ok C {} m w"
| "task_ok C m (TLess v w) \<longleftrightarrow> value_ok C {} m v \<and> value_ok C {} m w"
| "task_ok C m (TCoerce v context mode copyToStore canonicalizePath) = value_ok C {} m v"
| "task_ok C m (TAutoCall args f) \<longleftrightarrow> value_ok C {} m f \<and> omap_ok args \<and> (\<forall>x \<in> set args. value_ok C {} m (snd x))"

definition runner_ok :: "Ctx \<Rightarrow> runner \<Rightarrow> bool" where
  "runner_ok C run \<longleftrightarrow>
     (\<forall>m t. mem_ok C {} m \<longrightarrow> task_ok C m t \<longrightarrow> good C (length (envs m)) m (run t) (value_ok C {}))"

definition primop_ok :: "Ctx \<Rightarrow> PrimOp \<Rightarrow> bool" where
  "primop_ok C p \<longleftrightarrow>
     (\<forall>run m args. runner_ok C run \<longrightarrow> mem_ok C {} m \<longrightarrow> length args = arity p \<longrightarrow> (\<forall>x \<in> set args. value_ok C {} m x) \<longrightarrow>
        good C (length (envs m)) m (prim_fun p run args) (value_ok C {}))"

definition ctx_ok :: "Ctx \<Rightarrow> bool" where
  "ctx_ok C \<longleftrightarrow> (\<forall>name p. primops C name = Some p \<longrightarrow> primop_ok C p)"

definition env_at :: "Mem \<Rightarrow> addr \<Rightarrow> nat list \<Rightarrow> bool" where
  "env_at m env fs \<longleftrightarrow> env_full {} (envs m) env \<and> env_frames (envs m) env = fs"

lemma env_at_ext: "env_at m env fs \<Longrightarrow> ext k m m' \<Longrightarrow> env_at m' env fs"
  using env_full_ext by (auto simp: env_at_def)

lemma values_ext: "\<forall>x \<in> set xs. value_ok C {} m x \<Longrightarrow> ext k m m' \<Longrightarrow> \<forall>x \<in> set xs. value_ok C {} m' x"
  using value_ok_ext by blast

lemma task_eval: "env_at m env fs \<Longrightarrow> scoped fs e \<Longrightarrow> task_ok C m (TEval env e)"
  by (simp add: env_at_def)

text \<open>An operation relies on what performs its tasks; the evaluator relies on its builtins, too.\<close>

locale task_runner =
  fixes C :: Ctx and run :: runner
  assumes run_ok: "runner_ok C run"
begin

lemma run_good:
  assumes "mem_ok C {} m" and "k \<le> length (envs m)" and "task_ok C m t"
  shows "good C k m (run t) (value_ok C {})"
  by (rule good_mono [of C "length (envs m)"]) (use run_ok assms in \<open>auto simp: runner_ok_def\<close>)

lemma run_bind:
  assumes "mem_ok C {} m" and "k \<le> length (envs m)" and "task_ok C m t"
    and "\<And>v m'. mem_ok C {} m' \<Longrightarrow> k \<le> length (envs m') \<Longrightarrow> ext k m m' \<Longrightarrow> value_ok C {} m' v \<Longrightarrow> good C k m' (g v) R"
  shows "good C k m (bind_ev (run t) g) R"
  by (rule good_bind [OF run_good [OF assms(1-3)]]) (use assms(4) ext_length in blast)

lemma bind_ev_assoc: "bind_ev (bind_ev f g) h = bind_ev f (\<lambda>x. bind_ev (g x) h)"
  by (rule HOL.ext) (auto simp: bind_ev_def split: option.splits sum.splits)

lemma attrs_ok: "value_ok C {} m (VAttrs i as) \<Longrightarrow> bindings_get name as = Some v \<Longrightarrow> value_ok C {} m v"
  by (auto simp: bindings_get_def sorted_get_map_of dest!: map_of_SomeD)

lemmas stable = value_ok_ext values_ext env_at_ext
lemmas good_intros = good_ret good_throw run_bind run_good shortcut_bind valueType_bind good_bind_assoc

lemma check_good:
  assumes "mem_ok C {} m" and "k \<le> length (envs m)" and "value_ok C {} m v"
  shows "good C k m (checkBool v) (\<lambda>m' b. True)" "good C k m (checkInt v) (\<lambda>m' b. True)" "good C k m (checkFloat C v) (\<lambda>m' b. True)"
    "good C k m (checkList v) (\<lambda>m' x. \<forall>y \<in> set (snd x). value_ok C {} m' y)"
    "good C k m (checkAttrs v) (\<lambda>m' x. value_ok C {} m' (VAttrs (fst x) (snd x)))"
  unfolding checkBool_def checkInt_def checkFloat_def checkList_def checkAttrs_def
  by (rule shortcut_bind [OF assms(1,3,2)]; use assms in \<open>fastforce intro!: good_ret good_throw split: val.splits\<close>)+

lemma force_good:
  assumes "mem_ok C {} m" and "k \<le> length (envs m)" and "value_ok C {} m v"
  shows "good C k m (forceBool run v) (\<lambda>m' b. True)" "good C k m (forceInt run v) (\<lambda>m' b. True)"
    "good C k m (forceFloat C run v) (\<lambda>m' b. True)"
    "good C k m (forceList run v) (\<lambda>m' x. \<forall>y \<in> set (snd x). value_ok C {} m' y)"
    "good C k m (forceAttrs run v) (\<lambda>m' x. value_ok C {} m' (VAttrs (fst x) (snd x)))"
  unfolding forceBool_def forceInt_def forceFloat_def forceList_def forceAttrs_def
  using assms by (auto intro!: run_bind check_good simp del: value_ok.simps)

lemma forceFunction_good:
  assumes "mem_ok C {} m" and "k \<le> length (envs m)" and "value_ok C {} m v"
  shows "good C k m (forceFunction run v) (value_ok C {})"
  unfolding forceFunction_def using assms by (auto intro!: good_intros)

lemma forceString_good:
  assumes "mem_ok C {} m" and "k \<le> length (envs m)" and "value_ok C {} m v"
  shows "good C k m (forceString run v) (\<lambda>m' x. True)"
  unfolding forceString_def using assms by (auto intro!: good_intros split: val.splits)

lemma forceStringNoCtx_good:
  assumes "mem_ok C {} m" and "k \<le> length (envs m)" and "value_ok C {} m v"
  shows "good C k m (forceStringNoCtx run v) (\<lambda>m' x. True)"
  unfolding forceStringNoCtx_def
  by (rule good_bind [OF forceString_good [OF assms]]) (auto intro!: good_ret good_throw dest: ext_length split: prod.splits)

lemma isDerivation_good:
  assumes "mem_ok C {} m" and "k \<le> length (envs m)" and "value_ok C {} m (VAttrs i as)"
  shows "good C k m (isDerivation run as) (\<lambda>m' x. True)"
  unfolding isDerivation_def using assms attrs_ok [OF assms(3)]
  by (auto intro!: good_intros split: option.splits val.splits simp del: value_ok.simps)

lemma getName_good:
  assumes "mem_ok C {} m" and "k \<le> length (envs m)" and "env_at m env fs" and "scoped_name fs n"
  shows "good C k m (getName run env n) (\<lambda>m' x. True)"
proof (cases n)
  case (AttrExpr e)
  show ?thesis unfolding getName_def AttrExpr attr_name.case
  proof (rule run_bind [OF assms(1,2) task_eval [OF assms(3)]])
    fix v m'
    assume "mem_ok C {} m'" "k \<le> length (envs m')" "value_ok C {} m' v"
    then show "good C k m' (bind_ev (forceStringNoCtx run v) createSymbol) (\<lambda>m' x. True)"
      by (intro good_bind [OF forceStringNoCtx_good]) (auto intro: good_createSymbol dest: ext_length)
  qed (use assms(4) AttrExpr in simp)
qed (use assms in \<open>auto simp: getName_def intro: good_ret\<close>)

lemma walkUp_bind:
  assumes "mem_ok C {} m" and "k \<le> length (envs m)" and "env_at m env fs" and "l < length fs"
    and "\<And>env'. env_at m env' (drop l fs) \<Longrightarrow> good C k m (g env') R"
  shows "good C k m (bind_ev (walkUp l env) g) R"
proof -
  obtain b where "walkUp l env m = Some (Inr b, m)" "env_at m b (drop l fs)" using walkUp_ok [of "{}" m env l] assms(3,4) by (auto simp: env_at_def)
  then have "good C k m (walkUp l env) (\<lambda>m' x. m' = m \<and> env_at m x (drop l fs))" using assms(1,2) by (simp add: good_def ext_refl)
  then show ?thesis by (rule good_bind) (use assms(5) in auto)
qed

lemma validSlot_good:
  assumes "mem_ok C {} m" and "k \<le> length (envs m)" and "env_at m env fs" and "fs \<noteq> []" and "d < hd fs"
  shows "good C k m (validSlot env d) (value_ok C {})"
proof (rule built_good [OF built_validSlot [OF assms(1) _ _ assms(2)]])
  show "env_full {} (envs m) env" using assms(3) by (simp add: env_at_def)
  from frames_slots [OF this, of "hd fs" "tl fs"] show "d < length (env_values (envs m ! env))" using assms(3-5) by (simp add: env_at_def)
qed

lemma lookupWith_good:
  assumes "mem_ok C {} m" and "k \<le> length (envs m)" and "env_at m env fs" and "fs \<noteq> []" and "0 < hd fs" and "with_ok fs w"
  shows "good C k m (lookupWith run name env w) (value_ok C {})"
  using assms
proof (induction w arbitrary: m env fs)
  case (WithRef prev parent)
  show ?case unfolding lookupWith.simps
  proof (rule good_bind [OF validSlot_good [OF WithRef.prems(1-5)]])
    fix v m1
    assume m1: "mem_ok C {} m1" "ext k m m1" "value_ok C {} m1 v"
    have k1: "k \<le> length (envs m1)" using ext_length [OF m1(2)] by simp
    show "good C k m1 (bind_ev (forceAttrs run v) (\<lambda>(i, as). case bindings_get name as of Some x \<Rightarrow> ret x
       | None \<Rightarrow> (case parent of None \<Rightarrow> throw (UndefinedVarError ''undefined variable %1%'')
            | Some w \<Rightarrow> bind_ev (walkUp prev env) (\<lambda>env. lookupWith run name env w)))) (value_ok C {})"
    proof (rule good_bind [OF force_good(5) [OF m1(1) k1 m1(3)]], clarify)
      fix i as m2
      assume m2: "mem_ok C {} m2" "ext k m1 m2" "value_ok C {} m2 (VAttrs (fst (i, as)) (snd (i, as)))"
      have k2: "k \<le> length (envs m2)" using ext_length [OF m2(2)] by simp
      have env2: "env_at m2 env fs" using WithRef.prems(3) m1(2) m2(2) env_at_ext by blast
      show "good C k m2 (case bindings_get name as of Some x \<Rightarrow> ret x
       | None \<Rightarrow> (case parent of None \<Rightarrow> throw (UndefinedVarError ''undefined variable %1%'')
            | Some w \<Rightarrow> bind_ev (walkUp prev env) (\<lambda>env. lookupWith run name env w))) (value_ok C {})"
      proof (cases "bindings_get name as")
        case None
        show ?thesis
        proof (cases parent)
          case (Some w)
          then have p: "prev < length fs" "0 < fs ! prev" "with_ok (drop prev fs) w" using WithRef.prems(6) by auto
          have "good C k m2 (lookupWith run name env' w) (value_ok C {})" if "env_at m2 env' (drop prev fs)" for env'
            by (rule WithRef.IH [OF _ m2(1) k2 that]) (use p Some in \<open>auto simp: hd_drop_conv_nth\<close>)
          then show ?thesis using None Some by (simp add: walkUp_bind [OF m2(1) k2 env2 p(1)])
        qed (use None m2(1) k2 in \<open>auto intro: good_throw\<close>)
      qed (use attrs_ok m2 k2 in \<open>auto intro!: good_ret simp del: value_ok.simps\<close>)
    qed
  qed
qed

lemma lookupVar_good:
  assumes "mem_ok C {} m" and "k \<le> length (envs m)" and "env_at m env fs" and "binding_ok fs b"
  shows "good C k m (lookupVar run name b env) (value_ok C {})"
proof (cases b)
  case (Bound l d)
  then have "l < length fs" "d < hd (drop l fs)" using assms(4) by (auto simp: hd_drop_conv_nth)
  then show ?thesis using Bound assms(1-3) by (auto simp: lookupVar_def intro!: walkUp_bind [where fs = fs] validSlot_good [where fs = "drop l fs"])
next
  case (FromWith l w)
  then have "l < length fs" "0 < hd (drop l fs)" "with_ok (drop l fs) w" using assms(4) by (auto simp: hd_drop_conv_nth)
  then show ?thesis using FromWith assms(1-3) by (auto simp: lookupVar_def intro!: walkUp_bind [where fs = fs] lookupWith_good [where fs = "drop l fs"])
qed (use assms(4) in simp)

text \<open>An environment for the attributes of a \<^verbatim>\<open>let\<close> or a recursive set, from its allocation until it is filled.\<close>

lemma env_built:
  assumes "mem_ok C {} m" and "k \<le> length (envs m)" and "env_at m env fs"
    and "\<forall>xs \<in> set_option from. \<forall>x \<in> set xs. scoped (length attrs # fs) x"
    and "\<forall>x \<in> set attrs. scoped_def (length attrs # fs) fs (from_count from # length attrs # fs) (from \<noteq> None) x"
    and "\<And>vs m'. mem_ok C {} m' \<Longrightarrow> ext k m m' \<Longrightarrow> env_at m' (length (envs m)) (length attrs # fs) \<Longrightarrow> length vs = length attrs \<Longrightarrow>
          \<forall>v \<in> set vs. value_ok C {} m' v \<Longrightarrow> good C k m' (g (length (envs m)) vs) R"
  shows "good C k m (bind_ev (allocEnv (length attrs) (Some env)) (\<lambda>env2. bind_ev (buildInheritFromEnv from env2) (\<lambda>inheritEnv.
    bind_ev (fillSlots (attrThunk always env2 env inheritEnv) env2 0 attrs) (\<lambda>vs. g env2 vs)))) R"
proof -
  let ?n = "length (envs m)"
  have env: "env_full {} (envs m) env" "env_frames (envs m) env = fs" using assms(3) by (auto simp: env_at_def)
  from allocEnv_ok [OF assms(1) env(1) assms(2), of "length attrs"] obtain m1 where
    m1: "allocEnv (length attrs) (Some env) m = Some (Inr ?n, m1)" "mem_ok C {?n} m1" "ext k m m1" "env_full {?n} (envs m1) ?n"
      "env_frames (envs m1) ?n = length attrs # fs" "envs m1 = envs m @ [Env (Some env) (replicate (length attrs) None)]" using env(2) by auto
  have env1: "env_full {?n} (envs m1) env" "env_frames (envs m1) env = fs"
    using env_full_mono [OF env(1), of "envs m1" "{?n}"] env(2) m1(6) by auto
  have "built C {?n} k m1 (buildInheritFromEnv from ?n) (\<lambda>m' r. (r = None \<longleftrightarrow> from = None) \<and>
    (\<forall>inh. r = Some inh \<longrightarrow> env_full {?n} (envs m') inh \<and> env_frames (envs m') inh = from_count from # env_frames (envs m1) ?n))"
    by (rule built_buildInheritFromEnv [OF m1(2,4)]) (use assms(2,4) m1(5,6) in auto)
  then obtain inh m2 where m2: "buildInheritFromEnv from ?n m1 = Some (Inr inh, m2)" "mem_ok C {?n} m2" "ext k m1 m2" "inh = None \<longleftrightarrow> from = None"
    "\<forall>i. inh = Some i \<longrightarrow> env_full {?n} (envs m2) i \<and> env_frames (envs m2) i = from_count from # length attrs # fs" using m1(5) by (auto simp: built_def)
  have full2: "env_full {?n} (envs m2) ?n" "env_frames (envs m2) ?n = length attrs # fs" using env_full_ext [OF m1(4) m2(3)] m1(5) by auto
  have env2: "env_full {?n} (envs m2) env" "env_frames (envs m2) env = fs" using env_full_ext [OF env1(1) m2(3)] env1(2) by auto
  have len2: "length (env_values (envs m2 ! ?n)) = length attrs" using frames_slots [OF full2(1)] full2(2) by simp
  have "built C {?n} k m2 (fillSlots (attrThunk always ?n env inh) ?n 0 attrs)
    (\<lambda>m' vs. length vs = length attrs \<and> (\<forall>v \<in> set vs. value_ok C {?n} m' v) \<and> filled m' ?n 0 (length attrs))"
  proof (rule built_fillSlots [OF m2(2) full2(1)])
    show "built C {?n} k m' (attrThunk always ?n env inh d) (value_ok C {?n})" if d: "d \<in> set attrs" and m': "mem_ok C {?n} m'" "ext k m2 m'" for d m'
    proof (rule built_attrThunk [OF m'(1)])
      show "scoped_def (env_frames (envs m') ?n) (env_frames (envs m') env) (from_count from # length attrs # fs) (inh \<noteq> None) d"
        using env_full_ext [OF full2(1) m'(2)] env_full_ext [OF env2(1) m'(2)] full2(2) env2(2) assms(5) d m2(4) by auto
    qed (use env_full_ext [OF full2(1) m'(2)] env_full_ext [OF env2(1) m'(2)] env_full_ext [OF _ m'(2)] m2(5) ext_length [OF m'(2)] in auto)
  qed (use len2 assms(2) in auto)
  then obtain vs m3 where m3: "fillSlots (attrThunk always ?n env inh) ?n 0 attrs m2 = Some (Inr vs, m3)" "mem_ok C {?n} m3" "ext k m2 m3"
    "length vs = length attrs" "\<forall>v \<in> set vs. value_ok C {?n} m3 v" "filled m3 ?n 0 (length attrs)" by (auto simp: built_def)
  have full3: "env_full {?n} (envs m3) ?n" "env_frames (envs m3) ?n = length attrs # fs" using env_full_ext [OF full2(1) m3(3)] full2(2) by auto
  have none: "None \<notin> set (env_values (envs m3 ! ?n))" using filled_all [OF m3(6)] frames_slots [OF full3(1)] full3(2) by simp
  have e: "ext k m m3" using ext_trans [OF ext_trans [OF m1(3) m2(3)] m3(3)] .
  have "good C k m3 (g ?n vs) R"
    by (rule assms(6)) (use m3 none full3 e mem_ok_close [OF none] value_ok_close [OF none] env_full_close [OF none] in \<open>auto simp: env_at_def\<close>)
  then show ?thesis using m1(1) m2(1) m3(1) e ext_trans [OF e] by (fastforce simp: good_def bind_ev_def)
qed

lemma evalLet_good:
  assumes "mem_ok C {} m" and "k \<le> length (envs m)" and "env_at m env fs" and "scoped fs (ExprLet attrs from body)"
  shows "good C k m (evalLet run env attrs from body) (value_ok C {})"
  unfolding evalLet_def
proof (rule env_built [OF assms(1-3)])
  fix vs m'
  assume m': "mem_ok C {} m'" "ext k m m'" "env_at m' (length (envs m)) (length attrs # fs)"
  show "good C k m' (run (TEval (length (envs m)) body)) (value_ok C {})"
    by (rule run_good [OF m'(1) _ task_eval [OF m'(3)]]) (use assms(4) ext_length [OF m'(2)] in \<open>auto simp: Let_def\<close>)
qed (use assms(4) in \<open>auto simp: Let_def\<close>)

lemma evalWith_good:
  assumes "mem_ok C {} m" and "k \<le> length (envs m)" and "env_at m env fs" and "scoped fs (ExprWith attrs body w)"
  shows "good C k m (evalWith run env attrs body) (value_ok C {})"
proof -
  let ?n = "length (envs m)"
  have env: "env_full {} (envs m) env" "env_frames (envs m) env = fs" using assms(3) by (auto simp: env_at_def)
  from allocEnv_ok [OF assms(1) env(1) assms(2), of 1] obtain m1 where
    m1: "allocEnv 1 (Some env) m = Some (Inr ?n, m1)" "mem_ok C {?n} m1" "ext k m m1" "env_full {?n} (envs m1) ?n"
      "env_frames (envs m1) ?n = 1 # fs" "envs m1 = envs m @ [Env (Some env) (replicate 1 None)]" using env(2) by auto
  have env1: "env_full {?n} (envs m1) env" "env_frames (envs m1) env = fs"
    using env_full_mono [OF env(1), of "envs m1" "{?n}"] env(2) m1(6) by auto
  have "built C {?n} k m1 (maybeThunk attrs env) (value_ok C {?n})"
    by (rule built_maybeThunk [OF m1(2) env1(1)]) (use env1(2) assms(4) ext_length [OF m1(3)] in auto)
  then obtain v m2 where m2: "maybeThunk attrs env m1 = Some (Inr v, m2)" "mem_ok C {?n} m2" "ext k m1 m2" "value_ok C {?n} m2 v" by (auto simp: built_def)
  have full2: "env_full {?n} (envs m2) ?n" "env_frames (envs m2) ?n = 1 # fs" using env_full_ext [OF m1(4) m2(3)] m1(5) by auto
  have "built C {?n} k m2 (writeSlot ?n 0 v) (\<lambda>m' u. envs m' = write_env (envs m2) ?n 0 v)"
    by (rule built_writeSlot [OF m2(2) full2(1) _ m2(4) assms(2)]) (use frames_slots [OF full2] in simp)
  then obtain m3 where m3: "writeSlot ?n 0 v m2 = Some (Inr (), m3)" "mem_ok C {?n} m3" "ext k m2 m3" "envs m3 = write_env (envs m2) ?n 0 v" by (auto simp: built_def)
  have full3: "env_full {?n} (envs m3) ?n" "env_frames (envs m3) ?n = 1 # fs" using env_full_ext [OF full2(1) m3(3)] full2(2) by auto
  have "env_values (envs m3 ! ?n) = [Some v]"
    using m3(4) write_env_facts(2) [OF env_full_lt [OF full2(1)]] frames_slots [OF full2] by (cases "env_values (envs m2 ! ?n)") auto
  then have none: "None \<notin> set (env_values (envs m3 ! ?n))" by simp
  have e: "ext k m m3" using ext_trans [OF ext_trans [OF m1(3) m2(3)] m3(3)] .
  have "good C k m3 (run (TEval ?n body)) (value_ok C {})"
    by (rule run_good [OF _ _ task_eval [of _ _ "1 # fs"]])
      (use m3(2) full3 assms(4) ext_length [OF e] mem_ok_close [OF none] env_full_close [OF none] in \<open>auto simp: env_at_def\<close>)
  then show ?thesis using m1(1) m2(1) m3(1) e ext_trans [OF e] by (fastforce simp: good_def bind_ev_def evalWith_def)
qed

section \<open>Sets\<close>

lemma names_bindings_ok: "names_ok names \<Longrightarrow> length vs = length names \<Longrightarrow> omap_ok (zip names vs)"
  by (simp add: omap_ok_def names_ok_def)

lemma zip_values_ok: "\<forall>v \<in> set vs. value_ok C {} m v \<Longrightarrow> \<forall>x \<in> set (zip names vs). value_ok C {} m (snd x)"
  by (auto dest: set_zip_rightD)

lemma zip_attrs_ok:
  "names_ok names \<Longrightarrow> length vs = length names \<Longrightarrow> \<forall>v \<in> set vs. value_ok C {} m v \<Longrightarrow> value_ok C {} m (VAttrs obj (zip names vs))"
  unfolding value_ok.simps by (intro conjI names_bindings_ok zip_values_ok)

lemma sort_bindings_ok: "distinct (map fst xs) \<Longrightarrow> omap_ok (sort_bindings xs)"
  by (simp add: omap_ok_def sort_bindings_def strict_sorted_iff distinct_map)

lemma built_applyOverrides:
  assumes "mem_ok C {} m" and "env_at m a (length names # fs)" and "k \<le> a" and "names_ok names"
    and "\<forall>x \<in> set os. value_ok C {} m (snd x)" and "\<forall>x \<in> set bnds. value_ok C {} m (snd x)"
    and "distinct (map fst os)" and "map fst bnds = names @ ex" and "distinct (names @ ex)" and "\<forall>x \<in> set os. fst x \<notin> set ex"
  shows "built C {} k m (applyOverrides names a os bnds)
    (\<lambda>m' r. (\<forall>x \<in> set r. value_ok C {} m' (snd x)) \<and> distinct (map fst r))"
  using assms
proof (induction os arbitrary: m bnds ex)
  case Nil
  then show ?case using env_full_lt [of "{}" "envs m" a] by (auto intro!: built_ret simp: env_at_def)
next
  case (Cons x os)
  let ?find = "lm_find (fst x) (zip names [0..<length names])"
  have find: "?find = map_of (zip names [0..<length names]) (fst x)"
    using names_bindings_ok [OF Cons.prems(4), of "[0..<length names]"] by (simp add: lm_find_def sorted_get_map_of)
  show ?case
  proof (cases ?find)
    case None
    then have new: "fst x \<notin> set names" using find by simp
    have "built C {} k m (applyOverrides names a os (bnds @ [x]))
      (\<lambda>m' r. (\<forall>x \<in> set r. value_ok C {} m' (snd x)) \<and> distinct (map fst r))"
    proof (rule Cons.IH [OF Cons.prems(1-4), where ex = "ex @ [fst x]"])
      show "distinct (names @ ex @ [fst x])" using Cons.prems(9,10) new by simp
      show "\<forall>y \<in> set os. fst y \<notin> set (ex @ [fst x])" using Cons.prems(7,10) by (auto simp: image_iff)
    qed (use Cons.prems(5-8) in auto)
    then show ?thesis using None by simp
  next
    case (Some j)
    then have "(fst x, j) \<in> set (zip names [0..<length names])" using find by (simp add: map_of_SomeD)
    then have j: "j < length names" "names ! j = fst x" by (auto simp: in_set_zip)
    have full: "env_full {} (envs m) a" "env_frames (envs m) a = length names # fs" using Cons.prems(2) by (auto simp: env_at_def)
    have "built C {} k m (writeSlot a j (snd x)) (\<lambda>m' u. envs m' = write_env (envs m) a j (snd x))"
      by (rule built_writeSlot [OF Cons.prems(1) full(1) _ _ Cons.prems(3)]) (use frames_slots [OF full] j(1) Cons.prems(5) in auto)
    then have "built C {} k m (bind_ev (writeSlot a j (snd x)) (\<lambda>u. applyOverrides names a os (bnds[j := x])))
      (\<lambda>m' r. (\<forall>x \<in> set r. value_ok C {} m' (snd x)) \<and> distinct (map fst r))"
    proof (rule built_bind)
      fix u m'
      assume m': "mem_ok C {} m'" "ext k m m'"
      have names: "map fst (bnds[j := x]) = names @ ex"
        using Cons.prems(8) j by (simp add: map_update list_update_append flip: j(2))
      have vals: "\<forall>y \<in> set (bnds[j := x]). value_ok C {} m' (snd y)"
        using Cons.prems(5,6) value_ok_ext [OF _ m'(2)] set_update_subset_insert [of bnds j x] by fastforce
      show "built C {} k m' (applyOverrides names a os (bnds[j := x])) (\<lambda>m' r. (\<forall>x \<in> set r. value_ok C {} m' (snd x)) \<and> distinct (map fst r))"
        by (rule Cons.IH [OF m'(1) env_at_ext [OF Cons.prems(2) m'(2)] Cons.prems(3,4) _ vals _ names Cons.prems(9)])
          (use Cons.prems(5,7,10) value_ok_ext [OF _ m'(2)] in auto)
    qed
    then show ?thesis using Some by simp
  qed
qed

abbreviation set_post :: "nat list \<Rightarrow> Mem \<Rightarrow> addr \<times> addr \<times> Bindings \<Rightarrow> bool" where
  "set_post fs m' r \<equiv> env_at m' (fst r) fs \<and> value_ok C {} m' (VAttrs (fst (snd r)) (snd (snd r)))"

lemma evalRecAttrs_good:
  assumes "mem_ok C {} m" and "k \<le> length (envs m)" and "env_at m env fs" and "names_ok (map def_name attrs)"
    and "\<forall>xs \<in> set_option from. \<forall>x \<in> set xs. scoped (length attrs # fs) x"
    and "\<forall>x \<in> set attrs. scoped_def (length attrs # fs) fs (from_count from # length attrs # fs) (from \<noteq> None) x"
  shows "good C k m (evalRecAttrs run env attrs from capacity) (set_post (length attrs # fs))"
  unfolding evalRecAttrs_def Let_def
proof (rule good_bind [OF good_allocBindings [OF assms(1,2)]], rule env_built [OF _ _ _ assms(5,6)])
  fix obj m0 vs m1
  assume m1: "mem_ok C {} m1" "ext k m0 m1" "env_at m1 (length (envs m0)) (length attrs # fs)" "length vs = length attrs" "\<forall>v \<in> set vs. value_ok C {} m1 v"
  let ?names = "map def_name attrs" and ?env2 = "length (envs m0)"
  let ?find = "lm_find sym_overrides (zip ?names [0..<length ?names])"
  have k1: "k \<le> length (envs m1)" "k \<le> ?env2" using ext_length [OF m1(2)] m1(2) by (auto simp: ext_def)
  show "good C k m1 (case ?find of None \<Rightarrow> ret (?env2, obj, zip ?names vs)
        | Some d \<Rightarrow> bind_ev (forceAttrs run (vs ! d)) (\<lambda>(i, os). bind_ev (allocBindings (capacity + length os)) (\<lambda>obj.
            bind_ev (applyOverrides ?names ?env2 os (zip ?names (vs[d := VAttrs i os]))) (\<lambda>bnds. ret (?env2, obj, sort_bindings bnds)))))
        (set_post (length attrs # fs))"
  proof (cases ?find)
    case None
    then show ?thesis using m1 k1 zip_attrs_ok [OF assms(4), of vs m1 obj] by (auto intro!: good_ret simp del: value_ok.simps)
  next
    case (Some d)
    then have "map_of (zip ?names [0..<length ?names]) sym_overrides = Some d"
      using names_bindings_ok [OF assms(4), of "[0..<length ?names]"] by (simp add: lm_find_def sorted_get_map_of)
    then have d: "d < length vs" using m1(4) by (auto dest!: map_of_SomeD set_zip_rightD)
    have "good C k m1 (bind_ev (forceAttrs run (vs ! d)) (\<lambda>(i, os). bind_ev (allocBindings (capacity + length os)) (\<lambda>obj.
            bind_ev (applyOverrides ?names ?env2 os (zip ?names (vs[d := VAttrs i os]))) (\<lambda>bnds. ret (?env2, obj, sort_bindings bnds)))))
        (set_post (length attrs # fs))"
    proof (rule good_bind [OF force_good(5) [OF m1(1) k1(1)]], use d m1(5) in simp, clarify)
      fix i os m2
      assume m2: "mem_ok C {} m2" "ext k m1 m2" "value_ok C {} m2 (VAttrs (fst (i, os)) (snd (i, os)))"
      then have os: "value_ok C {} m2 (VAttrs i os)" by simp
      show "good C k m2 (bind_ev (allocBindings (capacity + length os)) (\<lambda>obj.
            bind_ev (applyOverrides ?names ?env2 os (zip ?names (vs[d := VAttrs i os]))) (\<lambda>bnds. ret (?env2, obj, sort_bindings bnds))))
        (set_post (length attrs # fs))"
      proof (rule good_bind [OF good_allocBindings [OF m2(1)]])
        fix obj m3
        assume m3: "mem_ok C {} m3" "ext k m2 m3"
        have env3: "env_at m3 ?env2 (length ?names # fs)" using env_at_ext [OF env_at_ext [OF m1(3) m2(2)] m3(2)] by simp
        have os3: "value_ok C {} m3 (VAttrs i os)" by (rule value_ok_ext [OF os m3(2)])
        have vs3: "\<forall>v \<in> set (vs[d := VAttrs i os]). value_ok C {} m3 v"
          using values_ext [OF values_ext [OF m1(5) m2(2)] m3(2)] os3 set_update_subset_insert [of vs d "VAttrs i os"] by blast
        have "built C {} k m3 (applyOverrides ?names ?env2 os (zip ?names (vs[d := VAttrs i os])))
            (\<lambda>m' r. (\<forall>x \<in> set r. value_ok C {} m' (snd x)) \<and> distinct (map fst r))"
          by (rule built_applyOverrides [OF m3(1) env3 k1(2) assms(4) _ zip_values_ok [OF vs3], where ex = "[]"])
            (use os3 assms(4) m1(4) in \<open>auto simp: omap_ok_def names_ok_def strict_sorted_iff\<close>)
        then show "good C k m3 (bind_ev (applyOverrides ?names ?env2 os (zip ?names (vs[d := VAttrs i os]))) (\<lambda>bnds. ret (?env2, obj, sort_bindings bnds)))
            (set_post (length attrs # fs))"
        proof (rule good_bind [OF built_good])
          fix bnds :: Bindings and m4
          assume m4: "mem_ok C {} m4" "ext k m3 m4" "(\<forall>x \<in> set bnds. value_ok C {} m4 (snd x)) \<and> distinct (map fst bnds)"
          then show "good C k m4 (ret (?env2, obj, sort_bindings bnds)) (set_post (length attrs # fs))"
            using env_at_ext [OF env3 m4(2)] sort_bindings_ok ext_length [OF m4(2)] by (auto intro!: good_ret simp: sort_bindings_def)
        qed
      qed (use ext_length [OF m2(2)] in simp)
    qed
    then show ?thesis using Some by simp
  qed
qed (use assms(3) env_at_ext ext_length in blast)+

lemma evalPlainAttrs_good:
  assumes "mem_ok C {} m" and "k \<le> length (envs m)" and "env_at m env fs" and "names_ok (map def_name attrs)"
    and "\<forall>xs \<in> set_option from. \<forall>x \<in> set xs. scoped fs x"
    and "\<forall>x \<in> set attrs. scoped_def fs fs (from_count from # fs) (from \<noteq> None) x"
  shows "good C k m (evalPlainAttrs env attrs from capacity) (set_post fs)"
  unfolding evalPlainAttrs_def
proof (rule good_bind [OF good_allocBindings [OF assms(1,2)]])
  fix obj m1
  assume m1: "mem_ok C {} m1" "ext k m m1"
  have env1: "env_full {} (envs m1) env" "env_frames (envs m1) env = fs" using env_at_ext [OF assms(3) m1(2)] by (auto simp: env_at_def)
  have k1: "k \<le> length (envs m1)" using ext_length [OF m1(2)] by simp
  have "built C {} k m1 (buildInheritFromEnv from env) (\<lambda>m' r. (r = None \<longleftrightarrow> from = None) \<and>
    (\<forall>inh. r = Some inh \<longrightarrow> env_full {} (envs m') inh \<and> env_frames (envs m') inh = from_count from # env_frames (envs m1) env))"
    by (rule built_buildInheritFromEnv [OF m1(1) env1(1) k1]) (use assms(5) env1(2) in auto)
  then have "built C {} k m1 (bind_ev (buildInheritFromEnv from env) (\<lambda>inheritEnv. map_ev (attrThunk False env env inheritEnv) attrs))
    (\<lambda>m' vs. length vs = length attrs \<and> (\<forall>v \<in> set vs. value_ok C {} m' v))"
  proof (rule built_bind)
    fix r m2
    assume m2: "mem_ok C {} m2" "ext k m1 m2" "(r = None \<longleftrightarrow> from = None) \<and>
      (\<forall>inh. r = Some inh \<longrightarrow> env_full {} (envs m2) inh \<and> env_frames (envs m2) inh = from_count from # env_frames (envs m1) env)"
    show "built C {} k m2 (map_ev (attrThunk False env env r) attrs) (\<lambda>m' vs. length vs = length attrs \<and> (\<forall>v \<in> set vs. value_ok C {} m' v))"
    proof (rule built_map_ev [OF m2(1)])
      show "built C {} k m' (attrThunk False env env r d) (value_ok C {})" if d: "d \<in> set attrs" and m': "mem_ok C {} m'" "ext k m2 m'" for d m'
        by (rule built_attrThunk [OF m'(1), where ff = "from_count from # fs"])
          (use env_full_ext [OF env1(1) ext_trans [OF m2(2) m'(2)]] env_full_ext [OF _ m'(2)] m2(3) env1(2) ext_length [OF m'(2)] assms(6) d in auto)
    qed (use ext_length [OF m2(2)] in simp)
  qed
  then have "good C k m1 (bind_ev (bind_ev (buildInheritFromEnv from env) (\<lambda>inheritEnv. map_ev (attrThunk False env env inheritEnv) attrs))
    (\<lambda>vs. ret (env, obj, zip (map def_name attrs) vs))) (set_post fs)"
  proof (rule good_bind [OF built_good])
    fix vs m'
    assume m': "mem_ok C {} m'" "ext k m1 m'" "length vs = length attrs \<and> (\<forall>v \<in> set vs. value_ok C {} m' v)"
    then show "good C k m' (ret (env, obj, zip (map def_name attrs) vs)) (set_post fs)"
      using env_at_ext [OF env_at_ext [OF assms(3) m1(2)] m'(2)] zip_attrs_ok [OF assms(4), of vs m' obj] ext_length [OF m'(2)]
      by (auto intro!: good_ret simp del: value_ok.simps)
  qed
  then show "good C k m1 (bind_ev (buildInheritFromEnv from env) (\<lambda>inheritEnv. bind_ev (map_ev (attrThunk False env env inheritEnv) attrs)
    (\<lambda>vs. ret (env, obj, zip (map def_name attrs) vs)))) (set_post fs)"
    by (simp add: bind_ev_assoc)
qed

lemma evalDynamicAttrs_good:
  assumes "mem_ok C {} m" and "k \<le> length (envs m)" and "env_at m env fs" and "\<forall>d \<in> set dyn. scoped_dynamic fs d"
    and "omap_ok bnds" and "\<forall>x \<in> set bnds. value_ok C {} m (snd x)"
  shows "good C k m (evalDynamicAttrs run env dyn bnds) (\<lambda>m' r. value_ok C {} m' (VAttrs obj r))"
  using assms
proof (induction dyn arbitrary: m bnds)
  case Nil
  then show ?case by (auto intro!: good_ret)
next
  case (Cons d dyn)
  have d: "scoped fs (nameExpr d)" "scoped fs (valueExpr d)" using Cons.prems(4) by (cases d; simp)+
  have IH: "good C k m' (evalDynamicAttrs run env dyn bnds') (\<lambda>m' r. value_ok C {} m' (VAttrs obj r))"
    if "mem_ok C {} m'" "ext k m m'" "omap_ok bnds'" "\<forall>x \<in> set bnds'. value_ok C {} m' (snd x)" for m' bnds'
    by (rule Cons.IH [OF that(1) _ env_at_ext [OF Cons.prems(3) that(2)]]) (use that Cons.prems(4) ext_length [OF that(2)] in auto)
  have named: "good C k m' (bind_ev (forceStringNoCtx run v) (\<lambda>s. bind_ev (createSymbol s) (\<lambda>name.
              case bindings_get name bnds of Some x \<Rightarrow> throw (EvalError ''dynamic attribute %1% already defined at %2%'')
              | None \<Rightarrow> bind_ev (maybeThunk (valueExpr d) env) (\<lambda>x. evalDynamicAttrs run env dyn (sort_bindings (bnds @ [(name, x)]))))))
         (\<lambda>m' r. value_ok C {} m' (VAttrs obj r))" if m': "mem_ok C {} m'" "ext k m m'" "value_ok C {} m' v" for m' v
  proof (rule good_bind [OF forceStringNoCtx_good [OF m'(1) _ m'(3)]])
    fix s m2
    assume m2: "mem_ok C {} m2" "ext k m' m2"
    show "good C k m2 (bind_ev (createSymbol s) (\<lambda>name.
              case bindings_get name bnds of Some x \<Rightarrow> throw (EvalError ''dynamic attribute %1% already defined at %2%'')
              | None \<Rightarrow> bind_ev (maybeThunk (valueExpr d) env) (\<lambda>x. evalDynamicAttrs run env dyn (sort_bindings (bnds @ [(name, x)])))))
         (\<lambda>m' r. value_ok C {} m' (VAttrs obj r))"
    proof (rule good_bind [OF good_createSymbol [OF m2(1)]])
      fix name m3
      assume m3: "mem_ok C {} m3" "ext k m2 m3"
      have e3: "ext k m m3" by (rule ext_trans [OF ext_trans [OF m'(2) m2(2)] m3(2)])
      have k3: "k \<le> length (envs m3)" using ext_length [OF e3] by simp
      have env3: "env_full {} (envs m3) env" "scoped (env_frames (envs m3) env) (valueExpr d)"
        using env_at_ext [OF Cons.prems(3) e3] d(2) by (auto simp: env_at_def)
      show "good C k m3 (case bindings_get name bnds of Some x \<Rightarrow> throw (EvalError ''dynamic attribute %1% already defined at %2%'')
              | None \<Rightarrow> bind_ev (maybeThunk (valueExpr d) env) (\<lambda>x. evalDynamicAttrs run env dyn (sort_bindings (bnds @ [(name, x)]))))
         (\<lambda>m' r. value_ok C {} m' (VAttrs obj r))"
      proof (cases "bindings_get name bnds")
        case None
        then have new: "name \<notin> fst ` set bnds" using Cons.prems(5) by (simp add: bindings_get_def sorted_get_map_of map_of_eq_None_iff)
        have "good C k m3 (bind_ev (maybeThunk (valueExpr d) env) (\<lambda>x. evalDynamicAttrs run env dyn (sort_bindings (bnds @ [(name, x)]))))
          (\<lambda>m' r. value_ok C {} m' (VAttrs obj r))"
        proof (rule good_bind [OF built_good [OF built_maybeThunk [OF m3(1) env3 k3]]])
          fix x m4
          assume m4: "mem_ok C {} m4" "ext k m3 m4" "value_ok C {} m4 x"
          have e4: "ext k m m4" by (rule ext_trans [OF e3 m4(2)])
          show "good C k m4 (evalDynamicAttrs run env dyn (sort_bindings (bnds @ [(name, x)]))) (\<lambda>m' r. value_ok C {} m' (VAttrs obj r))"
            by (rule IH [OF m4(1) e4 sort_bindings_ok])
              (use new Cons.prems(5,6) value_ok_ext [OF _ e4] m4(3) in \<open>auto simp: omap_ok_def strict_sorted_iff sort_bindings_def\<close>)
        qed
        then show ?thesis using None by simp
      qed (use m3(1) k3 in \<open>auto intro: good_throw\<close>)
    qed (use ext_length [OF m2(2)] in simp)
  qed (use ext_length [OF m'(2)] in simp)
  show ?case unfolding evalDynamicAttrs.simps
  proof (rule run_bind [OF Cons.prems(1,2) task_eval [OF Cons.prems(3) d(1)]], rule run_bind)
    fix v m1 w m2
    assume a: "ext k m m1" "mem_ok C {} m2" "k \<le> length (envs m2)" "ext k m1 m2" "value_ok C {} m2 w"
    have e: "ext k m m2" by (rule ext_trans [OF a(1,4)])
    show "good C k m2 (bind_ev (valueType w) (\<lambda>t. if t = nNull then evalDynamicAttrs run env dyn bnds
       else bind_ev (forceStringNoCtx run w) (\<lambda>s. bind_ev (createSymbol s) (\<lambda>name.
              case bindings_get name bnds of Some x \<Rightarrow> throw (EvalError ''dynamic attribute %1% already defined at %2%'')
              | None \<Rightarrow> bind_ev (maybeThunk (valueExpr d) env) (\<lambda>x. evalDynamicAttrs run env dyn (sort_bindings (bnds @ [(name, x)]))))))) 
         (\<lambda>m' r. value_ok C {} m' (VAttrs obj r))"
      by (rule valueType_bind [OF a(2,5,3)]) (use IH [OF a(2) e Cons.prems(5)] named [OF a(2) e a(5)] value_ok_ext [OF _ e] Cons.prems(6) in auto)
  qed auto
qed

lemma evalSet_good:
  assumes "mem_ok C {} m" and "k \<le> length (envs m)" and "env_at m env fs" and "scoped fs (ExprSet recursive attrs from dyn)"
  shows "good C k m (evalSet run env recursive attrs from dyn) (value_ok C {})"
proof -
  let ?fi = "if recursive then length attrs # fs else fs" and ?cap = "length attrs + length dyn"
  have sc: "names_ok (map def_name attrs)" "\<forall>xs \<in> set_option from. \<forall>x \<in> set xs. scoped ?fi x"
    "\<forall>x \<in> set attrs. scoped_def ?fi fs (from_count from # ?fi) (from \<noteq> None) x" "\<forall>d \<in> set dyn. scoped_dynamic ?fi d"
    using assms(4) unfolding scoped.simps Let_def by blast+
  have "good C k m (if recursive then evalRecAttrs run env attrs from ?cap else evalPlainAttrs env attrs from ?cap) (set_post ?fi)"
    using evalRecAttrs_good [OF assms(1-3) sc(1)] evalPlainAttrs_good [OF assms(1-3) sc(1)] sc(2,3) by (cases recursive) auto
  then show ?thesis unfolding evalSet_def Let_def
  proof (rule good_bind, clarify)
    fix denv obj bnds m1
    assume m1: "mem_ok C {} m1" "ext k m m1" "env_at m1 (fst (denv, obj, bnds)) ?fi"
      "value_ok C {} m1 (VAttrs (fst (snd (denv, obj, bnds))) (snd (snd (denv, obj, bnds))))"
    have "good C k m1 (evalDynamicAttrs run denv dyn bnds) (\<lambda>m' r. value_ok C {} m' (VAttrs obj r))"
      by (rule evalDynamicAttrs_good [OF m1(1) _ _ sc(4)]) (use m1 ext_length [OF m1(2)] in auto)
    then show "good C k m1 (bind_ev (evalDynamicAttrs run denv dyn bnds) (\<lambda>bnds. ret (VAttrs obj bnds))) (value_ok C {})"
      by (rule good_bind) (use ext_length in \<open>blast intro: good_ret\<close>)
  qed
qed

section \<open>Operators\<close>

lemma updateAttrs_good:
  assumes "mem_ok C {} m" and "k \<le> length (envs m)" and "value_ok C {} m (VAttrs i as)" and "value_ok C {} m (VAttrs j bs)"
  shows "good C k m (updateAttrs (i, as) (j, bs)) (value_ok C {})"
proof -
  have merged: "value_ok C {} m' (VAttrs obj (update_merge as bs))" if "ext k m m'" for m' obj
    using update_merge_ok [of as bs] set_update_merge [of as bs] value_ok_ext [OF assms(3) that] value_ok_ext [OF assms(4) that] by auto
  have "good C k m (bind_ev (allocBindings (length as + length bs)) (\<lambda>obj. ret (VAttrs obj (update_merge as bs)))) (value_ok C {})"
    by (rule good_bind [OF good_allocBindings [OF assms(1,2)]]) (use merged ext_length in \<open>blast intro: good_ret\<close>)
  then show ?thesis unfolding updateAttrs_def using assms by (auto intro!: good_ret simp del: value_ok.simps)
qed

lemma evalUpdate_good:
  assumes "mem_ok C {} m" and "k \<le> length (envs m)" and "env_at m env fs" and "scoped fs e1" and "scoped fs e2"
  shows "good C k m (evalUpdate run env e1 e2) (value_ok C {})"
  unfolding evalUpdate_def
proof (rule run_bind [OF assms(1,2) task_eval [OF assms(3,4)]], rule good_bind [OF check_good(5)], assumption+)
  fix v1 m1 as m2
  assume a: "ext k m m1" "mem_ok C {} m2" "ext k m1 m2" "value_ok C {} m2 (VAttrs (fst as) (snd as))"
  have e: "ext k m m2" by (rule ext_trans [OF a(1,3)])
  have k2: "k \<le> length (envs m2)" using ext_length [OF e] by simp
  show "good C k m2 (bind_ev (run (TEval env e2)) (\<lambda>v2. bind_ev (checkAttrs v2) (\<lambda>bs. updateAttrs as bs))) (value_ok C {})"
  proof (rule run_bind [OF a(2) k2 task_eval [OF env_at_ext [OF assms(3) e] assms(5)]], rule good_bind [OF check_good(5)], assumption+)
    fix v2 m3 bs m4
    assume b: "ext k m2 m3" "mem_ok C {} m4" "ext k m3 m4" "value_ok C {} m4 (VAttrs (fst bs) (snd bs))"
    have "value_ok C {} m4 (VAttrs (fst as) (snd as))" by (rule value_ok_ext [OF a(4) ext_trans [OF b(1,3)]])
    then show "good C k m4 (updateAttrs as bs) (value_ok C {})"
      using updateAttrs_good [OF b(2) _ _ b(4)] ext_length [OF b(3)] by (metis prod.collapse)
  qed
qed

lemma evalConcatLists_good:
  assumes "mem_ok C {} m" and "k \<le> length (envs m)" and "env_at m env fs" and "scoped fs e1" and "scoped fs e2"
  shows "good C k m (evalConcatLists run env e1 e2) (value_ok C {})"
  unfolding evalConcatLists_def
proof (rule run_bind [OF assms(1,2) task_eval [OF assms(3,4)]], rule good_bind [OF check_good(4)], assumption+, clarify)
  fix v1 m1 and i :: addr and xs :: "val list" and m2
  assume a: "ext k m m1" "mem_ok C {} m2" "ext k m1 m2" "\<forall>y \<in> set (snd (i, xs)). value_ok C {} m2 y"
  have e: "ext k m m2" by (rule ext_trans [OF a(1,3)])
  have k2: "k \<le> length (envs m2)" using ext_length [OF e] by simp
  show "good C k m2 (bind_ev (run (TEval env e2)) (\<lambda>v2. bind_ev (checkList v2) (\<lambda>(j, ys).
       if xs = [] then ret (VList j ys) else if ys = [] then ret (VList i xs)
       else bind_ev newObject (\<lambda>obj. ret (VList obj (xs @ ys)))))) (value_ok C {})"
  proof (rule run_bind [OF a(2) k2 task_eval [OF env_at_ext [OF assms(3) e] assms(5)]], rule good_bind [OF check_good(4)], assumption+, clarify)
    fix v2 m3 and j :: addr and ys :: "val list" and m4
    assume b: "ext k m2 m3" "mem_ok C {} m4" "ext k m3 m4" "\<forall>y \<in> set (snd (j, ys)). value_ok C {} m4 y"
    have k4: "k \<le> length (envs m4)" using ext_length [OF b(3)] by simp
    have xs: "\<forall>y \<in> set xs. value_ok C {} m4 y" using values_ext [OF _ ext_trans [OF b(1,3)]] a(4) by simp
    have "good C k m4 (bind_ev newObject (\<lambda>obj. ret (VList obj (xs @ ys)))) (value_ok C {})"
    proof (rule good_bind [OF built_good [OF built_newObject [OF b(2) k4]]])
      fix obj m5
      assume c: "mem_ok C {} m5" "ext k m4 m5"
      show "good C k m5 (ret (VList obj (xs @ ys))) (value_ok C {})"
        by (rule good_ret [OF c(1)]) (use ext_length [OF c(2)] values_ext [OF xs c(2)] values_ext [OF _ c(2)] b(4) in auto)
    qed
    then show "good C k m4 (if xs = [] then ret (VList j ys) else if ys = [] then ret (VList i xs)
       else bind_ev newObject (\<lambda>obj. ret (VList obj (xs @ ys)))) (value_ok C {})"
      using b k4 xs by (auto intro: good_ret)
  qed
qed

lemma evalBool_good:
  assumes "mem_ok C {} m" and "k \<le> length (envs m)" and "env_at m env fs" and "scoped fs e"
    and "\<And>b m'. mem_ok C {} m' \<Longrightarrow> ext k m m' \<Longrightarrow> k \<le> length (envs m') \<Longrightarrow> env_at m' env fs \<Longrightarrow> good C k m' (g b) R"
  shows "good C k m (bind_ev (run (TEval env e)) (\<lambda>v. bind_ev (checkBool v) g)) R"
proof (rule run_bind [OF assms(1,2) task_eval [OF assms(3,4)]], rule good_bind [OF check_good(1)], assumption+)
  fix v m1 b m2
  assume a: "ext k m m1" "mem_ok C {} m2" "ext k m1 m2"
  have e: "ext k m m2" by (rule ext_trans [OF a(1,3)])
  show "good C k m2 (g b) R" by (rule assms(5) [OF a(2) e _ env_at_ext [OF assms(3) e]]) (use ext_length [OF e] in simp)
qed

lemma evalShortCircuit_good:
  assumes "mem_ok C {} m" and "k \<le> length (envs m)" and "env_at m env fs" and "scoped fs e1" and "scoped fs e2"
  shows "good C k m (evalShortCircuit run env b c e1 e2) (value_ok C {})"
  unfolding evalShortCircuit_def
  by (rule evalBool_good [OF assms(1-4)]) (use assms(5) in \<open>auto intro!: good_ret evalBool_good [where fs = fs]\<close>)

lemma evalIf_good:
  assumes "mem_ok C {} m" and "k \<le> length (envs m)" and "env_at m env fs" and "scoped fs c" and "scoped fs t" and "scoped fs e"
  shows "good C k m (evalIf run env c t e) (value_ok C {})"
  unfolding evalIf_def
  by (rule evalBool_good [OF assms(1-4)]) (use assms(5,6) in \<open>auto intro!: run_good task_eval [where fs = fs] simp del: task_ok.simps\<close>)

lemma evalAssert_good:
  assumes "mem_ok C {} m" and "k \<le> length (envs m)" and "env_at m env fs" and "scoped fs c" and "scoped fs e"
  shows "good C k m (evalAssert run env c e) (value_ok C {})"
  unfolding evalAssert_def
  by (rule evalBool_good [OF assms(1-4)]) (use assms(5) in \<open>auto intro!: run_good good_throw task_eval [where fs = fs] simp del: task_ok.simps\<close>)

lemma evalNot_good:
  assumes "mem_ok C {} m" and "k \<le> length (envs m)" and "env_at m env fs" and "scoped fs e"
  shows "good C k m (bind_ev (run (TEval env e)) (\<lambda>v. bind_ev (checkBool v) (\<lambda>b. ret (VBool (\<not> b))))) (value_ok C {})"
  by (rule evalBool_good [OF assms(1-4)]) (auto intro: good_ret)

lemma runEq_good:
  assumes "mem_ok C {} m" and "k \<le> length (envs m)" and "value_ok C {} m v" and "value_ok C {} m w"
  shows "good C k m (runEq run v w) (\<lambda>m' b. True)"
  unfolding runEq_def by (rule run_bind [OF assms(1,2)]) (use assms in \<open>auto intro!: good_ret good_throw split: val.splits\<close>)

lemma evalEq_good:
  assumes "mem_ok C {} m" and "k \<le> length (envs m)" and "env_at m env fs" and "scoped fs e1" and "scoped fs e2"
  shows "good C k m (evalBinary run env e1 e2 (\<lambda>v1 v2. bind_ev (runEq run v1 v2) (\<lambda>b. ret (VBool (f b))))) (value_ok C {})"
  unfolding evalBinary_def
proof (rule run_bind [OF assms(1,2) task_eval [OF assms(3,4)]])
  fix v m1
  assume a: "mem_ok C {} m1" "k \<le> length (envs m1)" "ext k m m1" "value_ok C {} m1 v"
  show "good C k m1 (bind_ev (run (TEval env e2)) (\<lambda>v2. bind_ev (runEq run v v2) (\<lambda>b. ret (VBool (f b))))) (value_ok C {})"
  proof (rule run_bind [OF a(1,2) task_eval [OF env_at_ext [OF assms(3) a(3)] assms(5)]])
    fix w m2
    assume b: "mem_ok C {} m2" "k \<le> length (envs m2)" "ext k m1 m2" "value_ok C {} m2 w"
    show "good C k m2 (bind_ev (runEq run v w) (\<lambda>b. ret (VBool (f b)))) (value_ok C {})"
      by (rule good_bind [OF runEq_good [OF b(1,2) value_ok_ext [OF a(4) b(3)] b(4)]]) (auto intro!: good_ret dest: ext_length)
  qed
qed

lemma compareLists_good:
  assumes "mem_ok C {} m" and "k \<le> length (envs m)" and "\<forall>x \<in> set xs. value_ok C {} m x" and "\<forall>x \<in> set ys. value_ok C {} m x"
  shows "good C k m (compareLists run xs ys) (\<lambda>m' b. True)"
  using assms
proof (induction xs ys arbitrary: m rule: list_induct2')
  case (4 x xs y ys)
  have "good C k m (runEq run x y) (\<lambda>m' b. True)" by (rule runEq_good [OF "4.prems"(1,2)]) (use "4.prems" in auto)
  then show ?case unfolding compareLists.simps
  proof (rule good_bind)
    fix b m'
    assume m': "mem_ok C {} m'" "ext k m m'"
    then have "good C k m' (runLess run x y) (\<lambda>m' b. True)" unfolding runLess_def
      using "4.prems"(3,4) value_ok_ext [OF _ m'(2)] ext_length [OF m'(2)]
      by (intro run_bind) (auto intro!: good_ret good_throw split: val.splits)
    then show "good C k m' (if b then compareLists run xs ys else runLess run x y) (\<lambda>m' b. True)"
      using "4.IH" [OF m'(1)] "4.prems"(3,4) value_ok_ext [OF _ m'(2)] ext_length [OF m'(2)] by auto
  qed
qed (auto intro: good_ret)

lemma compareValues_good:
  assumes "mem_ok C {} m" and "k \<le> length (envs m)" and "value_ok C {} m v1" and "value_ok C {} m v2"
  shows "good C k m (compareValues C run v1 v2) (\<lambda>m' b. True)"
  unfolding compareValues_def
proof (rule valueType_bind [OF assms(1,3,2)], rule valueType_bind [OF assms(1,4,2)], rule shortcut_bind [OF assms(1,3,2)],
    rule shortcut_bind [OF assms(1,4,2)])
  fix t1 t2 u1 u2
  assume u: "value_ok C {} m u1" "value_ok C {} m u2"
  have r: "good C k m (ret b) (\<lambda>m' b. True)" "good C k m (throw (EvalError s) :: bool ev) (\<lambda>m' b. True)" for b :: bool and s
    using assms(1,2) by (auto intro!: good_ret good_throw)
  have same: "good C k m (compareSameType C run u1 u2) (\<lambda>m' b. True)"
    using r compareLists_good [OF assms(1,2)] u by (cases u1; cases u2) (simp_all add: compareSameType_def)
  have "good C k m (if t1 \<noteq> t2 then throw (EvalError s) else compareSameType C run u1 u2) (\<lambda>m' b. True)" for s
    using r same by simp
  then show "good C k m (case (u1, u2) of
         (VFloat f, VInt i) \<Rightarrow> ret (float_less C f (float_of_int C i))
       | (VInt i, VFloat f) \<Rightarrow> ret (float_less C (float_of_int C i) f)
       | _ \<Rightarrow> if t1 \<noteq> t2 then throw (EvalError ''cannot compare %s with %s'') else compareSameType C run u1 u2) (\<lambda>m' b. True)"
    using r by (cases u1; cases u2) simp_all
qed

section \<open>Strings\<close>

lemma canonPath_safe: "canonPath lookup p False = Inl e \<Longrightarrow> safe_error e"
  using canonPath_refines [of p lookup] by (auto simp: canonPath_def split: if_splits)

lemma coerceTo_good:
  assumes "mem_ok C {} m" and "k \<le> length (envs m)" and "value_ok C {} m v"
  shows "good C k m (coerceTo run v context mode copy canon) (\<lambda>m' b. True)"
  unfolding coerceTo_def by (rule run_bind [OF assms(1,2)]) (use assms in \<open>auto intro!: good_ret good_throw split: val.splits\<close>)

lemma concatStep_good:
  assumes "mem_ok C {} m" and "k \<le> length (envs m)" and "value_ok C {} m v"
  shows "good C k m (concatStep C run isInterpolation st v) (\<lambda>m' b. True)"
proof -
  have num: "good C k m (concatNumber C st' w) (\<lambda>m' b. True)" for st' w
    unfolding concatNumber_def using assms(1,2) by (auto intro!: good_ret good_throw split: val.splits option.splits)
  have then1: "good C k m (bind_ev (concatNumber C st' w) (\<lambda>st. ret (st\<lparr>cs_first := False\<rparr>))) (\<lambda>m' b. True)" for st' w
    by (rule good_bind [OF num]) (auto intro!: good_ret dest: ext_length)
  have then2: "good C k m (bind_ev (coerceTo run w c mode copy canon) (\<lambda>(s, c). ret (f s c))) (\<lambda>m' b. True)"
    if "value_ok C {} m w" for w c mode copy canon and f :: "string \<Rightarrow> string set \<Rightarrow> ConcatState"
    by (rule good_bind [OF coerceTo_good [OF assms(1,2) that]]) (auto intro!: good_ret dest: ext_length split: prod.splits)
  show ?thesis unfolding concatStep_def Let_def
    by (rule valueType_bind [OF assms(1,3,2)], rule shortcut_bind [OF assms(1,3,2)]) (use then1 then2 in auto)
qed

lemma concatLoop_good:
  assumes "mem_ok C {} m" and "k \<le> length (envs m)" and "env_at m env fs" and "\<forall>e \<in> set es. scoped fs e"
  shows "good C k m (concatLoop C run isInterpolation env es st) (\<lambda>m' b. True)"
  using assms
proof (induction es arbitrary: m st)
  case Nil
  then show ?case by (auto intro: good_ret)
next
  case (Cons e es)
  show ?case unfolding concatLoop.simps
  proof (rule run_bind [OF Cons.prems(1,2) task_eval [OF Cons.prems(3)]], use Cons.prems(4) in simp, rule good_bind [OF concatStep_good], assumption+)
    fix v m1 st' m2
    assume a: "ext k m m1" "mem_ok C {} m2" "ext k m1 m2"
    have e: "ext k m m2" by (rule ext_trans [OF a(1,3)])
    show "good C k m2 (concatLoop C run isInterpolation env es st') (\<lambda>m' b. True)"
      by (rule Cons.IH [OF a(2) _ env_at_ext [OF Cons.prems(3) e]]) (use ext_length [OF e] Cons.prems(4) in auto)
  qed
qed

lemma concatResult_good:
  assumes "mem_ok C {} m" and "k \<le> length (envs m)"
  shows "good C k m (concatResult st) (value_ok C {})"
proof -
  have "good C k m (bind_ev (lift_ev (canonPath no_links s False)) (\<lambda>p. bind_ev (lift_ev (canonPathOf p)) (\<lambda>p. ret (VPath (cpath p))))) (value_ok C {})" for s
  proof (rule good_bind [where Q = "\<lambda>m' x. True"])
    show "good C k m (lift_ev (canonPath no_links s False)) (\<lambda>m' x. True)" by (rule good_lift [OF assms]) (auto dest: canonPath_safe)
    fix p m1
    assume m1: "mem_ok C {} m1" "ext k m m1"
    obtain q where "canonPathOf p = Inr q" using canonPathOf_total by blast
    then show "good C k m1 (bind_ev (lift_ev (canonPathOf p)) (\<lambda>p. ret (VPath (cpath p)))) (value_ok C {})"
      using m1 by (auto simp: bind_ev_def lift_ev_def ret_def good_def ext_refl dest: ext_length)
  qed
  then show ?thesis unfolding concatResult_def using assms by (auto intro!: good_ret good_throw)
qed

lemma evalConcatStrings_good:
  assumes "mem_ok C {} m" and "k \<le> length (envs m)" and "env_at m env fs" and "\<forall>e \<in> set es. scoped fs e"
  shows "good C k m (evalConcatStrings C run env isInterpolation es) (value_ok C {})"
  unfolding evalConcatStrings_def
  by (rule good_bind [OF concatLoop_good [OF assms]]) (auto intro: concatResult_good dest: ext_length)

section \<open>Selection\<close>

lemma orDefault_good:
  assumes "mem_ok C {} m" and "k \<le> length (envs m)" and "env_at m env fs" and "\<forall>x \<in> set_option def. scoped fs x" and "safe_error err"
  shows "good C k m (orDefault run env def err) (value_ok C {})"
  using assms by (cases def) (auto simp: orDefault_def intro!: good_throw run_good task_eval [where fs = fs] simp del: task_ok.simps)

lemma selectLoop_good:
  assumes "mem_ok C {} m" and "k \<le> length (envs m)" and "env_at m env fs" and "\<forall>x \<in> set_option def. scoped fs x"
    and "value_ok C {} m cur" and "\<forall>n \<in> set ns. scoped_name fs n"
  shows "good C k m (selectLoop run env def cur ns) (value_ok C {})"
  using assms
proof (induction ns arbitrary: m cur)
  case Nil
  then show ?case by (auto intro: run_good)
next
  case (Cons n ns)
  have "good C k m (getName run env n) (\<lambda>m' x. True)" by (rule getName_good [OF Cons.prems(1-3)]) (use Cons.prems(6) in simp)
  then show ?case unfolding selectLoop.simps
  proof (rule good_bind)
    fix name m1
    assume a: "mem_ok C {} m1" "ext k m m1"
    show "good C k m1 (bind_ev (run (TForce cur)) (\<lambda>v. bind_ev (shortcut v) (\<lambda>w. case w of
         VAttrs i as \<Rightarrow> (case bindings_get name as of Some x \<Rightarrow> selectLoop run env def x ns
            | None \<Rightarrow> orDefault run env def (EvalError ''attribute '%s' missing''))
       | _ \<Rightarrow> orDefault run env def (TypeError ''expected a set but found %s: %s'')))) (value_ok C {})"
    proof (rule run_bind [OF a(1)], use ext_length [OF a(2)] in simp, use value_ok_ext [OF Cons.prems(5) a(2)] in simp, rule shortcut_bind, assumption+)
      fix v m2 w
      assume b: "mem_ok C {} m2" "k \<le> length (envs m2)" "ext k m1 m2" "value_ok C {} m2 w"
      have e: "ext k m m2" by (rule ext_trans [OF a(2) b(3)])
      have env2: "env_at m2 env fs" by (rule env_at_ext [OF Cons.prems(3) e])
      have def: "good C k m2 (orDefault run env def err) (value_ok C {})" if "safe_error err" for err
        by (rule orDefault_good [OF b(1,2) env2 Cons.prems(4) that])
      have sel: "good C k m2 (selectLoop run env def x ns) (value_ok C {})" if "value_ok C {} m2 x" for x
        by (rule Cons.IH [OF b(1,2) env2 Cons.prems(4) that]) (use Cons.prems(6) in simp)
      show "good C k m2 (case w of
         VAttrs i as \<Rightarrow> (case bindings_get name as of Some x \<Rightarrow> selectLoop run env def x ns
            | None \<Rightarrow> orDefault run env def (EvalError ''attribute '%s' missing''))
       | _ \<Rightarrow> orDefault run env def (TypeError ''expected a set but found %s: %s'')) (value_ok C {})"
        using def sel attrs_ok b(4) by (auto split: val.splits option.splits simp del: value_ok.simps)
    qed
  qed
qed

lemma hasAttrLoop_good:
  assumes "mem_ok C {} m" and "k \<le> length (envs m)" and "env_at m env fs" and "value_ok C {} m cur" and "\<forall>n \<in> set ns. scoped_name fs n"
  shows "good C k m (hasAttrLoop run env cur ns) (value_ok C {})"
  using assms
proof (induction ns arbitrary: m cur)
  case Nil
  then show ?case by (auto intro: good_ret)
next
  case (Cons n ns)
  show ?case unfolding hasAttrLoop.simps
  proof (rule run_bind [OF Cons.prems(1,2)], use Cons.prems(4) in simp)
    fix v m1
    assume a: "mem_ok C {} m1" "k \<le> length (envs m1)" "ext k m m1" "value_ok C {} m1 v"
    have "good C k m1 (getName run env n) (\<lambda>m' x. True)" by (rule getName_good [OF a(1,2) env_at_ext [OF Cons.prems(3) a(3)]]) (use Cons.prems(5) in simp)
    then show "good C k m1 (bind_ev (getName run env n) (\<lambda>name. bind_ev (shortcut v) (\<lambda>w. case w of
         VAttrs i as \<Rightarrow> (case bindings_get name as of Some x \<Rightarrow> hasAttrLoop run env x ns | None \<Rightarrow> ret (VBool False))
       | _ \<Rightarrow> ret (VBool False)))) (value_ok C {})"
    proof (rule good_bind)
      fix name m2
      assume b: "mem_ok C {} m2" "ext k m1 m2"
      have k2: "k \<le> length (envs m2)" using ext_length [OF b(2)] by simp
      have env2: "env_at m2 env fs" by (rule env_at_ext [OF Cons.prems(3) ext_trans [OF a(3) b(2)]])
      have sel: "good C k m2 (hasAttrLoop run env x ns) (value_ok C {})" if "value_ok C {} m2 x" for x
        by (rule Cons.IH [OF b(1) k2 env2 that]) (use Cons.prems(5) in simp)
      have no: "good C k m2 (ret (VBool False)) (value_ok C {})" by (rule good_ret [OF b(1) k2]) simp
      show "good C k m2 (bind_ev (shortcut v) (\<lambda>w. case w of
         VAttrs i as \<Rightarrow> (case bindings_get name as of Some x \<Rightarrow> hasAttrLoop run env x ns | None \<Rightarrow> ret (VBool False))
       | _ \<Rightarrow> ret (VBool False))) (value_ok C {})"
        by (rule shortcut_bind [OF b(1) value_ok_ext [OF a(4) b(2)] k2])
          (use sel attrs_ok no in \<open>auto split: val.splits option.splits simp del: value_ok.simps\<close>)
    qed
  qed
qed

section \<open>Functions\<close>

lemma matchupFormals_ok:
  assumes "mem_ok C {n} m" and "env_full {n} (envs m) n" and "env_frames (envs m) n = fr"
    and "displ + length fs \<le> length (env_values (envs m ! n))" and "k \<le> n"
    and "omap_ok as" and "\<forall>x \<in> set as. value_ok C {n} m (snd x)" and "\<forall>f \<in> set fs. scoped_formal fr f"
  shows "\<exists>used missing m'. matchupFormals as n displ fs m = Some (Inr (used, missing), m') \<and> mem_ok C {n} m' \<and> ext k m m' \<and>
    only_fills n m m' \<and> (missing = [] \<longrightarrow> filled m' n displ (length fs))"
  using assms
proof (induction fs arbitrary: m displ)
  case Nil
  then show ?case using env_full_lt [OF Nil.prems(2)] by (auto simp: ret_def filled_def intro: ext_refl)
next
  case (Cons f fs)
  have n: "n < length (envs m)" by (rule env_full_lt [OF Cons.prems(2)])
  have IH: "\<exists>used missing m''. matchupFormals as n displ' fs m' = Some (Inr (used, missing), m'') \<and> mem_ok C {n} m'' \<and> ext k m' m'' \<and>
      only_fills n m' m'' \<and> (missing = [] \<longrightarrow> filled m'' n displ' (length fs))"
    if m': "mem_ok C {n} m'" "ext k m m'" and d: "displ' + length fs \<le> length (env_values (envs m ! n))" for m' displ'
  proof (rule Cons.IH [OF m'(1)])
    show "env_full {n} (envs m') n" "env_frames (envs m') n = fr" using env_full_ext [OF Cons.prems(2) m'(2)] Cons.prems(3) by auto
    show "displ' + length fs \<le> length (env_values (envs m' ! n))" using d slots_ext [OF m'(2) n] by simp
  qed (use Cons.prems value_ok_ext [OF _ m'(2)] in auto)
  have fill: "\<exists>used missing m''. bind_ev (writeSlot n displ v) (\<lambda>u. matchupFormals as n (displ + 1) fs) m' = Some (Inr (used, missing), m'') \<and>
      mem_ok C {n} m'' \<and> ext k m' m'' \<and> only_fills n m' m'' \<and> (missing = [] \<longrightarrow> filled m'' n displ (Suc (length fs)))"
    if m': "mem_ok C {n} m'" "ext k m m'" "value_ok C {n} m' v" for m' v
  proof -
    have full': "env_full {n} (envs m') n" using env_full_ext [OF Cons.prems(2) m'(2)] by simp
    have len': "displ < length (env_values (envs m' ! n))" using slots_ext [OF m'(2) n] Cons.prems(4) by simp
    from built_writeSlot [OF m'(1) full' len' m'(3) Cons.prems(5)] obtain m1 where
      m1: "writeSlot n displ v m' = Some (Inr (), m1)" "mem_ok C {n} m1" "ext k m' m1" "envs m1 = write_env (envs m') n displ v" by (auto simp: built_def)
    have n1: "n < length (envs m1)" "displ < length (env_values (envs m1 ! n))" "env_values (envs m1 ! n) ! displ \<noteq> None"
      using m1(4) write_env_facts(1,2) [OF env_full_lt [OF full']] env_full_lt [OF full'] len' by auto
    from IH [OF m1(2) ext_trans [OF m'(2) m1(3)], of "displ + 1"] Cons.prems(4) obtain used missing m2 where
      m2: "matchupFormals as n (displ + 1) fs m1 = Some (Inr (used, missing), m2)" "mem_ok C {n} m2" "ext k m1 m2" "only_fills n m1 m2"
        "missing = [] \<longrightarrow> filled m2 n (displ + 1) (length fs)" by auto
    have "missing = [] \<longrightarrow> filled m2 n displ (Suc (length fs))" using filled_Suc [OF filled_ext [OF m2(3) n1]] m2(5) by simp
    then show ?thesis using m1(1) m2 ext_trans [OF m1(3) m2(3)] only_fills_trans [OF writeSlot_only_fills [OF m1(1)] m2(4)] by (simp add: bind_ev_def)
  qed
  have refl: "ext k m m" using n Cons.prems(5) by (simp add: ext_refl)
  show ?case
  proof (cases "bindings_get (formal_name f) as")
    case (Some v)
    then have "value_ok C {n} m v" using Cons.prems(6,7) by (auto simp: bindings_get_map_of dest!: map_of_SomeD)
    from fill [OF Cons.prems(1) refl this] show ?thesis using Some
      by (auto simp: bind_ev_def ret_def split: option.splits sum.splits prod.splits)
  next
    case None
    show ?thesis
    proof (cases "formal_def f")
      case no: None
      from IH [OF Cons.prems(1) refl, of displ] Cons.prems(4) show ?thesis using None no by (auto simp: bind_ev_def ret_def)
    next
      case (Some d)
      then have "scoped (env_frames (envs m) n) d" using Cons.prems(3,8) by (cases f) auto
      from built_maybeThunk [OF Cons.prems(1,2) this, of k] n Cons.prems(5) obtain v m1 where
        m1: "maybeThunk d n m = Some (Inr v, m1)" "mem_ok C {n} m1" "ext k m m1" "value_ok C {n} m1 v" by (auto simp: built_def)
      from fill [OF m1(2,3,4)] obtain used missing m2 where
        m2: "bind_ev (writeSlot n displ v) (\<lambda>u. matchupFormals as n (displ + 1) fs) m1 = Some (Inr (used, missing), m2)" "mem_ok C {n} m2"
          "ext k m1 m2" "only_fills n m1 m2" "missing = [] \<longrightarrow> filled m2 n displ (Suc (length fs))" by blast
      then show ?thesis using None Some m1(1) ext_trans [OF m1(3) m2(3)] only_fills_trans [OF maybeThunk_only_fills [OF m1(1)] m2(4)]
        by (simp add: bind_ev_def [of "maybeThunk d n"])
    qed
  qed
qed

lemma good_step: "f m = Some (Inr x, m1) \<Longrightarrow> ext k m m1 \<Longrightarrow> good C k m1 (g x) R \<Longrightarrow> good C k m (bind_ev f g) R"
  using ext_trans unfolding good_def bind_ev_def by fastforce

lemma good_bind_less:
  assumes "good C j m f Q" and "k \<le> j" and "\<And>x m'. mem_ok C {} m' \<Longrightarrow> ext j m m' \<Longrightarrow> Q m' x \<Longrightarrow> good C k m' (g x) R"
  shows "good C k m (bind_ev f g) R"
proof (rule good_bind [where Q = "\<lambda>m' x. ext j m m' \<and> Q m' x"])
  show "good C k m f (\<lambda>m' x. ext j m m' \<and> Q m' x)"
    using assms(1,2) ext_less unfolding good_def by (fastforce split: sum.splits)
qed (use assms(3) in auto)

lemma value_ok_weaken: "value_ok C {} m v \<Longrightarrow> value_ok C F m v"
  by (erule value_ok_mono [rotated -1]) (auto intro: thunk_ok_mono)

lemma matchName_ok:
  assumes "mem_ok C {n} m" and "env_full {n} (envs m) n" and "name \<noteq> 0 \<longrightarrow> 0 < length (env_values (envs m ! n))" and "k \<le> n" and "value_ok C {n} m v"
  shows "\<exists>m'. (if name \<noteq> (0 :: Symbol) then bind_ev (writeSlot n 0 v) (\<lambda>u. ret 1) else ret 0) m
      = Some (Inr (if name \<noteq> 0 then 1 else 0 :: nat), m') \<and> mem_ok C {n} m' \<and> ext k m m' \<and> only_fills n m m' \<and> filled m' n 0 (if name \<noteq> 0 then 1 else 0)"
proof (cases "name = 0")
  case True
  then show ?thesis using assms(1,4) env_full_lt [OF assms(2)] by (simp add: ret_def ext_refl filled_def)
next
  case False
  then have len: "0 < length (env_values (envs m ! n))" using assms(3) by simp
  from built_writeSlot [OF assms(1,2) len assms(5,4)] obtain m1 where
    m1: "writeSlot n 0 v m = Some (Inr (), m1)" "mem_ok C {n} m1" "ext k m m1" "envs m1 = write_env (envs m) n 0 v" by (auto simp: built_def)
  have "env_values (envs m1 ! n) ! 0 \<noteq> None" using m1(4) write_env_facts(2) [OF env_full_lt [OF assms(2)]] len by simp
  then show ?thesis using False m1 writeSlot_only_fills [OF m1(1)] by (simp add: bind_ev_def ret_def filled_def)
qed

lemma filled_append: "filled m a 0 i \<Longrightarrow> filled m a i j \<Longrightarrow> filled m a 0 (i + j)"
  unfolding filled_def by (metis add_0 le0 not_le)

lemma filled_ext_all: "filled m a i j \<Longrightarrow> ext k m m' \<Longrightarrow> a < length (envs m) \<Longrightarrow> i + j \<le> length (env_values (envs m ! a)) \<Longrightarrow> filled m' a i j"
  unfolding filled_def using filled_ext by (metis less_le_trans)

lemma matchSimple_good:
  assumes "mem_ok C {} m" and "k \<le> length (envs m)" and "env_at m up fs" and "value_ok C {} m arg"
  shows "good C k m (bind_ev (allocEnv 1 (Some up)) (\<lambda>env2. bind_ev (writeSlot env2 0 arg) (\<lambda>u. ret env2))) (\<lambda>m' a. env_at m' a (1 # fs))"
proof -
  let ?n = "length (envs m)"
  have up: "env_full {} (envs m) up" "env_frames (envs m) up = fs" using assms(3) by (auto simp: env_at_def)
  from allocEnv_ok [OF assms(1) up(1) assms(2), of 1] obtain m1 where
    m1: "allocEnv 1 (Some up) m = Some (Inr ?n, m1)" "mem_ok C {?n} m1" "ext k m m1" "env_full {?n} (envs m1) ?n"
      "env_frames (envs m1) ?n = 1 # fs" "envs m1 = envs m @ [Env (Some up) (replicate 1 None)]" using up(2) by auto
  have len: "0 < length (env_values (envs m1 ! ?n))" using m1(6) by simp
  from built_writeSlot [OF m1(2,4) len value_ok_weaken [OF value_ok_ext [OF assms(4) m1(3)]] assms(2)] obtain m2 where
    m2: "writeSlot ?n 0 arg m1 = Some (Inr (), m2)" "mem_ok C {?n} m2" "ext k m1 m2" "envs m2 = write_env (envs m1) ?n 0 arg" by (auto simp: built_def)
  have "env_values (envs m2 ! ?n) = [Some arg]" using m2(4) write_env_facts(2) [OF env_full_lt [OF m1(4)]] m1(6) by simp
  then have none: "None \<notin> set (env_values (envs m2 ! ?n))" by simp
  have full2: "env_full {?n} (envs m2) ?n" "env_frames (envs m2) ?n = 1 # fs" using env_full_ext [OF m1(4) m2(3)] m1(5) by auto
  show ?thesis
    by (rule good_step, rule m1(1), rule m1(3), rule good_step, rule m2(1), rule m2(3), rule good_ret)
      (use m2(2) full2 mem_ok_close [OF none] env_full_close [OF none] ext_length [OF m2(3)] in \<open>auto simp: env_at_def\<close>)
qed

lemma matchAttrs_good:
  assumes "mem_ok C {} m" and "k \<le> length (envs m)" and "env_at m up fs" and "value_ok C {} m arg"
    and "scoped_pattern (pattern_slots p # fs) p" and "p = AttrsPattern name formals ellipsis"
  shows "good C k m (matchPattern run p up arg) (\<lambda>m' a. env_at m' a (pattern_slots p # fs))"
proof -
  let ?n = "length (envs m)" and ?i = "if name \<noteq> 0 then 1 else 0 :: nat"
  have slots: "pattern_slots p = length formals + ?i" using assms(6) by simp
  have up: "env_full {} (envs m) up" "env_frames (envs m) up = fs" using assms(3) by (auto simp: env_at_def)
  define m1 where "m1 = m\<lparr>envs := envs m @ [Env (Some up) (replicate (pattern_slots p) None)]\<rparr>"
  have ok1: "mem_ok C {} m1" unfolding m1_def by (rule mem_ok_alloc [OF assms(1) up(1)])
  have alloc: "allocEnv (length formals + ?i) (Some up) m = Some (Inr ?n, m1)" by (simp add: allocEnv_def m1_def slots)
  have e1: "ext k m m1" using assms(2) by (simp add: m1_def ext_def nth_append)
  have arg1: "value_ok C {} m1 arg" by (rule value_ok_ext [OF assms(4) e1])
  show ?thesis unfolding matchPattern_def assms(6) pattern.case
  proof (rule good_step, rule alloc, rule e1, rule good_bind_less [OF force_good(5) [OF ok1 order_refl arg1]], use ext_length [OF e1] in simp, clarify)
    fix i as m2
    assume m2: "mem_ok C {} m2" "ext (length (envs m1)) m1 m2" "value_ok C {} m2 (VAttrs (fst (i, as)) (snd (i, as)))"
    have env2: "envs m2 ! ?n = Env (Some up) (replicate (pattern_slots p) None)" using m2(2) by (auto simp: ext_def m1_def)
    have k2: "k \<le> length (envs m2)" "?n < length (envs m2)" using ext_length [OF m2(2)] assms(2) by (auto simp: m1_def)
    have open2: "mem_ok C {?n} m2" by (rule mem_ok_open [OF m2(1)]) (simp add: env2)
    have up2: "env_full {} (envs m2) up" "env_frames (envs m2) up = fs"
      using env_at_ext [OF env_at_ext [OF assms(3) e1] m2(2)] by (auto simp: env_at_def)
    have full2: "env_full {?n} (envs m2) ?n" "env_frames (envs m2) ?n = pattern_slots p # fs"
      using env2 k2(2) up2 env_full_lt [OF up(1)] env_full_mono [OF up2(1), of "envs m2" "{?n}"]
      by (subst env_full.simps, auto, subst env_frames.simps, auto)
    have len2: "length (env_values (envs m2 ! ?n)) = pattern_slots p" using env2 by simp
    have as2: "value_ok C {?n} m2 (VAttrs i as)" using value_ok_weaken m2(3) by simp
    obtain m3 where m3: "(if name \<noteq> 0 then bind_ev (writeSlot ?n 0 (VAttrs i as)) (\<lambda>u. ret 1) else ret 0) m2 = Some (Inr ?i, m3)"
      "mem_ok C {?n} m3" "ext k m2 m3" "only_fills ?n m2 m3" "filled m3 ?n 0 ?i"
      using matchName_ok [OF open2 full2(1) _ assms(2) as2, of name] len2 slots by auto
    have full3: "env_full {?n} (envs m3) ?n" "env_frames (envs m3) ?n = pattern_slots p # fs" using env_full_ext [OF full2(1) m3(3)] full2(2) by auto
    have len3: "length (env_values (envs m3 ! ?n)) = pattern_slots p" using slots_ext [OF m3(3) k2(2)] len2 by simp
    obtain used missing m4 where m4: "matchupFormals as ?n ?i formals m3 = Some (Inr (used, missing), m4)" "mem_ok C {?n} m4" "ext k m3 m4"
      "only_fills ?n m3 m4" "missing = [] \<longrightarrow> filled m4 ?n ?i (length formals)"
      using matchupFormals_ok [OF m3(2) full3 _ assms(2), of ?i formals as] len3 slots as2 value_ok_ext [OF _ m3(3), of C "{?n}"] assms(5,6) by auto
    have e4: "ext k m2 m4" by (rule ext_trans [OF m3(3) m4(3)])
    have ok4: "mem_ok C {} m4" by (rule only_fills_ok [OF only_fills_trans [OF m3(4) m4(4)] m2(1) m4(2)])
    have k4: "k \<le> length (envs m4)" using ext_length [OF e4] by simp
    have complete: "env_at m4 ?n (pattern_slots p # fs)" if "missing = []"
    proof -
      have "filled m4 ?n 0 (?i + length formals)"
        by (rule filled_append [OF filled_ext_all [OF m3(5) m4(3)]]) (use that m4(5) env_full_lt [OF full3(1)] len3 slots in auto)
      then have "None \<notin> set (env_values (envs m4 ! ?n))"
        using filled_all [of m4 ?n] slots_ext [OF m4(3) env_full_lt [OF full3(1)]] len3 slots by (simp add: add.commute)
      then show ?thesis using env_full_close env_full_ext [OF full3(1) m4(3)] full3(2) by (auto simp: env_at_def)
    qed
    show "good C k m2 (bind_ev (if name \<noteq> 0 then bind_ev (writeSlot ?n 0 (VAttrs i as)) (\<lambda>u. ret 1) else ret 0) (\<lambda>displ.
          bind_ev (matchupFormals as ?n displ formals) (\<lambda>(used, missing).
            if unexpectedArgs ellipsis formals as used \<noteq> [] \<or> missing \<noteq> []
            then throw (TypeError ''function called without required or with unexpected arguments'')
            else ret ?n))) (\<lambda>m' a. env_at m' a (pattern_slots (AttrsPattern name formals ellipsis) # fs))"
      by (rule good_step, rule m3(1), rule m3(3), rule good_step, rule m4(1), rule m4(3))
        (use complete ok4 k4 assms(6) in \<open>auto intro!: good_ret good_throw\<close>)
  qed
qed

lemma matchPattern_good:
  assumes "mem_ok C {} m" and "k \<le> length (envs m)" and "env_at m up fs" and "value_ok C {} m arg" and "scoped_pattern (pattern_slots p # fs) p"
  shows "good C k m (matchPattern run p up arg) (\<lambda>m' a. env_at m' a (pattern_slots p # fs))"
  using matchSimple_good [OF assms(1-4)] matchAttrs_good [OF assms] by (cases p) (auto simp: matchPattern_def [of run "SimplePattern _"])

lemma makeAppChain_good:
  assumes "mem_ok C {} m" and "k \<le> length (envs m)" and "value_ok C {} m v" and "\<forall>x \<in> set args. value_ok C {} m x"
    and "\<And>a r. v = VApp a \<Longrightarrow> apps m ! a \<noteq> AppResolved r"
  shows "good C k m (makeAppChain v args) (value_ok C {})"
proof (cases "\<exists>a. v = VApp a")
  case True
  then obtain a where v: "v = VApp a" by blast
  then obtain left prev where p: "apps m ! a = Pending left prev" using assms(5) by (cases "apps m ! a") auto
  have "app_ok C {} m (Pending left prev)" using apps_ok [OF assms(1), of a] assms(3) v p by simp
  then have "good C k m (newApp left (prev @ args)) (value_ok C {})" using assms by (intro built_good [OF built_newApp]) auto
  then show ?thesis using v p assms(3) by (simp add: makeAppChain_def good_def)
next
  case False
  have "good C k m (newApp v args) (value_ok C {})" using assms by (intro built_good [OF built_newApp])
  then show ?thesis using False by (cases v) (auto simp: makeAppChain_def good_def)
qed

end

locale evaluator = task_runner +
  assumes ctx: "ctx_ok C"
begin

lemma callPrimOp_good:
  assumes "mem_ok C {} m" and "k \<le> length (envs m)" and "primops C name = Some p" and "length args = arity p" and "\<forall>x \<in> set args. value_ok C {} m x"
  shows "good C k m (callPrimOp C run name args) (value_ok C {})"
proof -
  have "good C (length (envs m)) m (prim_fun p run args) (value_ok C {})"
    using ctx run_ok assms unfolding ctx_ok_def primop_ok_def by blast
  then show ?thesis using good_mono [OF _ assms(2)] assms(3) by (auto simp: callPrimOp_def)
qed

lemma loop_good:
  assumes "mem_ok C {} m" and "k \<le> length (envs m)" and "\<forall>x \<in> set args. value_ok C {} m x" and "set args' \<subseteq> set args"
    and "good C k m f (value_ok C {})"
  shows "good C k m (bind_ev f (\<lambda>v. run (TLoop v args'))) (value_ok C {})"
proof (rule good_bind [OF assms(5)])
  fix v m'
  assume m': "mem_ok C {} m'" "ext k m m'" "value_ok C {} m' v"
  show "good C k m' (run (TLoop v args')) (value_ok C {})"
    by (rule run_good [OF m'(1)]) (use m' assms(3,4) values_ext [OF assms(3) m'(2)] ext_length [OF m'(2)] in auto)
qed

lemma callPrimOpApp_good:
  assumes "mem_ok C {} m" and "k \<le> length (envs m)" and "a < length (apps m)" and "apps m ! a = Pending left prev"
    and "primops C name = Some p" and "\<forall>x \<in> set args. value_ok C {} m x"
  shows "good C k m (callPrimOpApp C run a left prev name args) (value_ok C {})"
proof -
  have prev: "\<forall>x \<in> set prev. value_ok C {} m x" using apps_ok [OF assms(1,3)] assms(4) by simp
  have chain: "good C k m (makeAppChain (VApp a) args) (value_ok C {})"
    by (rule makeAppChain_good [OF assms(1,2)]) (use assms in auto)
  let ?n = "arity p - length prev"
  have "good C k m (callPrimOp C run name (prev @ take ?n args)) (value_ok C {})"
    if "\<not> (length prev > arity p \<or> length args < ?n)"
    by (rule callPrimOp_good [OF assms(1,2,5)]) (use that prev assms(6) in \<open>auto dest: in_set_takeD\<close>)
  then have call: "good C k m (bind_ev (callPrimOp C run name (prev @ take ?n args)) (\<lambda>v. run (TLoop v (drop ?n args)))) (value_ok C {})"
    if "\<not> (length prev > arity p \<or> length args < ?n)" using that by (intro loop_good [OF assms(1,2,6) set_drop_subset]) auto
  show ?thesis using chain call assms(1,2,5) by (auto simp: callPrimOpApp_def primopArity_def intro!: good_throw split: val.splits)
qed

lemma callOther_good:
  assumes "mem_ok C {} m" and "k \<le> length (envs m)" and "value_ok C {} m v" and "\<forall>x \<in> set args. value_ok C {} m x" and "args \<noteq> []"
  shows "good C k m (callOther run v args) (value_ok C {})"
  unfolding callOther_def
proof (rule shortcut_bind [OF assms(1,3,2)])
  fix w
  assume w: "value_ok C {} m w"
  let ?f = "case w of VAttrs i as \<Rightarrow> bindings_get sym_functor as | _ \<Rightarrow> None"
  have call: "good C k m (bind_ev (run (TCall f [w, hd args])) (\<lambda>v. run (TLoop v (tl args)))) (value_ok C {})" if "value_ok C {} m f" for f
    by (rule loop_good [OF assms(1,2,4)], use assms(5) in \<open>auto dest: list.set_sel(2)\<close>) (rule run_good [OF assms(1,2)], use that w assms(4,5) in auto)
  have "value_ok C {} m f" if "?f = Some f" for f using that w attrs_ok by (auto split: val.splits simp del: value_ok.simps)
  then show "good C k m (case ?f of Some f \<Rightarrow> bind_ev (run (TCall f [w, hd args])) (\<lambda>v. run (TLoop v (tl args)))
       | None \<Rightarrow> throw (TypeError ''attempt to call something which is not a function but %1%: %2%'')) (value_ok C {})"
    using call good_throw [OF assms(1,2) safe_errors(5)] by (cases ?f) auto
qed

lemma good_cong: "f m = g m \<Longrightarrow> good C k m f Q = good C k m g Q"
  by (simp add: good_def)

lemma callLambda_good:
  assumes "mem_ok C {} m" and "k \<le> length (envs m)" and "value_ok C {} m (VLambda i env p body)" and "\<forall>x \<in> set args. value_ok C {} m x" and "args \<noteq> []"
  shows "good C k m (bind_ev (matchPattern run p env (hd args)) (\<lambda>env2. bind_ev (run (TEval env2 body)) (\<lambda>v. run (TLoop v (tl args))))) (value_ok C {})"
proof -
  let ?fs = "env_frames (envs m) env"
  have env: "env_at m env ?fs" using assms(3) by (simp add: env_at_def)
  have "good C k m (matchPattern run p env (hd args)) (\<lambda>m' a. env_at m' a (pattern_slots p # ?fs))"
    by (rule matchPattern_good [OF assms(1,2) env]) (use assms(3-5) in auto)
  then show ?thesis
  proof (rule good_bind)
    fix env2 m1
    assume m1: "mem_ok C {} m1" "ext k m m1" "env_at m1 env2 (pattern_slots p # ?fs)"
    have k1: "k \<le> length (envs m1)" using ext_length [OF m1(2)] by simp
    show "good C k m1 (bind_ev (run (TEval env2 body)) (\<lambda>v. run (TLoop v (tl args)))) (value_ok C {})"
      by (rule loop_good [OF m1(1) k1 values_ext [OF assms(4) m1(2)]], use assms(5) in \<open>auto dest: list.set_sel(2)\<close>)
        (rule run_good [OF m1(1) k1 task_eval [OF m1(3)]], use assms(3) in simp)
  qed
qed

lemma callLoop_good:
  assumes "mem_ok C {} m" and "k \<le> length (envs m)" and "value_ok C {} m v" and "\<forall>x \<in> set args. value_ok C {} m x"
  shows "good C k m (callLoop C run v args) (value_ok C {})"
proof (cases "args = []")
  case True
  then have "good C k m (ret v) (value_ok C {})" using assms by (intro good_ret)
  then show ?thesis using True by (simp add: callLoop_def good_def)
next
  case False
  have other: "good C k m (callOther run v args) (value_ok C {})" by (rule callOther_good [OF assms False])
  show ?thesis
  proof (cases v)
    case (VLambda i env p body)
    then show ?thesis using callLambda_good [OF assms(1,2) _ assms(4) False, of i env p body] assms(3) False
      by (subst good_cong) (auto simp: callLoop_def simp del: value_ok.simps)
  next
    case (VPrimOp name)
    then obtain p where p: "primops C name = Some p" using assms(3) by auto
    have chain: "good C k m (makeAppChain v args) (value_ok C {})" by (rule makeAppChain_good [OF assms]) (use VPrimOp in simp)
    have "good C k m (bind_ev (callPrimOp C run name (take (arity p) args)) (\<lambda>v. run (TLoop v (drop (arity p) args)))) (value_ok C {})"
      if "\<not> length args < arity p"
      by (rule loop_good [OF assms(1,2,4) set_drop_subset], rule callPrimOp_good [OF assms(1,2) p]) (use that assms(4) in \<open>auto dest: in_set_takeD\<close>)
    then have "good C k m (bind_ev (primopArity C name) (\<lambda>n. if length args < n then makeAppChain v args
            else bind_ev (callPrimOp C run name (take n args)) (\<lambda>v. run (TLoop v (drop n args))))) (value_ok C {})"
      using chain p by (simp add: primopArity_def)
    then show ?thesis using VPrimOp False by (subst good_cong) (auto simp: callLoop_def)
  next
    case (VApp a)
    then have a: "a < length (apps m)" using assms(3) by simp
    show ?thesis
    proof (cases "apps m ! a")
      case (Pending left prev)
      then have left: "value_ok C {} m left" using apps_ok [OF assms(1) a] by simp
      have "good C k m (bind_ev (target left) (\<lambda>t. case t of VPrimOp name \<Rightarrow> callPrimOpApp C run a left prev name args | _ \<Rightarrow> callOther run v args)) (value_ok C {})"
        by (rule target_bind [OF assms(1) left assms(2)]) (use other callPrimOpApp_good [OF assms(1,2) a Pending _ assms(4)] in \<open>auto split: val.splits\<close>)
      then show ?thesis using VApp a Pending False by (subst good_cong) (auto simp: callLoop_def)
    qed (use other VApp a False in \<open>simp add: callLoop_def good_def\<close>)
  qed (use other False in \<open>simp_all add: callLoop_def good_def\<close>)
qed

lemma mem_ok_depth: "mem_ok C F (m\<lparr>callDepth := d\<rparr>) = mem_ok C F m"
proof -
  have v: "value_ok C F (m\<lparr>callDepth := d\<rparr>) w = value_ok C F m w" for w by (induction w) auto
  then have "app_ok C F (m\<lparr>callDepth := d\<rparr>) x = app_ok C F m x" for x by (cases x) auto
  then show ?thesis using v by (simp add: mem_ok_def)
qed

lemma value_ok_depth: "value_ok C F (m\<lparr>callDepth := d\<rparr>) w = value_ok C F m w"
  by (induction w) auto

lemma callFunction_good:
  assumes "mem_ok C {} m" and "k \<le> length (envs m)" and "value_ok C {} m f" and "\<forall>x \<in> set args. value_ok C {} m x"
  shows "good C k m (callFunction C run f args) (value_ok C {})"
proof (cases "callDepth m \<ge> maxCallDepth C")
  case True
  then have "good C k m (throw (EvalError ''stack overflow; max-call-depth exceeded'')) (value_ok C {})" using assms by (auto intro: good_throw)
  then show ?thesis using True by (subst good_cong) (auto simp: callFunction_def)
next
  case False
  let ?m = "m\<lparr>callDepth := callDepth m + 1\<rparr>"
  have args: "\<forall>x \<in> set args. value_ok C {} ?m x" using assms(4) by (simp add: value_ok_depth)
  have "good C k ?m (bind_ev (run (TForce f)) (\<lambda>v. run (TLoop v args))) (value_ok C {})"
    by (rule loop_good [OF _ _ args order_refl], use assms(1,2) in \<open>auto simp: mem_ok_depth\<close>)
      (rule run_good, use assms(1-3) in \<open>auto simp: mem_ok_depth value_ok_depth\<close>)
  moreover have "ext k m (m'\<lparr>callDepth := callDepth m' - 1\<rparr>)" if "ext k ?m m'" for m' using that by (simp add: ext_def)
  ultimately show ?thesis using False
    by (fastforce simp: good_def callFunction_def mem_ok_depth value_ok_depth split: sum.splits)
qed

lemma evalCall_good:
  assumes "mem_ok C {} m" and "k \<le> length (envs m)" and "env_at m env fs" and "scoped fs f" and "\<forall>x \<in> set args. scoped fs x"
  shows "good C k m (evalCall run env f args) (value_ok C {})"
  unfolding evalCall_def
proof (rule run_bind [OF assms(1,2) task_eval [OF assms(3,4)]])
  fix v m1
  assume a: "mem_ok C {} m1" "k \<le> length (envs m1)" "ext k m m1" "value_ok C {} m1 v"
  have "built C {} k m1 (map_ev (\<lambda>e. maybeThunk e env) args) (\<lambda>m' vs. length vs = length args \<and> (\<forall>v \<in> set vs. value_ok C {} m' v))"
  proof (rule built_map_ev [OF a(1,2)])
    show "built C {} k m' (maybeThunk e env) (value_ok C {})" if "e \<in> set args" "mem_ok C {} m'" "ext k m1 m'" for e m'
      by (rule built_maybeThunk [OF that(2)])
        (use env_at_ext [OF assms(3) ext_trans [OF a(3) that(3)]] that(1) assms(5) ext_length [OF that(3)] in \<open>auto simp: env_at_def\<close>)
  qed
  then show "good C k m1 (bind_ev (map_ev (\<lambda>e. maybeThunk e env) args) (\<lambda>vs. run (TCall v vs))) (value_ok C {})"
  proof (rule good_bind [OF built_good])
    fix vs m2
    assume b: "mem_ok C {} m2" "ext k m1 m2" "length vs = length args \<and> (\<forall>v \<in> set vs. value_ok C {} m2 v)"
    show "good C k m2 (run (TCall v vs)) (value_ok C {})"
      by (rule run_good [OF b(1)]) (use b(3) value_ok_ext [OF a(4) b(2)] ext_length [OF b(2)] in auto)
  qed
qed

section \<open>Forcing\<close>

lemma mem_ok_setThunk:
  assumes "mem_ok C {} m" and "\<And>v. t = Resolved v \<Longrightarrow> value_ok C {} m v" and "thunk_ok {} (envs m) t"
  shows "mem_ok C {} (setThunk a t m)" and "value_ok C {} m w \<Longrightarrow> value_ok C {} (setThunk a t m) w"
proof -
  let ?m = "setThunk a t m"
  have "thunk_ok {} (envs m) ((thunks m)[a := t] ! b)" if "b < length (thunks m)" "thunk_ok {} (envs m) (thunks m ! b)" for b
    using that assms(3) by (cases "b = a") auto
  then have v: "value_ok C {} m w \<Longrightarrow> value_ok C {} ?m w" for w
    by (elim value_ok_mono [rotated -1]) (auto simp: setThunk_def)
  then show "value_ok C {} m w \<Longrightarrow> value_ok C {} (setThunk a t m) w" .
  from v have app: "app_ok C {} m x \<Longrightarrow> app_ok C {} ?m x" for x by (cases x) auto
  have "value_ok C {} ?m w" if "Resolved w \<in> set (thunks ?m)" for w
    using that assms(1,2) v set_update_subset_insert [of "thunks m" a t] by (auto simp: setThunk_def mem_ok_def)
  moreover have "envs ?m = envs m" "apps ?m = apps m" "symtab ?m = symtab m" by (auto simp: setThunk_def)
  ultimately show "mem_ok C {} ?m" using assms(1) v app unfolding mem_ok_def by metis
qed

lemma thunks_le_set:
  assumes "thunks_le ((thunks m)[a := BlackHole]) (thunks m2)" and "a < length (thunks m)" and "thunks m ! a = Suspended env e"
    and "t = Suspended env e \<or> (\<exists>v. t = Resolved v)"
  shows "thunks_le (thunks m) ((thunks m2)[a := t])"
proof -
  have "((thunks m2)[a := t]) ! b = thunks m ! b \<or> (\<exists>env e v. thunks m ! b = Suspended env e \<and> ((thunks m2)[a := t]) ! b = Resolved v)"
    if "b < length (thunks m)" for b
    using assms that by (cases "b = a") (auto simp: thunks_le_def)
  moreover have "((thunks m2)[a := t]) ! b \<noteq> BlackHole" if "b < length (thunks m2)" "length (thunks m) \<le> b" for b
    using assms that by (auto simp: thunks_le_def nth_list_update)
  ultimately show ?thesis using assms(1) by (simp add: thunks_le_def)
qed

lemma forceThunk_good:
  assumes "mem_ok C {} m" and "k \<le> length (envs m)" and "value_ok C {} m (VThunk a)"
  shows "good C k m (forceThunk run a) (value_ok C {})"
proof (cases "thunks m ! a")
  case (Suspended env e)
  let ?m = "setThunk a BlackHole m"
  have a: "a < length (thunks m)" "env_full {} (envs m) env" "scoped (env_frames (envs m) env) e"
    using assms(3) Suspended by (auto simp: thunk_ok_def)
  have ok1: "mem_ok C {} ?m" by (rule mem_ok_setThunk(1) [OF assms(1)]) (auto simp: thunk_ok_def)
  have run: "good C k ?m (run (TEval env e)) (value_ok C {})"
    by (rule run_good [OF ok1]) (use assms(2) a in \<open>auto simp: setThunk_def\<close>)
  show ?thesis unfolding good_def
  proof (intro allI impI)
    fix r m3
    assume f: "forceThunk run a m = Some (r, m3)"
    obtain r2 m2 where r: "run (TEval env e) ?m = Some (r2, m2)" "r = r2"
      "m3 = setThunk a (case r2 of Inr v \<Rightarrow> Resolved v | Inl err \<Rightarrow> Suspended env e) m2"
      using f a Suspended by (auto simp: forceThunk_def split: option.splits sum.splits)
    let ?t = "case r2 of Inr v \<Rightarrow> Resolved v | Inl err \<Rightarrow> Suspended env e"
    have m2: "mem_ok C {} m2" "ext k ?m m2" "case r2 of Inl e \<Rightarrow> safe_error e | Inr v \<Rightarrow> value_ok C {} m2 v"
      using run r(1) by (auto simp: good_def)
    have env2: "env_full {} (envs m2) env" "env_frames (envs m2) env = env_frames (envs m) env"
      using env_full_ext [OF _ m2(2), of "{}" env] a(2) by (auto simp: setThunk_def)
    have t: "thunk_ok {} (envs m2) ?t" using env2 a(3) by (auto simp: thunk_ok_def split: sum.splits)
    have "thunks_le (thunks m) ((thunks m2)[a := ?t])"
      by (rule thunks_le_set [OF _ a(1) Suspended]) (use m2(2) in \<open>auto simp: ext_def setThunk_def split: sum.splits\<close>)
    then have "ext k m m3" using m2(2) unfolding r(3) by (simp add: ext_def setThunk_def)
    moreover have "mem_ok C {} m3" unfolding r(3) by (rule mem_ok_setThunk(1) [OF m2(1) _ t]) (use m2(3) in \<open>auto split: sum.splits\<close>)
    moreover have "value_ok C {} m3 v" if "r2 = Inr v" for v
      unfolding r(3) by (rule mem_ok_setThunk(2) [OF m2(1) _ t]) (use m2(3) that in auto)
    ultimately show "mem_ok C {} m3 \<and> ext k m m3 \<and> (case r of Inl e \<Rightarrow> safe_error e | Inr v \<Rightarrow> value_ok C {} m3 v)"
      using m2(3) r(2) by (auto split: sum.splits)
  qed
next
  case BlackHole
  then have "good C k m (throw (InfiniteRecursionError ''infinite recursion encountered'')) (value_ok C {})" using assms by (auto intro: good_throw)
  then show ?thesis using BlackHole assms(3) by (simp add: good_def forceThunk_def)
next
  case (Resolved v)
  then have "good C k m (ret v) (value_ok C {})" using assms resolved_ok [OF assms(1), of a v] by (auto intro: good_ret)
  then show ?thesis using Resolved assms(3) by (simp add: good_def forceThunk_def)
qed

lemma setApp_good:
  assumes "mem_ok C {} m" and "k \<le> length (envs m)" and "value_ok C {} m v"
  shows "good C k m (\<lambda>m. Some (Inr v, setApp a (AppResolved v) m)) (value_ok C {})"
proof -
  let ?m = "setApp a (AppResolved v) m"
  have mono: "value_ok C {} m w \<Longrightarrow> value_ok C {} ?m w" for w by (erule value_ok_mono [rotated -1]) (auto simp: setApp_def)
  then have app: "app_ok C {} m x \<Longrightarrow> app_ok C {} ?m x" for x by (cases x) auto
  have "app_ok C {} ?m x" if "x \<in> set (apps ?m)" for x
    using that assms(1,3) app mono set_update_subset_insert [of "apps m" a "AppResolved v"] by (auto simp: setApp_def mem_ok_def)
  moreover have "envs ?m = envs m" "thunks ?m = thunks m" "symtab ?m = symtab m" by (auto simp: setApp_def)
  ultimately have "mem_ok C {} ?m" using assms(1) mono unfolding mem_ok_def by metis
  moreover have "ext k m ?m" using assms(2) by (simp add: ext_def setApp_def)
  ultimately show ?thesis using mono [OF assms(3)] by (simp add: good_def)
qed

lemma forceApp_good:
  assumes "mem_ok C {} m" and "k \<le> length (envs m)" and "value_ok C {} m (VApp a)"
  shows "good C k m (forceApp C run a) (value_ok C {})"
proof (cases "apps m ! a")
  case (Pending left args)
  have a: "a < length (apps m)" using assms(3) by simp
  have ok: "value_ok C {} m left" "\<forall>x \<in> set args. value_ok C {} m x" using apps_ok [OF assms(1) a] Pending by auto
  have call: "good C k m (bind_ev (run (TCall left args)) (\<lambda>v m. Some (Inr v, setApp a (AppResolved v) m))) (value_ok C {})"
    by (rule run_bind [OF assms(1,2)]) (use ok setApp_good in auto)
  have wait: "good C k m (ret (VApp a)) (value_ok C {})" by (rule good_ret) (use assms in auto)
  have "good C k m (bind_ev (target left) (\<lambda>t.
                bind_ev (case t of VPrimOp name \<Rightarrow>
                             bind_ev (primopArity C name) (\<lambda>n. bind_ev (totalArgs (VApp a)) (\<lambda>total. ret (of_nat n \<le> total)))
                         | _ \<Rightarrow> ret True) (\<lambda>call.
                if call then bind_ev (run (TCall left args)) (\<lambda>v m. Some (Inr v, setApp a (AppResolved v) m))
                else ret (VApp a)))) (value_ok C {})"
  proof (rule target_bind [OF assms(1) ok(1) assms(2)])
    fix t
    assume t: "value_ok C {} m t"
    show "good C k m (bind_ev (case t of VPrimOp name \<Rightarrow>
                             bind_ev (primopArity C name) (\<lambda>n. bind_ev (totalArgs (VApp a)) (\<lambda>total. ret (of_nat n \<le> total)))
                         | _ \<Rightarrow> ret True) (\<lambda>call.
                if call then bind_ev (run (TCall left args)) (\<lambda>v m. Some (Inr v, setApp a (AppResolved v) m))
                else ret (VApp a))) (value_ok C {})"
    proof (cases t)
      case (VPrimOp name)
      then obtain p where p: "primops C name = Some p" using t by auto
      have "good C k m (bind_ev (bind_ev (totalArgs (VApp a)) (\<lambda>total. ret (of_nat (arity p) \<le> total))) (\<lambda>call.
                if call then bind_ev (run (TCall left args)) (\<lambda>v m. Some (Inr v, setApp a (AppResolved v) m))
                else ret (VApp a))) (value_ok C {})"
        by (rule good_bind_assoc, rule totalArgs_bind [OF assms(1,3,2)]) (use call wait in auto)
      then show ?thesis using VPrimOp p by (simp add: primopArity_def)
    qed (use call in auto)
  qed
  then show ?thesis using a Pending by (subst good_cong) (auto simp: forceApp_def)
next
  case (AppResolved v)
  then have "good C k m (ret v) (value_ok C {})" using assms apps_ok [OF assms(1), of a] by (auto intro: good_ret)
  then show ?thesis using AppResolved assms(3) by (subst good_cong) (auto simp: forceApp_def)
qed

lemma forceValue_good:
  assumes "mem_ok C {} m" and "k \<le> length (envs m)" and "value_ok C {} m v"
  shows "good C k m (forceValue C run v) (value_ok C {})"
proof -
  have "good C k m (ret v) (value_ok C {})" by (rule good_ret) (use assms in auto)
  then show ?thesis using forceThunk_good [OF assms(1,2)] forceApp_good [OF assms(1,2)] assms(3)
    by (cases v) (auto simp: forceValue_def simp del: value_ok.simps)
qed

section \<open>Equality and coercion\<close>

lemma eqLists_good:
  assumes "mem_ok C {} m" and "k \<le> length (envs m)" and "\<forall>x \<in> set xs. value_ok C {} m x" and "\<forall>x \<in> set ys. value_ok C {} m x"
  shows "good C k m (eqLists run xs ys) (\<lambda>m' b. True)"
  using assms
proof (induction xs ys arbitrary: m rule: list_induct2')
  case (4 x xs y ys)
  have "good C k m (runEq run x y) (\<lambda>m' b. True)" by (rule runEq_good [OF "4.prems"(1,2)]) (use "4.prems" in auto)
  then show ?case unfolding eqLists.simps
  proof (rule good_bind)
    fix b m'
    assume m': "mem_ok C {} m'" "ext k m m'"
    then show "good C k m' (if b then eqLists run xs ys else ret False) (\<lambda>m' b. True)"
      using "4.IH" [OF m'(1)] "4.prems"(3,4) value_ok_ext [OF _ m'(2)] ext_length [OF m'(2)] by (auto intro: good_ret)
  qed
qed (auto intro: good_ret)

lemma eqBindings_good:
  assumes "mem_ok C {} m" and "k \<le> length (envs m)" and "\<forall>x \<in> set xs. value_ok C {} m (snd x)" and "\<forall>x \<in> set ys. value_ok C {} m (snd x)"
  shows "good C k m (eqBindings run xs ys) (\<lambda>m' b. True)"
  using assms
proof (induction xs ys arbitrary: m rule: list_induct2')
  case (4 x xs y ys)
  have "good C k m (runEq run (snd x) (snd y)) (\<lambda>m' b. True)" by (rule runEq_good [OF "4.prems"(1,2)]) (use "4.prems" in auto)
  then have "good C k m (bind_ev (runEq run (snd x) (snd y)) (\<lambda>b. if b then eqBindings run xs ys else ret False)) (\<lambda>m' b. True)"
  proof (rule good_bind)
    fix b m'
    assume m': "mem_ok C {} m'" "ext k m m'"
    then show "good C k m' (if b then eqBindings run xs ys else ret False) (\<lambda>m' b. True)"
      using "4.IH" [OF m'(1)] "4.prems"(3,4) value_ok_ext [OF _ m'(2)] ext_length [OF m'(2)] by (auto intro: good_ret)
  qed
  then show ?case using "4.prems"(1,2) by (cases x; cases y) (auto intro: good_ret)
qed (auto intro: good_ret)

lemma eqAttrs_good:
  assumes "mem_ok C {} m" and "k \<le> length (envs m)" and "value_ok C {} m (VAttrs i as)" and "value_ok C {} m (VAttrs j bs)"
  shows "good C k m (eqAttrs run as bs) (\<lambda>m' b. True)"
proof -
  have both: "good C k m (bind_ev (isDerivation run as) (\<lambda>d. if d then isDerivation run bs else ret False)) (\<lambda>m' x. True)"
  proof (rule good_bind [OF isDerivation_good [OF assms(1-3)]])
    fix d m'
    assume m': "mem_ok C {} m'" "ext k m m'"
    have k': "k \<le> length (envs m')" using ext_length [OF m'(2)] by simp
    show "good C k m' (if d then isDerivation run bs else ret False) (\<lambda>m' x. True)"
      using isDerivation_good [OF m'(1) k' value_ok_ext [OF assms(4) m'(2)]] m'(1) k' by (auto intro: good_ret)
  qed
  show ?thesis unfolding eqAttrs_def
  proof (rule good_bind [OF both])
    fix d m'
    assume m': "mem_ok C {} m'" "ext k m m'"
    have k': "k \<le> length (envs m')" using ext_length [OF m'(2)] by simp
    have ok: "value_ok C {} m' (VAttrs i as)" "value_ok C {} m' (VAttrs j bs)" using value_ok_ext [OF _ m'(2)] assms(3,4) by blast+
    have rest: "good C k m' (if length as \<noteq> length bs then ret False else eqBindings run as bs) (\<lambda>m' b. True)"
      using eqBindings_good [OF m'(1) k', of as bs] ok m'(1) k' by (auto intro: good_ret)
    have "good C k m' (runEq run x y) (\<lambda>m' b. True)" if "bindings_get sym_outPath as = Some x" "bindings_get sym_outPath bs = Some y" for x y
      by (rule runEq_good [OF m'(1) k' attrs_ok [OF ok(1) that(1)] attrs_ok [OF ok(2) that(2)]])
    then show "good C k m' (case (bindings_get sym_outPath as, bindings_get sym_outPath bs) of
         (Some x, Some y) \<Rightarrow> if d then runEq run x y else if length as \<noteq> length bs then ret False else eqBindings run as bs
       | _ \<Rightarrow> if length as \<noteq> length bs then ret False else eqBindings run as bs) (\<lambda>m' b. True)"
      using rest by (auto split: option.splits)
  qed
qed

lemma eqSameType_good:
  assumes "mem_ok C {} m" and "k \<le> length (envs m)" and "value_ok C {} m v1" and "value_ok C {} m v2"
  shows "good C k m (eqSameType C run t v1 v2) (\<lambda>m' b. True)"
proof -
  have fallback: "good C k m (if t = nFunction then ret (pointerEq v1 v2) else throw (EvalError ''cannot compare %1% with %2%'')) (\<lambda>m' b. True)"
    using assms(1,2) by (auto intro!: good_ret good_throw)
  have r: "good C k m (ret b) (\<lambda>m' b. True)" for b :: bool using assms(1,2) by (auto intro!: good_ret)
  consider (list) i xs j ys where "v1 = VList i xs" "v2 = VList j ys" | (attrs) i as j bs where "v1 = VAttrs i as" "v2 = VAttrs j bs"
    | (other) "\<not> (\<exists>i xs j ys. v1 = VList i xs \<and> v2 = VList j ys)" "\<not> (\<exists>i as j bs. v1 = VAttrs i as \<and> v2 = VAttrs j bs)" by blast
  then show ?thesis
  proof cases
    case list
    then show ?thesis using eqLists_good [OF assms(1,2), of xs ys] assms(3,4) r by (auto simp: eqSameType_def)
  next
    case attrs
    then show ?thesis using eqAttrs_good [OF assms(1,2), of i as j bs] assms(3,4) r by (auto simp: eqSameType_def simp del: value_ok.simps)
  next
    case other
    then show ?thesis using fallback r by (cases v1; cases v2) (auto simp: eqSameType_def)
  qed
qed

lemma eqValues_good:
  assumes "mem_ok C {} m" and "k \<le> length (envs m)" and "value_ok C {} m v1" and "value_ok C {} m v2"
  shows "good C k m (eqValues C run v1 v2) (\<lambda>m' b. True)"
  unfolding eqValues_def
proof (rule run_bind [OF assms(1,2)], use assms(3) in simp)
  fix w1 m1
  assume a: "mem_ok C {} m1" "k \<le> length (envs m1)" "ext k m m1" "value_ok C {} m1 w1"
  have v2: "value_ok C {} m1 v2" by (rule value_ok_ext [OF assms(4) a(3)])
  show "good C k m1 (bind_ev (run (TForce v2)) (\<lambda>v2. bind_ev (valueType w1) (\<lambda>t1. bind_ev (valueType v2) (\<lambda>t2.
     bind_ev (shortcut w1) (\<lambda>w1. bind_ev (shortcut v2) (\<lambda>w2. case (w1, w2) of
         (VInt i, VFloat f) \<Rightarrow> ret (float_eq C (float_of_int C i) f)
       | (VFloat f, VInt i) \<Rightarrow> ret (float_eq C f (float_of_int C i))
       | _ \<Rightarrow> if t1 \<noteq> t2 then ret False else eqSameType C run t1 w1 w2)))))) (\<lambda>m' b. True)"
  proof (rule run_bind [OF a(1,2)], use v2 in simp)
    fix w2 m2
    assume b: "mem_ok C {} m2" "k \<le> length (envs m2)" "ext k m1 m2" "value_ok C {} m2 w2"
    have w1: "value_ok C {} m2 w1" by (rule value_ok_ext [OF a(4) b(3)])
    show "good C k m2 (bind_ev (valueType w1) (\<lambda>t1. bind_ev (valueType w2) (\<lambda>t2.
     bind_ev (shortcut w1) (\<lambda>w1. bind_ev (shortcut w2) (\<lambda>w2. case (w1, w2) of
         (VInt i, VFloat f) \<Rightarrow> ret (float_eq C (float_of_int C i) f)
       | (VFloat f, VInt i) \<Rightarrow> ret (float_eq C f (float_of_int C i))
       | _ \<Rightarrow> if t1 \<noteq> t2 then ret False else eqSameType C run t1 w1 w2))))) (\<lambda>m' b. True)"
    proof (rule valueType_bind [OF b(1) w1 b(2)], rule valueType_bind [OF b(1,4,2)], rule shortcut_bind [OF b(1) w1 b(2)],
        rule shortcut_bind [OF b(1,4,2)])
      fix t1 t2 u1 u2
      assume u: "value_ok C {} m2 u1" "value_ok C {} m2 u2"
      have r: "good C k m2 (ret b) (\<lambda>m' b. True)" for b :: bool using b(1,2) by (auto intro!: good_ret)
      have "good C k m2 (if t1 \<noteq> t2 then ret False else eqSameType C run t1 u1 u2) (\<lambda>m' b. True)"
        using r eqSameType_good [OF b(1,2) u] by simp
      then show "good C k m2 (case (u1, u2) of
         (VInt i, VFloat f) \<Rightarrow> ret (float_eq C (float_of_int C i) f)
       | (VFloat f, VInt i) \<Rightarrow> ret (float_eq C f (float_of_int C i))
       | _ \<Rightarrow> if t1 \<noteq> t2 then ret False else eqSameType C run t1 u1 u2) (\<lambda>m' b. True)"
        using r by (cases u1; cases u2) simp_all
    qed
  qed
qed

lemma coerceList_good:
  assumes "mem_ok C {} m" and "k \<le> length (envs m)" and "\<forall>x \<in> set xs. value_ok C {} m x"
  shows "good C k m (coerceList run context mode copy canon xs) (\<lambda>m' b. True)"
  using assms
proof (induction xs arbitrary: m "context")
  case (Cons x xs)
  show ?case unfolding coerceList.simps
  proof (rule run_bind [OF Cons.prems(1,2)], use Cons.prems(3) in simp, rule good_bind [OF coerceTo_good], assumption+, clarify)
    fix w m1 s context' m2
    assume a: "ext k m m1" "mem_ok C {} m2" "ext k m1 m2"
    have "good C k m2 (coerceList run context' mode copy canon xs) (\<lambda>m' b. True)"
      by (rule Cons.IH [OF a(2)]) (use Cons.prems(3) value_ok_ext [OF _ ext_trans [OF a(1,3)]] ext_length [OF a(3)] in auto)
    then show "good C k m2 (bind_ev (coerceList run context' mode copy canon xs) (\<lambda>(rest, context).
       ret (s @ (if xs \<noteq> [] \<and> (case w of VList i ys \<Rightarrow> ys \<noteq> [] | _ \<Rightarrow> True) then '' '' else []) @ rest, context))) (\<lambda>m' b. True)"
      by (rule good_bind) (auto intro!: good_ret dest: ext_length split: prod.splits)
  qed
qed (auto intro: good_ret)

lemma coercePath_good:
  assumes "mem_ok C {} m" and "k \<le> length (envs m)"
  shows "good C k m (coercePath C p context copy canon) (\<lambda>m' b. True)"
proof -
  obtain q where q: "canonPathOf p = Inr q" using canonPathOf_total by blast
  have r: "bind_ev (lift_ev (Inr q)) g = g q" for g :: "CanonPath \<Rightarrow> (string \<times> string set) ev" by (rule HOL.ext) (simp add: bind_ev_def lift_ev_def)
  have "good C k m (storeCopy C (cpath q)) (\<lambda>m' b. True)"
    using assms by (auto simp: storeCopy_def intro: good_throw good_ret split: sum.splits)
  then have "good C k m (bind_ev (storeCopy C (cpath q)) (\<lambda>(s, elem). ret (s, insert elem context))) (\<lambda>m' b. True)"
    by (rule good_bind) (auto intro!: good_ret dest: ext_length split: prod.splits)
  then show ?thesis unfolding coercePath_def q r using assms by (auto intro: good_ret)
qed

lemma coerceToString_good:
  assumes "mem_ok C {} m" and "k \<le> length (envs m)" and "value_ok C {} m v"
  shows "good C k m (coerceToString C run v context mode copy canon) (\<lambda>m' b. True)"
  unfolding coerceToString_def Let_def
proof (rule run_bind [OF assms(1,2)], use assms(3) in simp, rule shortcut_bind, assumption+)
  fix v' m' w
  assume m': "mem_ok C {} m'" "k \<le> length (envs m')" "value_ok C {} m' w"
  let ?err = "throw (TypeError ''cannot coerce %1% to a string: %2%'') :: (string \<times> string set) ev"
  have err: "good C k m' ?err (\<lambda>m' b. True)" using m' by (auto intro: good_throw)
  have r: "good C k m' (ret x) (\<lambda>m' b. True)" for x :: "string \<times> string set" using m' by (auto intro: good_ret)
  have call: "good C k m' (bind_ev (run (TCall f [w])) (\<lambda>v1. coerceTo run v1 context mode copy True)) (\<lambda>m' b. True)" if "value_ok C {} m' f" for f
    by (rule run_bind [OF m'(1,2)]) (use that m'(3) coerceTo_good in auto)
  have out: "good C k m' (coerceTo run x context mode copy canon) (\<lambda>m' b. True)" if "value_ok C {} m' x" for x
    by (rule coerceTo_good [OF m'(1,2) that])
  have path: "good C k m' (coercePath C p context copy canon) (\<lambda>m' b. True)" for p by (rule coercePath_good [OF m'(1,2)])
  have list: "good C k m' (coerceList run context mode copy canon xs) (\<lambda>m' b. True)" if "w = VList i xs" for i xs
    by (rule coerceList_good [OF m'(1,2)]) (use that m'(3) in simp)
  have attrs: "value_ok C {} m' x" if "w = VAttrs i as" "bindings_get name as = Some x" for i as name x
    using attrs_ok that m'(3) by blast
  show "good C k m' (case w of
            VString s c \<Rightarrow> ret (s, context \<union> c)
          | VPath p \<Rightarrow> coercePath C p context copy canon
          | VAttrs i as \<Rightarrow>
              (case bindings_get sym_toString as of
                 Some f \<Rightarrow> bind_ev (run (TCall f [w])) (\<lambda>v1. coerceTo run v1 context mode copy True)
               | None \<Rightarrow> (case bindings_get sym_outPath as of Some x \<Rightarrow> coerceTo run x context mode copy canon | None \<Rightarrow> ?err))
          | VInt i \<Rightarrow> if mode \<noteq> Strict then ret (int_string (sint i), context) else ?err
          | VBool b \<Rightarrow> if mode = ToString then ret (if b then ''1'' else [], context) else ?err
          | VFloat f \<Rightarrow> if mode = ToString then ret (float_string C f, context) else ?err
          | VNull \<Rightarrow> if mode = ToString then ret ([], context) else ?err
          | VList i xs \<Rightarrow> if mode = ToString then coerceList run context mode copy canon xs else ?err
          | _ \<Rightarrow> ?err) (\<lambda>m' b. True)"
    using err r call out path list attrs by (cases w) (auto split: option.splits)
qed

section \<open>Calling with arguments of the command line\<close>

lemma autoArgs_good:
  assumes "mem_ok C {} m" and "k \<le> length (envs m)" and "\<forall>x \<in> set args. value_ok C {} m (snd x)" and "omap_ok args" and "names_ok (map formal_name fs)"
  shows "good C k m (autoArgs args fs) (\<lambda>m' as. distinct (map fst as) \<and> set (map fst as) \<subseteq> formal_name ` set fs \<and> (\<forall>x \<in> set as. value_ok C {} m' (snd x)))"
  using assms
proof (induction fs)
  case Nil
  then show ?case by (auto intro: good_ret)
next
  case (Cons f fs)
  have IH: "good C k m (autoArgs args fs) (\<lambda>m' as. distinct (map fst as) \<and> set (map fst as) \<subseteq> formal_name ` set fs \<and> (\<forall>x \<in> set as. value_ok C {} m' (snd x)))"
    using Cons by (simp add: names_ok_def)
  show ?case
  proof (cases "bindings_get (formal_name f) args")
    case None
    have "good C k m (autoArgs args fs) (\<lambda>m' as. distinct (map fst as) \<and> set (map fst as) \<subseteq> formal_name ` set (f # fs) \<and> (\<forall>x \<in> set as. value_ok C {} m' (snd x)))"
      by (rule good_mono [OF IH order_refl]) auto
    then show ?thesis using None Cons.prems(1,2) by (auto intro: good_throw)
  next
    case (Some v)
    then have v: "value_ok C {} m v" using Cons.prems(3,4) by (auto simp: bindings_get_map_of dest!: map_of_SomeD)
    have new: "formal_name f \<notin> formal_name ` set fs" using Cons.prems(5) by (auto simp: names_ok_def)
    have "good C k m (bind_ev (autoArgs args fs) (\<lambda>xs. ret ((formal_name f, v) # xs)))
      (\<lambda>m' as. distinct (map fst as) \<and> set (map fst as) \<subseteq> formal_name ` set (f # fs) \<and> (\<forall>x \<in> set as. value_ok C {} m' (snd x)))"
    proof (rule good_bind [OF IH])
      fix xs m'
      assume m': "mem_ok C {} m'" "ext k m m'" "distinct (map fst xs) \<and> set (map fst xs) \<subseteq> formal_name ` set fs \<and> (\<forall>x \<in> set xs. value_ok C {} m' (snd x))"
      show "good C k m' (ret ((formal_name f, v) # xs)) (\<lambda>m' as. distinct (map fst as) \<and> set (map fst as) \<subseteq> formal_name ` set (f # fs) \<and> (\<forall>x \<in> set as. value_ok C {} m' (snd x)))"
        by (rule good_ret [OF m'(1)]) (use m' new value_ok_ext [OF v m'(2)] ext_length [OF m'(2)] in auto)
    qed
    then show ?thesis using Some by simp
  qed
qed

lemma autoLambda_good:
  assumes "mem_ok C {} m" and "k \<le> length (envs m)" and "value_ok C {} m w" and "w = VLambda i env (AttrsPattern name fs ellipsis) body"
    and "omap_ok args" and "\<forall>x \<in> set args. value_ok C {} m (snd x)"
  shows "good C k m (bind_ev (allocBindings n) (\<lambda>obj. bind_ev (if ellipsis then ret args else autoArgs args fs) (\<lambda>as.
     run (TCall w [VAttrs obj (sort_bindings as)])))) (value_ok C {})"
proof (rule good_bind [OF good_allocBindings [OF assms(1,2)]])
  fix obj m1
  assume a: "mem_ok C {} m1" "ext k m m1"
  have k1: "k \<le> length (envs m1)" using ext_length [OF a(2)] by simp
  have args1: "\<forall>x \<in> set args. value_ok C {} m1 (snd x)" using assms(6) value_ok_ext [OF _ a(2)] by blast
  have names: "names_ok (map formal_name fs)" using assms(3,4) by simp
  have "good C k m1 (if ellipsis then ret args else autoArgs args fs) (\<lambda>m' as. distinct (map fst as) \<and> (\<forall>x \<in> set as. value_ok C {} m' (snd x)))"
  proof (cases ellipsis)
    case True
    have "distinct (map fst args)" using assms(5) by (simp add: omap_ok_def strict_sorted_iff)
    then show ?thesis using True a(1) k1 args1 by (auto intro: good_ret)
  next
    case False
    then show ?thesis using good_mono [OF autoArgs_good [OF a(1) k1 args1 assms(5) names] order_refl] by simp
  qed
  then show "good C k m1 (bind_ev (if ellipsis then ret args else autoArgs args fs) (\<lambda>as. run (TCall w [VAttrs obj (sort_bindings as)]))) (value_ok C {})"
  proof (rule good_bind)
    fix as :: Bindings and m2
    assume b: "mem_ok C {} m2" "ext k m1 m2" "distinct (map fst as) \<and> (\<forall>x \<in> set as. value_ok C {} m2 (snd x))"
    have "value_ok C {} m2 (VAttrs obj (sort_bindings as))" using sort_bindings_ok b(3) by (simp add: sort_bindings_def)
    moreover have "value_ok C {} m2 w" by (rule value_ok_ext [OF assms(3) ext_trans [OF a(2) b(2)]])
    ultimately show "good C k m2 (run (TCall w [VAttrs obj (sort_bindings as)])) (value_ok C {})"
      using ext_length [OF b(2)] by (intro run_good [OF b(1)]) (auto simp del: value_ok.simps)
  qed
qed

lemma autoCallFunction_good:
  assumes "mem_ok C {} m" and "k \<le> length (envs m)" and "value_ok C {} m f" and "omap_ok args" and "\<forall>x \<in> set args. value_ok C {} m (snd x)"
  shows "good C k m (autoCallFunction C run args f) (value_ok C {})"
  unfolding autoCallFunction_def
proof (rule run_bind [OF assms(1,2)], use assms(3) in simp, rule shortcut_bind, assumption+)
  fix v m1 w
  assume a: "mem_ok C {} m1" "k \<le> length (envs m1)" "ext k m m1" "value_ok C {} m1 w"
  have args1: "\<forall>x \<in> set args. value_ok C {} m1 (snd x)" using assms(5) value_ok_ext [OF _ a(3)] by blast
  let ?f = "case w of VAttrs i as \<Rightarrow> bindings_get sym_functor as | _ \<Rightarrow> None"
  have f: "value_ok C {} m1 g" if "?f = Some g" for g using that a(4) attrs_ok by (auto split: val.splits simp del: value_ok.simps)
  have fnc: "good C k m1 (bind_ev (run (TCall g [w])) (\<lambda>v. bind_ev (run (TForce v)) (\<lambda>v. run (TAutoCall args v)))) (value_ok C {})"
    if "value_ok C {} m1 g" for g
  proof (rule run_bind [OF a(1,2)], use that a(4) in simp, rule run_bind, assumption+, simp)
    fix v m2 u m3
    assume b: "ext k m1 m2" "mem_ok C {} m3" "k \<le> length (envs m3)" "ext k m2 m3" "value_ok C {} m3 u"
    show "good C k m3 (run (TAutoCall args u)) (value_ok C {})"
      by (rule run_good [OF b(2,3)]) (use b(5) assms(4) args1 value_ok_ext [OF _ ext_trans [OF b(1,4)]] in auto)
  qed
  have lambda: "good C k m1 (bind_ev (allocBindings n) (\<lambda>obj. bind_ev (if ellipsis then ret args else autoArgs args fs) (\<lambda>as.
     run (TCall w [VAttrs obj (sort_bindings as)])))) (value_ok C {})" if "w = VLambda i env (AttrsPattern name fs ellipsis) body" for i env name fs ellipsis body n
    by (rule autoLambda_good [OF a(1,2,4) that assms(4) args1])
  have "good C k m1 (ret w) (value_ok C {})" by (rule good_ret) (use a in auto)
  then show "good C k m1 (case ?f of
         Some g \<Rightarrow> bind_ev (run (TCall g [w])) (\<lambda>v. bind_ev (run (TForce v)) (\<lambda>v. run (TAutoCall args v)))
       | None \<Rightarrow>
           (case w of
              VLambda i env (AttrsPattern name fs ellipsis) body \<Rightarrow>
                bind_ev (allocBindings (max (length fs) (length args))) (\<lambda>obj.
                bind_ev (if ellipsis then ret args else autoArgs args fs) (\<lambda>as.
                  run (TCall w [VAttrs obj (sort_bindings as)])))
            | _ \<Rightarrow> ret w)) (value_ok C {})"
    using f fnc lambda by (auto split: option.splits val.splits pattern.splits simp del: value_ok.simps)
qed

section \<open>The evaluator\<close>

lemma evalExpr_good:
  assumes "mem_ok C {} m" and "k \<le> length (envs m)" and "env_at m env fs" and "scoped fs e"
  shows "good C k m (evalExpr C run env e) (value_ok C {})"
proof (cases e)
  case (ExprLiteral l)
  have "value_ok C {} m (literal_value l)" by (cases l) (auto simp: literal_value_def)
  then show ?thesis using ExprLiteral assms(1,2) by (auto simp: evalExpr_def intro: good_ret)
next
  case (ExprVar name needsRoot b)
  have "good C k m (bind_ev (lookupVar run name b env) (\<lambda>v. run (TForce v))) (value_ok C {})"
    by (rule good_bind [OF lookupVar_good [OF assms(1-3)]]) (use assms(4) ExprVar in \<open>auto intro!: run_good dest: ext_length\<close>)
  then show ?thesis using ExprVar by (simp add: evalExpr_def)
next
  case (ExprInheritFrom d)
  have "good C k m (bind_ev (validSlot env d) (\<lambda>v. run (TForce v))) (value_ok C {})"
    by (rule good_bind [OF validSlot_good [OF assms(1-3)]]) (use assms(4) ExprInheritFrom in \<open>auto intro!: run_good dest: ext_length\<close>)
  then show ?thesis using ExprInheritFrom by (simp add: evalExpr_def)
next
  case (ExprSelect e1 path def)
  have "good C k m (evalSelect run env e1 path def) (value_ok C {})" unfolding evalSelect_def
    by (rule run_bind [OF assms(1,2) task_eval [OF assms(3)]])
      (use assms(3,4) ExprSelect env_at_ext in \<open>auto intro!: selectLoop_good [where fs = fs] simp del: value_ok.simps\<close>)
  then show ?thesis using ExprSelect by (simp add: evalExpr_def)
next
  case (ExprOpHasAttr e1 path)
  have "good C k m (evalHasAttr run env e1 path) (value_ok C {})" unfolding evalHasAttr_def
    by (rule run_bind [OF assms(1,2) task_eval [OF assms(3)]])
      (use assms(3,4) ExprOpHasAttr env_at_ext in \<open>auto intro!: hasAttrLoop_good [where fs = fs] simp del: value_ok.simps\<close>)
  then show ?thesis using ExprOpHasAttr by (simp add: evalExpr_def)
next
  case (ExprList es)
  have "good C k m (bind_ev newObject (\<lambda>obj. bind_ev (map_ev (\<lambda>e. maybeThunk e env) es) (\<lambda>vs. ret (VList obj vs)))) (value_ok C {})"
  proof (rule good_bind [OF built_good [OF built_newObject [OF assms(1,2)]]])
    fix obj m1
    assume a: "mem_ok C {} m1" "ext k m m1"
    have "built C {} k m1 (map_ev (\<lambda>e. maybeThunk e env) es) (\<lambda>m' vs. length vs = length es \<and> (\<forall>v \<in> set vs. value_ok C {} m' v))"
    proof (rule built_map_ev [OF a(1)])
      show "built C {} k m' (maybeThunk x env) (value_ok C {})" if "x \<in> set es" "mem_ok C {} m'" "ext k m1 m'" for x m'
        by (rule built_maybeThunk [OF that(2)])
          (use env_at_ext [OF assms(3) ext_trans [OF a(2) that(3)]] that(1) assms(4) ExprList ext_length [OF that(3)] in \<open>auto simp: env_at_def\<close>)
    qed (use ext_length [OF a(2)] in simp)
    then show "good C k m1 (bind_ev (map_ev (\<lambda>e. maybeThunk e env) es) (\<lambda>vs. ret (VList obj vs))) (value_ok C {})"
      by (rule good_bind [OF built_good]) (auto intro!: good_ret dest: ext_length)
  qed
  then show ?thesis using ExprList by (simp add: evalExpr_def)
next
  case (ExprLambda p body)
  have "good C k m (bind_ev newObject (\<lambda>obj. ret (VLambda obj env p body))) (value_ok C {})"
  proof (rule good_bind [OF built_good [OF built_newObject [OF assms(1,2)]]])
    fix obj m1
    assume a: "mem_ok C {} m1" "ext k m m1"
    show "good C k m1 (ret (VLambda obj env p body)) (value_ok C {})"
      by (rule good_ret [OF a(1)]) (use env_at_ext [OF assms(3) a(2)] assms(4) ExprLambda ext_length [OF a(2)] in \<open>auto simp: env_at_def\<close>)
  qed
  then show ?thesis using ExprLambda by (simp add: evalExpr_def)
next
  case (ExprSet recursive attrs "from" dyn)
  then show ?thesis using evalSet_good [OF assms(1-3)] assms(4) by (simp add: evalExpr_def del: scoped.simps)
next
  case (ExprLet attrs "from" body)
  then show ?thesis using evalLet_good [OF assms(1-3)] assms(4) by (simp add: evalExpr_def del: scoped.simps)
next
  case (ExprWith attrs body w)
  then show ?thesis using evalWith_good [OF assms(1-3)] assms(4) by (simp add: evalExpr_def del: scoped.simps)
next
  case (ExprOpEq e1 e2)
  then show ?thesis using evalEq_good [OF assms(1-3), of e1 e2 "\<lambda>b. b"] assms(4) by (simp add: evalExpr_def)
next
  case (ExprOpNEq e1 e2)
  then show ?thesis using evalEq_good [OF assms(1-3), of e1 e2 Not] assms(4) by (simp add: evalExpr_def)
qed (use assms(4) in \<open>auto simp: evalExpr_def intro!: evalCall_good [OF assms(1-3)] evalIf_good [OF assms(1-3)] evalAssert_good [OF assms(1-3)]
    evalNot_good [OF assms(1-3)] evalShortCircuit_good [OF assms(1-3)] evalUpdate_good [OF assms(1-3)] evalConcatLists_good [OF assms(1-3)]
    evalConcatStrings_good [OF assms(1-3)]\<close>)

lemma step_good:
  assumes "mem_ok C {} m" and "task_ok C m t"
  shows "good C (length (envs m)) m (step C run t) (value_ok C {})"
proof (cases t)
  case (TEval env e)
  then have "env_at m env (env_frames (envs m) env)" using assms(2) by (simp add: env_at_def)
  then show ?thesis using evalExpr_good [OF assms(1) order_refl] assms(2) TEval by (simp add: step_def)
next
  case (TEq v w)
  have "good C (length (envs m)) m (eqValues C run v w) (\<lambda>m' b. True)" by (rule eqValues_good [OF assms(1)]) (use assms(2) TEq in auto)
  then have "good C (length (envs m)) m (bind_ev (eqValues C run v w) (\<lambda>b. ret (VBool b))) (value_ok C {})"
    by (rule good_bind) (auto intro!: good_ret dest: ext_length)
  then show ?thesis using TEq by (simp add: step_def)
next
  case (TLess v w)
  have "good C (length (envs m)) m (compareValues C run v w) (\<lambda>m' b. True)" by (rule compareValues_good [OF assms(1)]) (use assms(2) TLess in auto)
  then have "good C (length (envs m)) m (bind_ev (compareValues C run v w) (\<lambda>b. ret (VBool b))) (value_ok C {})"
    by (rule good_bind) (auto intro!: good_ret dest: ext_length)
  then show ?thesis using TLess by (simp add: step_def)
next
  case (TCoerce v c mode copy canon)
  have "good C (length (envs m)) m (coerceToString C run v c mode copy canon) (\<lambda>m' b. True)" by (rule coerceToString_good [OF assms(1)]) (use assms(2) TCoerce in auto)
  then have "good C (length (envs m)) m (bind_ev (coerceToString C run v c mode copy canon) (\<lambda>(s, c). ret (VString s c))) (value_ok C {})"
    by (rule good_bind) (auto intro!: good_ret dest: ext_length split: prod.splits)
  then show ?thesis using TCoerce by (simp add: step_def)
qed (use assms forceValue_good callFunction_good callLoop_good autoCallFunction_good in \<open>auto simp: step_def\<close>)

lemma step_keeps_ok: "runner_ok C (step C run)"
  using step_good by (simp add: runner_ok_def)

end

section \<open>Evaluation is safe\<close>

lemma run_ev_ok: "ctx_ok C \<Longrightarrow> runner_ok C (run_ev C n)"
proof (induction n)
  case 0
  then show ?case by (simp add: runner_ok_def good_def)
next
  case (Suc n)
  then have "evaluator C (run_ev C n)" by (simp add: evaluator_def task_runner_def evaluator_axioms_def)
  from evaluator.step_keeps_ok [OF this] show ?case by (simp add: runner_ok_def)
qed

lemma run_ev_good:
  "ctx_ok C \<Longrightarrow> mem_ok C {} m \<Longrightarrow> task_ok C m t \<Longrightarrow> run_ev C n t m = Some (r, m') \<Longrightarrow>
   mem_ok C {} m' \<and> ext (length (envs m)) m m' \<and> (case r of Inl e \<Rightarrow> safe_error e | Inr v \<Rightarrow> value_ok C {} m' v)"
  using run_ev_ok [of C n] by (auto simp: runner_ok_def good_def)

end
