(* ===== verification/Lix_Primops.thy ===== *)
theory Lix_Primops
  imports Lix_Eval_Safety Lix_Names
begin

text \<open>
  Builtins of the language (\<^verbatim>\<open>libexpr/primops.cc\<close>) that neither read files nor touch the store, the table that the evaluator finds
  them in, and that they keep memory well formed: with them the evaluator is safe. Those that only change the message of an
  exception and those that need a file system, regular expressions, JSON or XML are left out.
\<close>

section \<open>Types\<close>

text \<open>A value that is forced and shortened, with its type.\<close>

definition forcedType :: "runner \<Rightarrow> val \<Rightarrow> (ValueType \<times> val) ev" where
  "forcedType run v =
     bind_ev (run (TForce v)) (\<lambda>v. bind_ev (valueType v) (\<lambda>t. bind_ev (shortcut v) (\<lambda>w. ret (t, w))))"

definition prim_typeOf :: "runner \<Rightarrow> val list \<Rightarrow> val ev" where
  "prim_typeOf run args =
     bind_ev (forcedType run (args ! 0)) (\<lambda>(t, w).
       case t of
         nInt \<Rightarrow> ret (VString ''int'' {}) | nBool \<Rightarrow> ret (VString ''bool'' {}) | nString \<Rightarrow> ret (VString ''string'' {})
       | nPath \<Rightarrow> ret (VString ''path'' {}) | nNull \<Rightarrow> ret (VString ''null'' {}) | nAttrs \<Rightarrow> ret (VString ''set'' {})
       | nList \<Rightarrow> ret (VString ''list'' {}) | nFunction \<Rightarrow> ret (VString ''lambda'' {}) | nFloat \<Rightarrow> ret (VString ''float'' {})
       | nThunk \<Rightarrow> throw (AssertionFailed ''abort''))"

definition prim_isType :: "ValueType \<Rightarrow> runner \<Rightarrow> val list \<Rightarrow> val ev" where
  "prim_isType t run args = bind_ev (forcedType run (args ! 0)) (\<lambda>(t', w). ret (VBool (t' = t)))"

section \<open>Control\<close>

definition prim_abort :: "runner \<Rightarrow> val list \<Rightarrow> val ev" where
  "prim_abort run args = bind_ev (coerceTo run (args ! 0) {} Strict True True) (\<lambda>(s, c). throw (Abort s))"

definition prim_throw :: "runner \<Rightarrow> val list \<Rightarrow> val ev" where
  "prim_throw run args = bind_ev (coerceTo run (args ! 0) {} Strict True True) (\<lambda>(s, c). throw (ThrownError s))"

text \<open>Only a failed assertion, and \<^verbatim>\<open>throw\<close>, whose exception is one too, is caught.\<close>

definition isAssertionError :: "error \<Rightarrow> bool" where
  "isAssertionError e = (case e of AssertionError s \<Rightarrow> True | ThrownError s \<Rightarrow> True | _ \<Rightarrow> False)"

definition catchAssertion :: "'a ev \<Rightarrow> 'a option ev" where
  "catchAssertion f m =
     (case f m of
        None \<Rightarrow> None
      | Some (Inr x, m') \<Rightarrow> Some (Inr (Some x), m')
      | Some (Inl e, m') \<Rightarrow> Some (if isAssertionError e then Inr None else Inl e, m'))"

definition prim_tryEval :: "runner \<Rightarrow> val list \<Rightarrow> val ev" where
  "prim_tryEval run args =
     bind_ev (allocBindings 2) (\<lambda>obj.
     bind_ev (catchAssertion (run (TForce (args ! 0)))) (\<lambda>r.
     bind_ev (createSymbol ''success'') (\<lambda>success.
       ret (VAttrs obj (sort_bindings
         [(sym_value, case r of Some v \<Rightarrow> v | None \<Rightarrow> VBool False), (success, VBool (r \<noteq> None))])))))"

definition prim_seq :: "runner \<Rightarrow> val list \<Rightarrow> val ev" where
  "prim_seq run args = bind_ev (run (TForce (args ! 0))) (\<lambda>v. run (TForce (args ! 1)))"

definition prim_second :: "runner \<Rightarrow> val list \<Rightarrow> val ev" where
  "prim_second run args = run (TForce (args ! 1))"

section \<open>Sets\<close>

definition symbolString :: "Symbol \<Rightarrow> string ev" where
  "symbolString s m = lift_ev (sym_string (symtab m) s) m"

text \<open>The attributes with their names as strings, in the order of these strings; the names are distinct.\<close>

definition lexicographicOrder :: "Bindings \<Rightarrow> (string \<times> val) list ev" where
  "lexicographicOrder as =
     bind_ev (map_ev (\<lambda>x. bind_ev (symbolString (fst x)) (\<lambda>s. ret (s, snd x))) as) (\<lambda>xs. ret (sort_key fst xs))"

definition prim_attrNames :: "runner \<Rightarrow> val list \<Rightarrow> val ev" where
  "prim_attrNames run args =
     bind_ev (forceAttrs run (args ! 0)) (\<lambda>(i, as). bind_ev newObject (\<lambda>obj.
     bind_ev (lexicographicOrder as) (\<lambda>xs. ret (VList obj (map (\<lambda>x. VString (fst x) {}) xs)))))"

definition prim_attrValues :: "runner \<Rightarrow> val list \<Rightarrow> val ev" where
  "prim_attrValues run args =
     bind_ev (forceAttrs run (args ! 0)) (\<lambda>(i, as). bind_ev newObject (\<lambda>obj.
     bind_ev (lexicographicOrder as) (\<lambda>xs. ret (VList obj (map snd xs)))))"

definition getAttr :: "Symbol \<Rightarrow> Bindings \<Rightarrow> val ev" where
  "getAttr s as = (case bindings_get s as of Some v \<Rightarrow> ret v | None \<Rightarrow> throw (TypeError ''attribute '%s' missing''))"

definition prim_getAttr :: "runner \<Rightarrow> val list \<Rightarrow> val ev" where
  "prim_getAttr run args =
     bind_ev (forceStringNoCtx run (args ! 0)) (\<lambda>s. bind_ev (forceAttrs run (args ! 1)) (\<lambda>(i, as).
     bind_ev (createSymbol s) (\<lambda>name. bind_ev (getAttr name as) (\<lambda>v. run (TForce v)))))"

definition prim_hasAttr :: "runner \<Rightarrow> val list \<Rightarrow> val ev" where
  "prim_hasAttr run args =
     bind_ev (forceStringNoCtx run (args ! 0)) (\<lambda>s. bind_ev (forceAttrs run (args ! 1)) (\<lambda>(i, as).
     bind_ev (createSymbol s) (\<lambda>name. ret (VBool (bindings_get name as \<noteq> None)))))"

text \<open>\<^verbatim>\<open>std::set_difference\<close> of a set and sorted names.\<close>

fun set_difference :: "Bindings \<Rightarrow> Symbol list \<Rightarrow> Bindings" where
  "set_difference [] ns = []"
| "set_difference as [] = as"
| "set_difference (a # as) (n # ns) =
     (if fst a < n then a # set_difference as (n # ns)
      else if n < fst a then set_difference (a # as) ns
      else set_difference as ns)"

definition prim_removeAttrs :: "runner \<Rightarrow> val list \<Rightarrow> val ev" where
  "prim_removeAttrs run args =
     bind_ev (forceAttrs run (args ! 0)) (\<lambda>(i, as). bind_ev (forceList run (args ! 1)) (\<lambda>(j, xs).
     bind_ev (map_ev (\<lambda>x. bind_ev (forceStringNoCtx run x) createSymbol) xs) (\<lambda>names.
     bind_ev (allocBindings (length as)) (\<lambda>obj. ret (VAttrs obj (set_difference as (sort names)))))))"

fun listToAttrs_loop :: "runner \<Rightarrow> val list \<Rightarrow> Symbol list \<Rightarrow> Bindings ev" where
  "listToAttrs_loop run [] seen = ret []"
| "listToAttrs_loop run (x # xs) seen =
     bind_ev (forceAttrs run x) (\<lambda>(i, as). bind_ev (getAttr sym_name as) (\<lambda>v.
     bind_ev (forceStringNoCtx run v) (\<lambda>s. bind_ev (createSymbol s) (\<lambda>name.
       if name \<in> set seen then listToAttrs_loop run xs seen
       else bind_ev (getAttr sym_value as) (\<lambda>w.
            bind_ev (listToAttrs_loop run xs (name # seen)) (\<lambda>rest. ret ((name, w) # rest)))))))"

definition prim_listToAttrs :: "runner \<Rightarrow> val list \<Rightarrow> val ev" where
  "prim_listToAttrs run args =
     bind_ev (forceList run (args ! 0)) (\<lambda>(i, xs). bind_ev (allocBindings (length xs)) (\<lambda>obj.
     bind_ev (listToAttrs_loop run xs []) (\<lambda>as. ret (VAttrs obj (sort_bindings as)))))"

definition intersect :: "Bindings \<Rightarrow> Bindings \<Rightarrow> Bindings" where
  "intersect left right =
     (if length left < length right
      then List.map_filter (\<lambda>l. map_option (\<lambda>v. (fst l, v)) (bindings_get (fst l) right)) left
      else filter (\<lambda>r. bindings_get (fst r) left \<noteq> None) right)"

definition prim_intersectAttrs :: "runner \<Rightarrow> val list \<Rightarrow> val ev" where
  "prim_intersectAttrs run args =
     bind_ev (forceAttrs run (args ! 0)) (\<lambda>(i, as). bind_ev (forceAttrs run (args ! 1)) (\<lambda>(j, bs).
     bind_ev (allocBindings (min (length as) (length bs))) (\<lambda>obj. ret (VAttrs obj (intersect as bs)))))"

fun catAttrs_loop :: "runner \<Rightarrow> Symbol \<Rightarrow> val list \<Rightarrow> val list ev" where
  "catAttrs_loop run name [] = ret []"
| "catAttrs_loop run name (x # xs) =
     bind_ev (forceAttrs run x) (\<lambda>(i, as). bind_ev (catAttrs_loop run name xs) (\<lambda>rest.
       ret (case bindings_get name as of Some v \<Rightarrow> v # rest | None \<Rightarrow> rest)))"

definition prim_catAttrs :: "runner \<Rightarrow> val list \<Rightarrow> val ev" where
  "prim_catAttrs run args =
     bind_ev (forceStringNoCtx run (args ! 0)) (\<lambda>s. bind_ev (createSymbol s) (\<lambda>name.
     bind_ev (forceList run (args ! 1)) (\<lambda>(i, xs). bind_ev (catAttrs_loop run name xs) (\<lambda>vs.
     bind_ev newObject (\<lambda>obj. ret (VList obj vs))))))"

definition isPrimOpApp :: "val \<Rightarrow> bool ev" where
  "isPrimOpApp v m =
     (case v of
        VApp a \<Rightarrow>
          (if a < length (apps m)
           then (case apps m ! a of
                   Pending left args \<Rightarrow> bind_ev (target left) (\<lambda>t. ret (isPrimOp t)) m
                 | AppResolved r \<Rightarrow> ret False m)
           else undefined_behaviour m)
      | _ \<Rightarrow> ret False m)"

definition prim_functionArgs :: "runner \<Rightarrow> val list \<Rightarrow> val ev" where
  "prim_functionArgs run args =
     bind_ev (run (TForce (args ! 0))) (\<lambda>v. bind_ev (isPrimOpApp v) (\<lambda>b.
       if b \<or> isPrimOp v then ret (VAttrs emptyObj [])
       else case v of
              VLambda i env (SimplePattern name) body \<Rightarrow> ret (VAttrs emptyObj [])
            | VLambda i env (AttrsPattern name fs ellipsis) body \<Rightarrow>
                bind_ev (allocBindings (length fs)) (\<lambda>obj.
                  ret (VAttrs obj (sort_bindings (map (\<lambda>f. (formal_name f, VBool (formal_def f \<noteq> None))) fs))))
            | _ \<Rightarrow> throw (TypeError ''functionArgs requires a function'')))"

definition prim_mapAttrs :: "runner \<Rightarrow> val list \<Rightarrow> val ev" where
  "prim_mapAttrs run args =
     bind_ev (forceAttrs run (args ! 1)) (\<lambda>(i, as). bind_ev (allocBindings (length as)) (\<lambda>obj.
     bind_ev (map_ev (\<lambda>x. bind_ev (symbolString (fst x)) (\<lambda>s. newApp (args ! 0) [VString s {}, snd x])) as) (\<lambda>vs.
       ret (VAttrs obj (zip (map fst as) vs)))))"

definition groups :: "(Symbol \<times> val) list \<Rightarrow> (Symbol \<times> val list) list" where
  "groups ps = map (\<lambda>s. (s, map snd (filter (\<lambda>p. fst p = s) ps))) (remdups (sort (map fst ps)))"

definition zipEntry :: "val \<Rightarrow> Symbol \<times> val list \<Rightarrow> val ev" where
  "zipEntry f g =
     bind_ev newObject (\<lambda>content. bind_ev (symbolString (fst g)) (\<lambda>name. newApp f [VString name {}, VList content (snd g)]))"

definition prim_zipAttrsWith :: "runner \<Rightarrow> val list \<Rightarrow> val ev" where
  "prim_zipAttrsWith run args =
     bind_ev (forceFunction run (args ! 0)) (\<lambda>f. bind_ev (forceList run (args ! 1)) (\<lambda>(i, xs).
     bind_ev (map_ev (forceAttrs run) xs) (\<lambda>ss.
       let gs = groups (concat (map snd ss))
       in bind_ev (allocBindings (length gs)) (\<lambda>obj.
          bind_ev (map_ev (zipEntry f) gs) (\<lambda>vs. ret (VAttrs obj (zip (map fst gs) vs)))))))"

section \<open>Lists\<close>

definition elemAt :: "runner \<Rightarrow> val \<Rightarrow> int \<Rightarrow> val ev" where
  "elemAt run list n =
     bind_ev (forceList run list) (\<lambda>(i, xs).
       if n < 0 \<or> n \<ge> int (length xs) then throw (EvalError ''list index %1% is out of bounds'')
       else run (TForce (xs ! nat n)))"

definition prim_elemAt :: "runner \<Rightarrow> val list \<Rightarrow> val ev" where
  "prim_elemAt run args = bind_ev (forceInt run (args ! 1)) (\<lambda>n. elemAt run (args ! 0) (sint n))"

definition prim_head :: "runner \<Rightarrow> val list \<Rightarrow> val ev" where
  "prim_head run args = elemAt run (args ! 0) 0"

definition prim_tail :: "runner \<Rightarrow> val list \<Rightarrow> val ev" where
  "prim_tail run args =
     bind_ev (forceList run (args ! 0)) (\<lambda>(i, xs).
       if xs = [] then throw (EvalError ''tail called on an empty list'')
       else bind_ev newObject (\<lambda>obj. ret (VList obj (tl xs))))"

definition prim_map :: "runner \<Rightarrow> val list \<Rightarrow> val ev" where
  "prim_map run args =
     bind_ev (forceList run (args ! 1)) (\<lambda>(i, xs).
       if xs = [] then ret (VList i xs)
       else bind_ev (forceFunction run (args ! 0)) (\<lambda>f. bind_ev newObject (\<lambda>obj.
            bind_ev (map_ev (\<lambda>x. newApp f [x]) xs) (\<lambda>vs. ret (VList obj vs)))))"

fun filter_loop :: "runner \<Rightarrow> val \<Rightarrow> val list \<Rightarrow> val list ev" where
  "filter_loop run f [] = ret []"
| "filter_loop run f (x # xs) =
     bind_ev (run (TCall f [x])) (\<lambda>res. bind_ev (forceBool run res) (\<lambda>b.
     bind_ev (filter_loop run f xs) (\<lambda>vs. ret (if b then x # vs else vs))))"

definition prim_filter :: "runner \<Rightarrow> val list \<Rightarrow> val ev" where
  "prim_filter run args =
     bind_ev (forceList run (args ! 1)) (\<lambda>(i, xs).
       if xs = [] then ret (VList i xs)
       else bind_ev (forceFunction run (args ! 0)) (\<lambda>f. bind_ev (filter_loop run f xs) (\<lambda>vs.
            if length vs = length xs then ret (VList i xs) else bind_ev newObject (\<lambda>obj. ret (VList obj vs)))))"

fun elem_loop :: "runner \<Rightarrow> val \<Rightarrow> val list \<Rightarrow> bool ev" where
  "elem_loop run v [] = ret False"
| "elem_loop run v (x # xs) = bind_ev (runEq run v x) (\<lambda>b. if b then ret True else elem_loop run v xs)"

definition prim_elem :: "runner \<Rightarrow> val list \<Rightarrow> val ev" where
  "prim_elem run args =
     bind_ev (forceList run (args ! 1)) (\<lambda>(i, xs). bind_ev (elem_loop run (args ! 0) xs) (\<lambda>b. ret (VBool b)))"

definition concatLists :: "runner \<Rightarrow> val list \<Rightarrow> val ev" where
  "concatLists run xss =
     bind_ev (map_ev (forceList run) xss) (\<lambda>ls.
       let len = length (concat (map snd ls)); nonEmpty = filter (\<lambda>l. snd l \<noteq> []) ls
       in if nonEmpty \<noteq> [] \<and> len = length (snd (last nonEmpty)) then ret (VList (fst (last nonEmpty)) (snd (last nonEmpty)))
          else bind_ev newObject (\<lambda>obj. ret (VList obj (concat (map snd ls)))))"

definition prim_concatLists :: "runner \<Rightarrow> val list \<Rightarrow> val ev" where
  "prim_concatLists run args = bind_ev (forceList run (args ! 0)) (\<lambda>(i, xs). concatLists run xs)"

definition prim_length :: "runner \<Rightarrow> val list \<Rightarrow> val ev" where
  "prim_length run args = bind_ev (forceList run (args ! 0)) (\<lambda>(i, xs). ret (VInt (of_nat (length xs))))"

fun foldl_loop :: "runner \<Rightarrow> val \<Rightarrow> val \<Rightarrow> val list \<Rightarrow> val ev" where
  "foldl_loop run f vCur [] = run (TForce vCur)"
| "foldl_loop run f vCur (x # xs) = bind_ev (run (TCall f [vCur, x])) (\<lambda>v. foldl_loop run f v xs)"

definition prim_foldlStrict :: "runner \<Rightarrow> val list \<Rightarrow> val ev" where
  "prim_foldlStrict run args =
     bind_ev (forceFunction run (args ! 0)) (\<lambda>f. bind_ev (forceList run (args ! 2)) (\<lambda>(i, xs). foldl_loop run f (args ! 1) xs))"

fun anyOrAll_loop :: "bool \<Rightarrow> runner \<Rightarrow> val \<Rightarrow> val list \<Rightarrow> val ev" where
  "anyOrAll_loop any run f [] = ret (VBool (\<not> any))"
| "anyOrAll_loop any run f (x # xs) =
     bind_ev (run (TCall f [x])) (\<lambda>vTmp. bind_ev (forceBool run vTmp) (\<lambda>res.
       if res = any then ret (VBool any) else anyOrAll_loop any run f xs))"

definition anyOrAll :: "bool \<Rightarrow> runner \<Rightarrow> val list \<Rightarrow> val ev" where
  "anyOrAll any run args =
     bind_ev (forceFunction run (args ! 0)) (\<lambda>f. bind_ev (forceList run (args ! 1)) (\<lambda>(i, xs). anyOrAll_loop any run f xs))"

definition prim_genList :: "runner \<Rightarrow> val list \<Rightarrow> val ev" where
  "prim_genList run args =
     bind_ev (forceInt run (args ! 1)) (\<lambda>len.
       if sint len < 0 then throw (EvalError ''cannot create list of size %1%'')
       else bind_ev (forceFunction run (args ! 0)) (\<lambda>f. bind_ev newObject (\<lambda>obj.
            bind_ev (map_ev (\<lambda>n. newApp f [VInt (of_nat n)]) [0..<nat (sint len)]) (\<lambda>vs. ret (VList obj vs)))))"

fun partition_loop :: "runner \<Rightarrow> val \<Rightarrow> val list \<Rightarrow> (val list \<times> val list) ev" where
  "partition_loop run f [] = ret ([], [])"
| "partition_loop run f (x # xs) =
     bind_ev (run (TForce x)) (\<lambda>v. bind_ev (run (TCall f [v])) (\<lambda>res. bind_ev (forceBool run res) (\<lambda>b.
     bind_ev (partition_loop run f xs) (\<lambda>(right, wrong). ret (if b then (v # right, wrong) else (right, v # wrong))))))"

definition prim_partition :: "runner \<Rightarrow> val list \<Rightarrow> val ev" where
  "prim_partition run args =
     bind_ev (forceFunction run (args ! 0)) (\<lambda>f. bind_ev (forceList run (args ! 1)) (\<lambda>(i, xs).
     bind_ev (partition_loop run f xs) (\<lambda>(right, wrong). bind_ev (allocBindings 2) (\<lambda>obj.
     bind_ev newObject (\<lambda>rlist. bind_ev newObject (\<lambda>wlist.
       ret (VAttrs obj (sort_bindings [(sym_right, VList rlist right), (sym_wrong, VList wlist wrong)]))))))))"

fun groupBy_loop :: "runner \<Rightarrow> val \<Rightarrow> val list \<Rightarrow> (Symbol \<times> val) list ev" where
  "groupBy_loop run f [] = ret []"
| "groupBy_loop run f (x # xs) =
     bind_ev (run (TCall f [x])) (\<lambda>res. bind_ev (forceStringNoCtx run res) (\<lambda>name. bind_ev (createSymbol name) (\<lambda>sym.
     bind_ev (groupBy_loop run f xs) (\<lambda>ps. ret ((sym, x) # ps)))))"

definition prim_groupBy :: "runner \<Rightarrow> val list \<Rightarrow> val ev" where
  "prim_groupBy run args =
     bind_ev (forceFunction run (args ! 0)) (\<lambda>f. bind_ev (forceList run (args ! 1)) (\<lambda>(i, xs).
     bind_ev (groupBy_loop run f xs) (\<lambda>ps.
       let gs = groups ps
       in bind_ev (allocBindings (length gs)) (\<lambda>obj.
          bind_ev (map_ev (\<lambda>g. bind_ev newObject (\<lambda>content. ret (VList content (snd g)))) gs) (\<lambda>vs.
            ret (VAttrs obj (zip (map fst gs) vs)))))))"

text \<open>
  The code counts the elements of the result in an \<^verbatim>\<open>unsigned int\<close>, which would wrap at a result of two to the power of 32
  elements; the lists here have any length.
\<close>

definition prim_concatMap :: "runner \<Rightarrow> val list \<Rightarrow> val ev" where
  "prim_concatMap run args =
     bind_ev (forceFunction run (args ! 0)) (\<lambda>f. bind_ev (forceList run (args ! 1)) (\<lambda>(i, xs).
     bind_ev (map_ev (\<lambda>x. bind_ev (run (TCall f [x])) (forceList run)) xs) (\<lambda>ls.
     bind_ev newObject (\<lambda>obj. ret (VList obj (concat (map snd ls)))))))"

section \<open>Arithmetic\<close>

definition arithmetic :: "Ctx \<Rightarrow> (64 word \<Rightarrow> 64 word \<Rightarrow> 64 word) \<Rightarrow> (64 word \<Rightarrow> 64 word \<Rightarrow> CheckedResult) \<Rightarrow> runner \<Rightarrow> val list \<Rightarrow> val ev" where
  "arithmetic C fop iop run args =
     bind_ev (run (TForce (args ! 0))) (\<lambda>v1. bind_ev (run (TForce (args ! 1))) (\<lambda>v2.
     bind_ev (valueType v1) (\<lambda>t1. bind_ev (valueType v2) (\<lambda>t2.
       if t1 = nFloat \<or> t2 = nFloat
       then bind_ev (forceFloat C run v1) (\<lambda>x. bind_ev (forceFloat C run v2) (\<lambda>y. ret (VFloat (fop x y))))
       else bind_ev (forceInt run v1) (\<lambda>i1. bind_ev (forceInt run v2) (\<lambda>i2.
              case valueChecked (iop i1 i2) of
                Some r \<Rightarrow> ret (VInt r)
              | None \<Rightarrow> throw (EvalError ''integer overflow''))))))) "

definition prim_add :: "Ctx \<Rightarrow> runner \<Rightarrow> val list \<Rightarrow> val ev" where
  "prim_add C = arithmetic C (float_add C) checked_add"

definition prim_sub :: "Ctx \<Rightarrow> runner \<Rightarrow> val list \<Rightarrow> val ev" where
  "prim_sub C = arithmetic C (float_sub C) checked_sub"

definition prim_mul :: "Ctx \<Rightarrow> runner \<Rightarrow> val list \<Rightarrow> val ev" where
  "prim_mul C = arithmetic C (float_mul C) checked_mul"

text \<open>The bits of the floating-point number zero are all zero.\<close>

definition prim_div :: "Ctx \<Rightarrow> runner \<Rightarrow> val list \<Rightarrow> val ev" where
  "prim_div C run args =
     bind_ev (run (TForce (args ! 0))) (\<lambda>v1. bind_ev (run (TForce (args ! 1))) (\<lambda>v2.
     bind_ev (forceFloat C run v2) (\<lambda>f2.
       if float_eq C f2 0 then throw (EvalError ''division by zero'')
       else bind_ev (valueType v1) (\<lambda>t1. bind_ev (valueType v2) (\<lambda>t2.
              if t1 = nFloat \<or> t2 = nFloat then bind_ev (forceFloat C run v1) (\<lambda>x. ret (VFloat (float_div C x f2)))
              else bind_ev (forceInt run v1) (\<lambda>i1. bind_ev (forceInt run v2) (\<lambda>i2.
                     case valueChecked (checked_div i1 i2) of
                       Some r \<Rightarrow> ret (VInt r)
                     | None \<Rightarrow> throw (EvalError ''integer overflow in dividing %1% / %2%''))))))))"

definition bitwise :: "(64 word \<Rightarrow> 64 word \<Rightarrow> 64 word) \<Rightarrow> runner \<Rightarrow> val list \<Rightarrow> val ev" where
  "bitwise f run args =
     bind_ev (forceInt run (args ! 0)) (\<lambda>i1. bind_ev (forceInt run (args ! 1)) (\<lambda>i2. ret (VInt (f i1 i2))))"

definition prim_bitAnd :: "runner \<Rightarrow> val list \<Rightarrow> val ev" where
  "prim_bitAnd = bitwise (\<lambda>i j. and i j)"

definition prim_bitOr :: "runner \<Rightarrow> val list \<Rightarrow> val ev" where
  "prim_bitOr = bitwise (\<lambda>i j. or i j)"

definition prim_bitXor :: "runner \<Rightarrow> val list \<Rightarrow> val ev" where
  "prim_bitXor = bitwise (\<lambda>i j. xor i j)"

definition prim_lessThan :: "Ctx \<Rightarrow> runner \<Rightarrow> val list \<Rightarrow> val ev" where
  "prim_lessThan C run args =
     bind_ev (run (TForce (args ! 0))) (\<lambda>v1. bind_ev (run (TForce (args ! 1))) (\<lambda>v2.
     bind_ev (compareValues C run v1 v2) (\<lambda>b. ret (VBool b))))"

section \<open>Strings\<close>

definition prim_toString :: "runner \<Rightarrow> val list \<Rightarrow> val ev" where
  "prim_toString run args = bind_ev (coerceTo run (args ! 0) {} ToString False True) (\<lambda>(s, c). ret (VString s c))"

definition substr :: "string \<Rightarrow> int \<Rightarrow> int \<Rightarrow> string" where
  "substr s start len =
     (if start \<ge> int (length s) then []
      else let rest = drop (nat start) s in if len \<ge> 0 then take (min (length s) (nat len)) rest else rest)"

definition substringOf :: "runner \<Rightarrow> int \<Rightarrow> int \<Rightarrow> val \<Rightarrow> val ev" where
  "substringOf run start len v = bind_ev (coerceTo run v {} Strict True True) (\<lambda>(s, c). ret (VString (substr s start len) c))"

definition prim_substring :: "runner \<Rightarrow> val list \<Rightarrow> val ev" where
  "prim_substring run args =
     bind_ev (forceInt run (args ! 0)) (\<lambda>start.
       if sint start < 0 then throw (EvalError ''negative start position in substring'')
       else bind_ev (forceInt run (args ! 1)) (\<lambda>len.
            if len = 0
            then bind_ev (run (TForce (args ! 2))) (\<lambda>v. bind_ev (shortcut v) (\<lambda>w.
                   case w of VString s c \<Rightarrow> ret (VString [] c) | _ \<Rightarrow> substringOf run (sint start) (sint len) w))
            else substringOf run (sint start) (sint len) (args ! 2)))"

definition prim_stringLength :: "runner \<Rightarrow> val list \<Rightarrow> val ev" where
  "prim_stringLength run args = bind_ev (coerceTo run (args ! 0) {} Strict True True) (\<lambda>(s, c). ret (VInt (of_nat (length s))))"

fun concatSep_loop :: "runner \<Rightarrow> string \<Rightarrow> bool \<Rightarrow> string set \<Rightarrow> val list \<Rightarrow> (string \<times> string set) ev" where
  "concatSep_loop run sep first c [] = ret ([], c)"
| "concatSep_loop run sep first c (x # xs) =
     bind_ev (coerceTo run x c Strict True True) (\<lambda>(s, c). bind_ev (concatSep_loop run sep False c xs) (\<lambda>(res, c).
       ret ((if first then [] else sep) @ s @ res, c)))"

definition prim_concatStringsSep :: "runner \<Rightarrow> val list \<Rightarrow> val ev" where
  "prim_concatStringsSep run args =
     bind_ev (forceString run (args ! 0)) (\<lambda>(sep, c). bind_ev (forceList run (args ! 1)) (\<lambda>(i, xs).
     bind_ev (concatSep_loop run sep True c xs) (\<lambda>(res, c). ret (VString res c))))"

text \<open>
  The loop runs once more after the last character, for an empty string to replace. The rest of the string stands for the
  position; \<open>cache\<close> has the replacements that were evaluated.
\<close>

definition firstMatch :: "string list \<Rightarrow> string \<Rightarrow> nat option" where
  "firstMatch from s = (case dropWhile (\<lambda>i. take (length (from ! i)) s \<noteq> from ! i) [0..<length from] of [] \<Rightarrow> None | i # is \<Rightarrow> Some i)"

lemma firstMatch_take: "firstMatch xs s = Some i \<Longrightarrow> i < length xs \<and> take (length (xs ! i)) s = xs ! i"
proof -
  assume "firstMatch xs s = Some i"
  then obtain js where d: "dropWhile (\<lambda>i. take (length (xs ! i)) s \<noteq> xs ! i) [0..<length xs] = i # js"
    by (auto simp: firstMatch_def split: list.splits)
  then have "i \<in> set [0..<length xs]" by (metis list.set_intros(1) set_dropWhileD)
  moreover have "take (length (xs ! i)) s = xs ! i" using d by (metis (mono_tags, lifting) dropWhile_eq_Cons_conv)
  ultimately show ?thesis by simp
qed

definition replacement :: "runner \<Rightarrow> val list \<Rightarrow> (nat \<rightharpoonup> string) \<Rightarrow> nat \<Rightarrow> string set \<Rightarrow> (string \<times> (nat \<rightharpoonup> string) \<times> string set) ev" where
  "replacement run to cache i c =
     (case cache i of
        Some t \<Rightarrow> ret (t, cache, c)
      | None \<Rightarrow> bind_ev (forceString run (to ! i)) (\<lambda>(t, ctx). ret (t, cache(i \<mapsto> t), c \<union> ctx)))"

function replace_loop :: "runner \<Rightarrow> string list \<Rightarrow> val list \<Rightarrow> string \<Rightarrow> (nat \<rightharpoonup> string) \<Rightarrow> string set \<Rightarrow> (string \<times> string set) ev" where
  "replace_loop run from to s cache c =
     (case firstMatch from s of
        Some i \<Rightarrow>
          bind_ev (replacement run to cache i c) (\<lambda>(t, cache', c').
            if from ! i = []
            then (case s of
                    [] \<Rightarrow> ret (t, c')
                  | a # s' \<Rightarrow> bind_ev (replace_loop run from to s' cache' c') (\<lambda>(res, c''). ret (t @ a # res, c'')))
            else bind_ev (replace_loop run from to (drop (length (from ! i)) s) cache' c') (\<lambda>(res, c''). ret (t @ res, c'')))
      | None \<Rightarrow>
          (case s of
             [] \<Rightarrow> ret ([], c)
           | a # s' \<Rightarrow> bind_ev (replace_loop run from to s' cache c) (\<lambda>(res, c''). ret (a # res, c''))))"
  by pat_completeness auto
termination
proof (relation "measure (\<lambda>(run, from, to, s, cache, c). length s)", goal_cases)
  case (4 run "from" to s cache c i)
  then have "take (length (from ! i)) s = from ! i" "from ! i \<noteq> []" using firstMatch_take by auto
  then have "s \<noteq> []" "0 < length (from ! i)" by auto
  then show ?case by (cases s) auto
qed auto

declare replace_loop.simps [simp del]

definition prim_replaceStrings :: "runner \<Rightarrow> val list \<Rightarrow> val ev" where
  "prim_replaceStrings run args =
     bind_ev (forceList run (args ! 0)) (\<lambda>(i, xs). bind_ev (forceList run (args ! 1)) (\<lambda>(j, ys).
       if length xs \<noteq> length ys then throw (EvalError ''arguments passed to builtins.replaceStrings have different lengths'')
       else bind_ev (map_ev (\<lambda>x. bind_ev (forceString run x) (\<lambda>(s, c). ret s)) xs) (\<lambda>from.
            bind_ev (forceString run (args ! 2)) (\<lambda>(s, c).
            bind_ev (replace_loop run from ys s (\<lambda>_. None) c) (\<lambda>(res, c). ret (VString res c))))))"

definition prim_unsafeDiscardStringContext :: "runner \<Rightarrow> val list \<Rightarrow> val ev" where
  "prim_unsafeDiscardStringContext run args = bind_ev (coerceTo run (args ! 0) {} Strict True True) (\<lambda>(s, c). ret (VString s {}))"

definition prim_hasContext :: "runner \<Rightarrow> val list \<Rightarrow> val ev" where
  "prim_hasContext run args = bind_ev (forceString run (args ! 0)) (\<lambda>(s, c). ret (VBool (c \<noteq> {})))"

section \<open>Versions\<close>

definition prim_parseDrvName :: "runner \<Rightarrow> val list \<Rightarrow> val ev" where
  "prim_parseDrvName run args =
     bind_ev (forceStringNoCtx run (args ! 0)) (\<lambda>name. bind_ev (allocBindings 2) (\<lambda>obj.
     bind_ev (createSymbol ''version'') (\<lambda>v.
       let parsed = newDrvName name
       in ret (VAttrs obj (sort_bindings [(sym_name, VString (drv_name parsed) {}), (v, VString (version parsed) {})])))))"

definition prim_compareVersions :: "(string \<Rightarrow> int option) \<Rightarrow> runner \<Rightarrow> val list \<Rightarrow> val ev" where
  "prim_compareVersions toInt run args =
     bind_ev (forceStringNoCtx run (args ! 0)) (\<lambda>version1. bind_ev (forceStringNoCtx run (args ! 1)) (\<lambda>version2.
       ret (VInt (case compareVersions toInt version1 version2 of Less \<Rightarrow> - 1 | Greater \<Rightarrow> 1 | Equal \<Rightarrow> 0))))"

function versionComponents :: "string \<Rightarrow> string list" where
  "versionComponents s =
     (if s = [] then []
      else let component = fst (nextComponent s); rest = snd (nextComponent s)
           in if component = [] then [] else component # versionComponents rest)"
  by pat_completeness auto
termination by (relation "measure length") (auto simp: nextComponent_rest)

declare versionComponents.simps [simp del]

definition prim_splitVersion :: "runner \<Rightarrow> val list \<Rightarrow> val ev" where
  "prim_splitVersion run args =
     bind_ev (forceStringNoCtx run (args ! 0)) (\<lambda>version. bind_ev newObject (\<lambda>obj.
       ret (VList obj (map (\<lambda>component. VString component {}) (versionComponents version)))))"

section \<open>The table of builtins\<close>

text \<open>
  The names and the arities of the builtins that are modelled (\<^verbatim>\<open>foldl\<close> has a prime in the language); \<open>toInt\<close> reads a
  number. The evaluator with them gets what else it is given from \<open>base\<close>.
\<close>

definition builtin_table :: "(string \<Rightarrow> int option) \<Rightarrow> Ctx \<Rightarrow> (string \<times> nat \<times> (runner \<Rightarrow> val list \<Rightarrow> val ev)) list" where
  "builtin_table toInt C =
     [(''typeOf'', 1, prim_typeOf), (''isNull'', 1, prim_isType nNull), (''isFunction'', 1, prim_isType nFunction),
      (''isInt'', 1, prim_isType nInt), (''isFloat'', 1, prim_isType nFloat), (''isString'', 1, prim_isType nString),
      (''isBool'', 1, prim_isType nBool), (''isPath'', 1, prim_isType nPath), (''isAttrs'', 1, prim_isType nAttrs),
      (''isList'', 1, prim_isType nList), (''abort'', 1, prim_abort), (''throw'', 1, prim_throw),
      (''tryEval'', 1, prim_tryEval), (''seq'', 2, prim_seq), (''traceVerbose'', 2, prim_second),
      (''attrNames'', 1, prim_attrNames), (''attrValues'', 1, prim_attrValues), (''getAttr'', 2, prim_getAttr),
      (''hasAttr'', 2, prim_hasAttr), (''removeAttrs'', 2, prim_removeAttrs), (''listToAttrs'', 1, prim_listToAttrs),
      (''intersectAttrs'', 2, prim_intersectAttrs), (''catAttrs'', 2, prim_catAttrs),
      (''functionArgs'', 1, prim_functionArgs), (''mapAttrs'', 2, prim_mapAttrs), (''zipAttrsWith'', 2, prim_zipAttrsWith),
      (''elemAt'', 2, prim_elemAt), (''head'', 1, prim_head), (''tail'', 1, prim_tail), (''map'', 2, prim_map),
      (''filter'', 2, prim_filter), (''elem'', 2, prim_elem), (''concatLists'', 1, prim_concatLists),
      (''length'', 1, prim_length), (''foldl'', 3, prim_foldlStrict), (''any'', 2, anyOrAll True),
      (''all'', 2, anyOrAll False), (''genList'', 2, prim_genList), (''partition'', 2, prim_partition),
      (''groupBy'', 2, prim_groupBy), (''concatMap'', 2, prim_concatMap), (''add'', 2, prim_add C),
      (''sub'', 2, prim_sub C), (''mul'', 2, prim_mul C), (''div'', 2, prim_div C), (''bitAnd'', 2, prim_bitAnd),
      (''bitOr'', 2, prim_bitOr), (''bitXor'', 2, prim_bitXor), (''lessThan'', 2, prim_lessThan C),
      (''toString'', 1, prim_toString), (''substring'', 3, prim_substring), (''stringLength'', 1, prim_stringLength),
      (''concatStringsSep'', 2, prim_concatStringsSep), (''replaceStrings'', 3, prim_replaceStrings),
      (''unsafeDiscardStringContext'', 1, prim_unsafeDiscardStringContext), (''hasContext'', 1, prim_hasContext),
      (''parseDrvName'', 1, prim_parseDrvName), (''compareVersions'', 2, prim_compareVersions toInt),
      (''splitVersion'', 1, prim_splitVersion)]"

definition std_primops :: "(string \<Rightarrow> int option) \<Rightarrow> Ctx \<Rightarrow> string \<Rightarrow> PrimOp option" where
  "std_primops toInt C name = map_option (\<lambda>(n, f). \<lparr>arity = n, prim_fun = f\<rparr>) (map_of (builtin_table toInt C) name)"

definition std_ctx :: "(string \<Rightarrow> int option) \<Rightarrow> Ctx \<Rightarrow> Ctx" where
  "std_ctx toInt base = base\<lparr>primops := std_primops toInt base\<rparr>"

section \<open>Operations on sets\<close>

lemma set_sort_bindings [simp]: "set (sort_bindings xs) = set xs"
  by (simp add: sort_bindings_def)

lemma omap_ok_filter: "omap_ok as \<Longrightarrow> omap_ok (filter P as)"
  by (induction as) (auto simp: omap_ok_def)

lemma omap_ok_unique:
  assumes "omap_ok as" and "omap_ok bs" and "set as = set bs"
  shows "as = bs"
  by (rule map_sorted_distinct_set_unique [of fst]) (use assms in \<open>auto simp: omap_ok_def strict_sorted_iff distinct_map\<close>)

lemma set_difference_filter: "omap_ok as \<Longrightarrow> sorted ns \<Longrightarrow> set_difference as ns = filter (\<lambda>a. fst a \<notin> set ns) as"
proof (induction as ns rule: set_difference.induct)
  case (3 a as n ns)
  have a: "omap_ok as" "\<forall>x \<in> set as. fst a < fst x" and n: "sorted ns" "\<forall>x \<in> set ns. n \<le> x"
    using "3.prems" by (auto simp: omap_ok_def)
  consider "fst a < n" | "n < fst a" | "fst a = n" by fastforce
  then show ?case
  proof cases
    case 1
    then show ?thesis using "3.IH"(1) a(1) "3.prems"(2) n(2) by auto
  next
    case 2
    then have "filter (\<lambda>x. fst x \<notin> set (n # ns)) (a # as) = filter (\<lambda>x. fst x \<notin> set ns) (a # as)"
      using a(2) by (intro filter_cong) auto
    then show ?thesis using 2 "3.IH"(2) "3.prems"(1) n(1) by (simp del: filter.simps)
  next
    case 3
    then have "filter (\<lambda>x. fst x \<notin> set (n # ns)) as = filter (\<lambda>x. fst x \<notin> set ns) as"
      using a(2) by (intro filter_cong) auto
    then show ?thesis using 3 "3.IH"(3) a(1) n(1) by simp
  qed
qed simp_all

lemma intersect_filter:
  assumes "omap_ok l" and "omap_ok r"
  shows "intersect l r = filter (\<lambda>x. fst x \<in> fst ` set l) r"
proof (cases "length l < length r")
  case True
  let ?i = "List.map_filter (\<lambda>x. map_option (\<lambda>v. (fst x, v)) (bindings_get (fst x) r)) l"
  have "omap_ok ?i" using assms(1)
    by (induction l) (auto simp: omap_ok_def map_filter_def split: option.splits)
  moreover have "distinct (map fst r)" using assms(2) by (simp add: omap_ok_def strict_sorted_iff)
  then have "set ?i = set (filter (\<lambda>x. fst x \<in> fst ` set l) r)"
    by (force simp: bindings_get_map_of [OF assms(2)] map_filter_def image_iff)
  ultimately show ?thesis using True assms(2) by (simp add: intersect_def omap_ok_unique omap_ok_filter)
next
  case False
  have "filter (\<lambda>x. bindings_get (fst x) l \<noteq> None) r = filter (\<lambda>x. fst x \<in> fst ` set l) r"
    by (rule filter_cong) (auto simp: bindings_get_map_of [OF assms(1)] map_of_eq_None_iff)
  then show ?thesis using False by (simp add: intersect_def)
qed

lemma groups_ok: "length vs = length (groups ps) \<Longrightarrow> omap_ok (zip (map fst (groups ps)) vs)"
  by (simp add: groups_def omap_ok_def comp_def strict_sorted_iff)

lemma groups_values: "g \<in> set (groups ps) \<Longrightarrow> x \<in> set (snd g) \<Longrightarrow> x \<in> snd ` set ps"
  by (auto simp: groups_def)

section \<open>Builtins keep memory well formed\<close>

text \<open>Rules for the steps of a builtin. What was well formed before a step is well formed after it.\<close>

abbreviation stays :: "Ctx \<Rightarrow> Mem \<Rightarrow> Mem \<Rightarrow> bool" where
  "stays C m m' \<equiv> \<forall>x. value_ok C {} m x \<longrightarrow> value_ok C {} m' x"

lemma bind_rule:
  assumes "good C k m f Q"
    and "\<And>x m'. mem_ok C {} m' \<Longrightarrow> k \<le> length (envs m') \<Longrightarrow> stays C m m' \<Longrightarrow> Q m' x \<Longrightarrow> good C k m' (g x) R"
  shows "good C k m (bind_ev f g) R"
  by (rule good_bind [OF assms(1)]) (use assms(2) ext_length value_ok_ext in blast)

lemma map_ev_rule:
  assumes "mem_ok C {} m" and "k \<le> length (envs m)"
    and "\<And>x m'. x \<in> set xs \<Longrightarrow> mem_ok C {} m' \<Longrightarrow> k \<le> length (envs m') \<Longrightarrow> stays C m m' \<Longrightarrow> good C k m' (f x) Q"
    and "\<And>m' m'' y. stays C m' m'' \<Longrightarrow> Q m' y \<Longrightarrow> Q m'' y"
  shows "good C k m (map_ev f xs) (\<lambda>m' ys. length ys = length xs \<and> (\<forall>y \<in> set ys. Q m' y))"
  using assms(1-3)
proof (induction xs arbitrary: m)
  case (Cons x xs)
  have x: "good C k m (f x) Q" using Cons.prems by simp
  show ?case unfolding map_ev.simps
  proof (rule bind_rule [OF x])
    fix y m1
    assume a: "mem_ok C {} m1" "k \<le> length (envs m1)" "stays C m m1" "Q m1 y"
    have "good C k m1 (map_ev f xs) (\<lambda>m' ys. length ys = length xs \<and> (\<forall>y \<in> set ys. Q m' y))"
      by (rule Cons.IH [OF a(1,2)]) (use Cons.prems(3) a(3) in auto)
    then show "good C k m1 (bind_ev (map_ev f xs) (\<lambda>ys. ret (y # ys))) (\<lambda>m' ys. length ys = length (x # xs) \<and> (\<forall>y \<in> set ys. Q m' y))"
      by (rule bind_rule) (use assms(4) [OF _ a(4)] in \<open>auto intro!: good_ret\<close>)
  qed
qed (auto intro: good_ret)

lemma newObject_rule:
  assumes "mem_ok C {} m" and "k \<le> length (envs m)"
    and "\<And>x m'. mem_ok C {} m' \<Longrightarrow> k \<le> length (envs m') \<Longrightarrow> stays C m m' \<Longrightarrow> good C k m' (g x) R"
  shows "good C k m (bind_ev newObject g) R"
  by (rule bind_rule [OF built_good [OF built_newObject [OF assms(1,2)]]]) (rule assms(3))

lemma allocBindings_rule:
  assumes "mem_ok C {} m" and "k \<le> length (envs m)"
    and "\<And>x m'. mem_ok C {} m' \<Longrightarrow> k \<le> length (envs m') \<Longrightarrow> stays C m m' \<Longrightarrow> good C k m' (g x) R"
  shows "good C k m (bind_ev (allocBindings n) g) R"
  by (rule bind_rule [OF good_allocBindings [OF assms(1,2)]]) (rule assms(3))

lemma createSymbol_rule:
  assumes "mem_ok C {} m" and "k \<le> length (envs m)"
    and "\<And>x m'. mem_ok C {} m' \<Longrightarrow> k \<le> length (envs m') \<Longrightarrow> stays C m m' \<Longrightarrow> s \<notin> set nix_symbols \<longrightarrow> length nix_symbols < x \<Longrightarrow>
          good C k m' (g x) R"
  shows "good C k m (bind_ev (createSymbol s) g) R"
  by (rule bind_rule [OF built_good [OF built_createSymbol [OF assms(1,2)]]]) (rule assms(3))

lemma symbolString_rule:
  assumes "mem_ok C {} m" and "k \<le> length (envs m)"
    and "\<And>x m'. mem_ok C {} m' \<Longrightarrow> k \<le> length (envs m') \<Longrightarrow> stays C m m' \<Longrightarrow> good C k m' (g x) R"
  shows "good C k m (bind_ev (symbolString s) g) R"
proof (rule bind_rule)
  show "good C k m (symbolString s) (\<lambda>m' x. True)" using assms(1,2)
    by (auto simp: good_def symbolString_def lift_ev_def sym_string_def ext_refl split: sum.splits if_splits)
qed (rule assms(3))

lemma newApp_rule:
  "mem_ok C {} m \<Longrightarrow> k \<le> length (envs m) \<Longrightarrow> value_ok C {} m f \<Longrightarrow> \<forall>x \<in> set xs. value_ok C {} m x \<Longrightarrow> good C k m (newApp f xs) (value_ok C {})"
  by (rule built_good, rule built_newApp)

definition safe_prim :: "Ctx \<Rightarrow> runner \<Rightarrow> nat \<Rightarrow> (runner \<Rightarrow> val list \<Rightarrow> val ev) \<Rightarrow> bool" where
  "safe_prim C run n f \<longleftrightarrow>
     (\<forall>m k args. mem_ok C {} m \<longrightarrow> k \<le> length (envs m) \<longrightarrow> length args = n \<longrightarrow> (\<forall>x \<in> set args. value_ok C {} m x) \<longrightarrow>
        good C k m (f run args) (value_ok C {}))"

lemma safe_primI:
  assumes "\<And>m k a. mem_ok C {} m \<Longrightarrow> k \<le> length (envs m) \<Longrightarrow> value_ok C {} m a \<Longrightarrow> good C k m (f run [a]) (value_ok C {})"
  shows "safe_prim C run 1 f"
  using assms by (auto simp: safe_prim_def length_Suc_conv)

lemma safe_primI2:
  assumes "\<And>m k a b. mem_ok C {} m \<Longrightarrow> k \<le> length (envs m) \<Longrightarrow> value_ok C {} m a \<Longrightarrow> value_ok C {} m b \<Longrightarrow>
    good C k m (f run [a, b]) (value_ok C {})"
  shows "safe_prim C run 2 f"
  using assms by (auto simp: safe_prim_def length_Suc_conv numeral_2_eq_2)

lemma safe_primI3:
  assumes "\<And>m k a b c. mem_ok C {} m \<Longrightarrow> k \<le> length (envs m) \<Longrightarrow> value_ok C {} m a \<Longrightarrow> value_ok C {} m b \<Longrightarrow> value_ok C {} m c \<Longrightarrow>
    good C k m (f run [a, b, c]) (value_ok C {})"
  shows "safe_prim C run 3 f"
  using assms by (auto simp: safe_prim_def length_Suc_conv numeral_3_eq_3)

lemmas safe_primIs = safe_primI safe_primI2 safe_primI3

context task_runner
begin

lemma run_rule:
  assumes "mem_ok C {} m" and "k \<le> length (envs m)" and "task_ok C m t"
    and "\<And>v m'. mem_ok C {} m' \<Longrightarrow> k \<le> length (envs m') \<Longrightarrow> stays C m m' \<Longrightarrow> value_ok C {} m' v \<Longrightarrow> good C k m' (g v) R"
  shows "good C k m (bind_ev (run t) g) R"
  by (rule bind_rule [OF run_good [OF assms(1-3)]]) (rule assms(4))

lemma force_rules:
  assumes "mem_ok C {} m" and "k \<le> length (envs m)" and "value_ok C {} m v"
  shows "(\<And>b m'. mem_ok C {} m' \<Longrightarrow> k \<le> length (envs m') \<Longrightarrow> stays C m m' \<Longrightarrow> good C k m' (g1 b) R) \<Longrightarrow> good C k m (bind_ev (forceBool run v) g1) R"
    "(\<And>b m'. mem_ok C {} m' \<Longrightarrow> k \<le> length (envs m') \<Longrightarrow> stays C m m' \<Longrightarrow> good C k m' (g2 b) R) \<Longrightarrow> good C k m (bind_ev (forceInt run v) g2) R"
    "(\<And>b m'. mem_ok C {} m' \<Longrightarrow> k \<le> length (envs m') \<Longrightarrow> stays C m m' \<Longrightarrow> good C k m' (g3 b) R) \<Longrightarrow> good C k m (bind_ev (forceFloat C run v) g3) R"
    "(\<And>i xs m'. mem_ok C {} m' \<Longrightarrow> k \<le> length (envs m') \<Longrightarrow> stays C m m' \<Longrightarrow> \<forall>x \<in> set xs. value_ok C {} m' x \<Longrightarrow> good C k m' (g4 (i, xs)) R) \<Longrightarrow>
      good C k m (bind_ev (forceList run v) g4) R"
    "(\<And>i as m'. mem_ok C {} m' \<Longrightarrow> k \<le> length (envs m') \<Longrightarrow> stays C m m' \<Longrightarrow> omap_ok as \<Longrightarrow> \<forall>x \<in> set as. value_ok C {} m' (snd x) \<Longrightarrow>
      good C k m' (g5 (i, as)) R) \<Longrightarrow> good C k m (bind_ev (forceAttrs run v) g5) R"
    "(\<And>f m'. mem_ok C {} m' \<Longrightarrow> k \<le> length (envs m') \<Longrightarrow> stays C m m' \<Longrightarrow> value_ok C {} m' f \<Longrightarrow> good C k m' (g6 f) R) \<Longrightarrow>
      good C k m (bind_ev (forceFunction run v) g6) R"
    "(\<And>s c m'. mem_ok C {} m' \<Longrightarrow> k \<le> length (envs m') \<Longrightarrow> stays C m m' \<Longrightarrow> good C k m' (g7 (s, c)) R) \<Longrightarrow> good C k m (bind_ev (forceString run v) g7) R"
    "(\<And>s m'. mem_ok C {} m' \<Longrightarrow> k \<le> length (envs m') \<Longrightarrow> stays C m m' \<Longrightarrow> good C k m' (g8 s) R) \<Longrightarrow> good C k m (bind_ev (forceStringNoCtx run v) g8) R"
    "(\<And>s c m'. mem_ok C {} m' \<Longrightarrow> k \<le> length (envs m') \<Longrightarrow> stays C m m' \<Longrightarrow> good C k m' (g9 (s, c)) R) \<Longrightarrow>
      good C k m (bind_ev (coerceTo run v ctxt mode copy canon) g9) R"
    "value_ok C {} m w \<Longrightarrow> (\<And>b m'. mem_ok C {} m' \<Longrightarrow> k \<le> length (envs m') \<Longrightarrow> stays C m m' \<Longrightarrow> good C k m' (g10 b) R) \<Longrightarrow>
      good C k m (bind_ev (runEq run v w) g10) R"
    "value_ok C {} m w \<Longrightarrow> (\<And>b m'. mem_ok C {} m' \<Longrightarrow> k \<le> length (envs m') \<Longrightarrow> stays C m m' \<Longrightarrow> good C k m' (g11 b) R) \<Longrightarrow>
      good C k m (bind_ev (compareValues C run v w) g11) R"
proof -
  show "good C k m (bind_ev (forceBool run v) g1) R"
    if "\<And>b m'. mem_ok C {} m' \<Longrightarrow> k \<le> length (envs m') \<Longrightarrow> stays C m m' \<Longrightarrow> good C k m' (g1 b) R"
    by (rule bind_rule [OF force_good(1) [OF assms]]) (rule that)
  show "good C k m (bind_ev (forceInt run v) g2) R"
    if "\<And>b m'. mem_ok C {} m' \<Longrightarrow> k \<le> length (envs m') \<Longrightarrow> stays C m m' \<Longrightarrow> good C k m' (g2 b) R"
    by (rule bind_rule [OF force_good(2) [OF assms]]) (rule that)
  show "good C k m (bind_ev (forceFloat C run v) g3) R"
    if "\<And>b m'. mem_ok C {} m' \<Longrightarrow> k \<le> length (envs m') \<Longrightarrow> stays C m m' \<Longrightarrow> good C k m' (g3 b) R"
    by (rule bind_rule [OF force_good(3) [OF assms]]) (rule that)
  show "good C k m (bind_ev (forceList run v) g4) R"
    if "\<And>i xs m'. mem_ok C {} m' \<Longrightarrow> k \<le> length (envs m') \<Longrightarrow> stays C m m' \<Longrightarrow> \<forall>x \<in> set xs. value_ok C {} m' x \<Longrightarrow> good C k m' (g4 (i, xs)) R"
    by (rule bind_rule [OF force_good(4) [OF assms]]) (use that in auto)
  show "good C k m (bind_ev (forceAttrs run v) g5) R"
    if "\<And>i as m'. mem_ok C {} m' \<Longrightarrow> k \<le> length (envs m') \<Longrightarrow> stays C m m' \<Longrightarrow> omap_ok as \<Longrightarrow> \<forall>x \<in> set as. value_ok C {} m' (snd x) \<Longrightarrow>
      good C k m' (g5 (i, as)) R"
    by (rule bind_rule [OF force_good(5) [OF assms]]) (use that in auto)
  show "good C k m (bind_ev (forceFunction run v) g6) R"
    if "\<And>f m'. mem_ok C {} m' \<Longrightarrow> k \<le> length (envs m') \<Longrightarrow> stays C m m' \<Longrightarrow> value_ok C {} m' f \<Longrightarrow> good C k m' (g6 f) R"
    by (rule bind_rule [OF forceFunction_good [OF assms]]) (rule that)
  show "good C k m (bind_ev (forceString run v) g7) R"
    if "\<And>s c m'. mem_ok C {} m' \<Longrightarrow> k \<le> length (envs m') \<Longrightarrow> stays C m m' \<Longrightarrow> good C k m' (g7 (s, c)) R"
    by (rule bind_rule [OF forceString_good [OF assms]]) (use that in auto)
  show "good C k m (bind_ev (forceStringNoCtx run v) g8) R"
    if "\<And>s m'. mem_ok C {} m' \<Longrightarrow> k \<le> length (envs m') \<Longrightarrow> stays C m m' \<Longrightarrow> good C k m' (g8 s) R"
    by (rule bind_rule [OF forceStringNoCtx_good [OF assms]]) (rule that)
  show "good C k m (bind_ev (coerceTo run v ctxt mode copy canon) g9) R"
    if "\<And>s c m'. mem_ok C {} m' \<Longrightarrow> k \<le> length (envs m') \<Longrightarrow> stays C m m' \<Longrightarrow> good C k m' (g9 (s, c)) R"
    by (rule bind_rule [OF coerceTo_good [OF assms]]) (use that in auto)
  show "good C k m (bind_ev (runEq run v w) g10) R"
    if "value_ok C {} m w" "\<And>b m'. mem_ok C {} m' \<Longrightarrow> k \<le> length (envs m') \<Longrightarrow> stays C m m' \<Longrightarrow> good C k m' (g10 b) R"
    by (rule bind_rule [OF runEq_good [OF assms that(1)]]) (rule that(2))
  show "good C k m (bind_ev (compareValues C run v w) g11) R"
    if "value_ok C {} m w" "\<And>b m'. mem_ok C {} m' \<Longrightarrow> k \<le> length (envs m') \<Longrightarrow> stays C m m' \<Longrightarrow> good C k m' (g11 b) R"
    by (rule bind_rule [OF compareValues_good [OF assms that(1)]]) (rule that(2))
qed

lemmas prim_rules = force_rules run_rule newObject_rule allocBindings_rule createSymbol_rule symbolString_rule shortcut_bind valueType_bind
  good_ret good_throw run_good newApp_rule

lemma types_safe: "safe_prim C run 1 prim_typeOf" "safe_prim C run 1 (prim_isType t)"
  by (rule safe_primI; auto simp: prim_typeOf_def prim_isType_def forcedType_def bind_ev_assoc intro!: prim_rules split: ValueType.splits)+

lemma control_safe: "safe_prim C run 1 prim_abort" "safe_prim C run 1 prim_throw" "safe_prim C run 2 prim_seq" "safe_prim C run 2 prim_second"
  by (rule safe_primIs; auto simp: prim_abort_def prim_throw_def prim_seq_def prim_second_def intro!: prim_rules)+

lemma catch_good:
  assumes "good C k m f Q"
  shows "good C k m (catchAssertion f) (\<lambda>m' r. \<forall>x. r = Some x \<longrightarrow> Q m' x)"
  using assms by (auto simp: good_def catchAssertion_def split: option.splits sum.splits prod.splits if_splits)

lemma fresh_names: "''success'' \<notin> set nix_symbols" "''version'' \<notin> set nix_symbols" "length nix_symbols = 50"
  by (simp_all add: nix_symbols_def)

lemma tryEval_safe: "safe_prim C run 1 prim_tryEval"
proof (rule safe_primI)
  fix m k a
  assume "mem_ok C {} m" "k \<le> length (envs m)" "value_ok C {} m a"
  then show "good C k m (prim_tryEval run [a]) (value_ok C {})"
    unfolding prim_tryEval_def
    by (auto simp: fresh_names sym_value_def sort_bindings_def omap_ok_def intro!: prim_rules bind_rule [OF catch_good [OF run_good]] split: option.splits)
qed

lemma order_good:
  assumes "mem_ok C {} m" and "k \<le> length (envs m)" and "\<forall>x \<in> set as. value_ok C {} m (snd x)"
  shows "good C k m (lexicographicOrder as) (\<lambda>m' xs. \<forall>x \<in> set xs. value_ok C {} m' (snd x))"
  unfolding lexicographicOrder_def
proof (rule bind_rule [OF map_ev_rule [where Q = "\<lambda>m' x. value_ok C {} m' (snd x)"]])
qed (use assms in \<open>auto intro!: prim_rules\<close>)

lemma names_safe: "safe_prim C run 1 prim_attrNames" "safe_prim C run 1 prim_attrValues"
  by (rule safe_primI; auto simp: prim_attrNames_def prim_attrValues_def intro!: prim_rules bind_rule [OF order_good])+

lemma getAttr_good:
  assumes "mem_ok C {} m" and "k \<le> length (envs m)" and "omap_ok as" and "\<forall>x \<in> set as. value_ok C {} m (snd x)"
  shows "good C k m (getAttr s as) (value_ok C {})"
  using assms attrs_ok [of m 0 as] by (auto simp: getAttr_def intro!: prim_rules split: option.splits)

lemma lookup_safe: "safe_prim C run 2 prim_getAttr" "safe_prim C run 2 prim_hasAttr"
  by (rule safe_primI2; auto simp: prim_getAttr_def prim_hasAttr_def intro!: prim_rules bind_rule [OF getAttr_good])+

lemma removeAttrs_safe: "safe_prim C run 2 prim_removeAttrs"
proof (rule safe_primI2)
  fix m k a b
  assume "mem_ok C {} m" "k \<le> length (envs m)" "value_ok C {} m a" "value_ok C {} m b"
  moreover have "good C k m' (map_ev (\<lambda>x. bind_ev (forceStringNoCtx run x) createSymbol) xs) (\<lambda>m'' ys. length ys = length xs \<and> (\<forall>y \<in> set ys. True))"
    if "mem_ok C {} m'" "k \<le> length (envs m')" "\<forall>x \<in> set xs. value_ok C {} m' x" for m' xs
    by (rule map_ev_rule [where Q = "\<lambda>m'' y. True"]) (use that in \<open>auto intro!: prim_rules good_createSymbol\<close>)
  ultimately show "good C k m (prim_removeAttrs run [a, b]) (value_ok C {})"
    unfolding prim_removeAttrs_def
    by (auto simp: set_difference_filter omap_ok_filter intro!: prim_rules bind_rule [where f = "map_ev f xs" for f xs])
qed

lemma listToAttrs_good:
  assumes "mem_ok C {} m" and "k \<le> length (envs m)" and "\<forall>x \<in> set xs. value_ok C {} m x"
  shows "good C k m (listToAttrs_loop run xs seen)
    (\<lambda>m' as. distinct (map fst as) \<and> (\<forall>x \<in> set as. fst x \<notin> set seen) \<and> (\<forall>x \<in> set as. value_ok C {} m' (snd x)))"
  using assms
proof (induction xs arbitrary: m seen)
  case (Cons x xs)
  show ?case unfolding listToAttrs_loop.simps
  proof (rule force_rules(5), use Cons.prems in simp_all, rule bind_rule [OF getAttr_good], assumption+, rule force_rules(8), assumption+,
      rule createSymbol_rule, assumption+)
    fix i and as :: Bindings and m1 v m2 s m3 name m4
    assume a: "\<forall>x. value_ok C {} m x \<longrightarrow> value_ok C {} m1 x" "\<forall>x \<in> set as. value_ok C {} m1 (snd x)" "omap_ok as"
      "\<forall>x. value_ok C {} m1 x \<longrightarrow> value_ok C {} m2 x" "\<forall>x. value_ok C {} m2 x \<longrightarrow> value_ok C {} m3 x"
      "mem_ok C {} m4" "k \<le> length (envs m4)" "\<forall>x. value_ok C {} m3 x \<longrightarrow> value_ok C {} m4 x"
    have xs: "\<forall>y \<in> set xs. value_ok C {} m4 y" using Cons.prems(3) a by auto
    have IH: "good C k m4 (listToAttrs_loop run xs seen)
      (\<lambda>m' as. distinct (map fst as) \<and> (\<forall>x \<in> set as. fst x \<notin> set seen) \<and> (\<forall>x \<in> set as. value_ok C {} m' (snd x)))"
      by (rule Cons.IH [OF a(6,7) xs])
    have "good C k m4 (bind_ev (getAttr sym_value as) (\<lambda>w.
        bind_ev (listToAttrs_loop run xs (name # seen)) (\<lambda>rest. ret ((name, w) # rest))))
      (\<lambda>m' as. distinct (map fst as) \<and> (\<forall>x \<in> set as. fst x \<notin> set seen) \<and> (\<forall>x \<in> set as. value_ok C {} m' (snd x)))" if "name \<notin> set seen"
    proof (rule bind_rule [OF getAttr_good [OF a(6,7,3)]])
      show "\<forall>x \<in> set as. value_ok C {} m4 (snd x)" using a by auto
    next
      fix w m5
      assume b: "mem_ok C {} m5" "k \<le> length (envs m5)" "\<forall>x. value_ok C {} m4 x \<longrightarrow> value_ok C {} m5 x" "value_ok C {} m5 w"
      show "good C k m5 (bind_ev (listToAttrs_loop run xs (name # seen)) (\<lambda>rest. ret ((name, w) # rest)))
        (\<lambda>m' as. distinct (map fst as) \<and> (\<forall>x \<in> set as. fst x \<notin> set seen) \<and> (\<forall>x \<in> set as. value_ok C {} m' (snd x)))"
        by (rule bind_rule [OF Cons.IH [OF b(1,2)]]) (use xs b that in \<open>auto intro!: good_ret\<close>)
    qed
    then show "good C k m4 (if name \<in> set seen then listToAttrs_loop run xs seen
        else bind_ev (getAttr sym_value as) (\<lambda>w.
          bind_ev (listToAttrs_loop run xs (name # seen)) (\<lambda>rest. ret ((name, w) # rest))))
      (\<lambda>m' as. distinct (map fst as) \<and> (\<forall>x \<in> set as. fst x \<notin> set seen) \<and> (\<forall>x \<in> set as. value_ok C {} m' (snd x)))"
      using IH by simp
  qed
qed (auto intro: good_ret)

lemma listToAttrs_safe: "safe_prim C run 1 prim_listToAttrs"
  by (rule safe_primI; auto simp: prim_listToAttrs_def sort_bindings_ok intro!: prim_rules bind_rule [OF listToAttrs_good])

lemma intersectAttrs_safe: "safe_prim C run 2 prim_intersectAttrs"
  by (rule safe_primI2; auto simp: prim_intersectAttrs_def intersect_filter omap_ok_filter intro!: prim_rules)

lemma catAttrs_good:
  "mem_ok C {} m \<Longrightarrow> k \<le> length (envs m) \<Longrightarrow> \<forall>x \<in> set xs. value_ok C {} m x \<Longrightarrow>
   good C k m (catAttrs_loop run name xs) (\<lambda>m' vs. \<forall>v \<in> set vs. value_ok C {} m' v)"
proof (induction xs arbitrary: m)
  case (Cons x xs)
  show ?case unfolding catAttrs_loop.simps
  proof (rule force_rules(5), use Cons.prems in simp_all)
    fix i and as :: Bindings and m1
    assume a: "mem_ok C {} m1" "k \<le> length (envs m1)" "\<forall>x. value_ok C {} m x \<longrightarrow> value_ok C {} m1 x" "omap_ok as" "\<forall>x \<in> set as. value_ok C {} m1 (snd x)"
    have get: "value_ok C {} m1 v" if "bindings_get name as = Some v" for v using attrs_ok [of m1 i as name v] a(4,5) that by simp
    show "good C k m1 (bind_ev (catAttrs_loop run name xs) (\<lambda>rest. ret (case bindings_get name as of None \<Rightarrow> rest | Some v \<Rightarrow> v # rest)))
      (\<lambda>m' vs. \<forall>v \<in> set vs. value_ok C {} m' v)"
      by (rule bind_rule [OF Cons.IH [OF a(1,2)]]) (use Cons.prems(3) a(3) get in \<open>auto intro!: good_ret split: option.splits\<close>)
  qed
qed (auto intro: good_ret)

lemma catAttrs_safe: "safe_prim C run 2 prim_catAttrs"
  by (rule safe_primI2; auto simp: prim_catAttrs_def intro!: prim_rules bind_rule [OF catAttrs_good])

lemma isPrimOpApp_rule:
  assumes "mem_ok C {} m" and "k \<le> length (envs m)" and "value_ok C {} m v" and "\<And>b. good C k m (g b) R"
  shows "good C k m (bind_ev (isPrimOpApp v) g) R"
proof -
  have "good C k m (bind_ev (target left) (\<lambda>t. ret (isPrimOp t))) (\<lambda>m' b. m' = m)" if "value_ok C {} m left" for left
    by (rule target_bind) (use assms that in \<open>auto intro!: good_ret\<close>)
  then have "good C k m (isPrimOpApp v) (\<lambda>m' b. m' = m)"
    using assms(1-3) apps_ok [OF assms(1)]
    by (fastforce simp: isPrimOpApp_def good_def ret_def ext_refl split: val.splits app.splits)
  then show ?thesis by (rule bind_rule) (use assms(4) in auto)
qed

lemma functionArgs_safe: "safe_prim C run 1 prim_functionArgs"
  by (rule safe_primI; auto simp: prim_functionArgs_def sort_bindings_ok comp_def names_ok_def strict_sorted_iff
      intro!: prim_rules isPrimOpApp_rule split: val.splits pattern.splits)

text \<open>Values built one after the other for the elements of a list.\<close>

lemma map_rule:
  assumes "mem_ok C {} m" and "k \<le> length (envs m)"
    and "\<And>x m'. x \<in> set xs \<Longrightarrow> mem_ok C {} m' \<Longrightarrow> k \<le> length (envs m') \<Longrightarrow> stays C m m' \<Longrightarrow> good C k m' (f x) (value_ok C {})"
    and "\<And>vs m'. mem_ok C {} m' \<Longrightarrow> k \<le> length (envs m') \<Longrightarrow> stays C m m' \<Longrightarrow> length vs = length xs \<Longrightarrow>
          \<forall>v \<in> set vs. value_ok C {} m' v \<Longrightarrow> good C k m' (g vs) R"
  shows "good C k m (bind_ev (map_ev f xs) g) R"
  by (rule bind_rule [OF map_ev_rule [OF assms(1-3)]]) (use assms(4) in auto)

lemma mapAttrs_safe: "safe_prim C run 2 prim_mapAttrs"
proof (rule safe_primI2)
  fix m k a b
  assume "mem_ok C {} m" "k \<le> length (envs m)" "value_ok C {} m a" "value_ok C {} m b"
  then show "good C k m (prim_mapAttrs run [a, b]) (value_ok C {})" unfolding prim_mapAttrs_def
    by (auto simp: omap_ok_def intro!: prim_rules map_rule dest!: set_zip_rightD) (metis snd_conv)
qed

lemma forcedAttrs_rule:
  assumes "mem_ok C {} m" and "k \<le> length (envs m)" and "\<forall>x \<in> set xs. value_ok C {} m x"
    and "\<And>ss m'. mem_ok C {} m' \<Longrightarrow> k \<le> length (envs m') \<Longrightarrow> stays C m m' \<Longrightarrow> \<forall>s \<in> set ss. value_ok C {} m' (VAttrs (fst s) (snd s)) \<Longrightarrow> good C k m' (g ss) R"
  shows "good C k m (bind_ev (map_ev (forceAttrs run) xs) g) R"
proof (rule bind_rule [OF map_ev_rule [where Q = "\<lambda>m' s. value_ok C {} m' (VAttrs (fst s) (snd s))", OF assms(1,2)]])
  show "good C k m' (forceAttrs run x) (\<lambda>m' s. value_ok C {} m' (VAttrs (fst s) (snd s)))"
    if "x \<in> set xs" "mem_ok C {} m'" "k \<le> length (envs m')" "stays C m m'" for x m'
    by (rule force_good(5)) (use that assms(3) in auto)
qed (use assms(4) in \<open>auto simp del: value_ok.simps\<close>)

lemma forcedLists_rule:
  assumes "mem_ok C {} m" and "k \<le> length (envs m)"
    and "\<And>x m'. x \<in> set xs \<Longrightarrow> mem_ok C {} m' \<Longrightarrow> k \<le> length (envs m') \<Longrightarrow> stays C m m' \<Longrightarrow>
          good C k m' (f x) (\<lambda>m' l. \<forall>y \<in> set (snd l). value_ok C {} m' y)"
    and "\<And>ls m'. mem_ok C {} m' \<Longrightarrow> k \<le> length (envs m') \<Longrightarrow> stays C m m' \<Longrightarrow> \<forall>l \<in> set ls. \<forall>y \<in> set (snd l). value_ok C {} m' y \<Longrightarrow> good C k m' (g ls) R"
  shows "good C k m (bind_ev (map_ev f xs) g) R"
  by (rule bind_rule [OF map_ev_rule [where Q = "\<lambda>m' l. \<forall>y \<in> set (snd l). value_ok C {} m' y", OF assms(1,2)]])
    (use assms(3,4) in auto)

lemma zipAttrsWith_safe: "safe_prim C run 2 prim_zipAttrsWith"
proof (rule safe_primI2)
  fix m k a b
  assume a: "mem_ok C {} m" "k \<le> length (envs m)" "value_ok C {} m a" "value_ok C {} m b"
  show "good C k m (prim_zipAttrsWith run [a, b]) (value_ok C {})" unfolding prim_zipAttrsWith_def Let_def
  proof (rule force_rules(6), use a in simp_all, rule force_rules(4), assumption+, blast, simp, rule forcedAttrs_rule, assumption+)
    fix f m1 i xs m2 ss m3
    assume b: "value_ok C {} m1 f" "stays C m1 m2" "stays C m2 m3" "mem_ok C {} m3" "k \<le> length (envs m3)"
      "\<forall>s \<in> set ss. value_ok C {} m3 (VAttrs (fst s) (snd s))"
    let ?gs = "groups (concat (map snd ss))"
    have vs: "value_ok C {} m3 x" if "g \<in> set ?gs" "x \<in> set (snd g)" for g x
      using groups_values [OF that] b(6) by auto
    show "good C k m3 (bind_ev (allocBindings (length ?gs)) (\<lambda>obj. bind_ev (map_ev (zipEntry f) ?gs) (\<lambda>vs. ret (VAttrs obj (zip (map fst ?gs) vs))))) (value_ok C {})"
      using b(1-5) vs groups_ok by (auto simp: zipEntry_def intro!: prim_rules map_rule dest!: set_zip_rightD)
  qed
qed

lemma elemAt_good:
  "mem_ok C {} m \<Longrightarrow> k \<le> length (envs m) \<Longrightarrow> value_ok C {} m v \<Longrightarrow> good C k m (elemAt run v n) (value_ok C {})"
  by (auto simp: elemAt_def nat_less_iff intro!: prim_rules)

lemma elements_safe: "safe_prim C run 2 prim_elemAt" "safe_prim C run 1 prim_head" "safe_prim C run 1 prim_tail" "safe_prim C run 1 prim_length"
  by (rule safe_primIs; auto simp: prim_elemAt_def prim_head_def prim_tail_def prim_length_def list.set_sel(2) intro!: prim_rules elemAt_good)+

lemma map_safe: "safe_prim C run 2 prim_map"
  by (rule safe_primIs; auto simp: prim_map_def intro!: prim_rules map_rule)

lemma genList_safe: "safe_prim C run 2 prim_genList"
  by (rule safe_primIs; auto simp: prim_genList_def intro!: prim_rules map_rule)

lemma filter_good:
  "mem_ok C {} m \<Longrightarrow> k \<le> length (envs m) \<Longrightarrow> value_ok C {} m f \<Longrightarrow> \<forall>x \<in> set xs. value_ok C {} m x \<Longrightarrow>
   good C k m (filter_loop run f xs) (\<lambda>m' vs. \<forall>v \<in> set vs. value_ok C {} m' v)"
proof (induction xs arbitrary: m)
  case (Cons x xs)
  then show ?case by (auto intro!: prim_rules bind_rule [OF Cons.IH] split: if_splits)
qed (auto intro: good_ret)

lemma filter_safe: "safe_prim C run 2 prim_filter"
  by (rule safe_primIs; auto simp: prim_filter_def intro!: prim_rules bind_rule [OF filter_good])

lemma elem_good:
  "mem_ok C {} m \<Longrightarrow> k \<le> length (envs m) \<Longrightarrow> value_ok C {} m v \<Longrightarrow> \<forall>x \<in> set xs. value_ok C {} m x \<Longrightarrow>
   good C k m (elem_loop run v xs) (\<lambda>m' b. True)"
proof (induction xs arbitrary: m)
  case (Cons x xs)
  then show ?case by (auto intro!: prim_rules Cons.IH)
qed (auto intro: good_ret)

lemma elem_safe: "safe_prim C run 2 prim_elem"
  by (rule safe_primIs; auto simp: prim_elem_def intro!: prim_rules bind_rule [OF elem_good])

lemma concatLists_good:
  assumes "mem_ok C {} m" and "k \<le> length (envs m)" and "\<forall>x \<in> set xss. value_ok C {} m x"
  shows "good C k m (concatLists run xss) (value_ok C {})"
  unfolding concatLists_def Let_def
proof (rule forcedLists_rule [OF assms(1,2)])
  show "good C k m' (forceList run x) (\<lambda>m' l. \<forall>y \<in> set (snd l). value_ok C {} m' y)"
    if "x \<in> set xss" "mem_ok C {} m'" "k \<le> length (envs m')" "stays C m m'" for x m'
    by (rule force_good(4)) (use that assms(3) in auto)
next
  fix ls :: "(addr \<times> val list) list" and m'
  let ?ne = "filter (\<lambda>l. snd l \<noteq> []) ls"
  assume a: "mem_ok C {} m'" "k \<le> length (envs m')" "\<forall>l \<in> set ls. \<forall>y \<in> set (snd l). value_ok C {} m' y"
  have "?ne \<noteq> [] \<Longrightarrow> last ?ne \<in> set ls" using last_in_set [of ?ne] by auto
  then show "good C k m' (if ?ne \<noteq> [] \<and> length (concat (map snd ls)) = length (snd (last ?ne))
        then ret (VList (fst (last ?ne)) (snd (last ?ne)))
        else bind_ev newObject (\<lambda>obj. ret (VList obj (concat (map snd ls))))) (value_ok C {})"
    using a by (auto intro!: prim_rules)
qed

lemma concatLists_safe: "safe_prim C run 1 prim_concatLists"
  by (rule safe_primIs; auto simp: prim_concatLists_def intro!: prim_rules concatLists_good)

lemma concatMap_safe: "safe_prim C run 2 prim_concatMap"
proof (rule safe_primIs)
  fix m k a b
  assume a: "mem_ok C {} m" "k \<le> length (envs m)" "value_ok C {} m a" "value_ok C {} m b"
  have call: "good C k m' (bind_ev (run (TCall f [x])) (forceList run)) (\<lambda>m' l. \<forall>y \<in> set (snd l). value_ok C {} m' y)"
    if "mem_ok C {} m'" "k \<le> length (envs m')" "value_ok C {} m' f" "value_ok C {} m' x" for m' f x
    using that by (auto intro!: run_rule force_good(4))
  show "good C k m (prim_concatMap run [a, b]) (value_ok C {})" unfolding prim_concatMap_def
    using a by (auto intro!: prim_rules forcedLists_rule call)
qed

lemma foldl_good:
  "mem_ok C {} m \<Longrightarrow> k \<le> length (envs m) \<Longrightarrow> value_ok C {} m f \<Longrightarrow> value_ok C {} m v \<Longrightarrow> \<forall>x \<in> set xs. value_ok C {} m x \<Longrightarrow>
   good C k m (foldl_loop run f v xs) (value_ok C {})"
proof (induction xs arbitrary: m v)
  case (Cons x xs)
  then show ?case by (auto intro!: prim_rules Cons.IH)
qed (auto intro!: run_good)

lemma foldl_safe: "safe_prim C run 3 prim_foldlStrict"
  by (rule safe_primIs; auto simp: prim_foldlStrict_def intro!: prim_rules foldl_good)

lemma anyOrAll_good:
  "mem_ok C {} m \<Longrightarrow> k \<le> length (envs m) \<Longrightarrow> value_ok C {} m f \<Longrightarrow> \<forall>x \<in> set xs. value_ok C {} m x \<Longrightarrow>
   good C k m (anyOrAll_loop any run f xs) (value_ok C {})"
proof (induction xs arbitrary: m)
  case (Cons x xs)
  then show ?case by (auto intro!: prim_rules Cons.IH)
qed (auto intro: good_ret)

lemma anyOrAll_safe: "safe_prim C run 2 (anyOrAll any)"
  by (rule safe_primIs; auto simp: anyOrAll_def intro!: prim_rules anyOrAll_good)

lemma partition_good:
  "mem_ok C {} m \<Longrightarrow> k \<le> length (envs m) \<Longrightarrow> value_ok C {} m f \<Longrightarrow> \<forall>x \<in> set xs. value_ok C {} m x \<Longrightarrow>
   good C k m (partition_loop run f xs) (\<lambda>m' p. (\<forall>v \<in> set (fst p). value_ok C {} m' v) \<and> (\<forall>v \<in> set (snd p). value_ok C {} m' v))"
proof (induction xs arbitrary: m)
  case (Cons x xs)
  then show ?case by (auto intro!: prim_rules bind_rule [OF Cons.IH] split: if_splits)
qed (auto intro: good_ret)

lemma partition_safe: "safe_prim C run 2 prim_partition"
  by (rule safe_primIs; auto simp: prim_partition_def sort_bindings_ok sym_right_def sym_wrong_def
      intro!: prim_rules bind_rule [OF partition_good])

lemma groupBy_good:
  "mem_ok C {} m \<Longrightarrow> k \<le> length (envs m) \<Longrightarrow> value_ok C {} m f \<Longrightarrow> \<forall>x \<in> set xs. value_ok C {} m x \<Longrightarrow>
   good C k m (groupBy_loop run f xs) (\<lambda>m' ps. \<forall>p \<in> set ps. value_ok C {} m' (snd p))"
proof (induction xs arbitrary: m)
  case (Cons x xs)
  then show ?case by (auto intro!: prim_rules bind_rule [OF Cons.IH])
qed (auto intro: good_ret)

lemma groupBy_safe: "safe_prim C run 2 prim_groupBy"
proof (rule safe_primIs)
  fix m k a b
  assume a: "mem_ok C {} m" "k \<le> length (envs m)" "value_ok C {} m a" "value_ok C {} m b"
  have groups: "good C k m' (bind_ev (allocBindings (length (groups ps))) (\<lambda>obj.
          bind_ev (map_ev (\<lambda>g. bind_ev newObject (\<lambda>content. ret (VList content (snd g)))) (groups ps)) (\<lambda>vs.
            ret (VAttrs obj (zip (map fst (groups ps)) vs))))) (value_ok C {})"
    if ps: "mem_ok C {} m'" "k \<le> length (envs m')" "\<forall>p \<in> set ps. value_ok C {} m' (snd p)" for m' ps
  proof -
    have "value_ok C {} m' x" if "g \<in> set (groups ps)" "x \<in> set (snd g)" for g x using groups_values [OF that] ps(3) by auto
    then show ?thesis using ps(1,2) groups_ok by (auto intro!: prim_rules map_rule dest!: set_zip_rightD)
  qed
  show "good C k m (prim_groupBy run [a, b]) (value_ok C {})" unfolding prim_groupBy_def Let_def
    using a by (auto intro!: prim_rules bind_rule [OF groupBy_good] groups)
qed

lemma arithmetic_safe: "safe_prim C run 2 (arithmetic C fop iop)"
  by (rule safe_primIs; auto simp: arithmetic_def intro!: prim_rules split: option.splits)

lemma numbers_safe:
  "safe_prim C run 2 (prim_add C)" "safe_prim C run 2 (prim_sub C)" "safe_prim C run 2 (prim_mul C)" "safe_prim C run 2 (prim_div C)"
  "safe_prim C run 2 prim_bitAnd" "safe_prim C run 2 prim_bitOr" "safe_prim C run 2 prim_bitXor" "safe_prim C run 2 (prim_lessThan C)"
  unfolding prim_add_def prim_sub_def prim_mul_def
  by (rule arithmetic_safe | rule safe_primIs, auto simp: prim_div_def prim_bitAnd_def prim_bitOr_def prim_bitXor_def bitwise_def
      prim_lessThan_def intro!: prim_rules split: option.splits)+

lemma substringOf_good: "mem_ok C {} m \<Longrightarrow> k \<le> length (envs m) \<Longrightarrow> value_ok C {} m v \<Longrightarrow> good C k m (substringOf run start len v) (value_ok C {})"
  by (auto simp: substringOf_def intro!: prim_rules)

lemma strings_safe:
  "safe_prim C run 1 prim_toString" "safe_prim C run 3 prim_substring" "safe_prim C run 1 prim_stringLength"
  "safe_prim C run 1 prim_unsafeDiscardStringContext" "safe_prim C run 1 prim_hasContext"
  by (rule safe_primIs; auto simp: prim_toString_def prim_substring_def prim_stringLength_def prim_unsafeDiscardStringContext_def
      prim_hasContext_def intro!: prim_rules substringOf_good split: val.splits)+

lemma concatSep_good:
  "mem_ok C {} m \<Longrightarrow> k \<le> length (envs m) \<Longrightarrow> \<forall>x \<in> set xs. value_ok C {} m x \<Longrightarrow> good C k m (concatSep_loop run sep first c xs) (\<lambda>m' r. True)"
proof (induction xs arbitrary: m first c)
  case (Cons x xs)
  then show ?case by (auto intro!: prim_rules bind_rule [OF Cons.IH])
qed (auto intro: good_ret)

lemma concatSep_safe: "safe_prim C run 2 prim_concatStringsSep"
  by (rule safe_primIs; auto simp: prim_concatStringsSep_def intro!: prim_rules bind_rule [OF concatSep_good])

lemma versions_safe:
  "safe_prim C run 1 prim_parseDrvName" "safe_prim C run 2 (prim_compareVersions toInt)" "safe_prim C run 1 prim_splitVersion"
  by (rule safe_primIs; auto simp: prim_parseDrvName_def prim_compareVersions_def prim_splitVersion_def Let_def sort_bindings_ok fresh_names
      sym_name_def intro!: prim_rules)+

lemma replacement_good:
  "mem_ok C {} m \<Longrightarrow> k \<le> length (envs m) \<Longrightarrow> i < length ys \<Longrightarrow> \<forall>y \<in> set ys. value_ok C {} m y \<Longrightarrow>
   good C k m (replacement run ys cache i c) (\<lambda>m' r. True)"
  by (auto simp: replacement_def intro!: prim_rules split: option.splits)

lemma replace_good:
  assumes "length xs = length ys"
  shows "mem_ok C {} m \<Longrightarrow> k \<le> length (envs m) \<Longrightarrow> \<forall>y \<in> set ys. value_ok C {} m y \<Longrightarrow> good C k m (replace_loop run xs ys s cache c) (\<lambda>m' r. True)"
proof (induction "length s" arbitrary: s m cache c rule: less_induct)
  case less
  have rest: "good C k m' (bind_ev (replace_loop run xs ys s' cache' c') (\<lambda>(res, c''). ret (f res c''))) (\<lambda>m' r. True)"
    if "length s' < length s" "mem_ok C {} m'" "k \<le> length (envs m')" "stays C m m'" for s' m' cache' c' and f :: "string \<Rightarrow> string set \<Rightarrow> string \<times> string set"
    by (rule bind_rule [OF less.hyps [OF that(1-3)]]) (use less.prems(3) that(4) in \<open>auto intro!: good_ret split: prod.splits\<close>)
  show ?case
  proof (cases "firstMatch xs s")
    case None
    then show ?thesis using rest [of _ m] less.prems(1,2) by (subst replace_loop.simps) (auto intro!: good_ret split: list.splits)
  next
    case (Some i)
    from firstMatch_take [OF Some] have i: "i < length ys" "take (length (xs ! i)) s = xs ! i" using assms by auto
    then have short: "length (drop (length (xs ! i)) s) < length s" if "xs ! i \<noteq> []" using that by (cases s) auto
    show ?thesis unfolding replace_loop.simps [of run xs ys s] Some option.case
      by (rule bind_rule [OF replacement_good [OF less.prems(1,2) i(1) less.prems(3)]])
        (use short in \<open>auto intro!: good_ret rest split: list.splits\<close>)
  qed
qed

lemma replaceStrings_safe: "safe_prim C run 3 prim_replaceStrings"
proof (rule safe_primIs)
  fix m k a b c
  assume a: "mem_ok C {} m" "k \<le> length (envs m)" "value_ok C {} m a" "value_ok C {} m b" "value_ok C {} m c"
  have strings: "good C k m' (map_ev (\<lambda>x. bind_ev (forceString run x) (\<lambda>(s, c). ret s)) xs) (\<lambda>m'' ss. length ss = n)"
    if "mem_ok C {} m'" "k \<le> length (envs m')" "\<forall>x \<in> set xs. value_ok C {} m' x" "length xs = n" for m' xs n
  proof -
    have "good C k m' (map_ev (\<lambda>x. bind_ev (forceString run x) (\<lambda>(s, c). ret s)) xs) (\<lambda>m'' ss. length ss = length xs \<and> (\<forall>s \<in> set ss. True))"
      by (rule map_ev_rule [where Q = "\<lambda>m'' y. True"]) (use that in \<open>auto intro!: prim_rules\<close>)
    then show ?thesis using that(4) by simp
  qed
  show "good C k m (prim_replaceStrings run [a, b, c]) (value_ok C {})" unfolding prim_replaceStrings_def
    using a by (auto intro!: prim_rules bind_rule [OF replace_good] bind_rule [OF strings])
qed

lemma table_safe: "\<forall>x \<in> set (builtin_table toInt C). safe_prim C run (fst (snd x)) (snd (snd x))"
  unfolding builtin_table_def
  by (simp add: types_safe control_safe tryEval_safe names_safe lookup_safe removeAttrs_safe listToAttrs_safe intersectAttrs_safe catAttrs_safe
      functionArgs_safe mapAttrs_safe zipAttrsWith_safe elements_safe map_safe filter_safe elem_safe concatLists_safe foldl_safe anyOrAll_safe
      genList_safe partition_safe groupBy_safe concatMap_safe numbers_safe strings_safe concatSep_safe replaceStrings_safe versions_safe
      del: One_nat_def)

end

lemma ctx_fields:
  "float_of_int (C\<lparr>primops := p\<rparr>) = float_of_int C" "float_add (C\<lparr>primops := p\<rparr>) = float_add C" "float_sub (C\<lparr>primops := p\<rparr>) = float_sub C"
  "float_mul (C\<lparr>primops := p\<rparr>) = float_mul C" "float_div (C\<lparr>primops := p\<rparr>) = float_div C" "float_eq (C\<lparr>primops := p\<rparr>) = float_eq C"
  "float_less (C\<lparr>primops := p\<rparr>) = float_less C"
  by simp_all

lemma table_primops: "builtin_table toInt (C\<lparr>primops := p\<rparr>) = builtin_table toInt C"
  unfolding builtin_table_def prim_add_def prim_sub_def prim_mul_def prim_div_def prim_lessThan_def arithmetic_def compareValues_def
    compareSameType_def forceFloat_def checkFloat_def ctx_fields ..

lemma std_ctx_ok: "ctx_ok (std_ctx toInt base)"
  unfolding ctx_ok_def
proof (intro allI impI)
  fix name p
  assume "primops (std_ctx toInt base) name = Some p"
  then obtain n f where f: "(name, n, f) \<in> set (builtin_table toInt (std_ctx toInt base))" "p = \<lparr>arity = n, prim_fun = f\<rparr>"
    by (auto simp: std_ctx_def std_primops_def table_primops dest: map_of_SomeD)
  show "primop_ok (std_ctx toInt base) p" unfolding primop_ok_def
  proof (intro allI impI)
    fix run m args
    assume a: "runner_ok (std_ctx toInt base) run" "mem_ok (std_ctx toInt base) {} m" "length args = arity p"
      "\<forall>x \<in> set args. value_ok (std_ctx toInt base) {} m x"
    have "task_runner (std_ctx toInt base) run" using a(1) by (simp add: task_runner_def)
    from task_runner.table_safe [OF this, of toInt] have "safe_prim (std_ctx toInt base) run n f" using f(1) by force
    then show "good (std_ctx toInt base) (length (envs m)) m (prim_fun p run args) (value_ok (std_ctx toInt base) {})"
      using a f(2) by (simp add: safe_prim_def)
  qed
qed

interpretation std: evaluator "std_ctx toInt base" "run_ev (std_ctx toInt base) n" for toInt base n
  by unfold_locales (auto intro: run_ev_ok std_ctx_ok)

end
