(* ===== verification/Lix_Language.thy ===== *)
theory Lix_Language
  imports Lix_Primops
begin

text \<open>
  What the evaluator of the language promises, with the builtins of the table and every setting, floating-point unit and store: it is
  memory safe, leaves nothing half done, and evaluates a thunk once; and what the operations on sets compute.
\<close>

section \<open>Evaluation is safe\<close>

lemma std_good:
  assumes "mem_ok (std_ctx toInt base) {} m" and "task_ok (std_ctx toInt base) m t" and "run_ev (std_ctx toInt base) n t m = Some (r, m')"
  shows "mem_ok (std_ctx toInt base) {} m' \<and> ext (length (envs m)) m m'
    \<and> (case r of Inl e \<Rightarrow> safe_error e | Inr v \<Rightarrow> value_ok (std_ctx toInt base) {} m' v)"
  using std.run_good [OF assms(1) order_refl assms(2), of n] assms(3) by (simp add: good_def)

text \<open>C3: memory safety of the evaluator: take an expression of the parser whose variables were bound in a static environment, and evaluate
  it in an environment of that shape, in well-formed memory. However deep the evaluation goes, if it ends, then not in undefined
  behaviour: no environment, place, thunk, application or builtin is used that does not exist and no place before it is filled; and memory
  is well formed again, with the result in it, also after an exception.\<close>

theorem eval_memory_safe:
  assumes "mem_ok (std_ctx toInt base) {} m" and "env_full {} (envs m) env"
    and "parsed None e" and "bindVars senv e = Inr e'" and "env_match senv (env_frames (envs m) env)"
    and "run_ev (std_ctx toInt base) n (TEval env e') m = Some (r, m')"
  shows "mem_ok (std_ctx toInt base) {} m' \<and> (case r of Inl err \<Rightarrow> safe_error err | Inr v \<Rightarrow> value_ok (std_ctx toInt base) {} m' v)"
proof -
  have "task_ok (std_ctx toInt base) m (TEval env e')" using assms(2) bind_scoped_all(1) [OF assms(4,3,5)] by simp
  from std_good [OF assms(1) this assms(6)] show ?thesis by blast
qed

text \<open>A context, memory and an expression to evaluate.\<close>

definition example_base :: Ctx where
  "example_base =
     \<lparr>maxCallDepth = 10000, coerceIntegers = False, float_of_int = (\<lambda>i. i), float_add = (\<lambda>x y. x + y), float_sub = (\<lambda>x y. x - y),
      float_mul = (\<lambda>x y. x * y), float_div = (\<lambda>x y. x), float_eq = (\<lambda>x y. x = y), float_less = (\<lambda>x y. x < y), float_string = (\<lambda>x. ''0''),
      copyPathToStore = (\<lambda>p. Inl ''no store''), primops = (\<lambda>name. None)\<rparr>"

definition example_mem :: Mem where
  "example_mem = (mem0 [])\<lparr>thunks := [Suspended 0 (ExprList [])]\<rparr>"

lemma example_mem_ok: "mem_ok C {} example_mem" "env_full {} (envs example_mem) 0" "env_frames (envs example_mem) 0 = [0]"
  by (auto simp: example_mem_def mem_ok_def mem0_def symbols_ok_def env_full.simps env_frames.simps)

definition example_let :: "binding \<Rightarrow> expr" where
  "example_let b = ExprLet [AttrDef 60 Plain (ExprOpNot (ExprOpEq (ExprLiteral (LInt 1)) (ExprLiteral (LInt 2))))] None (ExprVar 60 False b)"

text \<open>Rules by which the simplifier runs the evaluator; a recursion is unfolded only when memory is at hand.\<close>

lemma run_app:
  "run_ev C (Suc n) t m = step C (run_ev C n) t m" "run_ev C (numeral k) t m = step C (run_ev C (pred_numeral k)) t m"
  by (simp_all add: numeral_eq_Suc)

lemma loop_values [simp]:
  "shortcut_loop m (VInt n) = Some (Inr (VInt n))" "shortcut_loop m (VBool b') = Some (Inr (VBool b'))"
  "shortcut_loop m (VPrimOp p) = Some (Inr (VPrimOp p))" "shortcut_loop m (VList i xs) = Some (Inr (VList i xs))"
  "shortcut_loop m (VLambda i env p' b) = Some (Inr (VLambda i env p' b))" "shortcut_loop m (VAttrs i as) = Some (Inr (VAttrs i as))"
  "shortcut_loop m (VString s c) = Some (Inr (VString s c))"
  "shortcut_loop m (VApp a) = (if a < length (apps m) then (case apps m ! a of AppResolved r \<Rightarrow> shortcut_loop m r | _ \<Rightarrow> Some (Inr (VApp a)))
     else Some (Inl (UndefinedBehaviour ''invalid memory access'')))"
  "app_target ys (VLambda i env p' b) = Some (Inr (VLambda i env p' b))" "app_total ys (VLambda i env p' b) = Some (Inr 0)"
  "app_target ys (VPrimOp p) = Some (Inr (VPrimOp p))"
  "app_target ys (VApp a) = (if a < length ys then app_target ys (case ys ! a of Pending left args \<Rightarrow> left | AppResolved r \<Rightarrow> r)
     else Some (Inl (UndefinedBehaviour ''invalid memory access'')))"
  "app_total ys (VPrimOp p) = Some (Inr 0)"
  "app_total ys (VApp a) =
          (if a < length ys
           then Option.bind (app_total ys (case ys ! a of Pending left args \<Rightarrow> left | AppResolved r \<Rightarrow> r))
                  (\<lambda>n. Some (bindr n (\<lambda>n. Inr ((case ys ! a of Pending left args \<Rightarrow> of_nat (length args) | AppResolved r \<Rightarrow> - 1) + n))))
           else Some (Inl (UndefinedBehaviour ''invalid memory access'')))"
  by (subst shortcut_loop.simps app_target.simps app_total.simps; simp)+

lemmas eval_rules = run_app step_def evalExpr_def bind_ev_def ret_def throw_def evalCall_def callFunction_def callLoop_def callPrimOp_def
  callPrimOpApp_def primopArity_def makeAppChain_def forceValue_def forceThunk_def forceApp_def setThunk_def setApp_def target_def totalArgs_def
  shortcut_def valueType_def isPrimOp_def literal_value_def maybeThunk_def newThunk_def newApp_def newObject_def lookupVar_def validSlot_def
  readSlot_def prim_seq_def prim_mapAttrs_def prim_typeOf_def forcedType_def evalSet_def evalPlainAttrs_def allocBindings_def buildInheritFromEnv_def
  attrThunk_def evalSelect_def orDefault_def getName_def bindings_get_def sorted_get_def lower_bound_def symbolString_def lift_ev_def sym_string_def
  forceAttrs_def checkAttrs_def matchPattern_def allocEnv_def writeSlot_def envUp_def prim_map_def prim_head_def elemAt_def forceList_def checkList_def forceFunction_def isFunctor_def
  evalLet_def checkBool_def evalBinary_def runEq_def eqValues_def eqSameType_def

lemma example_let_runs: "\<exists>m'. run_ev C 7 (TEval 0 (example_let (Bound 0 0))) example_mem = Some (Inr (VBool True), m')"
  by (simp add: eval_rules example_let_def example_mem_def mem0_def del: run_ev.simps)

theorem eval_memory_safe_witness:
  "\<exists>m'. run_ev (std_ctx decimalInt example_base) 7 (TEval 0 (example_let (Bound 0 0))) example_mem = Some (Inr (VBool True), m')
    \<and> mem_ok (std_ctx decimalInt example_base) {} m'"
proof -
  have b: "bindVars [StaticVars True []] (example_let Unbound) = Inr (example_let (Bound 0 0))" by code_simp
  have p: "parsed None (example_let Unbound)" by (simp add: example_let_def names_ok_def from_count_def)
  have e: "env_match [StaticVars True []] (env_frames (envs example_mem) 0)" using example_mem_ok(3) by (simp add: omap_ok_def)
  from example_let_runs [of "std_ctx decimalInt example_base"] obtain m' where
    m': "run_ev (std_ctx decimalInt example_base) 7 (TEval 0 (example_let (Bound 0 0))) example_mem = Some (Inr (VBool True), m')" by blast
  from eval_memory_safe [OF example_mem_ok(1,2) p b e m'] m' show ?thesis by blast
qed

text \<open>C4: evaluation leaves nothing half done, whether it ends with a result or with an exception: a thunk that was not being evaluated
  before is not left as a black hole, one that was still is, no environment that existed before is changed, and the call depth is what
  it was.\<close>

theorem eval_leaves_no_black_hole:
  assumes "mem_ok (std_ctx toInt base) {} m" and "task_ok (std_ctx toInt base) m t" and "run_ev (std_ctx toInt base) n t m = Some (r, m')"
  shows "(\<forall>a. a < length (thunks m') \<and> thunks m' ! a = BlackHole \<longleftrightarrow> a < length (thunks m) \<and> thunks m ! a = BlackHole)
    \<and> take (length (envs m)) (envs m') = envs m \<and> callDepth m' = callDepth m"
proof -
  have e: "ext (length (envs m)) m m'" using std_good [OF assms] by blast
  then have t: "thunks_le (thunks m) (thunks m')" by (simp add: ext_def)
  have "a < length (thunks m') \<and> thunks m' ! a = BlackHole \<longleftrightarrow> a < length (thunks m) \<and> thunks m ! a = BlackHole" for a
    using t unfolding thunks_le_def by (metis not_le less_le_trans thunk.distinct(1,5))
  moreover have "take (length (envs m)) (envs m') = envs m"
    using e by (auto simp: ext_def env_le_def intro: nth_equalityI)
  ultimately show ?thesis using e by (simp add: ext_def)
qed

lemma example_force:
  "run_ev C (Suc (Suc n)) (TForce (VThunk 0)) example_mem
     = Some (Inr (VList 1 []), example_mem\<lparr>thunks := [Resolved (VList 1 [])], nextObj := 2\<rparr>)"
  by (simp add: example_mem_def mem0_def step_def forceValue_def forceThunk_def evalExpr_def bind_ev_def newObject_def ret_def setThunk_def)

theorem eval_leaves_no_black_hole_witness:
  "\<exists>m'. run_ev (std_ctx decimalInt example_base) 2 (TForce (VThunk 0)) example_mem = Some (Inr (VList 1 []), m')
    \<and> 0 < length (thunks m') \<and> thunks m' ! 0 \<noteq> BlackHole \<and> take 1 (envs m') = envs example_mem \<and> callDepth m' = 0"
  using eval_leaves_no_black_hole [OF example_mem_ok(1) _ example_force [of "std_ctx decimalInt example_base" 0]] example_force example_mem_ok(2)
  by (auto simp: eval_nat_numeral example_mem_def thunk_ok_def mem0_def)

text \<open>C5: a thunk is evaluated once: when forcing it has given a value, forcing it again gives the same value at once and leaves memory as
  it is.\<close>

theorem force_is_memoised:
  assumes "mem_ok (std_ctx toInt base) {} m" and "value_ok (std_ctx toInt base) {} m (VThunk a)"
    and "run_ev (std_ctx toInt base) n (TForce (VThunk a)) m = Some (Inr v, m')"
  shows "run_ev (std_ctx toInt base) (Suc k) (TForce (VThunk a)) m' = Some (Inr v, m')"
proof -
  obtain n' where n: "n = Suc n'" using assms(3) by (cases n) auto
  have a: "a < length (thunks m)" using assms(2) by simp
  have f: "forceThunk (run_ev (std_ctx toInt base) n') a m = Some (Inr v, m')" using assms(3) n by (simp add: step_def forceValue_def)
  have "ext (length (envs m)) m m'" using std_good [OF assms(1) _ assms(3)] assms(2) by auto
  then have len: "a < length (thunks m')" using a by (auto simp: ext_def thunks_le_def)
  have "thunks m' ! a = Resolved v"
  proof (cases "thunks m ! a")
    case (Suspended env e)
    then obtain m2 where "m' = setThunk a (Resolved v) m2" using f a by (auto simp: forceThunk_def split: option.splits sum.splits)
    then show ?thesis using len by (simp add: setThunk_def)
  qed (use f a in \<open>auto simp: forceThunk_def ret_def throw_def\<close>)
  then show ?thesis using len by (simp add: step_def forceValue_def forceThunk_def ret_def)
qed

theorem force_is_memoised_witness:
  "run_ev (std_ctx decimalInt example_base) (Suc 0) (TForce (VThunk 0)) (example_mem\<lparr>thunks := [Resolved (VList 1 [])], nextObj := 2\<rparr>)
     = Some (Inr (VList 1 []), example_mem\<lparr>thunks := [Resolved (VList 1 [])], nextObj := 2\<rparr>)"
proof (rule force_is_memoised [OF example_mem_ok(1)])
  show "value_ok (std_ctx decimalInt example_base) {} example_mem (VThunk 0)"
    using example_mem_ok(2) by (simp add: example_mem_def thunk_ok_def)
  show "run_ev (std_ctx decimalInt example_base) (Suc (Suc 0)) (TForce (VThunk 0)) example_mem
     = Some (Inr (VList 1 []), example_mem\<lparr>thunks := [Resolved (VList 1 [])], nextObj := 2\<rparr>)" by (rule example_force)
qed

section \<open>Sets\<close>

text \<open>C19: the builtins on sets do what their names say: \<^verbatim>\<open>intersectAttrs\<close>, which walks the smaller set and looks its names up in the larger
  one, yields the attributes of the second set whose names the first one has; \<^verbatim>\<open>removeAttrs\<close>, a merge of two sorted sequences, yields those
  attributes whose names are not listed; both again sorted, so that lookups in the result work.\<close>

theorem attribute_operations:
  assumes "omap_ok as" and "omap_ok bs"
  shows "intersect as bs = filter (\<lambda>b. fst b \<in> fst ` set as) bs \<and> omap_ok (intersect as bs)
    \<and> set_difference as (sort names) = filter (\<lambda>a. fst a \<notin> set names) as \<and> omap_ok (set_difference as (sort names))
    \<and> bindings_get name (set_difference as (sort names)) = (if name \<in> set names then None else bindings_get name as)"
proof -
  have d: "set_difference as (sort names) = filter (\<lambda>a. fst a \<notin> set names) as" using set_difference_filter [OF assms(1), of "sort names"] by simp
  have "map_of (filter (\<lambda>a. fst a \<notin> set names) as) name = (if name \<in> set names then None else map_of as name)"
    by (induction as) auto
  then show ?thesis using d intersect_filter [OF assms] assms by (simp add: bindings_get_map_of omap_ok_filter)
qed

theorem attribute_operations_witness:
  "intersect [(60, VInt 1), (61, VInt 2)] [(61, VInt 3), (62, VNull), (63, VNull)] = [(61, VInt 3)]
   \<and> set_difference [(60, VInt 1), (61, VInt 2)] (sort [61, 59]) = [(60, VInt 1)]"
  using attribute_operations [of "[(60, VInt 1), (61, VInt 2)]" "[(61, VInt 3), (62, VNull), (63, VNull)]" "[61, 59]" 60]
  by (simp add: omap_ok_def)

section \<open>Applications of builtins that lack arguments\<close>

text \<open>
  An application whose function is itself an application of a builtin breaks an assertion of \<^verbatim>\<open>callFunction\<close>; \<^verbatim>\<open>map\<close> builds one. The
  expression is \<^verbatim>\<open>builtins.head (builtins.map (builtins.substring 0) [ 3 ]) "hello"\<close>.
\<close>

lemma std_table:
  "primops (std_ctx toInt base) ''head'' = Some \<lparr>arity = 1, prim_fun = prim_head\<rparr>"
  "primops (std_ctx toInt base) ''map'' = Some \<lparr>arity = 2, prim_fun = prim_map\<rparr>"
  "primops (std_ctx toInt base) ''substring'' = Some \<lparr>arity = 3, prim_fun = prim_substring\<rparr>"
  "primops (std_ctx toInt base) ''seq'' = Some \<lparr>arity = 2, prim_fun = prim_seq\<rparr>"
  "primops (std_ctx toInt base) ''mapAttrs'' = Some \<lparr>arity = 2, prim_fun = prim_mapAttrs\<rparr>"
  "primops (std_ctx toInt base) ''typeOf'' = Some \<lparr>arity = 1, prim_fun = prim_typeOf\<rparr>"
  "primops (std_ctx toInt base) ''foldl'' = Some \<lparr>arity = 3, prim_fun = prim_foldlStrict\<rparr>"
  "maxCallDepth (std_ctx toInt base) = maxCallDepth base"
  by (simp_all add: std_ctx_def std_primops_def builtin_table_def)

definition map_bug :: expr where
  "map_bug = ExprCall (ExprVar 70 False (Bound 0 0))
     [ExprCall (ExprVar 71 False (Bound 0 1)) [ExprCall (ExprVar 72 False (Bound 0 2)) [ExprLiteral (LInt 0)], ExprList [ExprLiteral (LInt 3)]],
      ExprLiteral (LString ''hello'')]"

definition bug_mem :: Mem where
  "bug_mem = mem0 [Some (VPrimOp ''head''), Some (VPrimOp ''map''), Some (VPrimOp ''substring'')]"

lemma map_bug_asserts:
  assumes "maxCallDepth base > 10"
  shows "\<exists>m. run_ev (std_ctx toInt base) 12 (TEval 0 map_bug) bug_mem = Some (Inl (AssertionFailed ''!vCur.app().left().isApp()''), m)"
  using assms
  by (simp add: eval_rules std_table map_bug_def bug_mem_def mem0_def del: run_ev.simps)

text \<open>
  The count of arguments of an application that was resolved is taken for a number: forcing the application of a builtin that reaches its
  last argument through such an application does not call it, and a string has the type of a function. The expression is the type of
  \<^verbatim>\<open>head (map (f: seq f (mapAttrs f { right = [ "1" ]; }).right) (map (k: foldl' (a: b: a)) [ 1 ]))\<close>.
\<close>

abbreviation bv :: "nat \<Rightarrow> nat \<Rightarrow> expr" where
  "bv l i \<equiv> ExprVar 60 False (Bound l i)"

definition args_bug :: expr where
  "args_bug = ExprCall (bv 0 0) [ExprCall (bv 0 1)
     [ExprLambda (SimplePattern 60)
        (ExprCall (bv 1 3) [bv 0 0,
           ExprSelect (ExprCall (bv 1 4) [bv 0 0, ExprSet False [AttrDef 20 Plain (ExprList [ExprLiteral (LString ''1'')])] None []]) [AttrSymbol 20] None]),
      ExprCall (bv 0 1)
        [ExprLambda (SimplePattern 61) (ExprCall (bv 1 6) [ExprLambda (SimplePattern 62) (ExprLambda (SimplePattern 63) (bv 1 0))]), ExprList [ExprLiteral (LInt 1)]]]]"

definition bug_mem2 :: Mem where
  "bug_mem2 = mem0 (map (\<lambda>n. Some (VPrimOp n)) [''head'', ''map'', ''substring'', ''seq'', ''mapAttrs'', ''typeOf'', ''foldl''])"

lemma args_bug_type:
  assumes "maxCallDepth base > 10"
  shows "\<exists>m. run_ev (std_ctx toInt base) 24 (TEval 0 (ExprCall (bv 0 5) [args_bug])) bug_mem2 = Some (Inr (VString ''lambda'' {}), m)"
  using assms
  by (simp add: eval_rules std_table args_bug_def bug_mem2_def mem0_def nix_symbols_def lower_bound_loop.simps del: run_ev.simps)

end
