(* ===== verification/Spec2Isabelle.thy ===== *)
theory Spec2Isabelle
  imports Lix_Hash Lix_Canon_Path Lix_Archive Lix_References Lix_Topo_Sort Lix_Names Lix_Outputs_Spec
    Lix_Worker_Protocol Lix_Local_Store Lix_Gc_Server Lix_Language
begin

text \<open>
  A verification development for the core of Lix, an implementation of the Nix package manager in C++ (\<^verbatim>\<open>src/lix\<close>). Lix evaluates a
  functional language to derivations (build instructions), builds them, and keeps the results in a store whose paths are computed from
  hashes. The development models the parts that decide what is correct: the language and its evaluator, the computation and the syntax of
  store paths, derivations and their hashes, archives, the database of the local store, the garbage collector, and the formats and
  protocols by which stores exchange paths. Every C++ function is a function here: what it throws is a value \<^verbatim>\<open>Inl\<close> of
  \<open>'a result\<close>, its state is passed explicitly, a machine integer is a word or has its bound written out, a container of the standard
  library is the list it iterates over (\<^verbatim>\<open>std::map\<close> and \<^verbatim>\<open>std::set\<close> are sorted lists, \<open>omap\<close> and \<open>oset\<close> of \<^verbatim>\<open>Lix_Prelude\<close>).

  \<^bold>\<open>Utilities (\<^verbatim>\<open>libutil\<close>).\<close> \<^verbatim>\<open>Lix_Prelude\<close> has the errors, the result type, ordered containers and lemmas that all theories share.
  \<^verbatim>\<open>Lix_Strings\<close> is \<^verbatim>\<open>strings.cc\<close> and \<^verbatim>\<open>split.hh\<close> (tokenising, joining, trimming, the \<^verbatim>\<open>Rewriter\<close>). \<^verbatim>\<open>Lix_Base_Encoding\<close> and \<^verbatim>\<open>Lix_Hash\<close> are
  \<^verbatim>\<open>hash.cc\<close>: base 16, 32 and 64, parsing and printing of hashes. \<^verbatim>\<open>Lix_Canon_Path\<close> has \<^verbatim>\<open>canonPath\<close> with symbolic links and the class
  \<^verbatim>\<open>CanonPath\<close>: its result is canonical and, without links, the normalised list of components. \<^verbatim>\<open>Lix_Io_Buffer\<close>, \<^verbatim>\<open>Lix_Streams\<close> and
  \<^verbatim>\<open>Lix_Serialise\<close> are the ring buffer, buffered and framed sinks and sources and the wire format: what is written arrives in order,
  however it is cut. \<^verbatim>\<open>Lix_Archive\<close> is \<^verbatim>\<open>archive.cc\<close>: the parser of NAR archives accepts exactly what the printer prints, and the index
  points at the contents. \<^verbatim>\<open>Lix_References\<close> is the scanner for references and the rewriting source. \<^verbatim>\<open>Lix_Topo_Sort\<close>, \<^verbatim>\<open>Lix_Closure\<close> and
  \<^verbatim>\<open>Lix_Lru_Cache\<close> are the templates \<^verbatim>\<open>topoSort\<close>, \<^verbatim>\<open>computeClosure\<close> and \<^verbatim>\<open>LRUCache\<close>.

  \<^bold>\<open>Stores (\<^verbatim>\<open>libstore\<close>).\<close> \<^verbatim>\<open>Lix_Store_Path\<close>, \<^verbatim>\<open>Lix_Names\<close>, \<^verbatim>\<open>Lix_Outputs_Spec\<close>, \<^verbatim>\<open>Lix_Content_Address\<close>: the syntax of store paths, names
  and versions, outputs and derived paths, content addresses, and the computation of store paths (equal paths mean equal inputs, or
  the two strings that \<^verbatim>\<open>store-api.cc\<close> documents for these inputs are different with the same compressed digest).
  \<^verbatim>\<open>Lix_Derivations\<close> is the ATerm format of derivations, with a grammar that the parser accepts exactly; \<^verbatim>\<open>Lix_Drv_Hash\<close> hashes them modulo fixed outputs and
  checks their invariants. \<^verbatim>\<open>Lix_Crypto\<close>, \<^verbatim>\<open>Lix_Path_Info\<close>: signatures, path infos and the textual NAR info. \<^verbatim>\<open>Lix_Protocol\<close>,
  \<^verbatim>\<open>Lix_Worker_Protocol\<close>: the serialisers of the protocols, with round trips. \<^verbatim>\<open>Lix_Store_Closure\<close>: closures and sorting over a store.
  \<^verbatim>\<open>Lix_Local_Store\<close>: the tables and statements of \<^verbatim>\<open>local-store.cc\<close>, registration and invalidation with transactions and the path info
  cache; the invariant of the database is kept. \<^verbatim>\<open>Lix_Gc\<close> is \<^verbatim>\<open>collectGarbage\<close>: it deletes no reachable path, deletes every dead one, and
  returns. \<^verbatim>\<open>Lix_Gc_Server\<close> is the server for temporary roots that runs beside it, as a step relation of interleaved clients.

  \<^bold>\<open>The language (\<^verbatim>\<open>libexpr\<close>).\<close> \<^verbatim>\<open>Lix_Expr\<close> has symbols, the sorted vector \<^verbatim>\<open>LinearMap\<close>, expressions and the pass of \<^verbatim>\<open>nixexpr.cc\<close> that
  replaces variables by levels and displacements; it is lexical scoping, and what it yields fits the environments of run time.
  \<^verbatim>\<open>Lix_Value\<close> has checked arithmetic, tagged integers, values and the memory of the evaluator: lists of thunks, applications and
  environments, by address. \<^verbatim>\<open>Lix_Eval\<close> is \<^verbatim>\<open>eval-expr.cc\<close> and the core of \<^verbatim>\<open>eval.cc\<close>. Its functions call each other without a bound, so each
  takes the operations it calls as an argument \<open>run\<close>, and \<open>run_ev C n\<close> ties the knot with recursion of depth \<open>n\<close>, where \<^const>\<open>None\<close>
  stands for a recursion that is deeper; the theorems hold for every \<open>n\<close>. \<^verbatim>\<open>Lix_Eval_Memory\<close> states when memory is well formed and how it may
  change, \<^verbatim>\<open>Lix_Eval_Safety\<close> proves, in the locale \<open>task_runner\<close> for the operations and in its extension \<open>evaluator\<close> for the whole, that
  every operation keeps it well formed if those it calls do. \<^verbatim>\<open>Lix_Primops\<close> models 59 builtins of \<^verbatim>\<open>primops.cc\<close>, proves each one safe and
  interprets the locale for the evaluator with them; \<^verbatim>\<open>Lix_Language\<close> has the resulting theorems: evaluation never uses memory that is not
  there, leaves no black hole behind and evaluates a thunk once.

  \<^bold>\<open>Interfaces.\<close> Locales state what one part relies on of another and are interpreted on the definitions of the model: a codec, a format
  on the wire and a map of the standard library (\<^verbatim>\<open>Lix_Prelude\<close>), the operations on paths (\<^verbatim>\<open>Lix_Canon_Path\<close>), the queue that a ring buffer
  is (\<^verbatim>\<open>Lix_Io_Buffer\<close>), sinks and sources of bytes (\<^verbatim>\<open>Lix_Streams\<close>, \<^verbatim>\<open>Lix_Serialise\<close>), lists in an ATerm (\<^verbatim>\<open>Lix_Derivations\<close>), containers in a
  protocol (\<^verbatim>\<open>Lix_Protocol\<close>), and what performs the tasks of the evaluator (\<^verbatim>\<open>Lix_Eval_Safety\<close>).

  \<^bold>\<open>Bounds.\<close> \<^verbatim>\<open>topoSort\<close> has as fuel the number of items plus one, which is proved enough; \<^verbatim>\<open>canonPath\<close> counts the 1024 links of the code;
  hashing a derivation has a depth that is proved enough if inputs have no cycle; the loops of closures and of the collector are
  partial functions, proved to return when finitely many paths are reachable. Draining a source has the code's window of 8192 bytes.
  Numbers on the wire are 64-bit words; the strings of an archive have the limits of the code.

  \<^bold>\<open>Parameters.\<close> What is not in the repository is an argument: digests (\<open>digest\<close>) and Ed25519 of OpenSSL, \<^verbatim>\<open>boost::lexical_cast\<close> and
  \<^verbatim>\<open>std::regex\<close>, lookups in the file system, sizes, locks and clocks, the query functions of a store, and for the evaluator the operations
  on floating-point numbers, the settings, and copying a path to the store.

  \<^bold>\<open>Where the model is coarser.\<close> Positions, traces, statistics, the frames of the debugger and external values of the evaluator are left
  out. \<^verbatim>\<open>forceValue\<close> returns the value that the code also writes to the cell it was given; since thunks and applications remember their
  result, the cell only saves a step. Messages of errors are kept as the format string. Awaiting is sequential except in \<^verbatim>\<open>Lix_Gc_Server\<close>.
  The garbage collector asks the database where the code goes through the cache of path infos in front of it (\<open>visitReferrers\<close>,
  \<open>ownOutputs\<close>). \<^verbatim>\<open>readDerivation\<close> starts from a fresh object, as its callers pass it. The position in an archive is the length of
  the input less what remains, not a running counter, and \<^verbatim>\<open>concatMap\<close> counts without the bound of an \<^verbatim>\<open>unsigned int\<close>.

  \<^bold>\<open>Not modelled.\<close> The parser of the language, builtins that read files, the store, regular expressions, JSON or XML, \<^verbatim>\<open>sort\<close> and
  \<^verbatim>\<open>genericClosure\<close> (their calls depend on algorithms of the standard library), \<^verbatim>\<open>forceValueDeep\<close>, flakes and fetchers; scheduling and
  sandboxing of builds, which is driven by processes and the event loop; remote stores and binary caches but for their formats;
  configuration, logging, compression and the command line programs. These are input, output, processes and settings around the core.
\<close>

end
